(* ===== verification/Pap_Prelude.thy ===== *)
theory Pap_Prelude
  imports Complex_Main "HOL-Library.Signed_Division"
begin

text \<open>
  Shared vocabulary of the development: the number type \<open>REAL\<close>, the theorem collections
  that carry the component proofs, the casts of the implementation language the sources use, and
  generic facts on lists that are updated by index and on sums over association lists.
\<close>

section \<open>Types and collections\<close>

text \<open>
  The sources are templates over \<open>REAL\<close>, instantiated with \<open>double\<close>, a 100 digit float and the
  exact \<open>Rational\<close> of Boost. The model is the exact instance.
\<close>

type_synonym REAL = rat

named_theorems tol_simps \<open>unfolds the tolerance comparisons of class Num\<close>
named_theorems flag_simps \<open>evaluates flag tests\<close>
named_theorems pap_len \<open>lengths of updated containers\<close>

section \<open>Casts\<close>

text \<open>\<open>static_cast<int>\<close> of a non-integral value truncates towards zero.\<close>

definition trunc_int :: "rat \<Rightarrow> int" where
  "trunc_int x = (if 0 \<le> x then \<lfloor>x\<rfloor> else \<lceil>x\<rceil>)"

lemma trunc_int_of_int [simp]: "trunc_int (of_int k) = k"
  by (simp add: trunc_int_def)

lemma trunc_int_of_nat [simp]: "trunc_int (of_nat k) = int k"
  by (simp add: trunc_int_def)

lemma trunc_int_numeral [simp]: "trunc_int (numeral k) = numeral k"
  by (simp add: trunc_int_def)

lemma trunc_int_0 [simp]: "trunc_int 0 = 0" and trunc_int_1 [simp]: "trunc_int 1 = 1"
  by (simp_all add: trunc_int_def)

text \<open>A C++ \<open>bool\<close> stored into an \<open>int\<close> vector.\<close>

definition bool_int :: "bool \<Rightarrow> int" where
  "bool_int b = (if b then 1 else 0)"

lemma bool_int_simps [simp]: "bool_int True = 1" "bool_int False = 0"
  "(bool_int b = 1) = b" "(bool_int b = 0) = (\<not> b)"
  by (auto simp: bool_int_def)

section \<open>Division of the implementation language\<close>

text \<open>Integer division of C++ (and of Boost's \<open>cpp_int\<close>) truncates towards zero: \<open>sdiv\<close>.\<close>

lemma sdiv_nonneg: "0 \<le> a \<Longrightarrow> 0 < b \<Longrightarrow> (a::int) sdiv b = a div b"
  by (cases "a = 0") (simp_all add: signed_divide_int_def)

lemma sdiv_neg: "a \<le> 0 \<Longrightarrow> 0 < b \<Longrightarrow> (a::int) sdiv b = - ((- a) div b)"
  by (cases "a = 0") (simp_all add: signed_divide_int_def)

lemma floor_via_quotient_of: "\<lfloor>x\<rfloor> = fst (quotient_of x) div snd (quotient_of x)"
  by (metis floor_divide_of_int_eq quotient_of_div surjective_pairing)

section \<open>Lists\<close>

lemma nth_list_update_if:
  "i < length xs \<Longrightarrow> (xs[i := v]) ! j = (if i = j then v else xs ! j)"
  by simp

lemma foldl_invariant:
  assumes "I s" and "\<And>s x. x \<in> set xs \<Longrightarrow> I s \<Longrightarrow> I (f s x)"
  shows "I (foldl f s xs)"
  using assms by (induction xs arbitrary: s) auto

lemma sum_list_remove_key:
  fixes f :: "'k \<times> 'v \<Rightarrow> 'a::comm_monoid_add"
  assumes "distinct (map fst es)" and "(k, v) \<in> set es"
  shows "sum_list (map f es) = f (k, v) + sum_list (map f (filter (\<lambda>e. fst e \<noteq> k) es))"
  using assms
proof (induction es)
  case Nil
  then show ?case by simp
next
  case (Cons e es)
  show ?case
  proof (cases "fst e = k")
    case True
    with Cons.prems have "e = (k, v)" by (auto simp: image_iff)
    moreover from True Cons.prems have "filter (\<lambda>e. fst e \<noteq> k) es = es"
      by (auto simp: filter_id_conv image_iff)
    ultimately show ?thesis by simp
  next
    case False
    with Cons.prems have "(k, v) \<in> set es" by auto
    with Cons False show ?thesis by (simp add: ac_simps)
  qed
qed

lemma sum_list_mono_elem:
  fixes f g :: "'a \<Rightarrow> rat"
  assumes "\<And>e. e \<in> set es \<Longrightarrow> f e \<le> g e"
  shows "sum_list (map f es) \<le> sum_list (map g es)"
  using assms by (induction es) (auto intro: add_mono)

end
