(* ===== verification/Pap_Num.thy ===== *)
theory Pap_Num
  imports Pap_Prelude "HOL-Library.Word"
begin

text \<open>
  \<open>src/papilo/misc/Num.hpp\<close>: the tolerance based comparisons every other component decides
  with, the rounding functions, and \<open>floor\<close> and \<open>ceil\<close> of the exact rational type.
\<close>

section \<open>Floor and ceiling of a rational\<close>

definition rational_floor :: "rat \<Rightarrow> rat" where
  "rational_floor x =
     (let n = fst (quotient_of x); d = snd (quotient_of x) in
      if x \<ge> 0 then of_int (n sdiv d)
      else if n < 0 then -1 + of_int ((n + 1) sdiv d)
      else -1 + of_int ((n - 1) sdiv d))"

definition rational_ceil :: "rat \<Rightarrow> rat" where
  "rational_ceil x =
     (let n = fst (quotient_of x); d = snd (quotient_of x) in
      if x \<le> 0 then of_int (n sdiv d)
      else if n < 0 then 1 + of_int ((n + 1) sdiv d)
      else 1 + of_int ((n - 1) sdiv d))"

section \<open>The tolerance context\<close>

text \<open>
  The members of class \<open>Num\<close>. \<open>fp_epsilon\<close> is the trait of the number type the template asks for:
  \<open>None\<close> for the exact rational (\<open>is_floating_point\<close> is false), \<open>Some e\<close> for a floating point
  type with \<open>numeric_limits::epsilon() = e\<close>.
\<close>

record Num =
  epsilon :: rat
  feastol :: rat
  hugeval :: rat
  useabsfeas :: bool
  fp_epsilon :: "rat option"

definition default_num :: Num where
  "default_num = \<lparr>epsilon = 1 / 10 ^ 9, feastol = 1 / 10 ^ 6, hugeval = 10 ^ 8,
     useabsfeas = True, fp_epsilon = None\<rparr>"

definition exact_num :: Num where
  "exact_num = \<lparr>epsilon = 0, feastol = 0, hugeval = 10 ^ 8,
     useabsfeas = True, fp_epsilon = None\<rparr>"

definition num_ok :: "Num \<Rightarrow> bool" where
  "num_ok num \<longleftrightarrow> 0 \<le> epsilon num \<and> 0 \<le> feastol num"

definition num_max :: "rat \<Rightarrow> rat \<Rightarrow> rat" where
  "num_max a b = (if a > b then a else b)"

definition num_min :: "rat \<Rightarrow> rat \<Rightarrow> rat" where
  "num_min a b = (if a < b then a else b)"

definition num_round :: "rat \<Rightarrow> rat" where
  "num_round x = rational_floor (x + 1 / 2)"

definition relDiff :: "rat \<Rightarrow> rat \<Rightarrow> rat" where
  "relDiff a b = (a - b) / num_max (num_max \<bar>a\<bar> \<bar>b\<bar>) 1"

subsection \<open>Comparisons with the numerical tolerance\<close>

definition isEq :: "Num \<Rightarrow> rat \<Rightarrow> rat \<Rightarrow> bool" where
  "isEq num a b \<longleftrightarrow> \<bar>a - b\<bar> \<le> epsilon num"

definition isGE :: "Num \<Rightarrow> rat \<Rightarrow> rat \<Rightarrow> bool" where
  "isGE num a b \<longleftrightarrow> a - b \<ge> - epsilon num"

definition isLE :: "Num \<Rightarrow> rat \<Rightarrow> rat \<Rightarrow> bool" where
  "isLE num a b \<longleftrightarrow> a - b \<le> epsilon num"

definition isGT :: "Num \<Rightarrow> rat \<Rightarrow> rat \<Rightarrow> bool" where
  "isGT num a b \<longleftrightarrow> a - b > epsilon num"

definition isLT :: "Num \<Rightarrow> rat \<Rightarrow> rat \<Rightarrow> bool" where
  "isLT num a b \<longleftrightarrow> a - b < - epsilon num"

definition isRelEq :: "Num \<Rightarrow> rat \<Rightarrow> rat \<Rightarrow> bool" where
  "isRelEq num a b \<longleftrightarrow> \<bar>relDiff a b\<bar> \<le> epsilon num"

definition isRelGE :: "Num \<Rightarrow> rat \<Rightarrow> rat \<Rightarrow> bool" where
  "isRelGE num a b \<longleftrightarrow> relDiff a b \<ge> - epsilon num"

definition isRelLE :: "Num \<Rightarrow> rat \<Rightarrow> rat \<Rightarrow> bool" where
  "isRelLE num a b \<longleftrightarrow> relDiff a b \<le> epsilon num"

definition isRelGT :: "Num \<Rightarrow> rat \<Rightarrow> rat \<Rightarrow> bool" where
  "isRelGT num a b \<longleftrightarrow> relDiff a b > epsilon num"

definition isRelLT :: "Num \<Rightarrow> rat \<Rightarrow> rat \<Rightarrow> bool" where
  "isRelLT num a b \<longleftrightarrow> relDiff a b < - epsilon num"

subsection \<open>Comparisons with the feasibility tolerance\<close>

definition isFeasAbsEq :: "Num \<Rightarrow> rat \<Rightarrow> rat \<Rightarrow> bool" where
  "isFeasAbsEq num a b \<longleftrightarrow> \<bar>a - b\<bar> \<le> feastol num"

definition isFeasRelEq :: "Num \<Rightarrow> rat \<Rightarrow> rat \<Rightarrow> bool" where
  "isFeasRelEq num a b \<longleftrightarrow> \<bar>relDiff a b\<bar> \<le> feastol num"

definition isFeasAbsGE :: "Num \<Rightarrow> rat \<Rightarrow> rat \<Rightarrow> bool" where
  "isFeasAbsGE num a b \<longleftrightarrow> a - b \<ge> - feastol num"

definition isFeasRelGE :: "Num \<Rightarrow> rat \<Rightarrow> rat \<Rightarrow> bool" where
  "isFeasRelGE num a b \<longleftrightarrow> relDiff a b \<ge> - feastol num"

definition isFeasAbsLE :: "Num \<Rightarrow> rat \<Rightarrow> rat \<Rightarrow> bool" where
  "isFeasAbsLE num a b \<longleftrightarrow> a - b \<le> feastol num"

definition isFeasRelLE :: "Num \<Rightarrow> rat \<Rightarrow> rat \<Rightarrow> bool" where
  "isFeasRelLE num a b \<longleftrightarrow> relDiff a b \<le> feastol num"

definition isFeasAbsGT :: "Num \<Rightarrow> rat \<Rightarrow> rat \<Rightarrow> bool" where
  "isFeasAbsGT num a b \<longleftrightarrow> a - b > feastol num"

definition isFeasRelGT :: "Num \<Rightarrow> rat \<Rightarrow> rat \<Rightarrow> bool" where
  "isFeasRelGT num a b \<longleftrightarrow> relDiff a b > feastol num"

definition isFeasAbsLT :: "Num \<Rightarrow> rat \<Rightarrow> rat \<Rightarrow> bool" where
  "isFeasAbsLT num a b \<longleftrightarrow> a - b < - feastol num"

definition isFeasRelLT :: "Num \<Rightarrow> rat \<Rightarrow> rat \<Rightarrow> bool" where
  "isFeasRelLT num a b \<longleftrightarrow> relDiff a b < - feastol num"

definition isFeasEq :: "Num \<Rightarrow> rat \<Rightarrow> rat \<Rightarrow> bool" where
  "isFeasEq num a b = (if useabsfeas num then isFeasAbsEq num a b else isFeasRelEq num a b)"

definition isFeasGE :: "Num \<Rightarrow> rat \<Rightarrow> rat \<Rightarrow> bool" where
  "isFeasGE num a b = (if useabsfeas num then isFeasAbsGE num a b else isFeasRelGE num a b)"

definition isFeasLE :: "Num \<Rightarrow> rat \<Rightarrow> rat \<Rightarrow> bool" where
  "isFeasLE num a b = (if useabsfeas num then isFeasAbsLE num a b else isFeasRelLE num a b)"

definition isFeasGT :: "Num \<Rightarrow> rat \<Rightarrow> rat \<Rightarrow> bool" where
  "isFeasGT num a b = (if useabsfeas num then isFeasAbsGT num a b else isFeasRelGT num a b)"

definition isFeasLT :: "Num \<Rightarrow> rat \<Rightarrow> rat \<Rightarrow> bool" where
  "isFeasLT num a b = (if useabsfeas num then isFeasAbsLT num a b else isFeasRelLT num a b)"

subsection \<open>Comparisons beyond the rounding error\<close>

definition isSafeEq :: "Num \<Rightarrow> rat \<Rightarrow> rat \<Rightarrow> bool" where
  "isSafeEq num a b = (case fp_epsilon num of None \<Rightarrow> True
     | Some e \<Rightarrow> \<bar>relDiff a b\<bar> \<le> 1024 * e)"

definition isSafeGE :: "Num \<Rightarrow> rat \<Rightarrow> rat \<Rightarrow> bool" where
  "isSafeGE num a b = (case fp_epsilon num of None \<Rightarrow> True
     | Some e \<Rightarrow> relDiff a b \<ge> - (1024 * e))"

definition isSafeLE :: "Num \<Rightarrow> rat \<Rightarrow> rat \<Rightarrow> bool" where
  "isSafeLE num a b = (case fp_epsilon num of None \<Rightarrow> True
     | Some e \<Rightarrow> relDiff a b \<le> 1024 * e)"

definition isSafeGT :: "Num \<Rightarrow> rat \<Rightarrow> rat \<Rightarrow> bool" where
  "isSafeGT num a b = (case fp_epsilon num of None \<Rightarrow> True
     | Some e \<Rightarrow> relDiff a b > 1024 * e)"

definition isSafeLT :: "Num \<Rightarrow> rat \<Rightarrow> rat \<Rightarrow> bool" where
  "isSafeLT num a b = (case fp_epsilon num of None \<Rightarrow> True
     | Some e \<Rightarrow> relDiff a b < - (1024 * e))"

subsection \<open>Rounding and classification\<close>

definition feasCeil :: "Num \<Rightarrow> rat \<Rightarrow> rat" where
  "feasCeil num a = rational_ceil (a - feastol num)"

definition epsCeil :: "Num \<Rightarrow> rat \<Rightarrow> rat" where
  "epsCeil num a = rational_ceil (a - epsilon num)"

definition feasFloor :: "Num \<Rightarrow> rat \<Rightarrow> rat" where
  "feasFloor num a = rational_floor (a + feastol num)"

definition epsFloor :: "Num \<Rightarrow> rat \<Rightarrow> rat" where
  "epsFloor num a = rational_floor (a + epsilon num)"

definition isIntegral :: "Num \<Rightarrow> rat \<Rightarrow> bool" where
  "isIntegral num a = isEq num a (num_round a)"

definition isFeasIntegral :: "Num \<Rightarrow> rat \<Rightarrow> bool" where
  "isFeasIntegral num a = isFeasEq num a (num_round a)"

definition isZero :: "Num \<Rightarrow> rat \<Rightarrow> bool" where
  "isZero num a \<longleftrightarrow> \<bar>a\<bar> \<le> epsilon num"

definition isFeasZero :: "Num \<Rightarrow> rat \<Rightarrow> bool" where
  "isFeasZero num a \<longleftrightarrow> \<bar>a\<bar> \<le> feastol num"

definition isHugeVal :: "Num \<Rightarrow> rat \<Rightarrow> bool" where
  "isHugeVal num a \<longleftrightarrow> \<bar>a\<bar> \<ge> hugeval num"


section \<open>Floor, ceiling and rounding are the mathematical ones\<close>

lemma quotient_of_pos: "0 < snd (quotient_of x)"
  by (metis quotient_of_denom_pos prod.collapse)

lemma quotient_of_fraction: "x = of_int (fst (quotient_of x)) / of_int (snd (quotient_of x))"
  by (metis quotient_of_div prod.collapse)

lemma quotient_of_neg_iff: "fst (quotient_of x) < 0 \<longleftrightarrow> x < 0"
  using quotient_of_pos [of x] quotient_of_fraction [of x]
  by (metis divide_less_0_iff of_int_less_0_iff of_int_0_less_iff not_less_iff_gr_or_eq)

lemma quotient_of_nonneg_iff: "0 \<le> fst (quotient_of x) \<longleftrightarrow> 0 \<le> x"
  using quotient_of_neg_iff [of x] by linarith

lemma neg_div_shift: "0 < d \<Longrightarrow> (n::int) div d = - 1 - ((- (n + 1)) div d)"
proof -
  assume d: "0 < d"
  let ?m = "- (n + 1)"
  have "n = d * (- 1 - ?m div d) + (d - 1 - ?m mod d)"
    using div_mult_mod_eq [of ?m d] by (simp add: algebra_simps)
  moreover have "0 \<le> ?m mod d" "?m mod d < d"
    using d by (simp_all only: pos_mod_sign pos_mod_bound)
  ultimately show ?thesis
    by (intro int_div_pos_eq [where r = "d - 1 - ?m mod d"]) linarith+
qed

lemma pos_div_shift: "0 < d \<Longrightarrow> - ((- n) div d) = 1 + (n - 1) div (d::int)"
  using neg_div_shift [of d "- n"] by simp

lemma ceiling_via_quotient_of: "\<lceil>x\<rceil> = - ((- fst (quotient_of x)) div snd (quotient_of x))"
proof -
  have "\<lceil>x\<rceil> = - \<lfloor>- x\<rfloor>" by (simp add: ceiling_def)
  also have "- x = of_int (- fst (quotient_of x)) / of_int (snd (quotient_of x))"
    by (subst quotient_of_fraction [of x]) simp
  finally show ?thesis by (simp only: floor_divide_of_int_eq)
qed

theorem rational_floor_eq: "rational_floor x = of_int \<lfloor>x\<rfloor>"
proof (cases "0 \<le> x")
  case True
  then show ?thesis
    using quotient_of_pos [of x] quotient_of_nonneg_iff [of x]
    by (simp add: rational_floor_def floor_via_quotient_of sdiv_nonneg)
next
  case False
  then have "fst (quotient_of x) < 0" by (simp add: quotient_of_neg_iff)
  then show ?thesis
    using False quotient_of_pos [of x]
      neg_div_shift [of "snd (quotient_of x)" "fst (quotient_of x)"]
    by (simp add: rational_floor_def floor_via_quotient_of sdiv_neg)
qed

theorem rational_ceil_eq: "rational_ceil x = of_int \<lceil>x\<rceil>"
proof (cases "x \<le> 0")
  case True
  then have "fst (quotient_of x) \<le> 0"
    using quotient_of_neg_iff [of x] quotient_of_nonneg_iff [of x] by (cases "x = 0") auto
  with True show ?thesis
    using quotient_of_pos [of x]
    by (simp add: rational_ceil_def ceiling_via_quotient_of sdiv_neg)
next
  case False
  then have "\<not> fst (quotient_of x) < 0" "0 < fst (quotient_of x)"
    using quotient_of_neg_iff [of x] quotient_of_fraction [of x]
    by (auto simp: order.order_iff_strict not_less)
  then show ?thesis
    using False quotient_of_pos [of x]
      pos_div_shift [of "snd (quotient_of x)" "fst (quotient_of x)"]
    by (simp add: rational_ceil_def ceiling_via_quotient_of sdiv_nonneg)
qed

lemma num_round_eq: "num_round x = of_int \<lfloor>x + 1 / 2\<rfloor>"
  by (simp add: num_round_def rational_floor_eq)

lemma num_round_of_int [simp]: "num_round (of_int k) = of_int k"
  by (simp add: num_round_eq floor_add_int [symmetric] floor_unique)

lemma num_max_eq [simp]: "num_max a b = max a b" and num_min_eq [simp]: "num_min a b = min a b"
  by (auto simp: num_max_def num_min_def)

section \<open>The order laws of the tolerance comparisons\<close>

text \<open>
  The class offers the same five comparisons three times: with the numerical tolerance, with its
  relative version and with the feasibility tolerance in the absolute or relative mode chosen by
  \<open>useabsfeas\<close>. They share one contract, from which everything the presolvers rely on follows.
\<close>

locale tolerance_order =
  fixes eq ge le gt lt :: "Num \<Rightarrow> rat \<Rightarrow> rat \<Rightarrow> bool"
  assumes lt_less: "num_ok num \<Longrightarrow> lt num a b \<Longrightarrow> a < b"
    and ge_iff: "ge num a b \<longleftrightarrow> \<not> lt num a b"
    and gt_iff: "gt num a b \<longleftrightarrow> lt num b a"
    and le_iff: "le num a b \<longleftrightarrow> \<not> gt num a b"
    and eq_iff: "eq num a b \<longleftrightarrow> \<not> lt num a b \<and> \<not> gt num a b"
begin

lemma gt_greater: "num_ok num \<Longrightarrow> gt num a b \<Longrightarrow> b < a"
  by (simp add: gt_iff lt_less)

lemma ge_if_ge: "num_ok num \<Longrightarrow> b \<le> a \<Longrightarrow> ge num a b"
  using lt_less [of num a b] by (auto simp: ge_iff)

lemma le_if_le: "num_ok num \<Longrightarrow> a \<le> b \<Longrightarrow> le num a b"
  using gt_greater [of num a b] by (auto simp: le_iff)

lemma eq_refl: "num_ok num \<Longrightarrow> eq num a a"
  using lt_less [of num a a] by (auto simp: eq_iff gt_iff)

lemma eq_sym: "eq num a b \<longleftrightarrow> eq num b a"
  by (auto simp: eq_iff gt_iff)

lemma eq_iff_le_ge: "eq num a b \<longleftrightarrow> le num a b \<and> ge num a b"
  by (auto simp: eq_iff le_iff ge_iff)

lemma trichotomy: "num_ok num \<Longrightarrow>
    (lt num a b \<and> \<not> eq num a b \<and> \<not> gt num a b) \<or>
    (\<not> lt num a b \<and> eq num a b \<and> \<not> gt num a b) \<or>
    (\<not> lt num a b \<and> \<not> eq num a b \<and> gt num a b)"
  using lt_less [of num a b] gt_greater [of num a b] by (auto simp: eq_iff)

end

lemmas isFeas_defs = isFeasEq_def isFeasGE_def isFeasLE_def isFeasGT_def isFeasLT_def
  isFeasAbsEq_def isFeasAbsGE_def isFeasAbsLE_def isFeasAbsGT_def isFeasAbsLT_def
  isFeasRelEq_def isFeasRelGE_def isFeasRelLE_def isFeasRelGT_def isFeasRelLT_def

lemmas isEps_defs = isEq_def isGE_def isLE_def isGT_def isLT_def

lemmas isRel_defs = isRelEq_def isRelGE_def isRelLE_def isRelGT_def isRelLT_def

lemma relDiff_swap: "relDiff b a = - relDiff a b"
  by (simp add: relDiff_def max.commute minus_divide_left)

lemma relDiff_neg: "relDiff a b < 0 \<Longrightarrow> a < b"
  by (auto simp: relDiff_def divide_less_0_iff)

lemma relDiff_below: "relDiff a b < - t \<Longrightarrow> 0 \<le> t \<Longrightarrow> a < b"
  by (rule relDiff_neg) simp

interpretation eps: tolerance_order isEq isGE isLE isGT isLT
  by unfold_locales (auto simp: isEps_defs num_ok_def)

interpretation rel: tolerance_order isRelEq isRelGE isRelLE isRelGT isRelLT
proof unfold_locales
  fix num a b
  show "num_ok num \<Longrightarrow> isRelLT num a b \<Longrightarrow> a < b"
    by (auto simp: isRelLT_def num_ok_def dest: relDiff_below)
  show "isRelGT num a b \<longleftrightarrow> isRelLT num b a"
    using relDiff_swap [of a b] by (auto simp: isRel_defs)
qed (auto simp: isRel_defs)

interpretation feas: tolerance_order isFeasEq isFeasGE isFeasLE isFeasGT isFeasLT
proof unfold_locales
  fix num a b
  show "num_ok num \<Longrightarrow> isFeasLT num a b \<Longrightarrow> a < b"
    by (auto simp: isFeas_defs num_ok_def dest: relDiff_below split: if_splits)
  show "isFeasGT num a b \<longleftrightarrow> isFeasLT num b a"
    using relDiff_swap [of a b] by (auto simp: isFeas_defs)
qed (auto simp: isFeas_defs)

lemma relDiff_uminus: "relDiff (- a) (- b) = relDiff b a"
  by (simp add: relDiff_def max.commute)

lemma isFeasGT_uminus: "isFeasGT num a b = isFeasLT num (- a) (- b)"
  unfolding feas.gt_iff by (simp add: isFeas_defs relDiff_uminus)

subsection \<open>The exact instance\<close>

lemma num_ok_default [simp]: "num_ok default_num" and num_ok_exact [simp]: "num_ok exact_num"
  by (simp_all add: num_ok_def default_num_def exact_num_def)

lemma relDiff_sign: "(relDiff a b < 0) = (a < b)" "(0 < relDiff a b) = (b < a)"
  "(relDiff a b = 0) = (a = b)"
  by (auto simp: relDiff_def divide_less_0_iff zero_less_divide_iff)

lemma exact_feas [tol_simps]:
  "feastol num = 0 \<Longrightarrow> isFeasLT num a b = (a < b)"
  "feastol num = 0 \<Longrightarrow> isFeasGT num a b = (b < a)"
  "feastol num = 0 \<Longrightarrow> isFeasGE num a b = (b \<le> a)"
  "feastol num = 0 \<Longrightarrow> isFeasLE num a b = (a \<le> b)"
  "feastol num = 0 \<Longrightarrow> isFeasEq num a b = (a = b)"
  using relDiff_sign [of a b] by (auto simp: isFeas_defs)

lemma exact_eps [tol_simps]:
  "epsilon num = 0 \<Longrightarrow> isEq num a b = (a = b)"
  "epsilon num = 0 \<Longrightarrow> isLT num a b = (a < b)"
  "epsilon num = 0 \<Longrightarrow> isGT num a b = (b < a)"
  "epsilon num = 0 \<Longrightarrow> isGE num a b = (b \<le> a)"
  "epsilon num = 0 \<Longrightarrow> isLE num a b = (a \<le> b)"
  "epsilon num = 0 \<Longrightarrow> isZero num a = (a = 0)"
  by (auto simp: isEps_defs isZero_def)

end
