(* ===== verification/Pap_ParseNumber.thy ===== *)
theory Pap_ParseNumber
  imports Pap_Num
begin

text \<open>
  \<open>parse_number\<close> of \<open>src/papilo/misc/Num.hpp\<close>: the hand written number parser that the readers
  of problem and solution files fall back to. The \<open>switch\<close> of the source falls through from one
  case to the next; each case is a definition that calls the next one where the source has no
  \<open>break\<close>. The exponent is an \<open>unsigned\<close> and wraps at 32 bits.
\<close>

record parse_state =
  p_numerator :: int
  p_denominator :: int
  p_exponent :: "32 word"
  p_phase :: nat
  p_num_negated :: bool
  p_exp_negated :: bool
  p_failure :: bool

definition parse_init :: parse_state where
  "parse_init = \<lparr>p_numerator = 0, p_denominator = 1, p_exponent = 0, p_phase = 0,
     p_num_negated = False, p_exp_negated = False, p_failure = False\<rparr>"

definition char_digit :: "char \<Rightarrow> int" where
  "char_digit c = (let v = of_char c in if 48 \<le> v \<and> v \<le> 57 then v - 48 else -1)"

definition next_phase :: "parse_state \<Rightarrow> parse_state" where
  "next_phase st = st\<lparr>p_phase := Suc (p_phase st)\<rparr>"

definition parse_default :: "parse_state \<Rightarrow> parse_state" where
  "parse_default st = st\<lparr>p_failure := True\<rparr>"

definition parse_exponent_value :: "char \<Rightarrow> parse_state \<Rightarrow> parse_state" where
  "parse_exponent_value c st =
     (if char_digit c \<ge> 0
      then st\<lparr>p_exponent := p_exponent st * 10 + of_int (char_digit c)\<rparr>
      else parse_default (next_phase st))"

definition parse_exponent_sign :: "char \<Rightarrow> parse_state \<Rightarrow> parse_state" where
  "parse_exponent_sign c st0 =
     (let st = next_phase st0 in
      if c = CHR ''+'' then st
      else if c = CHR ''-'' then st\<lparr>p_exp_negated := True\<rparr>
      else parse_exponent_value c st)"

definition parse_after_delimiter :: "bool \<Rightarrow> char \<Rightarrow> parse_state \<Rightarrow> parse_state" where
  "parse_after_delimiter is_rational c st =
     (if char_digit c \<ge> 0 then
        (if is_rational
         then st\<lparr>p_numerator := p_numerator st * 10 + char_digit c,
                 p_denominator := p_denominator st * 10\<rparr>
         else st\<lparr>p_denominator := p_denominator st * 10 + char_digit c\<rparr>)
      else if (c = CHR ''e'' \<or> c = CHR ''E'') \<and> is_rational then next_phase st
      else st\<lparr>p_failure := True\<rparr>)"

definition parse_before_delimiter :: "bool \<Rightarrow> char \<Rightarrow> parse_state \<Rightarrow> parse_state" where
  "parse_before_delimiter is_rational c st0 =
     (if char_digit c \<ge> 0
      then st0\<lparr>p_numerator := p_numerator st0 * 10 + char_digit c\<rparr>
      else let st = next_phase st0 in
        if is_rational \<and> c = CHR ''.'' then st
        else if \<not> is_rational \<and> c = CHR ''/'' then st\<lparr>p_denominator := 0\<rparr>
        else parse_after_delimiter is_rational c st)"

definition parse_number_sign :: "bool \<Rightarrow> char \<Rightarrow> parse_state \<Rightarrow> parse_state" where
  "parse_number_sign is_rational c st0 =
     (let st = next_phase st0 in
      if c = CHR ''+'' then st
      else if c = CHR ''-'' then st\<lparr>p_num_negated := True\<rparr>
      else parse_before_delimiter is_rational c st)"

definition parse_switch :: "bool \<Rightarrow> char \<Rightarrow> parse_state \<Rightarrow> parse_state" where
  "parse_switch is_rational c st =
     (if p_phase st = 0 then parse_number_sign is_rational c st
      else if p_phase st = 1 then parse_before_delimiter is_rational c st
      else if p_phase st = 2 then parse_after_delimiter is_rational c st
      else if p_phase st = 3 then parse_exponent_sign c st
      else if p_phase st = 4 then parse_exponent_value c st
      else parse_default st)"

fun parse_loop :: "bool \<Rightarrow> string \<Rightarrow> parse_state \<Rightarrow> parse_state" where
  "parse_loop is_rational [] st = st"
| "parse_loop is_rational (c # cs) st =
     (let st' = parse_switch is_rational c st in
      if p_failure st' then st' else parse_loop is_rational cs st')"

definition parse_finish :: "parse_state \<Rightarrow> bool \<times> rat" where
  "parse_finish st =
     (let failure = (p_denominator st = 0 \<or> p_failure st);
          den = (if p_denominator st = 0 then 1 else p_denominator st);
          n = (if p_num_negated st then p_numerator st * (-1) else p_numerator st);
          p = 10 ^ unat (p_exponent st);
          (n', d') = (if p_exp_negated st then (n, den * p) else (n * p, den))
      in (failure, of_int n' / of_int d'))"

text \<open>
  \<open>stream_extract\<close> stands for \<open>string_stream >> number\<close> of the number type together with the
  test that it consumed the whole string; it is code of the number library.
\<close>

definition parse_number :: "(string \<Rightarrow> rat option) \<Rightarrow> bool \<Rightarrow> string \<Rightarrow> bool \<times> rat" where
  "parse_number stream_extract is_rational s =
     (case stream_extract s of
        Some number \<Rightarrow> (False, number)
      | None \<Rightarrow> parse_finish (parse_loop is_rational s parse_init))"

section \<open>Decimal literals\<close>

text \<open>The literals \<open>[-]ddd.fffe[-]eee\<close> and their values, as the specification of the parser.\<close>

definition digit_char :: "nat \<Rightarrow> char" where
  "digit_char d = char_of (48 + d)"

definition digits_value :: "nat list \<Rightarrow> nat" where
  "digits_value ds = foldl (\<lambda>a d. a * 10 + d) 0 ds"

definition is_digits :: "nat list \<Rightarrow> bool" where
  "is_digits ds \<longleftrightarrow> list_all (\<lambda>d. d < 10) ds"

definition decimal_literal :: "bool \<Rightarrow> nat list \<Rightarrow> nat list \<Rightarrow> bool \<Rightarrow> nat list \<Rightarrow> string" where
  "decimal_literal neg ds fs eneg es =
     (if neg then ''-'' else []) @ map digit_char ds @ ''.'' @ map digit_char fs @ ''e'' @
     (if eneg then ''-'' else []) @ map digit_char es"

text \<open>The value with the exponent given as a number, and the value of the literal.\<close>

definition scaled_value :: "bool \<Rightarrow> nat list \<Rightarrow> nat list \<Rightarrow> bool \<Rightarrow> nat \<Rightarrow> rat" where
  "scaled_value neg ds fs eneg k =
     (if neg then -1 else 1) * (of_nat (digits_value (ds @ fs)) / 10 ^ length fs) * (if eneg then 1 / 10 ^ k else 10 ^ k)"

definition decimal_value :: "bool \<Rightarrow> nat list \<Rightarrow> nat list \<Rightarrow> bool \<Rightarrow> nat list \<Rightarrow> rat" where
  "decimal_value neg ds fs eneg es =
     scaled_value neg ds fs eneg (digits_value es)"

lemma of_char_digit_char: "d < 10 \<Longrightarrow> of_char (digit_char d) = (48 + int d)"
proof -
  assume "d < 10"
  then have "(of_char (digit_char d) :: nat) = 48 + d"
    by (simp add: digit_char_def)
  then have "int (of_char (digit_char d)) = int (48 + d)" by simp
  then show ?thesis by (simp add: of_nat_of_char)
qed

lemma char_digit_digit_char [simp]: "d < 10 \<Longrightarrow> char_digit (digit_char d) = int d"
  by (simp add: char_digit_def of_char_digit_char)

lemma digit_char_not_sign [simp]:
  "d < 10 \<Longrightarrow> digit_char d \<noteq> CHR ''+''" "d < 10 \<Longrightarrow> digit_char d \<noteq> CHR ''-''"
  using of_char_digit_char [of d] by auto

lemma char_digit_punct [simp]:
  "char_digit CHR ''.'' = -1" "char_digit CHR ''e'' = -1" "char_digit CHR ''-'' = -1"
  by (simp_all add: char_digit_def)

lemma digits_value_snoc: "digits_value (ds @ [d]) = digits_value ds * 10 + d"
  by (simp add: digits_value_def)

lemma digits_value_append:
  "digits_value (ds @ fs) = foldl (\<lambda>a d. a * 10 + d) (digits_value ds) fs"
  by (simp add: digits_value_def)

lemma parse_loop_int_digits:
  assumes "is_digits ds" and "p_phase st = 1" and "\<not> p_failure st"
  shows "parse_loop True (map digit_char ds @ cs) st =
    parse_loop True cs
      (st\<lparr>p_numerator := foldl (\<lambda>a d. a * 10 + int d) (p_numerator st) ds\<rparr>)"
  using assms
proof (induction ds arbitrary: st)
  case Nil
  then show ?case by simp
next
  case (Cons d ds)
  then show ?case
    by (simp add: is_digits_def parse_switch_def parse_before_delimiter_def Let_def)
qed

lemma parse_loop_frac_digits:
  assumes "is_digits fs" and "p_phase st = 2" and "\<not> p_failure st"
  shows "parse_loop True (map digit_char fs @ cs) st =
    parse_loop True cs
      (st\<lparr>p_numerator := foldl (\<lambda>a d. a * 10 + int d) (p_numerator st) fs,
          p_denominator := p_denominator st * 10 ^ length fs\<rparr>)"
  using assms
proof (induction fs arbitrary: st)
  case Nil
  then show ?case by simp
next
  case (Cons d ds)
  then show ?case
    by (simp add: is_digits_def parse_switch_def parse_after_delimiter_def Let_def mult.assoc)
qed

lemma parse_loop_exp_digits:
  assumes "is_digits es" and "p_phase st = 4" and "\<not> p_failure st"
  shows "parse_loop True (map digit_char es) st =
    st\<lparr>p_exponent := foldl (\<lambda>a d. a * 10 + of_nat d) (p_exponent st) es\<rparr>"
  using assms
proof (induction es arbitrary: st)
  case Nil
  then show ?case by simp
next
  case (Cons d ds)
  then show ?case
    by (simp add: is_digits_def parse_switch_def parse_exponent_value_def Let_def)
qed

lemma foldl_digits_int:
  "foldl (\<lambda>a d. a * 10 + int d) (int n) ds = int (foldl (\<lambda>a d. a * 10 + d) n ds)"
proof (induction ds arbitrary: n)
  case (Cons d ds)
  show ?case using Cons.IH [of "n * 10 + d"] by simp
qed simp

lemma foldl_digits_word:
  "foldl (\<lambda>a d. a * 10 + of_nat d) (of_nat n) ds =
     (of_nat (foldl (\<lambda>a d. a * 10 + d) n ds) :: 32 word)"
proof (induction ds arbitrary: n)
  case (Cons d ds)
  show ?case using Cons.IH [of "n * 10 + d"] by simp
qed simp

lemma parse_loop_sign:
  "d < 10 \<Longrightarrow> parse_loop True ((if neg then ''-'' else []) @ digit_char d # cs) parse_init =
     parse_loop True cs (parse_init\<lparr>p_phase := 1, p_num_negated := neg, p_numerator := int d\<rparr>)"
  by (auto simp: parse_init_def parse_switch_def parse_number_sign_def next_phase_def
      parse_before_delimiter_def Let_def)

lemma parse_loop_point:
  "p_phase st = 1 \<Longrightarrow> \<not> p_failure st \<Longrightarrow>
   parse_loop True (CHR ''.'' # cs) st = parse_loop True cs (st\<lparr>p_phase := 2\<rparr>)"
  by (simp add: parse_switch_def next_phase_def parse_before_delimiter_def numeral_2_eq_2)

lemma parse_loop_exponent:
  assumes "p_phase st = 2" and "\<not> p_failure st" and "\<not> p_exp_negated st" and "is_digits (e # es)"
  shows "parse_loop True (CHR ''e'' # (if eneg then ''-'' else []) @ map digit_char (e # es)) st =
    parse_loop True (map digit_char (e # es)) (st\<lparr>p_phase := 4, p_exp_negated := eneg\<rparr>)"
  using assms
  by (cases st) (auto simp: parse_switch_def next_phase_def parse_after_delimiter_def
      parse_exponent_sign_def parse_exponent_value_def is_digits_def Let_def)

lemma parse_loop_decimal:
  assumes "is_digits (d # ds)" and "is_digits fs" and "is_digits (e # es)"
  shows "parse_loop True (decimal_literal neg (d # ds) fs eneg (e # es)) parse_init =
    \<lparr>p_numerator = int (digits_value (d # ds @ fs)), p_denominator = 10 ^ length fs,
     p_exponent = of_nat (digits_value (e # es)), p_phase = 4, p_num_negated = neg,
     p_exp_negated = eneg, p_failure = False\<rparr>"
proof -
  let ?exp = "CHR ''e'' # (if eneg then ''-'' else []) @ map digit_char (e # es)"
  let ?st = "\<lparr>p_numerator = foldl (\<lambda>a d. a * 10 + int d) (int d) (ds @ fs),
     p_denominator = 10 ^ length fs, p_exponent = 0, p_phase = 2, p_num_negated = neg,
     p_exp_negated = False, p_failure = False\<rparr>"
  have d: "d < 10" and ds: "is_digits ds" using assms(1) by (simp_all add: is_digits_def)
  have "parse_loop True (decimal_literal neg (d # ds) fs eneg (e # es)) parse_init =
      parse_loop True (map digit_char ds @ CHR ''.'' # map digit_char fs @ ?exp)
        (parse_init\<lparr>p_phase := 1, p_num_negated := neg, p_numerator := int d\<rparr>)"
    using parse_loop_sign [OF d, of neg "map digit_char ds @ CHR ''.'' # map digit_char fs @ ?exp"]
    by (simp add: decimal_literal_def del: parse_loop.simps)
  also have "\<dots> = parse_loop True ?exp ?st"
    using ds assms(2)
    by (simp add: parse_loop_int_digits parse_loop_point parse_loop_frac_digits parse_init_def
        del: parse_loop.simps)
  also have "\<dots> = parse_loop True (map digit_char (e # es)) (?st\<lparr>p_phase := 4, p_exp_negated := eneg\<rparr>)"
    using assms(3) by (intro parse_loop_exponent) simp_all
  also have "\<dots> = \<lparr>p_numerator = int (digits_value (d # ds @ fs)), p_denominator = 10 ^ length fs,
     p_exponent = of_nat (digits_value (e # es)), p_phase = 4, p_num_negated = neg,
     p_exp_negated = eneg, p_failure = False\<rparr>"
    using parse_loop_exp_digits [OF assms(3)] foldl_digits_word [of 0 "e # es"]
      foldl_digits_int [of d "ds @ fs"]
    by (simp add: digits_value_def del: parse_loop.simps foldl_append list.map)
  finally show ?thesis .
qed

text \<open>
  C33. When the stream extraction of the number library does not read the string itself and the type is
  the exact rational one, a decimal literal with an optional sign, a fraction and an exponent of any
  length is parsed without failure: the mantissa is exact, the exponent is read modulo \<open>2^32\<close>, so that
  the value is exact for exponents below \<open>2^32\<close>.
\<close>

theorem parse_number_decimal:
  assumes "stream_extract (decimal_literal neg (d # ds) fs eneg (e # es)) = None"
    and "is_digits (d # ds)" and "is_digits fs" and "is_digits (e # es)"
  shows "parse_number stream_extract True (decimal_literal neg (d # ds) fs eneg (e # es)) =
      (False, scaled_value neg (d # ds) fs eneg (digits_value (e # es) mod 2 ^ 32)) \<and>
    (digits_value (e # es) < 2 ^ 32 \<longrightarrow>
      parse_number stream_extract True (decimal_literal neg (d # ds) fs eneg (e # es)) =
        (False, decimal_value neg (d # ds) fs eneg (e # es)))"
proof -
  have "unat (of_nat (digits_value (e # es)) :: 32 word) = digits_value (e # es) mod 2 ^ 32"
    by (simp add: unat_of_nat)
  then have "parse_number stream_extract True (decimal_literal neg (d # ds) fs eneg (e # es)) =
      (False, scaled_value neg (d # ds) fs eneg (digits_value (e # es) mod 2 ^ 32))"
    using assms(1) parse_loop_decimal [OF assms(2-4), of neg eneg]
    by (simp add: parse_number_def parse_finish_def scaled_value_def Let_def divide_simps)
  then show ?thesis by (simp add: decimal_value_def)
qed

theorem parse_number_decimal_witness:
  "parse_number (\<lambda>_. None) True ''-12.5e2'' = (False, -1250)"
proof -
  have lit: "decimal_literal True [1, 2] [5] False [2] = ''-12.5e2''" by code_simp
  have val: "decimal_value True [1, 2] [5] False [2] = -1250" by code_simp
  have "is_digits [1, 2]" "is_digits [5]" "is_digits [2]" "digits_value [2] < 2 ^ 32"
    by (simp_all add: is_digits_def digits_value_def)
  from parse_number_decimal [of "\<lambda>_. None" True 1 "[2]" "[5]" False 2 "[]", OF refl this(1-3), THEN conjunct2, rule_format, OF this(4)]
  show ?thesis unfolding lit val .
qed

end
