(* ===== verification/Pap_Domains.thy ===== *)
theory Pap_Domains
  imports Pap_Num
begin

unbundle bit_operations_syntax

text \<open>
  The data the other components share: the flag sets of \<open>src/papilo/misc/Flags.hpp\<close> with the
  column and row flags, the variable domains of \<open>src/papilo/core/VariableDomains.hpp\<close> and the
  compression of vectors by an index mapping of \<open>src/papilo/misc/compress_vector.hpp\<close>.
\<close>

section \<open>Flag sets\<close>

text \<open>
  A flag is a mask of an 8 bit word, a flag set the disjunction of masks. The variadic arguments of
  \<open>set\<close>, \<open>unset\<close>, \<open>test\<close> and \<open>equal\<close> are lists.
\<close>

type_synonym flag = "8 word"
type_synonym flags = "8 word"

fun joinFlags :: "flag list \<Rightarrow> flags" where
  "joinFlags [] = 0"
| "joinFlags (f # fs) = f OR joinFlags fs"

definition flags_set :: "flag list \<Rightarrow> flags \<Rightarrow> flags" where
  "flags_set fs state = state OR joinFlags fs"

definition flags_clear :: "flags \<Rightarrow> flags" where
  "flags_clear state = 0"

definition flags_unset :: "flag list \<Rightarrow> flags \<Rightarrow> flags" where
  "flags_unset fs state = state AND NOT (joinFlags fs)"

definition flags_test :: "flags \<Rightarrow> flag list \<Rightarrow> bool" where
  "flags_test state fs \<longleftrightarrow> state AND joinFlags fs \<noteq> 0"

definition flags_equal :: "flags \<Rightarrow> flag list \<Rightarrow> bool" where
  "flags_equal state fs \<longleftrightarrow> state = joinFlags fs"

subsection \<open>Column flags\<close>

definition kLbInf :: flag where "kLbInf = 1"
definition kLbHuge :: flag where "kLbHuge = 2"
definition kUbInf :: flag where "kUbInf = 4"
definition kUbHuge :: flag where "kUbHuge = 8"
definition kIntegral :: flag where "kIntegral = 16"
definition kFixed :: flag where "kFixed = 32"
definition kSubstituted :: flag where "kSubstituted = 64"
definition kImplInt :: flag where "kImplInt = 128"
definition kUnbounded :: flag where "kUnbounded = kLbInf OR kUbInf"
definition kInactive :: flag where "kInactive = kFixed OR kSubstituted"
definition kLbUseless :: flag where "kLbUseless = kLbInf OR kLbHuge"
definition kUbUseless :: flag where "kUbUseless = kUbInf OR kUbHuge"

subsection \<open>Row flags\<close>

definition kLhsInf :: flag where "kLhsInf = 1"
definition kRhsInf :: flag where "kRhsInf = 2"
definition kEquation :: flag where "kEquation = 4"
definition kRowIntegral :: flag where "kRowIntegral = 8"
definition kRedundantRow :: flag where "kRedundantRow = 16"
definition kClique :: flag where "kClique = 32"

lemmas flag_defs = kLbInf_def kLbHuge_def kUbInf_def kUbHuge_def kIntegral_def kFixed_def
  kSubstituted_def kImplInt_def kUnbounded_def kInactive_def kLbUseless_def kUbUseless_def
  kLhsInf_def kRhsInf_def kEquation_def kRowIntegral_def kRedundantRow_def kClique_def

subsection \<open>Laws of the flag sets\<close>

lemma word_or_eq_0: "((x :: 8 word) OR y = 0) = (x = 0 \<and> y = 0)"
  by (auto simp: bit_eq_iff bit_simps)

lemma joinFlags_append: "joinFlags (fs @ gs) = joinFlags fs OR joinFlags gs"
  by (induction fs) (simp_all add: or.assoc)

lemma flags_test_Cons [flag_simps]:
  "flags_test s (f # g # fs) \<longleftrightarrow> flags_test s [f] \<or> flags_test s (g # fs)"
  by (simp add: flags_test_def bit.conj_disj_distrib word_or_eq_0)

lemma flags_test_set [flag_simps]:
  "flags_test (flags_set fs s) gs \<longleftrightarrow> flags_test s gs \<or> joinFlags fs AND joinFlags gs \<noteq> 0"
  by (simp add: flags_test_def flags_set_def bit.conj_disj_distrib2 word_or_eq_0)

lemma flags_test_unset_subset:
  "joinFlags fs OR joinFlags gs = joinFlags fs \<Longrightarrow> \<not> flags_test (flags_unset fs s) gs"
  by (auto simp: flags_test_def flags_unset_def bit_eq_iff bit_simps)

lemma flags_test_unset_disjoint:
  "joinFlags fs AND joinFlags gs = 0 \<Longrightarrow> flags_test (flags_unset fs s) gs = flags_test s gs"
  by (auto simp: flags_test_def flags_unset_def bit_eq_iff bit_simps)

lemma flags_test_clear [flag_simps]: "\<not> flags_test (flags_clear s) fs"
  by (simp add: flags_test_def flags_clear_def)

lemma flags_test_useless [flag_simps]:
  "flags_test s [kLbUseless] \<longleftrightarrow> flags_test s [kLbInf] \<or> flags_test s [kLbHuge]"
  "flags_test s [kUbUseless] \<longleftrightarrow> flags_test s [kUbInf] \<or> flags_test s [kUbHuge]"
  "flags_test s [kInactive] \<longleftrightarrow> flags_test s [kFixed] \<or> flags_test s [kSubstituted]"
  by (simp_all add: flags_test_def kLbUseless_def kUbUseless_def kInactive_def
      bit.conj_disj_distrib word_or_eq_0)

lemma lb_inf_useless: "flags_test s [kLbInf] \<Longrightarrow> flags_test s [kLbUseless]"
  and ub_inf_useless: "flags_test s [kUbInf] \<Longrightarrow> flags_test s [kUbUseless]"
  by (simp_all add: flag_simps)

section \<open>Compression by an index mapping\<close>

fun compress_vector_step :: "int list \<Rightarrow> 'a list \<times> nat \<Rightarrow> nat \<Rightarrow> 'a list \<times> nat" where
  "compress_vector_step mapping (v, newSize) i =
     (if mapping ! i \<noteq> -1 then (v[nat (mapping ! i) := v ! i], newSize + 1)
      else (v, newSize))"

definition compress_vector :: "int list \<Rightarrow> 'a list \<Rightarrow> 'a list" where
  "compress_vector mapping vec =
     (case foldl (compress_vector_step mapping) (vec, 0) [0..<length vec]
      of (v, newSize) \<Rightarrow> take newSize v)"

fun compress_index_step :: "int list \<Rightarrow> int list \<times> nat \<Rightarrow> nat \<Rightarrow> int list \<times> nat" where
  "compress_index_step mapping (v, offset) i =
     (let newindex = mapping ! nat (v ! i) in
      if newindex \<noteq> -1 then (v[i - offset := newindex], offset)
      else (v, offset + 1))"

definition compress_index_vector :: "int list \<Rightarrow> int list \<Rightarrow> int list" where
  "compress_index_vector mapping vec =
     (case foldl (compress_index_step mapping) (vec, 0) [0..<length vec]
      of (v, offset) \<Rightarrow> take (length vec - offset) v)"

section \<open>Variable domains\<close>

record variable_domains =
  lower_bounds :: "rat list"
  upper_bounds :: "rat list"
  col_flags :: "flags list"

definition isBinary :: "variable_domains \<Rightarrow> nat \<Rightarrow> bool" where
  "isBinary domains col \<longleftrightarrow>
     flags_test (col_flags domains ! col) [kIntegral] \<and>
     \<not> flags_test (col_flags domains ! col) [kLbUseless, kUbUseless, kInactive] \<and>
     lower_bounds domains ! col = 0 \<and> upper_bounds domains ! col = 1"

definition domains_compress :: "int list \<Rightarrow> variable_domains \<Rightarrow> variable_domains" where
  "domains_compress colmapping domains =
     \<lparr>lower_bounds = compress_vector colmapping (lower_bounds domains),
      upper_bounds = compress_vector colmapping (upper_bounds domains),
      col_flags = compress_vector colmapping (col_flags domains)\<rparr>"

abbreviation lb_useless :: "variable_domains \<Rightarrow> nat \<Rightarrow> bool" where
  "lb_useless domains c \<equiv> flags_test (col_flags domains ! c) [kLbUseless]"

abbreviation ub_useless :: "variable_domains \<Rightarrow> nat \<Rightarrow> bool" where
  "ub_useless domains c \<equiv> flags_test (col_flags domains ! c) [kUbUseless]"

text \<open>
  The meaning of a domain for one column: a bound counts unless it is flagged infinite, and an
  integral column takes integral values.
\<close>

definition in_col_domain :: "variable_domains \<Rightarrow> nat \<Rightarrow> rat \<Rightarrow> bool" where
  "in_col_domain domains c v \<longleftrightarrow>
     (flags_test (col_flags domains ! c) [kLbInf] \<or> lower_bounds domains ! c \<le> v) \<and>
     (flags_test (col_flags domains ! c) [kUbInf] \<or> v \<le> upper_bounds domains ! c)"

definition integral_ok :: "variable_domains \<Rightarrow> nat \<Rightarrow> rat \<Rightarrow> bool" where
  "integral_ok domains c v \<longleftrightarrow> (flags_test (col_flags domains ! c) [kIntegral] \<longrightarrow> v \<in> \<int>)"

lemma in_col_domain_lb: "in_col_domain domains c v \<Longrightarrow> \<not> lb_useless domains c \<Longrightarrow> lower_bounds domains ! c \<le> v"
  and in_col_domain_ub: "in_col_domain domains c v \<Longrightarrow> \<not> ub_useless domains c \<Longrightarrow> v \<le> upper_bounds domains ! c"
  by (auto simp: in_col_domain_def flag_simps)

subsection \<open>What compression computes\<close>

text \<open>
  A mapping as the code builds it: \<open>-1\<close> for a removed index, else the number of indices kept
  before it.
\<close>

definition kept :: "int list \<Rightarrow> nat \<Rightarrow> nat list" where
  "kept mapping n = filter (\<lambda>i. mapping ! i \<noteq> -1) [0..<n]"

definition compress_mapping :: "int list \<Rightarrow> bool" where
  "compress_mapping mapping \<longleftrightarrow>
     (\<forall>i<length mapping. mapping ! i = -1 \<or> mapping ! i = int (length (kept mapping i)))"

lemma kept_Suc: "kept mapping (Suc n) = kept mapping n @ (if mapping ! n \<noteq> -1 then [n] else [])"
  by (simp add: kept_def)

definition kept_from :: "int list \<Rightarrow> nat \<Rightarrow> nat list" where
  "kept_from m i = filter (\<lambda>i. m ! i \<noteq> -1) [Suc i..<length m]"

lemma kept_append:
  assumes "i < length m" and "m ! i \<noteq> -1"
  shows "kept m (length m) = kept m i @ i # kept_from m i"
proof -
  have "[0..<length m] = [0..<i] @ i # [Suc i..<length m]"
    using assms(1) upt_add_eq_append [of 0 i "length m - i"] by (simp add: upt_conv_Cons)
  with assms(2) show ?thesis by (simp add: kept_def kept_from_def)
qed

lemma length_kept: "length (kept mapping n) \<le> n"
  using length_filter_le [of _ "[0..<n]"] by (simp add: kept_def)

lemma compress_vector_loop:
  assumes "compress_mapping mapping" and "length vec = length mapping" and "n \<le> length vec"
    and "foldl (compress_vector_step mapping) (vec, 0) [0..<n] = (v, k)"
  shows "length v = length vec \<and> k = length (kept mapping n) \<and>
    take k v = map ((!) vec) (kept mapping n) \<and> drop n v = drop n vec"
  using assms(3,4)
proof (induction n arbitrary: v k)
  case 0
  then show ?case by (simp add: kept_def)
next
  case (Suc n)
  obtain w j where wj: "foldl (compress_vector_step mapping) (vec, 0) [0..<n] = (w, j)" by fastforce
  with Suc have IH: "length w = length vec" "j = length (kept mapping n)"
    "take j w = map ((!) vec) (kept mapping n)" "drop n w = drop n vec" by auto
  have n: "n < length w" using Suc.prems(1) IH(1) by simp
  then have wn: "w ! n = vec ! n" and dr: "drop (Suc n) w = drop (Suc n) vec"
    using IH(1,4) by (metis nth_via_drop Cons_nth_drop_Suc, metis drop_Suc tl_drop)
  have j: "j \<le> n" using IH(2) length_kept by simp
  show ?case
  proof (cases "mapping ! n = -1")
    case True
    with Suc.prems(2) wj IH dr show ?thesis by (simp add: kept_Suc)
  next
    case False
    then have "mapping ! n = int j"
      using assms(1) [unfolded compress_mapping_def, rule_format, of n]
        assms(2) Suc.prems(1) IH(2) by simp
    with False Suc.prems(2) wj IH wn dr j n show ?thesis
      by (auto simp: kept_Suc take_Suc_conv_app_nth)
  qed
qed

lemma compress_vector_kept:
  assumes "compress_mapping mapping" and "length vec = length mapping"
  shows "compress_vector mapping vec = map ((!) vec) (kept mapping (length vec))"
proof -
  obtain v k where "foldl (compress_vector_step mapping) (vec, 0) [0..<length vec] = (v, k)" by fastforce
  moreover from compress_vector_loop [OF assms order_refl this]
  have "take k v = map ((!) vec) (kept mapping (length vec))" by blast
  ultimately show ?thesis by (simp add: compress_vector_def)
qed

lemma compress_index_vector_loop:
  assumes "n \<le> length vec"
    and "foldl (compress_index_step mapping) (vec, 0) [0..<n] = (v, off)"
  shows "length v = length vec \<and> off \<le> n \<and> drop n v = drop n vec \<and>
    take (n - off) v = filter (\<lambda>j. j \<noteq> -1) (map (\<lambda>x. mapping ! nat x) (take n vec))"
  using assms
proof (induction n arbitrary: v off)
  case 0
  then show ?case by simp
next
  case (Suc n)
  obtain w j where wj: "foldl (compress_index_step mapping) (vec, 0) [0..<n] = (w, j)" by fastforce
  with Suc have IH: "length w = length vec" "j \<le> n" "drop n w = drop n vec"
    "take (n - j) w = filter (\<lambda>j. j \<noteq> -1) (map (\<lambda>x. mapping ! nat x) (take n vec))" by auto
  have n: "n < length w" using Suc.prems(1) IH(1) by simp
  then have wn: "w ! n = vec ! n" and dr: "drop (Suc n) w = drop (Suc n) vec"
    using IH(1,3) by (metis nth_via_drop Cons_nth_drop_Suc, metis drop_Suc tl_drop)
  have "Suc n - j = Suc (n - j)" using IH(2) by simp
  with Suc.prems wj IH wn dr n show ?case
    by (auto simp: take_Suc_conv_app_nth Let_def split: if_splits)
qed

lemma compress_index_vector_filter:
  "compress_index_vector mapping vec =
     filter (\<lambda>j. j \<noteq> -1) (map (\<lambda>x. mapping ! nat x) vec)"
proof -
  obtain v off where "foldl (compress_index_step mapping) (vec, 0) [0..<length vec] = (v, off)" by fastforce
  with compress_index_vector_loop [OF order_refl this] show ?thesis
    by (simp add: compress_index_vector_def)
qed

text \<open>
  Compressing the domains by the mapping of a deletion pass keeps exactly the bounds and flags of
  the remaining columns, in their old order, and moves each of them to its new index.
\<close>

lemma domains_compress_kept:
  assumes "compress_mapping m" and "length (lower_bounds domains) = length m"
    and "length (upper_bounds domains) = length m" and "length (col_flags domains) = length m"
    and "i < length m" and "m ! i \<noteq> -1"
  shows "lower_bounds (domains_compress m domains) = map ((!) (lower_bounds domains)) (kept m (length m)) \<and>
    lower_bounds (domains_compress m domains) ! nat (m ! i) = lower_bounds domains ! i \<and>
    upper_bounds (domains_compress m domains) ! nat (m ! i) = upper_bounds domains ! i \<and>
    col_flags (domains_compress m domains) ! nat (m ! i) = col_flags domains ! i"
proof -
  have mi: "m ! i = int (length (kept m i))"
    using assms(1,5,6) by (auto simp: compress_mapping_def)
  have "kept m (length m) = kept m i @ i # kept_from m i"
    using kept_append [OF assms(5,6)] .
  then have "kept m (length m) ! nat (m ! i) = i" "nat (m ! i) < length (kept m (length m))"
    using mi by (simp_all add: nth_append)
  with assms(2-4) show ?thesis
    by (simp add: domains_compress_def compress_vector_kept [OF assms(1)])
qed

end
