(* ===== verification/Pap_Activity.thy ===== *)
theory Pap_Activity
  imports Pap_Domains
begin

text \<open>
  \<open>src/papilo/core/SingleRow.hpp\<close>, first half: the activity of a row (its minimal and maximal
  value over the variable domains, with the infinite contributions counted apart), the status of a
  row read off its activity, and the incremental updates of the activities after a bound or a
  coefficient changed.

  The three arguments \<open>rowvals\<close>, \<open>colindices\<close> and \<open>rowlen\<close> of the source are one list whose
  \<open>j\<close>-th element is \<open>(colindices[j], rowvals[j])\<close>; a column is a list of pairs of a row and a value.
\<close>

section \<open>Data\<close>

type_synonym sparse_vec = "(nat \<times> rat) list"

datatype BoundChange = kLower | kUpper

datatype ActivityChange = kMin | kMax

datatype RowStatus = kInfeasible | kRedundant | kRedundantLhs | kRedundantRhs | kUnknown

record RowActivity =
  act_min :: rat
  act_max :: rat
  ninfmin :: int
  ninfmax :: int
  lastchange :: int

definition repropagate :: "RowActivity \<Rightarrow> ActivityChange \<Rightarrow> flags \<Rightarrow> bool" where
  "repropagate act actChange rflags =
     (if actChange = kMin \<and> \<not> flags_test rflags [kRhsInf] \<and> ninfmin act \<le> 1 then True
      else if actChange = kMax \<and> \<not> flags_test rflags [kLhsInf] \<and> ninfmax act \<le> 1 then True
      else False)"

text \<open>The early returns of \<open>checkStatus\<close> are the values \<open>kInfeasible\<close> of the two tests.\<close>

definition checkStatus :: "Num \<Rightarrow> flags \<Rightarrow> rat \<Rightarrow> rat \<Rightarrow> RowActivity \<Rightarrow> RowStatus" where
  "checkStatus num rflags lhs rhs act =
     (if \<not> flags_test rflags [kLhsInf] \<and> ninfmax act = 0 \<and>
         isFeasLT num (act_max act) lhs \<and> isSafeLT num (act_max act) lhs
      then kInfeasible
      else let status =
        (if \<not> flags_test rflags [kLhsInf] then
           (if ninfmin act = 0 \<and> isFeasGE num (act_min act) lhs then kRedundantLhs else kUnknown)
         else kRedundant)
      in if \<not> flags_test rflags [kRhsInf] then
           (if ninfmin act = 0 \<and> isFeasGT num (act_min act) rhs \<and> isSafeGT num (act_min act) rhs
            then kInfeasible
            else if ninfmax act = 0 \<and> isFeasLE num (act_max act) rhs then
              (if status = kUnknown then kRedundantRhs else kRedundant)
            else if status = kRedundant then kUnknown
            else status)
         else if status = kRedundantLhs then kRedundant
         else status)"

text \<open>The result of \<open>count_locks\<close> is the pair of its reference arguments \<open>(ndownlocks, nuplocks)\<close>.\<close>

definition count_locks :: "rat \<Rightarrow> flags \<Rightarrow> int \<times> int \<Rightarrow> int \<times> int" where
  "count_locks val rflags locks =
     (case locks of (ndownlocks, nuplocks) \<Rightarrow>
       if val < 0 then
         (if \<not> flags_test rflags [kRhsInf] then ndownlocks + 1 else ndownlocks,
          if \<not> flags_test rflags [kLhsInf] then nuplocks + 1 else nuplocks)
       else
         (if \<not> flags_test rflags [kLhsInf] then ndownlocks + 1 else ndownlocks,
          if \<not> flags_test rflags [kRhsInf] then nuplocks + 1 else nuplocks))"

section \<open>Computing an activity\<close>

definition add_ub_contribution :: "variable_domains \<Rightarrow> nat \<times> rat \<Rightarrow> RowActivity \<Rightarrow> RowActivity" where
  "add_ub_contribution domains e act =
     (case e of (col, val) \<Rightarrow>
       if \<not> flags_test (col_flags domains ! col) [kUbUseless] then
         (if val < 0 then act\<lparr>act_min := act_min act + val * (upper_bounds domains ! col)\<rparr>
          else act\<lparr>act_max := act_max act + val * (upper_bounds domains ! col)\<rparr>)
       else if val < 0 then act\<lparr>ninfmin := ninfmin act + 1\<rparr>
       else act\<lparr>ninfmax := ninfmax act + 1\<rparr>)"

definition add_lb_contribution :: "variable_domains \<Rightarrow> nat \<times> rat \<Rightarrow> RowActivity \<Rightarrow> RowActivity" where
  "add_lb_contribution domains e act =
     (case e of (col, val) \<Rightarrow>
       if \<not> flags_test (col_flags domains ! col) [kLbUseless] then
         (if val < 0 then act\<lparr>act_max := act_max act + val * (lower_bounds domains ! col)\<rparr>
          else act\<lparr>act_min := act_min act + val * (lower_bounds domains ! col)\<rparr>)
       else if val < 0 then act\<lparr>ninfmax := ninfmax act + 1\<rparr>
       else act\<lparr>ninfmin := ninfmin act + 1\<rparr>)"

definition compute_row_activity :: "sparse_vec \<Rightarrow> variable_domains \<Rightarrow> int \<Rightarrow> RowActivity" where
  "compute_row_activity row domains presolveround =
     foldl (\<lambda>act e. add_lb_contribution domains e (add_ub_contribution domains e act))
       \<lparr>act_min = 0, act_max = 0, ninfmin = 0, ninfmax = 0, lastchange = presolveround\<rparr> row"

definition compute_minimal_row_activity :: "sparse_vec \<Rightarrow> variable_domains \<Rightarrow> rat" where
  "compute_minimal_row_activity row domains =
     foldl (\<lambda>m (col, val).
       let m1 = (if \<not> flags_test (col_flags domains ! col) [kUbUseless] \<and> val < 0
                 then m + val * (upper_bounds domains ! col) else m)
       in if \<not> flags_test (col_flags domains ! col) [kLbUseless] \<and> val > 0
          then m1 + val * (lower_bounds domains ! col) else m1) 0 row"

definition compute_maximal_row_activity :: "sparse_vec \<Rightarrow> variable_domains \<Rightarrow> rat" where
  "compute_maximal_row_activity row domains =
     foldl (\<lambda>m (col, val).
       let m1 = (if \<not> flags_test (col_flags domains ! col) [kUbUseless] \<and> val > 0
                 then m + val * (upper_bounds domains ! col) else m)
       in if \<not> flags_test (col_flags domains ! col) [kLbUseless] \<and> val < 0
          then m1 + val * (lower_bounds domains ! col) else m1) 0 row"

section \<open>Incremental updates\<close>

definition update_activity_after_boundchange ::
  "rat \<Rightarrow> BoundChange \<Rightarrow> rat \<Rightarrow> rat \<Rightarrow> bool \<Rightarrow> RowActivity \<Rightarrow> ActivityChange \<times> RowActivity" where
  "update_activity_after_boundchange colval type oldbound newbound oldbound_inf act =
     (if type = kLower then
        (if colval < 0 then
           (kMax, if oldbound_inf
                  then act\<lparr>ninfmax := ninfmax act - 1, act_max := act_max act + newbound * colval\<rparr>
                  else act\<lparr>act_max := act_max act + (newbound - oldbound) * colval\<rparr>)
         else
           (kMin, if oldbound_inf
                  then act\<lparr>ninfmin := ninfmin act - 1, act_min := act_min act + newbound * colval\<rparr>
                  else act\<lparr>act_min := act_min act + (newbound - oldbound) * colval\<rparr>))
      else
        (if colval < 0 then
           (kMin, if oldbound_inf
                  then act\<lparr>ninfmin := ninfmin act - 1, act_min := act_min act + newbound * colval\<rparr>
                  else act\<lparr>act_min := act_min act + (newbound - oldbound) * colval\<rparr>)
         else
           (kMax, if oldbound_inf
                  then act\<lparr>ninfmax := ninfmax act - 1, act_max := act_max act + newbound * colval\<rparr>
                  else act\<lparr>act_max := act_max act + (newbound - oldbound) * colval\<rparr>)))"

definition remove_finite_bound_contribution ::
  "BoundChange \<Rightarrow> rat \<Rightarrow> rat \<Rightarrow> RowActivity \<Rightarrow> RowActivity" where
  "remove_finite_bound_contribution type oldbound colval act =
     (if type = kLower then
        (if colval < 0
         then act\<lparr>act_max := act_max act - oldbound * colval, ninfmax := ninfmax act + 1\<rparr>
         else act\<lparr>act_min := act_min act - oldbound * colval, ninfmin := ninfmin act + 1\<rparr>)
      else
        (if colval < 0
         then act\<lparr>act_min := act_min act - oldbound * colval, ninfmin := ninfmin act + 1\<rparr>
         else act\<lparr>act_max := act_max act - oldbound * colval, ninfmax := ninfmax act + 1\<rparr>))"

definition update_activities_remove_finite_bound ::
  "sparse_vec \<Rightarrow> BoundChange \<Rightarrow> rat \<Rightarrow> RowActivity list \<Rightarrow> RowActivity list" where
  "update_activities_remove_finite_bound col type oldbound activities =
     foldl (\<lambda>acts (row, colval).
       acts[row := remove_finite_bound_contribution type oldbound colval (acts ! row)])
       activities col"

text \<open>
  The callback \<open>activityChange\<close> receives the activity by reference; it is a function that returns
  the activity it leaves and the state of the caller.
\<close>

type_synonym 's activity_callback = "ActivityChange \<Rightarrow> nat \<Rightarrow> RowActivity \<Rightarrow> 's \<Rightarrow> RowActivity \<times> 's"

definition notify_boundchange ::
  "'s activity_callback \<Rightarrow> bool \<Rightarrow> nat \<Rightarrow> ActivityChange \<Rightarrow> RowActivity \<times> 's \<Rightarrow> RowActivity \<times> 's"
where
  "notify_boundchange activityChange watch row actChange st0 =
     (let st1 = (if actChange = kMin \<and> (ninfmin (fst st0) = 0 \<or> watch)
                 then activityChange kMin row (fst st0) (snd st0) else st0)
      in if actChange = kMax \<and> (ninfmax (fst st1) = 0 \<or> watch)
         then activityChange kMax row (fst st1) (snd st1) else st1)"

definition update_activities_after_boundchange ::
  "sparse_vec \<Rightarrow> BoundChange \<Rightarrow> rat \<Rightarrow> rat \<Rightarrow> bool \<Rightarrow> 's activity_callback \<Rightarrow> bool \<Rightarrow>
   RowActivity list \<times> 's \<Rightarrow> RowActivity list \<times> 's" where
  "update_activities_after_boundchange col type oldbound newbound oldbound_inf activityChange watch st =
     foldl (\<lambda>(acts, s) (row, colval).
       case update_activity_after_boundchange colval type oldbound newbound oldbound_inf (acts ! row) of
         (actChange, act) \<Rightarrow>
           (case notify_boundchange activityChange watch row actChange (act, s) of
              (act', s') \<Rightarrow> (acts[row := act'], s'))) st col"

text \<open>
  \<open>update_activity_after_coeffchange\<close>: the removal of the contributions of the old coefficient,
  the addition of those of the new one, and the two branches of the function.
\<close>

definition remove_old_coeff :: "rat \<Rightarrow> rat \<Rightarrow> flags \<Rightarrow> rat \<Rightarrow> RowActivity \<Rightarrow> RowActivity" where
  "remove_old_coeff collb colub cflags oldcolcoef act0 =
     (let act1 =
        (if flags_test cflags [kLbUseless] then
           (if oldcolcoef < 0 then act0\<lparr>ninfmax := ninfmax act0 - 1\<rparr>
            else act0\<lparr>ninfmin := ninfmin act0 - 1\<rparr>)
         else if oldcolcoef < 0 then act0\<lparr>act_max := act_max act0 - oldcolcoef * collb\<rparr>
         else act0\<lparr>act_min := act_min act0 - oldcolcoef * collb\<rparr>)
      in if flags_test cflags [kUbUseless] then
           (if oldcolcoef < 0 then act1\<lparr>ninfmin := ninfmin act1 - 1\<rparr>
            else act1\<lparr>ninfmax := ninfmax act1 - 1\<rparr>)
         else if oldcolcoef < 0 then act1\<lparr>act_min := act_min act1 - oldcolcoef * colub\<rparr>
         else act1\<lparr>act_max := act_max act1 - oldcolcoef * colub\<rparr>)"

definition add_new_coeff :: "rat \<Rightarrow> rat \<Rightarrow> flags \<Rightarrow> rat \<Rightarrow> RowActivity \<Rightarrow> RowActivity" where
  "add_new_coeff collb colub cflags newcolcoef act0 =
     (let act1 =
        (if flags_test cflags [kLbUseless] then
           (if newcolcoef < 0 then act0\<lparr>ninfmax := ninfmax act0 + 1\<rparr>
            else act0\<lparr>ninfmin := ninfmin act0 + 1\<rparr>)
         else if newcolcoef < 0 then act0\<lparr>act_max := act_max act0 + newcolcoef * collb\<rparr>
         else act0\<lparr>act_min := act_min act0 + newcolcoef * collb\<rparr>)
      in if flags_test cflags [kUbUseless] then
           (if newcolcoef < 0 then act1\<lparr>ninfmin := ninfmin act1 + 1\<rparr>
            else act1\<lparr>ninfmax := ninfmax act1 + 1\<rparr>)
         else if newcolcoef < 0 then act1\<lparr>act_min := act_min act1 + newcolcoef * colub\<rparr>
         else act1\<lparr>act_max := act_max act1 + newcolcoef * colub\<rparr>)"

type_synonym 's coeff_callback = "ActivityChange \<Rightarrow> RowActivity \<Rightarrow> 's \<Rightarrow> RowActivity \<times> 's"

definition notify_if :: "bool \<Rightarrow> 's coeff_callback \<Rightarrow> ActivityChange \<Rightarrow> RowActivity \<times> 's \<Rightarrow> RowActivity \<times> 's"
where
  "notify_if b activityChange c st = (if b then activityChange c (fst st) (snd st) else st)"

definition coeffchange_sign_flipped ::
  "rat \<Rightarrow> rat \<Rightarrow> flags \<Rightarrow> rat \<Rightarrow> rat \<Rightarrow> 's coeff_callback \<Rightarrow> RowActivity \<times> 's \<Rightarrow> RowActivity \<times> 's"
where
  "coeffchange_sign_flipped collb colub cflags oldcolcoef newcolcoef activityChange st =
     (let oldact = fst st;
          act1 = (if oldcolcoef \<noteq> 0 then remove_old_coeff collb colub cflags oldcolcoef oldact
                  else oldact);
          act2 = (if newcolcoef \<noteq> 0 then add_new_coeff collb colub cflags newcolcoef act1 else act1);
          st1 = notify_if ((ninfmin oldact \<noteq> 0 \<and> ninfmin act2 = 0) \<or>
                  (ninfmin oldact = 0 \<and> ninfmin act2 = 0 \<and> act_min oldact \<noteq> act_min act2))
                  activityChange kMin (act2, snd st)
      in notify_if ((ninfmax oldact \<noteq> 0 \<and> ninfmax (fst st1) = 0) \<or>
           (ninfmax oldact = 0 \<and> ninfmax (fst st1) = 0 \<and> act_max oldact \<noteq> act_max (fst st1)))
           activityChange kMax st1)"

definition coeffchange_max ::
  "sparse_vec \<Rightarrow> variable_domains \<Rightarrow> bool \<Rightarrow> rat \<Rightarrow> 's coeff_callback \<Rightarrow>
   RowActivity \<times> 's \<Rightarrow> RowActivity \<times> 's" where
  "coeffchange_max row domains isDifferenceHugeVal delta activityChange st =
     (let act = fst st;
          act' = (if isDifferenceHugeVal
                  then act\<lparr>act_max := compute_maximal_row_activity row domains\<rparr>
                  else act\<lparr>act_max := act_max act + delta\<rparr>)
      in notify_if (ninfmax act' = 0) activityChange kMax (act', snd st))"

definition coeffchange_min ::
  "sparse_vec \<Rightarrow> variable_domains \<Rightarrow> bool \<Rightarrow> rat \<Rightarrow> 's coeff_callback \<Rightarrow>
   RowActivity \<times> 's \<Rightarrow> RowActivity \<times> 's" where
  "coeffchange_min row domains isDifferenceHugeVal delta activityChange st =
     (let act = fst st;
          act' = (if isDifferenceHugeVal
                  then act\<lparr>act_min := compute_minimal_row_activity row domains\<rparr>
                  else act\<lparr>act_min := act_min act + delta\<rparr>)
      in notify_if (ninfmin act' = 0) activityChange kMin (act', snd st))"

definition coeffchange_same_sign ::
  "Num \<Rightarrow> rat \<Rightarrow> rat \<Rightarrow> flags \<Rightarrow> rat \<Rightarrow> rat \<Rightarrow> sparse_vec \<Rightarrow> variable_domains \<Rightarrow>
   's coeff_callback \<Rightarrow> RowActivity \<times> 's \<Rightarrow> RowActivity \<times> 's" where
  "coeffchange_same_sign num collb colub cflags oldcolcoef newcolcoef row domains activityChange st =
     (let huge = isHugeVal num (newcolcoef - oldcolcoef);
          st1 = (if \<not> flags_test cflags [kLbUseless] \<and> collb \<noteq> 0 then
                   (if newcolcoef < 0
                    then coeffchange_max row domains huge (collb * (newcolcoef - oldcolcoef)) activityChange st
                    else coeffchange_min row domains huge (collb * (newcolcoef - oldcolcoef)) activityChange st)
                 else st)
      in if \<not> flags_test cflags [kUbUseless] \<and> colub \<noteq> 0 then
           (if newcolcoef < 0
            then coeffchange_min row domains huge (colub * (newcolcoef - oldcolcoef)) activityChange st1
            else coeffchange_max row domains huge (colub * (newcolcoef - oldcolcoef)) activityChange st1)
         else st1)"

definition update_activity_after_coeffchange ::
  "Num \<Rightarrow> rat \<Rightarrow> rat \<Rightarrow> flags \<Rightarrow> rat \<Rightarrow> rat \<Rightarrow> sparse_vec \<Rightarrow> variable_domains \<Rightarrow>
   's coeff_callback \<Rightarrow> RowActivity \<times> 's \<Rightarrow> RowActivity \<times> 's" where
  "update_activity_after_coeffchange num collb colub cflags oldcolcoef newcolcoef row domains
     activityChange st =
     (if oldcolcoef * newcolcoef \<le> 0
      then coeffchange_sign_flipped collb colub cflags oldcolcoef newcolcoef activityChange st
      else coeffchange_same_sign num collb colub cflags oldcolcoef newcolcoef row domains
             activityChange st)"


section \<open>What an activity is\<close>

text \<open>
  The contribution of one entry to the minimal and to the maximal activity, finite part and
  infinity count apart. An activity tracks a row over a domain if its four numbers are the sums of
  these contributions.
\<close>

definition min_part :: "variable_domains \<Rightarrow> nat \<times> rat \<Rightarrow> rat" where
  "min_part domains e = (case e of (c, v) \<Rightarrow>
     if v < 0 then (if ub_useless domains c then 0 else v * upper_bounds domains ! c)
     else (if lb_useless domains c then 0 else v * lower_bounds domains ! c))"

definition max_part :: "variable_domains \<Rightarrow> nat \<times> rat \<Rightarrow> rat" where
  "max_part domains e = (case e of (c, v) \<Rightarrow>
     if v < 0 then (if lb_useless domains c then 0 else v * lower_bounds domains ! c)
     else (if ub_useless domains c then 0 else v * upper_bounds domains ! c))"

definition min_inf :: "variable_domains \<Rightarrow> nat \<times> rat \<Rightarrow> int" where
  "min_inf domains e = (case e of (c, v) \<Rightarrow>
     if v < 0 then (if ub_useless domains c then 1 else 0)
     else (if lb_useless domains c then 1 else 0))"

definition max_inf :: "variable_domains \<Rightarrow> nat \<times> rat \<Rightarrow> int" where
  "max_inf domains e = (case e of (c, v) \<Rightarrow>
     if v < 0 then (if lb_useless domains c then 1 else 0)
     else (if ub_useless domains c then 1 else 0))"

lemmas part_defs = min_part_def max_part_def min_inf_def max_inf_def

definition tracks :: "variable_domains \<Rightarrow> sparse_vec \<Rightarrow> RowActivity \<Rightarrow> bool" where
  "tracks domains row act \<longleftrightarrow>
     act_min act = sum_list (map (min_part domains) row) \<and>
     act_max act = sum_list (map (max_part domains) row) \<and>
     ninfmin act = sum_list (map (min_inf domains) row) \<and>
     ninfmax act = sum_list (map (max_inf domains) row)"

definition row_value :: "sparse_vec \<Rightarrow> rat list \<Rightarrow> rat" where
  "row_value row x = sum_list (map (\<lambda>(c, v). v * x ! c) row)"

definition row_in_domain :: "variable_domains \<Rightarrow> sparse_vec \<Rightarrow> rat list \<Rightarrow> bool" where
  "row_in_domain domains row x \<longleftrightarrow> list_all (\<lambda>(c, v). in_col_domain domains c (x ! c)) row"

definition satisfies_row :: "flags \<Rightarrow> rat \<Rightarrow> rat \<Rightarrow> rat \<Rightarrow> bool" where
  "satisfies_row rflags lhs rhs v \<longleftrightarrow>
     (flags_test rflags [kLhsInf] \<or> lhs \<le> v) \<and> (flags_test rflags [kRhsInf] \<or> v \<le> rhs)"

definition rest_of_row :: "nat \<Rightarrow> sparse_vec \<Rightarrow> sparse_vec" where
  "rest_of_row c row = filter (\<lambda>e. fst e \<noteq> c) row"

abbreviation distinct_cols :: "sparse_vec \<Rightarrow> bool" where
  "distinct_cols row \<equiv> distinct (map fst row)"

subsection \<open>The computed activity tracks the row\<close>

lemma compute_row_activity_acc:
  "foldl (\<lambda>act e. add_lb_contribution domains e (add_ub_contribution domains e act)) act row =
   act\<lparr>act_min := act_min act + sum_list (map (min_part domains) row),
       act_max := act_max act + sum_list (map (max_part domains) row),
       ninfmin := ninfmin act + sum_list (map (min_inf domains) row),
       ninfmax := ninfmax act + sum_list (map (max_inf domains) row)\<rparr>"
proof (induction row arbitrary: act)
  case Nil
  then show ?case by simp
next
  case (Cons e row)
  have "add_lb_contribution domains e (add_ub_contribution domains e act) =
    act\<lparr>act_min := act_min act + min_part domains e, act_max := act_max act + max_part domains e,
        ninfmin := ninfmin act + min_inf domains e, ninfmax := ninfmax act + max_inf domains e\<rparr>"
    by (cases e) (simp add: add_lb_contribution_def add_ub_contribution_def part_defs)
  with Cons.IH show ?case by (simp add: add.assoc)
qed

lemma compute_row_activity_tracks: "tracks domains row (compute_row_activity row domains r)"
  by (simp add: compute_row_activity_def compute_row_activity_acc tracks_def)

lemma compute_minimal_acc:
  "foldl (\<lambda>m (col, val).
       let m1 = (if \<not> flags_test (col_flags domains ! col) [kUbUseless] \<and> val < 0
                 then m + val * (upper_bounds domains ! col) else m)
       in if \<not> flags_test (col_flags domains ! col) [kLbUseless] \<and> val > 0
          then m1 + val * (lower_bounds domains ! col) else m1) m row =
   m + sum_list (map (min_part domains) row)"
  by (induction row arbitrary: m) (auto simp: min_part_def Let_def not_less)

lemma compute_maximal_acc:
  "foldl (\<lambda>m (col, val).
       let m1 = (if \<not> flags_test (col_flags domains ! col) [kUbUseless] \<and> val > 0
                 then m + val * (upper_bounds domains ! col) else m)
       in if \<not> flags_test (col_flags domains ! col) [kLbUseless] \<and> val < 0
          then m1 + val * (lower_bounds domains ! col) else m1) m row =
   m + sum_list (map (max_part domains) row)"
  by (induction row arbitrary: m) (auto simp: max_part_def Let_def not_less)

lemma compute_minimal_eq:
    "compute_minimal_row_activity row domains = sum_list (map (min_part domains) row)"
  and compute_maximal_eq:
    "compute_maximal_row_activity row domains = sum_list (map (max_part domains) row)"
  by (simp_all add: compute_minimal_row_activity_def compute_minimal_acc
      compute_maximal_row_activity_def compute_maximal_acc)

text \<open>
  A freshly computed activity is the activity of the row: its minimum, maximum and the two counts
  of infinite contributions are the sums of what the entries contribute over the domain, and the
  two routines that recompute one side only agree with it.
\<close>

lemma computed_activities_agree:
  "tracks domains row (compute_row_activity row domains r) \<and>
   compute_minimal_row_activity row domains = act_min (compute_row_activity row domains r) \<and>
   compute_maximal_row_activity row domains = act_max (compute_row_activity row domains r)"
  using compute_row_activity_tracks [of domains row r]
  by (simp add: compute_minimal_eq compute_maximal_eq tracks_def)

subsection \<open>Activities bound the value of the row\<close>

lemma inf_counts_nonneg: "0 \<le> sum_list (map (min_inf domains) row)"
  "0 \<le> sum_list (map (max_inf domains) row)"
  by (induction row) (auto simp: part_defs)

lemma no_min_inf: "sum_list (map (min_inf domains) row) = 0 \<Longrightarrow> e \<in> set row \<Longrightarrow> min_inf domains e = 0"
proof (induction row)
  case (Cons f row)
  have "0 \<le> min_inf domains f" by (auto simp: min_inf_def split: prod.split)
  with Cons inf_counts_nonneg(1) [of domains row] show ?case by auto
qed simp

lemma no_max_inf: "sum_list (map (max_inf domains) row) = 0 \<Longrightarrow> e \<in> set row \<Longrightarrow> max_inf domains e = 0"
proof (induction row)
  case (Cons f row)
  have "0 \<le> max_inf domains f" by (auto simp: max_inf_def split: prod.split)
  with Cons inf_counts_nonneg(2) [of domains row] show ?case by auto
qed simp

lemma min_part_le:
  assumes "in_col_domain domains c v" and "min_inf domains (c, a) = 0"
  shows "min_part domains (c, a) \<le> a * v"
  using assms in_col_domain_lb [OF assms(1)] in_col_domain_ub [OF assms(1)]
  by (auto simp: min_part_def min_inf_def mult_left_mono mult_left_mono_neg split: if_splits)

lemma max_part_ge:
  assumes "in_col_domain domains c v" and "max_inf domains (c, a) = 0"
  shows "a * v \<le> max_part domains (c, a)"
  using assms in_col_domain_lb [OF assms(1)] in_col_domain_ub [OF assms(1)]
  by (auto simp: max_part_def max_inf_def mult_left_mono mult_left_mono_neg split: if_splits)

lemma sum_min_part_le:
  assumes "row_in_domain domains row x" and "sum_list (map (min_inf domains) row) = 0"
  shows "sum_list (map (min_part domains) row) \<le> row_value row x"
  unfolding row_value_def
  using assms no_min_inf [OF assms(2)]
  by (intro sum_list_mono_elem) (auto simp: row_in_domain_def list_all_iff intro: min_part_le)

lemma sum_max_part_ge:
  assumes "row_in_domain domains row x" and "sum_list (map (max_inf domains) row) = 0"
  shows "row_value row x \<le> sum_list (map (max_part domains) row)"
  unfolding row_value_def
  using assms no_max_inf [OF assms(2)]
  by (intro sum_list_mono_elem) (auto simp: row_in_domain_def list_all_iff intro: max_part_ge)

lemma activity_lower_bound:
  "tracks domains row act \<Longrightarrow> row_in_domain domains row x \<Longrightarrow> ninfmin act = 0 \<Longrightarrow>
   act_min act \<le> row_value row x"
  by (simp add: tracks_def sum_min_part_le)

lemma activity_upper_bound:
  "tracks domains row act \<Longrightarrow> row_in_domain domains row x \<Longrightarrow> ninfmax act = 0 \<Longrightarrow>
   row_value row x \<le> act_max act"
  by (simp add: tracks_def sum_max_part_ge)

subsection \<open>Residual activities\<close>

lemma rest_in_domain: "row_in_domain domains row x \<Longrightarrow> row_in_domain domains (rest_of_row c row) x"
  by (auto simp: row_in_domain_def rest_of_row_def list_all_iff)

lemma row_value_split:
  "distinct_cols row \<Longrightarrow> (c, v) \<in> set row \<Longrightarrow>
   row_value row x = v * x ! c + row_value (rest_of_row c row) x"
  unfolding row_value_def rest_of_row_def by (subst sum_list_remove_key) auto

lemma tracks_split:
  assumes "tracks domains row act" and "distinct_cols row" and "(c, v) \<in> set row"
  shows "act_min act = min_part domains (c, v) + sum_list (map (min_part domains) (rest_of_row c row))"
    and "act_max act = max_part domains (c, v) + sum_list (map (max_part domains) (rest_of_row c row))"
    and "ninfmin act = min_inf domains (c, v) + sum_list (map (min_inf domains) (rest_of_row c row))"
    and "ninfmax act = max_inf domains (c, v) + sum_list (map (max_inf domains) (rest_of_row c row))"
  using assms(1) unfolding tracks_def rest_of_row_def
  by (simp_all add: sum_list_remove_key [OF assms(2,3)])

lemma residual_min:
  assumes "tracks domains row act" and "distinct_cols row" and "(c, v) \<in> set row"
    and "row_in_domain domains (rest_of_row c row) x"
    and "ninfmin act = min_inf domains (c, v)"
  shows "act_min act - min_part domains (c, v) \<le> row_value (rest_of_row c row) x"
  using tracks_split [OF assms(1-3)] assms(4,5) sum_min_part_le [OF assms(4)] by simp

lemma residual_max:
  assumes "tracks domains row act" and "distinct_cols row" and "(c, v) \<in> set row"
    and "row_in_domain domains (rest_of_row c row) x"
    and "ninfmax act = max_inf domains (c, v)"
  shows "row_value (rest_of_row c row) x \<le> act_max act - max_part domains (c, v)"
  using tracks_split [OF assms(1-3)] assms(4,5) sum_max_part_ge [OF assms(4)] by simp

section \<open>A row and its domain for the witnesses\<close>

definition ex_domains :: variable_domains where
  "ex_domains = \<lparr>lower_bounds = [0, -1], upper_bounds = [10, 5], col_flags = [kIntegral, kLbInf]\<rparr>"

definition ex_row :: sparse_vec where "ex_row = [(0, 2), (1, -1)]"

definition ex_domains2 :: variable_domains where
  "ex_domains2 = \<lparr>lower_bounds = [0, 0], upper_bounds = [10, 5], col_flags = [0, 0]\<rparr>"

end
