(* ===== verification/Pap_Activity_Laws.thy ===== *)
theory Pap_Activity_Laws
  imports Pap_Activity "HOL-Library.Multiset"
begin

text \<open>
  The correctness of the activities: the row status is sound, every incremental update yields the
  activity that a recomputation over the changed domain or the changed row would yield, and the
  listeners the program registers on activity changes only touch the round stamp.
\<close>

section \<open>The status of a row\<close>

lemma checkStatus_infeasible:
  assumes "num_ok num" and "tracks domains row act" and "row_in_domain domains row x"
    and "checkStatus num rflags lhs rhs act = kInfeasible"
  shows "\<not> satisfies_row rflags lhs rhs (row_value row x)"
proof -
  from assms(4) consider
      (lhs) "\<not> flags_test rflags [kLhsInf]" "ninfmax act = 0" "isFeasLT num (act_max act) lhs"
    | (rhs) "\<not> flags_test rflags [kRhsInf]" "ninfmin act = 0" "isFeasGT num (act_min act) rhs"
    by (auto simp: checkStatus_def Let_def split: if_splits)
  then show ?thesis
  proof cases
    case lhs
    with assms have "row_value row x < lhs"
      using activity_upper_bound [OF assms(2,3)] feas.lt_less [OF assms(1)] by fastforce
    with lhs show ?thesis by (simp add: satisfies_row_def)
  next
    case rhs
    with assms have "rhs < row_value row x"
      using activity_lower_bound [OF assms(2,3)] feas.gt_greater [OF assms(1)] by fastforce
    with rhs show ?thesis by (simp add: satisfies_row_def)
  qed
qed

lemma checkStatus_redundant_lhs:
  assumes "checkStatus num rflags lhs rhs act \<in> {kRedundant, kRedundantLhs}"
    and "\<not> flags_test rflags [kLhsInf]"
  shows "ninfmin act = 0 \<and> isFeasGE num (act_min act) lhs"
  using assms by (auto simp: checkStatus_def Let_def split: if_splits)

lemma checkStatus_redundant_rhs:
  assumes "checkStatus num rflags lhs rhs act \<in> {kRedundant, kRedundantRhs}"
    and "\<not> flags_test rflags [kRhsInf]"
  shows "ninfmax act = 0 \<and> isFeasLE num (act_max act) rhs"
  using assms by (auto simp: checkStatus_def Let_def split: if_splits)

lemma isFeasGE_mono: "isFeasGE num a b \<Longrightarrow> a \<le> c \<Longrightarrow> useabsfeas num \<Longrightarrow> isFeasGE num c b"
  by (auto simp: isFeasGE_def isFeasAbsGE_def)

lemma isFeasLE_mono: "isFeasLE num a b \<Longrightarrow> c \<le> a \<Longrightarrow> useabsfeas num \<Longrightarrow> isFeasLE num c b"
  by (auto simp: isFeasLE_def isFeasAbsLE_def)

text \<open>
  C25. The status of a row is sound: an infeasible row is violated by every point of the domain, a
  side reported redundant is satisfied by every point of the domain up to the feasibility tolerance.
\<close>

theorem checkStatus_sound:
  assumes "num_ok num" and "useabsfeas num"
    and "tracks domains row act" and "row_in_domain domains row x"
  shows "case checkStatus num rflags lhs rhs act of
      kInfeasible \<Rightarrow> \<not> satisfies_row rflags lhs rhs (row_value row x)
    | kRedundant \<Rightarrow> satisfies_row rflags (lhs - feastol num) (rhs + feastol num) (row_value row x)
    | kRedundantLhs \<Rightarrow> flags_test rflags [kLhsInf] \<or> lhs - feastol num \<le> row_value row x
    | kRedundantRhs \<Rightarrow> flags_test rflags [kRhsInf] \<or> row_value row x \<le> rhs + feastol num
    | kUnknown \<Rightarrow> True"
proof -
  have ge: "ninfmin act = 0 \<and> isFeasGE num (act_min act) lhs \<Longrightarrow> lhs - feastol num \<le> row_value row x"
    using activity_lower_bound [OF assms(3,4)] assms(2)
    by (auto simp: isFeasGE_def isFeasAbsGE_def)
  have le: "ninfmax act = 0 \<and> isFeasLE num (act_max act) rhs \<Longrightarrow> row_value row x \<le> rhs + feastol num"
    using activity_upper_bound [OF assms(3,4)] assms(2)
    by (auto simp: isFeasLE_def isFeasAbsLE_def)
  show ?thesis
    using ge le checkStatus_infeasible [OF assms(1,3,4), of rflags lhs rhs]
      checkStatus_redundant_lhs [of num rflags lhs rhs act]
      checkStatus_redundant_rhs [of num rflags lhs rhs act]
    by (auto simp: satisfies_row_def split: RowStatus.split)
qed

theorem checkStatus_sound_witness:
  "checkStatus default_num 0 0 (-7) (compute_row_activity ex_row ex_domains 0) = kInfeasible \<and>
   \<not> satisfies_row 0 0 (-7) (row_value ex_row [3, 2])"
proof -
  have "num_ok default_num" "useabsfeas default_num" by code_simp+
  moreover have "row_in_domain ex_domains ex_row [3, 2]" by code_simp
  moreover have "checkStatus default_num 0 0 (-7) (compute_row_activity ex_row ex_domains 0) = kInfeasible" by code_simp
  ultimately show ?thesis
    using checkStatus_sound [of default_num ex_domains ex_row "compute_row_activity ex_row ex_domains 0" "[3,2]" 0 0 "-7"]
     compute_row_activity_tracks
    by simp
qed

section \<open>Changed bounds\<close>

text \<open>The domains after a finite, not huge bound of a column was set, as \<open>changeLB\<close> leaves them.\<close>

definition with_lower :: "nat \<Rightarrow> rat \<Rightarrow> variable_domains \<Rightarrow> variable_domains" where
  "with_lower c b domains = domains\<lparr>lower_bounds := (lower_bounds domains)[c := b],
     col_flags := (col_flags domains)[c := flags_unset [kLbUseless] (col_flags domains ! c)]\<rparr>"

definition with_upper :: "nat \<Rightarrow> rat \<Rightarrow> variable_domains \<Rightarrow> variable_domains" where
  "with_upper c b domains = domains\<lparr>upper_bounds := (upper_bounds domains)[c := b],
     col_flags := (col_flags domains)[c := flags_unset [kUbUseless] (col_flags domains ! c)]\<rparr>"

definition with_bound :: "BoundChange \<Rightarrow> nat \<Rightarrow> rat \<Rightarrow> variable_domains \<Rightarrow> variable_domains" where
  "with_bound type c b = (case type of kLower \<Rightarrow> with_lower c b | kUpper \<Rightarrow> with_upper c b)"

definition old_bound :: "BoundChange \<Rightarrow> variable_domains \<Rightarrow> nat \<Rightarrow> rat" where
  "old_bound type domains c =
     (case type of kLower \<Rightarrow> lower_bounds domains ! c | kUpper \<Rightarrow> upper_bounds domains ! c)"

definition bound_useless :: "BoundChange \<Rightarrow> variable_domains \<Rightarrow> nat \<Rightarrow> bool" where
  "bound_useless type domains c =
     (case type of kLower \<Rightarrow> lb_useless domains c | kUpper \<Rightarrow> ub_useless domains c)"

definition bound_is_inf :: "BoundChange \<Rightarrow> variable_domains \<Rightarrow> nat \<Rightarrow> bool" where
  "bound_is_inf type D c =
     flags_test (col_flags D ! c) [case type of kLower \<Rightarrow> kLbInf | kUpper \<Rightarrow> kUbInf]"

definition col_ok :: "variable_domains \<Rightarrow> nat \<Rightarrow> bool" where
  "col_ok domains c \<longleftrightarrow> c < length (lower_bounds domains) \<and> c < length (upper_bounds domains) \<and>
     c < length (col_flags domains)"

lemma useless_disjoint:
  "flags_test (flags_unset [kLbUseless] f) [kUbUseless] = flags_test f [kUbUseless]"
  "flags_test (flags_unset [kUbUseless] f) [kLbUseless] = flags_test f [kLbUseless]"
  "\<not> flags_test (flags_unset [kLbUseless] f) [kLbUseless]"
  "\<not> flags_test (flags_unset [kUbUseless] f) [kUbUseless]"
proof -
  show "flags_test (flags_unset [kLbUseless] f) [kUbUseless] = flags_test f [kUbUseless]"
    by (rule flags_test_unset_disjoint) (simp add: flag_defs)
  show "flags_test (flags_unset [kUbUseless] f) [kLbUseless] = flags_test f [kLbUseless]"
    by (rule flags_test_unset_disjoint) (simp add: flag_defs)
  show "\<not> flags_test (flags_unset [kLbUseless] f) [kLbUseless]"
    "\<not> flags_test (flags_unset [kUbUseless] f) [kUbUseless]"
    by (simp_all add: flags_test_unset_subset)
qed

lemma with_bound_other:
  assumes "c' \<noteq> c"
  shows "min_part (with_bound type c b domains) (c', v) = min_part domains (c', v)"
    "max_part (with_bound type c b domains) (c', v) = max_part domains (c', v)"
    "min_inf (with_bound type c b domains) (c', v) = min_inf domains (c', v)"
    "max_inf (with_bound type c b domains) (c', v) = max_inf domains (c', v)"
  using assms
  by (auto simp: part_defs with_bound_def with_lower_def with_upper_def split: BoundChange.split)

lemma with_bound_rest:
  "map (min_part (with_bound type c b domains)) (rest_of_row c row) =
     map (min_part domains) (rest_of_row c row)"
  "map (max_part (with_bound type c b domains)) (rest_of_row c row) =
     map (max_part domains) (rest_of_row c row)"
  "map (min_inf (with_bound type c b domains)) (rest_of_row c row) =
     map (min_inf domains) (rest_of_row c row)"
  "map (max_inf (with_bound type c b domains)) (rest_of_row c row) =
     map (max_inf domains) (rest_of_row c row)"
  by (auto simp: rest_of_row_def with_bound_other)

lemma with_bound_absent:
  assumes "c \<notin> fst ` set row"
  shows "tracks (with_bound type c b domains) row act = tracks domains row act"
proof -
  have rest: "rest_of_row c row = row"
    using assms by (auto simp: rest_of_row_def filter_id_conv image_iff)
  show ?thesis
    by (simp only: tracks_def with_bound_rest [of type c b domains row, unfolded rest])
qed

lemma tracksI_split:
  assumes "distinct_cols row" and "(c, v) \<in> set row"
    and "act_min act = min_part domains (c, v) + sum_list (map (min_part domains) (rest_of_row c row))"
    and "act_max act = max_part domains (c, v) + sum_list (map (max_part domains) (rest_of_row c row))"
    and "ninfmin act = min_inf domains (c, v) + sum_list (map (min_inf domains) (rest_of_row c row))"
    and "ninfmax act = max_inf domains (c, v) + sum_list (map (max_inf domains) (rest_of_row c row))"
  shows "tracks domains row act"
  using assms(3-6) unfolding tracks_def rest_of_row_def
  by (simp add: sum_list_remove_key [OF assms(1,2)])

lemma update_boundchange_tracks:
  assumes "tracks domains row act" and "distinct_cols row" and "(c, v) \<in> set row" and "col_ok domains c"
  shows "tracks (with_bound type c b domains) row
    (snd (update_activity_after_boundchange v type (old_bound type domains c) b
       (bound_useless type domains c) act))"
  using assms(4)
  by (intro tracksI_split [OF assms(2,3)], unfold with_bound_rest)
    (auto simp: tracks_split [OF assms(1-3)] update_activity_after_boundchange_def part_defs
      with_bound_def with_lower_def with_upper_def old_bound_def bound_useless_def col_ok_def
      useless_disjoint algebra_simps split: BoundChange.split)


section \<open>Listeners\<close>

lemma tracks_lastchange [simp]: "tracks domains row (act\<lparr>lastchange := r\<rparr>) = tracks domains row act"
  by (simp add: tracks_def)

text \<open>The columns of the matrix are the transpose of its rows, and every row has its activity.\<close>

definition col_of_matrix :: "sparse_vec list \<Rightarrow> nat \<Rightarrow> sparse_vec \<Rightarrow> bool" where
  "col_of_matrix rows c col \<longleftrightarrow> distinct (map fst col) \<and>
     (\<forall>r<length rows. \<forall>v. (c, v) \<in> set (rows ! r) \<longleftrightarrow> (r, v) \<in> set col) \<and>
     (\<forall>e \<in> set col. fst e < length rows)"

definition all_tracked :: "variable_domains \<Rightarrow> sparse_vec list \<Rightarrow> RowActivity list \<Rightarrow> bool" where
  "all_tracked domains rows acts \<longleftrightarrow> length acts = length rows \<and>
     (\<forall>r<length rows. distinct_cols (rows ! r) \<and> tracks domains (rows ! r) (acts ! r))"

text \<open>
  The update of all rows of a column calls back into its client. The contract of a client: for the
  activities it accepts and in the states of its invariant, it may stamp the activity with a round,
  leaves the four numbers alone, and keeps its invariant.
\<close>

locale activity_listener =
  fixes listener :: "'s activity_callback" and inv :: "'s \<Rightarrow> bool"
    and act_ok :: "nat \<Rightarrow> RowActivity \<Rightarrow> bool"
  assumes keeps_numbers: "inv s \<Longrightarrow> act_ok row act \<Longrightarrow>
      \<exists>r. fst (listener actChange row act s) = act\<lparr>lastchange := r\<rparr>"
    and keeps_inv: "inv s \<Longrightarrow> act_ok row act \<Longrightarrow> inv (snd (listener actChange row act s))"
    and act_ok_lastchange: "act_ok row (act\<lparr>lastchange := r\<rparr>) = act_ok row act"
begin

lemma notify_keeps:
  assumes "inv s" and "act_ok row act"
  shows "(\<exists>r. fst (notify_boundchange listener watch row c (act, s)) = act\<lparr>lastchange := r\<rparr>) \<and>
    inv (snd (notify_boundchange listener watch row c (act, s)))"
proof -
  have self: "\<exists>r. act = act\<lparr>lastchange := r\<rparr>" by (rule exI [of _ "lastchange act"]) simp
  show ?thesis
    using self assms(1) keeps_numbers [OF assms, of c] keeps_inv [OF assms, of c]
    by (cases c) (auto simp: notify_boundchange_def Let_def)
qed

lemma update_all_rows:
  assumes "distinct (map fst col)" and "\<forall>e \<in> set col. fst e < length acts" and "inv s"
    and "\<forall>(r, v) \<in> set col. act_ok r
       (snd (update_activity_after_boundchange v type oldb newb oinf (acts ! r)))"
    and "update_activities_after_boundchange col type oldb newb oinf listener watch (acts, s) = (acts', s')"
  shows "inv s' \<and> length acts' = length acts \<and>
    (\<forall>r. r \<notin> fst ` set col \<longrightarrow> acts' ! r = acts ! r) \<and>
    (\<forall>r v. (r, v) \<in> set col \<longrightarrow> (\<exists>lc. acts' ! r =
       (snd (update_activity_after_boundchange v type oldb newb oinf (acts ! r)))\<lparr>lastchange := lc\<rparr>))"
  using assms
proof (induction col arbitrary: acts s)
  case Nil
  then show ?case by (simp add: update_activities_after_boundchange_def)
next
  case (Cons e col)
  obtain r v where e: "e = (r, v)" by (cases e)
  obtain ac act where upd: "update_activity_after_boundchange v type oldb newb oinf (acts ! r) = (ac, act)"
    by fastforce
  obtain act1 s1 where nt: "notify_boundchange listener watch r ac (act, s) = (act1, s1)" by fastforce
  have "act_ok r act" using Cons.prems(4) upd by (simp add: e)
  from notify_keeps [OF Cons.prems(3) this, of watch ac] nt
  obtain lc where lc: "act1 = act\<lparr>lastchange := lc\<rparr>" and inv1: "inv s1" by auto
  let ?acts = "acts[r := act1]"
  have run: "update_activities_after_boundchange col type oldb newb oinf listener watch (?acts, s1) = (acts', s')"
    using Cons.prems(5) by (simp add: update_activities_after_boundchange_def e upd nt)
  have r: "r \<notin> fst ` set col" "r < length acts" using Cons.prems(1,2) e by auto
  have other: "?acts ! r' = acts ! r'" if "(r', v') \<in> set col" for r' v'
    using that r by (metis fst_conv image_eqI nth_list_update_neq)
  have "\<forall>(r, v) \<in> set col. act_ok r
       (snd (update_activity_after_boundchange v type oldb newb oinf (?acts ! r)))"
    using Cons.prems(4) other by auto
  then have IH: "inv s' \<and> length acts' = length ?acts \<and>
    (\<forall>r. r \<notin> fst ` set col \<longrightarrow> acts' ! r = ?acts ! r) \<and>
    (\<forall>r v. (r, v) \<in> set col \<longrightarrow> (\<exists>lc. acts' ! r =
       (snd (update_activity_after_boundchange v type oldb newb oinf (?acts ! r)))\<lparr>lastchange := lc\<rparr>))"
    using Cons.prems(1,2) inv1 by (intro Cons.IH [OF _ _ _ _ run]) auto
  show ?case
    using IH r lc upd e other by fastforce
qed

text \<open>The update over a column of the matrix leaves the activities of the new domain.\<close>

lemma update_all_tracked:
  assumes "all_tracked domains rows acts" and "col_of_matrix rows c col" and "col_ok domains c"
    and "inv s"
    and "\<And>r act. r < length rows \<Longrightarrow> tracks (with_bound type c b domains) (rows ! r) act \<Longrightarrow>
      act_ok r act"
  shows "all_tracked (with_bound type c b domains) rows
    (fst (update_activities_after_boundchange col type (old_bound type domains c) b
       (bound_useless type domains c) listener watch (acts, s))) \<and>
    inv (snd (update_activities_after_boundchange col type (old_bound type domains c) b
       (bound_useless type domains c) listener watch (acts, s)))"
proof -
  let ?upd = "\<lambda>v. update_activity_after_boundchange v type (old_bound type domains c) b
       (bound_useless type domains c)"
  obtain acts' s' where run: "update_activities_after_boundchange col type (old_bound type domains c) b
       (bound_useless type domains c) listener watch (acts, s) = (acts', s')" by fastforce
  have len: "length acts = length rows" using assms(1) by (simp add: all_tracked_def)
  have col: "distinct (map fst col)" "\<forall>e \<in> set col. fst e < length acts"
    using assms(2) len by (auto simp: col_of_matrix_def)
  have tr: "tracks (with_bound type c b domains) (rows ! r) (snd (?upd v (acts ! r)))"
    if "(r, v) \<in> set col" for r v
  proof -
    from that assms(2) have "r < length rows" "(c, v) \<in> set (rows ! r)"
      by (auto simp: col_of_matrix_def)
    with assms(1) show ?thesis
      by (intro update_boundchange_tracks assms(3)) (auto simp: all_tracked_def)
  qed
  have "\<forall>(r, v) \<in> set col. act_ok r (snd (?upd v (acts ! r)))"
    using tr assms(5) col(2) len by fastforce
  note res = update_all_rows [OF col assms(4) this run]
  have "tracks (with_bound type c b domains) (rows ! r) (acts' ! r)" if r: "r < length rows" for r
  proof (cases "r \<in> fst ` set col")
    case True
    then obtain v where v: "(r, v) \<in> set col" by auto
    with res obtain lc where "acts' ! r = (snd (?upd v (acts ! r)))\<lparr>lastchange := lc\<rparr>" by blast
    with tr [OF v] show ?thesis by simp
  next
    case False
    with assms(2) r have "c \<notin> fst ` set (rows ! r)" by (force simp: col_of_matrix_def)
    with with_bound_absent [OF this] False res assms(1) r show ?thesis
      by (simp add: all_tracked_def)
  qed
  with res len assms(1) run show ?thesis by (simp add: all_tracked_def)
qed

end

text \<open>
  The listener of \<open>ProblemUpdate\<close> (\<open>update_activity\<close>): rows whose activity changed in this round
  for the first time are logged.
\<close>

record activity_log =
  last_changed_activities :: "nat list"
  current_changed_activities :: "nat list"

definition update_activity :: "int \<Rightarrow> flags list \<Rightarrow> activity_log activity_callback" where
  "update_activity nrounds rowflags actChange rowid act alog =
     (if lastchange act = nrounds \<or> (actChange = kMin \<and> ninfmin act > 1) \<or>
         (actChange = kMax \<and> ninfmax act > 1) \<or> flags_test (rowflags ! rowid) [kRedundantRow]
      then (act, alog)
      else let alog1 = (if lastchange act \<noteq> nrounds - 1
                       then alog\<lparr>last_changed_activities := last_changed_activities alog @ [rowid]\<rparr>
                       else alog)
        in (act\<lparr>lastchange := nrounds\<rparr>,
            alog1\<lparr>current_changed_activities := current_changed_activities alog1 @ [rowid]\<rparr>))"

interpretation problem_update: activity_listener "update_activity nrounds rowflags"
  "\<lambda>_. True" "\<lambda>_ _. True"
proof unfold_locales
  fix actChange row s and act :: RowActivity
  have "act = act\<lparr>lastchange := lastchange act\<rparr>" by simp
  then have "\<exists>r. act = act\<lparr>lastchange := r\<rparr>" by (rule exI)
  then show "\<exists>r. fst (update_activity nrounds rowflags actChange row act s) = act\<lparr>lastchange := r\<rparr>"
    by (auto simp: update_activity_def Let_def)
qed simp_all

text \<open>
  C23. Changing a bound of a column through the incremental update leaves every row with the activity
  of the new domain: the activities still track all rows after \<open>update_activities_after_boundchange\<close>
  with the listener of \<open>ProblemUpdate\<close>.
\<close>

theorem boundchange_keeps_all_tracked:
  assumes "all_tracked domains rows acts" and "col_of_matrix rows c col" and "col_ok domains c"
  shows "all_tracked (with_bound type c b domains) rows
    (fst (update_activities_after_boundchange col type (old_bound type domains c) b
       (bound_useless type domains c) (update_activity nrounds rowflags) watch (acts, alog)))"
  using problem_update.update_all_tracked [OF assms, where s = alog] by simp

theorem boundchange_keeps_all_tracked_witness:
  "all_tracked (with_bound kUpper 0 4 ex_domains) [ex_row]
    (fst (update_activities_after_boundchange [(0, 2)] kUpper (old_bound kUpper ex_domains 0) 4
       (bound_useless kUpper ex_domains 0) (update_activity 1 [0]) False
       ([compute_row_activity ex_row ex_domains 0],
        \<lparr>last_changed_activities = [], current_changed_activities = []\<rparr>)))"
  by (rule boundchange_keeps_all_tracked, code_simp, (auto simp: col_of_matrix_def ex_row_def)[1], code_simp)

section \<open>Removed bounds\<close>

definition without_bound :: "BoundChange \<Rightarrow> nat \<Rightarrow> variable_domains \<Rightarrow> variable_domains" where
  "without_bound type c domains = domains\<lparr>col_flags := (col_flags domains)[c :=
     flags_set [case type of kLower \<Rightarrow> kLbInf | kUpper \<Rightarrow> kUbInf] (col_flags domains ! c)]\<rparr>"

lemma set_inf_useless:
  "flags_test (flags_set [kLbInf] f) [kLbUseless]"
  "flags_test (flags_set [kUbInf] f) [kUbUseless]"
  "flags_test (flags_set [kLbInf] f) [kUbUseless] = flags_test f [kUbUseless]"
  "flags_test (flags_set [kUbInf] f) [kLbUseless] = flags_test f [kLbUseless]"
  by (simp_all add: flags_test_set flag_defs)

lemma without_bound_other:
  assumes "c' \<noteq> c"
  shows "min_part (without_bound type c domains) (c', v) = min_part domains (c', v)"
    "max_part (without_bound type c domains) (c', v) = max_part domains (c', v)"
    "min_inf (without_bound type c domains) (c', v) = min_inf domains (c', v)"
    "max_inf (without_bound type c domains) (c', v) = max_inf domains (c', v)"
  using assms by (auto simp: part_defs without_bound_def)

lemma without_bound_rest:
  "map (min_part (without_bound type c domains)) (rest_of_row c row) =
     map (min_part domains) (rest_of_row c row)"
  "map (max_part (without_bound type c domains)) (rest_of_row c row) =
     map (max_part domains) (rest_of_row c row)"
  "map (min_inf (without_bound type c domains)) (rest_of_row c row) =
     map (min_inf domains) (rest_of_row c row)"
  "map (max_inf (without_bound type c domains)) (rest_of_row c row) =
     map (max_inf domains) (rest_of_row c row)"
  by (auto simp: rest_of_row_def without_bound_other)

lemma remove_finite_bound_tracks:
  assumes "tracks domains row act" and "distinct_cols row" and "(c, v) \<in> set row"
    and "col_ok domains c" and "\<not> bound_useless type domains c"
  shows "tracks (without_bound type c domains) row
    (remove_finite_bound_contribution type (old_bound type domains c) v act)"
  using assms(4,5)
  by (intro tracksI_split [OF assms(2,3)], unfold without_bound_rest)
    (auto simp: tracks_split [OF assms(1-3)] remove_finite_bound_contribution_def part_defs
      without_bound_def old_bound_def bound_useless_def col_ok_def set_inf_useless
      split: BoundChange.splits)

lemma remove_all_rows:
  assumes "distinct (map fst col)" and "\<forall>e \<in> set col. fst e < length acts"
  shows "length (update_activities_remove_finite_bound col type b acts) = length acts \<and>
    (\<forall>r. r \<notin> fst ` set col \<longrightarrow> update_activities_remove_finite_bound col type b acts ! r = acts ! r) \<and>
    (\<forall>(r, v) \<in> set col. update_activities_remove_finite_bound col type b acts ! r =
       remove_finite_bound_contribution type b v (acts ! r))"
  using assms
proof (induction col arbitrary: acts)
  case Nil
  then show ?case by (simp add: update_activities_remove_finite_bound_def)
next
  case (Cons e col)
  obtain r v where e: "e = (r, v)" by (cases e)
  let ?acts = "acts[r := remove_finite_bound_contribution type b v (acts ! r)]"
  have eq: "update_activities_remove_finite_bound (e # col) type b acts =
      update_activities_remove_finite_bound col type b ?acts"
    by (simp add: update_activities_remove_finite_bound_def e)
  have r: "r \<notin> fst ` set col" "r < length acts" using Cons.prems by (auto simp: e)
  have IH: "length (update_activities_remove_finite_bound col type b ?acts) = length ?acts \<and>
    (\<forall>r. r \<notin> fst ` set col \<longrightarrow> update_activities_remove_finite_bound col type b ?acts ! r = ?acts ! r) \<and>
    (\<forall>(r, v) \<in> set col. update_activities_remove_finite_bound col type b ?acts ! r =
       remove_finite_bound_contribution type b v (?acts ! r))"
    using Cons.prems by (intro Cons.IH) auto
  have "?acts ! r' = acts ! r'" if "(r', v') \<in> set col" for r' v'
    using that r by (metis fst_conv image_eqI nth_list_update_neq)
  with IH r show ?case unfolding eq by (fastforce simp: e)
qed

lemma without_bound_absent:
  assumes "c \<notin> fst ` set row"
  shows "tracks (without_bound type c domains) row act = tracks domains row act"
proof -
  have rest: "rest_of_row c row = row"
    using assms by (auto simp: rest_of_row_def filter_id_conv image_iff)
  show ?thesis
    by (simp only: tracks_def without_bound_rest [of type c domains row, unfolded rest])
qed

lemma remove_bound_all_tracked:
  assumes "all_tracked domains rows acts" and "col_of_matrix rows c col" and "col_ok domains c"
    and "\<not> bound_useless type domains c"
  shows "all_tracked (without_bound type c domains) rows
    (update_activities_remove_finite_bound col type (old_bound type domains c) acts)"
proof -
  let ?acts = "update_activities_remove_finite_bound col type (old_bound type domains c) acts"
  have len: "length acts = length rows" using assms(1) by (simp add: all_tracked_def)
  have "distinct (map fst col)" "\<forall>e \<in> set col. fst e < length acts"
    using assms(2) len by (auto simp: col_of_matrix_def)
  note all = remove_all_rows [OF this, of type "old_bound type domains c"]
  have "tracks (without_bound type c domains) (rows ! r) (?acts ! r)" if r: "r < length rows" for r
  proof (cases "r \<in> fst ` set col")
    case True
    then obtain v where v: "(r, v) \<in> set col" by auto
    with assms(2) r have "(c, v) \<in> set (rows ! r)" by (auto simp: col_of_matrix_def)
    with remove_finite_bound_tracks [OF _ _ this assms(3,4), of "acts ! r"] assms(1) r all v
    show ?thesis by (auto simp: all_tracked_def)
  next
    case False
    with assms(2) r have "c \<notin> fst ` set (rows ! r)" by (force simp: col_of_matrix_def)
    with without_bound_absent [OF this] False all assms(1) r show ?thesis
      by (simp add: all_tracked_def)
  qed
  with all len assms(1) show ?thesis by (simp add: all_tracked_def)
qed

text \<open>
  Removing a finite bound of a column (\<open>update_activities_remove_finite_bound\<close>) leaves every row
  of the problem with the activity over the domain without that bound.
\<close>

lemma remove_finite_bound_keeps_all_tracked:
  assumes "all_tracked domains rows acts" and "col_of_matrix rows c col" and "col_ok domains c"
    and "\<not> bound_useless type domains c"
  shows "all_tracked (without_bound type c domains) rows
    (update_activities_remove_finite_bound col type (old_bound type domains c) acts)"
  by (rule remove_bound_all_tracked [OF assms])

section \<open>Changed coefficients\<close>

text \<open>
  The row after the coefficient of column \<open>c\<close> was set to \<open>newv\<close>: the other entries are the same,
  and the column has one entry unless its coefficient is zero.
\<close>

definition coeff_in_row :: "nat \<Rightarrow> rat \<Rightarrow> sparse_vec \<Rightarrow> bool" where
  "coeff_in_row c v row \<longleftrightarrow> distinct_cols row \<and>
     (if v = 0 then c \<notin> fst ` set row else (c, v) \<in> set row)"

definition same_but :: "nat \<Rightarrow> sparse_vec \<Rightarrow> sparse_vec \<Rightarrow> bool" where
  "same_but c row row' \<longleftrightarrow> mset (rest_of_row c row) = mset (rest_of_row c row')"

lemma sum_list_same_but:
  fixes f :: "nat \<times> rat \<Rightarrow> 'a::comm_monoid_add"
  shows "same_but c row row' \<Longrightarrow>
    sum_list (map f (rest_of_row c row)) = sum_list (map f (rest_of_row c row'))"
  by (metis same_but_def mset_map sum_mset_sum_list)

lemma tracks_coeff:
  assumes "coeff_in_row c v row"
  shows "tracks domains row act \<longleftrightarrow>
    act_min act = (if v = 0 then 0 else min_part domains (c, v)) + sum_list (map (min_part domains) (rest_of_row c row)) \<and>
    act_max act = (if v = 0 then 0 else max_part domains (c, v)) + sum_list (map (max_part domains) (rest_of_row c row)) \<and>
    ninfmin act = (if v = 0 then 0 else min_inf domains (c, v)) + sum_list (map (min_inf domains) (rest_of_row c row)) \<and>
    ninfmax act = (if v = 0 then 0 else max_inf domains (c, v)) + sum_list (map (max_inf domains) (rest_of_row c row))"
proof (cases "v = 0")
  case True
  then have "rest_of_row c row = row"
    using assms by (auto simp: coeff_in_row_def rest_of_row_def filter_id_conv image_iff)
  with True show ?thesis by (simp add: tracks_def)
next
  case False
  then have "distinct_cols row" "(c, v) \<in> set row" using assms by (auto simp: coeff_in_row_def)
  with False show ?thesis
    by (simp add: tracks_def rest_of_row_def sum_list_remove_key)
qed

locale coeff_listener =
  fixes listener :: "'s coeff_callback"
  assumes keeps_numbers: "\<exists>r. fst (listener actChange act s) = act\<lparr>lastchange := r\<rparr>"
begin

lemma notify_if_keeps: "\<exists>r. fst (notify_if b listener c st) = fst st\<lparr>lastchange := r\<rparr>"
proof (cases b)
  case True
  then show ?thesis using keeps_numbers by (simp add: notify_if_def)
next
  case False
  have "fst st = fst st\<lparr>lastchange := lastchange (fst st)\<rparr>" by simp
  with False show ?thesis unfolding notify_if_def by metis
qed

lemma notify_if_fields [simp]:
  "act_min (fst (notify_if b listener c st)) = act_min (fst st)"
  "act_max (fst (notify_if b listener c st)) = act_max (fst st)"
  "ninfmin (fst (notify_if b listener c st)) = ninfmin (fst st)"
  "ninfmax (fst (notify_if b listener c st)) = ninfmax (fst st)"
  using notify_if_keeps [of b c st] by auto

lemma tracks_cong_fields:
  "act_min a = act_min b \<Longrightarrow> act_max a = act_max b \<Longrightarrow> ninfmin a = ninfmin b \<Longrightarrow>
   ninfmax a = ninfmax b \<Longrightarrow> tracks domains row a = tracks domains row b"
  by (simp add: tracks_def)

lemma sign_flipped_tracks:
  assumes "tracks domains row act" and "coeff_in_row c oldv row" and "coeff_in_row c newv row'"
    and "same_but c row row'"
  shows "tracks domains row' (fst (coeffchange_sign_flipped (lower_bounds domains ! c)
    (upper_bounds domains ! c) (col_flags domains ! c) oldv newv listener (act, s)))"
  using assms(1) unfolding tracks_coeff [OF assms(2)] tracks_coeff [OF assms(3)]
    sum_list_same_but [OF assms(4)]
  by (auto simp: coeffchange_sign_flipped_def Let_def remove_old_coeff_def add_new_coeff_def part_defs)

lemma same_sign_tracks:
  assumes "tracks domains row act" and "coeff_in_row c oldv row" and "coeff_in_row c newv row'"
    and "same_but c row row'" and "0 < oldv * newv"
    and "isHugeVal num (newv - oldv) \<Longrightarrow>
      sum_list (map (min_part domains) current) = sum_list (map (min_part domains) row') \<and>
      sum_list (map (max_part domains) current) = sum_list (map (max_part domains) row')"
  shows "tracks domains row' (fst (coeffchange_same_sign num (lower_bounds domains ! c)
    (upper_bounds domains ! c) (col_flags domains ! c) oldv newv current domains listener (act, s)))"
proof -
  have sgn: "oldv < 0 \<longleftrightarrow> newv < 0" "oldv \<noteq> 0" "newv \<noteq> 0"
    using assms(5) by (auto simp: zero_less_mult_iff)
  have new: "(c, newv) \<in> set row'" "distinct_cols row'"
    using assms(3) sgn(3) by (auto simp: coeff_in_row_def)
  have sums: "sum_list (map f row') = f (c, newv) + sum_list (map f (rest_of_row c row'))"
    for f :: "nat \<times> rat \<Rightarrow> rat"
    using sum_list_remove_key [OF new(2,1)] by (simp add: rest_of_row_def)
  show ?thesis
    using assms(1) assms(6) sgn
    unfolding tracks_coeff [OF assms(2)] tracks_coeff [OF assms(3)] sum_list_same_but [OF assms(4)]
    by (simp add: coeffchange_same_sign_def coeffchange_max_def coeffchange_min_def Let_def
        compute_minimal_eq compute_maximal_eq sums part_defs algebra_simps)
qed

end

text \<open>
  The listener of \<open>ConstraintMatrix::change_coefficient\<close> (the same lambda is in \<open>sparsify\<close> and
  \<open>aggregate\<close>): its state is the list of rows with a changed activity.
\<close>

definition matrix_activityChange :: "int \<Rightarrow> nat \<Rightarrow> (nat list) coeff_callback" where
  "matrix_activityChange presolveround row actChange act changedActivities =
     (if lastchange act = presolveround then (act, changedActivities)
      else if actChange = kMin \<and> ninfmin act > 1 then (act, changedActivities)
      else if actChange = kMax \<and> ninfmax act > 1 then (act, changedActivities)
      else (act\<lparr>lastchange := presolveround\<rparr>, changedActivities @ [row]))"

interpretation matrix: coeff_listener "matrix_activityChange presolveround row"
proof unfold_locales
  fix actChange s and act :: RowActivity
  have "act = act\<lparr>lastchange := lastchange act\<rparr>" by simp
  then have "\<exists>r. act = act\<lparr>lastchange := r\<rparr>" by (rule exI)
  then show "\<exists>r. fst (matrix_activityChange presolveround row actChange act s) = act\<lparr>lastchange := r\<rparr>"
    by (auto simp: matrix_activityChange_def)
qed

text \<open>
  C26. Changing a coefficient of a row through the incremental update yields the activity of the
  changed row, for a sign change, an insertion, a deletion and a change that keeps the sign,
  provided that a difference above the huge value finds the changed row in the row argument.
\<close>

theorem coeffchange_tracks:
  assumes "tracks domains row act" and "coeff_in_row c oldv row" and "coeff_in_row c newv row'"
    and "same_but c row row'"
    and "isHugeVal num (newv - oldv) \<Longrightarrow> 0 < oldv * newv \<Longrightarrow> mset current = mset row'"
  shows "tracks domains row' (fst (update_activity_after_coeffchange num (lower_bounds domains ! c)
    (upper_bounds domains ! c) (col_flags domains ! c) oldv newv current domains
    (matrix_activityChange presolveround r) (act, s)))"
proof (cases "oldv * newv \<le> 0")
  case True
  with matrix.sign_flipped_tracks [OF assms(1-4)] show ?thesis
    by (simp add: update_activity_after_coeffchange_def)
next
  case False
  moreover have "mset current = mset row' \<Longrightarrow> sum_list (map f current) = sum_list (map f row')"
    for f :: "nat \<times> rat \<Rightarrow> rat" by (metis mset_map sum_mset_sum_list)
  ultimately show ?thesis
    using matrix.same_sign_tracks [OF assms(1-4), of num current presolveround r s] assms(5)
    by (simp add: update_activity_after_coeffchange_def)
qed

theorem coeffchange_tracks_witness:
  "tracks ex_domains [(1, -1), (0, -3)] (fst (update_activity_after_coeffchange default_num
    (lower_bounds ex_domains ! 0) (upper_bounds ex_domains ! 0) (col_flags ex_domains ! 0) 2 (-3)
    ex_row ex_domains (matrix_activityChange 1 0) (compute_row_activity ex_row ex_domains 0, [])))"
  by (rule coeffchange_tracks [OF compute_row_activity_tracks]) (code_simp+)

text \<open>
  The callers pass the row as it is stored, which the code changes only after the callback
  returned. When a coefficient changes by at least the huge value and keeps its sign, the
  recomputation over that row yields the old activity: the change is lost.
\<close>

lemma coeffchange_huge_keeps_old_activity:
  assumes "tracks domains row act" and "0 < oldv * newv" and "isHugeVal num (newv - oldv)"
  shows "tracks domains row (fst (update_activity_after_coeffchange num collb colub cflags oldv newv
    row domains (matrix_activityChange presolveround r) (act, s)))"
  using assms
  by (simp add: update_activity_after_coeffchange_def coeffchange_same_sign_def coeffchange_max_def
      coeffchange_min_def Let_def compute_minimal_eq compute_maximal_eq tracks_def)

end
