(* ===== verification/Pap_Propagate.thy ===== *)
theory Pap_Propagate
  imports Pap_Activity_Laws
begin

text \<open>
  \<open>src/papilo/core/SingleRow.hpp\<close>, second half: \<open>propagate_row\<close>, which derives column bounds from
  the activity of a row, and \<open>row_implies_LB\<close> and \<open>row_implies_UB\<close>, which recognise a bound that
  the row already implies.

  \<open>propagate_row\<close> takes the activity and the domains by reference and its callback may change both
  (the probing view does). The model passes the state of the client through the loops and reads the
  activity and the domains off that state in every iteration.
\<close>

section \<open>Propagation\<close>

type_synonym 's bound_callback = "BoundChange \<Rightarrow> nat \<Rightarrow> rat \<Rightarrow> nat \<Rightarrow> 's \<Rightarrow> 's"

definition rhs_new_lb :: "Num \<Rightarrow> bool \<Rightarrow> rat \<Rightarrow> rat \<Rightarrow> rat \<Rightarrow> rat" where
  "rhs_new_lb num integral rhs minresact val =
     (let new_lb = (rhs - minresact) / val in
      if integral then
        (let f = rational_floor new_lb in
         if isFeasLT num rhs (f * val + minresact) then f + 1 else f)
      else new_lb)"

definition rhs_new_ub :: "Num \<Rightarrow> bool \<Rightarrow> rat \<Rightarrow> rat \<Rightarrow> rat \<Rightarrow> rat" where
  "rhs_new_ub num integral rhs minresact val =
     (let new_ub = (rhs - minresact) / val in
      if integral then
        (let f = rational_ceil new_ub in
         if isFeasLT num rhs (f * val + minresact) then f - 1 else f)
      else new_ub)"

definition lhs_new_ub :: "Num \<Rightarrow> bool \<Rightarrow> rat \<Rightarrow> rat \<Rightarrow> rat \<Rightarrow> rat" where
  "lhs_new_ub num integral lhs maxresact val =
     (let new_ub = (lhs - maxresact) / val in
      if integral then
        (let f = rational_ceil new_ub in
         if isFeasGT num lhs (f * val + maxresact) then f - 1 else f)
      else new_ub)"

definition lhs_new_lb :: "Num \<Rightarrow> bool \<Rightarrow> rat \<Rightarrow> rat \<Rightarrow> rat \<Rightarrow> rat" where
  "lhs_new_lb num integral lhs maxresact val =
     (let new_lb = (lhs - maxresact) / val in
      if integral then
        (let f = rational_floor new_lb in
         if isFeasGT num lhs (f * val + maxresact) then f + 1 else f)
      else new_lb)"

definition report_lb :: "'s bound_callback \<Rightarrow> flags \<Rightarrow> nat \<Rightarrow> rat \<Rightarrow> rat \<Rightarrow> nat \<Rightarrow> 's \<Rightarrow> 's" where
  "report_lb boundchange cflags col new_lb lb row s =
     (if flags_test cflags [kLbInf] \<or> new_lb > lb then boundchange kLower col new_lb row s else s)"

definition report_ub :: "'s bound_callback \<Rightarrow> flags \<Rightarrow> nat \<Rightarrow> rat \<Rightarrow> rat \<Rightarrow> nat \<Rightarrow> 's \<Rightarrow> 's" where
  "report_ub boundchange cflags col new_ub ub row s =
     (if flags_test cflags [kUbInf] \<or> new_ub < ub then boundchange kUpper col new_ub row s else s)"

text \<open>
  The two loops over the row. \<open>continue\<close> goes on with the remaining entries, \<open>j = rowlen\<close> makes the
  current iteration the last one.
\<close>

fun propagate_rhs_loop ::
  "Num \<Rightarrow> nat \<Rightarrow> rat \<Rightarrow> ('s \<Rightarrow> RowActivity) \<Rightarrow> ('s \<Rightarrow> variable_domains) \<Rightarrow> 's bound_callback \<Rightarrow>
   sparse_vec \<Rightarrow> 's \<Rightarrow> 's" where
  "propagate_rhs_loop num row rhs activity domains boundchange [] s = s"
| "propagate_rhs_loop num row rhs activity domains boundchange ((col, val) # es) s =
     (let lb = lower_bounds (domains s) ! col;
          ub = upper_bounds (domains s) ! col;
          cflags = col_flags (domains s) ! col;
          minresact = act_min (activity s);
          next = propagate_rhs_loop num row rhs activity domains boundchange es
      in if val < 0 then
           (if ninfmin (activity s) = 1 then
              (if \<not> flags_test cflags [kUbUseless] then next s
               else report_lb boundchange cflags col
                      (rhs_new_lb num (flags_test cflags [kIntegral]) rhs minresact val) lb row s)
            else next (report_lb boundchange cflags col
                   (rhs_new_lb num (flags_test cflags [kIntegral]) rhs (minresact - val * ub) val) lb row s))
         else
           (if ninfmin (activity s) = 1 then
              (if \<not> flags_test cflags [kLbUseless] then next s
               else report_ub boundchange cflags col
                      (rhs_new_ub num (flags_test cflags [kIntegral]) rhs minresact val) ub row s)
            else next (report_ub boundchange cflags col
                   (rhs_new_ub num (flags_test cflags [kIntegral]) rhs (minresact - val * lb) val) ub row s)))"

fun propagate_lhs_loop ::
  "Num \<Rightarrow> nat \<Rightarrow> rat \<Rightarrow> ('s \<Rightarrow> RowActivity) \<Rightarrow> ('s \<Rightarrow> variable_domains) \<Rightarrow> 's bound_callback \<Rightarrow>
   sparse_vec \<Rightarrow> 's \<Rightarrow> 's" where
  "propagate_lhs_loop num row lhs activity domains boundchange [] s = s"
| "propagate_lhs_loop num row lhs activity domains boundchange ((col, val) # es) s =
     (let lb = lower_bounds (domains s) ! col;
          ub = upper_bounds (domains s) ! col;
          cflags = col_flags (domains s) ! col;
          maxresact = act_max (activity s);
          next = propagate_lhs_loop num row lhs activity domains boundchange es
      in if val < 0 then
           (if ninfmax (activity s) = 1 then
              (if \<not> flags_test cflags [kLbUseless] then next s
               else report_ub boundchange cflags col
                      (lhs_new_ub num (flags_test cflags [kIntegral]) lhs maxresact val) ub row s)
            else next (report_ub boundchange cflags col
                   (lhs_new_ub num (flags_test cflags [kIntegral]) lhs (maxresact - val * lb) val) ub row s))
         else
           (if ninfmax (activity s) = 1 then
              (if \<not> flags_test cflags [kUbUseless] then next s
               else report_lb boundchange cflags col
                      (lhs_new_lb num (flags_test cflags [kIntegral]) lhs maxresact val) lb row s)
            else next (report_lb boundchange cflags col
                   (lhs_new_lb num (flags_test cflags [kIntegral]) lhs (maxresact - val * ub) val) lb row s)))"

definition propagate_row ::
  "Num \<Rightarrow> nat \<Rightarrow> sparse_vec \<Rightarrow> ('s \<Rightarrow> RowActivity) \<Rightarrow> rat \<Rightarrow> rat \<Rightarrow> flags \<Rightarrow>
   ('s \<Rightarrow> variable_domains) \<Rightarrow> 's bound_callback \<Rightarrow> 's \<Rightarrow> 's" where
  "propagate_row num row rowvec activity lhs rhs rflags domains boundchange s0 =
     (let s1 =
        (if \<not> flags_test rflags [kRhsInf] \<and> ninfmin (activity s0) \<le> 1 \<and>
            (ninfmax (activity s0) \<ge> 1 \<or> isGT num (act_max (activity s0)) rhs)
         then propagate_rhs_loop num row rhs activity domains boundchange rowvec s0
         else s0)
      in if \<not> flags_test rflags [kLhsInf] \<and> ninfmax (activity s1) \<le> 1 \<and>
            (ninfmin (activity s1) \<ge> 1 \<or> isLT num (act_min (activity s1)) lhs)
         then propagate_lhs_loop num row lhs activity domains boundchange rowvec s1
         else s1)"

section \<open>Implied bounds\<close>

definition row_implies_LB ::
  "Num \<Rightarrow> rat \<Rightarrow> rat \<Rightarrow> flags \<Rightarrow> RowActivity \<Rightarrow> rat \<Rightarrow> rat \<Rightarrow> rat \<Rightarrow> flags \<Rightarrow> bool" where
  "row_implies_LB num lhs rhs rflags act colcoef collb colub cflags =
     (if flags_test cflags [kLbInf] then True
      else if colcoef > 0 \<and> \<not> flags_test rflags [kLhsInf] then
        (if ninfmax act = 0
         then isFeasGE num ((lhs - (act_max act - colub * colcoef)) / colcoef) collb
         else if ninfmax act = 1 \<and> flags_test cflags [kUbUseless]
         then isFeasGE num ((lhs - act_max act) / colcoef) collb
         else False)
      else if colcoef < 0 \<and> \<not> flags_test rflags [kRhsInf] then
        (if ninfmin act = 0
         then isFeasGE num ((rhs - (act_min act - colub * colcoef)) / colcoef) collb
         else if ninfmin act = 1 \<and> flags_test cflags [kUbUseless]
         then isFeasGE num ((rhs - act_min act) / colcoef) collb
         else False)
      else False)"

definition row_implies_UB ::
  "Num \<Rightarrow> rat \<Rightarrow> rat \<Rightarrow> flags \<Rightarrow> RowActivity \<Rightarrow> rat \<Rightarrow> rat \<Rightarrow> rat \<Rightarrow> flags \<Rightarrow> bool" where
  "row_implies_UB num lhs rhs rflags act colcoef collb colub cflags =
     (if flags_test cflags [kUbInf] then True
      else if colcoef > 0 \<and> \<not> flags_test rflags [kRhsInf] then
        (if ninfmin act = 0
         then isFeasLE num ((rhs - (act_min act - collb * colcoef)) / colcoef) colub
         else if ninfmin act = 1 \<and> flags_test cflags [kLbUseless]
         then isFeasLE num ((rhs - act_min act) / colcoef) colub
         else False)
      else if colcoef < 0 \<and> \<not> flags_test rflags [kLhsInf] then
        (if ninfmax act = 0
         then isFeasLE num ((lhs - (act_max act - collb * colcoef)) / colcoef) colub
         else if ninfmax act = 1 \<and> flags_test cflags [kLbUseless]
         then isFeasLE num ((lhs - act_max act) / colcoef) colub
         else False)
      else False)"

section \<open>The derived bounds are valid\<close>

text \<open>One column, the rest of the row summarised by a residual activity.\<close>

lemma int_above_floor: "x \<in> \<int> \<Longrightarrow> of_int \<lfloor>y\<rfloor> < x \<Longrightarrow> of_int \<lfloor>y\<rfloor> + 1 \<le> (x :: rat)"
  by (auto elim!: Ints_cases)

lemma int_below_ceil: "x \<in> \<int> \<Longrightarrow> x < of_int \<lceil>y\<rceil> \<Longrightarrow> x \<le> of_int \<lceil>y\<rceil> - (1 :: rat)"
  by (auto elim!: Ints_cases)

lemma rhs_new_lb_valid:
  assumes "num_ok num" and "val < 0" and "res + val * x \<le> rhs" and "integral \<Longrightarrow> x \<in> \<int>"
  shows "rhs_new_lb num integral rhs res val \<le> x"
proof -
  have le: "(rhs - res) / val \<le> x"
    using assms(2,3) by (simp add: neg_divide_le_eq algebra_simps)
  have "of_int \<lfloor>(rhs - res) / val\<rfloor> \<le> x" using le by linarith
  moreover have "of_int \<lfloor>(rhs - res) / val\<rfloor> + 1 \<le> x"
    if "integral" and "isFeasLT num rhs (of_int \<lfloor>(rhs - res) / val\<rfloor> * val + res)"
  proof -
    from feas.lt_less [OF assms(1) that(2)] assms(3)
    have "val * x < val * of_int \<lfloor>(rhs - res) / val\<rfloor>" by (simp add: algebra_simps)
    with assms(2) have "of_int \<lfloor>(rhs - res) / val\<rfloor> < x" by (simp add: mult_less_cancel_left)
    then show ?thesis using assms(4) that(1) int_above_floor by blast
  qed
  ultimately show ?thesis
    using le by (auto simp: rhs_new_lb_def Let_def rational_floor_eq)
qed

lemma rhs_new_ub_valid:
  assumes "num_ok num" and "0 < val" and "res + val * x \<le> rhs" and "integral \<Longrightarrow> x \<in> \<int>"
  shows "x \<le> rhs_new_ub num integral rhs res val"
proof -
  have le: "x \<le> (rhs - res) / val"
    using assms(2,3) by (simp add: pos_le_divide_eq algebra_simps)
  have "x \<le> of_int \<lceil>(rhs - res) / val\<rceil>" using le by linarith
  moreover have "x \<le> of_int \<lceil>(rhs - res) / val\<rceil> - 1"
    if "integral" and "isFeasLT num rhs (of_int \<lceil>(rhs - res) / val\<rceil> * val + res)"
  proof -
    from feas.lt_less [OF assms(1) that(2)] assms(3)
    have "val * x < val * of_int \<lceil>(rhs - res) / val\<rceil>" by (simp add: algebra_simps)
    with assms(2) have "x < of_int \<lceil>(rhs - res) / val\<rceil>" by (simp add: mult_less_cancel_left)
    then show ?thesis using assms(4) that(1) int_below_ceil by blast
  qed
  ultimately show ?thesis
    using le by (auto simp: rhs_new_ub_def Let_def rational_ceil_eq)
qed

text \<open>The left hand side is the right hand side of the negated row.\<close>

lemma lhs_new_ub_neg:
  "lhs_new_ub num integral lhs res val = rhs_new_ub num integral (- lhs) (- res) (- val)"
proof -
  have "(- lhs - - res) / - val = (lhs - res) / val"
    by (cases "val = 0") (simp_all add: divide_simps)
  then show ?thesis
    by (simp add: lhs_new_ub_def rhs_new_ub_def Let_def isFeasGT_uminus)
qed

lemma lhs_new_lb_neg:
  "lhs_new_lb num integral lhs res val = rhs_new_lb num integral (- lhs) (- res) (- val)"
proof -
  have "(- lhs - - res) / - val = (lhs - res) / val"
    by (cases "val = 0") (simp_all add: divide_simps)
  then show ?thesis
    by (simp add: lhs_new_lb_def rhs_new_lb_def Let_def isFeasGT_uminus)
qed

lemma lhs_new_ub_valid:
  assumes "num_ok num" and "val < 0" and "lhs \<le> res + val * x" and "integral \<Longrightarrow> x \<in> \<int>"
  shows "x \<le> lhs_new_ub num integral lhs res val"
  unfolding lhs_new_ub_neg using assms by (intro rhs_new_ub_valid) auto

lemma lhs_new_lb_valid:
  assumes "num_ok num" and "0 < val" and "lhs \<le> res + val * x" and "integral \<Longrightarrow> x \<in> \<int>"
  shows "lhs_new_lb num integral lhs res val \<le> x"
  unfolding lhs_new_lb_neg using assms by (intro rhs_new_lb_valid) auto

section \<open>Soundness of the loops\<close>

text \<open>
  The contract of a client of \<open>propagate_row\<close> at a point \<open>x\<close>: its invariant \<open>good\<close> says that its
  activity tracks the row over its domains and that \<open>x\<close> lies in them, and a reported bound that
  \<open>x\<close> satisfies keeps the invariant. The client lemma says that the loops then only report such
  bounds, so that the invariant survives a whole propagation.
\<close>

locale propagation_client =
  fixes row :: nat and rowvec :: sparse_vec and x :: "rat list"
    and activity :: "'s \<Rightarrow> RowActivity" and domains :: "'s \<Rightarrow> variable_domains"
    and boundchange :: "'s bound_callback" and good :: "'s \<Rightarrow> bool"
  assumes distinct_row: "good s \<Longrightarrow> distinct_cols rowvec"
    and nonzero: "good s \<Longrightarrow> (c, v) \<in> set rowvec \<Longrightarrow> v \<noteq> 0"
    and good_tracks: "good s \<Longrightarrow> tracks (domains s) rowvec (activity s)"
    and good_domain: "good s \<Longrightarrow> row_in_domain (domains s) rowvec x"
    and good_integral: "good s \<Longrightarrow> (c, v) \<in> set rowvec \<Longrightarrow> integral_ok (domains s) c (x ! c)"
    and lower_good: "good s \<Longrightarrow> (c, v) \<in> set rowvec \<Longrightarrow> b \<le> x ! c \<Longrightarrow>
      good (boundchange kLower c b row s)"
    and upper_good: "good s \<Longrightarrow> (c, v) \<in> set rowvec \<Longrightarrow> x ! c \<le> b \<Longrightarrow>
      good (boundchange kUpper c b row s)"
    and counts_antitone: "good s \<Longrightarrow> (c, v) \<in> set rowvec \<Longrightarrow>
      ninfmin (activity (boundchange t c b row s)) \<le> ninfmin (activity s) \<and>
      ninfmax (activity (boundchange t c b row s)) \<le> ninfmax (activity s)"
begin

lemma report_lb_good:
  "good s \<Longrightarrow> (c, v) \<in> set rowvec \<Longrightarrow> b \<le> x ! c \<Longrightarrow> good (report_lb boundchange fl c b lb row s)"
  by (auto simp: report_lb_def lower_good)

lemma report_ub_good:
  "good s \<Longrightarrow> (c, v) \<in> set rowvec \<Longrightarrow> x ! c \<le> b \<Longrightarrow> good (report_ub boundchange fl c b ub row s)"
  by (auto simp: report_ub_def upper_good)

lemma residual_le_rhs:
  assumes "good s" and "(c, v) \<in> set rowvec" and "row_value rowvec x \<le> rhs"
    and "ninfmin (activity s) = min_inf (domains s) (c, v)"
  shows "act_min (activity s) - min_part (domains s) (c, v) + v * x ! c \<le> rhs"
  using residual_min [OF good_tracks [OF assms(1)] distinct_row [OF assms(1)] assms(2)
      rest_in_domain [OF good_domain [OF assms(1)]] assms(4)]
    row_value_split [OF distinct_row [OF assms(1)] assms(2), of x] assms(3) by simp

lemma residual_ge_lhs:
  assumes "good s" and "(c, v) \<in> set rowvec" and "lhs \<le> row_value rowvec x"
    and "ninfmax (activity s) = max_inf (domains s) (c, v)"
  shows "lhs \<le> act_max (activity s) - max_part (domains s) (c, v) + v * x ! c"
  using residual_max [OF good_tracks [OF assms(1)] distinct_row [OF assms(1)] assms(2)
      rest_in_domain [OF good_domain [OF assms(1)]] assms(4)]
    row_value_split [OF distinct_row [OF assms(1)] assms(2), of x] assms(3) by simp

lemma min_inf_cases:
  assumes "good s" and "(c, v) \<in> set rowvec" and "ninfmin (activity s) \<le> 1"
  shows "ninfmin (activity s) = 0 \<and> min_inf (domains s) (c, v) = 0 \<or>
    ninfmin (activity s) = 1"
  using tracks_split(3) [OF good_tracks [OF assms(1)] distinct_row [OF assms(1)] assms(2)] assms(3)
    inf_counts_nonneg(1) [of "domains s" "rest_of_row c rowvec"]
  by (auto simp: min_inf_def split: if_splits)

lemma max_inf_cases:
  assumes "good s" and "(c, v) \<in> set rowvec" and "ninfmax (activity s) \<le> 1"
  shows "ninfmax (activity s) = 0 \<and> max_inf (domains s) (c, v) = 0 \<or>
    ninfmax (activity s) = 1"
  using tracks_split(4) [OF good_tracks [OF assms(1)] distinct_row [OF assms(1)] assms(2)] assms(3)
    inf_counts_nonneg(2) [of "domains s" "rest_of_row c rowvec"]
  by (auto simp: max_inf_def split: if_splits)

lemma integral_at:
  "good s \<Longrightarrow> (c, v) \<in> set rowvec \<Longrightarrow> flags_test (col_flags (domains s) ! c) [kIntegral] \<Longrightarrow> x ! c \<in> \<int>"
  using good_integral by (simp add: integral_ok_def)

lemma report_lb_counts:
  "good s \<Longrightarrow> (c, v) \<in> set rowvec \<Longrightarrow>
    ninfmin (activity (report_lb boundchange fl c b lb row s)) \<le> ninfmin (activity s) \<and>
    ninfmax (activity (report_lb boundchange fl c b lb row s)) \<le> ninfmax (activity s)"
  by (auto simp: report_lb_def dest: counts_antitone)

lemma report_ub_counts:
  "good s \<Longrightarrow> (c, v) \<in> set rowvec \<Longrightarrow>
    ninfmin (activity (report_ub boundchange fl c b ub row s)) \<le> ninfmin (activity s) \<and>
    ninfmax (activity (report_ub boundchange fl c b ub row s)) \<le> ninfmax (activity s)"
  by (auto simp: report_ub_def dest: counts_antitone)

text \<open>The four kinds of derived bound at one entry.\<close>

lemma rhs_lb_finite:
  assumes "num_ok num" and "good s" and "(c, v) \<in> set rowvec" and "row_value rowvec x \<le> rhs"
    and "v < 0" and "ninfmin (activity s) = 0"
  shows "rhs_new_lb num (flags_test (col_flags (domains s) ! c) [kIntegral]) rhs
    (act_min (activity s) - v * upper_bounds (domains s) ! c) v \<le> x ! c"
  using residual_le_rhs [OF assms(2-4)] min_inf_cases [OF assms(2,3)] assms(5,6)
  by (intro rhs_new_lb_valid [OF assms(1,5)] integral_at [OF assms(2,3)])
    (auto simp: min_part_def min_inf_def split: if_splits)

lemma rhs_ub_finite:
  assumes "num_ok num" and "good s" and "(c, v) \<in> set rowvec" and "row_value rowvec x \<le> rhs"
    and "0 < v" and "ninfmin (activity s) = 0"
  shows "x ! c \<le> rhs_new_ub num (flags_test (col_flags (domains s) ! c) [kIntegral]) rhs
    (act_min (activity s) - v * lower_bounds (domains s) ! c) v"
  using residual_le_rhs [OF assms(2-4)] min_inf_cases [OF assms(2,3)] assms(5,6)
  by (intro rhs_new_ub_valid [OF assms(1,5)] integral_at [OF assms(2,3)])
    (auto simp: min_part_def min_inf_def split: if_splits)

lemma rhs_lb_single:
  assumes "num_ok num" and "good s" and "(c, v) \<in> set rowvec" and "row_value rowvec x \<le> rhs"
    and "v < 0" and "ninfmin (activity s) = 1" and "ub_useless (domains s) c"
  shows "rhs_new_lb num (flags_test (col_flags (domains s) ! c) [kIntegral]) rhs
    (act_min (activity s)) v \<le> x ! c"
  using residual_le_rhs [OF assms(2-4)] assms(5-7)
  by (intro rhs_new_lb_valid [OF assms(1,5)] integral_at [OF assms(2,3)])
    (auto simp: min_part_def min_inf_def)

lemma rhs_ub_single:
  assumes "num_ok num" and "good s" and "(c, v) \<in> set rowvec" and "row_value rowvec x \<le> rhs"
    and "0 < v" and "ninfmin (activity s) = 1" and "lb_useless (domains s) c"
  shows "x ! c \<le> rhs_new_ub num (flags_test (col_flags (domains s) ! c) [kIntegral]) rhs
    (act_min (activity s)) v"
  using residual_le_rhs [OF assms(2-4)] assms(5-7)
  by (intro rhs_new_ub_valid [OF assms(1,5)] integral_at [OF assms(2,3)])
    (auto simp: min_part_def min_inf_def)

lemma lhs_ub_finite:
  assumes "num_ok num" and "good s" and "(c, v) \<in> set rowvec" and "lhs \<le> row_value rowvec x"
    and "v < 0" and "ninfmax (activity s) = 0"
  shows "x ! c \<le> lhs_new_ub num (flags_test (col_flags (domains s) ! c) [kIntegral]) lhs
    (act_max (activity s) - v * lower_bounds (domains s) ! c) v"
  using residual_ge_lhs [OF assms(2-4)] max_inf_cases [OF assms(2,3)] assms(5,6)
  by (intro lhs_new_ub_valid [OF assms(1,5)] integral_at [OF assms(2,3)])
    (auto simp: max_part_def max_inf_def split: if_splits)

lemma lhs_lb_finite:
  assumes "num_ok num" and "good s" and "(c, v) \<in> set rowvec" and "lhs \<le> row_value rowvec x"
    and "0 < v" and "ninfmax (activity s) = 0"
  shows "lhs_new_lb num (flags_test (col_flags (domains s) ! c) [kIntegral]) lhs
    (act_max (activity s) - v * upper_bounds (domains s) ! c) v \<le> x ! c"
  using residual_ge_lhs [OF assms(2-4)] max_inf_cases [OF assms(2,3)] assms(5,6)
  by (intro lhs_new_lb_valid [OF assms(1,5)] integral_at [OF assms(2,3)])
    (auto simp: max_part_def max_inf_def split: if_splits)

lemma lhs_ub_single:
  assumes "num_ok num" and "good s" and "(c, v) \<in> set rowvec" and "lhs \<le> row_value rowvec x"
    and "v < 0" and "ninfmax (activity s) = 1" and "lb_useless (domains s) c"
  shows "x ! c \<le> lhs_new_ub num (flags_test (col_flags (domains s) ! c) [kIntegral]) lhs
    (act_max (activity s)) v"
  using residual_ge_lhs [OF assms(2-4)] assms(5-7)
  by (intro lhs_new_ub_valid [OF assms(1,5)] integral_at [OF assms(2,3)])
    (auto simp: max_part_def max_inf_def)

lemma lhs_lb_single:
  assumes "num_ok num" and "good s" and "(c, v) \<in> set rowvec" and "lhs \<le> row_value rowvec x"
    and "0 < v" and "ninfmax (activity s) = 1" and "ub_useless (domains s) c"
  shows "lhs_new_lb num (flags_test (col_flags (domains s) ! c) [kIntegral]) lhs
    (act_max (activity s)) v \<le> x ! c"
  using residual_ge_lhs [OF assms(2-4)] assms(5-7)
  by (intro lhs_new_lb_valid [OF assms(1,5)] integral_at [OF assms(2,3)])
    (auto simp: max_part_def max_inf_def)

lemma propagate_rhs_good:
  assumes "num_ok num" and "row_value rowvec x \<le> rhs" and "set es \<subseteq> set rowvec"
    and "good s" and "ninfmin (activity s) \<le> 1"
  shows "good (propagate_rhs_loop num row rhs activity domains boundchange es s)"
  using assms(3-5)
proof (induction es arbitrary: s)
  case Nil
  then show ?case by simp
next
  case (Cons e es)
  obtain c v where e: "e = (c, v)" and mem: "(c, v) \<in> set rowvec"
    using Cons.prems(1) by (cases e) auto
  have es: "set es \<subseteq> set rowvec" using Cons.prems(1) by simp
  note IH = Cons.IH [OF es] and good = Cons.prems(2) and le1 = Cons.prems(3)
  have lbc: "good t \<Longrightarrow> ninfmin (activity t) \<le> 1 \<Longrightarrow>
      ninfmin (activity (report_lb boundchange fl c b l row t)) \<le> 1" for t fl b l
    using report_lb_counts [OF _ mem, of t fl b l] by auto
  have ubc: "good t \<Longrightarrow> ninfmin (activity t) \<le> 1 \<Longrightarrow>
      ninfmin (activity (report_ub boundchange fl c b l row t)) \<le> 1" for t fl b l
    using report_ub_counts [OF _ mem, of t fl b l] by auto
  show ?case
  proof (cases "v < 0")
    case True
    then show ?thesis
      using min_inf_cases [OF good mem le1] IH good le1 lbc
        report_lb_good [OF good mem rhs_lb_finite [OF assms(1) good mem assms(2)]]
        report_lb_good [OF good mem rhs_lb_single [OF assms(1) good mem assms(2)]]
      by (auto simp: e Let_def)
  next
    case False
    with nonzero [OF good mem] have "0 < v" by simp
    then show ?thesis
      using min_inf_cases [OF good mem le1] IH good le1 ubc
        report_ub_good [OF good mem rhs_ub_finite [OF assms(1) good mem assms(2)]]
        report_ub_good [OF good mem rhs_ub_single [OF assms(1) good mem assms(2)]]
      by (auto simp: e Let_def)
  qed
qed

lemma propagate_lhs_good:
  assumes "num_ok num" and "lhs \<le> row_value rowvec x" and "set es \<subseteq> set rowvec"
    and "good s" and "ninfmax (activity s) \<le> 1"
  shows "good (propagate_lhs_loop num row lhs activity domains boundchange es s)"
  using assms(3-5)
proof (induction es arbitrary: s)
  case Nil
  then show ?case by simp
next
  case (Cons e es)
  obtain c v where e: "e = (c, v)" and mem: "(c, v) \<in> set rowvec"
    using Cons.prems(1) by (cases e) auto
  have es: "set es \<subseteq> set rowvec" using Cons.prems(1) by simp
  note IH = Cons.IH [OF es] and good = Cons.prems(2) and le1 = Cons.prems(3)
  have lbc: "good t \<Longrightarrow> ninfmax (activity t) \<le> 1 \<Longrightarrow>
      ninfmax (activity (report_lb boundchange fl c b l row t)) \<le> 1" for t fl b l
    using report_lb_counts [OF _ mem, of t fl b l] by auto
  have ubc: "good t \<Longrightarrow> ninfmax (activity t) \<le> 1 \<Longrightarrow>
      ninfmax (activity (report_ub boundchange fl c b l row t)) \<le> 1" for t fl b l
    using report_ub_counts [OF _ mem, of t fl b l] by auto
  show ?case
  proof (cases "v < 0")
    case True
    then show ?thesis
      using max_inf_cases [OF good mem le1] IH good le1 ubc
        report_ub_good [OF good mem lhs_ub_finite [OF assms(1) good mem assms(2)]]
        report_ub_good [OF good mem lhs_ub_single [OF assms(1) good mem assms(2)]]
      by (auto simp: e Let_def)
  next
    case False
    with nonzero [OF good mem] have "0 < v" by simp
    then show ?thesis
      using max_inf_cases [OF good mem le1] IH good le1 lbc
        report_lb_good [OF good mem lhs_lb_finite [OF assms(1) good mem assms(2)]]
        report_lb_good [OF good mem lhs_lb_single [OF assms(1) good mem assms(2)]]
      by (auto simp: e Let_def)
  qed
qed

lemma propagate_row_good:
  assumes "num_ok num" and "satisfies_row rflags lhs rhs (row_value rowvec x)" and "good s"
  shows "good (propagate_row num row rowvec activity lhs rhs rflags domains boundchange s)"
proof -
  let ?s1 = "if \<not> flags_test rflags [kRhsInf] \<and> ninfmin (activity s) \<le> 1 \<and>
            (ninfmax (activity s) \<ge> 1 \<or> isGT num (act_max (activity s)) rhs)
         then propagate_rhs_loop num row rhs activity domains boundchange rowvec s else s"
  have "good ?s1"
    using propagate_rhs_good [OF assms(1), of rhs rowvec s] assms(2,3)
    by (auto simp: satisfies_row_def)
  then show ?thesis
    using propagate_lhs_good [OF assms(1), of lhs rowvec ?s1] assms(2)
    unfolding propagate_row_def Let_def satisfies_row_def by auto
qed

end

text \<open>Whatever every bound change preserves, a propagation preserves.\<close>

lemma propagate_rhs_preserves:
  assumes "\<And>t c v b s. (c, v) \<in> set es \<Longrightarrow> P s \<Longrightarrow> P (boundchange t c b row s)" and "P s"
  shows "P (propagate_rhs_loop num row rhs activity domains boundchange es s)"
  using assms
  by (induction num row rhs activity domains boundchange es s rule: propagate_rhs_loop.induct)
    (simp_all add: Let_def report_lb_def report_ub_def, blast)

lemma propagate_lhs_preserves:
  assumes "\<And>t c v b s. (c, v) \<in> set es \<Longrightarrow> P s \<Longrightarrow> P (boundchange t c b row s)" and "P s"
  shows "P (propagate_lhs_loop num row lhs activity domains boundchange es s)"
  using assms
  by (induction num row lhs activity domains boundchange es s rule: propagate_lhs_loop.induct)
    (simp_all add: Let_def report_lb_def report_ub_def, blast)

lemma propagate_row_preserves:
  assumes "\<And>t c v b s. (c, v) \<in> set rowvec \<Longrightarrow> P s \<Longrightarrow> P (boundchange t c b row s)" and "P s"
  shows "P (propagate_row num row rowvec activity lhs rhs rflags domains boundchange s)"
  unfolding propagate_row_def Let_def
  using propagate_rhs_preserves [of rowvec P boundchange row, OF assms(1)]
    propagate_lhs_preserves [of rowvec P boundchange row, OF assms(1)] assms(2) by auto

section \<open>Implied bounds are implied\<close>

lemma implied_lb_step:
  assumes "(rhs - res) / v \<le> x" and "isFeasGE num ((rhs - res) / v) b" and "useabsfeas num"
  shows "b - feastol num \<le> x"
  using assms by (simp add: isFeasGE_def isFeasAbsGE_def)

lemma implied_ub_step:
  assumes "x \<le> (rhs - res) / v" and "isFeasLE num ((rhs - res) / v) b" and "useabsfeas num"
  shows "x \<le> b + feastol num"
  using assms by (simp add: isFeasLE_def isFeasAbsLE_def)

lemma row_le_quotient:
  assumes "v * x + rest \<le> rhs" and "res \<le> rest"
  shows "0 < v \<Longrightarrow> x \<le> (rhs - res) / (v :: rat)" and "v < 0 \<Longrightarrow> (rhs - res) / v \<le> x"
  using assms by (simp_all add: pos_le_divide_eq neg_divide_le_eq algebra_simps)

lemma row_ge_quotient:
  assumes "lhs \<le> v * x + rest" and "rest \<le> res"
  shows "0 < v \<Longrightarrow> (lhs - res) / (v :: rat) \<le> x" and "v < 0 \<Longrightarrow> x \<le> (lhs - res) / v"
  using assms by (simp_all add: pos_divide_le_eq neg_le_divide_eq algebra_simps)

text \<open>The residual activity the test computes bounds the rest of the row.\<close>

lemma rest_upper:
  assumes "tracks domains row act" and "distinct_cols row" and "(c, v) \<in> set row"
    and "row_in_domain domains (rest_of_row c row) x"
  shows "ninfmax act = 0 \<Longrightarrow> 0 < v \<Longrightarrow>
      row_value (rest_of_row c row) x \<le> act_max act - upper_bounds domains ! c * v"
    and "ninfmax act = 1 \<Longrightarrow> 0 < v \<Longrightarrow> flags_test (col_flags domains ! c) [kUbUseless] \<Longrightarrow>
      row_value (rest_of_row c row) x \<le> act_max act"
    and "ninfmax act = 0 \<Longrightarrow> v < 0 \<Longrightarrow>
      row_value (rest_of_row c row) x \<le> act_max act - lower_bounds domains ! c * v"
    and "ninfmax act = 1 \<Longrightarrow> v < 0 \<Longrightarrow> flags_test (col_flags domains ! c) [kLbUseless] \<Longrightarrow>
      row_value (rest_of_row c row) x \<le> act_max act"
proof -
  have eq: "ninfmax act = 0 \<Longrightarrow> max_inf domains (c, v) = 0"
    using no_max_inf assms(1,3) by (auto simp: tracks_def)
  note hi = residual_max [OF assms]
  show "ninfmax act = 0 \<Longrightarrow> 0 < v \<Longrightarrow>
      row_value (rest_of_row c row) x \<le> act_max act - upper_bounds domains ! c * v"
    and "ninfmax act = 0 \<Longrightarrow> v < 0 \<Longrightarrow>
      row_value (rest_of_row c row) x \<le> act_max act - lower_bounds domains ! c * v"
    using hi eq by (auto simp: max_part_def max_inf_def mult.commute split: if_splits)
  show "ninfmax act = 1 \<Longrightarrow> 0 < v \<Longrightarrow> flags_test (col_flags domains ! c) [kUbUseless] \<Longrightarrow>
      row_value (rest_of_row c row) x \<le> act_max act"
    and "ninfmax act = 1 \<Longrightarrow> v < 0 \<Longrightarrow> flags_test (col_flags domains ! c) [kLbUseless] \<Longrightarrow>
      row_value (rest_of_row c row) x \<le> act_max act"
    using hi by (auto simp: max_part_def max_inf_def)
qed

lemma rest_lower:
  assumes "tracks domains row act" and "distinct_cols row" and "(c, v) \<in> set row"
    and "row_in_domain domains (rest_of_row c row) x"
  shows "ninfmin act = 0 \<Longrightarrow> 0 < v \<Longrightarrow>
      act_min act - lower_bounds domains ! c * v \<le> row_value (rest_of_row c row) x"
    and "ninfmin act = 1 \<Longrightarrow> 0 < v \<Longrightarrow> flags_test (col_flags domains ! c) [kLbUseless] \<Longrightarrow>
      act_min act \<le> row_value (rest_of_row c row) x"
    and "ninfmin act = 0 \<Longrightarrow> v < 0 \<Longrightarrow>
      act_min act - upper_bounds domains ! c * v \<le> row_value (rest_of_row c row) x"
    and "ninfmin act = 1 \<Longrightarrow> v < 0 \<Longrightarrow> flags_test (col_flags domains ! c) [kUbUseless] \<Longrightarrow>
      act_min act \<le> row_value (rest_of_row c row) x"
proof -
  have eq: "ninfmin act = 0 \<Longrightarrow> min_inf domains (c, v) = 0"
    using no_min_inf assms(1,3) by (auto simp: tracks_def)
  note lo = residual_min [OF assms]
  show "ninfmin act = 0 \<Longrightarrow> 0 < v \<Longrightarrow>
      act_min act - lower_bounds domains ! c * v \<le> row_value (rest_of_row c row) x"
    and "ninfmin act = 0 \<Longrightarrow> v < 0 \<Longrightarrow>
      act_min act - upper_bounds domains ! c * v \<le> row_value (rest_of_row c row) x"
    using lo eq by (auto simp: min_part_def min_inf_def mult.commute split: if_splits)
  show "ninfmin act = 1 \<Longrightarrow> 0 < v \<Longrightarrow> flags_test (col_flags domains ! c) [kLbUseless] \<Longrightarrow>
      act_min act \<le> row_value (rest_of_row c row) x"
    and "ninfmin act = 1 \<Longrightarrow> v < 0 \<Longrightarrow> flags_test (col_flags domains ! c) [kUbUseless] \<Longrightarrow>
      act_min act \<le> row_value (rest_of_row c row) x"
    using lo by (auto simp: min_part_def min_inf_def)
qed

text \<open>Which test answered: the residual it used and the tolerance test it passed.\<close>

lemma row_implies_LB_cases:
  assumes "row_implies_LB num lhs rhs rflags act v l u f" and "\<not> flags_test f [kLbInf]"
  obtains res where "0 < v" "\<not> flags_test rflags [kLhsInf]" "isFeasGE num ((lhs - res) / v) l"
      "ninfmax act = 0 \<and> res = act_max act - u * v \<or>
       ninfmax act = 1 \<and> flags_test f [kUbUseless] \<and> res = act_max act"
  | res where "v < 0" "\<not> flags_test rflags [kRhsInf]" "isFeasGE num ((rhs - res) / v) l"
      "ninfmin act = 0 \<and> res = act_min act - u * v \<or>
       ninfmin act = 1 \<and> flags_test f [kUbUseless] \<and> res = act_min act"
  using assms unfolding row_implies_LB_def by (metis (full_types))

lemma row_implies_UB_cases:
  assumes "row_implies_UB num lhs rhs rflags act v l u f" and "\<not> flags_test f [kUbInf]"
  obtains res where "0 < v" "\<not> flags_test rflags [kRhsInf]" "isFeasLE num ((rhs - res) / v) u"
      "ninfmin act = 0 \<and> res = act_min act - l * v \<or>
       ninfmin act = 1 \<and> flags_test f [kLbUseless] \<and> res = act_min act"
  | res where "v < 0" "\<not> flags_test rflags [kLhsInf]" "isFeasLE num ((lhs - res) / v) u"
      "ninfmax act = 0 \<and> res = act_max act - l * v \<or>
       ninfmax act = 1 \<and> flags_test f [kLbUseless] \<and> res = act_max act"
  using assms unfolding row_implies_UB_def by (metis (full_types))

lemma row_implies_bounds:
  assumes "useabsfeas num" and "tracks domains row act" and "distinct_cols row"
    and "(c, v) \<in> set row"
    and "row_in_domain domains (rest_of_row c row) x"
    and "satisfies_row rflags lhs rhs (row_value row x)"
  shows "(row_implies_LB num lhs rhs rflags act v (lower_bounds domains ! c)
        (upper_bounds domains ! c) (col_flags domains ! c) \<and>
      \<not> flags_test (col_flags domains ! c) [kLbInf] \<longrightarrow>
      lower_bounds domains ! c - feastol num \<le> x ! c) \<and>
    (row_implies_UB num lhs rhs rflags act v (lower_bounds domains ! c)
        (upper_bounds domains ! c) (col_flags domains ! c) \<and>
      \<not> flags_test (col_flags domains ! c) [kUbInf] \<longrightarrow>
      x ! c \<le> upper_bounds domains ! c + feastol num)"
proof -
  let ?r = "row_value (rest_of_row c row) x"
  note lo = rest_lower [OF assms(2-5)] and hi = rest_upper [OF assms(2-5)]
  have r: "\<not> flags_test rflags [kRhsInf] \<Longrightarrow> v * x ! c + ?r \<le> rhs"
    "\<not> flags_test rflags [kLhsInf] \<Longrightarrow> lhs \<le> v * x ! c + ?r"
    using assms(6) row_value_split [OF assms(3,4), of x] by (auto simp: satisfies_row_def)
  have LB: "lower_bounds domains ! c - feastol num \<le> x ! c"
    if "row_implies_LB num lhs rhs rflags act v (lower_bounds domains ! c)
        (upper_bounds domains ! c) (col_flags domains ! c)"
      "\<not> flags_test (col_flags domains ! c) [kLbInf]"
    using that
  proof (cases rule: row_implies_LB_cases)
    case (1 res)
    then have "?r \<le> res" using hi(1,2) by auto
    from implied_lb_step [OF row_ge_quotient(1) [OF r(2) [OF 1(2)] this 1(1)] 1(3) assms(1)]
    show ?thesis .
  next
    case (2 res)
    then have "res \<le> ?r" using lo(3,4) by auto
    from implied_lb_step [OF row_le_quotient(2) [OF r(1) [OF 2(2)] this 2(1)] 2(3) assms(1)]
    show ?thesis .
  qed
  have UB: "x ! c \<le> upper_bounds domains ! c + feastol num"
    if "row_implies_UB num lhs rhs rflags act v (lower_bounds domains ! c)
        (upper_bounds domains ! c) (col_flags domains ! c)"
      "\<not> flags_test (col_flags domains ! c) [kUbInf]"
    using that
  proof (cases rule: row_implies_UB_cases)
    case (1 res)
    then have "res \<le> ?r" using lo(1,2) by auto
    from implied_ub_step [OF row_le_quotient(1) [OF r(1) [OF 1(2)] this 1(1)] 1(3) assms(1)]
    show ?thesis .
  next
    case (2 res)
    then have "?r \<le> res" using hi(3,4) by auto
    from implied_ub_step [OF row_ge_quotient(2) [OF r(2) [OF 2(2)] this 2(1)] 2(3) assms(1)]
    show ?thesis .
  qed
  show ?thesis using LB UB by blast
qed

text \<open>
  When \<open>row_implies_LB\<close> answers true, every point that satisfies the row and the domains of the
  other columns also satisfies the lower bound of the column up to the feasibility tolerance, so
  that the bound may be dropped; the same for \<open>row_implies_UB\<close>.
\<close>

lemma row_implies_bounds_sound:
  assumes "useabsfeas num" and "tracks domains row act" and "distinct_cols row"
    and "(c, v) \<in> set row"
    and "row_in_domain domains (rest_of_row c row) x"
    and "satisfies_row rflags lhs rhs (row_value row x)"
  shows "(row_implies_LB num lhs rhs rflags act v (lower_bounds domains ! c)
        (upper_bounds domains ! c) (col_flags domains ! c) \<and>
      \<not> flags_test (col_flags domains ! c) [kLbInf] \<longrightarrow>
      lower_bounds domains ! c - feastol num \<le> x ! c) \<and>
    (row_implies_UB num lhs rhs rflags act v (lower_bounds domains ! c)
        (upper_bounds domains ! c) (col_flags domains ! c) \<and>
      \<not> flags_test (col_flags domains ! c) [kUbInf] \<longrightarrow>
      x ! c \<le> upper_bounds domains ! c + feastol num)"
  using row_implies_bounds [OF assms] .

end
