(* ===== verification/Pap_Problem.thy ===== *)
theory Pap_Problem
  imports Pap_Propagate "HOL-Library.Product_Lexorder"
begin

text \<open>
  \<open>src/papilo/core/Problem.hpp\<close> with \<open>Objective.hpp\<close>, \<open>StableSum.hpp\<close> and the views of
  \<open>ConstraintMatrix.hpp\<close>: the problem, its feasible points, the violation check of a solution, the
  objective, the recomputation of activities and locks, the removal of implied bounds and the
  substitution of a column in the objective.
\<close>

section \<open>Sums\<close>

text \<open>\<open>StableSum\<close>: compensated for floating point types, plain for the exact type.\<close>

definition stable_add_fp :: "rat \<times> rat \<Rightarrow> rat \<Rightarrow> rat \<times> rat" where
  "stable_add_fp st input =
     (case st of (s, c) \<Rightarrow>
        let t = s + input; z = t - s; y = (s - (t - z)) + (input - z)
        in (t, c + y))"

definition stable_get_fp :: "rat \<times> rat \<Rightarrow> rat" where
  "stable_get_fp st = fst st + snd st"

definition stable_add :: "rat \<Rightarrow> rat \<Rightarrow> rat" where
  "stable_add s input = s + input"

definition stable_sum :: "rat \<Rightarrow> rat list \<Rightarrow> rat" where
  "stable_sum init xs = foldl stable_add init xs"

lemma stable_sum_eq: "stable_sum init xs = init + sum_list xs"
  unfolding stable_sum_def by (induction xs arbitrary: init) (simp_all add: stable_add_def)

lemma stable_sum_fp_eq: "stable_get_fp (foldl stable_add_fp (init, 0) xs) = stable_sum init xs"
proof -
  have "foldl stable_add_fp (s, 0) xs = (s + sum_list xs, 0)" for s
    by (induction xs arbitrary: s) (simp_all add: stable_add_fp_def)
  then show ?thesis by (simp add: stable_get_fp_def stable_sum_eq)
qed

section \<open>Sparse vectors\<close>

text \<open>\<open>SparseVectorView\<close>: the entries of a row or of a column.\<close>

definition getMaxAbsValue :: "sparse_vec \<Rightarrow> rat" where
  "getMaxAbsValue vec = foldl (\<lambda>m (_, v). max \<bar>v\<bar> m) 0 vec"

definition getMinMaxAbsValue :: "sparse_vec \<Rightarrow> rat \<times> rat" where
  "getMinMaxAbsValue vec = (case vec of [] \<Rightarrow> (0, 0)
     | (_, v0) # es \<Rightarrow> foldl (\<lambda>(mn, mx) (_, v). (min \<bar>v\<bar> mn, max \<bar>v\<bar> mx)) (\<bar>v0\<bar>, \<bar>v0\<bar>) es)"

definition getDynamism :: "sparse_vec \<Rightarrow> rat" where
  "getDynamism vec = (case vec of [] \<Rightarrow> 0
     | (_, v0) # es \<Rightarrow>
        (case foldl (\<lambda>(mx, mn) (_, v). (num_max \<bar>v\<bar> mx, num_min \<bar>v\<bar> mn)) (\<bar>v0\<bar>, \<bar>v0\<bar>) es
         of (mx, mn) \<Rightarrow> mx / mn))"

section \<open>The problem\<close>

text \<open>
  The constraint matrix is held twice, by rows and by columns; \<open>rowsize\<close> and \<open>colsize\<close> are the
  size vectors (\<open>-1\<close> for a deleted row or column).
\<close>

record problem =
  obj_coeffs :: "rat list"
  obj_offset :: rat
  row_coeffs :: "sparse_vec list"
  col_coeffs :: "sparse_vec list"
  lhs_values :: "rat list"
  rhs_values :: "rat list"
  row_flags :: "flags list"
  rowsize :: "int list"
  colsize :: "int list"
  prob_domains :: variable_domains
  row_activities :: "RowActivity list"
  col_locks :: "(int \<times> int) list"

definition getNRows :: "problem \<Rightarrow> nat" where "getNRows p = length (row_coeffs p)"

definition getNCols :: "problem \<Rightarrow> nat" where "getNCols p = length (col_coeffs p)"

abbreviation prob_lbs :: "problem \<Rightarrow> rat list" where "prob_lbs p \<equiv> lower_bounds (prob_domains p)"
abbreviation prob_ubs :: "problem \<Rightarrow> rat list" where "prob_ubs p \<equiv> upper_bounds (prob_domains p)"
abbreviation prob_cflags :: "problem \<Rightarrow> flags list" where "prob_cflags p \<equiv> col_flags (prob_domains p)"

lemma col_of_matrixD:
  "col_of_matrix rows c col \<Longrightarrow> (r, v) \<in> set col \<Longrightarrow> r < length rows"
  "col_of_matrix rows c col \<Longrightarrow> (r, v) \<in> set col \<Longrightarrow> (c, v) \<in> set (rows ! r)"
  by (force simp: col_of_matrix_def)+

text \<open>The structural invariant of a problem whose activities are up to date.\<close>

definition matrix_ok :: "nat \<Rightarrow> sparse_vec list \<Rightarrow> sparse_vec list \<Rightarrow> bool" where
  "matrix_ok ncols rows cols \<longleftrightarrow> length cols = ncols \<and>
     (\<forall>c<ncols. col_of_matrix rows c (cols ! c)) \<and>
     (\<forall>row \<in> set rows. distinct_cols row \<and> (\<forall>(c, v) \<in> set row. c < ncols \<and> v \<noteq> 0))"

definition problem_ok :: "problem \<Rightarrow> bool" where
  "problem_ok p \<longleftrightarrow>
     matrix_ok (getNCols p) (row_coeffs p) (col_coeffs p) \<and>
     length (lhs_values p) = getNRows p \<and> length (rhs_values p) = getNRows p \<and>
     length (row_flags p) = getNRows p \<and> length (obj_coeffs p) = getNCols p \<and>
     length (prob_lbs p) = getNCols p \<and> length (prob_ubs p) = getNCols p \<and>
     length (prob_cflags p) = getNCols p \<and>
     all_tracked (prob_domains p) (row_coeffs p) (row_activities p)"

text \<open>
  The feasible points: the rows, the bounds, the integrality of integral columns. A column flagged
  as implied integral takes integral values as well.
\<close>

definition rows_satisfied :: "problem \<Rightarrow> rat list \<Rightarrow> bool" where
  "rows_satisfied p x \<longleftrightarrow> (\<forall>r<getNRows p.
     satisfies_row (row_flags p ! r) (lhs_values p ! r) (rhs_values p ! r) (row_value (row_coeffs p ! r) x))"

definition in_domains :: "variable_domains \<Rightarrow> rat list \<Rightarrow> bool" where
  "in_domains domains x \<longleftrightarrow> (\<forall>c<length (col_flags domains). in_col_domain domains c (x ! c))"

definition integral_point :: "variable_domains \<Rightarrow> rat list \<Rightarrow> bool" where
  "integral_point domains x \<longleftrightarrow>
     (\<forall>c<length (col_flags domains). flags_test (col_flags domains ! c) [kIntegral, kImplInt] \<longrightarrow> x ! c \<in> \<int>)"

definition feasible :: "problem \<Rightarrow> rat list \<Rightarrow> bool" where
  "feasible p x \<longleftrightarrow> length x = getNCols p \<and> rows_satisfied p x \<and> in_domains (prob_domains p) x \<and>
     integral_point (prob_domains p) x"

section \<open>Operations\<close>

definition computeSolObjective :: "problem \<Rightarrow> rat list \<Rightarrow> rat" where
  "computeSolObjective p sol =
     stable_sum (obj_offset p) (map (\<lambda>i. sol ! i * obj_coeffs p ! i) [0..<getNCols p])"

text \<open>
  \<open>computeSolViolations\<close>: the verdict and the three violations it leaves in its reference arguments
  (bound, row, integrality), which keep their old values when the size is wrong.
\<close>

definition bound_violation_step ::
  "variable_domains \<Rightarrow> rat list \<Rightarrow> rat \<times> rat \<Rightarrow> nat \<Rightarrow> rat \<times> rat" where
  "bound_violation_step domains sol st i =
     (case st of (bv0, iv) \<Rightarrow>
       let bv1 = (if \<not> flags_test (col_flags domains ! i) [kLbInf] \<and> sol ! i < lower_bounds domains ! i
                  then num_max bv0 (lower_bounds domains ! i - sol ! i) else bv0);
           bv2 = (if \<not> flags_test (col_flags domains ! i) [kUbInf] \<and> sol ! i > upper_bounds domains ! i
                  then num_max bv1 (sol ! i - upper_bounds domains ! i) else bv1)
       in (bv2, if flags_test (col_flags domains ! i) [kIntegral]
                then num_max iv \<bar>num_round (sol ! i) - sol ! i\<bar> else iv))"

definition row_violation_step :: "Num \<Rightarrow> problem \<Rightarrow> rat list \<Rightarrow> rat \<Rightarrow> nat \<Rightarrow> rat" where
  "row_violation_step num p sol rv i =
     (let activity = stable_sum 0 (map (\<lambda>(c, v). sol ! c * v) (row_coeffs p ! i));
          rv1 = (if \<not> flags_test (row_flags p ! i) [kRhsInf] \<and> isFeasGT num activity (rhs_values p ! i)
                 then num_max rv (activity - rhs_values p ! i) else rv)
      in if \<not> flags_test (row_flags p ! i) [kLhsInf] \<and> isFeasLT num activity (rhs_values p ! i)
         then num_max rv1 (lhs_values p ! i - activity) else rv1)"

definition computeSolViolations ::
  "Num \<Rightarrow> problem \<Rightarrow> rat list \<Rightarrow> rat \<times> rat \<times> rat \<Rightarrow> bool \<times> rat \<times> rat \<times> rat" where
  "computeSolViolations num p sol old =
     (if length sol \<noteq> getNCols p then (False, old)
      else case foldl (bound_violation_step (prob_domains p) sol) (0, 0) [0..<getNCols p] of
        (bv, iv) \<Rightarrow>
          let rv = foldl (row_violation_step num p sol) 0 [0..<getNRows p]
          in (isFeasZero num bv \<and> isFeasZero num iv \<and> isFeasZero num rv, bv, rv, iv))"

definition recomputeAllActivities :: "problem \<Rightarrow> problem" where
  "recomputeAllActivities p =
     p\<lparr>row_activities := map (\<lambda>row. compute_row_activity row (prob_domains p) (-1)) (row_coeffs p)\<rparr>"

text \<open>The locks are counted on top of what the resized vector holds.\<close>

definition column_locks :: "flags list \<Rightarrow> sparse_vec \<Rightarrow> int \<times> int \<Rightarrow> int \<times> int" where
  "column_locks rflags col locks = foldl (\<lambda>l (row, val). count_locks val (rflags ! row) l) locks col"

definition recomputeLocks :: "problem \<Rightarrow> problem" where
  "recomputeLocks p =
     p\<lparr>col_locks := map (\<lambda>c. column_locks (row_flags p) (col_coeffs p ! c)
          (if c < length (col_locks p) then col_locks p ! c else (0, 0))) [0..<getNCols p]\<rparr>"

subsection \<open>Removing implied bounds\<close>

text \<open>The \<open>while\<close> loop of \<open>removeRedundantBounds\<close> over the rows of a column.\<close>

fun redundant_scan ::
  "Num \<Rightarrow> problem \<Rightarrow> flags list \<Rightarrow> RowActivity list \<Rightarrow> nat \<Rightarrow> sparse_vec \<Rightarrow> flags \<Rightarrow> flags" where
  "redundant_scan num p cflags acts col [] colf = colf"
| "redundant_scan num p cflags acts col ((row, val) # es) colf =
     (if flags_test colf [kLbInf] \<and> flags_test colf [kUbInf] then colf
      else if flags_test (row_flags p ! row) [kRedundantRow]
      then redundant_scan num p cflags acts col es colf
      else
        let colf1 = (if \<not> flags_test colf [kLbInf] \<and>
              row_implies_LB num (lhs_values p ! row) (rhs_values p ! row) (row_flags p ! row) (acts ! row)
                val (prob_lbs p ! col) (prob_ubs p ! col) (cflags ! col)
              then flags_set [kLbInf] colf else colf);
            colf2 = (if \<not> flags_test colf1 [kUbInf] \<and>
              row_implies_UB num (lhs_values p ! row) (rhs_values p ! row) (row_flags p ! row) (acts ! row)
                val (prob_lbs p ! col) (prob_ubs p ! col) (cflags ! col)
              then flags_set [kUbInf] colf1 else colf1)
        in redundant_scan num p cflags acts col es colf2)"

definition drop_bound ::
  "problem \<Rightarrow> BoundChange \<Rightarrow> nat \<Rightarrow> flags list \<times> RowActivity list \<times> int \<Rightarrow>
   flags list \<times> RowActivity list \<times> int" where
  "drop_bound p type col st =
     (case st of (cflags, acts, nremoved) \<Rightarrow>
       if \<not> flags_test (cflags ! col) [case type of kLower \<Rightarrow> kLbInf | kUpper \<Rightarrow> kUbInf]
       then (cflags[col := flags_set [case type of kLower \<Rightarrow> kLbInf | kUpper \<Rightarrow> kUbInf] (cflags ! col)],
             update_activities_remove_finite_bound (col_coeffs p ! col) type
               (old_bound type (prob_domains p) col) acts,
             nremoved + 1)
       else (cflags, acts, nremoved))"

definition remove_bounds_of_col ::
  "Num \<Rightarrow> problem \<Rightarrow> flags list \<times> RowActivity list \<times> int \<times> int \<Rightarrow> nat \<Rightarrow>
   flags list \<times> RowActivity list \<times> int \<times> int" where
  "remove_bounds_of_col num p st col =
     (case st of (cflags, acts, nremoved, nfree) \<Rightarrow>
       if flags_test (cflags ! col) [kInactive] \<or> \<not> flags_test (cflags ! col) [kUnbounded] then st
       else let colf = redundant_scan num p cflags acts col (col_coeffs p ! col) (cflags ! col)
         in if flags_test colf [kLbInf] \<and> flags_test colf [kUbInf]
            then case drop_bound p kUpper col (drop_bound p kLower col (cflags, acts, nremoved)) of
              (cflags', acts', nremoved') \<Rightarrow>
                (cflags', acts', nremoved', if nremoved \<noteq> nremoved' then nfree + 1 else nfree)
            else st)"

definition removal_order :: "problem \<Rightarrow> nat list" where
  "removal_order p = map (\<lambda>t. snd (snd t))
     (sort (map (\<lambda>i. (colsize p ! i, getDynamism (col_coeffs p ! i), i)) [0..<getNCols p]))"

definition removeRedundantBounds ::
  "Num \<Rightarrow> problem \<Rightarrow> flags list \<Rightarrow> RowActivity list \<Rightarrow> flags list \<times> RowActivity list \<times> int \<times> int" where
  "removeRedundantBounds num p cflags acts =
     foldl (remove_bounds_of_col num p) (cflags, acts, 0, 0) (removal_order p)"

subsection \<open>Substitution in the objective\<close>

text \<open>
  \<open>getSparseIndex\<close> looks the column up in the sorted row; \<open>substituteVarInObj\<close> asserts that it is
  there. The model reads the coefficient by the key.
\<close>

definition row_coeff :: "sparse_vec \<Rightarrow> nat \<Rightarrow> rat" where
  "row_coeff row col = (case map_of row col of Some v \<Rightarrow> v | None \<Rightarrow> 0)"

definition substitute_obj_step ::
  "Num \<Rightarrow> nat \<Rightarrow> rat \<Rightarrow> rat list \<Rightarrow> nat \<times> rat \<Rightarrow> rat list" where
  "substitute_obj_step num col substscale obj e =
     (case e of (c, v) \<Rightarrow>
       if c = col then obj
       else let newobjcoeff = obj ! c + v * substscale
         in obj[c := if isZero num newobjcoeff then 0 else newobjcoeff])"

definition substituteVarInObj :: "Num \<Rightarrow> nat \<Rightarrow> nat \<Rightarrow> problem \<Rightarrow> problem" where
  "substituteVarInObj num col row p =
     (if obj_coeffs p ! col = 0 then p
      else let substscale = - (obj_coeffs p ! col) / row_coeff (row_coeffs p ! row) col
        in p\<lparr>obj_coeffs := foldl (substitute_obj_step num col substscale)
                 ((obj_coeffs p)[col := 0]) (row_coeffs p ! row),
             obj_offset := obj_offset p - lhs_values p ! row * substscale\<rparr>)"

subsection \<open>Cliques\<close>

text \<open>
  The loop of \<open>is_clique\<close>: \<open>None\<close> is the early return of false, else the two flags. The values
  \<open>minvalue\<close> and \<open>maxvalue\<close> start at the infinity of the number type, a parameter.
\<close>

fun clique_scan ::
  "Num \<Rightarrow> variable_domains \<Rightarrow> rat \<Rightarrow> rat \<Rightarrow> sparse_vec \<Rightarrow> bool \<Rightarrow> bool \<Rightarrow> rat \<Rightarrow> rat \<Rightarrow> (bool \<times> bool) option"
where
  "clique_scan num domains lhs rhs [] rhsClique lhsClique minvalue maxvalue = Some (rhsClique, lhsClique)"
| "clique_scan num domains lhs rhs ((col, coeff) # es) rhsClique lhsClique minvalue maxvalue =
     (let lb = lower_bounds domains ! col; ub = upper_bounds domains ! col;
          SOS1 = (\<not> isEq num ub 1)
      in if \<not> flags_test (col_flags domains ! col) [kIntegral] then None
         else if rhsClique \<and> ((isEq num 0 lb \<and> isLT num 0 coeff) \<or> (isEq num 0 ub \<and> isGT num 0 coeff)) then
           (let ok = isGT num (minvalue + \<bar>coeff\<bar>) rhs \<and> isLE num \<bar>coeff\<bar> rhs
            in if \<not> ok \<or> SOS1 then None
               else clique_scan num domains lhs rhs es True False
                      (if isLT num \<bar>coeff\<bar> minvalue then \<bar>coeff\<bar> else minvalue) maxvalue)
         else if lhsClique \<and> ((isEq num 0 ub \<and> isLT num 0 coeff) \<or> (isEq num 0 lb \<and> isGT num 0 coeff)) then
           (let ok = isLT num (maxvalue - \<bar>coeff\<bar>) lhs \<and> isGE num (- \<bar>coeff\<bar>) lhs
            in if \<not> ok \<or> SOS1 then None
               else clique_scan num domains lhs rhs es False True minvalue
                      (if isGT num (- \<bar>coeff\<bar>) maxvalue then - \<bar>coeff\<bar> else maxvalue))
         else None)"

definition is_clique :: "Num \<Rightarrow> rat \<Rightarrow> problem \<Rightarrow> nat \<Rightarrow> bool" where
  "is_clique num infinity p row =
     (let rowFlag = row_flags p ! row; rowvec = row_coeffs p ! row;
          rhsClique = (\<not> flags_test rowFlag [kRhsInf]); lhsClique = (\<not> flags_test rowFlag [kLhsInf])
      in if \<not> lhsClique \<and> \<not> rhsClique then False
         else if length rowvec \<le> 1 \<or> flags_test rowFlag [kRedundantRow] then False
         else case clique_scan num (prob_domains p) (lhs_values p ! row) (rhs_values p ! row) rowvec
                rhsClique lhsClique infinity (- infinity) of
             None \<Rightarrow> False
           | Some (rc, lc) \<Rightarrow> \<not> (rc \<and> isGT num (lhs_values p ! row) 0 \<or> lc \<and> isLT num (rhs_values p ! row) 0))"

section \<open>The objective\<close>

definition obj_value :: "rat list \<Rightarrow> rat \<Rightarrow> rat list \<Rightarrow> rat" where
  "obj_value obj off x = off + (\<Sum>i<length obj. obj ! i * x ! i)"

lemma computeSolObjective_eq:
  "length (obj_coeffs p) = getNCols p \<Longrightarrow>
   computeSolObjective p sol = obj_value (obj_coeffs p) (obj_offset p) sol"
  by (simp add: computeSolObjective_def stable_sum_eq obj_value_def interv_sum_list_conv_sum_set_nat
      atLeast0LessThan mult.commute)

lemma obj_value_update:
  assumes "c < length obj"
  shows "obj_value (obj[c := v]) off x = obj_value obj off x + (v - obj ! c) * x ! c"
proof -
  have "(\<Sum>i<length obj. obj[c := v] ! i * x ! i) =
      v * x ! c + (\<Sum>i \<in> {..<length obj} - {c}. obj ! i * x ! i)"
    using assms by (subst sum.remove [of _ c]) (auto intro!: sum.cong)
  moreover have "(\<Sum>i<length obj. obj ! i * x ! i) =
      obj ! c * x ! c + (\<Sum>i \<in> {..<length obj} - {c}. obj ! i * x ! i)"
    using assms by (subst sum.remove [of _ c]) auto
  ultimately show ?thesis by (simp add: obj_value_def algebra_simps)
qed

lemma substitute_obj_fold:
  assumes "epsilon num = 0" and "\<forall>(c, v) \<in> set row. c < length obj"
  shows "length (foldl (substitute_obj_step num col s) obj row) = length obj \<and>
    obj_value (foldl (substitute_obj_step num col s) obj row) off x =
      obj_value obj off x + s * row_value (rest_of_row col row) x"
  using assms(2)
proof (induction row arbitrary: obj)
  case Nil
  then show ?case by (simp add: row_value_def rest_of_row_def)
next
  case (Cons e row)
  obtain c v where e: "e = (c, v)" by (cases e)
  let ?obj = "substitute_obj_step num col s obj e"
  have step: "obj_value ?obj off x = obj_value obj off x + (if c = col then 0 else s * (v * x ! c))"
    using Cons.prems assms(1)
    by (auto simp: e substitute_obj_step_def Let_def isZero_def obj_value_update algebra_simps)
  have len: "length ?obj = length obj"
    by (simp add: e substitute_obj_step_def Let_def)
  have "\<forall>(c, v) \<in> set row. c < length ?obj" using Cons.prems len by auto
  from Cons.IH [OF this] step len show ?case
    by (auto simp: e rest_of_row_def row_value_def algebra_simps)
qed

text \<open>
  Substituting a column in the objective by an equality row does not change the objective value
  of any point on that row (exact arithmetic: no coefficient is rounded to zero).
\<close>

lemma substituteVarInObj_value:
  assumes "problem_ok p" and "epsilon num = 0" and "row < getNRows p"
    and "(col, a) \<in> set (row_coeffs p ! row)" and "row_value (row_coeffs p ! row) x = lhs_values p ! row"
  shows "computeSolObjective (substituteVarInObj num col row p) x = computeSolObjective p x \<and>
    obj_coeffs (substituteVarInObj num col row p) ! col = 0"
proof (cases "obj_coeffs p ! col = 0")
  case True
  then show ?thesis by (simp add: substituteVarInObj_def)
next
  case False
  let ?row = "row_coeffs p ! row" and ?obj = "(obj_coeffs p)[col := 0]"
  let ?s = "- (obj_coeffs p ! col) / a"
  have row: "distinct_cols ?row" "\<forall>(c, v) \<in> set ?row. c < getNCols p \<and> v \<noteq> 0"
    using assms(1,3) by (auto simp: problem_ok_def matrix_ok_def getNRows_def)
  have coeff: "row_coeff ?row col = a" using row(1) assms(4) by (simp add: row_coeff_def)
  have len: "length (obj_coeffs p) = getNCols p" using assms(1) by (simp add: problem_ok_def)
  have col: "col < getNCols p" "a \<noteq> 0" using row(2) assms(4) by auto
  have bnd: "\<forall>(c, v) \<in> set ?row. c < length ?obj" using row(2) len by auto
  note fold = substitute_obj_fold [OF assms(2) bnd, of col ?s _ x]
  have keep: "foldl (substitute_obj_step num col ?s) ob es ! col = ob ! col" for ob es
    by (induction es arbitrary: ob) (auto simp: substitute_obj_step_def Let_def split: prod.split)
  have "computeSolObjective (substituteVarInObj num col row p) x =
      obj_value (foldl (substitute_obj_step num col ?s) ?obj ?row)
        (obj_offset p - lhs_values p ! row * ?s) x"
    using False len fold by (subst computeSolObjective_eq)
      (auto simp: substituteVarInObj_def coeff Let_def getNCols_def)
  also have "\<dots> = obj_value (obj_coeffs p) (obj_offset p) x - obj_coeffs p ! col * x ! col
      - lhs_values p ! row * ?s + ?s * row_value (rest_of_row col ?row) x"
    using fold [of "obj_offset p - lhs_values p ! row * ?s"] col(1) len
    by (simp add: obj_value_update) (simp add: obj_value_def)
  also have "row_value (rest_of_row col ?row) x = lhs_values p ! row - a * x ! col"
    using row_value_split [OF row(1) assms(4), of x] assms(5) by simp
  also have "obj_value (obj_coeffs p) (obj_offset p) x - obj_coeffs p ! col * x ! col
      - lhs_values p ! row * ?s + ?s * (lhs_values p ! row - a * x ! col) = computeSolObjective p x"
    using col(2) len by (simp add: computeSolObjective_eq field_simps)
  finally show ?thesis
    using False keep col len by (simp add: substituteVarInObj_def coeff Let_def)
qed

section \<open>The violation check\<close>

lemma bound_violation_bounds:
  assumes "foldl (bound_violation_step domains sol) (0, 0) [0..<n] = (bv, iv)"
  shows "0 \<le> bv \<and> 0 \<le> iv \<and> (\<forall>i<n.
      (\<not> flags_test (col_flags domains ! i) [kLbInf] \<longrightarrow> lower_bounds domains ! i - sol ! i \<le> bv) \<and>
      (\<not> flags_test (col_flags domains ! i) [kUbInf] \<longrightarrow> sol ! i - upper_bounds domains ! i \<le> bv) \<and>
      (flags_test (col_flags domains ! i) [kIntegral] \<longrightarrow> \<bar>num_round (sol ! i) - sol ! i\<bar> \<le> iv))"
  using assms
proof (induction n arbitrary: bv iv)
  case 0
  then show ?case by simp
next
  case (Suc n)
  obtain b v where bv: "foldl (bound_violation_step domains sol) (0, 0) [0..<n] = (b, v)" by fastforce
  note IH = Suc.IH [OF bv]
  have last: "bound_violation_step domains sol (b, v) n = (bv, iv)" using Suc.prems bv by simp
  have "b \<le> bv" "v \<le> iv"
    using last by (auto simp: bound_violation_step_def Let_def num_max_eq split: if_splits)
  moreover have "(\<not> flags_test (col_flags domains ! n) [kLbInf] \<longrightarrow> lower_bounds domains ! n - sol ! n \<le> bv) \<and>
      (\<not> flags_test (col_flags domains ! n) [kUbInf] \<longrightarrow> sol ! n - upper_bounds domains ! n \<le> bv) \<and>
      (flags_test (col_flags domains ! n) [kIntegral] \<longrightarrow> \<bar>num_round (sol ! n) - sol ! n\<bar> \<le> iv)"
    using last IH by (auto simp: bound_violation_step_def Let_def num_max_eq split: if_splits)
  ultimately show ?case using IH by (fastforce simp: less_Suc_eq)
qed

lemma row_violation_mono: "rv \<le> row_violation_step num p sol rv i"
  by (simp add: row_violation_step_def Let_def num_max_eq max.coboundedI1)

lemma row_violation_at:
  assumes "\<not> flags_test (row_flags p ! i) [kRhsInf]" and "useabsfeas num" and "0 \<le> rv"
    and "0 \<le> feastol num"
  shows "row_value (row_coeffs p ! i) sol - rhs_values p ! i
      \<le> max (feastol num) (row_violation_step num p sol rv i)"
    and "\<not> flags_test (row_flags p ! i) [kLhsInf] \<Longrightarrow> lhs_values p ! i \<le> rhs_values p ! i \<Longrightarrow>
      lhs_values p ! i - row_value (row_coeffs p ! i) sol
      \<le> max (feastol num) (row_violation_step num p sol rv i)"
proof -
  have act: "stable_sum 0 (map (\<lambda>(c, v). sol ! c * v) (row_coeffs p ! i)) = row_value (row_coeffs p ! i) sol"
    by (simp add: stable_sum_eq row_value_def mult.commute)
  show "row_value (row_coeffs p ! i) sol - rhs_values p ! i
      \<le> max (feastol num) (row_violation_step num p sol rv i)"
    using assms unfolding row_violation_step_def act Let_def
    by (auto simp: num_max_eq isFeasGT_def isFeasAbsGT_def)
  show "\<not> flags_test (row_flags p ! i) [kLhsInf] \<Longrightarrow> lhs_values p ! i \<le> rhs_values p ! i \<Longrightarrow>
      lhs_values p ! i - row_value (row_coeffs p ! i) sol
      \<le> max (feastol num) (row_violation_step num p sol rv i)"
    using assms unfolding row_violation_step_def act Let_def
    by (auto simp: num_max_eq isFeasLT_def isFeasAbsLT_def)
qed

lemma row_violation_bounds:
  assumes "useabsfeas num" and "0 \<le> feastol num" and "i < n"
    and "\<not> flags_test (row_flags p ! i) [kRhsInf]"
  shows "row_value (row_coeffs p ! i) sol - rhs_values p ! i
      \<le> max (feastol num) (foldl (row_violation_step num p sol) 0 [0..<n])"
    and "\<not> flags_test (row_flags p ! i) [kLhsInf] \<Longrightarrow> lhs_values p ! i \<le> rhs_values p ! i \<Longrightarrow>
      lhs_values p ! i - row_value (row_coeffs p ! i) sol
      \<le> max (feastol num) (foldl (row_violation_step num p sol) 0 [0..<n])"
proof -
  have nonneg: "0 \<le> foldl (row_violation_step num p sol) 0 [0..<m]" for m
    by (induction m) (auto intro: order_trans row_violation_mono)
  have mono: "foldl (row_violation_step num p sol) 0 [0..<Suc i]
      \<le> foldl (row_violation_step num p sol) 0 [0..<n]" using assms(3)
    by (induction n) (auto simp: less_Suc_eq intro: order_trans row_violation_mono)
  have "foldl (row_violation_step num p sol) 0 [0..<Suc i] =
      row_violation_step num p sol (foldl (row_violation_step num p sol) 0 [0..<i]) i" by simp
  with mono row_violation_at [OF assms(4,1) nonneg assms(2), of sol i]
  show "row_value (row_coeffs p ! i) sol - rhs_values p ! i
      \<le> max (feastol num) (foldl (row_violation_step num p sol) 0 [0..<n])"
    and "\<not> flags_test (row_flags p ! i) [kLhsInf] \<Longrightarrow> lhs_values p ! i \<le> rhs_values p ! i \<Longrightarrow>
      lhs_values p ! i - row_value (row_coeffs p ! i) sol
      \<le> max (feastol num) (foldl (row_violation_step num p sol) 0 [0..<n])"
    by fastforce+
qed

text \<open>
  A solution \<open>computeSolViolations\<close> accepts respects, up to the feasibility tolerance, all bounds,
  the integrality of the integral columns and both sides of every row with a finite right hand side.
\<close>

lemma computeSolViolations_sound:
  assumes "num_ok num" and "useabsfeas num" and "computeSolViolations num p sol old = (True, bv, rv, iv)"
  shows "length sol = getNCols p \<and>
    (\<forall>i<getNCols p.
      (\<not> flags_test (prob_cflags p ! i) [kLbInf] \<longrightarrow> prob_lbs p ! i - feastol num \<le> sol ! i) \<and>
      (\<not> flags_test (prob_cflags p ! i) [kUbInf] \<longrightarrow> sol ! i \<le> prob_ubs p ! i + feastol num) \<and>
      (flags_test (prob_cflags p ! i) [kIntegral] \<longrightarrow> \<bar>num_round (sol ! i) - sol ! i\<bar> \<le> feastol num)) \<and>
    (\<forall>r<getNRows p. \<not> flags_test (row_flags p ! r) [kRhsInf] \<longrightarrow>
      row_value (row_coeffs p ! r) sol \<le> rhs_values p ! r + feastol num \<and>
      (\<not> flags_test (row_flags p ! r) [kLhsInf] \<and> lhs_values p ! r \<le> rhs_values p ! r \<longrightarrow>
        lhs_values p ! r - feastol num \<le> row_value (row_coeffs p ! r) sol))"
proof -
  have tol: "0 \<le> feastol num" using assms(1) by (simp add: num_ok_def)
  obtain b i where fold: "foldl (bound_violation_step (prob_domains p) sol) (0, 0) [0..<getNCols p] = (b, i)"
    by fastforce
  let ?rv = "foldl (row_violation_step num p sol) 0 [0..<getNRows p]"
  have len: "length sol = getNCols p" and z: "isFeasZero num b" "isFeasZero num i" "isFeasZero num ?rv"
    using assms(3) fold by (auto simp: computeSolViolations_def Let_def split: if_splits)
  then have le: "b \<le> feastol num" "i \<le> feastol num" "max (feastol num) ?rv \<le> feastol num"
    by (auto simp: isFeasZero_def)
  have cols: "\<forall>c<getNCols p.
      (\<not> flags_test (prob_cflags p ! c) [kLbInf] \<longrightarrow> prob_lbs p ! c - feastol num \<le> sol ! c) \<and>
      (\<not> flags_test (prob_cflags p ! c) [kUbInf] \<longrightarrow> sol ! c \<le> prob_ubs p ! c + feastol num) \<and>
      (flags_test (prob_cflags p ! c) [kIntegral] \<longrightarrow> \<bar>num_round (sol ! c) - sol ! c\<bar> \<le> feastol num)"
    using bound_violation_bounds [OF fold] le(1,2) by fastforce
  have rows: "row_value (row_coeffs p ! r) sol \<le> rhs_values p ! r + feastol num \<and>
      (\<not> flags_test (row_flags p ! r) [kLhsInf] \<and> lhs_values p ! r \<le> rhs_values p ! r \<longrightarrow>
        lhs_values p ! r - feastol num \<le> row_value (row_coeffs p ! r) sol)"
    if "r < getNRows p" "\<not> flags_test (row_flags p ! r) [kRhsInf]" for r
    using row_violation_bounds [OF assms(2) tol that, of sol] le(3) by fastforce
  show ?thesis using len cols rows by blast
qed

text \<open>A problem for the witnesses: \<open>x + 2 y \<ge> 5\<close> over two integral columns in \<open>[0, 10]\<close>.\<close>

definition ex_problem :: problem where
  "ex_problem = \<lparr>obj_coeffs = [1, 1], obj_offset = 0, row_coeffs = [[(0, 1), (1, 2)]],
     col_coeffs = [[(0, 1)], [(0, 2)]], lhs_values = [5], rhs_values = [0], row_flags = [kRhsInf],
     rowsize = [2], colsize = [1, 1],
     prob_domains = \<lparr>lower_bounds = [0, 0], upper_bounds = [10, 10], col_flags = [kIntegral, kIntegral]\<rparr>,
     row_activities = [\<lparr>act_min = 0, act_max = 30, ninfmin = 0, ninfmax = 0, lastchange = -1\<rparr>],
     col_locks = []\<rparr>"

lemma bound_violation_none:
  assumes "in_domains domains sol" and "integral_point domains sol"
  shows "n \<le> length (col_flags domains) \<Longrightarrow> foldl (bound_violation_step domains sol) (0, 0) [0..<n] = (0, 0)"
proof (induction n)
  case (Suc n)
  then have n: "n < length (col_flags domains)" by simp
  have "in_col_domain domains n (sol ! n)" using assms(1) n by (simp add: in_domains_def)
  moreover have "num_round (sol ! n) = sol ! n" if "flags_test (col_flags domains ! n) [kIntegral]"
  proof -
    have "flags_test (col_flags domains ! n) [kIntegral, kImplInt]" using that by (simp add: flag_simps)
    then obtain k where k: "sol ! n = of_int k" using assms(2) n by (auto simp: integral_point_def Ints_def)
    have "\<lfloor>rat_of_int k + 1 / 2\<rfloor> = k" by (simp add: floor_eq_iff)
    then show ?thesis by (simp add: k num_round_eq del: floor_add2)
  qed
  ultimately show ?case using Suc by (auto simp: bound_violation_step_def in_col_domain_def Let_def num_max_eq)
qed simp

lemma row_violation_none:
  assumes "\<And>i. i < n \<Longrightarrow> row_violation_step num p sol 0 i = 0"
  shows "foldl (row_violation_step num p sol) 0 [0..<n] = 0"
  using assms by (induction n) simp_all

text \<open>
  C37. The check of the left hand side compares the activity with the right hand side. A point within the
  bounds that violates the left hand side of one row, by any amount, and satisfies all other rows is
  accepted with violation 0 whenever the right hand side of that row is infinite and the number stored
  for it is not above the activity.
\<close>

theorem computeSolViolations_misses_lhs:
  assumes "num_ok num" and "length sol = getNCols p" and "length (prob_cflags p) = getNCols p"
    and "in_domains (prob_domains p) sol" and "integral_point (prob_domains p) sol"
    and "\<forall>i<getNRows p. i \<noteq> r \<longrightarrow>
      satisfies_row (row_flags p ! i) (lhs_values p ! i) (rhs_values p ! i) (row_value (row_coeffs p ! i) sol)"
    and "r < getNRows p" and "flags_test (row_flags p ! r) [kRhsInf]" and "\<not> flags_test (row_flags p ! r) [kLhsInf]"
    and "rhs_values p ! r \<le> row_value (row_coeffs p ! r) sol" and "row_value (row_coeffs p ! r) sol < lhs_values p ! r"
  shows "computeSolViolations num p sol old = (True, 0, 0, 0) \<and> \<not> feasible p sol"
proof -
  have act: "stable_sum 0 (map (\<lambda>(c, v). sol ! c * v) (row_coeffs p ! i)) = row_value (row_coeffs p ! i) sol" for i
    by (simp add: stable_sum_eq row_value_def mult.commute)
  have other: "row_violation_step num p sol 0 i = 0" if "i < getNRows p" "i \<noteq> r" for i
  proof -
    have "satisfies_row (row_flags p ! i) (lhs_values p ! i) (rhs_values p ! i) (row_value (row_coeffs p ! i) sol)"
      using assms(6) that by blast
    then show ?thesis
      using feas.gt_greater [OF assms(1)]
      by (fastforce simp: row_violation_step_def act Let_def num_max_eq satisfies_row_def)
  qed
  have mine: "row_violation_step num p sol 0 r = 0"
    using assms(8,10) feas.lt_less [OF assms(1)] by (fastforce simp: row_violation_step_def act Let_def)
  have "foldl (row_violation_step num p sol) 0 [0..<getNRows p] = 0"
    by (rule row_violation_none) (metis other mine)
  moreover have "isFeasZero num 0" using assms(1) by (simp add: isFeasZero_def num_ok_def)
  moreover have "\<not> satisfies_row (row_flags p ! r) (lhs_values p ! r) (rhs_values p ! r) (row_value (row_coeffs p ! r) sol)"
    using assms(9,11) by (auto simp: satisfies_row_def)
  ultimately show ?thesis
    using bound_violation_none [OF assms(4,5), of "getNCols p"] assms(2,3,7)
    by (auto simp: computeSolViolations_def feasible_def rows_satisfied_def)
qed

theorem computeSolViolations_misses_lhs_witness:
  "computeSolViolations default_num ex_problem [1, 1] (0, 0, 0) = (True, 0, 0, 0) \<and> \<not> feasible ex_problem [1, 1]"
proof -
  have "num_ok default_num" by code_simp
  moreover have "length [1 :: rat, 1] = getNCols ex_problem" "length (prob_cflags ex_problem) = getNCols ex_problem" by code_simp+
  moreover have "in_domains (prob_domains ex_problem) [1, 1]"
    by (auto simp: ex_problem_def in_domains_def in_col_domain_def less_Suc_eq)
  moreover have "integral_point (prob_domains ex_problem) [1, 1]"
    by (auto simp: ex_problem_def integral_point_def less_Suc_eq)
  moreover have n: "getNRows ex_problem = 1" and r: "0 < getNRows ex_problem" by code_simp+
  moreover have "\<forall>i<getNRows ex_problem. i \<noteq> 0 \<longrightarrow>
      satisfies_row (row_flags ex_problem ! i) (lhs_values ex_problem ! i) (rhs_values ex_problem ! i)
        (row_value (row_coeffs ex_problem ! i) [1, 1])" by (simp add: n)
  moreover have "flags_test (row_flags ex_problem ! 0) [kRhsInf]" "\<not> flags_test (row_flags ex_problem ! 0) [kLhsInf]"
    "rhs_values ex_problem ! 0 \<le> row_value (row_coeffs ex_problem ! 0) [1, 1]"
    "row_value (row_coeffs ex_problem ! 0) [1, 1] < lhs_values ex_problem ! 0" by code_simp+
  ultimately show ?thesis by (intro computeSolViolations_misses_lhs)
qed

section \<open>The implied bounds may go\<close>

definition no_huge :: "flags list \<Rightarrow> bool" where
  "no_huge cflags \<longleftrightarrow> (\<forall>f \<in> set cflags.
     (flags_test f [kLbHuge] \<longrightarrow> flags_test f [kLbInf]) \<and> (flags_test f [kUbHuge] \<longrightarrow> flags_test f [kUbInf]))"

abbreviation with_cflags :: "problem \<Rightarrow> flags list \<Rightarrow> variable_domains" where
  "with_cflags p cflags \<equiv> (prob_domains p)\<lparr>col_flags := cflags\<rparr>"

lemma set_inf_tests:
  "flags_test (flags_set [kLbInf] f) [kLbInf]"
  "flags_test (flags_set [kUbInf] f) [kUbInf]"
  "flags_test (flags_set [kLbInf] f) [kUbInf] = flags_test f [kUbInf]"
  "flags_test (flags_set [kUbInf] f) [kLbInf] = flags_test f [kLbInf]"
  "flags_test (flags_set [kLbInf] f) [kUbHuge] = flags_test f [kUbHuge]"
  "flags_test (flags_set [kUbInf] f) [kLbHuge] = flags_test f [kLbHuge]"
  by (simp_all add: flags_test_set flag_defs)

lemma redundant_scan_LB:
  "flags_test (redundant_scan num p cflags acts col es colf) [kLbInf] \<Longrightarrow>
   flags_test colf [kLbInf] \<or>
   (\<exists>(r, v) \<in> set es. row_implies_LB num (lhs_values p ! r) (rhs_values p ! r) (row_flags p ! r) (acts ! r)
      v (prob_lbs p ! col) (prob_ubs p ! col) (cflags ! col))"
  by (induction num p cflags acts col es colf rule: redundant_scan.induct)
    (auto simp: Let_def set_inf_tests split: if_splits)

lemma redundant_scan_UB:
  "flags_test (redundant_scan num p cflags acts col es colf) [kUbInf] \<Longrightarrow>
   flags_test colf [kUbInf] \<or>
   (\<exists>(r, v) \<in> set es. row_implies_UB num (lhs_values p ! r) (rhs_values p ! r) (row_flags p ! r) (acts ! r)
      v (prob_lbs p ! col) (prob_ubs p ! col) (cflags ! col))"
  by (induction num p cflags acts col es colf rule: redundant_scan.induct)
    (auto simp: Let_def set_inf_tests split: if_splits)

lemma drop_bound_invariant:
  assumes "problem_ok p" and "all_tracked (with_cflags p cflags) (row_coeffs p) acts" and "no_huge cflags"
    and "length cflags = getNCols p" and "col < getNCols p"
    and "drop_bound p type col (cflags, acts, n) = (cflags', acts', n')"
  shows "all_tracked (with_cflags p cflags') (row_coeffs p) acts' \<and> no_huge cflags' \<and>
    length cflags' = getNCols p \<and> (\<forall>j. j \<noteq> col \<longrightarrow> cflags' ! j = cflags ! j) \<and>
    flags_test (cflags' ! col) [kLbInf] = (type = kLower \<or> flags_test (cflags ! col) [kLbInf]) \<and>
    flags_test (cflags' ! col) [kUbInf] = (type = kUpper \<or> flags_test (cflags ! col) [kUbInf])"
proof (cases "flags_test (cflags ! col) [case type of kLower \<Rightarrow> kLbInf | kUpper \<Rightarrow> kUbInf]")
  case True
  with assms show ?thesis by (auto simp: drop_bound_def split: BoundChange.splits)
next
  case False
  let ?D = "with_cflags p cflags"
  have eqs: "cflags' = cflags[col := flags_set [case type of kLower \<Rightarrow> kLbInf | kUpper \<Rightarrow> kUbInf] (cflags ! col)]"
    "acts' = update_activities_remove_finite_bound (col_coeffs p ! col) type (old_bound type ?D col) acts"
    using assms(6) False by (auto simp: drop_bound_def old_bound_def split: BoundChange.splits)
  have dom: "without_bound type col ?D = with_cflags p cflags'"
    by (simp add: without_bound_def eqs(1))
  have "cflags ! col \<in> set cflags" using assms(4,5) by simp
  then have "\<not> bound_useless type ?D col"
    using False assms(3) by (auto simp: bound_useless_def no_huge_def flag_simps split: BoundChange.splits)
  moreover have "col_of_matrix (row_coeffs p) col (col_coeffs p ! col)" "col_ok ?D col"
    using assms(1,4,5) by (auto simp: problem_ok_def matrix_ok_def col_ok_def)
  ultimately have "all_tracked (with_cflags p cflags') (row_coeffs p) acts'"
    using remove_bound_all_tracked [OF assms(2), of col "col_coeffs p ! col" type] by (simp add: dom eqs(2))
  moreover have "no_huge cflags'"
    using assms(3) \<open>cflags ! col \<in> set cflags\<close>
    unfolding no_huge_def eqs(1)
    by (cases type) (auto dest!: subsetD [OF set_update_subset_insert] simp: set_inf_tests)
  ultimately show ?thesis
    using assms(4,5) by (cases type) (simp_all add: eqs(1) set_inf_tests)
qed

text \<open>The loop invariant: the activities are those of the weaker domain, and no feasible point was gained.\<close>

definition removal_inv :: "problem \<Rightarrow> rat list \<Rightarrow> flags list \<times> RowActivity list \<times> int \<times> int \<Rightarrow> bool" where
  "removal_inv p x st = (case st of (cflags, acts, _, _) \<Rightarrow>
     all_tracked (with_cflags p cflags) (row_coeffs p) acts \<and> no_huge cflags \<and>
     length cflags = getNCols p \<and>
     (in_domains (with_cflags p cflags) x \<longleftrightarrow> in_domains (prob_domains p) x))"

lemma in_domains_without_col:
  assumes "length cflags' = length cflags" and "\<forall>j. j \<noteq> col \<longrightarrow> cflags' ! j = cflags ! j"
    and "flags_test (cflags' ! col) [kLbInf]" and "flags_test (cflags' ! col) [kUbInf]"
  shows "in_domains (with_cflags p cflags') x \<longleftrightarrow>
    (\<forall>c<length cflags. c \<noteq> col \<longrightarrow> in_col_domain (with_cflags p cflags) c (x ! c))"
proof -
  have "in_col_domain (with_cflags p cflags') c (x ! c) \<longleftrightarrow>
      (c \<noteq> col \<longrightarrow> in_col_domain (with_cflags p cflags) c (x ! c))" for c
    using assms(2-4) by (cases "c = col") (auto simp: in_col_domain_def)
  then show ?thesis using assms(1) by (simp add: in_domains_def)
qed

lemma implied_bounds_at:
  assumes "problem_ok p" and "useabsfeas num" and "feastol num = 0" and "rows_satisfied p x"
    and "all_tracked (with_cflags p cflags) (row_coeffs p) acts" and "length cflags = getNCols p"
    and "col < getNCols p"
    and "\<forall>c<length cflags. c \<noteq> col \<longrightarrow> in_col_domain (with_cflags p cflags) c (x ! c)"
    and "flags_test (redundant_scan num p cflags acts col (col_coeffs p ! col) (cflags ! col)) [kLbInf]"
    and "flags_test (redundant_scan num p cflags acts col (col_coeffs p ! col) (cflags ! col)) [kUbInf]"
  shows "in_col_domain (with_cflags p cflags) col (x ! col)"
proof -
  let ?D = "with_cflags p cflags"
  have row: "useabsfeas num \<and> tracks ?D (row_coeffs p ! r) (acts ! r) \<and> distinct_cols (row_coeffs p ! r) \<and>
      (col, v) \<in> set (row_coeffs p ! r) \<and> row_in_domain ?D (rest_of_row col (row_coeffs p ! r)) x \<and>
      satisfies_row (row_flags p ! r) (lhs_values p ! r) (rhs_values p ! r) (row_value (row_coeffs p ! r) x)"
    if "(r, v) \<in> set (col_coeffs p ! col)" for r v
  proof -
    have r: "r < length (row_coeffs p)" "(col, v) \<in> set (row_coeffs p ! r)"
      using that assms(1,7) col_of_matrixD by (auto simp: problem_ok_def matrix_ok_def)
    then have "\<forall>(c, v) \<in> set (row_coeffs p ! r). c < getNCols p"
      using assms(1) by (fastforce simp: problem_ok_def matrix_ok_def)
    then have "row_in_domain ?D (rest_of_row col (row_coeffs p ! r)) x"
      using assms(6,8) by (auto simp: row_in_domain_def rest_of_row_def list_all_iff)
    with r assms(2,4,5) show ?thesis
      by (auto simp: all_tracked_def rows_satisfied_def getNRows_def)
  qed
  note imp = row_implies_bounds [of num ?D, simplified]
  have "flags_test (cflags ! col) [kLbInf] \<or> prob_lbs p ! col \<le> x ! col"
    using redundant_scan_LB [OF assms(9)] row imp(1) assms(3) by fastforce
  moreover have "flags_test (cflags ! col) [kUbInf] \<or> x ! col \<le> prob_ubs p ! col"
    using redundant_scan_UB [OF assms(10)] row imp assms(3) by fastforce
  ultimately show ?thesis by (simp add: in_col_domain_def)
qed

lemma remove_bounds_of_col_inv:
  assumes "problem_ok p" and "useabsfeas num" and "feastol num = 0" and "rows_satisfied p x"
    and "col < getNCols p" and "removal_inv p x st"
  shows "removal_inv p x (remove_bounds_of_col num p st col)"
proof -
  obtain cflags acts n f where st: "st = (cflags, acts, n, f)" by (cases st)
  from assms(6) have I: "all_tracked (with_cflags p cflags) (row_coeffs p) acts" "no_huge cflags"
    "length cflags = getNCols p" "in_domains (with_cflags p cflags) x \<longleftrightarrow> in_domains (prob_domains p) x"
    by (simp_all add: st removal_inv_def)
  let ?colf = "redundant_scan num p cflags acts col (col_coeffs p ! col) (cflags ! col)"
  show ?thesis
  proof (cases "\<not> (flags_test (cflags ! col) [kInactive] \<or> \<not> flags_test (cflags ! col) [kUnbounded]) \<and>
      flags_test ?colf [kLbInf] \<and> flags_test ?colf [kUbInf]")
    case False
    with assms(6) show ?thesis by (auto simp: remove_bounds_of_col_def st Let_def)
  next
    case True
    obtain c1 a1 n1 where d1: "drop_bound p kLower col (cflags, acts, n) = (c1, a1, n1)"
      by (cases "drop_bound p kLower col (cflags, acts, n)")
    obtain c2 a2 n2 where d2: "drop_bound p kUpper col (c1, a1, n1) = (c2, a2, n2)"
      by (cases "drop_bound p kUpper col (c1, a1, n1)")
    note s1 = drop_bound_invariant [OF assms(1) I(1-3) assms(5) d1]
    then have s2: "all_tracked (with_cflags p c2) (row_coeffs p) a2 \<and> no_huge c2 \<and> length c2 = getNCols p \<and>
      (\<forall>j. j \<noteq> col \<longrightarrow> c2 ! j = c1 ! j) \<and>
      flags_test (c2 ! col) [kLbInf] = flags_test (c1 ! col) [kLbInf] \<and> flags_test (c2 ! col) [kUbInf]"
      using drop_bound_invariant [OF assms(1) _ _ _ assms(5) d2] by simp
    have "in_domains (with_cflags p c2) x \<longleftrightarrow>
        (\<forall>c<length cflags. c \<noteq> col \<longrightarrow> in_col_domain (with_cflags p cflags) c (x ! c))"
      using s1 s2 I(3) by (intro in_domains_without_col) auto
    also have "\<dots> \<longleftrightarrow> in_domains (with_cflags p cflags) x"
      using implied_bounds_at [OF assms(1-4) I(1,3) assms(5)] True by (auto simp: in_domains_def)
    finally have "removal_inv p x (c2, a2, n2, if n \<noteq> n2 then f + 1 else f)"
      using s2 I(4) by (simp add: removal_inv_def)
    with True d1 d2 show ?thesis by (simp add: remove_bounds_of_col_def st Let_def)
  qed
qed

lemma removal_order_range: "c \<in> set (removal_order p) \<Longrightarrow> c < getNCols p"
  by (auto simp: removal_order_def)

text \<open>
  C24. \<open>removeRedundantBounds\<close> removes only implied bounds: in exact arithmetic, and when no bound is
  flagged as huge, the points that satisfy the rows are in the weakened domain exactly when they are
  in the original one, and the activities it leaves are those of the weakened domain.
\<close>

theorem removeRedundantBounds_equivalent:
  assumes "problem_ok p" and "useabsfeas num" and "feastol num = 0" and "no_huge (prob_cflags p)"
    and "removeRedundantBounds num p (prob_cflags p) (row_activities p) = (cflags, acts, nremoved, nfree)"
    and "rows_satisfied p x"
  shows "all_tracked (with_cflags p cflags) (row_coeffs p) acts \<and>
    (in_domains (with_cflags p cflags) x \<longleftrightarrow> in_domains (prob_domains p) x)"
proof -
  have "removal_inv p x (prob_cflags p, row_activities p, 0, 0)"
    using assms(1,4) by (simp add: removal_inv_def problem_ok_def)
  then have "removal_inv p x (removeRedundantBounds num p (prob_cflags p) (row_activities p))"
    unfolding removeRedundantBounds_def
    by (rule foldl_invariant) (blast intro: remove_bounds_of_col_inv [OF assms(1-3,6)] removal_order_range)
  then show ?thesis by (simp add: assms(5) removal_inv_def)
qed

text \<open>A row \<open>x \<ge> 3\<close> over a column with a huge lower bound.\<close>

definition ex_huge :: problem where
  "ex_huge = \<lparr>obj_coeffs = [1], obj_offset = 0, row_coeffs = [[(0, 1)]], col_coeffs = [[(0, 1)]],
     lhs_values = [3], rhs_values = [0], row_flags = [kRhsInf], rowsize = [1], colsize = [1],
     prob_domains = \<lparr>lower_bounds = [- 1000000000], upper_bounds = [0], col_flags = [kLbHuge OR kUbInf]\<rparr>,
     row_activities = [\<lparr>act_min = 0, act_max = 0, ninfmin = 1, ninfmax = 1, lastchange = -1\<rparr>],
     col_locks = []\<rparr>"

text \<open>
  A bound flagged as huge does not contribute to the activity, yet \<open>removeRedundantBounds\<close>
  subtracts its contribution and counts it as infinite once more.
\<close>

lemma removeRedundantBounds_huge_twice:
  "all_tracked (prob_domains ex_huge) (row_coeffs ex_huge) (row_activities ex_huge) \<and>
   (case removeRedundantBounds exact_num ex_huge (prob_cflags ex_huge) (row_activities ex_huge) of
      (cflags, acts, _) \<Rightarrow> ninfmin (acts ! 0) = 2 \<and>
        \<not> all_tracked (with_cflags ex_huge cflags) (row_coeffs ex_huge) acts)"
proof
  show "all_tracked (prob_domains ex_huge) (row_coeffs ex_huge) (row_activities ex_huge)" by code_simp
  show "case removeRedundantBounds exact_num ex_huge (prob_cflags ex_huge) (row_activities ex_huge) of
      (cflags, acts, _) \<Rightarrow> ninfmin (acts ! 0) = 2 \<and>
        \<not> all_tracked (with_cflags ex_huge cflags) (row_coeffs ex_huge) acts" by code_simp
qed

text \<open>\<open>x \<ge> 3\<close> is a row, so that the bound \<open>x \<ge> 1\<close> is implied and is removed.\<close>

definition ex_implied :: problem where
  "ex_implied = ex_huge\<lparr>prob_domains := \<lparr>lower_bounds = [1], upper_bounds = [0], col_flags = [kUbInf]\<rparr>,
     row_activities := [\<lparr>act_min = 1, act_max = 0, ninfmin = 0, ninfmax = 1, lastchange = -1\<rparr>]\<rparr>"

theorem removeRedundantBounds_equivalent_witness:
  "fst (removeRedundantBounds exact_num ex_implied (prob_cflags ex_implied) (row_activities ex_implied)) =
     [kUbInf OR kLbInf] \<and>
   (in_domains (with_cflags ex_implied [kUbInf OR kLbInf]) [4] \<longleftrightarrow> in_domains (prob_domains ex_implied) [4])"
proof -
  have ok: "problem_ok ex_implied"
    by (auto simp: problem_ok_def matrix_ok_def ex_implied_def ex_huge_def getNCols_def getNRows_def
        col_of_matrix_def all_tracked_def tracks_def part_defs flags_test_def flag_defs)
  have run: "removeRedundantBounds exact_num ex_implied (prob_cflags ex_implied) (row_activities ex_implied) =
      ([kUbInf OR kLbInf], [\<lparr>act_min = 0, act_max = 0, ninfmin = 1, ninfmax = 1, lastchange = -1\<rparr>], 1, 1)"
    by code_simp
  have "no_huge (prob_cflags ex_implied)" "rows_satisfied ex_implied [4]"
    "useabsfeas exact_num" "feastol exact_num = 0" by code_simp+
  from removeRedundantBounds_equivalent [OF ok this(3,4,1) run this(2)] run show ?thesis by simp
qed

section \<open>Cliques\<close>

definition binary_col :: "Num \<Rightarrow> variable_domains \<Rightarrow> nat \<Rightarrow> bool" where
  "binary_col num domains c \<longleftrightarrow> flags_test (col_flags domains ! c) [kIntegral] \<and>
     isEq num 0 (lower_bounds domains ! c) \<and> isEq num (upper_bounds domains ! c) 1"

lemma clique_scan_rhs:
  assumes "0 \<le> epsilon num" and "epsilon num < 1 / 2"
    and "clique_scan num domains lhs rhs es True False minv maxv = Some res"
  shows "res = (True, False) \<and>
    (\<forall>(c, v) \<in> set es. 0 < v \<and> binary_col num domains c \<and> isGT num (minv + v) rhs) \<and>
    sorted_wrt (\<lambda>e f. rhs < snd e + snd f) es"
  using assms(3)
proof (induction es arbitrary: minv)
  case Nil
  then show ?case by simp
next
  case (Cons e es)
  obtain c v where e: "e = (c, v)" by (cases e)
  let ?minv = "if isLT num \<bar>v\<bar> minv then \<bar>v\<bar> else minv"
  have run: "clique_scan num domains lhs rhs es True False ?minv maxv = Some res"
    and here: "isGT num (minv + \<bar>v\<bar>) rhs" "binary_col num domains c" "0 < v"
    using Cons.prems assms(1,2)
    by (auto simp: e Let_def binary_col_def isEq_def isLT_def isGT_def split: if_splits)
  note IH = Cons.IH [OF run]
  have "isGT num (minv + w) rhs \<and> rhs < v + w" if "(d, w) \<in> set es" for d w
  proof -
    have "isGT num (?minv + w) rhs" using IH that by auto
    with here(3) assms(1) show ?thesis by (auto simp: isGT_def isLT_def split: if_splits)
  qed
  with IH here show ?case by (auto simp: e)
qed

lemma clique_scan_lhs:
  assumes "0 \<le> epsilon num" and "epsilon num < 1 / 2"
    and "clique_scan num domains lhs rhs es False True minv maxv = Some res"
  shows "res = (False, True) \<and>
    (\<forall>(c, v) \<in> set es. v < 0 \<and> binary_col num domains c \<and> isLT num (maxv + v) lhs) \<and>
    sorted_wrt (\<lambda>e f. snd e + snd f < lhs) es"
  using assms(3)
proof (induction es arbitrary: maxv)
  case Nil
  then show ?case by simp
next
  case (Cons e es)
  obtain c v where e: "e = (c, v)" by (cases e)
  let ?maxv = "if isGT num (- \<bar>v\<bar>) maxv then - \<bar>v\<bar> else maxv"
  have run: "clique_scan num domains lhs rhs es False True minv ?maxv = Some res"
    and here: "isLT num (maxv - \<bar>v\<bar>) lhs" "binary_col num domains c" "v < 0"
    using Cons.prems assms(1,2)
    by (auto simp: e Let_def binary_col_def isEq_def isLT_def isGT_def split: if_splits)
  note IH = Cons.IH [OF run]
  have "isLT num (maxv + w) lhs \<and> v + w < lhs" if "(d, w) \<in> set es" for d w
  proof -
    have "isLT num (?maxv + w) lhs" using IH that by auto
    with here(3) assms(1) show ?thesis by (auto simp: isGT_def isLT_def split: if_splits)
  qed
  with IH here show ?case by (auto simp: e)
qed

lemma binary_values:
  assumes "epsilon num < 1" and "binary_col num domains c" and "in_col_domain domains c v" and "v \<in> \<int>"
    and "\<not> flags_test (col_flags domains ! c) [kLbInf, kUbInf]"
  shows "v = 0 \<or> v = 1"
proof -
  have "- 1 < v" "v < 2"
    using assms(1,2,3,5) by (auto simp: binary_col_def isEq_def in_col_domain_def flags_test_Cons)
  moreover obtain k where "v = of_int k" using assms(4) by (elim Ints_cases)
  ultimately have "k = 0 \<or> k = 1" by (simp flip: of_int_minus) linarith
  with \<open>v = of_int k\<close> show ?thesis by auto
qed

lemma row_value_two:
  assumes "distinct_cols row" and "(c, v) \<in> set row" and "(d, w) \<in> set row" and "c \<noteq> d"
    and "\<forall>(e, u) \<in> set row. 0 \<le> s * (u * x ! e)"
  shows "s * (v * x ! c) + s * (w * x ! d) \<le> s * row_value row x"
proof -
  let ?r1 = "rest_of_row c row"
  have r1: "distinct_cols ?r1" "(d, w) \<in> set ?r1"
    using assms(1,3,4) by (auto simp: rest_of_row_def distinct_map_filter)
  have "0 \<le> sum_list (map (\<lambda>(e, u). s * (u * x ! e)) (rest_of_row d ?r1))"
    using assms(5) by (intro sum_list_nonneg) (auto simp: rest_of_row_def)
  moreover have "sum_list (map (\<lambda>(e, u). s * (u * x ! e)) es) = s * row_value es x" for es
    by (induction es) (auto simp: row_value_def algebra_simps)
  ultimately have "0 \<le> s * row_value (rest_of_row d ?r1) x" by simp
  then show ?thesis
    using row_value_split [OF assms(1,2), of x] row_value_split [OF r1, of x] by (simp add: algebra_simps)
qed

lemma sorted_wrt_pair:
  assumes "sorted_wrt R es" and "e \<in> set es" and "f \<in> set es" and "e \<noteq> f" and "\<And>a b. R a b = R b a"
  shows "R e f"
proof -
  have "R e f \<or> R f e" using assms(1-4) by (induction es) auto
  with assms(5) show ?thesis by blast
qed

lemma clique_scan_modes:
  assumes "clique_scan num domains lhs rhs (e # es) rc lc infinity minf = Some (rc', lc')"
  shows "rc \<and> clique_scan num domains lhs rhs (e # es) True False infinity minf = Some (rc', lc') \<or>
    lc \<and> clique_scan num domains lhs rhs (e # es) False True infinity minf = Some (rc', lc')"
  using assms by (cases e) (auto simp: Let_def split: if_splits)

text \<open>
  C27. A row that \<open>is_clique\<close> accepts is a clique of binary columns: at a feasible point at most one
  of its columns is not zero, and that one is one, provided the bounds of its columns are not
  flagged infinite.
\<close>

theorem is_clique_sound:
  assumes "problem_ok p" and "num_ok num" and "epsilon num < 1 / 2" and "is_clique num infinity p row"
    and "row < getNRows p" and "feasible p x"
    and "\<forall>(c, v) \<in> set (row_coeffs p ! row). \<not> flags_test (prob_cflags p ! c) [kLbInf, kUbInf]"
    and "(c, v) \<in> set (row_coeffs p ! row)" and "(d, w) \<in> set (row_coeffs p ! row)" and "c \<noteq> d"
  shows "(x ! c = 0 \<or> x ! d = 0) \<and> (x ! c = 0 \<or> x ! c = 1)"
proof -
  let ?row = "row_coeffs p ! row" and ?D = "prob_domains p"
  let ?lhs = "lhs_values p ! row" and ?rhs = "rhs_values p ! row" and ?f = "row_flags p ! row"
  have eps: "0 \<le> epsilon num" using assms(2) by (simp add: num_ok_def)
  have "?row \<in> set (row_coeffs p)" using assms(5) by (simp add: getNRows_def)
  then have row: "distinct_cols ?row" "\<forall>(e, u) \<in> set ?row. e < getNCols p"
    using assms(1) unfolding problem_ok_def matrix_ok_def by blast+
  have sat: "satisfies_row ?f ?lhs ?rhs (row_value ?row x)"
    using assms(5,6) by (auto simp: feasible_def rows_satisfied_def)
  have ncols: "length (prob_cflags p) = getNCols p" using assms(1) by (simp add: problem_ok_def)
  have binary: "x ! e = 0 \<or> x ! e = 1" if "(e, u) \<in> set ?row" "binary_col num ?D e" for e u
  proof (rule binary_values [OF _ that(2)])
    have "e < getNCols p" using row(2) that(1) by auto
    then show "in_col_domain ?D e (x ! e)" "x ! e \<in> \<int>"
      using assms(6) ncols that(2)
      by (auto simp: feasible_def in_domains_def integral_point_def binary_col_def flags_test_Cons)
  qed (use assms(3,7) that(1) in auto)
  obtain e es where nonempty: "?row = e # es" using assms(8) by (cases ?row) auto
  obtain rc lc where scan: "clique_scan num ?D ?lhs ?rhs ?row (\<not> flags_test ?f [kRhsInf])
      (\<not> flags_test ?f [kLhsInf]) infinity (- infinity) = Some (rc, lc)"
    using assms(4) by (auto simp: is_clique_def Let_def split: if_splits option.splits)
  consider (rhs) "\<not> flags_test ?f [kRhsInf]"
      "clique_scan num ?D ?lhs ?rhs ?row True False infinity (- infinity) = Some (rc, lc)"
    | (lhs) "\<not> flags_test ?f [kLhsInf]"
      "clique_scan num ?D ?lhs ?rhs ?row False True infinity (- infinity) = Some (rc, lc)"
    using clique_scan_modes [OF scan [unfolded nonempty]] unfolding nonempty by blast
  then show ?thesis
  proof cases
    case rhs
    note pos = clique_scan_rhs [OF eps assms(3) rhs(2)]
    have bin: "x ! e = 0 \<or> x ! e = 1" "0 < u" if "(e, u) \<in> set ?row" for e u
      using binary [OF that] pos that by auto
    have "?rhs < v + w"
      using sorted_wrt_pair [of "\<lambda>e f. ?rhs < snd e + snd f", OF _ assms(8,9)] pos assms(10)
      by (auto simp: add.commute)
    moreover have "v * x ! c + w * x ! d \<le> row_value ?row x"
      using row_value_two [OF row(1) assms(8-10), of 1 x] bin by force
    moreover have "row_value ?row x \<le> ?rhs" using sat rhs(1) by (simp add: satisfies_row_def)
    ultimately show ?thesis using bin(1) [OF assms(8)] bin(1) [OF assms(9)] by auto
  next
    case lhs
    note neg = clique_scan_lhs [OF eps assms(3) lhs(2)]
    have bin: "x ! e = 0 \<or> x ! e = 1" "u < 0" if "(e, u) \<in> set ?row" for e u
      using binary [OF that] neg that by auto
    have "v + w < ?lhs"
      using sorted_wrt_pair [of "\<lambda>e f. snd e + snd f < ?lhs", OF _ assms(8,9)] neg assms(10)
      by (auto simp: add.commute)
    moreover have "row_value ?row x \<le> v * x ! c + w * x ! d"
      using row_value_two [OF row(1) assms(8-10), of "-1" x] bin by force
    moreover have "?lhs \<le> row_value ?row x" using sat lhs(1) by (simp add: satisfies_row_def)
    ultimately show ?thesis using bin(1) [OF assms(8)] bin(1) [OF assms(9)] by auto
  qed
qed

text \<open>\<open>x + y \<le> 1\<close> over binary columns.\<close>

definition ex_clique :: problem where
  "ex_clique = \<lparr>obj_coeffs = [1, 1], obj_offset = 0, row_coeffs = [[(0, 1), (1, 1)]],
     col_coeffs = [[(0, 1)], [(0, 1)]], lhs_values = [0], rhs_values = [1], row_flags = [kLhsInf],
     rowsize = [2], colsize = [1, 1],
     prob_domains = \<lparr>lower_bounds = [0, 0], upper_bounds = [1, 1], col_flags = [kIntegral, kIntegral]\<rparr>,
     row_activities = [\<lparr>act_min = 0, act_max = 2, ninfmin = 0, ninfmax = 0, lastchange = -1\<rparr>],
     col_locks = []\<rparr>"

theorem is_clique_sound_witness:
  "is_clique default_num (10 ^ 100) ex_clique 0 \<and> ([0, 1] ! 0 = (0::rat) \<or> [0, 1] ! 1 = (0::rat))"
proof -
  have ok: "problem_ok ex_clique"
    by (auto simp: problem_ok_def matrix_ok_def ex_clique_def getNCols_def getNRows_def
        col_of_matrix_def all_tracked_def tracks_def part_defs flags_test_def flag_defs less_Suc_eq)
  have num: "num_ok default_num" "epsilon default_num < 1 / 2" by code_simp+
  have cl: "is_clique default_num (10 ^ 100) ex_clique 0" by code_simp
  have feas: "feasible ex_clique [0, 1]"
    by (auto simp: feasible_def ex_clique_def getNCols_def getNRows_def rows_satisfied_def satisfies_row_def
        row_value_def in_domains_def in_col_domain_def integral_point_def less_Suc_eq)
  from is_clique_sound [OF ok num cl _ feas, of 0 1 1 1] cl show ?thesis
    by (simp add: ex_clique_def getNRows_def flags_test_def flag_defs)
qed

definition ex_clique_unbounded :: problem where
  "ex_clique_unbounded = ex_clique\<lparr>obj_coeffs := [1, 1, 1], row_coeffs := [[(0, 1), (1, 1), (2, 1)]],
     col_coeffs := [[(0, 1)], [(0, 1)], [(0, 1)]], rowsize := [3], colsize := [1, 1, 1],
     prob_domains := \<lparr>lower_bounds = [0, 0, 0], upper_bounds = [1, 1, 1],
       col_flags = [kIntegral, kIntegral, kIntegral OR kLbInf]\<rparr>\<rparr>"

text \<open>
  \<open>is_clique\<close> reads the bounds of a column without their infinity flags. A column that is
  unbounded below and stores the value zero for that bound passes for binary, and the accepted row
  is not a clique: two of its columns are one at a feasible point.
\<close>

lemma is_clique_ignores_infinity:
  "is_clique default_num (10 ^ 100) ex_clique_unbounded 0 \<and> feasible ex_clique_unbounded [1, 1, -1]"
proof
  show "is_clique default_num (10 ^ 100) ex_clique_unbounded 0" by code_simp
  show "feasible ex_clique_unbounded [1, 1, -1]"
    by (auto simp: feasible_def ex_clique_unbounded_def ex_clique_def getNCols_def getNRows_def
        rows_satisfied_def satisfies_row_def row_value_def in_domains_def in_col_domain_def
        integral_point_def less_Suc_eq flags_test_def flag_defs)
qed

section \<open>Locks\<close>

lemma column_locks_mono:
  "fst l \<le> fst (column_locks rflags col l) \<and> snd l \<le> snd (column_locks rflags col l)"
proof (induction col arbitrary: l)
  case (Cons e col)
  obtain r v where e: "e = (r, v)" by (cases e)
  have "fst l \<le> fst (count_locks v (rflags ! r) l) \<and> snd l \<le> snd (count_locks v (rflags ! r) l)"
    by (auto simp: count_locks_def split: prod.split)
  moreover note Cons.IH [of "count_locks v (rflags ! r) l"]
  ultimately show ?case by (auto simp: column_locks_def e)
qed (simp add: column_locks_def)

lemma column_locks_zero:
  assumes "(r, v) \<in> set col" and "v \<noteq> 0"
  shows "fst (column_locks rflags col (0, 0)) = 0 \<Longrightarrow>
      flags_test (rflags ! r) [if v < 0 then kRhsInf else kLhsInf]"
    and "snd (column_locks rflags col (0, 0)) = 0 \<Longrightarrow>
      flags_test (rflags ! r) [if v < 0 then kLhsInf else kRhsInf]"
proof -
  have gen: "(fst (column_locks rflags col l) \<le> 0 \<longrightarrow>
      flags_test (rflags ! r) [if v < 0 then kRhsInf else kLhsInf]) \<and>
    (snd (column_locks rflags col l) \<le> 0 \<longrightarrow>
      flags_test (rflags ! r) [if v < 0 then kLhsInf else kRhsInf])" if "0 \<le> fst l" "0 \<le> snd l" for l
    using assms(1) that
  proof (induction col arbitrary: l)
    case (Cons e col)
    let ?l = "count_locks (snd e) (rflags ! fst e) l"
    have eq: "column_locks rflags (e # col) l = column_locks rflags col ?l"
      by (cases e) (simp add: column_locks_def)
    have nn: "0 \<le> fst ?l" "0 \<le> snd ?l"
      using Cons.prems by (auto simp: count_locks_def split: prod.split)
    show ?case
    proof (cases "e = (r, v)")
      case True
      with Cons.prems(2,3) column_locks_mono [of ?l rflags col] show ?thesis
        unfolding eq by (cases l) (auto simp: count_locks_def split: if_splits)
    next
      case False
      with Cons.prems(1) Cons.IH [OF _ nn] show ?thesis unfolding eq by auto
    qed
  qed simp
  show "fst (column_locks rflags col (0, 0)) = 0 \<Longrightarrow>
      flags_test (rflags ! r) [if v < 0 then kRhsInf else kLhsInf]"
    and "snd (column_locks rflags col (0, 0)) = 0 \<Longrightarrow>
      flags_test (rflags ! r) [if v < 0 then kLhsInf else kRhsInf]"
    using gen [of "(0, 0)"] by auto
qed

lemma row_value_update:
  assumes "distinct_cols row" and "(c, v) \<in> set row" and "c < length x"
  shows "row_value row (x[c := y]) = row_value row x + v * (y - x ! c)"
proof -
  have "row_value (rest_of_row c row) (x[c := y]) = row_value (rest_of_row c row) x"
    unfolding row_value_def rest_of_row_def
    by (intro arg_cong [where f = sum_list] map_cong) auto
  then show ?thesis
    using row_value_split [OF assms(1,2), of x] row_value_split [OF assms(1,2), of "x[c := y]"] assms(3)
    by (simp add: algebra_simps)
qed

lemma row_value_update_absent:
  "c \<notin> fst ` set row \<Longrightarrow> row_value row (x[c := y]) = row_value row x"
  unfolding row_value_def by (intro arg_cong [where f = sum_list] map_cong) (auto simp: image_iff)

text \<open>
  The lock counts of \<open>recomputeLocks\<close> mean what the dual arguments use: a column without down
  locks can be decreased, and one without up locks increased, by any amount at every point that
  satisfies the rows.
\<close>

lemma recomputeLocks_sound:
  assumes "problem_ok p" and "col_locks p = []" and "c < getNCols p" and "c < length x"
    and "rows_satisfied p x"
  shows "(fst (col_locks (recomputeLocks p) ! c) = 0 \<and> y \<le> x ! c \<longrightarrow> rows_satisfied p (x[c := y])) \<and>
    (snd (col_locks (recomputeLocks p) ! c) = 0 \<and> x ! c \<le> y \<longrightarrow> rows_satisfied p (x[c := y]))"
proof -
  have locks: "col_locks (recomputeLocks p) ! c = column_locks (row_flags p) (col_coeffs p ! c) (0, 0)"
    using assms(2,3) by (simp add: recomputeLocks_def)
  have row: "satisfies_row (row_flags p ! r) (lhs_values p ! r) (rhs_values p ! r)
      (row_value (row_coeffs p ! r) (x[c := y]))"
    if r: "r < getNRows p" and dir: "fst (col_locks (recomputeLocks p) ! c) = 0 \<and> y \<le> x ! c \<or>
      snd (col_locks (recomputeLocks p) ! c) = 0 \<and> x ! c \<le> y" for r
  proof (cases "c \<in> fst ` set (row_coeffs p ! r)")
    case False
    with assms(5) r show ?thesis by (simp add: rows_satisfied_def row_value_update_absent)
  next
    case True
    then obtain v where v: "(c, v) \<in> set (row_coeffs p ! r)" by auto
    have "row_coeffs p ! r \<in> set (row_coeffs p)" using r by (simp add: getNRows_def)
    then have row: "distinct_cols (row_coeffs p ! r)" "v \<noteq> 0"
      using assms(1) v unfolding problem_ok_def matrix_ok_def by blast+
    have "(r, v) \<in> set (col_coeffs p ! c)"
      using assms(1,3) r v by (auto simp: problem_ok_def matrix_ok_def col_of_matrix_def getNRows_def)
    note zero = column_locks_zero [OF this row(2), of "row_flags p", folded locks]
    have old: "satisfies_row (row_flags p ! r) (lhs_values p ! r) (rhs_values p ! r)
        (row_value (row_coeffs p ! r) x)" using assms(5) r by (simp add: rows_satisfied_def)
    have val: "row_value (row_coeffs p ! r) (x[c := y]) = row_value (row_coeffs p ! r) x + v * (y - x ! c)"
      by (rule row_value_update [OF row(1) v assms(4)])
    consider "0 < v" | "v < 0" using row(2) by linarith
    then show ?thesis
    proof cases
      case 1
      with dir zero have "flags_test (row_flags p ! r) [kLhsInf] \<and> v * (y - x ! c) \<le> 0 \<or>
          flags_test (row_flags p ! r) [kRhsInf] \<and> 0 \<le> v * (y - x ! c)"
        by (auto simp: mult_le_0_iff)
      with old val show ?thesis by (auto simp: satisfies_row_def)
    next
      case 2
      with dir zero have "flags_test (row_flags p ! r) [kRhsInf] \<and> 0 \<le> v * (y - x ! c) \<or>
          flags_test (row_flags p ! r) [kLhsInf] \<and> v * (y - x ! c) \<le> 0"
        by (auto simp: mult_le_0_iff zero_le_mult_iff)
      with old val show ?thesis by (auto simp: satisfies_row_def)
    qed
  qed
  then show ?thesis by (auto simp: rows_satisfied_def)
qed

end
