(* ===== verification/Pap_ProbingView.thy ===== *)
theory Pap_ProbingView
  imports Pap_Problem
begin

text \<open>
  \<open>src/papilo/core/ProbingView.hpp\<close>: the copy of the domains and the activities on which a binary
  column is fixed tentatively to one and to zero, the propagation of the fixing, and the analysis
  of the two outcomes into bound changes and substitutions.

  The view is the release build: the restorations under \<open>NDEBUG\<close> guards are left out.
\<close>

section \<open>Data\<close>

record ProbingBoundChg =
  pbc_upper :: bool
  pbc_col :: nat
  pbc_bound :: rat
  pbc_probing_col :: int

record ProbingSubstitution =
  ps_col2scale :: rat
  ps_col2const :: rat
  ps_col1 :: nat
  ps_col2 :: nat

record probing_view =
  minintdomred :: rat
  mincontdomred :: rat
  changed_lbs :: "int list"
  changed_ubs :: "int list"
  changed_activities :: "nat list"
  probing_domains :: variable_domains
  probing_activities :: "RowActivity list"
  prop_activities :: "nat list"
  next_prop_activities :: "nat list"
  pv_infeasible :: bool
  pv_round :: int
  probingCol :: int
  probingValue :: bool
  otherValueImplications :: "ProbingBoundChg list"
  otherValueInfeasible :: bool
  boundChanges :: "ProbingBoundChg list"
  substitutions :: "ProbingSubstitution list"
  amountofwork :: int

definition new_probing_view :: "Num \<Rightarrow> problem \<Rightarrow> probing_view" where
  "new_probing_view num p =
     \<lparr>minintdomred = feastol num * 1000, mincontdomred = 3 / 10, changed_lbs = [], changed_ubs = [],
      changed_activities = [], probing_domains = prob_domains p, probing_activities = row_activities p,
      prop_activities = [], next_prop_activities = [], pv_infeasible = False, pv_round = -2,
      probingCol = -1, probingValue = False, otherValueImplications = [], otherValueInfeasible = False,
      boundChanges = [], substitutions = [], amountofwork = 0\<rparr>"

text \<open>A logged bound is the column, or minus the column minus one when the infinity flag changed.\<close>

definition logged_col :: "int \<Rightarrow> nat" where
  "logged_col c = nat (if c < 0 then - c - 1 else c)"

section \<open>Reset\<close>

definition reset_lb :: "problem \<Rightarrow> variable_domains \<Rightarrow> int \<Rightarrow> variable_domains" where
  "reset_lb p D i =
     (if i < 0
      then D\<lparr>col_flags := (col_flags D)[logged_col i := flags_set [kLbUseless] (col_flags D ! logged_col i)]\<rparr>
      else D\<lparr>lower_bounds := (lower_bounds D)[logged_col i := prob_lbs p ! logged_col i]\<rparr>)"

definition reset_ub :: "problem \<Rightarrow> variable_domains \<Rightarrow> int \<Rightarrow> variable_domains" where
  "reset_ub p D i =
     (if i < 0
      then D\<lparr>col_flags := (col_flags D)[logged_col i := flags_set [kUbUseless] (col_flags D ! logged_col i)]\<rparr>
      else D\<lparr>upper_bounds := (upper_bounds D)[logged_col i := prob_ubs p ! logged_col i]\<rparr>)"

definition view_reset :: "problem \<Rightarrow> probing_view \<Rightarrow> probing_view" where
  "view_reset p pv =
     pv\<lparr>probing_domains := foldl (reset_ub p) (foldl (reset_lb p) (probing_domains pv) (changed_lbs pv))
          (changed_ubs pv),
        changed_lbs := [], changed_ubs := [],
        probing_activities := foldl (\<lambda>acts i. acts[i := row_activities p ! i]) (probing_activities pv)
          (changed_activities pv),
        amountofwork := foldl (\<lambda>w i. w + rowsize p ! i) (amountofwork pv) (changed_activities pv),
        changed_activities := [], pv_round := -2, prop_activities := [], next_prop_activities := [],
        pv_infeasible := False, probingCol := -1\<rparr>"

section \<open>Changing a bound\<close>

definition unreliable_activity :: "Num \<Rightarrow> ActivityChange \<Rightarrow> RowActivity \<Rightarrow> RowActivity \<Rightarrow> bool" where
  "unreliable_activity num actchange act orig =
     (if actchange = kMin
      then ninfmin act \<le> 1 \<and> act_min act \<noteq> 0 \<and> act_min orig \<noteq> 0 \<and> isZero num (act_min act / act_min orig)
      else ninfmax act \<le> 1 \<and> act_max act \<noteq> 0 \<and> act_max orig \<noteq> 0 \<and> isZero num (act_max act / act_max orig))"

definition activityChanged :: "Num \<Rightarrow> problem \<Rightarrow> probing_view activity_callback" where
  "activityChanged num p actchange rowid act pv =
     (let pv1 = (if lastchange act > -2
                 then pv\<lparr>changed_activities := changed_activities pv @ [rowid]\<rparr> else pv);
          pv2 = (if lastchange act \<noteq> pv_round pv
                 then pv1\<lparr>next_prop_activities := next_prop_activities pv1 @ [rowid]\<rparr> else pv1);
          act1 = act\<lparr>lastchange := pv_round pv\<rparr>;
          act2 = (if unreliable_activity num actchange act1 (row_activities p ! rowid)
                  then compute_row_activity (row_coeffs p ! rowid) (probing_domains pv) (pv_round pv)
                  else act1);
          lhs = lhs_values p ! rowid; rhs = rhs_values p ! rowid; rflags = row_flags p ! rowid;
          min_infeasible = (actchange = kMin \<and> ninfmin act2 = 0 \<and> \<not> flags_test rflags [kRhsInf] \<and>
            isFeasLT num rhs (act_min act2) \<and> isSafeLT num rhs (act_min act2));
          max_infeasible = (actchange = kMax \<and> ninfmax act2 = 0 \<and> \<not> flags_test rflags [kLhsInf] \<and>
            isFeasGT num lhs (act_max act2) \<and> isSafeGT num lhs (act_max act2))
      in (act2, if min_infeasible \<or> max_infeasible then pv2\<lparr>pv_infeasible := True\<rparr> else pv2))"

text \<open>The activities of the view are updated in place; the callback works on the rest of the view.\<close>

definition update_view ::
  "Num \<Rightarrow> problem \<Rightarrow> BoundChange \<Rightarrow> nat \<Rightarrow> rat \<Rightarrow> rat \<Rightarrow> bool \<Rightarrow> probing_view \<Rightarrow> probing_view" where
  "update_view num p type col oldb newb oldinf pv =
     (case update_activities_after_boundchange (col_coeffs p ! col) type oldb newb oldinf
        (activityChanged num p) True (probing_activities pv, pv) of
      (acts, pv') \<Rightarrow> pv'\<lparr>probing_activities := acts\<rparr>)"

definition changeLb :: "Num \<Rightarrow> problem \<Rightarrow> nat \<Rightarrow> rat \<Rightarrow> probing_view \<Rightarrow> probing_view" where
  "changeLb num p col newlb pv =
     (let D = probing_domains pv; lbinf = flags_test (col_flags D ! col) [kLbUseless];
          pv1 = (if lbinf then
                   pv\<lparr>probing_domains := D\<lparr>col_flags :=
                        (col_flags D)[col := flags_unset [kLbUseless] (col_flags D ! col)]\<rparr>,
                      changed_lbs := changed_lbs pv @ [- int col - 1]\<rparr>
                 else if lower_bounds D ! col = prob_lbs p ! col \<and>
                     \<not> flags_test (prob_cflags p ! col) [kLbUseless]
                 then pv\<lparr>changed_lbs := changed_lbs pv @ [int col]\<rparr>
                 else pv);
          oldlb = lower_bounds D ! col;
          pv2 = pv1\<lparr>probing_domains := (probing_domains pv1)\<lparr>lower_bounds := (lower_bounds D)[col := newlb]\<rparr>\<rparr>
      in update_view num p kLower col oldlb newlb lbinf pv2)"

definition changeUb :: "Num \<Rightarrow> problem \<Rightarrow> nat \<Rightarrow> rat \<Rightarrow> probing_view \<Rightarrow> probing_view" where
  "changeUb num p col newub pv =
     (let D = probing_domains pv; ubinf = flags_test (col_flags D ! col) [kUbUseless];
          pv1 = (if ubinf then
                   pv\<lparr>probing_domains := D\<lparr>col_flags :=
                        (col_flags D)[col := flags_unset [kUbUseless] (col_flags D ! col)]\<rparr>,
                      changed_ubs := changed_ubs pv @ [- int col - 1]\<rparr>
                 else if upper_bounds D ! col = prob_ubs p ! col \<and>
                     \<not> flags_test (prob_cflags p ! col) [kUbUseless]
                 then pv\<lparr>changed_ubs := changed_ubs pv @ [int col]\<rparr>
                 else pv);
          oldub = upper_bounds D ! col;
          pv2 = pv1\<lparr>probing_domains := (probing_domains pv1)\<lparr>upper_bounds := (upper_bounds D)[col := newub]\<rparr>\<rparr>
      in update_view num p kUpper col oldub newub ubinf pv2)"

definition setProbingColumn :: "Num \<Rightarrow> problem \<Rightarrow> nat \<Rightarrow> bool \<Rightarrow> probing_view \<Rightarrow> probing_view" where
  "setProbingColumn num p col value pv =
     (let pv1 = pv\<lparr>probingCol := int col, probingValue := value\<rparr>
      in if value then changeLb num p col 1 pv1 else changeUb num p col 0 pv1)"

section \<open>Propagation\<close>

text \<open>The callback that \<open>propagateDomains\<close> gives to \<open>propagate_row\<close>.\<close>

definition probe_lower :: "Num \<Rightarrow> problem \<Rightarrow> nat \<Rightarrow> rat \<Rightarrow> probing_view \<Rightarrow> probing_view" where
  "probe_lower num p col newbound pv =
     (let D = probing_domains pv; cflags = col_flags D ! col;
          lb = lower_bounds D ! col; ub = upper_bounds D ! col;
          isint = flags_test cflags [kIntegral, kImplInt];
          nb1 = (if isint then feasCeil num newbound else newbound);
          crossed = (\<not> flags_test cflags [kUbInf] \<and> nb1 > ub)
      in if crossed \<and> isFeasGT num nb1 ub then pv\<lparr>pv_infeasible := True\<rparr>
         else
           let nb2 = (if crossed then ub else nb1);
               delta = nb2 - lb;
               finiteDomain = (\<not> flags_test cflags [kUbInf]);
               mindomred = (if isint then minintdomred pv else mincontdomred pv)
           in if flags_test cflags [kLbUseless] \<or>
                 (finiteDomain \<and> delta > 0 \<and> delta / (ub - lb) \<ge> mindomred)
              then changeLb num p col nb2 pv else pv)"

definition probe_upper :: "Num \<Rightarrow> problem \<Rightarrow> nat \<Rightarrow> rat \<Rightarrow> probing_view \<Rightarrow> probing_view" where
  "probe_upper num p col newbound pv =
     (let D = probing_domains pv; cflags = col_flags D ! col;
          lb = lower_bounds D ! col; ub = upper_bounds D ! col;
          isint = flags_test cflags [kIntegral, kImplInt];
          nb1 = (if isint then feasFloor num newbound else newbound);
          crossed = (\<not> flags_test cflags [kLbInf] \<and> nb1 < lb)
      in if crossed \<and> isFeasLT num nb1 lb then pv\<lparr>pv_infeasible := True\<rparr>
         else
           let nb2 = (if crossed then lb else nb1);
               delta = ub - nb2;
               finiteDomain = (\<not> flags_test cflags [kLbInf]);
               mindomred = (if isint then minintdomred pv else mincontdomred pv)
           in if flags_test cflags [kUbUseless] \<or>
                 (finiteDomain \<and> delta > 0 \<and> delta / (ub - lb) \<ge> mindomred)
              then changeUb num p col nb2 pv else pv)"

definition probe_bound :: "Num \<Rightarrow> problem \<Rightarrow> probing_view bound_callback" where
  "probe_bound num p bndChg col newbound row pv =
     (if isHugeVal num newbound then pv
      else case bndChg of kLower \<Rightarrow> probe_lower num p col newbound pv
                        | kUpper \<Rightarrow> probe_upper num p col newbound pv)"

text \<open>One pass over the candidate rows; the flag tells that the whole propagation returns.\<close>

definition row_propagates :: "problem \<Rightarrow> nat \<Rightarrow> RowActivity \<Rightarrow> bool" where
  "row_propagates p r act \<longleftrightarrow>
     (\<not> flags_test (row_flags p ! r) [kRhsInf] \<and> ninfmin act \<le> 1) \<or>
     (\<not> flags_test (row_flags p ! r) [kLhsInf] \<and> ninfmax act \<le> 1)"

definition propagate_cand :: "Num \<Rightarrow> problem \<Rightarrow> nat \<Rightarrow> probing_view \<Rightarrow> probing_view" where
  "propagate_cand num p r pv =
     propagate_row num r (row_coeffs p ! r) (\<lambda>v. probing_activities v ! r) (lhs_values p ! r)
       (rhs_values p ! r) (row_flags p ! r) probing_domains (probe_bound num p) pv"

fun propagate_cands :: "Num \<Rightarrow> problem \<Rightarrow> nat list \<Rightarrow> probing_view \<Rightarrow> probing_view \<times> bool" where
  "propagate_cands num p [] pv = (pv, False)"
| "propagate_cands num p (r # rs) pv =
     (if \<not> row_propagates p r (probing_activities pv ! r) then propagate_cands num p rs pv
      else let pv' = propagate_cand num p r pv
        in if pv_infeasible pv' then (pv', True) else propagate_cands num p rs pv')"

definition swap_candidates :: "probing_view \<Rightarrow> probing_view" where
  "swap_candidates pv = pv\<lparr>prop_activities := next_prop_activities pv, next_prop_activities := []\<rparr>"

text \<open>The rounds of \<open>propagateDomains\<close>; \<open>None\<close> is a run that needs more than \<open>fuel\<close> rounds.\<close>

fun probing_rounds :: "nat \<Rightarrow> Num \<Rightarrow> problem \<Rightarrow> probing_view \<Rightarrow> probing_view option" where
  "probing_rounds fuel num p pv =
     (if prop_activities pv = [] then Some pv
      else case fuel of 0 \<Rightarrow> None
        | Suc fuel' \<Rightarrow>
           (case propagate_cands num p (prop_activities pv) (pv\<lparr>pv_round := pv_round pv - 1\<rparr>) of
              (pv', stop) \<Rightarrow> if stop then Some pv' else probing_rounds fuel' num p (swap_candidates pv')))"

declare probing_rounds.simps [simp del]

definition propagateDomains :: "nat \<Rightarrow> Num \<Rightarrow> problem \<Rightarrow> probing_view \<Rightarrow> probing_view option" where
  "propagateDomains fuel num p pv = probing_rounds fuel num p (swap_candidates pv)"

section \<open>Implications\<close>

definition store_lb :: "probing_view \<Rightarrow> int \<Rightarrow> ProbingBoundChg" where
  "store_lb pv c = \<lparr>pbc_upper = False, pbc_col = logged_col c,
     pbc_bound = lower_bounds (probing_domains pv) ! logged_col c, pbc_probing_col = -1\<rparr>"

definition store_ub :: "probing_view \<Rightarrow> int \<Rightarrow> ProbingBoundChg" where
  "store_ub pv c = \<lparr>pbc_upper = True, pbc_col = logged_col c,
     pbc_bound = upper_bounds (probing_domains pv) ! logged_col c, pbc_probing_col = -1\<rparr>"

definition storeImplications :: "probing_view \<Rightarrow> probing_view" where
  "storeImplications pv =
     (if pv_infeasible pv then pv\<lparr>otherValueInfeasible := True\<rparr>
      else pv\<lparr>otherValueInfeasible := False, otherValueImplications :=
        map (store_lb pv) (filter (\<lambda>c. int (logged_col c) \<noteq> probingCol pv) (changed_lbs pv)) @
        map (store_ub pv) (filter (\<lambda>c. int (logged_col c) \<noteq> probingCol pv) (changed_ubs pv))\<rparr>)"

text \<open>One stored implication of the other value against this value, in the order of the tests.\<close>

definition implied_fixing :: "problem \<Rightarrow> ProbingBoundChg \<Rightarrow> bool" where
  "implied_fixing p chg \<longleftrightarrow>
     (pbc_upper chg \<and> \<not> flags_test (prob_cflags p ! pbc_col chg) [kLbUseless] \<and>
        prob_lbs p ! pbc_col chg = pbc_bound chg) \<or>
     (\<not> pbc_upper chg \<and> \<not> flags_test (prob_cflags p ! pbc_col chg) [kUbUseless] \<and>
        prob_ubs p ! pbc_col chg = pbc_bound chg)"

definition probing_substitution :: "probing_view \<Rightarrow> ProbingBoundChg \<Rightarrow> ProbingSubstitution" where
  "probing_substitution pv chg =
     (let D = probing_domains pv; here = lower_bounds D ! pbc_col chg;
          zerofixval = (if probingValue pv then pbc_bound chg else here);
          onefixval = (if probingValue pv then here else pbc_bound chg);
          col1 = pbc_col chg; col2 = nat (probingCol pv); scale = onefixval - zerofixval
      in if col1 < col2 \<and> \<bar>scale\<bar> = 1 \<and> (zerofixval = 1 \<or> zerofixval = 0) \<and>
            flags_test (col_flags D ! col1) [kIntegral]
         then \<lparr>ps_col2scale = scale, ps_col2const = zerofixval, ps_col1 = col2, ps_col2 = col1\<rparr>
         else \<lparr>ps_col2scale = scale, ps_col2const = zerofixval, ps_col1 = col1, ps_col2 = col2\<rparr>)"

definition analyze_implication :: "Num \<Rightarrow> problem \<Rightarrow> probing_view \<Rightarrow> ProbingBoundChg \<Rightarrow> probing_view" where
  "analyze_implication num p pv chg =
     (let D = probing_domains pv; c = pbc_col chg; pflags = col_flags D ! c; oflags = prob_cflags p ! c;
          fixed = (\<not> flags_test pflags [kUnbounded] \<and> lower_bounds D ! c = upper_bounds D ! c)
      in if pv_infeasible pv then pv\<lparr>boundChanges := boundChanges pv @ [chg]\<rparr>
         else if implied_fixing p chg \<and> fixed \<and> \<not> isFeasEq num (lower_bounds D ! c) (pbc_bound chg)
         then pv\<lparr>substitutions := substitutions pv @ [probing_substitution pv chg]\<rparr>
         else if pbc_upper chg \<and> \<not> flags_test pflags [kUbInf] \<and>
             (flags_test oflags [kUbInf] \<or> prob_ubs p ! c > upper_bounds D ! c)
         then pv\<lparr>boundChanges := boundChanges pv @ [\<lparr>pbc_upper = True, pbc_col = c,
             pbc_bound = num_max (pbc_bound chg) (upper_bounds D ! c), pbc_probing_col = probingCol pv\<rparr>]\<rparr>
         else if \<not> pbc_upper chg \<and> \<not> flags_test pflags [kLbInf] \<and>
             (flags_test oflags [kLbInf] \<or> prob_lbs p ! c < lower_bounds D ! c)
         then pv\<lparr>boundChanges := boundChanges pv @ [\<lparr>pbc_upper = False, pbc_col = c,
             pbc_bound = num_min (pbc_bound chg) (lower_bounds D ! c), pbc_probing_col = probingCol pv\<rparr>]\<rparr>
         else pv)"

definition analyzeImplications :: "Num \<Rightarrow> problem \<Rightarrow> probing_view \<Rightarrow> bool \<times> probing_view" where
  "analyzeImplications num p pv =
     (if otherValueInfeasible pv then
        (if pv_infeasible pv then (True, pv)
         else (False, pv\<lparr>boundChanges := boundChanges pv @ map (store_lb pv) (changed_lbs pv) @
                 map (store_ub pv) (changed_ubs pv)\<rparr>))
      else
        let pv1 = (if pv_infeasible pv then
               pv\<lparr>boundChanges := boundChanges pv @
                 [if probingValue pv
                  then \<lparr>pbc_upper = True, pbc_col = nat (probingCol pv), pbc_bound = 0, pbc_probing_col = -1\<rparr>
                  else \<lparr>pbc_upper = False, pbc_col = nat (probingCol pv), pbc_bound = 1, pbc_probing_col = -1\<rparr>]\<rparr>
               else pv)
        in (False, foldl (analyze_implication num p) pv1 (otherValueImplications pv)))"

definition clearResults :: "probing_view \<Rightarrow> probing_view" where
  "clearResults pv = pv\<lparr>amountofwork := 0, boundChanges := [], substitutions := []\<rparr>"

section \<open>Probing one candidate\<close>

text \<open>The loop body of \<open>Probing::execute\<close> for one column.\<close>

definition probe_candidate ::
  "nat \<Rightarrow> Num \<Rightarrow> problem \<Rightarrow> nat \<Rightarrow> probing_view \<Rightarrow> (bool \<times> probing_view) option" where
  "probe_candidate fuel num p col pv =
     (case propagateDomains fuel num p (setProbingColumn num p col True pv) of
        None \<Rightarrow> None
      | Some pv1 \<Rightarrow>
          (case propagateDomains fuel num p
             (setProbingColumn num p col False (view_reset p (storeImplications pv1))) of
             None \<Rightarrow> None
           | Some pv2 \<Rightarrow> (case analyzeImplications num p pv2 of
               (globalInfeasible, pv3) \<Rightarrow> Some (globalInfeasible, view_reset p pv3))))"

section \<open>What a bound change does to the view\<close>

definition changeBound :: "BoundChange \<Rightarrow> Num \<Rightarrow> problem \<Rightarrow> nat \<Rightarrow> rat \<Rightarrow> probing_view \<Rightarrow> probing_view" where
  "changeBound type = (case type of kLower \<Rightarrow> changeLb | kUpper \<Rightarrow> changeUb)"

definition view_log :: "BoundChange \<Rightarrow> probing_view \<Rightarrow> int list" where
  "view_log type pv = (case type of kLower \<Rightarrow> changed_lbs pv | kUpper \<Rightarrow> changed_ubs pv)"

definition new_log :: "BoundChange \<Rightarrow> problem \<Rightarrow> variable_domains \<Rightarrow> nat \<Rightarrow> int list" where
  "new_log type p D c =
     (if bound_useless type D c then [- int c - 1]
      else if old_bound type D c = old_bound type (prob_domains p) c \<and>
        \<not> bound_useless type (prob_domains p) c then [int c] else [])"

text \<open>The fields a bound change leaves alone.\<close>

definition same_run :: "probing_view \<Rightarrow> probing_view \<Rightarrow> bool" where
  "same_run pv pv' \<longleftrightarrow> minintdomred pv' = minintdomred pv \<and> mincontdomred pv' = mincontdomred pv \<and>
     prop_activities pv' = prop_activities pv \<and> pv_round pv' = pv_round pv \<and>
     probingCol pv' = probingCol pv \<and> probingValue pv' = probingValue pv \<and>
     otherValueImplications pv' = otherValueImplications pv \<and>
     otherValueInfeasible pv' = otherValueInfeasible pv \<and> boundChanges pv' = boundChanges pv \<and>
     substitutions pv' = substitutions pv \<and> amountofwork pv' = amountofwork pv"

lemma same_run_refl [simp]: "same_run pv pv"
  by (simp add: same_run_def)

lemma same_run_trans: "same_run a b \<Longrightarrow> same_run b c \<Longrightarrow> same_run a c"
  by (simp add: same_run_def)

lemma flags_unset_idle: "\<not> flags_test f [m] \<Longrightarrow> flags_unset [m] f = f"
  by (auto simp: flags_test_def flags_unset_def bit_eq_iff bit_simps)

definition same_setup :: "probing_view \<Rightarrow> probing_view \<Rightarrow> bool" where
  "same_setup pv pv' \<longleftrightarrow> same_run pv pv' \<and> probing_domains pv' = probing_domains pv \<and>
     changed_lbs pv' = changed_lbs pv \<and> changed_ubs pv' = changed_ubs pv"

lemma same_setup_trans: "same_setup a b \<Longrightarrow> same_setup b c \<Longrightarrow> same_setup a c"
  by (simp add: same_setup_def same_run_def)

lemma activityChanged_frame: "same_setup pv (snd (activityChanged num p ch r act pv))"
  by (simp add: activityChanged_def Let_def same_run_def same_setup_def)

lemma notify_frame: "same_setup pv (snd (notify_boundchange (activityChanged num p) w r ch (act, pv)))"
proof -
  have "same_setup pv pv" by (simp add: same_setup_def)
  then show ?thesis
    using activityChanged_frame [of pv num p ch r act]
    by (cases ch) (simp_all add: notify_boundchange_def Let_def)
qed

lemma update_frame:
  "same_setup pv (snd (update_activities_after_boundchange col type oldb newb oldinf
       (activityChanged num p) w (acts, pv))) \<and>
   length (fst (update_activities_after_boundchange col type oldb newb oldinf
       (activityChanged num p) w (acts, pv))) = length acts"
  unfolding update_activities_after_boundchange_def
proof (rule foldl_invariant)
  show "same_setup pv (snd (acts, pv)) \<and> length (fst (acts, pv)) = length acts"
    by (simp add: same_setup_def)
next
  fix st :: "RowActivity list \<times> probing_view" and e :: "nat \<times> rat"
  assume I: "same_setup pv (snd st) \<and> length (fst st) = length acts"
  obtain a s where st: "st = (a, s)" by (cases st)
  obtain r v where e: "e = (r, v)" by (cases e)
  obtain ch act where u: "update_activity_after_boundchange v type oldb newb oldinf (a ! r) = (ch, act)"
    by fastforce
  obtain act' s' where n: "notify_boundchange (activityChanged num p) w r ch (act, s) = (act', s')" by fastforce
  with notify_frame [of s num p w r ch act] I st have "same_setup pv s'"
    by (auto intro: same_setup_trans)
  with I show "same_setup pv (snd ((\<lambda>(acts, s) (row, colval).
       case update_activity_after_boundchange colval type oldb newb oldinf (acts ! row) of
         (actChange, act) \<Rightarrow>
           (case notify_boundchange (activityChanged num p) w row actChange (act, s) of
              (act', s') \<Rightarrow> (acts[row := act'], s'))) st e)) \<and>
      length (fst ((\<lambda>(acts, s) (row, colval).
       case update_activity_after_boundchange colval type oldb newb oldinf (acts ! row) of
         (actChange, act) \<Rightarrow>
           (case notify_boundchange (activityChanged num p) w row actChange (act, s) of
              (act', s') \<Rightarrow> (acts[row := act'], s'))) st e)) = length acts"
    by (simp add: st e u n)
qed

lemma update_view_frame:
  "same_setup pv (update_view num p type c oldb newb oldinf pv)"
  "length (probing_activities (update_view num p type c oldb newb oldinf pv)) = length (probing_activities pv)"
  using update_frame [of pv "col_coeffs p ! c" type oldb newb oldinf num p True "probing_activities pv"]
  by (simp_all add: update_view_def same_setup_def same_run_def case_prod_beta)

text \<open>A bound change is the update of the activities on the view with the new domain and the new log.\<close>

definition before_update :: "BoundChange \<Rightarrow> problem \<Rightarrow> nat \<Rightarrow> rat \<Rightarrow> probing_view \<Rightarrow> probing_view" where
  "before_update type p c b pv =
     (case type of
        kLower \<Rightarrow> pv\<lparr>changed_lbs := changed_lbs pv @ new_log kLower p (probing_domains pv) c,
            probing_domains := with_bound kLower c b (probing_domains pv)\<rparr>
      | kUpper \<Rightarrow> pv\<lparr>changed_ubs := changed_ubs pv @ new_log kUpper p (probing_domains pv) c,
            probing_domains := with_bound kUpper c b (probing_domains pv)\<rparr>)"

lemma changeBound_eq:
  "changeBound type num p c b pv = update_view num p type c (old_bound type (probing_domains pv) c) b
     (bound_useless type (probing_domains pv) c) (before_update type p c b pv)"
proof (cases type)
  case kLower
  have "with_lower c b (probing_domains pv) = (probing_domains pv)\<lparr>lower_bounds := (lower_bounds (probing_domains pv))[c := b]\<rparr>"
    if "\<not> lb_useless (probing_domains pv) c"
    using that by (simp add: with_lower_def flags_unset_idle)
  then show ?thesis
    by (auto simp: kLower changeBound_def changeLb_def Let_def before_update_def new_log_def bound_useless_def
        old_bound_def with_bound_def with_lower_def intro!: arg_cong [where f = "update_view num p kLower c _ b _"])
next
  case kUpper
  have "with_upper c b (probing_domains pv) = (probing_domains pv)\<lparr>upper_bounds := (upper_bounds (probing_domains pv))[c := b]\<rparr>"
    if "\<not> ub_useless (probing_domains pv) c"
    using that by (simp add: with_upper_def flags_unset_idle)
  then show ?thesis
    by (auto simp: kUpper changeBound_def changeUb_def Let_def before_update_def new_log_def bound_useless_def
        old_bound_def with_bound_def with_upper_def intro!: arg_cong [where f = "update_view num p kUpper c _ b _"])
qed

lemma changeBound_frame:
  "same_run pv (changeBound type num p c b pv)"
  "probing_domains (changeBound type num p c b pv) = with_bound type c b (probing_domains pv)"
  "view_log type (changeBound type num p c b pv) = view_log type pv @ new_log type p (probing_domains pv) c"
  "type' \<noteq> type \<Longrightarrow> view_log type' (changeBound type num p c b pv) = view_log type' pv"
  "length (probing_activities (changeBound type num p c b pv)) = length (probing_activities pv)"
  using update_view_frame [where pv = "before_update type p c b pv" and num = num and p = p and
      type = type and c = c and oldb = "old_bound type (probing_domains pv) c" and newb = b and
      oldinf = "bound_useless type (probing_domains pv) c"]
  by (cases type; cases type'; simp add: changeBound_eq before_update_def view_log_def same_run_def same_setup_def)+

section \<open>The invariant of the view\<close>

text \<open>
  The view differs from the problem only where it is logged: the flags outside the infinity bits
  are those of the problem, the activities track the rows over the view's domains, a bound that
  differs is in the log, and an activity that differs is in \<open>changed_activities\<close>.
\<close>

definition other_flags :: "flags \<Rightarrow> flags" where
  "other_flags f = flags_unset [kLbUseless, kUbUseless] f"

definition dims_ok :: "nat \<Rightarrow> variable_domains \<Rightarrow> bool" where
  "dims_ok n D \<longleftrightarrow> length (lower_bounds D) = n \<and> length (upper_bounds D) = n \<and> length (col_flags D) = n"

definition bound_log :: "BoundChange \<Rightarrow> problem \<Rightarrow> variable_domains \<Rightarrow> int list \<Rightarrow> bool" where
  "bound_log type p D lg \<longleftrightarrow>
     (\<forall>c<getNCols p.
        if bound_useless type (prob_domains p) c
        then (if bound_useless type D c
          then bound_is_inf type D c \<or>
            old_bound type D c = old_bound type (prob_domains p) c \<and> \<not> bound_is_inf type (prob_domains p) c
          else - int c - 1 \<in> set lg)
        else \<not> bound_useless type D c \<and>
          (old_bound type D c \<noteq> old_bound type (prob_domains p) c \<longrightarrow> int c \<in> set lg)) \<and>
     (\<forall>i \<in> set lg. logged_col i < getNCols p \<and> \<not> bound_useless type D (logged_col i) \<and>
        (i < 0 \<longleftrightarrow> bound_useless type (prob_domains p) (logged_col i)))"

definition activity_logged :: "problem \<Rightarrow> RowActivity list \<Rightarrow> nat list \<Rightarrow> bool" where
  "activity_logged p acts lg \<longleftrightarrow> (\<forall>r<length acts. r \<notin> set lg \<longrightarrow>
     acts ! r = row_activities p ! r \<and> -2 < lastchange (acts ! r))"

definition view_inv :: "problem \<Rightarrow> probing_view \<Rightarrow> bool" where
  "view_inv p pv \<longleftrightarrow>
     dims_ok (getNCols p) (probing_domains pv) \<and>
     (\<forall>c<getNCols p. other_flags (col_flags (probing_domains pv) ! c) = other_flags (prob_cflags p ! c)) \<and>
     all_tracked (probing_domains pv) (row_coeffs p) (probing_activities pv) \<and>
     bound_log kLower p (probing_domains pv) (changed_lbs pv) \<and>
     bound_log kUpper p (probing_domains pv) (changed_ubs pv) \<and>
     (\<forall>r \<in> set (prop_activities pv) \<union> set (next_prop_activities pv). r < getNRows p) \<and>
     pv_round pv \<le> -2 \<and> activity_logged p (probing_activities pv) (changed_activities pv)"

lemma other_flags_unset: "other_flags (flags_unset [kLbUseless] f) = other_flags f"
  "other_flags (flags_unset [kUbUseless] f) = other_flags f"
  "other_flags (flags_set [kLbUseless] f) = other_flags f"
  "other_flags (flags_set [kUbUseless] f) = other_flags f"
  by (auto simp: other_flags_def flags_unset_def flags_set_def bit_eq_iff bit_simps)

lemma other_flags_test:
  assumes "other_flags f = other_flags g" and "(joinFlags fs) AND (kLbUseless OR kUbUseless) = 0"
  shows "flags_test f fs = flags_test g fs"
proof -
  have "flags_test (other_flags h) fs = flags_test h fs" for h
    unfolding other_flags_def by (rule flags_test_unset_disjoint) (use assms(2) in \<open>simp add: and.commute\<close>)
  with assms(1) show ?thesis by metis
qed

lemma integral_flags:
  assumes "other_flags f = other_flags g"
  shows "flags_test f [kIntegral] = flags_test g [kIntegral]"
    and "flags_test f [kIntegral, kImplInt] = flags_test g [kIntegral, kImplInt]"
  by (rule other_flags_test [OF assms]; simp add: flag_defs)+

lemma with_bound_useless:
  assumes "c' < length (col_flags D)"
  shows "bound_useless type' (with_bound type c b D) c' =
    (bound_useless type' D c' \<and> \<not> (type' = type \<and> c' = c))"
  using assms by (cases type; cases type'; cases "c' = c")
    (auto simp: bound_useless_def with_bound_def with_lower_def with_upper_def useless_disjoint)

lemma inf_disjoint:
  "flags_test (flags_unset [kLbUseless] f) [kUbInf] = flags_test f [kUbInf]"
  "flags_test (flags_unset [kUbUseless] f) [kLbInf] = flags_test f [kLbInf]"
  by (rule flags_test_unset_disjoint; simp add: flag_defs)+

lemma inf_unset:
  "\<not> flags_test (flags_unset [kLbUseless] f) [kLbInf]"
  "\<not> flags_test (flags_unset [kUbUseless] f) [kUbInf]"
  by (rule flags_test_unset_subset; simp add: flag_defs)+

lemma with_bound_inf:
  assumes "c' < length (col_flags D)"
  shows "bound_is_inf type' (with_bound type c b D) c' =
    (bound_is_inf type' D c' \<and> \<not> (type' = type \<and> c' = c))"
  using assms by (cases type; cases type'; cases "c' = c")
    (auto simp: bound_is_inf_def with_bound_def with_lower_def with_upper_def inf_disjoint inf_unset)

lemma with_bound_old:
  assumes "dims_ok n D" and "c' < n"
  shows "old_bound type' (with_bound type c b D) c' = (if type' = type \<and> c' = c then b else old_bound type' D c')"
  using assms by (cases type; cases type')
    (auto simp: old_bound_def with_bound_def with_lower_def with_upper_def dims_ok_def nth_list_update)

lemma with_bound_dims [simp]: "dims_ok n (with_bound type c b D) = dims_ok n D"
  by (cases type) (simp_all add: dims_ok_def with_bound_def with_lower_def with_upper_def)

lemma with_bound_flags:
  "c' < length (col_flags D) \<Longrightarrow>
   other_flags (col_flags (with_bound type c b D) ! c') = other_flags (col_flags D ! c')"
  by (cases type; cases "c' = c")
    (auto simp: with_bound_def with_lower_def with_upper_def other_flags_unset nth_list_update)

lemma bound_log_other:
  assumes "bound_log type' p D lg" and "type' \<noteq> type" and "dims_ok (getNCols p) D"
  shows "bound_log type' p (with_bound type c b D) lg"
  using assms unfolding bound_log_def
  by (simp add: with_bound_useless with_bound_inf with_bound_old [OF assms(3)] dims_ok_def)

lemma bound_log_change:
  assumes "bound_log type p D lg" and "c < getNCols p" and "dims_ok (getNCols p) D"
  shows "bound_log type p (with_bound type c b D) (lg @ new_log type p D c)"
proof -
  have len: "length (col_flags D) = getNCols p" using assms(3) by (simp add: dims_ok_def)
  have lc: "logged_col (int c) = c" "logged_col (- int c - 1) = c" by (simp_all add: logged_col_def)
  have logged: "int c \<in> set lg \<or> old_bound type D c = old_bound type (prob_domains p) c"
    if "\<not> bound_useless type (prob_domains p) c"
    using assms(1,2) that by (auto simp: bound_log_def)
  have inv: "logged_col i < getNCols p \<and> \<not> bound_useless type D (logged_col i) \<and>
      (i < 0 \<longleftrightarrow> bound_useless type (prob_domains p) (logged_col i))" if "i \<in> set lg" for i
    using assms(1) that by (auto simp: bound_log_def)
  have neg: "- int c - 1 \<in> set lg" if "bound_useless type (prob_domains p) c" "\<not> bound_useless type D c"
    using assms(1,2) that by (auto simp: bound_log_def)
  have use: "bound_useless type (prob_domains p) c" if "bound_useless type D c"
    using assms(1,2) that by (auto simp: bound_log_def split: if_splits)
  show ?thesis
    unfolding bound_log_def
  proof (intro conjI allI impI ballI)
    fix c' assume c': "c' < getNCols p"
    show "if bound_useless type (prob_domains p) c'
        then (if bound_useless type (with_bound type c b D) c'
          then bound_is_inf type (with_bound type c b D) c' \<or>
            old_bound type (with_bound type c b D) c' = old_bound type (prob_domains p) c' \<and>
            \<not> bound_is_inf type (prob_domains p) c'
          else - int c' - 1 \<in> set (lg @ new_log type p D c))
        else \<not> bound_useless type (with_bound type c b D) c' \<and>
          (old_bound type (with_bound type c b D) c' \<noteq> old_bound type (prob_domains p) c' \<longrightarrow>
            int c' \<in> set (lg @ new_log type p D c))"
    proof (cases "c' = c")
      case True
      with c' len logged neg use show ?thesis
        by (auto simp: with_bound_useless with_bound_old [OF assms(3)] new_log_def)
    next
      case False
      with c' len assms(1) show ?thesis
        by (auto simp: with_bound_useless with_bound_inf with_bound_old [OF assms(3)] bound_log_def split: if_splits)
    qed
  next
    fix i assume i: "i \<in> set (lg @ new_log type p D c)"
    then show "logged_col i < getNCols p"
      using inv assms(2) lc by (auto simp: new_log_def split: if_splits)
    then show "\<not> bound_useless type (with_bound type c b D) (logged_col i)"
      using i inv lc len by (auto simp: with_bound_useless new_log_def split: if_splits)
    show "(i < 0) = bound_useless type (prob_domains p) (logged_col i)"
      using i inv lc use by (auto simp: new_log_def split: if_splits)
  qed
qed

text \<open>The activities of the view as clients of the incremental update.\<close>

lemma tracks_recomputed:
  assumes "tracks D row act"
  shows "compute_row_activity row D k = act\<lparr>lastchange := k\<rparr>"
proof -
  have "tracks D row (compute_row_activity row D k)" by (rule compute_row_activity_tracks)
  moreover have "lastchange (compute_row_activity row D k) = k"
    by (simp add: compute_row_activity_def compute_row_activity_acc)
  ultimately show ?thesis
    using assms by (cases act; cases "compute_row_activity row D k") (simp add: tracks_def)
qed

text \<open>With a point, a view whose domains hold that feasible point is not infeasible.\<close>

definition listener_inv :: "Num \<Rightarrow> problem \<Rightarrow> variable_domains \<Rightarrow> rat list option \<Rightarrow> probing_view \<Rightarrow> bool" where
  "listener_inv num p D pt pv \<longleftrightarrow> probing_domains pv = D \<and>
     (\<forall>x. pt = Some x \<and> num_ok num \<and> rows_satisfied p x \<and>
        (\<forall>row \<in> set (row_coeffs p). row_in_domain D row x) \<longrightarrow> \<not> pv_infeasible pv)"

definition row_tracked :: "problem \<Rightarrow> variable_domains \<Rightarrow> nat \<Rightarrow> RowActivity \<Rightarrow> bool" where
  "row_tracked p D r act \<longleftrightarrow> r < getNRows p \<and> tracks D (row_coeffs p ! r) act"

lemma activityChanged_tracked:
  assumes "row_tracked p D r act" and "probing_domains pv = D"
  shows "fst (activityChanged num p ch r act pv) = act\<lparr>lastchange := pv_round pv\<rparr>"
  using tracks_recomputed [of D "row_coeffs p ! r" act] assms
  by (simp add: activityChanged_def Let_def row_tracked_def)

lemma activityChanged_feasible:
  assumes "row_tracked p D r act" and "listener_inv num p D pt pv"
  shows "listener_inv num p D pt (snd (activityChanged num p ch r act pv))"
proof -
  let ?act = "act\<lparr>lastchange := pv_round pv\<rparr>" and ?pv = "snd (activityChanged num p ch r act pv)"
  have D: "probing_domains pv = D" using assms(2) by (simp add: listener_inv_def)
  have "\<not> pv_infeasible ?pv"
    if feas: "pt = Some x" "num_ok num" "rows_satisfied p x" "\<forall>row \<in> set (row_coeffs p). row_in_domain D row x" for x
  proof -
    have r: "r < getNRows p" and tr: "tracks D (row_coeffs p ! r) ?act"
      using assms(1) by (simp_all add: row_tracked_def)
    have dom: "row_in_domain D (row_coeffs p ! r) x" using feas(4) r by (simp add: getNRows_def)
    have sat: "satisfies_row (row_flags p ! r) (lhs_values p ! r) (rhs_values p ! r)
        (row_value (row_coeffs p ! r) x)" using feas(3) r by (simp add: rows_satisfied_def)
    have "\<not> isFeasLT num (rhs_values p ! r) (act_min ?act)"
      if "ninfmin ?act = 0" "\<not> flags_test (row_flags p ! r) [kRhsInf]"
      using activity_lower_bound [OF tr dom that(1)] sat that(2) feas.lt_less [OF feas(2)]
      by (fastforce simp: satisfies_row_def)
    moreover have "\<not> isFeasGT num (lhs_values p ! r) (act_max ?act)"
      if "ninfmax ?act = 0" "\<not> flags_test (row_flags p ! r) [kLhsInf]"
      using activity_upper_bound [OF tr dom that(1)] sat that(2) feas.gt_greater [OF feas(2)]
      by (fastforce simp: satisfies_row_def)
    moreover have "\<not> pv_infeasible pv" using assms(2) feas by (simp add: listener_inv_def)
    moreover have "fst (activityChanged num p ch r act pv) = ?act"
      by (rule activityChanged_tracked [OF assms(1) D])
    ultimately show ?thesis
      by (auto simp: activityChanged_def Let_def)
  qed
  then show ?thesis
    using activityChanged_frame [of pv num p ch r act] D
    by (auto simp: listener_inv_def same_setup_def)
qed

interpretation probing: activity_listener "activityChanged num p" "listener_inv num p D pt" "row_tracked p D"
proof unfold_locales
  fix s r ch and act :: RowActivity
  assume "listener_inv num p D pt s" and tr: "row_tracked p D r act"
  then have "probing_domains s = D" by (simp add: listener_inv_def)
  from activityChanged_tracked [OF tr this]
  show "\<exists>k. fst (activityChanged num p ch r act s) = act\<lparr>lastchange := k\<rparr>" by blast
qed (simp_all add: activityChanged_feasible row_tracked_def)

lemma update_lastchange [simp]:
  "lastchange (snd (update_activity_after_boundchange v type oldb newb oldinf act)) = lastchange act"
  by (simp add: update_activity_after_boundchange_def Let_def split: BoundChange.splits)

lemma activity_logged_step:
  assumes "activity_logged p acts (changed_activities s)"
    and "update_activity_after_boundchange v type oldb newb oldinf (acts ! r) = (ch, act)"
    and "notify_boundchange (activityChanged num p) True r ch (act, s) = (act', s')"
  shows "activity_logged p (acts[r := act']) (changed_activities s')"
proof -
  have lc: "lastchange act = lastchange (acts ! r)"
    using update_lastchange [of v type oldb newb oldinf "acts ! r"] assms(2) by simp
  have s': "s' = snd (activityChanged num p ch r act s)"
    using assms(3) by (cases ch) (simp_all add: notify_boundchange_def Let_def prod_eq_iff)
  have "changed_activities s' = changed_activities s @ (if -2 < lastchange act then [r] else [])"
    by (simp add: s' activityChanged_def Let_def)
  then have log: "set (changed_activities s') = set (changed_activities s) \<union> (if -2 < lastchange act then {r} else {})"
    by simp
  have "acts[r := act'] ! i = acts ! i" if "i \<notin> set (changed_activities s')" "i < length acts" for i
    using assms(1) lc that log by (cases "i = r") (auto simp: activity_logged_def)
  moreover have "acts ! i = row_activities p ! i \<and> -2 < lastchange (acts ! i)"
    if "i \<notin> set (changed_activities s')" "i < length acts" for i
    using assms(1) that log by (auto simp: activity_logged_def)
  ultimately show ?thesis unfolding activity_logged_def by (metis length_list_update)
qed

lemma update_logged:
  assumes "activity_logged p acts (changed_activities s)"
  shows "activity_logged p
     (fst (update_activities_after_boundchange col type oldb newb oldinf (activityChanged num p) True (acts, s)))
     (changed_activities (snd (update_activities_after_boundchange col type oldb newb oldinf
        (activityChanged num p) True (acts, s))))"
  unfolding update_activities_after_boundchange_def
proof (rule foldl_invariant [where I = "\<lambda>st. activity_logged p (fst st) (changed_activities (snd st))"])
  show "activity_logged p (fst (acts, s)) (changed_activities (snd (acts, s)))" using assms by simp
next
  fix st :: "RowActivity list \<times> probing_view" and e :: "nat \<times> rat"
  assume I: "activity_logged p (fst st) (changed_activities (snd st))"
  obtain a t where st: "st = (a, t)" by (cases st)
  obtain r v where e: "e = (r, v)" by (cases e)
  obtain ch act where u: "update_activity_after_boundchange v type oldb newb oldinf (a ! r) = (ch, act)"
    by fastforce
  obtain act' t' where n: "notify_boundchange (activityChanged num p) True r ch (act, t) = (act', t')" by fastforce
  from activity_logged_step [OF _ u n] I
  show "activity_logged p (fst ((\<lambda>(acts, s) (row, colval).
       case update_activity_after_boundchange colval type oldb newb oldinf (acts ! row) of
         (actChange, act) \<Rightarrow>
           (case notify_boundchange (activityChanged num p) True row actChange (act, s) of
              (act', s') \<Rightarrow> (acts[row := act'], s'))) st e))
     (changed_activities (snd ((\<lambda>(acts, s) (row, colval).
       case update_activity_after_boundchange colval type oldb newb oldinf (acts ! row) of
         (actChange, act) \<Rightarrow>
           (case notify_boundchange (activityChanged num p) True row actChange (act, s) of
              (act', s') \<Rightarrow> (acts[row := act'], s'))) st e)))"
    by (simp add: st e u n)
qed

lemma notify_candidates:
  "set (next_prop_activities (snd (notify_boundchange (activityChanged num p) w r ch (act, s)))) \<subseteq>
    insert r (set (next_prop_activities s))"
  by (cases ch) (auto simp: notify_boundchange_def activityChanged_def Let_def)

lemma update_candidates:
  assumes "\<forall>e \<in> set col. fst e < n" and "\<forall>r \<in> set (next_prop_activities s). r < n"
  shows "\<forall>r \<in> set (next_prop_activities (snd (update_activities_after_boundchange col type oldb newb oldinf
        (activityChanged num p) w (acts, s)))). r < n"
  unfolding update_activities_after_boundchange_def
proof (rule foldl_invariant [where I = "\<lambda>st. \<forall>r \<in> set (next_prop_activities (snd st)). r < n"])
  show "\<forall>r \<in> set (next_prop_activities (snd (acts, s))). r < n" using assms(2) by simp
next
  fix st :: "RowActivity list \<times> probing_view" and e :: "nat \<times> rat"
  assume mem: "e \<in> set col" and I: "\<forall>r \<in> set (next_prop_activities (snd st)). r < n"
  obtain a t where st: "st = (a, t)" by (cases st)
  obtain r v where e: "e = (r, v)" by (cases e)
  obtain ch act where u: "update_activity_after_boundchange v type oldb newb oldinf (a ! r) = (ch, act)"
    by fastforce
  obtain act' t' where nt: "notify_boundchange (activityChanged num p) w r ch (act, t) = (act', t')" by fastforce
  with notify_candidates [of num p w r ch act t] have "set (next_prop_activities t') \<subseteq> insert r (set (next_prop_activities t))"
    by simp
  moreover have "r < n" using mem assms(1) e by auto
  ultimately have "\<forall>r \<in> set (next_prop_activities t'). r < n" using I st by auto
  then show "\<forall>r \<in> set (next_prop_activities (snd ((\<lambda>(acts, s) (row, colval).
       case update_activity_after_boundchange colval type oldb newb oldinf (acts ! row) of
         (actChange, act) \<Rightarrow>
           (case notify_boundchange (activityChanged num p) w row actChange (act, s) of
              (act', s') \<Rightarrow> (acts[row := act'], s'))) st e))). r < n"
    by (simp add: st e u nt)
qed

text \<open>Every bound change keeps the invariant of the view.\<close>

lemma update_view_tracked:
  assumes "problem_ok p" and "all_tracked D (row_coeffs p) (probing_activities pv)" and "dims_ok (getNCols p) D"
    and "c < getNCols p" and "probing_domains pv = with_bound type c b D"
    and "listener_inv num p (with_bound type c b D) pt pv"
  shows "all_tracked (with_bound type c b D) (row_coeffs p)
      (probing_activities (update_view num p type c (old_bound type D c) b (bound_useless type D c) pv)) \<and>
    listener_inv num p (with_bound type c b D) pt
      (update_view num p type c (old_bound type D c) b (bound_useless type D c) pv)"
proof -
  have "col_of_matrix (row_coeffs p) c (col_coeffs p ! c)"
    using assms(1,4) by (auto simp: problem_ok_def matrix_ok_def)
  moreover have "col_ok D c" using assms(3,4) by (simp add: col_ok_def dims_ok_def)
  ultimately have "all_tracked (with_bound type c b D) (row_coeffs p)
      (fst (update_activities_after_boundchange (col_coeffs p ! c) type (old_bound type D c) b
         (bound_useless type D c) (activityChanged num p) True (probing_activities pv, pv))) \<and>
    listener_inv num p (with_bound type c b D) pt
      (snd (update_activities_after_boundchange (col_coeffs p ! c) type (old_bound type D c) b
         (bound_useless type D c) (activityChanged num p) True (probing_activities pv, pv)))"
    by (intro probing.update_all_tracked assms(2,6)) (auto simp: row_tracked_def getNRows_def)
  then show ?thesis by (simp add: update_view_def case_prod_beta listener_inv_def)
qed

lemma changeBound_tracked:
  assumes "problem_ok p" and "view_inv p pv" and "c < getNCols p"
    and "\<And>x. pt = Some x \<Longrightarrow> num_ok num \<Longrightarrow> rows_satisfied p x \<Longrightarrow>
      (\<forall>row \<in> set (row_coeffs p). row_in_domain (with_bound type c b (probing_domains pv)) row x) \<Longrightarrow>
      \<not> pv_infeasible pv"
  shows "all_tracked (with_bound type c b (probing_domains pv)) (row_coeffs p)
      (probing_activities (changeBound type num p c b pv)) \<and>
    listener_inv num p (with_bound type c b (probing_domains pv)) pt (changeBound type num p c b pv)"
proof -
  let ?D = "probing_domains pv" and ?pv = "before_update type p c b pv"
  have acts: "probing_activities ?pv = probing_activities pv" "probing_domains ?pv = with_bound type c b ?D"
    "pv_infeasible ?pv = pv_infeasible pv"
    by (cases type; simp add: before_update_def)+
  have inv: "all_tracked ?D (row_coeffs p) (probing_activities ?pv)" "dims_ok (getNCols p) ?D"
    using assms(2) by (simp_all add: view_inv_def acts)
  have "listener_inv num p (with_bound type c b ?D) pt ?pv"
    using assms(4) by (auto simp: listener_inv_def acts)
  from update_view_tracked [OF assms(1) inv assms(3) acts(2) this] show ?thesis
    by (simp add: changeBound_eq)
qed

lemma changeBound_view_inv:
  assumes "problem_ok p" and "view_inv p pv" and "c < getNCols p"
  shows "view_inv p (changeBound type num p c b pv)"
proof -
  let ?D = "probing_domains pv" and ?pv = "changeBound type num p c b pv"
  have inv: "dims_ok (getNCols p) ?D" "bound_log kLower p ?D (changed_lbs pv)" "pv_round pv \<le> -2"
    "bound_log kUpper p ?D (changed_ubs pv)" "activity_logged p (probing_activities pv) (changed_activities pv)"
    "\<And>c. c < getNCols p \<Longrightarrow> other_flags (col_flags ?D ! c) = other_flags (prob_cflags p ! c)"
    using assms(2) by (auto simp: view_inv_def)
  have lg: "bound_log t p ?D (view_log t pv)" for t
    using inv by (cases t) (simp_all add: view_log_def)
  have "bound_log t p (with_bound type c b ?D) (view_log t ?pv)" for t
    using bound_log_change [OF lg assms(3) inv(1)] bound_log_other [OF lg _ inv(1)]
      changeBound_frame(3,4) by (cases "t = type") auto
  from this [of kLower] this [of kUpper]
  have logs: "bound_log kLower p (with_bound type c b ?D) (changed_lbs ?pv)"
    "bound_log kUpper p (with_bound type c b ?D) (changed_ubs ?pv)" by (simp_all add: view_log_def)
  have acts: "all_tracked (with_bound type c b ?D) (row_coeffs p) (probing_activities ?pv)"
    using changeBound_tracked [OF assms, of None] by simp
  have "activity_logged p (probing_activities ?pv) (changed_activities ?pv)"
  proof -
    have "changed_activities (before_update type p c b pv) = changed_activities pv"
      "probing_activities (before_update type p c b pv) = probing_activities pv"
      by (cases type; simp add: before_update_def)+
    with inv(5) update_logged [where s = "before_update type p c b pv" and p = p] show ?thesis
      by (simp add: changeBound_eq update_view_def case_prod_beta)
  qed
  moreover have "\<forall>r \<in> set (prop_activities ?pv) \<union> set (next_prop_activities ?pv). r < getNRows p"
  proof -
    have "\<forall>e \<in> set (col_coeffs p ! c). fst e < getNRows p"
      using assms(1,3) by (auto simp: problem_ok_def matrix_ok_def col_of_matrix_def getNRows_def)
    moreover have "\<forall>r \<in> set (next_prop_activities (before_update type p c b pv)). r < getNRows p"
      using assms(2) by (cases type; simp add: before_update_def view_inv_def)
    ultimately have "\<forall>r \<in> set (next_prop_activities ?pv). r < getNRows p"
      using update_candidates [where n = "getNRows p" and s = "before_update type p c b pv"]
      by (simp add: changeBound_eq update_view_def case_prod_beta)
    moreover have "prop_activities ?pv = prop_activities pv"
      using changeBound_frame(1) [of pv type num p c b] by (simp add: same_run_def)
    ultimately show ?thesis using assms(2) by (auto simp: view_inv_def)
  qed
  moreover have "pv_round ?pv \<le> -2"
    using inv(3) changeBound_frame(1) [of pv type num p c b] by (simp add: same_run_def)
  moreover have "length (col_flags ?D) = getNCols p" using inv(1) by (simp add: dims_ok_def)
  ultimately show ?thesis
    using inv(1,6) logs acts
    by (auto simp: view_inv_def changeBound_frame(2) with_bound_flags)
qed

section \<open>Points of the view\<close>

definition holds :: "rat list \<Rightarrow> probing_view \<Rightarrow> bool" where
  "holds x pv \<longleftrightarrow> in_domains (probing_domains pv) x \<and> \<not> pv_infeasible pv"

definition bound_valid :: "BoundChange \<Rightarrow> rat \<Rightarrow> rat \<Rightarrow> bool" where
  "bound_valid type b v = (case type of kLower \<Rightarrow> b \<le> v | kUpper \<Rightarrow> v \<le> b)"

lemma in_domains_with_bound:
  assumes "in_domains D x" and "dims_ok n D" and "c < n" and "bound_valid type b (x ! c)"
  shows "in_domains (with_bound type c b D) x"
proof -
  have "in_col_domain (with_bound type c b D) c' (x ! c')" if "c' < n" for c'
    using assms that by (cases type; cases "c' = c")
      (auto simp: in_domains_def in_col_domain_def with_bound_def with_lower_def with_upper_def
        dims_ok_def bound_valid_def inf_disjoint)
  then show ?thesis
    using assms(2) by (cases type) (auto simp: in_domains_def dims_ok_def with_bound_def with_lower_def with_upper_def)
qed

lemma rows_in_domain:
  assumes "problem_ok p" and "dims_ok (getNCols p) D" and "in_domains D x"
  shows "\<forall>row \<in> set (row_coeffs p). row_in_domain D row x"
proof
  fix row assume "row \<in> set (row_coeffs p)"
  with assms(1) have "\<forall>(c, v) \<in> set row. c < getNCols p" by (fastforce simp: problem_ok_def matrix_ok_def)
  with assms(2,3) show "row_in_domain D row x"
    by (auto simp: row_in_domain_def list_all_iff in_domains_def dims_ok_def)
qed

lemma changeBound_holds:
  assumes "problem_ok p" and "num_ok num" and "feasible p x" and "view_inv p pv" and "holds x pv"
    and "c < getNCols p" and "bound_valid type b (x ! c)"
  shows "holds x (changeBound type num p c b pv)"
proof -
  let ?D = "with_bound type c b (probing_domains pv)"
  have dims: "dims_ok (getNCols p) (probing_domains pv)" using assms(4) by (simp add: view_inv_def)
  have dom: "in_domains ?D x"
    using assms(5) by (intro in_domains_with_bound [OF _ dims assms(6,7)]) (simp add: holds_def)
  have "listener_inv num p ?D (Some x) (changeBound type num p c b pv)"
    using changeBound_tracked [OF assms(1,4,6), of "Some x"] assms(5) by (simp add: holds_def)
  then show ?thesis
    using assms(2,3) dom rows_in_domain [OF assms(1) _ dom] dims
    by (auto simp: listener_inv_def holds_def feasible_def)
qed

subsection \<open>The callback of the propagation\<close>

lemma probe_bound_cases:
  "probe_bound num p t c b r pv = pv \<or> probe_bound num p t c b r pv = pv\<lparr>pv_infeasible := True\<rparr> \<or>
   (\<exists>b'. probe_bound num p t c b r pv = changeBound t num p c b' pv)"
proof -
  have "probe_lower num p c b pv \<in> {pv, pv\<lparr>pv_infeasible := True\<rparr>} \<union> range (\<lambda>b'. changeLb num p c b' pv)"
    unfolding probe_lower_def Let_def by (auto simp del: split_paired_Ex)
  moreover have "probe_upper num p c b pv \<in> {pv, pv\<lparr>pv_infeasible := True\<rparr>} \<union> range (\<lambda>b'. changeUb num p c b' pv)"
    unfolding probe_upper_def Let_def by (auto simp del: split_paired_Ex)
  ultimately show ?thesis by (cases t) (auto simp: probe_bound_def changeBound_def)
qed

lemma view_inv_infeasible [simp]: "view_inv p (pv\<lparr>pv_infeasible := b\<rparr>) = view_inv p pv"
  by (simp add: view_inv_def)

lemma probe_bound_view_inv:
  assumes "problem_ok p" and "view_inv p pv" and "c < getNCols p"
  shows "view_inv p (probe_bound num p t c b r pv)"
  using probe_bound_cases [of num p t c b r pv] changeBound_view_inv [OF assms] assms(2) by auto

lemma with_bound_counts:
  "sum_list (map (min_inf (with_bound t c b D)) row) \<le> sum_list (map (min_inf D) row)"
  "sum_list (map (max_inf (with_bound t c b D)) row) \<le> sum_list (map (max_inf D) row)"
proof -
  have imp: "bound_useless t' (with_bound t c b D) c' \<longrightarrow> bound_useless t' D c'" for t' c'
    by (cases "c' = c"; cases "c < length (col_flags D)"; cases t; cases t')
      (auto simp: with_bound_def with_lower_def with_upper_def bound_useless_def useless_disjoint
        list_update_beyond not_less)
  from imp [of kLower] imp [of kUpper]
  have "min_inf (with_bound t c b D) e \<le> min_inf D e" "max_inf (with_bound t c b D) e \<le> max_inf D e" for e
    by (auto simp: min_inf_def max_inf_def bound_useless_def split: prod.splits)
  then show "sum_list (map (min_inf (with_bound t c b D)) row) \<le> sum_list (map (min_inf D) row)"
    "sum_list (map (max_inf (with_bound t c b D)) row) \<le> sum_list (map (max_inf D) row)"
    by (simp_all add: sum_list_mono)
qed

lemma feasCeil_le: "0 \<le> feastol num \<Longrightarrow> x \<in> \<int> \<Longrightarrow> b \<le> x \<Longrightarrow> feasCeil num b \<le> x"
  by (auto simp: feasCeil_def rational_ceil_eq ceiling_le_iff elim!: Ints_cases)

lemma feasFloor_ge: "0 \<le> feastol num \<Longrightarrow> x \<in> \<int> \<Longrightarrow> x \<le> b \<Longrightarrow> x \<le> feasFloor num b"
  by (auto simp: feasFloor_def rational_floor_eq le_floor_iff elim!: Ints_cases)

lemma probe_bound_valid:
  assumes "num_ok num" and "problem_ok p" and "feasible p x" and "view_inv p pv" and "holds x pv"
    and "c < getNCols p" and "bound_valid t b (x ! c)"
  shows "probe_bound num p t c b r pv = pv \<or>
    (\<exists>b'. bound_valid t b' (x ! c) \<and> probe_bound num p t c b r pv = changeBound t num p c b' pv)"
proof -
  let ?D = "probing_domains pv"
  have dims: "dims_ok (getNCols p) ?D" using assms(4) by (simp add: view_inv_def)
  have tol: "0 \<le> feastol num" using assms(1) by (simp add: num_ok_def)
  have int: "x ! c \<in> \<int>" if "flags_test (col_flags ?D ! c) [kIntegral, kImplInt]"
  proof -
    have "other_flags (col_flags ?D ! c) = other_flags (prob_cflags p ! c)"
      using assms(4,6) by (simp add: view_inv_def)
    from integral_flags(2) [OF this] that assms(2,3,6) show ?thesis
      by (auto simp: feasible_def integral_point_def problem_ok_def)
  qed
  have dom: "in_col_domain ?D c (x ! c)"
    using assms(5,6) dims by (simp add: holds_def in_domains_def dims_ok_def)
  show ?thesis
  proof (cases t)
    case kLower
    define nb where "nb = (if flags_test (col_flags ?D ! c) [kIntegral, kImplInt] then feasCeil num b else b)"
    have nb: "nb \<le> x ! c"
      using assms(7) feasCeil_le [OF tol int] by (simp add: nb_def kLower bound_valid_def)
    then have "\<not> (\<not> flags_test (col_flags ?D ! c) [kUbInf] \<and> nb > upper_bounds ?D ! c)"
      using dom by (auto simp: in_col_domain_def)
    then have "probe_lower num p c b pv = pv \<or> probe_lower num p c b pv = changeBound kLower num p c nb pv"
      by (cases "flags_test (col_flags ?D ! c) [kIntegral, kImplInt]")
        (auto simp: probe_lower_def Let_def changeBound_def nb_def)
    with nb show ?thesis by (auto simp: probe_bound_def kLower bound_valid_def)
  next
    case kUpper
    define nb where "nb = (if flags_test (col_flags ?D ! c) [kIntegral, kImplInt] then feasFloor num b else b)"
    have nb: "x ! c \<le> nb"
      using assms(7) feasFloor_ge [OF tol int] by (simp add: nb_def kUpper bound_valid_def)
    then have "\<not> (\<not> flags_test (col_flags ?D ! c) [kLbInf] \<and> nb < lower_bounds ?D ! c)"
      using dom by (auto simp: in_col_domain_def)
    then have "probe_upper num p c b pv = pv \<or> probe_upper num p c b pv = changeBound kUpper num p c nb pv"
      by (cases "flags_test (col_flags ?D ! c) [kIntegral, kImplInt]")
        (auto simp: probe_upper_def Let_def changeBound_def nb_def)
    with nb show ?thesis by (auto simp: probe_bound_def kUpper bound_valid_def)
  qed
qed

subsection \<open>The view is a client of the propagation\<close>

definition good_view :: "Num \<Rightarrow> problem \<Rightarrow> nat \<Rightarrow> rat list \<Rightarrow> probing_view \<Rightarrow> bool" where
  "good_view num p r x pv \<longleftrightarrow> num_ok num \<and> problem_ok p \<and> feasible p x \<and> r < getNRows p \<and>
     view_inv p pv \<and> holds x pv"

lemma row_of_problem:
  assumes "problem_ok p" and "r < getNRows p"
  shows "distinct_cols (row_coeffs p ! r)"
    and "(c, v) \<in> set (row_coeffs p ! r) \<Longrightarrow> c < getNCols p \<and> v \<noteq> 0"
  using assms nth_mem [of r "row_coeffs p"] unfolding problem_ok_def matrix_ok_def getNRows_def
  by (blast, fastforce)

lemma probe_bound_good:
  assumes "good_view num p r x pv" and "(c, v) \<in> set (row_coeffs p ! r)" and "bound_valid t b (x ! c)"
  shows "good_view num p r x (probe_bound num p t c b r pv)"
proof -
  have c: "c < getNCols p" using assms(1,2) row_of_problem(2) by (auto simp: good_view_def)
  have g: "num_ok num" "problem_ok p" "feasible p x" "view_inv p pv" "holds x pv"
    using assms(1) by (simp_all add: good_view_def)
  have "holds x (probe_bound num p t c b r pv)"
    using probe_bound_valid [OF g c assms(3)] changeBound_holds [OF g(2,1,3,4,5) c] g(5) by metis
  with assms(1) probe_bound_view_inv [OF g(2,4) c] show ?thesis by (simp add: good_view_def)
qed

interpretation probing_rows: propagation_client r "row_coeffs p ! r" x "\<lambda>v. probing_activities v ! r"
  probing_domains "probe_bound num p" "good_view num p r x"
proof unfold_locales
  show "good_view num p r x s \<Longrightarrow> distinct_cols (row_coeffs p ! r)" for s
    using row_of_problem(1) by (auto simp: good_view_def)
  show "good_view num p r x s \<Longrightarrow> (c, v) \<in> set (row_coeffs p ! r) \<Longrightarrow> v \<noteq> 0" for s c v
    using row_of_problem(2) by (auto simp: good_view_def)
  show tr: "good_view num p r x s \<Longrightarrow> tracks (probing_domains s) (row_coeffs p ! r) (probing_activities s ! r)" for s
    by (simp add: good_view_def view_inv_def all_tracked_def getNRows_def)
  show "good_view num p r x s \<Longrightarrow> row_in_domain (probing_domains s) (row_coeffs p ! r) x" for s
    using rows_in_domain [of p "probing_domains s" x]
    by (simp add: good_view_def view_inv_def holds_def getNRows_def)
  show "good_view num p r x s \<Longrightarrow> (c, v) \<in> set (row_coeffs p ! r) \<Longrightarrow> integral_ok (probing_domains s) c (x ! c)"
    for s c v
  proof -
    assume g: "good_view num p r x s" and "(c, v) \<in> set (row_coeffs p ! r)"
    then have c: "c < getNCols p" using row_of_problem(2) by (auto simp: good_view_def)
    then have "other_flags (col_flags (probing_domains s) ! c) = other_flags (prob_cflags p ! c)"
      using g by (simp add: good_view_def view_inv_def)
    from integral_flags(1) [OF this] g c show "integral_ok (probing_domains s) c (x ! c)"
      by (auto simp: integral_ok_def good_view_def feasible_def integral_point_def problem_ok_def flags_test_Cons)
  qed
  show "good_view num p r x s \<Longrightarrow> (c, v) \<in> set (row_coeffs p ! r) \<Longrightarrow> b \<le> x ! c \<Longrightarrow>
      good_view num p r x (probe_bound num p kLower c b r s)" for s c v b
    by (rule probe_bound_good) (simp_all add: bound_valid_def)
  show "good_view num p r x s \<Longrightarrow> (c, v) \<in> set (row_coeffs p ! r) \<Longrightarrow> x ! c \<le> b \<Longrightarrow>
      good_view num p r x (probe_bound num p kUpper c b r s)" for s c v b
    by (rule probe_bound_good) (simp_all add: bound_valid_def)
  show "good_view num p r x s \<Longrightarrow> (c, v) \<in> set (row_coeffs p ! r) \<Longrightarrow>
      ninfmin (probing_activities (probe_bound num p t c b r s) ! r) \<le> ninfmin (probing_activities s ! r) \<and>
      ninfmax (probing_activities (probe_bound num p t c b r s) ! r) \<le> ninfmax (probing_activities s ! r)"
    for s c v t b
  proof -
    assume g: "good_view num p r x s" and "(c, v) \<in> set (row_coeffs p ! r)"
    then have c: "c < getNCols p" using row_of_problem(2) by (auto simp: good_view_def)
    have old: "tracks (probing_domains s) (row_coeffs p ! r) (probing_activities s ! r)" by (rule tr [OF g])
    have "view_inv p (changeBound t num p c b' s)" for b'
      using g c by (intro changeBound_view_inv) (auto simp: good_view_def)
    then have "tracks (with_bound t c b' (probing_domains s)) (row_coeffs p ! r)
        (probing_activities (changeBound t num p c b' s) ! r)" for b'
      using g by (simp add: view_inv_def changeBound_frame(2) all_tracked_def good_view_def getNRows_def)
    then have "ninfmin (probing_activities (changeBound t num p c b' s) ! r) \<le> ninfmin (probing_activities s ! r) \<and>
      ninfmax (probing_activities (changeBound t num p c b' s) ! r) \<le> ninfmax (probing_activities s ! r)" for b'
      using old with_bound_counts by (simp add: tracks_def)
    then show "ninfmin (probing_activities (probe_bound num p t c b r s) ! r) \<le> ninfmin (probing_activities s ! r) \<and>
      ninfmax (probing_activities (probe_bound num p t c b r s) ! r) \<le> ninfmax (probing_activities s ! r)"
      using probe_bound_cases [of num p t c b r s] by auto
  qed
qed

section \<open>The propagation keeps the feasible points\<close>

lemma propagate_cand_view_inv:
  assumes "problem_ok p" and "view_inv p pv" and "r < getNRows p"
  shows "view_inv p (propagate_cand num p r pv)"
  unfolding propagate_cand_def
  by (rule propagate_row_preserves [where P = "view_inv p"])
    (use assms row_of_problem(2) in \<open>blast intro: probe_bound_view_inv\<close>)+

lemma propagate_cand_good:
  assumes "good_view num p r x pv"
  shows "good_view num p r x (propagate_cand num p r pv)"
  unfolding propagate_cand_def
proof (rule probing_rows.propagate_row_good [OF _ _ assms])
  show "num_ok num" using assms by (simp add: good_view_def)
  show "satisfies_row (row_flags p ! r) (lhs_values p ! r) (rhs_values p ! r) (row_value (row_coeffs p ! r) x)"
    using assms by (simp add: good_view_def feasible_def rows_satisfied_def)
qed

lemma propagate_cands_view_inv:
  assumes "problem_ok p" and "view_inv p pv" and "\<forall>r \<in> set rs. r < getNRows p"
  shows "view_inv p (fst (propagate_cands num p rs pv))"
  using assms(2,3)
proof (induction rs arbitrary: pv)
  case (Cons r rs)
  with propagate_cand_view_inv [OF assms(1) Cons.prems(1), of r num] show ?case
    by (auto simp: Let_def)
qed simp

lemma propagate_cands_holds:
  assumes "num_ok num" and "problem_ok p" and "feasible p x"
    and "view_inv p pv" and "holds x pv" and "\<forall>r \<in> set rs. r < getNRows p"
  shows "holds x (fst (propagate_cands num p rs pv)) \<and> \<not> snd (propagate_cands num p rs pv)"
  using assms(4-6)
proof (induction rs arbitrary: pv)
  case (Cons r rs)
  have "good_view num p r x pv" using Cons.prems assms(1-3) by (simp add: good_view_def)
  from propagate_cand_good [OF this] Cons show ?case
    by (auto simp: Let_def good_view_def holds_def)
qed simp

lemma swap_view_inv: "view_inv p pv \<Longrightarrow> view_inv p (swap_candidates pv)"
  by (simp add: view_inv_def swap_candidates_def)

lemma round_view_inv: "view_inv p pv \<Longrightarrow> view_inv p (pv\<lparr>pv_round := pv_round pv - 1\<rparr>)"
  by (simp add: view_inv_def)

lemma probing_rounds_view_inv:
  assumes "problem_ok p" and "view_inv p pv" and "probing_rounds fuel num p pv = Some pv'"
  shows "view_inv p pv'"
  using assms(2,3)
proof (induction fuel arbitrary: pv)
  case 0
  then show ?case by (simp add: probing_rounds.simps split: if_splits)
next
  case (Suc fuel)
  show ?case
  proof (cases "prop_activities pv = []")
    case True
    with Suc.prems show ?thesis by (simp add: probing_rounds.simps)
  next
    case False
    let ?pv = "pv\<lparr>pv_round := pv_round pv - 1\<rparr>"
    obtain pv1 stop where run: "propagate_cands num p (prop_activities pv) ?pv = (pv1, stop)" by fastforce
    have "view_inv p pv1"
      using propagate_cands_view_inv [OF assms(1) round_view_inv [OF Suc.prems(1)], of "prop_activities pv" num]
        run Suc.prems(1) by (simp add: view_inv_def)
    with Suc.IH [OF swap_view_inv] Suc.prems(2) False run show ?thesis
      by (simp add: probing_rounds.simps [of "Suc fuel"] split: if_splits)
  qed
qed

lemma probing_rounds_holds:
  assumes "num_ok num" and "problem_ok p" and "feasible p x" and "view_inv p pv" and "holds x pv"
    and "probing_rounds fuel num p pv = Some pv'"
  shows "holds x pv'"
  using assms(4-6)
proof (induction fuel arbitrary: pv)
  case 0
  then show ?case by (simp add: probing_rounds.simps split: if_splits)
next
  case (Suc fuel)
  show ?case
  proof (cases "prop_activities pv = []")
    case True
    with Suc.prems show ?thesis by (simp add: probing_rounds.simps)
  next
    case False
    let ?pv = "pv\<lparr>pv_round := pv_round pv - 1\<rparr>"
    obtain pv1 stop where run: "propagate_cands num p (prop_activities pv) ?pv = (pv1, stop)" by fastforce
    have rows: "\<forall>r \<in> set (prop_activities pv). r < getNRows p" using Suc.prems(1) by (simp add: view_inv_def)
    have inv: "view_inv p pv1"
      using propagate_cands_view_inv [OF assms(2) round_view_inv [OF Suc.prems(1)] rows, of num] run by simp
    have "holds x ?pv" using Suc.prems(2) by (simp add: holds_def)
    from propagate_cands_holds [OF assms(1-3) round_view_inv [OF Suc.prems(1)] this rows] run
    have "holds x pv1" "\<not> stop" by simp_all
    moreover from this have "holds x (swap_candidates pv1)" by (simp add: holds_def swap_candidates_def)
    ultimately show ?thesis
      using Suc.IH [OF swap_view_inv [OF inv]] Suc.prems(3) False run
      by (simp add: probing_rounds.simps [of "Suc fuel"])
  qed
qed

lemma propagateDomains_view_inv:
  "problem_ok p \<Longrightarrow> view_inv p pv \<Longrightarrow> propagateDomains fuel num p pv = Some pv' \<Longrightarrow> view_inv p pv'"
  unfolding propagateDomains_def by (rule probing_rounds_view_inv [OF _ swap_view_inv])

lemma propagateDomains_holds:
  assumes "num_ok num" and "problem_ok p" and "feasible p x" and "view_inv p pv" and "holds x pv"
    and "propagateDomains fuel num p pv = Some pv'"
  shows "holds x pv'"
  using assms(5,6) probing_rounds_holds [OF assms(1-3) swap_view_inv [OF assms(4)]]
  by (simp add: propagateDomains_def holds_def swap_candidates_def)

lemma setProbingColumn_eq:
  "setProbingColumn num p col value pv = changeBound (if value then kLower else kUpper) num p col
     (if value then 1 else 0) (pv\<lparr>probingCol := int col, probingValue := value\<rparr>)"
  by (simp add: setProbingColumn_def changeBound_def)

lemma setProbingColumn_view_inv:
  "problem_ok p \<Longrightarrow> view_inv p pv \<Longrightarrow> col < getNCols p \<Longrightarrow> view_inv p (setProbingColumn num p col value pv)"
  unfolding setProbingColumn_eq by (rule changeBound_view_inv) (simp_all add: view_inv_def)

lemma setProbingColumn_holds:
  assumes "problem_ok p" and "num_ok num" and "feasible p x" and "view_inv p pv" and "holds x pv"
    and "col < getNCols p" and "x ! col = (if value then 1 else 0)"
  shows "holds x (setProbingColumn num p col value pv)"
  unfolding setProbingColumn_eq
  by (rule changeBound_holds [OF assms(1-3) _ _ assms(6)])
    (use assms(4,5,7) in \<open>simp_all add: view_inv_def holds_def bound_valid_def\<close>)

text \<open>
  Probing is sound: after a binary column was fixed tentatively and the fixing was propagated, the
  bounds of the view hold at every feasible point with that value of the column, so that an
  infeasible view proves that there is none.
\<close>

lemma probing_propagation_sound:
  assumes "num_ok num" and "problem_ok p" and "view_inv p pv"
    and "propagateDomains fuel num p (setProbingColumn num p col value pv) = Some pv'"
    and "col < getNCols p" and "feasible p x" and "x ! col = (if value then 1 else 0)" and "holds x pv"
  shows "\<not> pv_infeasible pv' \<and> in_domains (probing_domains pv') x"
proof -
  have "holds x (setProbingColumn num p col value pv)"
    by (rule setProbingColumn_holds [OF assms(2,1,6,3,8,5,7)])
  from propagateDomains_holds [OF assms(1,2,6) setProbingColumn_view_inv [OF assms(2,3,5)] this assms(4)]
  show ?thesis by (simp add: holds_def)
qed

section \<open>Reset restores the problem\<close>

definition reset_bound :: "BoundChange \<Rightarrow> problem \<Rightarrow> variable_domains \<Rightarrow> int \<Rightarrow> variable_domains" where
  "reset_bound type = (case type of kLower \<Rightarrow> reset_lb | kUpper \<Rightarrow> reset_ub)"

lemma set_useless_tests:
  "flags_test (flags_set [kLbUseless] f) [kLbUseless]"
  "flags_test (flags_set [kUbUseless] f) [kUbUseless]"
  "flags_test (flags_set [kLbUseless] f) [kUbUseless] = flags_test f [kUbUseless]"
  "flags_test (flags_set [kUbUseless] f) [kLbUseless] = flags_test f [kLbUseless]"
  "flags_test (flags_set [kLbUseless] f) [kLbInf]"
  "flags_test (flags_set [kUbUseless] f) [kUbInf]"
  "flags_test (flags_set [kLbUseless] f) [kUbInf] = flags_test f [kUbInf]"
  "flags_test (flags_set [kUbUseless] f) [kLbInf] = flags_test f [kLbInf]"
  by (simp_all add: flags_test_set flag_defs)

lemma reset_bound_dims [simp]: "dims_ok n (reset_bound type p D i) = dims_ok n D"
  by (cases type) (simp_all add: reset_bound_def reset_lb_def reset_ub_def dims_ok_def)

lemma reset_bound_at:
  assumes "dims_ok n D" and "c < n" and "logged_col i < n"
  shows "bound_useless t (reset_bound type p D i) c =
      (bound_useless t D c \<or> t = type \<and> i < 0 \<and> logged_col i = c)"
    and "bound_is_inf t (reset_bound type p D i) c = (bound_is_inf t D c \<or> t = type \<and> i < 0 \<and> logged_col i = c)"
    and "old_bound t (reset_bound type p D i) c =
      (if t = type \<and> 0 \<le> i \<and> logged_col i = c then old_bound t (prob_domains p) c else old_bound t D c)"
    and "other_flags (col_flags (reset_bound type p D i) ! c) = other_flags (col_flags D ! c)"
  using assms by (cases type; cases t; cases "logged_col i = c";
    auto simp: reset_bound_def reset_lb_def reset_ub_def dims_ok_def bound_useless_def bound_is_inf_def
      old_bound_def set_useless_tests other_flags_unset)+

lemma reset_bounds_at:
  assumes "dims_ok n D" and "c < n" and "\<forall>i \<in> set lg. logged_col i < n"
  shows "dims_ok n (foldl (reset_bound type p) D lg) \<and>
    bound_useless t (foldl (reset_bound type p) D lg) c =
      (bound_useless t D c \<or> t = type \<and> (\<exists>i \<in> set lg. i < 0 \<and> logged_col i = c)) \<and>
    bound_is_inf t (foldl (reset_bound type p) D lg) c =
      (bound_is_inf t D c \<or> t = type \<and> (\<exists>i \<in> set lg. i < 0 \<and> logged_col i = c)) \<and>
    old_bound t (foldl (reset_bound type p) D lg) c =
      (if t = type \<and> (\<exists>i \<in> set lg. 0 \<le> i \<and> logged_col i = c) then old_bound t (prob_domains p) c
       else old_bound t D c) \<and>
    other_flags (col_flags (foldl (reset_bound type p) D lg) ! c) = other_flags (col_flags D ! c)"
  using assms(1,3)
proof (induction lg arbitrary: D)
  case Nil
  then show ?case by simp
next
  case (Cons i lg)
  have i: "logged_col i < n" and D: "dims_ok n (reset_bound type p D i)" using Cons.prems by simp_all
  note at = reset_bound_at [OF Cons.prems(1) assms(2) i]
  have lg: "\<forall>i \<in> set lg. logged_col i < n" using Cons.prems(2) by simp
  from Cons.IH [OF D lg] show ?case by (auto simp: at)
qed

lemma reset_logic:
  assumes "if uo then (if ud then fd \<or> (od = oo \<and> \<not> fo) else n) else \<not> ud \<and> (od \<noteq> oo \<longrightarrow> z)"
    and "ur = (ud \<or> n)" and "fr = (fd \<or> n)" and "b = (if z then oo else od)"
    and "\<not> n \<or> uo \<and> \<not> ud" and "\<not> z \<or> \<not> uo"
  shows "if uo then (if ur then fr \<or> (b = oo \<and> \<not> fo) else False) else \<not> ur \<and> (b \<noteq> oo \<longrightarrow> False)"
  using assms(1) assms(5,6) unfolding assms(2-4) by (cases uo; cases ud; cases n; cases z; simp)

lemma reset_log_empty:
  assumes "bound_log type p D lg" and "dims_ok (getNCols p) D"
  shows "bound_log type p (foldl (reset_bound type p) D lg) []"
proof -
  have rng: "\<forall>i \<in> set lg. logged_col i < getNCols p" using assms(1) by (simp add: bound_log_def)
  note at = reset_bounds_at [OF assms(2) _ rng]
  have iff: "i < 0 \<and> logged_col i = c \<longleftrightarrow> i = - int c - 1" "0 \<le> i \<and> logged_col i = c \<longleftrightarrow> i = int c" for i c
    by (auto simp: logged_col_def)
  have neg: "(\<exists>i \<in> set lg. i < 0 \<and> logged_col i = c) \<longleftrightarrow> - int c - 1 \<in> set lg"
    and pos: "(\<exists>i \<in> set lg. 0 \<le> i \<and> logged_col i = c) \<longleftrightarrow> int c \<in> set lg" for c
    by (simp_all only: iff) simp_all
  have lc: "logged_col (- int c - 1) = c" "logged_col (int c) = c" for c by (simp_all add: logged_col_def)
  have inv: "i \<in> set lg \<Longrightarrow> \<not> bound_useless type D (logged_col i) \<and>
      (i < 0 \<longleftrightarrow> bound_useless type (prob_domains p) (logged_col i))" for i
    using assms(1) by (simp add: bound_log_def)
  have sgn: "- int c - 1 \<in> set lg \<Longrightarrow> bound_useless type (prob_domains p) c \<and> \<not> bound_useless type D c"
    "int c \<in> set lg \<Longrightarrow> \<not> bound_useless type (prob_domains p) c" for c
    using inv [of "- int c - 1"] inv [of "int c"] by (simp_all add: lc)
  let ?R = "foldl (reset_bound type p) D lg"
  have "if bound_useless type (prob_domains p) c
      then (if bound_useless type ?R c
        then bound_is_inf type ?R c \<or>
          old_bound type ?R c = old_bound type (prob_domains p) c \<and> \<not> bound_is_inf type (prob_domains p) c
        else False)
      else \<not> bound_useless type ?R c \<and>
        (old_bound type ?R c \<noteq> old_bound type (prob_domains p) c \<longrightarrow> False)"
    if "c < getNCols p" for c
  proof (rule reset_logic)
    show "if bound_useless type (prob_domains p) c
        then (if bound_useless type D c
          then bound_is_inf type D c \<or>
            old_bound type D c = old_bound type (prob_domains p) c \<and> \<not> bound_is_inf type (prob_domains p) c
          else - int c - 1 \<in> set lg)
        else \<not> bound_useless type D c \<and>
          (old_bound type D c \<noteq> old_bound type (prob_domains p) c \<longrightarrow> int c \<in> set lg)"
      using assms(1) that unfolding bound_log_def by blast
    show "bound_useless type ?R c = (bound_useless type D c \<or> - int c - 1 \<in> set lg)"
      "bound_is_inf type ?R c = (bound_is_inf type D c \<or> - int c - 1 \<in> set lg)"
      "old_bound type ?R c = (if int c \<in> set lg then old_bound type (prob_domains p) c else old_bound type D c)"
      using at [OF that, of type p type] unfolding neg pos by (simp_all only: simp_thms)
  qed (use sgn [of c] in blast)+
  then show ?thesis by (simp only: bound_log_def list.set empty_iff) blast
qed

lemma reset_log_other:
  assumes "bound_log type p D lg" and "dims_ok (getNCols p) D" and "t \<noteq> type" and "bound_log t p D lg'"
  shows "bound_log t p (foldl (reset_bound type p) D lg) lg'"
proof -
  have rng: "\<forall>i \<in> set lg. logged_col i < getNCols p" using assms(1) by (simp add: bound_log_def)
  have "bound_useless t (foldl (reset_bound type p) D lg) c = bound_useless t D c"
    "bound_is_inf t (foldl (reset_bound type p) D lg) c = bound_is_inf t D c"
    "old_bound t (foldl (reset_bound type p) D lg) c = old_bound t D c" if "c < getNCols p" for c
    using reset_bounds_at [OF assms(2) that rng, of type p t] assms(3) by simp_all
  with assms(4) show ?thesis by (simp add: bound_log_def)
qed

lemma restored_tracks:
  assumes "bound_log kLower p D []" and "bound_log kUpper p D []" and "problem_ok p"
  shows "all_tracked D (row_coeffs p) (row_activities p)"
proof -
  have eq: "bound_useless t D c = bound_useless t (prob_domains p) c"
    "\<not> bound_useless t D c \<Longrightarrow> old_bound t D c = old_bound t (prob_domains p) c" if "c < getNCols p" for t c
    using assms(1,2) that by (cases t; auto simp: bound_log_def split: if_splits)+
  have parts: "min_part D (c, v) = min_part (prob_domains p) (c, v)" "max_part D (c, v) = max_part (prob_domains p) (c, v)"
    "min_inf D (c, v) = min_inf (prob_domains p) (c, v)" "max_inf D (c, v) = max_inf (prob_domains p) (c, v)"
    if "c < getNCols p" for c v
    using eq [OF that, of kLower] eq [OF that, of kUpper]
    by (auto simp: part_defs bound_useless_def old_bound_def)
  have "tracks D row act = tracks (prob_domains p) row act" if "row \<in> set (row_coeffs p)" for row act
  proof -
    have "\<forall>(c, v) \<in> set row. c < getNCols p" using assms(3) that by (fastforce simp: problem_ok_def matrix_ok_def)
    then have "map (min_part D) row = map (min_part (prob_domains p)) row"
      "map (max_part D) row = map (max_part (prob_domains p)) row"
      "map (min_inf D) row = map (min_inf (prob_domains p)) row"
      "map (max_inf D) row = map (max_inf (prob_domains p)) row"
      using parts by (auto simp: split_paired_all)
    then show ?thesis by (simp only: tracks_def)
  qed
  with assms(3) show ?thesis by (simp add: all_tracked_def problem_ok_def)
qed

lemma restore_activities:
  assumes "length acts = length (row_activities p)" and "activity_logged p acts lg"
  shows "foldl (\<lambda>acts i. acts[i := row_activities p ! i]) acts lg = row_activities p"
proof -
  have "length (foldl (\<lambda>acts i. acts[i := row_activities p ! i]) as is) = length as \<and>
      (\<forall>r<length as. foldl (\<lambda>acts i. acts[i := row_activities p ! i]) as is ! r =
        (if r \<in> set is then row_activities p ! r else as ! r))" for as "is"
    by (induction "is" arbitrary: as) (auto simp: nth_list_update)
  with assms show ?thesis by (intro nth_equalityI) (auto simp: activity_logged_def)
qed

lemma view_reset_domains:
  "probing_domains (view_reset p pv) =
     foldl (reset_bound kUpper p) (foldl (reset_bound kLower p) (probing_domains pv) (changed_lbs pv)) (changed_ubs pv)"
  by (simp add: view_reset_def reset_bound_def)

definition fresh_rounds :: "problem \<Rightarrow> bool" where
  "fresh_rounds p \<longleftrightarrow> (\<forall>act \<in> set (row_activities p). -2 < lastchange act)"

lemma view_reset_inv:
  assumes "problem_ok p" and "fresh_rounds p" and "view_inv p pv"
  shows "view_inv p (view_reset p pv)" and "probing_activities (view_reset p pv) = row_activities p"
    and "bound_log kLower p (probing_domains (view_reset p pv)) []"
    and "bound_log kUpper p (probing_domains (view_reset p pv)) []"
proof -
  let ?D = "probing_domains pv" and ?R = "probing_domains (view_reset p pv)"
  have inv: "dims_ok (getNCols p) ?D" "bound_log kLower p ?D (changed_lbs pv)" "bound_log kUpper p ?D (changed_ubs pv)"
    "length (probing_activities pv) = length (row_activities p)"
    "activity_logged p (probing_activities pv) (changed_activities pv)"
    "\<And>c. c < getNCols p \<Longrightarrow> other_flags (col_flags ?D ! c) = other_flags (prob_cflags p ! c)"
    using assms(1,3) by (auto simp: view_inv_def all_tracked_def problem_ok_def)
  let ?L = "foldl (reset_bound kLower p) ?D (changed_lbs pv)"
  note lo = reset_log_empty [OF inv(2,1)]
  have rngL: "\<forall>i \<in> set (changed_lbs pv). logged_col i < getNCols p"
    and rngU: "\<forall>i \<in> set (changed_ubs pv). logged_col i < getNCols p"
    using inv(2,3) by (simp_all add: bound_log_def)
  have dims_fold: "dims_ok n (foldl (reset_bound type p) D lg) = dims_ok n D" for n type D lg
    by (induction lg arbitrary: D) simp_all
  have dimsL: "dims_ok (getNCols p) ?L" using inv(1) by (simp add: dims_fold)
  have upL: "bound_log kUpper p ?L (changed_ubs pv)" by (rule reset_log_other [OF inv(2,1) _ inv(3)]) simp
  note up = reset_log_empty [OF upL dimsL]
  have R: "?R = foldl (reset_bound kUpper p) ?L (changed_ubs pv)" by (rule view_reset_domains)
  show bl: "bound_log kLower p ?R []" unfolding R by (rule reset_log_other [OF upL dimsL _ lo]) simp
  show bu: "bound_log kUpper p ?R []" unfolding R by (rule up)
  show acts: "probing_activities (view_reset p pv) = row_activities p"
    using restore_activities [OF inv(4,5)] by (simp add: view_reset_def)
  have "other_flags (col_flags ?R ! c) = other_flags (prob_cflags p ! c)" if "c < getNCols p" for c
    using reset_bounds_at [OF dimsL that rngU, of kUpper p] reset_bounds_at [OF inv(1) that rngL, of kLower p]
      inv(6) [OF that] by (simp add: R)
  moreover have "dims_ok (getNCols p) ?R" using dimsL by (simp add: R dims_fold)
  moreover have "activity_logged p (row_activities p) []"
    using assms(2) by (simp add: activity_logged_def fresh_rounds_def)
  ultimately show "view_inv p (view_reset p pv)"
    using bl bu restored_tracks [OF bl bu assms(1)] acts
    by (simp add: view_inv_def) (simp add: view_reset_def)
qed

lemma restored_domain:
  assumes "bound_log kLower p D []" and "bound_log kUpper p D []" and "dims_ok (getNCols p) D"
    and "feasible p x" and "problem_ok p"
  shows "in_domains D x"
proof -
  have "in_col_domain D c (x ! c)" if c: "c < getNCols p" for c
  proof -
    have old: "in_col_domain (prob_domains p) c (x ! c)"
      using assms(4,5) c by (auto simp: feasible_def in_domains_def problem_ok_def)
    have "bound_is_inf kLower D c \<or> old_bound kLower D c \<le> x ! c"
      using assms(1) c old in_col_domain_lb [OF old]
      by (fastforce simp: bound_log_def bound_is_inf_def old_bound_def bound_useless_def in_col_domain_def split: if_splits)
    moreover have "bound_is_inf kUpper D c \<or> x ! c \<le> old_bound kUpper D c"
      using assms(2) c old in_col_domain_ub [OF old]
      by (fastforce simp: bound_log_def bound_is_inf_def old_bound_def bound_useless_def in_col_domain_def split: if_splits)
    ultimately show ?thesis by (simp add: in_col_domain_def bound_is_inf_def old_bound_def)
  qed
  with assms(3) show ?thesis by (simp add: in_domains_def dims_ok_def)
qed

text \<open>
  \<open>reset\<close> undoes a probing run from its logs: the activities are those of the problem again, every
  bound that counts in an activity is the problem's again, no bound of the view cuts off a feasible
  point, and the view is ready for the next run.
\<close>

lemma view_reset_restores:
  assumes "problem_ok p" and "fresh_rounds p" and "view_inv p pv"
  shows "view_inv p (view_reset p pv) \<and> probing_activities (view_reset p pv) = row_activities p \<and>
    (\<forall>c<getNCols p. \<forall>t. bound_useless t (probing_domains (view_reset p pv)) c = bound_useless t (prob_domains p) c \<and>
      (\<not> bound_useless t (prob_domains p) c \<longrightarrow>
        old_bound t (probing_domains (view_reset p pv)) c = old_bound t (prob_domains p) c)) \<and>
    (\<forall>x. feasible p x \<longrightarrow> holds x (view_reset p pv))"
proof -
  note r = view_reset_inv [OF assms]
  have "bound_useless t (probing_domains (view_reset p pv)) c = bound_useless t (prob_domains p) c \<and>
      (\<not> bound_useless t (prob_domains p) c \<longrightarrow>
        old_bound t (probing_domains (view_reset p pv)) c = old_bound t (prob_domains p) c)"
    if "c < getNCols p" for c t
    using r(3,4) that by (cases t; auto simp: bound_log_def split: if_splits)
  moreover have "holds x (view_reset p pv)" if "feasible p x" for x
  proof -
    have "dims_ok (getNCols p) (probing_domains (view_reset p pv))" using r(1) by (simp add: view_inv_def)
    from restored_domain [OF r(3,4) this that assms(1)] show ?thesis
      by (simp add: holds_def) (simp add: view_reset_def)
  qed
  ultimately show ?thesis using r(1,2) by blast
qed

section \<open>What the two outcomes prove\<close>

definition chg_valid :: "rat list \<Rightarrow> ProbingBoundChg \<Rightarrow> bool" where
  "chg_valid x chg =
     bound_valid (if pbc_upper chg then kUpper else kLower) (pbc_bound chg) (x ! pbc_col chg)"

definition subst_valid :: "rat list \<Rightarrow> ProbingSubstitution \<Rightarrow> bool" where
  "subst_valid x s \<longleftrightarrow> x ! ps_col1 s = ps_col2scale s * x ! ps_col2 s + ps_col2const s"

text \<open>The shape of the one substitution that may be wrong: the probed column is another one plus one.\<close>

definition swapped_shift :: "ProbingSubstitution \<Rightarrow> bool" where
  "swapped_shift s \<longleftrightarrow> ps_col2scale s = 1 \<and> ps_col2const s = 1"

definition results_valid :: "problem \<Rightarrow> probing_view \<Rightarrow> bool" where
  "results_valid p pv \<longleftrightarrow> (\<forall>x. feasible p x \<longrightarrow> list_all (chg_valid x) (boundChanges pv) \<and>
     list_all (\<lambda>s. subst_valid x s \<or> swapped_shift s) (substitutions pv))"

definition ready :: "problem \<Rightarrow> probing_view \<Rightarrow> bool" where
  "ready p pv \<longleftrightarrow> view_inv p pv \<and> bound_log kLower p (probing_domains pv) [] \<and>
     bound_log kUpper p (probing_domains pv) [] \<and> \<not> pv_infeasible pv"

lemma ready_holds: "ready p pv \<Longrightarrow> problem_ok p \<Longrightarrow> feasible p x \<Longrightarrow> holds x pv"
  using restored_domain [of p "probing_domains pv" x] by (simp add: ready_def holds_def view_inv_def)

lemma reset_ready: "problem_ok p \<Longrightarrow> fresh_rounds p \<Longrightarrow> view_inv p pv \<Longrightarrow> ready p (view_reset p pv)"
  using view_reset_inv [of p pv] by (simp add: ready_def) (simp add: view_reset_def)


lemma new_view_ready:
  assumes "problem_ok p" and "fresh_rounds p"
  shows "ready p (new_probing_view num p)"
proof -
  have "bound_log t p (prob_domains p) []" for t
    by (auto simp: bound_log_def bound_useless_def bound_is_inf_def flags_test_useless split: BoundChange.splits)
  with assms show ?thesis
    by (auto simp: ready_def view_inv_def new_probing_view_def problem_ok_def dims_ok_def activity_logged_def
        fresh_rounds_def all_tracked_def)
qed

subsection \<open>The results survive a propagation\<close>

definition same_results :: "probing_view \<Rightarrow> probing_view \<Rightarrow> bool" where
  "same_results pv pv' \<longleftrightarrow> probingCol pv' = probingCol pv \<and> probingValue pv' = probingValue pv \<and>
     otherValueImplications pv' = otherValueImplications pv \<and>
     otherValueInfeasible pv' = otherValueInfeasible pv \<and> boundChanges pv' = boundChanges pv \<and>
     substitutions pv' = substitutions pv"

lemma same_results_trans: "same_results a b \<Longrightarrow> same_results b c \<Longrightarrow> same_results a c"
  by (simp add: same_results_def)

lemma same_results_refl [simp]: "same_results a a" "same_results a (a\<lparr>pv_infeasible := i\<rparr>)"
  "same_results a (swap_candidates a)" "same_results a (a\<lparr>pv_round := k\<rparr>)"
  by (simp_all add: same_results_def swap_candidates_def)

lemma probe_bound_results: "same_results pv (probe_bound num p t c b r pv)"
  using probe_bound_cases [of num p t c b r pv] changeBound_frame(1) [of pv t num p c]
  by (auto simp: same_run_def same_results_def)

lemma propagate_cand_results: "same_results pv (propagate_cand num p r pv)"
  unfolding propagate_cand_def
  by (rule propagate_row_preserves [where P = "same_results pv"])
    (auto intro: same_results_trans probe_bound_results)

lemma propagate_cands_results: "same_results pv (fst (propagate_cands num p rs pv))"
proof (induction rs arbitrary: pv)
  case (Cons r rs)
  have "same_results pv (propagate_cand num p r pv)" by (rule propagate_cand_results)
  with Cons.IH [of pv] Cons.IH [of "propagate_cand num p r pv"] show ?case
    by (auto simp: Let_def intro: same_results_trans)
qed simp

lemma probing_rounds_results:
  "probing_rounds fuel num p pv = Some pv' \<Longrightarrow> same_results pv pv'"
proof (induction fuel arbitrary: pv)
  case 0
  then show ?case by (auto simp: probing_rounds.simps split: if_splits)
next
  case (Suc fuel)
  show ?case
  proof (cases "prop_activities pv = []")
    case True
    with Suc.prems show ?thesis by (simp add: probing_rounds.simps)
  next
    case False
    let ?pv = "pv\<lparr>pv_round := pv_round pv - 1\<rparr>"
    obtain pv1 stop where run: "propagate_cands num p (prop_activities pv) ?pv = (pv1, stop)" by fastforce
    have "same_results pv ?pv" by simp
    with propagate_cands_results [of ?pv num p "prop_activities pv"] run have "same_results pv pv1"
      by (metis fst_conv same_results_trans)
    moreover from this have "same_results pv (swap_candidates pv1)" by (rule same_results_trans) simp
    ultimately show ?thesis
      using Suc.IH [of "swap_candidates pv1"] Suc.prems False run same_results_trans
      by (fastforce simp: probing_rounds.simps [of "Suc fuel"] split: if_splits)
  qed
qed

lemma probe_run_results:
  assumes "propagateDomains fuel num p (setProbingColumn num p col value pv) = Some pv'"
  shows "same_results (pv\<lparr>probingCol := int col, probingValue := value\<rparr>) pv'"
proof -
  have "same_results (pv\<lparr>probingCol := int col, probingValue := value\<rparr>) (setProbingColumn num p col value pv)"
    unfolding setProbingColumn_eq
    using changeBound_frame(1) [of "pv\<lparr>probingCol := int col, probingValue := value\<rparr>"]
    by (simp add: same_run_def same_results_def)
  then show ?thesis
    using probing_rounds_results [OF assms [unfolded propagateDomains_def]]
    by (meson same_results_refl(3) same_results_trans)
qed

subsection \<open>Implications and their analysis\<close>

lemma stored_valid:
  assumes "view_inv p pv" and "holds x pv"
  shows "list_all (chg_valid x) (map (store_lb pv) (changed_lbs pv) @ map (store_ub pv) (changed_ubs pv))"
proof -
  let ?D = "probing_domains pv"
  have lb: "lower_bounds ?D ! logged_col i \<le> x ! logged_col i" if "i \<in> set (changed_lbs pv)" for i
  proof -
    have "logged_col i < getNCols p" "\<not> lb_useless ?D (logged_col i)"
      using assms(1) that by (auto simp: view_inv_def bound_log_def bound_useless_def)
    moreover have "dims_ok (getNCols p) ?D" using assms(1) by (simp add: view_inv_def)
    ultimately show ?thesis
      using assms(2) in_col_domain_lb by (auto simp: holds_def in_domains_def dims_ok_def)
  qed
  have ub: "x ! logged_col i \<le> upper_bounds ?D ! logged_col i" if "i \<in> set (changed_ubs pv)" for i
  proof -
    have "logged_col i < getNCols p" "\<not> ub_useless ?D (logged_col i)"
      using assms(1) that by (auto simp: view_inv_def bound_log_def bound_useless_def)
    moreover have "dims_ok (getNCols p) ?D" using assms(1) by (simp add: view_inv_def)
    ultimately show ?thesis
      using assms(2) in_col_domain_ub by (auto simp: holds_def in_domains_def dims_ok_def)
  qed
  show ?thesis
    using lb ub by (auto simp: list_all_iff store_lb_def store_ub_def chg_valid_def bound_valid_def)
qed

lemma storeImplications_valid:
  assumes "view_inv p pv" and "holds x pv"
  shows "list_all (chg_valid x) (otherValueImplications (storeImplications pv))"
  using stored_valid [OF assms] assms(2)
  by (auto simp: storeImplications_def holds_def list_all_iff)

text \<open>What the analysis knows of a feasible point, by its value in the probed column.\<close>

definition outcome_known :: "problem \<Rightarrow> probing_view \<Rightarrow> rat list \<Rightarrow> bool" where
  "outcome_known p pv x \<longleftrightarrow>
     (let v = x ! nat (probingCol pv); this = (if probingValue pv then 1 else 0) in
       (v = 0 \<or> v = 1) \<and>
       (v = this \<longrightarrow> holds x pv) \<and>
       (v \<noteq> this \<longrightarrow> \<not> otherValueInfeasible pv \<and> list_all (chg_valid x) (otherValueImplications pv)))"

lemma analyze_implication_frame:
  "probing_domains (analyze_implication num p pv chg) = probing_domains pv \<and>
   pv_infeasible (analyze_implication num p pv chg) = pv_infeasible pv \<and>
   probingCol (analyze_implication num p pv chg) = probingCol pv \<and>
   probingValue (analyze_implication num p pv chg) = probingValue pv \<and>
   view_inv p (analyze_implication num p pv chg) = view_inv p pv"
  by (simp add: analyze_implication_def Let_def view_inv_def)

lemma swap_back:
  fixes u v w z :: rat
  assumes "v = z + (w - z) * u" and "\<bar>w - z\<bar> = 1" and "z = 1 \<or> z = 0" and "\<not> (w - z = 1 \<and> z = 1)"
  shows "u = (w - z) * v + z"
proof -
  have "w - z = 1 \<or> w - z = -1" using assms(2) by linarith
  with assms(1,3,4) show ?thesis by auto
qed

lemma probing_substitution_valid:
  assumes "x ! c = (if x ! nat (probingCol pv) = (if probingValue pv then 1 else 0)
      then lower_bounds (probing_domains pv) ! c else b)"
    and "pbc_col chg = c" and "pbc_bound chg = b"
    and "x ! nat (probingCol pv) = 0 \<or> x ! nat (probingCol pv) = 1"
  shows "subst_valid x (probing_substitution pv chg) \<or> swapped_shift (probing_substitution pv chg)"
proof -
  define z where "z = (if probingValue pv then b else lower_bounds (probing_domains pv) ! c)"
  define w where "w = (if probingValue pv then lower_bounds (probing_domains pv) ! c else b)"
  have xc: "x ! c = z + (w - z) * x ! nat (probingCol pv)"
    using assms(1,4) by (auto simp: z_def w_def)
  show ?thesis
    unfolding probing_substitution_def Let_def assms(2,3) z_def [symmetric] w_def [symmetric]
    using xc swap_back [OF xc] by (auto simp: subst_valid_def swapped_shift_def)
qed

lemma implied_fixing_at:
  assumes "feasible p x" and "problem_ok p" and "pbc_col chg < getNCols p" and "implied_fixing p chg"
    and "chg_valid x chg"
  shows "x ! pbc_col chg = pbc_bound chg"
proof -
  have "in_col_domain (prob_domains p) (pbc_col chg) (x ! pbc_col chg)"
    using assms(1-3) by (simp add: feasible_def in_domains_def problem_ok_def)
  with assms(4,5) show ?thesis
    using in_col_domain_lb in_col_domain_ub
    by (fastforce simp: implied_fixing_def chg_valid_def bound_valid_def)
qed

text \<open>When the analysis of an implication emits a substitution, and what the column is worth then.\<close>

definition emits :: "problem \<Rightarrow> probing_view \<Rightarrow> ProbingBoundChg \<Rightarrow> bool" where
  "emits p pv chg \<longleftrightarrow> implied_fixing p chg \<and> \<not> flags_test (col_flags (probing_domains pv) ! pbc_col chg) [kUnbounded] \<and>
     lower_bounds (probing_domains pv) ! pbc_col chg = upper_bounds (probing_domains pv) ! pbc_col chg"

lemma emitted_value:
  assumes "problem_ok p" and "feasible p x" and "dims_ok (getNCols p) (probing_domains pv)"
    and "pbc_col chg < getNCols p" and "x ! nat (probingCol pv) = 0 \<or> x ! nat (probingCol pv) = 1"
    and "x ! nat (probingCol pv) = (if probingValue pv then 1 else 0) \<longrightarrow> holds x pv"
    and "x ! nat (probingCol pv) \<noteq> (if probingValue pv then 1 else 0) \<longrightarrow> chg_valid x chg"
    and "emits p pv chg"
  shows "x ! pbc_col chg = (if x ! nat (probingCol pv) = (if probingValue pv then 1 else 0)
    then lower_bounds (probing_domains pv) ! pbc_col chg else pbc_bound chg)"
proof -
  let ?D = "probing_domains pv" and ?c = "pbc_col chg"
  let ?here = "x ! nat (probingCol pv) = (if probingValue pv then 1 else 0)"
  have dom: "?here \<Longrightarrow> in_col_domain ?D ?c (x ! ?c)"
    using assms(3,4,6) by (simp add: holds_def in_domains_def dims_ok_def)
  have "\<not> flags_test (col_flags ?D ! ?c) [kLbInf]" "\<not> flags_test (col_flags ?D ! ?c) [kUbInf]"
    using assms(8) by (auto simp: emits_def flags_test_def kUnbounded_def bit.conj_disj_distrib word_or_eq_0)
  with dom assms(8) have "?here \<Longrightarrow> x ! ?c = lower_bounds ?D ! ?c" by (auto simp: emits_def in_col_domain_def)
  moreover have "\<not> ?here \<Longrightarrow> x ! ?c = pbc_bound chg"
    using implied_fixing_at [OF assms(2,1,4)] assms(7,8) by (simp add: emits_def)
  ultimately show ?thesis by simp
qed

lemma analyze_all_substs:
  "s \<in> set (substitutions (foldl (analyze_implication num p) pv chgs)) \<Longrightarrow>
    s \<in> set (substitutions pv) \<or> (\<exists>chg\<in>set chgs. emits p pv chg \<and> s = probing_substitution pv chg)"
proof (induction chgs arbitrary: pv)
  case (Cons chg chgs)
  let ?pv = "analyze_implication num p pv chg"
  have same: "probing_substitution ?pv c = probing_substitution pv c" "emits p ?pv c = emits p pv c" for c
    using analyze_implication_frame [of num p pv chg] by (simp_all add: probing_substitution_def emits_def)
  have "s \<in> set (substitutions ?pv) \<Longrightarrow> s \<in> set (substitutions pv) \<or> (emits p pv chg \<and> s = probing_substitution pv chg)"
    by (auto simp: analyze_implication_def Let_def emits_def split: if_splits)
  with Cons.IH [of ?pv] Cons.prems show ?case unfolding same by auto
qed simp

text \<open>The swap is wrong for the one shape: the column is the probed one plus one, not the other way round.\<close>

lemma swapped_value:
  assumes "x ! pbc_col chg = (if x ! nat (probingCol pv) = (if probingValue pv then 1 else 0)
      then lower_bounds (probing_domains pv) ! pbc_col chg else pbc_bound chg)"
    and "x ! nat (probingCol pv) = 0 \<or> x ! nat (probingCol pv) = 1" and "pbc_col chg \<noteq> nat (probingCol pv)"
    and "ps_col1 (probing_substitution pv chg) = nat (probingCol pv)" and "swapped_shift (probing_substitution pv chg)"
  shows "ps_col2 (probing_substitution pv chg) = pbc_col chg \<and> x ! pbc_col chg = x ! nat (probingCol pv) + 1"
proof -
  define z where "z = (if probingValue pv then pbc_bound chg else lower_bounds (probing_domains pv) ! pbc_col chg)"
  define w where "w = (if probingValue pv then lower_bounds (probing_domains pv) ! pbc_col chg else pbc_bound chg)"
  have xc: "x ! pbc_col chg = z + (w - z) * x ! nat (probingCol pv)"
    using assms(1,2) by (auto simp: z_def w_def)
  show ?thesis
    using assms(3-5) xc unfolding probing_substitution_def Let_def z_def [symmetric] w_def [symmetric]
    by (auto simp: swapped_shift_def split: if_splits)
qed

lemma analyze_implication_valid:
  assumes "problem_ok p" and "feasible p x" and "dims_ok (getNCols p) (probing_domains pv)"
    and "pbc_col chg < getNCols p" and "x ! nat (probingCol pv) = 0 \<or> x ! nat (probingCol pv) = 1"
    and "x ! nat (probingCol pv) = (if probingValue pv then 1 else 0) \<longrightarrow> holds x pv"
    and "x ! nat (probingCol pv) \<noteq> (if probingValue pv then 1 else 0) \<longrightarrow> chg_valid x chg"
    and "list_all (chg_valid x) (boundChanges pv)"
    and "list_all (\<lambda>s. subst_valid x s \<or> swapped_shift s) (substitutions pv)"
  shows "list_all (chg_valid x) (boundChanges (analyze_implication num p pv chg)) \<and>
    list_all (\<lambda>s. subst_valid x s \<or> swapped_shift s) (substitutions (analyze_implication num p pv chg))"
proof -
  let ?D = "probing_domains pv" and ?c = "pbc_col chg"
  let ?here = "x ! nat (probingCol pv) = (if probingValue pv then 1 else 0)"
  have dom: "?here \<Longrightarrow> in_col_domain ?D ?c (x ! ?c)"
    using assms(3,4,6) by (simp add: holds_def in_domains_def dims_ok_def)
  have inf: "pv_infeasible pv \<Longrightarrow> chg_valid x chg" using assms(6,7) by (auto simp: holds_def)
  have up: "chg_valid x \<lparr>pbc_upper = True, pbc_col = ?c,
      pbc_bound = num_max (pbc_bound chg) (upper_bounds ?D ! ?c), pbc_probing_col = k\<rparr>"
    if "pbc_upper chg" "\<not> flags_test (col_flags ?D ! ?c) [kUbInf]" for k
  proof (cases ?here)
    case True
    from dom [OF True] that show ?thesis
      by (auto simp: chg_valid_def bound_valid_def num_max_def in_col_domain_def)
  next
    case False
    with assms(7) that show ?thesis by (auto simp: chg_valid_def bound_valid_def num_max_def)
  qed
  have lo: "chg_valid x \<lparr>pbc_upper = False, pbc_col = ?c,
      pbc_bound = num_min (pbc_bound chg) (lower_bounds ?D ! ?c), pbc_probing_col = k\<rparr>"
    if "\<not> pbc_upper chg" "\<not> flags_test (col_flags ?D ! ?c) [kLbInf]" for k
  proof (cases ?here)
    case True
    from dom [OF True] that show ?thesis
      by (auto simp: chg_valid_def bound_valid_def num_min_def in_col_domain_def)
  next
    case False
    with assms(7) that show ?thesis by (auto simp: chg_valid_def bound_valid_def num_min_def)
  qed
  have sub: "subst_valid x (probing_substitution pv chg) \<or> swapped_shift (probing_substitution pv chg)"
    if "emits p pv chg"
    by (rule probing_substitution_valid [OF emitted_value [OF assms(1-7) that] refl refl assms(5)])
  show ?thesis
    using assms(8,9) inf up lo sub unfolding analyze_implication_def Let_def emits_def by auto
qed

text \<open>The loop over the stored implications, and the whole analysis.\<close>

lemma analyze_all_valid:
  assumes "problem_ok p" and "feasible p x" and "view_inv p pv" and "outcome_known p pv x"
    and "\<forall>chg \<in> set chgs. pbc_col chg < getNCols p"
    and "x ! nat (probingCol pv) \<noteq> (if probingValue pv then 1 else 0) \<longrightarrow> list_all (chg_valid x) chgs"
    and "list_all (chg_valid x) (boundChanges pv)"
    and "list_all (\<lambda>s. subst_valid x s \<or> swapped_shift s) (substitutions pv)"
  shows "list_all (chg_valid x) (boundChanges (foldl (analyze_implication num p) pv chgs)) \<and>
    list_all (\<lambda>s. subst_valid x s \<or> swapped_shift s) (substitutions (foldl (analyze_implication num p) pv chgs))"
proof -
  have dims: "dims_ok (getNCols p) (probing_domains pv)" using assms(3) by (simp add: view_inv_def)
  have known: "x ! nat (probingCol pv) = 0 \<or> x ! nat (probingCol pv) = 1"
    "x ! nat (probingCol pv) = (if probingValue pv then 1 else 0) \<longrightarrow> holds x pv"
    using assms(4) by (auto simp: outcome_known_def Let_def)
  show ?thesis using dims known assms(5-8)
  proof (induction chgs arbitrary: pv)
    case (Cons chg chgs)
    let ?pv = "analyze_implication num p pv chg"
    note fr = analyze_implication_frame [of num p pv chg]
    have "list_all (chg_valid x) (boundChanges ?pv) \<and>
        list_all (\<lambda>s. subst_valid x s \<or> swapped_shift s) (substitutions ?pv)"
      using Cons.prems by (intro analyze_implication_valid [OF assms(1,2)]) auto
    then show ?case using Cons.IH [of ?pv] Cons.prems fr by (simp add: holds_def)
  qed simp
qed

lemma analyzeImplications_valid:
  assumes "problem_ok p" and "view_inv p pv" and "analyzeImplications num p pv = (g, pv')"
    and "0 \<le> probingCol pv"
    and "\<And>x. feasible p x \<Longrightarrow> outcome_known p pv x"
    and "\<forall>chg \<in> set (otherValueImplications pv). pbc_col chg < getNCols p"
    and "results_valid p pv"
  shows "if g then \<not> (\<exists>x. feasible p x) else results_valid p pv'"
proof (cases "otherValueInfeasible pv")
  case True
  have here: "x ! nat (probingCol pv) = (if probingValue pv then 1 else 0) \<and> holds x pv" if "feasible p x" for x
    using assms(5) [OF that] True by (auto simp: outcome_known_def Let_def)
  show ?thesis
  proof (cases "pv_infeasible pv")
    case True
    with assms(3) \<open>otherValueInfeasible pv\<close> here show ?thesis
      by (auto simp: analyzeImplications_def holds_def)
  next
    case False
    with assms(3) True have pv': "g = False" "pv' = pv\<lparr>boundChanges := boundChanges pv @
        map (store_lb pv) (changed_lbs pv) @ map (store_ub pv) (changed_ubs pv)\<rparr>"
      by (auto simp: analyzeImplications_def)
    show ?thesis
      using assms(7) stored_valid [OF assms(2)] here by (simp add: pv' results_valid_def)
  qed
next
  case False
  let ?pv = "if pv_infeasible pv then
       pv\<lparr>boundChanges := boundChanges pv @
         [if probingValue pv
          then \<lparr>pbc_upper = True, pbc_col = nat (probingCol pv), pbc_bound = 0, pbc_probing_col = -1\<rparr>
          else \<lparr>pbc_upper = False, pbc_col = nat (probingCol pv), pbc_bound = 1, pbc_probing_col = -1\<rparr>]\<rparr>
       else pv"
  from assms(3) False have run: "g = False" "pv' = foldl (analyze_implication num p) ?pv (otherValueImplications pv)"
    by (auto simp: analyzeImplications_def Let_def)
  have "list_all (chg_valid x) (boundChanges pv') \<and>
      list_all (\<lambda>s. subst_valid x s \<or> swapped_shift s) (substitutions pv')" if x: "feasible p x" for x
    unfolding run(2)
  proof (rule analyze_all_valid [OF assms(1) x _ _ assms(6)])
    have known: "outcome_known p pv x" by (rule assms(5) [OF x])
    show "view_inv p ?pv" using assms(2) by (simp add: view_inv_def)
    show "outcome_known p ?pv x"
      using known by (cases "pv_infeasible pv") (simp_all add: outcome_known_def holds_def Let_def)
    show "x ! nat (probingCol ?pv) \<noteq> (if probingValue ?pv then 1 else 0) \<longrightarrow>
        list_all (chg_valid x) (otherValueImplications pv)"
      using known by (auto simp: outcome_known_def Let_def)
    show "list_all (chg_valid x) (boundChanges ?pv)"
      using assms(7) x known
      by (auto simp: results_valid_def outcome_known_def Let_def holds_def chg_valid_def bound_valid_def)
    show "list_all (\<lambda>s. subst_valid x s \<or> swapped_shift s) (substitutions ?pv)"
      using assms(7) x by (simp add: results_valid_def)
  qed
  then show ?thesis by (simp add: run(1) results_valid_def)
qed

subsection \<open>Probing a candidate\<close>

lemma binary_point:
  assumes "feasible p x" and "isBinary (prob_domains p) col" and "col < getNCols p" and "problem_ok p"
  shows "x ! col = 0 \<or> x ! col = 1"
proof -
  have "in_col_domain (prob_domains p) col (x ! col)" "x ! col \<in> \<int>"
    using assms by (auto simp: feasible_def in_domains_def integral_point_def problem_ok_def isBinary_def flags_test_Cons)
  with assms(2) obtain k where "x ! col = of_int k" "0 \<le> x ! col" "x ! col \<le> 1"
    by (auto simp: isBinary_def in_col_domain_def flags_test_Cons flags_test_useless elim!: Ints_cases)
  then have "k = 0 \<or> k = 1" by auto
  with \<open>x ! col = of_int k\<close> show ?thesis by auto
qed

lemma store_view_inv: "view_inv p (storeImplications pv) = view_inv p pv"
  by (simp add: storeImplications_def view_inv_def)

lemma analyze_view_inv:
  assumes "analyzeImplications num p pv = (g, pv')"
  shows "view_inv p pv' = view_inv p pv"
proof -
  have fold: "view_inv p (foldl (analyze_implication num p) v chgs) = view_inv p v" for v chgs
    by (induction chgs arbitrary: v) (simp_all add: analyze_implication_frame)
  show ?thesis
    using assms by (auto simp: analyzeImplications_def Let_def fold split: if_splits) (auto simp: view_inv_def)
qed

lemma stored_cols:
  assumes "view_inv p pv" and "\<forall>chg \<in> set (otherValueImplications pv). pbc_col chg < getNCols p"
  shows "\<forall>chg \<in> set (otherValueImplications (storeImplications pv)). pbc_col chg < getNCols p"
  using assms by (auto simp: storeImplications_def view_inv_def bound_log_def store_lb_def store_ub_def)

lemma reset_results:
  "otherValueImplications (view_reset p pv) = otherValueImplications pv"
  "otherValueInfeasible (view_reset p pv) = otherValueInfeasible pv"
  "boundChanges (view_reset p pv) = boundChanges pv" "substitutions (view_reset p pv) = substitutions pv"
  by (simp_all add: view_reset_def)

text \<open>The stages of a candidate: the one branch, the zero branch and what is known before the analysis.\<close>

lemma probe_candidate_stages:
  assumes "num_ok num" and "problem_ok p" and "fresh_rounds p" and "ready p pv"
    and "col < getNCols p" and "isBinary (prob_domains p) col"
    and "\<forall>chg \<in> set (otherValueImplications pv). pbc_col chg < getNCols p"
    and "probe_candidate fuel num p col pv = Some (g, pv')"
  obtains pv1 pv2 pv3 where "view_inv p pv2" and "analyzeImplications num p pv2 = (g, pv3)" and "pv' = view_reset p pv3"
    and "otherValueImplications pv2 = otherValueImplications (storeImplications pv1)"
    and "otherValueInfeasible pv2 = pv_infeasible pv1" and "probingCol pv2 = int col"
    and "boundChanges pv2 = boundChanges pv" and "substitutions pv2 = substitutions pv"
    and "probingCol pv1 = int col"
    and "\<And>x. feasible p x \<Longrightarrow> outcome_known p pv2 x"
    and "\<forall>chg \<in> set (otherValueImplications pv2). pbc_col chg < getNCols p"
proof -
  obtain pv1 pv2 pv3 where
    r1: "propagateDomains fuel num p (setProbingColumn num p col True pv) = Some pv1" and
    r2: "propagateDomains fuel num p
       (setProbingColumn num p col False (view_reset p (storeImplications pv1))) = Some pv2" and
    r3: "analyzeImplications num p pv2 = (g, pv3)" and pv': "pv' = view_reset p pv3"
    using assms(8) by (auto simp: probe_candidate_def split: option.splits prod.splits)
  let ?mid = "view_reset p (storeImplications pv1)"
  have inv: "view_inv p pv" using assms(4) by (simp add: ready_def)
  have inv1: "view_inv p pv1"
    by (rule propagateDomains_view_inv [OF assms(2) setProbingColumn_view_inv [OF assms(2) inv assms(5)] r1])
  have mid: "ready p ?mid" by (rule reset_ready [OF assms(2,3)]) (simp add: store_view_inv inv1)
  then have invm: "view_inv p ?mid" by (simp add: ready_def)
  have inv2: "view_inv p pv2"
    by (rule propagateDomains_view_inv [OF assms(2) setProbingColumn_view_inv [OF assms(2) invm assms(5)] r2])
  have res1: "same_results (pv\<lparr>probingCol := int col, probingValue := True\<rparr>) pv1"
    by (rule probe_run_results [OF r1])
  have res2: "same_results (?mid\<lparr>probingCol := int col, probingValue := False\<rparr>) pv2"
    by (rule probe_run_results [OF r2])
  have other: "otherValueImplications pv2 = otherValueImplications (storeImplications pv1)"
    "otherValueInfeasible pv2 = pv_infeasible pv1" "probingCol pv2 = int col" "probingValue pv2 = False"
    "boundChanges pv2 = boundChanges pv" "substitutions pv2 = substitutions pv"
    using res1 res2 by (simp_all add: same_results_def reset_results) (simp_all add: storeImplications_def)
  have known: "outcome_known p pv2 x" if x: "feasible p x" for x
  proof -
    have one: "holds x pv1" if "x ! col = 1"
      using propagateDomains_holds [OF assms(1,2) x setProbingColumn_view_inv [OF assms(2) inv assms(5)] _ r1]
        setProbingColumn_holds [OF assms(2,1) x inv ready_holds [OF assms(4,2) x] assms(5)] that by simp
    have zero: "holds x pv2" if "x ! col = 0"
      using propagateDomains_holds [OF assms(1,2) x setProbingColumn_view_inv [OF assms(2) invm assms(5)] _ r2]
        setProbingColumn_holds [OF assms(2,1) x invm ready_holds [OF mid assms(2) x] assms(5)] that by simp
    from one storeImplications_valid [OF inv1] zero binary_point [OF x assms(6,5,2)] show ?thesis
      by (auto simp: outcome_known_def Let_def other holds_def)
  qed
  have cols: "\<forall>chg \<in> set (otherValueImplications pv2). pbc_col chg < getNCols p"
    unfolding other using assms(7) res1 by (intro stored_cols [OF inv1]) (simp add: same_results_def)
  have "probingCol pv1 = int col" using res1 by (simp add: same_results_def)
  from that [OF inv2 r3 pv' other(1-3,5,6) this known cols] show thesis .
qed

lemma probe_candidate_valid:
  assumes "num_ok num" and "problem_ok p" and "fresh_rounds p" and "ready p pv"
    and "col < getNCols p" and "isBinary (prob_domains p) col" and "results_valid p pv"
    and "\<forall>chg \<in> set (otherValueImplications pv). pbc_col chg < getNCols p"
    and "probe_candidate fuel num p col pv = Some (g, pv')"
  shows "(if g then \<not> (\<exists>x. feasible p x) else results_valid p pv') \<and> ready p pv'"
proof -
  obtain pv1 pv2 pv3 where inv2: "view_inv p pv2" and r3: "analyzeImplications num p pv2 = (g, pv3)"
    and pv': "pv' = view_reset p pv3" and col: "probingCol pv2 = int col"
    and same: "boundChanges pv2 = boundChanges pv" "substitutions pv2 = substitutions pv"
    and known: "\<And>x. feasible p x \<Longrightarrow> outcome_known p pv2 x"
    and cols: "\<forall>chg \<in> set (otherValueImplications pv2). pbc_col chg < getNCols p"
    using probe_candidate_stages [OF assms(1-6,8,9)] by metis
  have "results_valid p pv2" using assms(7) by (simp add: results_valid_def same)
  then have "if g then \<not> (\<exists>x. feasible p x) else results_valid p pv3"
    using analyzeImplications_valid [OF assms(2) inv2 r3 _ known cols] col by simp
  moreover have "ready p pv'"
    unfolding pv' using inv2 by (intro reset_ready [OF assms(2,3)]) (simp add: analyze_view_inv [OF r3])
  ultimately show ?thesis by (cases g) (simp_all add: results_valid_def pv' reset_results)
qed

text \<open>
  C35. The exception is real and always wrong: whenever probing a candidate emits a substitution of the
  shape "probed column = other column + 1" with the probed column on the left, every feasible point has
  it the other way round (other column = probed column + 1), so that the substitution is violated by
  every feasible point. The cause is that the swap meant for two binary columns is applied to an
  integral column that is 1 in the zero branch and 2 in the one branch.
\<close>

theorem probing_swap_wrong:
  assumes "num_ok num" and "problem_ok p" and "fresh_rounds p" and "ready p pv"
    and "col < getNCols p" and "isBinary (prob_domains p) col"
    and "\<forall>chg \<in> set (otherValueImplications pv). pbc_col chg < getNCols p" and "substitutions pv = []"
    and "probe_candidate fuel num p col pv = Some (g, pv')"
    and "s \<in> set (substitutions pv')" and "ps_col1 s = col" and "swapped_shift s" and "feasible p x"
  shows "x ! ps_col2 s = x ! col + 1 \<and> \<not> subst_valid x s"
proof -
  obtain pv1 pv2 pv3 where inv2: "view_inv p pv2" and r3: "analyzeImplications num p pv2 = (g, pv3)"
    and pv': "pv' = view_reset p pv3" and col: "probingCol pv2 = int col" "probingCol pv1 = int col"
    and other: "otherValueImplications pv2 = otherValueImplications (storeImplications pv1)"
      "otherValueInfeasible pv2 = pv_infeasible pv1"
    and same: "substitutions pv2 = substitutions pv"
    and known: "\<And>x. feasible p x \<Longrightarrow> outcome_known p pv2 x"
    and cols: "\<forall>chg \<in> set (otherValueImplications pv2). pbc_col chg < getNCols p"
    using probe_candidate_stages [OF assms(1-7,9)] by metis
  have s: "s \<in> set (substitutions pv3)" using assms(10) by (simp add: pv' reset_results)
  have out: "\<not> otherValueInfeasible pv2"
    using r3 s assms(8) same by (auto simp: analyzeImplications_def split: if_splits)
  define v where "v = (if pv_infeasible pv2 then pv2\<lparr>boundChanges := boundChanges pv2 @
       [if probingValue pv2
        then \<lparr>pbc_upper = True, pbc_col = nat (probingCol pv2), pbc_bound = 0, pbc_probing_col = -1\<rparr>
        else \<lparr>pbc_upper = False, pbc_col = nat (probingCol pv2), pbc_bound = 1, pbc_probing_col = -1\<rparr>]\<rparr> else pv2)"
  have v: "substitutions v = []" "probingCol v = probingCol pv2" "probingValue v = probingValue pv2"
    "probing_domains v = probing_domains pv2" using assms(8) same by (simp_all add: v_def)
  have "pv3 = foldl (analyze_implication num p) v (otherValueImplications pv2)"
    using r3 out by (simp add: analyzeImplications_def Let_def v_def)
  with s analyze_all_substs [of s num p v] v(1) obtain chg where chg: "chg \<in> set (otherValueImplications pv2)"
    "emits p v chg" "s = probing_substitution v chg" by auto
  then have chg2: "emits p pv2 chg" "s = probing_substitution pv2 chg"
    using v by (simp_all add: emits_def probing_substitution_def)
  have ne: "pbc_col chg \<noteq> nat (probingCol pv2)"
    using chg(1) out unfolding other by (auto simp: storeImplications_def store_lb_def store_ub_def col split: if_splits)
  have x: "x ! nat (probingCol pv2) = 0 \<or> x ! nat (probingCol pv2) = 1"
    "x ! nat (probingCol pv2) = (if probingValue pv2 then 1 else 0) \<longrightarrow> holds x pv2"
    "x ! nat (probingCol pv2) \<noteq> (if probingValue pv2 then 1 else 0) \<longrightarrow> chg_valid x chg"
    using known [OF assms(13)] chg(1) by (auto simp: outcome_known_def Let_def list_all_iff)
  have dims: "dims_ok (getNCols p) (probing_domains pv2)" using inv2 by (simp add: view_inv_def)
  have "pbc_col chg < getNCols p" using cols chg(1) by blast
  note val = emitted_value [OF assms(2,13) dims this x chg2(1)]
  have c1: "ps_col1 (probing_substitution pv2 chg) = nat (probingCol pv2)" using assms(11) chg2(2) col by simp
  note sw = swapped_value [OF val x(1) ne c1 assms(12) [unfolded chg2(2)], folded chg2(2)]
  then have "x ! ps_col2 s = x ! col + 1" using col by simp
  moreover from this have "\<not> subst_valid x s"
    using assms(11,12) by (simp add: subst_valid_def swapped_shift_def)
  ultimately show ?thesis ..
qed

section \<open>Termination of the propagation\<close>

text \<open>A view whose columns are all integral with finite integral bounds, and the total width of the box.\<close>

definition int_box :: "nat \<Rightarrow> variable_domains \<Rightarrow> bool" where
  "int_box n D \<longleftrightarrow> dims_ok n D \<and> (\<forall>c<n. flags_test (col_flags D ! c) [kIntegral, kImplInt] \<and>
     \<not> bound_useless kLower D c \<and> \<not> bound_useless kUpper D c \<and>
     lower_bounds D ! c \<in> \<int> \<and> upper_bounds D ! c \<in> \<int> \<and> lower_bounds D ! c \<le> upper_bounds D ! c)"

definition box_width :: "nat \<Rightarrow> variable_domains \<Rightarrow> nat" where
  "box_width n D = (\<Sum>c<n. nat \<lfloor>upper_bounds D ! c - lower_bounds D ! c\<rfloor>)"

definition tightens :: "BoundChange \<Rightarrow> variable_domains \<Rightarrow> nat \<Rightarrow> rat \<Rightarrow> bool" where
  "tightens t D c b \<longleftrightarrow> b \<in> \<int> \<and> (case t of
      kLower \<Rightarrow> lower_bounds D ! c < b \<and> b \<le> upper_bounds D ! c
    | kUpper \<Rightarrow> b < upper_bounds D ! c \<and> lower_bounds D ! c \<le> b)"

lemma int_box_no_inf:
  assumes "int_box n D" and "c < n"
  shows "\<not> flags_test (col_flags D ! c) [kLbInf]" and "\<not> flags_test (col_flags D ! c) [kUbInf]"
    and "\<not> lb_useless D c" and "\<not> ub_useless D c"
  using assms by (auto simp: int_box_def bound_useless_def flags_test_useless)

lemma with_bound_int_box:
  assumes "int_box n D" and "c < n" and "tightens t D c b"
  shows "int_box n (with_bound t c b D)" and "box_width n (with_bound t c b D) < box_width n D"
proof -
  let ?D = "with_bound t c b D"
  have dims: "dims_ok n D" using assms(1) by (simp add: int_box_def)
  have bounds: "lower_bounds ?D ! c' = (if t = kLower \<and> c' = c then b else lower_bounds D ! c')"
    "upper_bounds ?D ! c' = (if t = kUpper \<and> c' = c then b else upper_bounds D ! c')" if "c' < n" for c'
    using with_bound_old [OF dims that, of kLower t c b] with_bound_old [OF dims that, of kUpper t c b]
    by (simp_all add: old_bound_def eq_commute)
  have fl: "flags_test (col_flags ?D ! c') [kIntegral, kImplInt] = flags_test (col_flags D ! c') [kIntegral, kImplInt]"
    if "c' < n" for c'
    using that dims by (intro integral_flags(2) with_bound_flags) (simp add: dims_ok_def)
  show "int_box n ?D"
    unfolding int_box_def
  proof (intro conjI allI impI)
    show "dims_ok n ?D" using dims by simp
    fix c' assume c': "c' < n"
    note old = assms(1) [unfolded int_box_def, THEN conjunct2, rule_format, OF c']
    have "c' < length (col_flags D)" using c' dims by (simp add: dims_ok_def)
    with old show "\<not> bound_useless kLower ?D c'" "\<not> bound_useless kUpper ?D c'"
      by (simp_all add: with_bound_useless)
    show "flags_test (col_flags ?D ! c') [kIntegral, kImplInt]" using old fl [OF c'] by simp
    show "lower_bounds ?D ! c' \<in> \<int>" "upper_bounds ?D ! c' \<in> \<int>" "lower_bounds ?D ! c' \<le> upper_bounds ?D ! c'"
      using old bounds [OF c'] assms(3) by (auto simp: tightens_def split: BoundChange.splits)
  qed
  show "box_width n ?D < box_width n D"
    unfolding box_width_def
  proof (rule sum_strict_mono_ex1)
    have le: "nat \<lfloor>upper_bounds ?D ! c' - lower_bounds ?D ! c'\<rfloor> \<le> nat \<lfloor>upper_bounds D ! c' - lower_bounds D ! c'\<rfloor>"
      if "c' < n" for c'
      using bounds [OF that] assms(3)
      by (intro nat_mono floor_mono) (auto simp: tightens_def split: BoundChange.splits)
    show "\<forall>c' \<in> {..<n}. nat \<lfloor>upper_bounds ?D ! c' - lower_bounds ?D ! c'\<rfloor>
        \<le> nat \<lfloor>upper_bounds D ! c' - lower_bounds D ! c'\<rfloor>" using le by simp
    obtain l u k where "lower_bounds D ! c = of_int l" "upper_bounds D ! c = of_int u" "b = of_int k"
      using assms by (auto simp: int_box_def tightens_def elim!: Ints_cases)
    with assms(3) bounds [OF assms(2)]
    have "nat \<lfloor>upper_bounds ?D ! c - lower_bounds ?D ! c\<rfloor> < nat \<lfloor>upper_bounds D ! c - lower_bounds D ! c\<rfloor>"
      by (cases t) (simp_all add: tightens_def flip: of_int_diff)
    with assms(2) show "\<exists>c' \<in> {..<n}. nat \<lfloor>upper_bounds ?D ! c' - lower_bounds ?D ! c'\<rfloor>
        < nat \<lfloor>upper_bounds D ! c' - lower_bounds D ! c'\<rfloor>" by blast
  qed simp
qed

lemma probe_bound_tightens:
  assumes "int_box (getNCols p) (probing_domains pv)" and "c < getNCols p"
  shows "probe_bound num p t c b r pv = pv \<or> probe_bound num p t c b r pv = pv\<lparr>pv_infeasible := True\<rparr> \<or>
    (\<exists>b'. tightens t (probing_domains pv) c b' \<and> probe_bound num p t c b r pv = changeBound t num p c b' pv)"
proof -
  let ?D = "probing_domains pv"
  note nof = int_box_no_inf [OF assms]
  have int: "flags_test (col_flags ?D ! c) [kIntegral, kImplInt]" "lower_bounds ?D ! c \<in> \<int>" "upper_bounds ?D ! c \<in> \<int>"
    "lower_bounds ?D ! c \<le> upper_bounds ?D ! c" using assms by (auto simp: int_box_def)
  have ints: "feasCeil num b \<in> \<int>" "feasFloor num b \<in> \<int>"
    by (simp_all add: feasCeil_def feasFloor_def rational_ceil_eq rational_floor_eq)
  show ?thesis
  proof (cases t)
    case kLower
    then show ?thesis
      using nof int ints
      by (auto simp: probe_bound_def probe_lower_def Let_def tightens_def changeBound_def)
  next
    case kUpper
    then show ?thesis
      using nof int ints
      by (auto simp: probe_bound_def probe_upper_def Let_def tightens_def changeBound_def)
  qed
qed

text \<open>What holds during a round that starts with width \<open>w\<close> and no candidates for the next round.\<close>

definition round_progress :: "problem \<Rightarrow> nat \<Rightarrow> probing_view \<Rightarrow> bool" where
  "round_progress p w pv \<longleftrightarrow> int_box (getNCols p) (probing_domains pv) \<and>
     box_width (getNCols p) (probing_domains pv) \<le> w \<and>
     (next_prop_activities pv \<noteq> [] \<longrightarrow> box_width (getNCols p) (probing_domains pv) < w)"

lemma probe_bound_progress:
  assumes "round_progress p w pv" and "c < getNCols p"
  shows "round_progress p w (probe_bound num p t c b r pv)"
proof -
  have box: "int_box (getNCols p) (probing_domains pv)" using assms(1) by (simp add: round_progress_def)
  from probe_bound_tightens [OF box assms(2), of num t b r] show ?thesis
  proof (elim disjE exE conjE)
    fix b' assume "tightens t (probing_domains pv) c b'"
      and eq: "probe_bound num p t c b r pv = changeBound t num p c b' pv"
    from with_bound_int_box [OF box assms(2) this(1)] assms(1) show ?thesis
      by (simp add: eq round_progress_def changeBound_frame(2))
  qed (use assms(1) in \<open>simp_all add: round_progress_def\<close>)
qed

lemma propagate_cands_progress:
  assumes "problem_ok p" and "round_progress p w pv" and "\<forall>r \<in> set rs. r < getNRows p"
  shows "round_progress p w (fst (propagate_cands num p rs pv))"
  using assms(2,3)
proof (induction rs arbitrary: pv)
  case (Cons r rs)
  have "round_progress p w (propagate_cand num p r pv)"
    unfolding propagate_cand_def
    by (rule propagate_row_preserves [where P = "round_progress p w"])
      (use Cons.prems assms(1) row_of_problem(2) in \<open>auto intro: probe_bound_progress\<close>)
  with Cons show ?case by (auto simp: Let_def)
qed simp

lemma probing_rounds_terminates:
  assumes "problem_ok p" and "view_inv p pv" and "int_box (getNCols p) (probing_domains pv)"
    and "next_prop_activities pv = []" and "box_width (getNCols p) (probing_domains pv) < fuel"
  shows "\<exists>pv'. probing_rounds fuel num p pv = Some pv'"
  using assms(2-5)
proof (induction fuel arbitrary: pv)
  case (Suc fuel)
  show ?case
  proof (cases "prop_activities pv = []")
    case True
    then show ?thesis by (simp add: probing_rounds.simps)
  next
    case False
    let ?pv = "pv\<lparr>pv_round := pv_round pv - 1\<rparr>" and ?n = "getNCols p"
    obtain pv1 stop where run: "propagate_cands num p (prop_activities pv) ?pv = (pv1, stop)" by fastforce
    have rows: "\<forall>r \<in> set (prop_activities pv). r < getNRows p" using Suc.prems(1) by (simp add: view_inv_def)
    have inv: "view_inv p pv1"
      using propagate_cands_view_inv [OF assms(1) round_view_inv [OF Suc.prems(1)] rows, of num] run by simp
    have "round_progress p (box_width ?n (probing_domains pv)) ?pv"
      using Suc.prems by (simp add: round_progress_def)
    from propagate_cands_progress [OF assms(1) this rows, of num] run
    have pr: "round_progress p (box_width ?n (probing_domains pv)) pv1" by simp
    have "\<exists>pv'. probing_rounds fuel num p (swap_candidates pv1) = Some pv'"
    proof (cases "next_prop_activities pv1 = []")
      case True
      then show ?thesis by (simp add: probing_rounds.simps swap_candidates_def)
    next
      case False
      with pr Suc.prems(4) show ?thesis
        by (intro Suc.IH swap_view_inv inv) (simp_all add: round_progress_def swap_candidates_def)
    qed
    with False run show ?thesis by (cases stop) (simp_all add: probing_rounds.simps [of "Suc fuel"])
  qed
qed simp

lemma probing_run_terminates:
  assumes "problem_ok p" and "view_inv p pv" and "int_box (getNCols p) (probing_domains pv)"
    and "col < getNCols p" and "lower_bounds (probing_domains pv) ! col = 0"
    and "upper_bounds (probing_domains pv) ! col = 1"
    and "box_width (getNCols p) (probing_domains pv) < fuel"
  shows "\<exists>pv'. propagateDomains fuel num p (setProbingColumn num p col value pv) = Some pv'"
proof -
  let ?t = "if value then kLower else kUpper" and ?b = "if value then 1 else 0 :: rat"
  let ?pv = "setProbingColumn num p col value pv"
  have dom: "probing_domains ?pv = with_bound ?t col ?b (probing_domains pv)"
    by (simp add: setProbingColumn_eq changeBound_frame(2))
  have "tightens ?t (probing_domains pv) col ?b" using assms(5,6) by (simp add: tightens_def)
  from with_bound_int_box [OF assms(3,4) this]
  have "int_box (getNCols p) (probing_domains ?pv)" "box_width (getNCols p) (probing_domains ?pv) < fuel"
    using assms(7) by (simp_all add: dom)
  then show ?thesis
    unfolding propagateDomains_def
    by (intro probing_rounds_terminates [OF assms(1) swap_view_inv [OF setProbingColumn_view_inv [OF assms(1,2,4)]]])
      (simp_all add: swap_candidates_def)
qed

text \<open>
  C22. The propagation of a probed column terminates on problems whose columns are integral and
  bounded: the number of rounds is at most the total width of the box.
\<close>

theorem probing_terminates:
  assumes "problem_ok p" and "view_inv p pv" and "int_box (getNCols p) (probing_domains pv)"
    and "col < getNCols p" and "lower_bounds (probing_domains pv) ! col = 0"
    and "upper_bounds (probing_domains pv) ! col = 1"
    and "box_width (getNCols p) (probing_domains pv) < fuel"
  shows "\<exists>pv'. propagateDomains fuel num p (setProbingColumn num p col value pv) = Some pv'"
  by (rule probing_run_terminates [OF assms])

lemma ready_box:
  assumes "ready p pv" and "int_box (getNCols p) (prob_domains p)"
  shows "int_box (getNCols p) (probing_domains pv)"
    and "box_width (getNCols p) (probing_domains pv) = box_width (getNCols p) (prob_domains p)"
    and "c < getNCols p \<Longrightarrow> old_bound t (probing_domains pv) c = old_bound t (prob_domains p) c"
proof -
  let ?D = "probing_domains pv" and ?d = "prob_domains p" and ?n = "getNCols p"
  have inv: "dims_ok ?n ?D" "\<forall>c<?n. other_flags (col_flags ?D ! c) = other_flags (col_flags ?d ! c)"
    "bound_log t p ?D []" for t
    using assms(1) by (cases t; simp add: ready_def view_inv_def)+
  have same: "\<not> bound_useless t ?D c \<and> old_bound t ?D c = old_bound t ?d c" if "c < ?n" for t c
  proof -
    have "\<not> bound_useless t ?d c" using assms(2) that by (cases t) (simp_all add: int_box_def)
    then show ?thesis using inv(3) [of t, unfolded bound_log_def] that by auto
  qed
  have bounds: "lower_bounds ?D ! c = lower_bounds ?d ! c" "upper_bounds ?D ! c = upper_bounds ?d ! c" if "c < ?n" for c
    using same [OF that, of kLower] same [OF that, of kUpper] by (simp_all add: old_bound_def)
  have int: "flags_test (col_flags ?D ! c) [kIntegral, kImplInt] = flags_test (col_flags ?d ! c) [kIntegral, kImplInt]"
    if "c < ?n" for c using inv(2) that by (intro integral_flags(2)) simp
  show "int_box ?n ?D" using assms(2) same inv(1) by (simp add: int_box_def bounds int)
  show "box_width ?n ?D = box_width ?n ?d" by (simp add: box_width_def bounds)
  show "c < ?n \<Longrightarrow> old_bound t ?D c = old_bound t ?d c" using same by blast
qed

lemma probing_value_terminates:
  assumes "problem_ok p" and "ready p pv" and "col < getNCols p" and "isBinary (prob_domains p) col"
    and "int_box (getNCols p) (prob_domains p)" and "box_width (getNCols p) (prob_domains p) < fuel"
  shows "\<exists>pv'. propagateDomains fuel num p (setProbingColumn num p col val pv) = Some pv' \<and> view_inv p pv'"
proof -
  have inv: "view_inv p pv" using assms(2) by (simp add: ready_def)
  have bin: "lower_bounds (probing_domains pv) ! col = 0" "upper_bounds (probing_domains pv) ! col = 1"
    using ready_box(3) [OF assms(2,5,3), of kLower] ready_box(3) [OF assms(2,5,3), of kUpper] assms(4)
    by (simp_all add: old_bound_def isBinary_def)
  have "box_width (getNCols p) (probing_domains pv) < fuel" using ready_box(2) [OF assms(2,5)] assms(6) by simp
  then obtain pv' where run: "propagateDomains fuel num p (setProbingColumn num p col val pv) = Some pv'"
    using probing_run_terminates [OF assms(1) inv ready_box(1) [OF assms(2,5)] assms(3) bin] by blast
  from propagateDomains_view_inv [OF assms(1) setProbingColumn_view_inv [OF assms(1) inv assms(3)] run] run
  show ?thesis by blast
qed

text \<open>
  C21. Probing a binary column. Whenever it returns, it yields only valid deductions: when it reports
  global infeasibility the problem has no feasible point; otherwise every bound change it collected
  holds at every feasible point, and so does every substitution, apart from those of the shape "probed
  column = other column plus one"; and the view is reset for the next candidate. It does return on
  problems whose columns are integral and bounded, with as many rounds of propagation as the total
  width of the box.
\<close>

theorem probe_candidate_sound:
  assumes "num_ok num" and "problem_ok p" and "fresh_rounds p" and "ready p pv"
    and "col < getNCols p" and "isBinary (prob_domains p) col" and "results_valid p pv"
    and "\<forall>chg \<in> set (otherValueImplications pv). pbc_col chg < getNCols p"
  shows "(\<forall>fuel g pv'. probe_candidate fuel num p col pv = Some (g, pv') \<longrightarrow>
       (if g then \<not> (\<exists>x. feasible p x) else results_valid p pv') \<and> ready p pv') \<and>
    (\<forall>fuel. int_box (getNCols p) (prob_domains p) \<and> box_width (getNCols p) (prob_domains p) < fuel \<longrightarrow>
       (\<exists>g pv'. probe_candidate fuel num p col pv = Some (g, pv')))"
proof -
  have "\<exists>g pv'. probe_candidate fuel num p col pv = Some (g, pv')"
    if box: "int_box (getNCols p) (prob_domains p)" and w: "box_width (getNCols p) (prob_domains p) < fuel" for fuel
  proof -
    obtain pv1 where 1: "propagateDomains fuel num p (setProbingColumn num p col True pv) = Some pv1" "view_inv p pv1"
      using probing_value_terminates [OF assms(2,4-6) box w] by blast
    have "ready p (view_reset p (storeImplications pv1))"
      by (rule reset_ready [OF assms(2,3)]) (simp add: store_view_inv 1(2))
    from probing_value_terminates [OF assms(2) this assms(5,6) box w] obtain pv2 where
      "propagateDomains fuel num p (setProbingColumn num p col False (view_reset p (storeImplications pv1))) = Some pv2"
      by blast
    with 1(1) show ?thesis by (simp add: probe_candidate_def split: prod.split)
  qed
  with probe_candidate_valid [OF assms] show ?thesis by blast
qed

section \<open>Examples\<close>

text \<open>\<open>2 x + y \<le> 1\<close> over binary columns: \<open>x = 1\<close> is infeasible.\<close>

definition ex_probe :: problem where
  "ex_probe = \<lparr>obj_coeffs = [1, 1], obj_offset = 0, row_coeffs = [[(0, 2), (1, 1)]],
     col_coeffs = [[(0, 2)], [(0, 1)]], lhs_values = [0], rhs_values = [1], row_flags = [kLhsInf],
     rowsize = [2], colsize = [1, 1],
     prob_domains = \<lparr>lower_bounds = [0, 0], upper_bounds = [1, 1], col_flags = [kIntegral, kIntegral]\<rparr>,
     row_activities = [\<lparr>act_min = 0, act_max = 3, ninfmin = 0, ninfmax = 0, lastchange = -1\<rparr>],
     col_locks = []\<rparr>"

lemma ex_probe_ok: "problem_ok ex_probe" "fresh_rounds ex_probe" "feasible ex_probe [0, 1]"
  by (auto simp: problem_ok_def matrix_ok_def ex_probe_def getNCols_def getNRows_def col_of_matrix_def
      all_tracked_def tracks_def part_defs flags_test_def flag_defs less_Suc_eq fresh_rounds_def
      feasible_def rows_satisfied_def satisfies_row_def row_value_def in_domains_def in_col_domain_def
      integral_point_def)

theorem probe_candidate_sound_witness:
  "case probe_candidate 5 default_num ex_probe 0 (new_probing_view default_num ex_probe) of
     Some (g, pv) \<Rightarrow> \<not> g \<and> length (boundChanges pv) = 1 \<and> list_all (chg_valid [0, 1]) (boundChanges pv)
   | None \<Rightarrow> False"
proof -
  let ?pv = "new_probing_view default_num ex_probe"
  obtain g pv where run: "probe_candidate 5 default_num ex_probe 0 ?pv = Some (g, pv)"
    and res: "\<not> g" "length (boundChanges pv) = 1"
  proof -
    have "case probe_candidate 5 default_num ex_probe 0 ?pv of
      Some (g, pv) \<Rightarrow> \<not> g \<and> length (boundChanges pv) = 1 | None \<Rightarrow> False" by code_simp
    then show ?thesis using that by (auto split: option.splits prod.splits)
  qed
  have "num_ok default_num" "isBinary (prob_domains ex_probe) 0" by code_simp+
  moreover have "0 < getNCols ex_probe" "results_valid ex_probe ?pv"
    "\<forall>chg \<in> set (otherValueImplications ?pv). pbc_col chg < getNCols ex_probe"
    by (simp_all add: ex_probe_def getNCols_def results_valid_def new_probing_view_def)
  ultimately have "results_valid ex_probe pv"
    using probe_candidate_sound [OF _ ex_probe_ok(1,2) new_view_ready [OF ex_probe_ok(1,2)]] run res by metis
  with ex_probe_ok(3) run res show ?thesis by (simp add: results_valid_def)
qed

lemma ex_probe_view: "view_inv ex_probe (new_probing_view default_num ex_probe)"
  using new_view_ready [OF ex_probe_ok(1,2)] by (simp add: ready_def)

theorem probing_terminates_witness:
  "\<exists>pv. propagateDomains 3 default_num ex_probe
     (setProbingColumn default_num ex_probe 1 False (new_probing_view default_num ex_probe)) = Some pv"
proof (rule probing_terminates [OF ex_probe_ok(1) ex_probe_view])
  show "int_box (getNCols ex_probe) (probing_domains (new_probing_view default_num ex_probe))"
    by (auto simp: int_box_def dims_ok_def new_probing_view_def ex_probe_def getNCols_def less_Suc_eq
        bound_useless_def flags_test_def flag_defs)
  show "box_width (getNCols ex_probe) (probing_domains (new_probing_view default_num ex_probe)) < 3"
    by (simp add: box_width_def new_probing_view_def ex_probe_def getNCols_def lessThan_nat_numeral
        lessThan_Suc)
qed (simp_all add: new_probing_view_def ex_probe_def getNCols_def)

text \<open>\<open>y - x = 1\<close> with \<open>y\<close> integral in \<open>[1, 2]\<close> before the binary \<open>x\<close>.\<close>

definition ex_shift :: problem where
  "ex_shift = \<lparr>obj_coeffs = [1, 1], obj_offset = 0, row_coeffs = [[(0, 1), (1, -1)]],
     col_coeffs = [[(0, 1)], [(0, -1)]], lhs_values = [1], rhs_values = [1], row_flags = [kEquation],
     rowsize = [2], colsize = [1, 1],
     prob_domains = \<lparr>lower_bounds = [1, 0], upper_bounds = [2, 1], col_flags = [kIntegral, kIntegral]\<rparr>,
     row_activities = [\<lparr>act_min = 0, act_max = 2, ninfmin = 0, ninfmax = 0, lastchange = -1\<rparr>],
     col_locks = []\<rparr>"

lemma ex_shift_feasible: "problem_ok ex_shift" "feasible ex_shift [2, 1]" "feasible ex_shift [1, 0]"
  by (auto simp: problem_ok_def matrix_ok_def ex_shift_def getNCols_def getNRows_def col_of_matrix_def
      all_tracked_def tracks_def part_defs flags_test_def flag_defs less_Suc_eq
      feasible_def rows_satisfied_def satisfies_row_def row_value_def in_domains_def in_col_domain_def
      integral_point_def)

lemma ex_shift_fresh: "fresh_rounds ex_shift"
  by (simp add: fresh_rounds_def ex_shift_def)

theorem probing_swap_wrong_witness:
  "case probe_candidate 5 default_num ex_shift 1 (new_probing_view default_num ex_shift) of
     Some (g, pv) \<Rightarrow> substitutions pv = [\<lparr>ps_col2scale = 1, ps_col2const = 1, ps_col1 = 1, ps_col2 = 0\<rparr>] \<and>
       \<not> subst_valid [2, 1] (hd (substitutions pv))
   | None \<Rightarrow> False"
proof -
  let ?pv = "new_probing_view default_num ex_shift"
  let ?s = "\<lparr>ps_col2scale = 1, ps_col2const = 1, ps_col1 = 1, ps_col2 = 0\<rparr> :: ProbingSubstitution"
  have "case probe_candidate 5 default_num ex_shift 1 ?pv of
      Some (g, pv) \<Rightarrow> substitutions pv = [?s] | None \<Rightarrow> False" by code_simp
  then obtain g pv where run: "probe_candidate 5 default_num ex_shift 1 ?pv = Some (g, pv)" and s: "substitutions pv = [?s]"
    by (auto split: option.splits prod.splits)
  have "num_ok default_num" "isBinary (prob_domains ex_shift) 1" by code_simp+
  moreover have "1 < getNCols ex_shift" "substitutions ?pv = []"
    "\<forall>chg \<in> set (otherValueImplications ?pv). pbc_col chg < getNCols ex_shift"
    by (simp_all add: ex_shift_def getNCols_def new_probing_view_def)
  moreover have "?s \<in> set (substitutions pv)" "ps_col1 ?s = 1" "swapped_shift ?s" by (simp_all add: s swapped_shift_def)
  ultimately have "\<not> subst_valid [2, 1] ?s"
    using probing_swap_wrong [OF _ ex_shift_feasible(1) ex_shift_fresh new_view_ready [OF ex_shift_feasible(1) ex_shift_fresh]
        _ _ _ _ run _ _ _ ex_shift_feasible(2)] by blast
  then show ?thesis by (simp add: run s del: One_nat_def)
qed

end
