(* ===== verification/Pap_PostsolveStorage.thy ===== *)
theory Pap_PostsolveStorage
  imports Pap_Problem
begin

unbundle bit_operations_syntax

text \<open>
  The log of reductions of \<open>core/postsolve/PostsolveStorage.hpp\<close>: while presolving, every reduction
  appends its type and a segment of the parallel vectors \<open>indices\<close> and \<open>values\<close>, and \<open>start\<close> holds
  the borders of the segments. \<open>store_call\<close> names the calls of that interface, \<open>perform\<close> runs them,
  \<open>entries\<close> reads the three vectors back as a list of segments. The lemmas show that the vectors are
  the encoding of an append-only log, whatever the order of the calls.
\<close>

section \<open>Data\<close>

datatype PostsolveType = kPrimal | kFull

datatype ReductionType =
    kFixedCol | kFixedInfCol | kParallelCol | kSubstitutedColWithDual | kSubstitutedCol
  | kVarBoundChange | kRedundantRowType | kRowBoundChange
  | kReasonForRowBoundChangeForcedByRow | kRowBoundChangeForcedByRow | kSaveRow
  | kReducedBoundsCost | kColumnDualValue | kRowDualValue | kCoefficientChange

record postsolve_storage =
  nColsOriginal :: nat
  nRowsOriginal :: nat
  origcol_mapping :: "nat list"
  origrow_mapping :: "nat list"
  postsolveType :: PostsolveType
  ps_types :: "ReductionType list"
  ps_indices :: "int list"
  ps_values :: "rat list"
  ps_start :: "nat list"
  ps_problem :: problem

text \<open>The two constructors: from sizes, and from the problem that is going to be presolved.\<close>

definition new_storage_sized :: "nat \<Rightarrow> nat \<Rightarrow> problem \<Rightarrow> postsolve_storage" where
  "new_storage_sized nrows ncols p0 =
     \<lparr>nColsOriginal = ncols, nRowsOriginal = nrows, origcol_mapping = [0..<ncols],
      origrow_mapping = [0..<nrows], postsolveType = kPrimal, ps_types = [], ps_indices = [],
      ps_values = [], ps_start = [0], ps_problem = p0\<rparr>"

definition new_storage :: "problem \<Rightarrow> postsolve_storage" where
  "new_storage p =
     \<lparr>nColsOriginal = getNCols p, nRowsOriginal = getNRows p, origcol_mapping = [0..<getNCols p],
      origrow_mapping = [0..<getNRows p], postsolveType = kPrimal, ps_types = [], ps_indices = [],
      ps_values = [], ps_start = [0], ps_problem = p\<rparr>"

section \<open>Appending to the vectors\<close>

text \<open>\<open>push_back\<close> stands for a run of \<open>indices.push_back\<close> and \<open>values.push_back\<close> calls.\<close>

definition push_type :: "ReductionType \<Rightarrow> postsolve_storage \<Rightarrow> postsolve_storage" where
  "push_type t st = st\<lparr>ps_types := ps_types st @ [t]\<rparr>"

definition push_back :: "int list \<Rightarrow> rat list \<Rightarrow> postsolve_storage \<Rightarrow> postsolve_storage" where
  "push_back is vs st = st\<lparr>ps_indices := ps_indices st @ is, ps_values := ps_values st @ vs\<rparr>"

definition finishStorage :: "postsolve_storage \<Rightarrow> postsolve_storage" where
  "finishStorage st = st\<lparr>ps_start := ps_start st @ [length (ps_values st)]\<rparr>"

definition orig_col :: "postsolve_storage \<Rightarrow> nat \<Rightarrow> int" where
  "orig_col st c = int (origcol_mapping st ! c)"

definition orig_row :: "postsolve_storage \<Rightarrow> nat \<Rightarrow> int" where
  "orig_row st r = int (origrow_mapping st ! r)"

text \<open>
  \<open>saved_row_indices\<close> and \<open>saved_row_values\<close> are the segment both \<open>push_back_row\<close> and
  \<open>storeSavedRow\<close> write: index and length, the sides with their infinity flags, the entries.
\<close>

definition saved_row_indices :: "postsolve_storage \<Rightarrow> nat \<Rightarrow> sparse_vec \<Rightarrow> flags \<Rightarrow> int list" where
  "saved_row_indices st row coefficients rflags =
     [orig_row st row, if flags_test rflags [kLhsInf] then 1 else 0,
      if flags_test rflags [kRhsInf] then 1 else 0] @ map (\<lambda>(c, v). orig_col st c) coefficients"

definition saved_row_values :: "sparse_vec \<Rightarrow> rat \<Rightarrow> rat \<Rightarrow> rat list" where
  "saved_row_values coefficients lhs rhs =
     [of_nat (length coefficients), lhs, rhs] @ map snd coefficients"

definition push_back_row :: "nat \<Rightarrow> problem \<Rightarrow> postsolve_storage \<Rightarrow> postsolve_storage" where
  "push_back_row row p st =
     push_back (saved_row_indices st row (row_coeffs p ! row) (row_flags p ! row))
       (saved_row_values (row_coeffs p ! row) (lhs_values p ! row) (rhs_values p ! row)) st"

definition saved_col_indices :: "postsolve_storage \<Rightarrow> nat \<Rightarrow> problem \<Rightarrow> int list" where
  "saved_col_indices st col p =
     [orig_col st col, 0, if flags_test (prob_cflags p ! col) [kUbInf] then 1 else 0,
      if flags_test (prob_cflags p ! col) [kLbInf] then 1 else 0] @
     map (\<lambda>(r, v). orig_row st r) (col_coeffs p ! col)"

definition saved_col_values :: "nat \<Rightarrow> problem \<Rightarrow> rat list" where
  "saved_col_values col p =
     [of_nat (length (col_coeffs p ! col)), obj_coeffs p ! col, prob_ubs p ! col, prob_lbs p ! col] @
     map snd (col_coeffs p ! col)"

definition push_back_col :: "nat \<Rightarrow> problem \<Rightarrow> postsolve_storage \<Rightarrow> postsolve_storage" where
  "push_back_col col p st = push_back (saved_col_indices st col p) (saved_col_values col p) st"

section \<open>The store operations\<close>

definition storeRedundantRow :: "nat \<Rightarrow> postsolve_storage \<Rightarrow> postsolve_storage" where
  "storeRedundantRow row st =
     (if postsolveType st = kPrimal then st
      else finishStorage (push_back [orig_row st row] [0] (push_type kRedundantRowType st)))"

definition storeVarBoundChange ::
  "bool \<Rightarrow> nat \<Rightarrow> rat \<Rightarrow> bool \<Rightarrow> rat \<Rightarrow> postsolve_storage \<Rightarrow> postsolve_storage" where
  "storeVarBoundChange isLowerBound col oldBound was_infinity newBound st =
     (if postsolveType st = kPrimal then st
      else finishStorage
        (push_back [if isLowerBound then 1 else 0, orig_col st col, bool_int was_infinity]
           [0, newBound, oldBound] (push_type kVarBoundChange st)))"

definition storeRowBoundChange ::
  "bool \<Rightarrow> nat \<Rightarrow> rat \<Rightarrow> bool \<Rightarrow> rat \<Rightarrow> bool \<Rightarrow> postsolve_storage \<Rightarrow> postsolve_storage" where
  "storeRowBoundChange isLhs row newBound is_infinity oldBound was_infinity st =
     (if postsolveType st = kPrimal then st
      else finishStorage
        (push_back [if isLhs then 1 else 0, bool_int is_infinity, bool_int was_infinity]
           [of_int (orig_row st row), newBound, oldBound] (push_type kRowBoundChange st)))"

definition storeRowBoundChangeForcedByRow ::
  "bool \<Rightarrow> nat \<Rightarrow> rat \<Rightarrow> bool \<Rightarrow> postsolve_storage \<Rightarrow> postsolve_storage" where
  "storeRowBoundChangeForcedByRow isLhs row newBound isInfinity st =
     (if postsolveType st = kPrimal then st
      else finishStorage
        (push_back [if isLhs then 1 else 0, bool_int isInfinity] [of_int (orig_row st row), newBound]
           (push_type kRowBoundChangeForcedByRow st)))"

definition storeReasonForRowBoundChangeForcedByRow ::
  "nat \<Rightarrow> nat \<Rightarrow> rat \<Rightarrow> postsolve_storage \<Rightarrow> postsolve_storage" where
  "storeReasonForRowBoundChangeForcedByRow remained_row deleted_row factor st =
     (if postsolveType st = kPrimal then st
      else finishStorage
        (push_back [orig_row st remained_row, orig_row st deleted_row] [factor, 0]
           (push_type kReasonForRowBoundChangeForcedByRow st)))"

definition storeFixedCol ::
  "nat \<Rightarrow> rat \<Rightarrow> sparse_vec \<Rightarrow> rat list \<Rightarrow> postsolve_storage \<Rightarrow> postsolve_storage" where
  "storeFixedCol col val colvec cost st =
     (let st1 = push_back [orig_col st col] [val] (push_type kFixedCol st);
          st2 = (if postsolveType st = kFull
                 then push_back (int (length colvec) # map (\<lambda>(r, v). orig_row st r) colvec)
                        (cost ! col # map snd colvec) st1
                 else st1)
      in finishStorage st2)"

definition storeFixedInfCol ::
  "nat \<Rightarrow> rat \<Rightarrow> rat \<Rightarrow> bool \<Rightarrow> problem \<Rightarrow> postsolve_storage \<Rightarrow> postsolve_storage" where
  "storeFixedInfCol col val bound bound_infinity p st =
     (let st1 = push_back
            [orig_col st col, int (length (col_coeffs p ! col)), if bound_infinity then 1 else 0]
            [val, 0, bound] (push_type kFixedInfCol st)
      in finishStorage (foldl (\<lambda>s (r, v). push_back_row r p s) st1 (col_coeffs p ! col)))"

definition storeCoefficientChange :: "nat \<Rightarrow> nat \<Rightarrow> rat \<Rightarrow> postsolve_storage \<Rightarrow> postsolve_storage" where
  "storeCoefficientChange row col new_value st =
     (if postsolveType st = kPrimal then st
      else finishStorage
        (push_back [orig_row st row, orig_col st col] [new_value, 0] (push_type kCoefficientChange st)))"

definition storeDualValue :: "bool \<Rightarrow> int \<Rightarrow> rat \<Rightarrow> postsolve_storage \<Rightarrow> postsolve_storage" where
  "storeDualValue is_column_dual index val st =
     (if postsolveType st = kPrimal then st
      else finishStorage
        (push_back [index] [val]
           (push_type (if is_column_dual then kColumnDualValue else kRowDualValue) st)))"

definition storeSavedRow ::
  "nat \<Rightarrow> sparse_vec \<Rightarrow> rat \<Rightarrow> rat \<Rightarrow> flags \<Rightarrow> postsolve_storage \<Rightarrow> postsolve_storage" where
  "storeSavedRow row coefficients lhs rhs rflags st =
     (if postsolveType st = kPrimal then st
      else finishStorage
        (push_back (saved_row_indices st row coefficients rflags)
           (saved_row_values coefficients lhs rhs) (push_type kSaveRow st)))"

definition storeSubstitution :: "nat \<Rightarrow> nat \<Rightarrow> problem \<Rightarrow> postsolve_storage \<Rightarrow> postsolve_storage" where
  "storeSubstitution col row p st =
     (let st1 = push_back_row row p (push_type kSubstitutedColWithDual st)
      in finishStorage
           (if postsolveType st = kFull then push_back_col col p st1
            else push_back [orig_col st col] [0] st1))"

definition storeSubstitution_equality ::
  "nat \<Rightarrow> sparse_vec \<Rightarrow> rat \<Rightarrow> postsolve_storage \<Rightarrow> postsolve_storage" where
  "storeSubstitution_equality col equalityLHS equalityRHS st =
     finishStorage
       (push_back (orig_col st col # map (\<lambda>(c, v). orig_col st c) equalityLHS)
          (equalityRHS # map snd equalityLHS) (push_type kSubstitutedCol st))"

text \<open>\<open>bound_flags\<close>: integrality and the infinite bounds of a column in one integer.\<close>

definition bound_flags :: "bool \<Rightarrow> bool \<Rightarrow> bool \<Rightarrow> int" where
  "bound_flags integral lbinf ubinf =
     (let f0 = 0;
          f1 = (if integral then f0 OR uint kIntegral else f0);
          f2 = (if lbinf then f1 OR uint kLbInf else f1)
      in if ubinf then f2 OR uint kUbInf else f2)"

definition storeParallelCols ::
  "nat \<Rightarrow> bool \<Rightarrow> bool \<Rightarrow> rat \<Rightarrow> bool \<Rightarrow> rat \<Rightarrow> nat \<Rightarrow> bool \<Rightarrow> bool \<Rightarrow> rat \<Rightarrow> bool \<Rightarrow> rat \<Rightarrow> rat \<Rightarrow>
   postsolve_storage \<Rightarrow> postsolve_storage" where
  "storeParallelCols col1 col1integral col1lbinf col1lb col1ubinf col1ub
      col2 col2integral col2lbinf col2lb col2ubinf col2ub col2scale st =
     finishStorage
       (push_type kParallelCol
         (push_back [orig_col st col1, bound_flags col1integral col1lbinf col1ubinf,
                     orig_col st col2, bound_flags col2integral col2lbinf col2ubinf, -1]
                    [col1lb, col1ub, col2lb, col2ub, col2scale] st))"

text \<open>One pair of slots per bound: the infinity flag and the value.\<close>

definition bound_slots :: "flag \<Rightarrow> flag \<Rightarrow> flags list \<Rightarrow> nat \<Rightarrow> int list" where
  "bound_slots low up fl n = concat (map (\<lambda>i.
     [if flags_test (fl ! i) [low] then 1 else 0, if flags_test (fl ! i) [up] then 1 else 0]) [0..<n])"

definition bound_values :: "rat list \<Rightarrow> rat list \<Rightarrow> nat \<Rightarrow> rat list" where
  "bound_values low up n = concat (map (\<lambda>i. [low ! i, up ! i]) [0..<n])"

definition storeReducedBoundsAndCost ::
  "rat list \<Rightarrow> rat list \<Rightarrow> rat list \<Rightarrow> rat list \<Rightarrow> rat list \<Rightarrow> flags list \<Rightarrow> flags list \<Rightarrow>
   postsolve_storage \<Rightarrow> postsolve_storage" where
  "storeReducedBoundsAndCost col_lb col_ub row_lhs row_rhs coefficients rflags cflags st =
     (if postsolveType st = kPrimal then st
      else finishStorage
        (push_back
           (bound_slots kLbInf kUbInf cflags (length col_lb) @
            bound_slots kLhsInf kRhsInf rflags (length row_lhs) @
            map int [0..<length coefficients])
           (bound_values col_lb col_ub (length col_lb) @
            bound_values row_lhs row_rhs (length row_lhs) @ coefficients)
           (push_type kReducedBoundsCost st)))"

text \<open>\<open>compress\<close> renumbers the reduced problem; the log itself names original indices only.\<close>

definition storage_compress :: "int list \<Rightarrow> int list \<Rightarrow> postsolve_storage \<Rightarrow> postsolve_storage" where
  "storage_compress rowmapping colmapping st =
     st\<lparr>origcol_mapping := compress_vector colmapping (origcol_mapping st),
        origrow_mapping := compress_vector rowmapping (origrow_mapping st)\<rparr>"

section \<open>The interface and its log\<close>

text \<open>The calls a presolve run makes on the storage.\<close>

datatype store_call =
    RedundantRow nat
  | VarBoundChange bool nat rat bool rat
  | RowBoundChange bool nat rat bool rat bool
  | RowBoundChangeForcedByRow bool nat rat bool
  | ReasonForRowBoundChange nat nat rat
  | FixedCol nat rat sparse_vec "rat list"
  | FixedInfCol nat rat rat bool problem
  | CoefficientChange nat nat rat
  | DualValue bool int rat
  | SavedRow nat sparse_vec rat rat flags
  | Substitution nat nat problem
  | SubstitutionEquality nat sparse_vec rat
  | ParallelCols nat bool bool rat bool rat nat bool bool rat bool rat rat
  | ReducedBoundsAndCost "rat list" "rat list" "rat list" "rat list" "rat list" "flags list" "flags list"
  | Compress "int list" "int list"

fun perform :: "store_call \<Rightarrow> postsolve_storage \<Rightarrow> postsolve_storage" where
  "perform (RedundantRow row) st = storeRedundantRow row st"
| "perform (VarBoundChange low col ob winf nb) st = storeVarBoundChange low col ob winf nb st"
| "perform (RowBoundChange islhs row nb iinf ob winf) st = storeRowBoundChange islhs row nb iinf ob winf st"
| "perform (RowBoundChangeForcedByRow islhs row nb iinf) st = storeRowBoundChangeForcedByRow islhs row nb iinf st"
| "perform (ReasonForRowBoundChange rr dr f) st = storeReasonForRowBoundChangeForcedByRow rr dr f st"
| "perform (FixedCol col val cv cost) st = storeFixedCol col val cv cost st"
| "perform (FixedInfCol col val b binf p) st = storeFixedInfCol col val b binf p st"
| "perform (CoefficientChange row col v) st = storeCoefficientChange row col v st"
| "perform (DualValue isc i v) st = storeDualValue isc i v st"
| "perform (SavedRow row cs l r f) st = storeSavedRow row cs l r f st"
| "perform (Substitution col row p) st = storeSubstitution col row p st"
| "perform (SubstitutionEquality col lhs rhs) st = storeSubstitution_equality col lhs rhs st"
| "perform (ParallelCols c1 i1 li1 l1 ui1 u1 c2 i2 li2 l2 ui2 u2 sc) st =
     storeParallelCols c1 i1 li1 l1 ui1 u1 c2 i2 li2 l2 ui2 u2 sc st"
| "perform (ReducedBoundsAndCost cl cu rl rr co rf cf) st = storeReducedBoundsAndCost cl cu rl rr co rf cf st"
| "perform (Compress rowm colm) st = storage_compress rowm colm st"

definition perform_all :: "store_call list \<Rightarrow> postsolve_storage \<Rightarrow> postsolve_storage" where
  "perform_all calls st = foldl (\<lambda>s c. perform c s) st calls"

text \<open>The three vectors read back as a list of segments.\<close>

type_synonym ps_entry = "ReductionType \<times> int list \<times> rat list"

definition slice :: "'a list \<Rightarrow> nat \<Rightarrow> nat \<Rightarrow> 'a list" where
  "slice xs a b = take (b - a) (drop a xs)"

definition ps_entry_at :: "postsolve_storage \<Rightarrow> nat \<Rightarrow> ps_entry" where
  "ps_entry_at st i = (ps_types st ! i, slice (ps_indices st) (ps_start st ! i) (ps_start st ! Suc i),
     slice (ps_values st) (ps_start st ! i) (ps_start st ! Suc i))"

definition entries :: "postsolve_storage \<Rightarrow> ps_entry list" where
  "entries st = map (ps_entry_at st) [0..<length (ps_types st)]"

definition storage_ok :: "postsolve_storage \<Rightarrow> bool" where
  "storage_ok st \<longleftrightarrow> length (ps_start st) = Suc (length (ps_types st)) \<and> ps_start st ! 0 = 0 \<and>
     sorted (ps_start st) \<and> last (ps_start st) = length (ps_values st) \<and>
     length (ps_indices st) = length (ps_values st)"

definition mapping_ok :: "postsolve_storage \<Rightarrow> bool" where
  "mapping_ok st \<longleftrightarrow>
     sorted_wrt (<) (origcol_mapping st) \<and> (\<forall>c \<in> set (origcol_mapping st). c < nColsOriginal st) \<and>
     sorted_wrt (<) (origrow_mapping st) \<and> (\<forall>r \<in> set (origrow_mapping st). r < nRowsOriginal st)"

text \<open>What one call adds to the log: nothing in primal mode for the purely dual information.\<close>

definition if_full :: "postsolve_storage \<Rightarrow> ps_entry \<Rightarrow> ps_entry list" where
  "if_full st e = (if postsolveType st = kPrimal then [] else [e])"

definition infcol_rows :: "postsolve_storage \<Rightarrow> problem \<Rightarrow> sparse_vec \<Rightarrow> int list \<times> rat list" where
  "infcol_rows st p col =
     (concat (map (\<lambda>(r, v). saved_row_indices st r (row_coeffs p ! r) (row_flags p ! r)) col),
      concat (map (\<lambda>(r, v). saved_row_values (row_coeffs p ! r) (lhs_values p ! r) (rhs_values p ! r)) col))"

fun log_entry :: "postsolve_storage \<Rightarrow> store_call \<Rightarrow> ps_entry list" where
  "log_entry st (RedundantRow row) = if_full st (kRedundantRowType, [orig_row st row], [0])"
| "log_entry st (VarBoundChange low col ob winf nb) = if_full st
     (kVarBoundChange, [bool_int low, orig_col st col, bool_int winf], [0, nb, ob])"
| "log_entry st (RowBoundChange islhs row nb iinf ob winf) = if_full st
     (kRowBoundChange, [bool_int islhs, bool_int iinf, bool_int winf], [of_int (orig_row st row), nb, ob])"
| "log_entry st (RowBoundChangeForcedByRow islhs row nb iinf) = if_full st
     (kRowBoundChangeForcedByRow, [bool_int islhs, bool_int iinf], [of_int (orig_row st row), nb])"
| "log_entry st (ReasonForRowBoundChange rr dr f) = if_full st
     (kReasonForRowBoundChangeForcedByRow, [orig_row st rr, orig_row st dr], [f, 0])"
| "log_entry st (FixedCol col val cv cost) =
     [(kFixedCol, orig_col st col # (if postsolveType st = kFull
         then int (length cv) # map (\<lambda>(r, v). orig_row st r) cv else []),
       val # (if postsolveType st = kFull then cost ! col # map snd cv else []))]"
| "log_entry st (FixedInfCol col val b binf p) =
     [(kFixedInfCol,
       [orig_col st col, int (length (col_coeffs p ! col)), bool_int binf] @ fst (infcol_rows st p (col_coeffs p ! col)),
       [val, 0, b] @ snd (infcol_rows st p (col_coeffs p ! col)))]"
| "log_entry st (CoefficientChange row col v) = if_full st
     (kCoefficientChange, [orig_row st row, orig_col st col], [v, 0])"
| "log_entry st (DualValue isc i v) = if_full st (if isc then kColumnDualValue else kRowDualValue, [i], [v])"
| "log_entry st (SavedRow row cs l r f) = if_full st
     (kSaveRow, saved_row_indices st row cs f, saved_row_values cs l r)"
| "log_entry st (Substitution col row p) =
     [(kSubstitutedColWithDual,
       saved_row_indices st row (row_coeffs p ! row) (row_flags p ! row) @
       (if postsolveType st = kFull then saved_col_indices st col p else [orig_col st col]),
       saved_row_values (row_coeffs p ! row) (lhs_values p ! row) (rhs_values p ! row) @
       (if postsolveType st = kFull then saved_col_values col p else [0]))]"
| "log_entry st (SubstitutionEquality col lhs rhs) =
     [(kSubstitutedCol, orig_col st col # map (\<lambda>(c, v). orig_col st c) lhs, rhs # map snd lhs)]"
| "log_entry st (ParallelCols c1 i1 li1 l1 ui1 u1 c2 i2 li2 l2 ui2 u2 sc) =
     [(kParallelCol, [orig_col st c1, bound_flags i1 li1 ui1, orig_col st c2, bound_flags i2 li2 ui2, -1],
       [l1, u1, l2, u2, sc])]"
| "log_entry st (ReducedBoundsAndCost cl cu rl rr co rf cf) = if_full st
     (kReducedBoundsCost,
       bound_slots kLbInf kUbInf cf (length cl) @ bound_slots kLhsInf kRhsInf rf (length rl) @ map int [0..<length co],
       bound_values cl cu (length cl) @ bound_values rl rr (length rl) @ co)"
| "log_entry st (Compress rowm colm) = []"

fun log_entries :: "postsolve_storage \<Rightarrow> store_call list \<Rightarrow> ps_entry list" where
  "log_entries st [] = []"
| "log_entries st (c # cs) = log_entry st c @ log_entries (perform c st) cs"

section \<open>Every call appends\<close>

lemma slice_append [simp]: "b \<le> length xs \<Longrightarrow> slice (xs @ ys) a b = slice xs a b"
  by (simp add: slice_def)

lemma slice_last [simp]: "slice (xs @ ys) (length xs) (length xs + length ys) = ys"
  by (simp add: slice_def)

lemma start_le:
  assumes "storage_ok st" and "i \<le> length (ps_types st)"
  shows "ps_start st ! i \<le> length (ps_values st)"
proof -
  have "ps_start st ! i \<le> ps_start st ! length (ps_types st)"
    using assms by (auto simp: storage_ok_def intro: sorted_nth_mono)
  moreover have "last (ps_start st) = ps_start st ! length (ps_types st)"
    using assms(1) last_conv_nth [of "ps_start st"] by (force simp: storage_ok_def)
  ultimately show ?thesis using assms(1) by (simp add: storage_ok_def)
qed

text \<open>The shape of every store operation: one type, one segment in each vector, one border.\<close>

definition append_entry :: "ps_entry \<Rightarrow> postsolve_storage \<Rightarrow> postsolve_storage" where
  "append_entry e st = (case e of (t, is, vs) \<Rightarrow> finishStorage (push_back is vs (push_type t st)))"

lemma append_entry_sel [simp]:
  "ps_types (append_entry (t, is, vs) st) = ps_types st @ [t]"
  "ps_indices (append_entry (t, is, vs) st) = ps_indices st @ is"
  "ps_values (append_entry (t, is, vs) st) = ps_values st @ vs"
  "ps_start (append_entry (t, is, vs) st) = ps_start st @ [length (ps_values st) + length vs]"
  "origcol_mapping (append_entry e st) = origcol_mapping st"
  "origrow_mapping (append_entry e st) = origrow_mapping st"
  "nColsOriginal (append_entry e st) = nColsOriginal st"
  "nRowsOriginal (append_entry e st) = nRowsOriginal st"
  "postsolveType (append_entry e st) = postsolveType st"
  "ps_problem (append_entry e st) = ps_problem st"
  by (simp_all add: append_entry_def finishStorage_def push_back_def push_type_def split: prod.split)

lemma append_entry_ok:
  assumes "storage_ok st" and "length is = length vs"
  shows "storage_ok (append_entry (t, is, vs) st)"
proof -
  have "\<forall>x \<in> set (ps_start st). x \<le> length (ps_values st)"
    using start_le [OF assms(1)] assms(1) by (auto simp: in_set_conv_nth storage_ok_def)
  then show ?thesis
    using assms by (auto simp: storage_ok_def sorted_append nth_append intro: le_SucI le_trans)
qed

lemma append_entry_entries:
  assumes "storage_ok st" and "length is = length vs"
  shows "entries (append_entry (t, is, vs) st) = entries st @ [(t, is, vs)]"
proof -
  let ?st = "append_entry (t, is, vs) st"
  have len: "length (ps_start st) = Suc (length (ps_types st))" "length (ps_indices st) = length (ps_values st)"
    using assms(1) by (simp_all add: storage_ok_def)
  have "ps_entry_at ?st i = ps_entry_at st i" if "i < length (ps_types st)" for i
    using that len start_le [OF assms(1), of "Suc i"] by (simp add: ps_entry_at_def nth_append)
  moreover have "ps_start st ! length (ps_types st) = length (ps_values st)"
    using assms(1) last_conv_nth [of "ps_start st"] by (force simp: storage_ok_def)
  then have "ps_entry_at ?st (length (ps_types st)) = (t, is, vs)"
    using assms(2) len slice_last [of "ps_indices st" "is"] slice_last [of "ps_values st" vs]
    by (simp add: ps_entry_at_def nth_append)
  ultimately show ?thesis by (simp add: entries_def)
qed

lemma push_rows:
  "foldl (\<lambda>s (r, v). push_back_row r p s) (push_back is vs st) col =
     push_back (is @ fst (infcol_rows st p col)) (vs @ snd (infcol_rows st p col)) st"
proof (induction col arbitrary: "is" vs)
  case Nil
  then show ?case by (simp add: infcol_rows_def)
next
  case (Cons e col)
  obtain r v where e: "e = (r, v)" by fastforce
  have "push_back_row r p (push_back is vs st) =
      push_back (is @ saved_row_indices st r (row_coeffs p ! r) (row_flags p ! r))
        (vs @ saved_row_values (row_coeffs p ! r) (lhs_values p ! r) (rhs_values p ! r)) st"
    by (simp add: push_back_row_def push_back_def saved_row_indices_def orig_row_def orig_col_def)
  then show ?case by (simp add: e Cons.IH) (simp add: infcol_rows_def)
qed

lemma perform_if_full:
  "(if postsolveType st = kPrimal then st else finishStorage (push_back is vs (push_type t st))) =
   foldl (\<lambda>s e. append_entry e s) st (if_full st (t, is, vs))"
  by (simp add: if_full_def append_entry_def)

lemma push_back_append: "push_back is' vs' (push_back is vs st) = push_back (is @ is') (vs @ vs') st"
  by (simp add: push_back_def)

lemma orig_push_type [simp]: "orig_row (push_type t st) r = orig_row st r" "orig_col (push_type t st) c = orig_col st c"
  "saved_row_indices (push_type t st) = saved_row_indices st" "saved_col_indices (push_type t st) = saved_col_indices st"
  "infcol_rows (push_type t st) = infcol_rows st"
  "orig_row (push_back is vs st) r = orig_row st r" "orig_col (push_back is vs st) c = orig_col st c"
  "saved_col_indices (push_back is vs st) = saved_col_indices st"
  by (simp_all add: orig_row_def orig_col_def push_type_def push_back_def saved_row_indices_def
      saved_col_indices_def infcol_rows_def fun_eq_iff)

lemma perform_appends:
  "perform c st = (case c of Compress rowm colm \<Rightarrow> storage_compress rowm colm st
     | _ \<Rightarrow> foldl (\<lambda>s e. append_entry e s) st (log_entry st c))"
proof (cases c)
  case (FixedCol col val cv cost)
  then show ?thesis
    by (simp add: storeFixedCol_def Let_def append_entry_def push_back_append)
next
  case (FixedInfCol col val b binf p)
  then show ?thesis
    by (simp add: storeFixedInfCol_def Let_def append_entry_def push_rows bool_int_def)
next
  case (Substitution col row p)
  then show ?thesis
    by (simp add: storeSubstitution_def Let_def append_entry_def push_back_row_def push_back_col_def
        push_back_append)
next
  case (ParallelCols c1 i1 li1 l1 ui1 u1 c2 i2 li2 l2 ui2 u2 sc)
  then show ?thesis
    by (cases st) (simp add: storeParallelCols_def append_entry_def push_back_def push_type_def
        orig_col_def finishStorage_def)
next
  case (SubstitutionEquality col lhs rhs)
  then show ?thesis by (simp add: storeSubstitution_equality_def append_entry_def)
qed (simp_all add: storeRedundantRow_def storeVarBoundChange_def storeRowBoundChange_def
    storeRowBoundChangeForcedByRow_def storeReasonForRowBoundChangeForcedByRow_def
    storeCoefficientChange_def storeDualValue_def storeSavedRow_def storeReducedBoundsAndCost_def
    if_full_def append_entry_def bool_int_def)

lemma length_saved_row [simp]:
  "length (saved_row_indices st r cs f) = 3 + length cs" "length (saved_row_values cs l u) = 3 + length cs"
  by (simp_all add: saved_row_indices_def saved_row_values_def)

lemma length_infcol_rows: "length (fst (infcol_rows st p col)) = length (snd (infcol_rows st p col))"
proof (induction col)
  case (Cons e col)
  obtain r v where "e = (r, v)" by fastforce
  with Cons show ?case by (simp add: infcol_rows_def)
qed (simp add: infcol_rows_def)

lemma length_bound_slots [simp]: "length (bound_slots a b f n) = 2 * n" "length (bound_values l u n) = 2 * n"
  by (induction n) (simp_all add: bound_slots_def bound_values_def)

lemma log_entry_lengths:
  assumes "(t, is, vs) \<in> set (log_entry st c)"
  shows "length is = length vs"
  using assms by (cases c) (auto simp: if_full_def length_infcol_rows saved_col_indices_def
      saved_col_values_def split: if_splits)

lemma log_entry_cases: "log_entry st c = [] \<or> (\<exists>e. log_entry st c = [e])"
  by (cases c) (auto simp: if_full_def)

lemma compress_entries [simp]:
  "entries (storage_compress rowm colm st) = entries st"
  "storage_ok (storage_compress rowm colm st) = storage_ok st"
  "ps_types (storage_compress rowm colm st) = ps_types st"
  "postsolveType (storage_compress rowm colm st) = postsolveType st"
  by (simp_all add: storage_compress_def entries_def storage_ok_def ps_entry_at_def)

lemma perform_entry:
  assumes "storage_ok st"
  shows "storage_ok (perform c st) \<and> entries (perform c st) = entries st @ log_entry st c"
proof (cases "\<exists>rowm colm. c = Compress rowm colm")
  case True
  then show ?thesis using assms by auto
next
  case False
  then have run: "perform c st = foldl (\<lambda>s e. append_entry e s) st (log_entry st c)"
    using False by (simp add: perform_appends del: perform.simps split: store_call.split)
  consider "log_entry st c = []" | t "is" vs where "log_entry st c = [(t, is, vs)]"
    using log_entry_cases [of st c] by force
  then show ?thesis
  proof cases
    case 1
    with run assms show ?thesis by simp
  next
    case 2
    with run log_entry_lengths [of t "is" vs st c] assms show ?thesis
      by (simp add: append_entry_ok append_entry_entries)
  qed
qed

section \<open>The log of a run\<close>

text \<open>
  The contract between presolve and postsolve: a run of calls extends what was logged before and
  changes none of it.
\<close>

locale append_log =
  fixes inv :: "'s \<Rightarrow> bool" and read :: "'s \<Rightarrow> 'e list"
    and run :: "'c \<Rightarrow> 's \<Rightarrow> 's" and enc :: "'s \<Rightarrow> 'c \<Rightarrow> 'e list"
  assumes run_inv: "inv s \<Longrightarrow> inv (run c s)"
    and run_read: "inv s \<Longrightarrow> read (run c s) = read s @ enc s c"
begin

lemma run_all:
  assumes "inv s"
  shows "inv (foldl (\<lambda>s c. run c s) s cs) \<and> (\<exists>es. read (foldl (\<lambda>s c. run c s) s cs) = read s @ es)"
  using assms
proof (induction cs arbitrary: s)
  case (Cons c cs)
  from Cons.IH [OF run_inv [OF Cons.prems, of c]] run_read [OF Cons.prems, of c] show ?case by auto
qed simp

lemma earlier_entries_kept:
  assumes "inv s" and "i < length (read s)"
  shows "read (foldl (\<lambda>s c. run c s) s cs) ! i = read s ! i"
proof -
  obtain es where "read (foldl (\<lambda>s c. run c s) s cs) = read s @ es"
    using run_all [OF assms(1)] by blast
  with assms(2) show ?thesis by (simp add: nth_append)
qed

end

interpretation ps_log: append_log storage_ok entries perform log_entry
  by unfold_locales (simp_all add: perform_entry)

lemma perform_all_simps [simp]:
  "perform_all [] st = st" "perform_all (c # cs) st = perform_all cs (perform c st)"
  by (simp_all add: perform_all_def)

lemma perform_all_entries:
  assumes "storage_ok st"
  shows "storage_ok (perform_all calls st) \<and>
    entries (perform_all calls st) = entries st @ log_entries st calls"
  using assms
proof (induction calls arbitrary: st)
  case (Cons c cs)
  then show ?case using perform_entry [OF Cons.prems, of c] by simp
qed simp

lemma new_storage_ok [simp]: "storage_ok (new_storage p)" "entries (new_storage p) = []"
  by (simp_all add: storage_ok_def new_storage_def entries_def)

text \<open>
  C18. Every call of the listener interface appends its own segment to the parallel vectors (or
  nothing) and keeps the segments logged before it readable as they were, so that after any sequence
  of calls, renumberings included, the storage reads back as the log of the calls in their order.
\<close>

theorem storage_holds_log:
  assumes "storage_ok st"
  shows "storage_ok (perform_all calls st) \<and>
    entries (perform_all calls st) = entries st @ log_entries st calls \<and>
    (\<forall>i<length (entries st). entries (perform_all calls st) ! i = entries st ! i)"
  using perform_all_entries [OF assms, of calls] ps_log.earlier_entries_kept [OF assms, of _ calls]
  by (simp add: perform_all_def)

definition ex_calls :: "store_call list" where
  "ex_calls = [FixedCol 1 7 [] [0, 0, 0], Compress [0, 1] [0, -1, 1], RedundantRow 0,
     SubstitutionEquality 1 [(0, 2), (1, 1)] 5]"

theorem storage_holds_log_witness:
  "entries (perform_all ex_calls (new_storage_sized 2 3 ex_problem)) =
     [(kFixedCol, [1], [7]), (kSubstitutedCol, [2, 0, 2], [5, 2, 1])]"
proof -
  have "storage_ok (new_storage_sized 2 3 ex_problem)"
    by (simp add: storage_ok_def new_storage_sized_def)
  moreover have "entries (new_storage_sized 2 3 ex_problem) = []"
    by (simp add: entries_def new_storage_sized_def)
  moreover have "log_entries (new_storage_sized 2 3 ex_problem) ex_calls =
      [(kFixedCol, [1], [7]), (kSubstitutedCol, [2, 0, 2], [5, 2, 1])]"
    by (simp add: ex_calls_def new_storage_sized_def orig_col_def if_full_def storeFixedCol_def
        Let_def storeRedundantRow_def push_type_def push_back_def finishStorage_def
        storage_compress_def compress_vector_def upt_rec)
  ultimately show ?thesis
    using storage_holds_log [of "new_storage_sized 2 3 ex_problem" ex_calls] by simp
qed

subsection \<open>The modes\<close>

definition primal_types :: "ReductionType set" where
  "primal_types = {kFixedCol, kFixedInfCol, kParallelCol, kSubstitutedColWithDual, kSubstitutedCol}"

lemma perform_mode [simp]: "postsolveType (perform c st) = postsolveType st"
proof (cases "\<exists>rowm colm. c = Compress rowm colm")
  case False
  then have "perform c st = foldl (\<lambda>s e. append_entry e s) st (log_entry st c)"
    using False by (simp add: perform_appends del: perform.simps split: store_call.split)
  then show ?thesis using log_entry_cases [of st c] by auto
qed auto

lemma log_entry_primal:
  assumes "postsolveType st = kPrimal" and "e \<in> set (log_entry st c)"
  shows "fst e \<in> primal_types"
  using assms by (cases c) (auto simp: if_full_def primal_types_def)

text \<open>
  C20. A storage in primal mode only ever holds the five kinds of reductions whose undo changes primal
  values; everything that only serves the dual postsolve leaves it unchanged.
\<close>

theorem primal_storage_types:
  assumes "storage_ok st" and "postsolveType st = kPrimal" and "ps_types st = []"
  shows "\<forall>e \<in> set (entries (perform_all calls st)). fst e \<in> primal_types"
proof -
  have "\<forall>e \<in> set (log_entries st calls). fst e \<in> primal_types"
    using assms(2)
  proof (induction calls arbitrary: st)
    case (Cons c cs)
    have "\<forall>e \<in> set (log_entries (perform c st) cs). fst e \<in> primal_types"
      using Cons.IH [of "perform c st"] Cons.prems by simp
    then show ?case using log_entry_primal [OF Cons.prems] by auto
  qed simp
  moreover have "entries st = []" using assms(3) by (simp add: entries_def)
  ultimately show ?thesis using perform_all_entries [OF assms(1), of calls] by simp
qed

theorem primal_storage_types_witness:
  "fst ` set (entries (perform_all ex_calls (new_storage ex_problem))) \<subseteq> primal_types"
proof -
  have "storage_ok (new_storage ex_problem)" "postsolveType (new_storage ex_problem) = kPrimal"
    "ps_types (new_storage ex_problem) = []" by (simp_all, simp_all add: new_storage_def)
  from primal_storage_types [OF this, of ex_calls] show ?thesis by blast
qed

subsection \<open>The index mappings\<close>

lemma sorted_wrt_map_kept:
  assumes "sorted_wrt (<) (xs :: nat list)" and "length xs = length m"
  shows "sorted_wrt (<) (map ((!) xs) (kept m (length m)))"
proof -
  have "sorted_wrt (<) (kept m (length m))"
    by (simp add: kept_def sorted_wrt_filter)
  moreover have "\<forall>i \<in> set (kept m (length m)). i < length xs"
    using assms(2) by (auto simp: kept_def)
  ultimately show ?thesis
    using assms(1) by (auto simp: sorted_wrt_map sorted_wrt_iff_nth_less)
qed

lemma set_map_kept: "length xs = length m \<Longrightarrow> set (map ((!) xs) (kept m (length m))) \<subseteq> set xs"
  by (auto simp: kept_def)

lemma compress_mapping_ok:
  assumes "mapping_ok st" and "compress_mapping colm" and "length (origcol_mapping st) = length colm"
    and "compress_mapping rowm" and "length (origrow_mapping st) = length rowm"
  shows "mapping_ok (storage_compress rowm colm st)"
  using assms set_map_kept [of "origcol_mapping st" colm] set_map_kept [of "origrow_mapping st" rowm]
  by (auto simp: mapping_ok_def storage_compress_def compress_vector_kept sorted_wrt_map_kept)

text \<open>
  Renumbering keeps the index mapping a strictly increasing choice of original columns and rows,
  and the original index of a kept column does not change when the column moves.
\<close>

lemma compress_keeps_original_indices:
  assumes "mapping_ok st" and "compress_mapping colm" and "length (origcol_mapping st) = length colm"
    and "compress_mapping rowm" and "length (origrow_mapping st) = length rowm"
  shows "mapping_ok (storage_compress rowm colm st) \<and>
    (\<forall>i<length colm. colm ! i \<noteq> -1 \<longrightarrow>
       orig_col (storage_compress rowm colm st) (nat (colm ! i)) = orig_col st i)"
proof -
  have "orig_col (storage_compress rowm colm st) (nat (colm ! i)) = orig_col st i"
    if "i < length colm" "colm ! i \<noteq> -1" for i
  proof -
    have "colm ! i = int (length (kept colm i))"
      using assms(2) that by (auto simp: compress_mapping_def)
    with kept_append [OF that] assms(2,3) show ?thesis
      by (simp add: orig_col_def storage_compress_def compress_vector_kept nth_append)
  qed
  with compress_mapping_ok [OF assms] show ?thesis by blast
qed

subsection \<open>Reading a segment\<close>

lemma slice_nth: "k < length (slice xs a b) \<Longrightarrow> slice xs a b ! k = xs ! (a + k)"
  by (cases "a \<le> length xs") (simp_all add: slice_def)

lemma entries_nth:
  assumes "i < length (ps_types st)"
  shows "entries st ! i = (ps_types st ! i, slice (ps_indices st) (ps_start st ! i) (ps_start st ! Suc i),
    slice (ps_values st) (ps_start st ! i) (ps_start st ! Suc i))"
  using assms by (simp add: entries_def ps_entry_at_def)

lemma length_entries [simp]: "length (entries st) = length (ps_types st)"
  by (simp add: entries_def)

text \<open>What a segment of the log says about the vectors, for the readers of the storage.\<close>

lemma entry_at:
  assumes "storage_ok st" and "i < length (ps_types st)" and "entries st ! i = (t, is, vs)"
  shows "ps_types st ! i = t"
    and "k < length is \<Longrightarrow> ps_indices st ! (ps_start st ! i + k) = is ! k"
    and "k < length vs \<Longrightarrow> ps_values st ! (ps_start st ! i + k) = vs ! k"
    and "ps_start st ! Suc i = ps_start st ! i + length is" and "length vs = length is"
proof -
  have le: "ps_start st ! i \<le> ps_start st ! Suc i" "ps_start st ! Suc i \<le> length (ps_values st)"
    using start_le [OF assms(1), of "Suc i"] assms(1,2)
    by (auto simp: storage_ok_def intro: sorted_nth_mono)
  have len: "length (ps_indices st) = length (ps_values st)" using assms(1) by (simp add: storage_ok_def)
  have e: "t = ps_types st ! i" "is = slice (ps_indices st) (ps_start st ! i) (ps_start st ! Suc i)"
    "vs = slice (ps_values st) (ps_start st ! i) (ps_start st ! Suc i)"
    using assms(3) entries_nth [OF assms(2)] by auto
  from e(1) show "ps_types st ! i = t" by simp
  from e(2) show "k < length is \<Longrightarrow> ps_indices st ! (ps_start st ! i + k) = is ! k"
    by (simp add: slice_nth)
  from e(3) show "k < length vs \<Longrightarrow> ps_values st ! (ps_start st ! i + k) = vs ! k"
    by (simp add: slice_nth)
  from e le len show "ps_start st ! Suc i = ps_start st ! i + length is" "length vs = length is"
    by (auto simp: slice_def)
qed

end
