(* ===== verification/Pap_Solution.thy ===== *)
theory Pap_Solution
  imports Pap_PostsolveStorage
begin

text \<open>
  The data postsolve works on: \<open>Solution\<close> (\<open>core/Solution.hpp\<close>), the bounds of the current column
  domains (\<open>core/postsolve/BoundStorage.hpp\<close>) and a row read back from the log
  (\<open>core/postsolve/SavedRow.hpp\<close>). Assertions are debug code and are not modelled. Indices read from
  the log are \<open>int\<close> in the code; they are non-negative, and \<open>nat\<close> converts them.
\<close>

datatype SolutionType = kPrimalOnly | kPrimalDual

datatype VarBasisStatus = ON_UPPER | ON_LOWER | FIXED | ZERO | BASIC | UNDEFINED

record solution =
  sol_type :: SolutionType
  primal :: "rat list"
  dual :: "rat list"
  reducedCosts :: "rat list"
  slack :: "rat list"
  basisAvailabe :: bool
  varBasisStatus :: "VarBasisStatus list"
  rowBasisStatus :: "VarBasisStatus list"

definition new_solution :: "SolutionType \<Rightarrow> rat list \<Rightarrow> solution" where
  "new_solution ty vs =
     \<lparr>sol_type = ty, primal = vs, dual = [], reducedCosts = [], slack = [],
      basisAvailabe = False, varBasisStatus = [], rowBasisStatus = []\<rparr>"

abbreviation set_primal :: "nat \<Rightarrow> rat \<Rightarrow> solution \<Rightarrow> solution" where
  "set_primal c v s \<equiv> s\<lparr>primal := (primal s)[c := v]\<rparr>"

abbreviation set_dual :: "nat \<Rightarrow> rat \<Rightarrow> solution \<Rightarrow> solution" where
  "set_dual r v s \<equiv> s\<lparr>dual := (dual s)[r := v]\<rparr>"

abbreviation set_redcost :: "nat \<Rightarrow> rat \<Rightarrow> solution \<Rightarrow> solution" where
  "set_redcost c v s \<equiv> s\<lparr>reducedCosts := (reducedCosts s)[c := v]\<rparr>"

abbreviation set_var_basis :: "nat \<Rightarrow> VarBasisStatus \<Rightarrow> solution \<Rightarrow> solution" where
  "set_var_basis c b s \<equiv> s\<lparr>varBasisStatus := (varBasisStatus s)[c := b]\<rparr>"

abbreviation set_row_basis :: "nat \<Rightarrow> VarBasisStatus \<Rightarrow> solution \<Rightarrow> solution" where
  "set_row_basis r b s \<equiv> s\<lparr>rowBasisStatus := (rowBasisStatus s)[r := b]\<rparr>"

section \<open>BoundStorage\<close>

record bound_storage =
  bs_num :: Num
  bs_col_cost :: "rat list"
  bs_row_lhs :: "rat list"
  bs_row_rhs :: "rat list"
  bs_row_infinity_lhs :: "int list"
  bs_row_infinity_rhs :: "int list"
  bs_col_infinity_lower :: "bool list"
  bs_col_infinity_upper :: "bool list"
  bs_col_lower :: "rat list"
  bs_col_upper :: "rat list"

definition new_bound_storage :: "Num \<Rightarrow> nat \<Rightarrow> nat \<Rightarrow> bool \<Rightarrow> bound_storage" where
  "new_bound_storage n cols rows is_primal_dual =
     (if \<not> is_primal_dual
      then \<lparr>bs_num = default_num, bs_col_cost = [], bs_row_lhs = [], bs_row_rhs = [],
            bs_row_infinity_lhs = [], bs_row_infinity_rhs = [], bs_col_infinity_lower = [],
            bs_col_infinity_upper = [], bs_col_lower = [], bs_col_upper = []\<rparr>
      else \<lparr>bs_num = n, bs_col_cost = replicate cols 0, bs_row_lhs = replicate rows 0,
            bs_row_rhs = replicate rows 0, bs_row_infinity_lhs = replicate rows 1,
            bs_row_infinity_rhs = replicate rows 1, bs_col_infinity_lower = replicate cols True,
            bs_col_infinity_upper = replicate cols True, bs_col_lower = replicate cols 0,
            bs_col_upper = replicate cols 0\<rparr>)"

definition set_bounds_of_variable ::
  "nat \<Rightarrow> bool \<Rightarrow> bool \<Rightarrow> rat \<Rightarrow> rat \<Rightarrow> bound_storage \<Rightarrow> bound_storage" where
  "set_bounds_of_variable col lb_inf ub_inf lb ub b =
     b\<lparr>bs_col_lower := (bs_col_lower b)[col := lb],
       bs_col_upper := (bs_col_upper b)[col := ub],
       bs_col_infinity_lower := (bs_col_infinity_lower b)[col := lb_inf],
       bs_col_infinity_upper := (bs_col_infinity_upper b)[col := ub_inf]\<rparr>"

definition set_bound_of_variable ::
  "nat \<Rightarrow> bool \<Rightarrow> bool \<Rightarrow> rat \<Rightarrow> bound_storage \<Rightarrow> bound_storage" where
  "set_bound_of_variable col is_lower infty val b =
     (if is_lower
      then b\<lparr>bs_col_lower := (bs_col_lower b)[col := val],
             bs_col_infinity_lower := (bs_col_infinity_lower b)[col := infty]\<rparr>
      else b\<lparr>bs_col_upper := (bs_col_upper b)[col := val],
             bs_col_infinity_upper := (bs_col_infinity_upper b)[col := infty]\<rparr>)"

definition is_lower_and_upper_bound_infinity :: "bound_storage \<Rightarrow> nat \<Rightarrow> bool" where
  "is_lower_and_upper_bound_infinity b col \<longleftrightarrow>
     bs_col_infinity_lower b ! col \<and> bs_col_infinity_upper b ! col"

text \<open>The two flag vectors receive each other's flag, as the source writes it.\<close>

definition set_bounds_of_row ::
  "nat \<Rightarrow> bool \<Rightarrow> bool \<Rightarrow> rat \<Rightarrow> rat \<Rightarrow> bound_storage \<Rightarrow> bound_storage" where
  "set_bounds_of_row row lhs_inf rhs_inf lhs rhs b =
     b\<lparr>bs_row_lhs := (bs_row_lhs b)[row := lhs],
       bs_row_rhs := (bs_row_rhs b)[row := rhs],
       bs_row_infinity_lhs := (bs_row_infinity_lhs b)[row := bool_int rhs_inf],
       bs_row_infinity_rhs := (bs_row_infinity_rhs b)[row := bool_int lhs_inf]\<rparr>"

definition is_on_upper_bound :: "bound_storage \<Rightarrow> nat \<Rightarrow> rat \<Rightarrow> bool" where
  "is_on_upper_bound b col val \<longleftrightarrow>
     \<not> bs_col_infinity_upper b ! col \<and> isEq (bs_num b) val (bs_col_upper b ! col)"

definition is_on_lower_bound :: "bound_storage \<Rightarrow> nat \<Rightarrow> rat \<Rightarrow> bool" where
  "is_on_lower_bound b col val \<longleftrightarrow>
     \<not> bs_col_infinity_lower b ! col \<and> isEq (bs_num b) val (bs_col_lower b ! col)"

definition col_bounds_match :: "bound_storage \<Rightarrow> problem \<Rightarrow> nat \<Rightarrow> bool" where
  "col_bounds_match b p i \<longleftrightarrow>
     (if flags_test (prob_cflags p ! i) [kInactive] then True
      else if bs_col_infinity_lower b ! i \<noteq> flags_test (prob_cflags p ! i) [kLbInf] then False
      else if bs_col_infinity_upper b ! i \<noteq> flags_test (prob_cflags p ! i) [kUbInf] then False
      else if \<not> isEq (bs_num b) (bs_col_upper b ! i) (prob_ubs p ! i) \<and>
              \<not> flags_test (prob_cflags p ! i) [kUbInf] then False
      else if \<not> isEq (bs_num b) (bs_col_lower b ! i) (prob_lbs p ! i) \<and>
              \<not> flags_test (prob_cflags p ! i) [kLbInf] then False
      else True)"

definition check_bounds :: "problem \<Rightarrow> bound_storage \<Rightarrow> bool" where
  "check_bounds p b \<longleftrightarrow> list_all (col_bounds_match b p) [0..<getNCols p]"

section \<open>SavedRow\<close>

text \<open>
  The constructor does not set the member \<open>num\<close>: the tests of a saved row use the default
  tolerances, whatever \<open>Num\<close> it is given.
\<close>

record saved_row =
  sr_num :: Num
  sr_row :: nat
  sr_col_coefficients :: "nat list"
  sr_row_values :: "rat list"
  sr_slack :: rat
  sr_is_lhs_inf :: bool
  sr_lhs :: rat
  sr_is_rhs_inf :: bool
  sr_rhs :: rat
  sr_length :: nat

definition saved_row_start :: "nat \<Rightarrow> ReductionType list \<Rightarrow> nat list \<Rightarrow> nat" where
  "saved_row_start i types start =
     (if types ! (i - 1) = kSaveRow then start ! (i - 1)
      else if types ! (i - 2) = kSaveRow then start ! (i - 2)
      else start ! (i - 1))"

definition new_saved_row ::
  "nat \<Rightarrow> ReductionType list \<Rightarrow> nat list \<Rightarrow> int list \<Rightarrow> rat list \<Rightarrow> rat list \<Rightarrow> saved_row" where
  "new_saved_row i types start indices vals primal_solution =
     (let k = saved_row_start i types start;
          len = nat (trunc_int (vals ! k));
          cols = map (\<lambda>j. nat (indices ! (k + 3 + j))) [0..<len];
          coefs = map (\<lambda>j. vals ! (k + 3 + j)) [0..<len]
      in \<lparr>sr_num = default_num, sr_row = nat (indices ! k),
          sr_col_coefficients = cols, sr_row_values = coefs,
          sr_slack = stable_sum 0 (map (\<lambda>(c, v). v * primal_solution ! c) (zip cols coefs)),
          sr_is_lhs_inf = (indices ! (k + 1) = 1), sr_lhs = vals ! (k + 1),
          sr_is_rhs_inf = (indices ! (k + 2) = 1), sr_rhs = vals ! (k + 2),
          sr_length = len\<rparr>)"

definition is_on_lhs :: "saved_row \<Rightarrow> bool" where
  "is_on_lhs r \<longleftrightarrow> \<not> sr_is_lhs_inf r \<and> isFeasEq (sr_num r) (sr_slack r) (sr_lhs r)"

definition is_on_rhs :: "saved_row \<Rightarrow> bool" where
  "is_on_rhs r \<longleftrightarrow> \<not> sr_is_rhs_inf r \<and> isFeasEq (sr_num r) (sr_slack r) (sr_rhs r)"

definition getCoeffOfCol :: "saved_row \<Rightarrow> nat \<Rightarrow> rat" where
  "getCoeffOfCol r col =
     (case filter (\<lambda>j. sr_col_coefficients r ! j = col) [0..<sr_length r]
      of [] \<Rightarrow> 0 | j # _ \<Rightarrow> sr_row_values r ! j)"

definition getVBS :: "saved_row \<Rightarrow> VarBasisStatus" where
  "getVBS r =
     (if is_on_lhs r \<and> is_on_rhs r then FIXED
      else if is_on_rhs r then ON_UPPER
      else if is_on_lhs r then ON_LOWER
      else if sr_is_lhs_inf r \<and> sr_is_rhs_inf r \<and> isZero (sr_num r) (sr_slack r) then ZERO
      else BASIC)"

definition sr_is_violated :: "rat list \<Rightarrow> bound_storage \<Rightarrow> saved_row \<Rightarrow> bool" where
  "sr_is_violated x b r \<longleftrightarrow>
     list_ex (\<lambda>i. let c = sr_col_coefficients r ! i; sol = x ! c in
        (\<not> bs_col_infinity_lower b ! c \<and> isLT (sr_num r) sol (bs_col_lower b ! c)) \<or>
        (\<not> bs_col_infinity_upper b ! c \<and> isGT (sr_num r) sol (bs_col_upper b ! c))) [0..<sr_length r] \<or>
     (\<not> sr_is_rhs_inf r \<and> isFeasGT (sr_num r) (sr_slack r) (sr_rhs r)) \<or>
     (\<not> sr_is_lhs_inf r \<and> isFeasLT (sr_num r) (sr_slack r) (sr_lhs r))"

end
