(* ===== verification/Pap_Postsolve.thy ===== *)
theory Pap_Postsolve
  imports Pap_Solution
begin

text \<open>
  Class \<open>Postsolve\<close> (\<open>core/postsolve/Postsolve.hpp\<close>): the log is undone from its last entry to its
  first, each step restoring the primal values (and, for a primal-dual solution, the dual values,
  reduced costs and basis) of the problem before the reduction. The operations take the vectors of
  the log and the position \<open>first\<close> of a segment, as the code does.
\<close>

definition IS_INTEGRAL :: int where "IS_INTEGRAL = uint kIntegral"
definition IS_LBINF :: int where "IS_LBINF = uint kLbInf"
definition IS_UBINF :: int where "IS_UBINF = uint kUbInf"

text \<open>\<open>flags & mask\<close> as a condition.\<close>

definition has_bit :: "int \<Rightarrow> int \<Rightarrow> bool" where
  "has_bit fl m \<longleftrightarrow> fl AND m \<noteq> 0"

section \<open>Copying the reduced solution\<close>

text \<open>\<open>scatter\<close>: a resized vector with the ents of the reduced one at their original indices.\<close>

definition scatter :: "'a \<Rightarrow> nat \<Rightarrow> nat list \<Rightarrow> 'a list \<Rightarrow> 'a list" where
  "scatter dflt n mapping xs =
     foldl (\<lambda>ys k. ys[mapping ! k := xs ! k]) (replicate n dflt) [0..<length xs]"

text \<open>The number of active integral columns, which the code keeps in the counter \<open>nintegers\<close>.\<close>

definition getNumIntegralCols :: "problem \<Rightarrow> nat" where
  "getNumIntegralCols p =
     length (filter (\<lambda>fl. flags_test fl [kIntegral] \<and> \<not> flags_test fl [kInactive]) (prob_cflags p))"

text \<open>
  The option \<open>calculate_basis_for_dual\<close> is an argument. The vectors of the target that the code does
  not touch keep their values.
\<close>

definition copy_from_reduced_to_original ::
  "bool \<Rightarrow> solution \<Rightarrow> postsolve_storage \<Rightarrow> solution \<Rightarrow> solution" where
  "copy_from_reduced_to_original calc_basis red st s =
     (let s1 = (if sol_type red = kPrimalDual then s\<lparr>sol_type := kPrimalDual\<rparr> else s);
          s2 = s1\<lparr>primal := scatter 0 (nColsOriginal st) (origcol_mapping st) (primal red)\<rparr>
      in if sol_type s2 = kPrimalDual
         then let s3 = s2\<lparr>basisAvailabe := basisAvailabe red \<and>
                       getNumIntegralCols (ps_problem st) = 0 \<and> calc_basis,
                     dual := scatter 0 (nRowsOriginal st) (origrow_mapping st) (dual red),
                     reducedCosts := scatter 0 (nColsOriginal st) (origcol_mapping st) (reducedCosts red)\<rparr>
              in if basisAvailabe red
                 then s3\<lparr>varBasisStatus :=
                           scatter UNDEFINED (nColsOriginal st) (origcol_mapping st) (varBasisStatus red),
                         rowBasisStatus :=
                           scatter UNDEFINED (nRowsOriginal st) (origrow_mapping st) (rowBasisStatus red)\<rparr>
                 else s3
         else s2)"

section \<open>Basis status\<close>

definition calculate_basis :: "Num \<Rightarrow> int \<Rightarrow> rat \<Rightarrow> rat \<Rightarrow> rat \<Rightarrow> bool \<Rightarrow> VarBasisStatus" where
  "calculate_basis num fl lb ub sol is_on_bounds =
     (if \<not> is_on_bounds then BASIC
      else if \<not> has_bit fl IS_UBINF \<and> isEq num sol ub then ON_UPPER
      else if has_bit fl IS_LBINF \<and> has_bit fl IS_UBINF \<and> isZero num sol then ZERO
      else if \<not> has_bit fl IS_LBINF \<and> isEq num sol lb then ON_LOWER
      else UNDEFINED)"

definition get_var_basis_status :: "Num \<Rightarrow> bound_storage \<Rightarrow> nat \<Rightarrow> rat \<Rightarrow> VarBasisStatus" where
  "get_var_basis_status num b col val =
     (let isOnUpperBound = is_on_upper_bound b col val;
          isOnLowerBound = is_on_lower_bound b col val
      in if isOnUpperBound \<and> isOnLowerBound then FIXED
         else if isOnUpperBound then ON_UPPER
         else if is_lower_and_upper_bound_infinity b col \<and> isZero num val then ZERO
         else if isOnLowerBound then ON_LOWER
         else BASIC)"

definition is_variable_on_upper_bound :: "Num \<Rightarrow> bool \<Rightarrow> rat \<Rightarrow> rat \<Rightarrow> bool" where
  "is_variable_on_upper_bound num ub_infinity ub x \<longleftrightarrow> isFeasEq num x ub \<and> \<not> ub_infinity"

definition is_variable_on_lower_bound :: "Num \<Rightarrow> bool \<Rightarrow> rat \<Rightarrow> rat \<Rightarrow> bool" where
  "is_variable_on_lower_bound num lb_infinity lb x \<longleftrightarrow> isFeasEq num x lb \<and> \<not> lb_infinity"

definition are_the_next_n_types_redundant_rows :: "ReductionType list \<Rightarrow> nat \<Rightarrow> nat \<Rightarrow> bool" where
  "are_the_next_n_types_redundant_rows types i redundant_rows \<longleftrightarrow>
     list_all (\<lambda>j. types ! (i - j - 1) = kRedundantRowType) [0..<redundant_rows]"

definition remove_row_from_basis ::
  "ReductionType list \<Rightarrow> nat list \<Rightarrow> int list \<Rightarrow> rat list \<Rightarrow> nat \<Rightarrow> solution \<Rightarrow> solution" where
  "remove_row_from_basis types start indices vals i s =
     (let r = new_saved_row i types start indices vals (primal s)
      in set_row_basis (sr_row r) (getVBS r) s)"

definition skip_if_row_bound_belongs_to_substitution ::
  "ReductionType list \<Rightarrow> nat list \<Rightarrow> int list \<Rightarrow> rat list \<Rightarrow> nat \<Rightarrow> int \<Rightarrow> bool" where
  "skip_if_row_bound_belongs_to_substitution types start indices vals i row \<longleftrightarrow>
     (i \<ge> 2 \<and> types ! (i - 1) = kCoefficientChange \<and> types ! (i - 2) = kSubstitutedColWithDual \<and>
      row = indices ! (start ! (i - 1)) \<and> indices ! (start ! (i - 2)) = row) \<or>
     (i \<ge> 3 \<and> types ! (i - 2) = kCoefficientChange \<and> types ! (i - 3) = kSubstitutedColWithDual \<and>
      indices ! (start ! (i - 2)) = row \<and> indices ! (start ! (i - 3)) = row \<and>
      row = trunc_int (vals ! (start ! (i - 1))))"

section \<open>Fixed columns\<close>

text \<open>The reduced cost of the fixed column is \<open>c\<^sub>j - \<Sum>\<^sub>i a\<^sub>i\<^sub>j y\<^sub>i\<close>.\<close>

definition fixed_col_redcost :: "int list \<Rightarrow> rat list \<Rightarrow> nat \<Rightarrow> rat list \<Rightarrow> rat" where
  "fixed_col_redcost indices vals k y =
     stable_sum 0 (vals ! (k + 1) #
       map (\<lambda>j. - (vals ! (k + 2 + j)) * y ! nat (indices ! (k + 2 + j)))
         [0..<nat (indices ! (k + 1))])"

definition apply_fix_var ::
  "int list \<Rightarrow> rat list \<Rightarrow> nat \<Rightarrow> solution \<Rightarrow> solution" where
  "apply_fix_var indices vals k s =
     (let col = nat (indices ! k);
          s1 = set_primal col (vals ! k) s
      in if sol_type s1 = kPrimalDual
         then let s2 = set_redcost col (fixed_col_redcost indices vals k (dual s1)) s1
              in if basisAvailabe s2 then set_var_basis col FIXED s2 else s2
         else s1)"

section \<open>Columns fixed at infinity\<close>

text \<open>
  The value of the column at which one saved row becomes tight, and the coefficient of the column in
  that row (the last occurrence, as the reference argument keeps it).
\<close>

definition infinity_row_coeff :: "nat \<Rightarrow> (nat \<times> rat) list \<Rightarrow> rat" where
  "infinity_row_coeff column row = foldl (\<lambda>a (c, v). if c = column then v else a) 0 row"

definition calculate_row_value_for_fixed_infinity_variable ::
  "rat \<Rightarrow> rat \<Rightarrow> nat \<Rightarrow> (nat \<times> rat) list \<Rightarrow> rat list \<Rightarrow> bool \<Rightarrow> rat \<times> rat" where
  "calculate_row_value_for_fixed_infinity_variable lhs rhs column row x is_negative =
     (let coeff = infinity_row_coeff column row;
          rest = map (\<lambda>(c, v). - v * x ! c) (filter (\<lambda>(c, v). c \<noteq> column) row);
          side = (if (coeff > 0 \<and> is_negative) \<or> (coeff < 0 \<and> \<not> is_negative) then rhs else lhs)
      in (stable_sum 0 (rest @ [side]) / coeff, coeff))"

text \<open>A saved row inside the segment at position \<open>k\<close>.\<close>

definition stored_row :: "int list \<Rightarrow> rat list \<Rightarrow> nat \<Rightarrow> (nat \<times> rat) list" where
  "stored_row indices vals k =
     map (\<lambda>j. (nat (indices ! (k + 3 + j)), vals ! (k + 3 + j))) [0..<nat (trunc_int (vals ! k))]"

text \<open>
  One iteration of the loop over the saved rows: the state is the candidate value, the row basis, the
  position in the vectors, and the rows and coefficients seen so far.
\<close>

type_synonym inf_state = "rat \<times> VarBasisStatus list \<times> nat \<times> (nat \<times> rat) list"

definition infinity_row_step ::
  "Num \<Rightarrow> int list \<Rightarrow> rat list \<Rightarrow> nat \<Rightarrow> bool \<Rightarrow> bool \<Rightarrow> rat list \<Rightarrow> inf_state \<Rightarrow> inf_state" where
  "infinity_row_step num indices vals col basis_avail is_negative x st =
     (case st of (sol, rbasis, k, seen) \<Rightarrow>
        let row = nat (indices ! k);
            ents = stored_row indices vals k
        in case calculate_row_value_for_fixed_infinity_variable (vals ! (k + 1)) (vals ! (k + 2))
                  col ents x is_negative of
          (newValue, coeff) \<Rightarrow>
            let better = (if is_negative then isLT num newValue sol else isGT num newValue sol);
                status = (if better
                          then if isGT num coeff 0 = is_negative then ON_UPPER else ON_LOWER
                          else BASIC)
            in (if better then newValue else sol,
                if basis_avail then rbasis[row := status] else rbasis,
                k + 3 + length ents, seen @ [(row, coeff)]))"

definition infinity_rows ::
  "Num \<Rightarrow> int list \<Rightarrow> rat list \<Rightarrow> nat \<Rightarrow> bool \<Rightarrow> bool \<Rightarrow> rat list \<Rightarrow> nat \<Rightarrow> inf_state \<Rightarrow> inf_state" where
  "infinity_rows num indices vals col basis_avail is_negative x number_rows st =
     (infinity_row_step num indices vals col basis_avail is_negative x ^^ number_rows) st"

text \<open>The dual part: reduced cost, stored bounds and basis status of the column.\<close>

definition infinity_col_dual ::
  "Num \<Rightarrow> nat \<Rightarrow> bool \<Rightarrow> bool \<Rightarrow> rat \<Rightarrow> rat \<Rightarrow> (nat \<times> rat) list \<Rightarrow> solution \<times> bound_storage \<Rightarrow>
   solution \<times> bound_storage" where
  "infinity_col_dual num col is_negative bound_is_infinity bound sol seen sb =
     (case sb of (s, b) \<Rightarrow>
        if sol_type s = kPrimalDual
        then let s1 = set_redcost col (stable_sum 0 (map (\<lambda>(r, a). - a * dual s ! r) seen)) s;
                 b1 = (if is_negative then set_bounds_of_variable col True bound_is_infinity 0 bound b
                       else set_bounds_of_variable col bound_is_infinity True bound 0 b);
                 s2 = (if basisAvailabe s1
                       then set_var_basis col
                         (if seen = [] \<and> bound_is_infinity then ZERO
                          else if isEq num sol bound then if is_negative then ON_UPPER else ON_LOWER
                          else BASIC) s1
                       else s1)
             in (s2, b1)
        else (s, b))"

definition apply_fix_infinity_variable ::
  "Num \<Rightarrow> int list \<Rightarrow> rat list \<Rightarrow> nat \<Rightarrow> problem \<Rightarrow> solution \<times> bound_storage \<Rightarrow>
   (solution \<times> bound_storage) \<times> nat" where
  "apply_fix_infinity_variable num indices vals first p sb =
     (case sb of (s, b) \<Rightarrow>
        let col = nat (indices ! first);
            number_rows = nat (indices ! (first + 1));
            bound_is_infinity = (indices ! (first + 2) \<noteq> 0);
            bound = vals ! (first + 2);
            is_negative = vals ! first < 0;
            start_value = (if number_rows = 0 \<and> bound_is_infinity then 0 else bound)
        in case infinity_rows num indices vals col (basisAvailabe s) is_negative (primal s) number_rows
                  (start_value, rowBasisStatus s, first + 3, []) of
          (sol, rbasis, k, seen) \<Rightarrow>
            let sol' = (if flags_test (prob_cflags p ! col) [kIntegral]
                        then if is_negative then epsFloor num sol else epsCeil num sol
                        else sol);
                s1 = s\<lparr>rowBasisStatus := rbasis, primal := (primal s)[col := sol']\<rparr>
            in (infinity_col_dual num col is_negative bound_is_infinity bound sol' seen (s1, b),
                number_rows))"

section \<open>Substituted columns\<close>

text \<open>
  The loop over a stored equality: the coefficient of the column (its last occurrence) and the sum of
  the other terms less the side.
\<close>

definition equality_terms :: "nat \<Rightarrow> (nat \<times> rat) list \<Rightarrow> rat \<Rightarrow> rat list \<Rightarrow> rat \<times> rat" where
  "equality_terms col row side x =
     (case foldl (\<lambda>(coef, s) (c, v). if c = col then (v, s) else (coef, stable_add s (x ! c * v))) (0, 0) row
      of (colCoef, s) \<Rightarrow> (colCoef, stable_add s (- side)))"

definition solve_for_column :: "Num \<Rightarrow> rat \<times> rat \<Rightarrow> rat" where
  "solve_for_column num terms =
     (case terms of (colCoef, s) \<Rightarrow> if isEq num s 0 then 0 else (- s) / colCoef)"

definition apply_substituted_col ::
  "Num \<Rightarrow> int list \<Rightarrow> rat list \<Rightarrow> nat \<Rightarrow> nat \<Rightarrow> solution \<Rightarrow> solution" where
  "apply_substituted_col num indices vals first lst s =
     (let col = nat (indices ! first);
          row = map (\<lambda>j. (nat (indices ! j), vals ! j)) [first + 1..<lst]
      in set_primal col (solve_for_column num (equality_terms col row (vals ! first) (primal s))) s)"

text \<open>The dual side of \<open>kSubstitutedColWithDual\<close>; \<open>k\<close> is the position of the stored column.\<close>

definition subst_col_entries :: "int list \<Rightarrow> rat list \<Rightarrow> nat \<Rightarrow> nat \<Rightarrow> (nat \<times> rat) list" where
  "subst_col_entries indices vals k lst = map (\<lambda>j. (nat (indices ! j), vals ! j)) [k + 4..<lst]"

definition subst_on_bounds ::
  "Num \<Rightarrow> nat \<Rightarrow> nat \<Rightarrow> rat \<Rightarrow> rat \<Rightarrow> bool \<Rightarrow> bool \<Rightarrow> bool \<Rightarrow> bool \<Rightarrow> (nat \<times> rat) list \<Rightarrow> solution \<Rightarrow> solution" where
  "subst_on_bounds num row col colCoef obj onLower onUpper lb_infinity ub_infinity ents s =
     (let s1 = set_dual row (dual s ! row + obj / colCoef) s;
          s2 = set_redcost col (stable_add (stable_sum 0 (map (\<lambda>(r, v). - (dual s1 ! r) * v) ents)) obj) s1
      in if basisAvailabe s2
         then if rowBasisStatus s2 ! row = BASIC \<and> \<not> isFeasZero num (dual s2 ! row)
              then set_row_basis row FIXED (set_var_basis col BASIC s2)
              else if onLower \<and> onUpper then set_var_basis col FIXED s2
              else if onLower then set_var_basis col ON_LOWER s2
              else if onUpper then set_var_basis col ON_UPPER s2
              else if lb_infinity \<and> ub_infinity \<and> isZero num (primal s2 ! col) then set_var_basis col ZERO s2
              else s2
         else s2)"

definition subst_off_bounds ::
  "nat \<Rightarrow> nat \<Rightarrow> rat \<Rightarrow> (nat \<times> rat) list \<Rightarrow> solution \<Rightarrow> solution" where
  "subst_off_bounds row col obj ents s =
     (let s1 = set_redcost col 0 s
      in case foldl (\<lambda>(coef, sm) (r, v).
              if r = row then (v, sm) else (coef, stable_add sm (- (dual s1 ! r) * v))) (0, 0) ents
         of (rowCoef, sm) \<Rightarrow>
           let s2 = set_dual row (stable_add sm obj / rowCoef) s1
           in if basisAvailabe s2 then set_row_basis row FIXED (set_var_basis col BASIC s2) else s2)"

definition subst_dual ::
  "Num \<Rightarrow> int list \<Rightarrow> rat list \<Rightarrow> nat \<Rightarrow> nat \<Rightarrow> nat \<Rightarrow> nat \<Rightarrow> rat \<Rightarrow> solution \<times> bound_storage \<Rightarrow>
   solution \<times> bound_storage" where
  "subst_dual num indices vals k lst row col colCoef sb =
     (case sb of (s, b) \<Rightarrow>
        let obj = vals ! (k + 1);
            ub_infinity = (indices ! (k + 2) = 1); ub = vals ! (k + 2);
            lb_infinity = (indices ! (k + 3) = 1); lb = vals ! (k + 3);
            b1 = set_bound_of_variable col False ub_infinity ub
                   (set_bound_of_variable col True lb_infinity lb b);
            onLower = is_variable_on_lower_bound num lb_infinity lb (primal s ! col);
            onUpper = is_variable_on_upper_bound num ub_infinity ub (primal s ! col);
            ents = subst_col_entries indices vals k lst
        in (if onLower \<or> onUpper
            then subst_on_bounds num row col colCoef obj onLower onUpper lb_infinity ub_infinity ents s
            else subst_off_bounds row col obj ents s, b1))"

definition apply_substituted_column ::
  "Num \<Rightarrow> int list \<Rightarrow> rat list \<Rightarrow> nat \<Rightarrow> nat \<Rightarrow> solution \<times> bound_storage \<Rightarrow> solution \<times> bound_storage" where
  "apply_substituted_column num indices vals first lst sb =
     (case sb of (s, b) \<Rightarrow>
        let row = nat (indices ! first);
            ents = stored_row indices vals first;
            k = first + 3 + length ents;
            col = nat (indices ! k);
            terms = equality_terms col ents (vals ! (first + 1)) (primal s);
            s1 = set_primal col (solve_for_column num terms) s
        in if sol_type s1 = kPrimalDual
           then subst_dual num indices vals k lst row col (fst terms) (s1, b)
           else (s1, b))"

section \<open>Parallel columns\<close>

text \<open>Both columns integral: the merged value is split so that the second column stays in its bounds.\<close>

definition split_integral ::
  "Num \<Rightarrow> rat \<Rightarrow> rat \<Rightarrow> rat \<Rightarrow> rat \<Rightarrow> rat \<Rightarrow> rat \<Rightarrow> rat \<times> rat" where
  "split_integral num col1lb col1ub col2lb col2ub col2scale solval =
     (let col1val = num_max col1lb (num_min col1ub 0);
          col2val = solval - col2scale * col1val
      in if isFeasLT num col2val col2lb
         then let c1 = num_round ((1 - \<bar>num_round col2scale\<bar> + 2 * (solval - col2lb)) / (2 * col2scale))
              in (c1, solval - col2scale * c1)
         else if isFeasGT num col2val col2ub
         then let c1 = num_round ((\<bar>num_round col2scale\<bar> - 1 + 2 * (solval - col2ub)) / (2 * col2scale))
              in (c1, solval - col2scale * c1)
         else (col1val, col2val))"

definition split_continuous ::
  "Num \<Rightarrow> int \<Rightarrow> int \<Rightarrow> rat \<Rightarrow> rat \<Rightarrow> rat \<Rightarrow> rat \<Rightarrow> rat \<Rightarrow> rat \<Rightarrow> rat \<times> rat" where
  "split_continuous num fl1 fl2 col1lb col1ub col2lb col2ub col2scale solval =
     (let guess = (if \<not> has_bit fl2 IS_LBINF then col2lb
                   else if \<not> has_bit fl2 IS_UBINF then col2ub else 0);
          c1 = (solval - guess) / col2scale
      in case (if \<not> has_bit fl1 IS_LBINF \<and> isFeasLT num c1 col1lb
               then (col1lb, solval - col2scale * col1lb)
               else if \<not> has_bit fl1 IS_UBINF \<and> isFeasGT num c1 col1ub
               then (col1ub, solval - col2scale * col1ub)
               else (c1, guess)) of
        (col1val, col2val) \<Rightarrow>
          if has_bit fl2 IS_INTEGRAL \<and> \<not> isFeasIntegral num col2val
          then (solval - col1val * col2scale,
                if col2val > guess then rational_ceil col2val else rational_floor col2val)
          else (col1val, col2val))"

definition parallel_col_values ::
  "Num \<Rightarrow> int \<Rightarrow> int \<Rightarrow> rat \<Rightarrow> rat \<Rightarrow> rat \<Rightarrow> rat \<Rightarrow> rat \<Rightarrow> rat \<Rightarrow> rat \<times> rat" where
  "parallel_col_values num fl1 fl2 col1lb col1ub col2lb col2ub col2scale solval =
     (if has_bit fl1 IS_INTEGRAL
      then split_integral num col1lb col1ub col2lb col2ub col2scale solval
      else split_continuous num fl1 fl2 col1lb col1ub col2lb col2ub col2scale solval)"

text \<open>The test of the second column reads the flags of the first, as the source does.\<close>

definition col_on_bounds :: "Num \<Rightarrow> int \<Rightarrow> rat \<Rightarrow> rat \<Rightarrow> rat \<Rightarrow> bool" where
  "col_on_bounds num fl lb ub val \<longleftrightarrow>
     (\<not> has_bit fl IS_UBINF \<and> isEq num val ub) \<or> (\<not> has_bit fl IS_LBINF \<and> isEq num val lb)"

definition parallel_redcosts :: "Num \<Rightarrow> nat \<Rightarrow> nat \<Rightarrow> rat \<Rightarrow> solution \<Rightarrow> solution" where
  "parallel_redcosts num col1 col2 col2scale s =
     (if \<not> isZero num (reducedCosts s ! col2)
      then set_redcost col1 (reducedCosts s ! col2 * col2scale) s
      else set_redcost col2 (reducedCosts s ! col1 / col2scale) s)"

definition apply_parallel_col ::
  "Num \<Rightarrow> int list \<Rightarrow> rat list \<Rightarrow> nat \<Rightarrow> solution \<times> bound_storage \<Rightarrow> solution \<times> bound_storage" where
  "apply_parallel_col num indices vals first sb =
     (case sb of (s, b) \<Rightarrow>
        let col1 = nat (indices ! first); fl1 = indices ! (first + 1);
            col2 = nat (indices ! (first + 2)); fl2 = indices ! (first + 3);
            col1lb = vals ! first; col1ub = vals ! (first + 1);
            col2lb = vals ! (first + 2); col2ub = vals ! (first + 3);
            col2scale = vals ! (first + 4)
        in case parallel_col_values num fl1 fl2 col1lb col1ub col2lb col2ub col2scale (primal s ! col2) of
          (col1val, col2val) \<Rightarrow>
            let s1 = set_primal col2 col2val (set_primal col1 col1val s);
                col1onBounds = col_on_bounds num fl1 col1lb col1ub col1val;
                col2onBounds = col_on_bounds num fl1 col2lb col2ub col2val
            in if sol_type s1 = kPrimalDual
               then let b1 = set_bounds_of_variable col1 (has_bit fl1 IS_LBINF) (has_bit fl1 IS_UBINF) col1lb col1ub b;
                        b2 = set_bounds_of_variable col2 (has_bit fl2 IS_LBINF) (has_bit fl2 IS_UBINF) col2lb col2ub b1;
                        s2 = (if col1onBounds \<and> col2onBounds
                              then parallel_redcosts num col1 col2 col2scale s1 else s1);
                        s3 = (if basisAvailabe s2
                              then let s4 = set_var_basis col1
                                         (calculate_basis num fl1 col1lb col1ub col1val col1onBounds) s2
                                   in if \<not> (col1onBounds \<and> col2onBounds \<and> varBasisStatus s4 ! col2 = BASIC)
                                      then set_var_basis col2
                                         (calculate_basis num fl2 col2lb col2ub col2val col2onBounds) s4
                                      else s4
                              else s2)
                    in (s3, b2)
               else (s1, b))"

section \<open>Row bound changes\<close>

text \<open>\<open>kRowBoundChange\<close>: a tightened side is relaxed, so a row kept on it leaves that side.\<close>

definition relax_row_status :: "bool \<Rightarrow> VarBasisStatus \<Rightarrow> VarBasisStatus" where
  "relax_row_status isLhs b =
     (case b of FIXED \<Rightarrow> if isLhs then ON_UPPER else ON_LOWER
      | ON_LOWER \<Rightarrow> if isLhs then BASIC else ON_LOWER
      | ON_UPPER \<Rightarrow> if \<not> isLhs then BASIC else ON_UPPER
      | ZERO \<Rightarrow> ZERO | BASIC \<Rightarrow> BASIC | UNDEFINED \<Rightarrow> UNDEFINED)"

definition undo_row_bound_change ::
  "ReductionType list \<Rightarrow> nat list \<Rightarrow> int list \<Rightarrow> rat list \<Rightarrow> nat \<Rightarrow> nat \<Rightarrow> solution \<Rightarrow> solution" where
  "undo_row_bound_change types start indices vals i first s =
     (let isLhs = (indices ! first = 1); row = trunc_int (vals ! first)
      in if skip_if_row_bound_belongs_to_substitution types start indices vals i row then s
         else if basisAvailabe s
         then set_row_basis (nat row) (relax_row_status isLhs (rowBasisStatus s ! nat row)) s
         else s)"

text \<open>
  \<open>kRowBoundChangeForcedByRow\<close>: the side came from a parallel row that was deleted; a dual value that
  leans on that side moves to the deleted row. First the basis part of that move.
\<close>

definition move_row_basis :: "bool \<Rightarrow> rat \<Rightarrow> nat \<Rightarrow> nat \<Rightarrow> solution \<Rightarrow> solution" where
  "move_row_basis isLhs factor row deleted_row s =
     (if rowBasisStatus s ! row = FIXED
      then set_row_basis row BASIC
             (set_row_basis deleted_row
               (if isLhs then if factor < 0 then ON_UPPER else ON_LOWER
                else if factor < 0 then ON_LOWER else ON_UPPER) s)
      else if \<not> isLhs \<and> rowBasisStatus s ! deleted_row \<noteq> UNDEFINED \<and> rowBasisStatus s ! row = BASIC
      then set_row_basis deleted_row FIXED s
      else let s1 = (if factor > 0 then set_row_basis deleted_row (rowBasisStatus s ! row) s
                     else if rowBasisStatus s ! row = ON_LOWER then set_row_basis deleted_row ON_UPPER s
                     else if rowBasisStatus s ! row = ON_UPPER then set_row_basis deleted_row ON_LOWER s
                     else s)
           in set_row_basis row BASIC s1)"

definition keep_row_dual_basis :: "bool \<Rightarrow> nat \<Rightarrow> nat \<Rightarrow> solution \<Rightarrow> solution" where
  "keep_row_dual_basis isLhs row deleted_row s =
     (if (isLhs \<and> (rowBasisStatus s ! row = ON_LOWER \<or> rowBasisStatus s ! row = ZERO)) \<or>
         (\<not> isLhs \<and> rowBasisStatus s ! row = ON_UPPER)
      then set_row_basis row BASIC (set_row_basis deleted_row (rowBasisStatus s ! row) s)
      else if rowBasisStatus s ! row = FIXED
      then set_row_basis row (if isLhs then ON_UPPER else ON_LOWER) s
      else s)"

definition apply_row_bound_change ::
  "Num \<Rightarrow> nat list \<Rightarrow> int list \<Rightarrow> rat list \<Rightarrow> nat \<Rightarrow> nat \<Rightarrow> solution \<Rightarrow> solution" where
  "apply_row_bound_change num start indices vals i first s =
     (let isLhs = (indices ! first = 1);
          row = nat (trunc_int (vals ! first));
          start_reason = start ! (i - 1);
          deleted_row = nat (indices ! (start_reason + 1));
          factor = vals ! start_reason;
          dual_row_value = dual s ! row
      in if (isLhs \<and> isGT num dual_row_value 0) \<or> (\<not> isLhs \<and> isLT num dual_row_value 0)
         then let s1 = set_dual row 0 (set_dual deleted_row (dual_row_value * factor) s)
              in if basisAvailabe s1 then move_row_basis isLhs factor row deleted_row s1 else s1
         else if basisAvailabe s then keep_row_dual_basis isLhs row deleted_row s
         else s)"

section \<open>Variable bound changes\<close>

text \<open>
  The loop over the saved row: the reduced cost of every other column of the row absorbs the change
  of the row's dual value, and a basic column that gets a reduced cost leaves the basis.
\<close>

definition shift_redcost ::
  "Num \<Rightarrow> bound_storage \<Rightarrow> nat \<Rightarrow> rat \<Rightarrow> solution \<times> nat \<Rightarrow> nat \<times> rat \<Rightarrow> solution \<times> nat" where
  "shift_redcost num b col increasing_value sn e =
     (case sn of (s, removed) \<Rightarrow> case e of (c, v) \<Rightarrow>
        if c = col then (s, removed)
        else let s1 = set_redcost c (reducedCosts s ! c - increasing_value * v) s
             in if basisAvailabe s1 \<and> varBasisStatus s1 ! c = BASIC \<and> \<not> isZero num (reducedCosts s1 ! c)
                then (set_var_basis c (get_var_basis_status num b c (primal s1 ! c)) s1, removed + 1)
                else (s1, removed))"

definition shift_duals ::
  "Num \<Rightarrow> bound_storage \<Rightarrow> saved_row \<Rightarrow> nat \<Rightarrow> solution \<Rightarrow> solution" where
  "shift_duals num b r col s =
     (let row = sr_row r;
          increasing_value = reducedCosts s ! col / getCoeffOfCol r col;
          s1 = set_dual row (dual s ! row + increasing_value) s;
          leaves = (basisAvailabe s1 \<and> rowBasisStatus s1 ! row = BASIC \<and> \<not> isZero num (dual s1 ! row));
          s2 = (if leaves then set_row_basis row (getVBS r) s1 else s1)
      in case foldl (shift_redcost num b col increasing_value) (s2, if leaves then 1 else 0)
               (zip (sr_col_coefficients r) (sr_row_values r)) of
        (s3, removed) \<Rightarrow>
          let s4 = (if basisAvailabe s3 \<and> removed > 0 then set_var_basis col BASIC s3 else s3)
          in set_redcost col 0 s4)"

definition relax_var_basis ::
  "Num \<Rightarrow> ReductionType list \<Rightarrow> nat list \<Rightarrow> int list \<Rightarrow> rat list \<Rightarrow> nat \<Rightarrow> bool \<Rightarrow> nat \<Rightarrow>
   bound_storage \<Rightarrow> solution \<Rightarrow> solution" where
  "relax_var_basis num types start indices vals i isLowerBound col b s =
     (let free_at_zero = (is_lower_and_upper_bound_infinity b col \<and> isZero num (primal s ! col));
          leave = set_var_basis col BASIC (remove_row_from_basis types start indices vals i s)
      in case varBasisStatus s ! col of
           FIXED \<Rightarrow> set_var_basis col (if isLowerBound then ON_UPPER else ON_LOWER) s
         | ON_LOWER \<Rightarrow> if free_at_zero then set_var_basis col ZERO s
                       else if \<not> isLowerBound then s else leave
         | ON_UPPER \<Rightarrow> if free_at_zero then set_var_basis col ZERO s
                       else if isLowerBound then s else leave
         | ZERO \<Rightarrow> s | UNDEFINED \<Rightarrow> s | BASIC \<Rightarrow> s)"

definition apply_var_bound_change ::
  "Num \<Rightarrow> ReductionType list \<Rightarrow> nat list \<Rightarrow> int list \<Rightarrow> rat list \<Rightarrow> nat \<Rightarrow> nat \<Rightarrow>
   solution \<times> bound_storage \<Rightarrow> solution \<times> bound_storage" where
  "apply_var_bound_change num types start indices vals i first sb =
     (case sb of (s, b) \<Rightarrow>
        let isLowerBound = (indices ! first = 1);
            col = nat (indices ! (first + 1));
            old_value = vals ! (first + 2);
            new_value = vals ! (first + 1);
            was_infinity = (indices ! (first + 2) = 1);
            b1 = set_bound_of_variable col isLowerBound was_infinity old_value b;
            reduced_costs = reducedCosts s ! col;
            changes_neg = (\<not> isLowerBound \<and> isFeasLT num reduced_costs 0);
            changes_pos = (isLowerBound \<and> isFeasGT num reduced_costs 0);
            s1 = (if isFeasEq num new_value (primal s ! col) \<and> (changes_neg \<or> changes_pos)
                  then shift_duals num b1 (new_saved_row i types start indices vals (primal s)) col s
                  else s)
        in (if basisAvailabe s1
            then relax_var_basis num types start indices vals i isLowerBound col b1 s1
            else s1, b1))"

section \<open>Reading the bounds of the reduced problem\<close>

definition restore_reduced_bounds ::
  "postsolve_storage \<Rightarrow> nat \<Rightarrow> bound_storage \<Rightarrow> bound_storage" where
  "restore_reduced_bounds st first b =
     (let b1 = foldl (\<lambda>b j. set_bounds_of_variable (origcol_mapping st ! j)
                 (ps_indices st ! (first + 2 * j) = 1) (ps_indices st ! (first + 2 * j + 1) = 1)
                 (ps_values st ! (first + 2 * j)) (ps_values st ! (first + 2 * j + 1)) b)
               b [0..<length (origcol_mapping st)];
          frow = first + 2 * length (origcol_mapping st)
      in foldl (\<lambda>b k. set_bounds_of_row (origrow_mapping st ! k)
             (ps_indices st ! (frow + 2 * k) = 1) (ps_indices st ! (frow + 2 * k + 1) = 1)
             (ps_values st ! (frow + 2 * k)) (ps_values st ! (frow + 2 * k + 1)) b)
           b1 [0..<length (origrow_mapping st)])"

section \<open>Undoing the log\<close>

text \<open>
  One iteration of the loop of \<open>undo\<close>. The second result is the number of further entries to skip:
  after a column fixed at infinity in a primal-dual solution the redundant rows stored before it.
\<close>

definition undo_step ::
  "Num \<Rightarrow> postsolve_storage \<Rightarrow> nat \<Rightarrow> solution \<times> bound_storage \<Rightarrow> (solution \<times> bound_storage) \<times> nat" where
  "undo_step num st i sb =
     (case sb of (s, b) \<Rightarrow>
        let types = ps_types st; start = ps_start st; indices = ps_indices st; vals = ps_values st;
            first = start ! i; lst = start ! (i + 1)
        in case types ! i of
          kColumnDualValue \<Rightarrow>
            ((set_redcost (nat (indices ! first)) (vals ! nat (indices ! first)) s, b), 0)
        | kRowDualValue \<Rightarrow>
            ((set_dual (nat (indices ! first)) (vals ! nat (indices ! first)) s, b), 0)
        | kFixedCol \<Rightarrow>
            ((apply_fix_var indices vals first s,
              if sol_type s = kPrimalDual
              then set_bounds_of_variable (nat (indices ! first)) False False (vals ! first) (vals ! first) b
              else b), 0)
        | kFixedInfCol \<Rightarrow>
            (case apply_fix_infinity_variable num indices vals first (ps_problem st) (s, b) of
              (sb', redundant_rows) \<Rightarrow> (sb', if sol_type (fst sb') = kPrimalDual then redundant_rows else 0))
        | kVarBoundChange \<Rightarrow> (apply_var_bound_change num types start indices vals i first (s, b), 0)
        | kSubstitutedCol \<Rightarrow> ((apply_substituted_col num indices vals first lst s, b), 0)
        | kSubstitutedColWithDual \<Rightarrow> (apply_substituted_column num indices vals first lst (s, b), 0)
        | kParallelCol \<Rightarrow> (apply_parallel_col num indices vals first (s, b), 0)
        | kRowBoundChangeForcedByRow \<Rightarrow>
            ((apply_row_bound_change num start indices vals i first s, b), 0)
        | kRowBoundChange \<Rightarrow> ((undo_row_bound_change types start indices vals i first s, b), 0)
        | kReducedBoundsCost \<Rightarrow> ((s, restore_reduced_bounds st first b), 0)
        | kCoefficientChange \<Rightarrow> ((s, b), 0)
        | kRedundantRowType \<Rightarrow>
            ((if basisAvailabe s then set_row_basis (nat (indices ! first)) BASIC s else s, b), 0)
        | kReasonForRowBoundChangeForcedByRow \<Rightarrow> ((s, b), 0)
        | kSaveRow \<Rightarrow> ((s, b), 0))"

text \<open>The loop: \<open>undo_loop n\<close> undoes the entries \<open>n - 1, ..., 0\<close>.\<close>

function undo_loop ::
  "Num \<Rightarrow> postsolve_storage \<Rightarrow> nat \<Rightarrow> solution \<times> bound_storage \<Rightarrow> solution \<times> bound_storage" where
  "undo_loop num st 0 sb = sb"
| "undo_loop num st (Suc i) sb =
     (case undo_step num st i sb of (sb', skip) \<Rightarrow> undo_loop num st (i - skip) sb')"
  by pat_completeness auto
termination by (relation "measure (\<lambda>(num, st, n, sb). n)") auto

text \<open>
  \<open>undo\<close> without the final validation: the solution it leaves in \<open>originalSolution\<close> and the bounds it
  tracked.
\<close>

definition undo_all ::
  "Num \<Rightarrow> bool \<Rightarrow> solution \<Rightarrow> postsolve_storage \<Rightarrow> solution \<Rightarrow> solution \<times> bound_storage" where
  "undo_all num calc_basis red st s0 =
     (let s = copy_from_reduced_to_original calc_basis red st s0
      in undo_loop num st (length (ps_types st))
           (s, new_bound_storage num (nColsOriginal st) (nRowsOriginal st) (sol_type s = kPrimalDual)))"

end
