(* ===== verification/Pap_Postsolve_Laws.thy ===== *)
theory Pap_Postsolve_Laws
  imports Pap_Postsolve
begin

text \<open>
  What postsolve computes for a primal solution. \<open>lift_call\<close> is the specification of the undo of one
  stored reduction on the vector of primal values, stated on the arguments of the store call;
  \<open>undo_all\<close> on the encoded vectors is shown to compute the composition of the lifts in reverse order.
  On top of it: each lift turns a solution of the reduced problem into one of the problem before the
  reduction.
\<close>

section \<open>Specification of the primal undo\<close>

definition orig_terms :: "postsolve_storage \<Rightarrow> sparse_vec \<Rightarrow> sparse_vec" where
  "orig_terms st row = map (\<lambda>(c, v). (origcol_mapping st ! c, v)) row"

definition solve_in_row :: "Num \<Rightarrow> nat \<Rightarrow> sparse_vec \<Rightarrow> rat \<Rightarrow> rat list \<Rightarrow> rat list" where
  "solve_in_row num c row side x = x[c := solve_for_column num (equality_terms c row side x)]"

text \<open>The value of a column fixed at infinity: the tightest of its bound and its rows, rounded.\<close>

definition row_candidate :: "nat \<Rightarrow> bool \<Rightarrow> rat list \<Rightarrow> rat \<times> rat \<times> sparse_vec \<Rightarrow> rat" where
  "row_candidate c neg x row = (case row of (lhs, rhs, terms) \<Rightarrow>
     fst (calculate_row_value_for_fixed_infinity_variable lhs rhs c terms x neg))"

definition tighten :: "Num \<Rightarrow> bool \<Rightarrow> rat \<Rightarrow> rat \<Rightarrow> rat" where
  "tighten num neg sol cand = (if (if neg then isLT num cand sol else isGT num cand sol) then cand else sol)"

definition stored_rows :: "postsolve_storage \<Rightarrow> problem \<Rightarrow> nat \<Rightarrow> (rat \<times> rat \<times> sparse_vec) list" where
  "stored_rows st p col =
     map (\<lambda>(r, v). (lhs_values p ! r, rhs_values p ! r, orig_terms st (row_coeffs p ! r))) (col_coeffs p ! col)"

definition infinity_value ::
  "Num \<Rightarrow> bool \<Rightarrow> nat \<Rightarrow> bool \<Rightarrow> rat \<Rightarrow> bool \<Rightarrow> (rat \<times> rat \<times> sparse_vec) list \<Rightarrow> rat list \<Rightarrow> rat" where
  "infinity_value num integral c neg bound bound_inf rows x =
     (let start = (if rows = [] \<and> bound_inf then 0 else bound);
          sol = foldl (\<lambda>s row. tighten num neg s (row_candidate c neg x row)) start rows
      in if integral then if neg then epsFloor num sol else epsCeil num sol else sol)"

fun lift_call :: "Num \<Rightarrow> problem \<Rightarrow> postsolve_storage \<Rightarrow> store_call \<Rightarrow> rat list \<Rightarrow> rat list" where
  "lift_call num p0 st (FixedCol col val cv cost) x = x[origcol_mapping st ! col := val]"
| "lift_call num p0 st (FixedInfCol col val b binf p) x =
     (let c = origcol_mapping st ! col in
      x[c := infinity_value num (flags_test (prob_cflags p0 ! c) [kIntegral]) c (val < 0) b binf
               (stored_rows st p col) x])"
| "lift_call num p0 st (Substitution col row p) x =
     solve_in_row num (origcol_mapping st ! col) (orig_terms st (row_coeffs p ! row)) (lhs_values p ! row) x"
| "lift_call num p0 st (SubstitutionEquality col eq rhs) x =
     solve_in_row num (origcol_mapping st ! col) (orig_terms st eq) rhs x"
| "lift_call num p0 st (ParallelCols c1 i1 li1 l1 ui1 u1 c2 i2 li2 l2 ui2 u2 sc) x =
     (case parallel_col_values num (bound_flags i1 li1 ui1) (bound_flags i2 li2 ui2) l1 u1 l2 u2 sc
             (x ! (origcol_mapping st ! c2))
      of (v1, v2) \<Rightarrow> x[origcol_mapping st ! c1 := v1, origcol_mapping st ! c2 := v2])"
| "lift_call num p0 st c x = x"

fun lift_calls :: "Num \<Rightarrow> problem \<Rightarrow> postsolve_storage \<Rightarrow> store_call list \<Rightarrow> rat list \<Rightarrow> rat list" where
  "lift_calls num p0 st [] x = x"
| "lift_calls num p0 st (c # cs) x = lift_call num p0 st c (lift_calls num p0 (perform c st) cs x)"

section \<open>Reading the encoded segments\<close>

definition segment_at :: "int list \<Rightarrow> rat list \<Rightarrow> nat \<Rightarrow> int list \<Rightarrow> rat list \<Rightarrow> bool" where
  "segment_at ind vals k is vs \<longleftrightarrow>
     length is = length vs \<and> (\<forall>j<length is. ind ! (k + j) = is ! j \<and> vals ! (k + j) = vs ! j)"

lemma all_less_add: "(\<forall>j<m + n. P j) \<longleftrightarrow> (\<forall>j<m. P j) \<and> (\<forall>j<n. P (m + j))" for m n :: nat
  by (metis add_diff_inverse_nat nat_add_left_cancel_less trans_less_add1)

lemma segment_at_append:
  assumes "length is = length vs"
  shows "segment_at ind vals k (is @ is') (vs @ vs') \<longleftrightarrow>
    segment_at ind vals k is vs \<and> segment_at ind vals (k + length is) is' vs'"
  using assms by (auto simp: segment_at_def all_less_add nth_append add.assoc)

lemma segment_at_Cons:
  "segment_at ind vals k (i # is) (v # vs) \<longleftrightarrow>
     ind ! k = i \<and> vals ! k = v \<and> segment_at ind vals (Suc k) is vs"
  using segment_at_append [of "[i]" "[v]" ind vals k "is" vs] by (auto simp: segment_at_def)

lemma map_upt_shift: "map f [k..<k + n] = map (\<lambda>j. f (k + j)) [0..<n]"
  by (rule nth_equalityI) simp_all

lemma segment_at_pairs:
  assumes "segment_at ind vals k (map f xs) (map g xs)"
  shows "map (\<lambda>j. (nat (ind ! (k + j)), vals ! (k + j))) [0..<length xs] = map (\<lambda>x. (nat (f x), g x)) xs"
  using assms by (auto simp: segment_at_def intro: nth_equalityI)

lemma nat_orig [simp]: "nat (orig_col st c) = origcol_mapping st ! c" "nat (orig_row st r) = origrow_mapping st ! r"
  by (simp_all add: orig_col_def orig_row_def)

lemma segment_at_terms:
  assumes "segment_at ind vals k (map (\<lambda>(c, v). orig_col st c) row) (map snd row)"
  shows "map (\<lambda>j. (nat (ind ! (k + j)), vals ! (k + j))) [0..<length row] = orig_terms st row"
  using segment_at_pairs [OF assms] by (simp add: orig_terms_def case_prod_beta)

lemma stored_row_segment:
  assumes "segment_at ind vals k (saved_row_indices st r row f) (saved_row_values row l u)"
  shows "stored_row ind vals k = orig_terms st row" "vals ! (k + 1) = l" "vals ! (k + 2) = u"
    "nat (ind ! k) = origrow_mapping st ! r"
proof -
  have seg: "ind ! k = orig_row st r" "vals ! k = of_nat (length row)" "vals ! (k + 1) = l" "vals ! (k + 2) = u"
    "segment_at ind vals (k + 3) (map (\<lambda>(c, v). orig_col st c) row) (map snd row)"
    using assms by (simp_all add: saved_row_indices_def saved_row_values_def segment_at_Cons eval_nat_numeral)
  from segment_at_terms [OF seg(5)] seg(2) show "stored_row ind vals k = orig_terms st row"
    by (simp add: stored_row_def add.assoc)
  from seg show "vals ! (k + 1) = l" "vals ! (k + 2) = u" "nat (ind ! k) = origrow_mapping st ! r" by simp_all
qed

lemma length_orig_terms [simp]: "length (orig_terms st row) = length row"
  by (simp add: orig_terms_def)

lemma infinity_rows_segment:
  assumes "segment_at ind vals k (fst (infcol_rows st p col)) (snd (infcol_rows st p col))"
  shows "\<exists>k' seen'. infinity_rows num ind vals c False neg x (length col) (sol, rb, k, seen) =
    (foldl (\<lambda>s row. tighten num neg s (row_candidate c neg x row)) sol
       (map (\<lambda>(r, v). (lhs_values p ! r, rhs_values p ! r, orig_terms st (row_coeffs p ! r))) col),
     rb, k', seen')"
  using assms
proof (induction col arbitrary: sol k seen)
  case Nil
  then show ?case by (simp add: infinity_rows_def)
next
  case (Cons e col)
  obtain r v where e: "e = (r, v)" by fastforce
  let ?is = "saved_row_indices st r (row_coeffs p ! r) (row_flags p ! r)"
  let ?vs = "saved_row_values (row_coeffs p ! r) (lhs_values p ! r) (rhs_values p ! r)"
  have "infcol_rows st p (e # col) = (?is @ fst (infcol_rows st p col), ?vs @ snd (infcol_rows st p col))"
    by (simp add: infcol_rows_def e)
  with Cons.prems have seg: "segment_at ind vals k ?is ?vs"
    "segment_at ind vals (k + 3 + length (row_coeffs p ! r)) (fst (infcol_rows st p col)) (snd (infcol_rows st p col))"
    by (simp_all add: segment_at_append add.assoc)
  let ?row = "(lhs_values p ! r, rhs_values p ! r, orig_terms st (row_coeffs p ! r))"
  obtain seen' where step: "infinity_row_step num ind vals c False neg x (sol, rb, k, seen) =
      (tighten num neg sol (row_candidate c neg x ?row), rb, k + 3 + length (row_coeffs p ! r), seen')"
    using stored_row_segment [OF seg(1)]
    by (simp add: infinity_row_step_def tighten_def row_candidate_def Let_def case_prod_beta)
  show ?case
    using Cons.IH [OF seg(2), of "tighten num neg sol (row_candidate c neg x ?row)" seen']
    by (simp add: infinity_rows_def funpow_swap1 step e)
qed

section \<open>Each step computes its lift\<close>

definition primal_run :: "solution \<Rightarrow> bool" where
  "primal_run s \<longleftrightarrow> sol_type s = kPrimalOnly \<and> \<not> basisAvailabe s"

lemma primal_run_upd [simp]: "primal_run (s\<lparr>primal := x\<rparr>) = primal_run s"
  "primal_run (s\<lparr>rowBasisStatus := rb\<rparr>) = primal_run s"
  by (simp_all add: primal_run_def)

lemma solution_upd_same [simp]: "s\<lparr>rowBasisStatus := rowBasisStatus s\<rparr> = s" "s\<lparr>primal := primal s\<rparr> = s"
  by (cases s, simp)+

lemma undo_step_lift:
  assumes "storage_ok st'" and "i < length (ps_types st')" and "entries st' ! i = e"
    and "log_entry st c = [e]" and "postsolveType st = kPrimal" and "primal_run s"
  shows "undo_step num st' i (s, b) = ((s\<lparr>primal := lift_call num (ps_problem st') st c (primal s)\<rparr>, b), 0)"
proof -
  obtain t "is" vs where e: "e = (t, is, vs)" by (cases e)
  note at = entry_at [OF assms(1,2) assms(3) [unfolded e]]
  let ?k = "ps_start st' ! i"
  let ?ind = "ps_indices st'" and ?vals = "ps_values st'"
  have seg: "segment_at ?ind ?vals ?k is vs" using at by (simp add: segment_at_def)
  have run: "sol_type s = kPrimalOnly" "\<not> basisAvailabe s" using assms(6) by (simp_all add: primal_run_def)
  show ?thesis
  proof (cases c)
    case (FixedCol col val cv cost)
    with assms(4,5) e have "t = kFixedCol" "is = [orig_col st col]" "vs = [val]" by simp_all
    with seg at(1) run FixedCol show ?thesis
      by (simp add: undo_step_def Let_def apply_fix_var_def segment_at_Cons)
  next
    case (FixedInfCol col val bd binf p)
    with assms(4) e have c: "t = kFixedInfCol"
      "is = [orig_col st col, int (length (col_coeffs p ! col)), bool_int binf] @ fst (infcol_rows st p (col_coeffs p ! col))"
      "vs = [val, 0, bd] @ snd (infcol_rows st p (col_coeffs p ! col))" by simp_all
    then have s: "?ind ! ?k = orig_col st col" "?vals ! ?k = val" "?ind ! (?k + 1) = int (length (col_coeffs p ! col))"
      "?ind ! (?k + 2) = bool_int binf" "?vals ! (?k + 2) = bd"
      "segment_at ?ind ?vals (?k + 3) (fst (infcol_rows st p (col_coeffs p ! col))) (snd (infcol_rows st p (col_coeffs p ! col)))"
      using seg by (simp_all add: segment_at_Cons eval_nat_numeral)
    have len: "(length (col_coeffs p ! col) = 0) = (stored_rows st p col = [])" by (simp add: stored_rows_def)
    obtain k' seen' where r: "infinity_rows num ?ind ?vals (origcol_mapping st ! col) False (val < 0)
        (primal s) (length (col_coeffs p ! col))
        (if length (col_coeffs p ! col) = 0 \<and> binf then 0 else bd, rowBasisStatus s, ?k + 3, []) =
      (foldl (\<lambda>s' row. tighten num (val < 0) s' (row_candidate (origcol_mapping st ! col) (val < 0) (primal s) row))
         (if length (col_coeffs p ! col) = 0 \<and> binf then 0 else bd)
         (stored_rows st p col), rowBasisStatus s, k', seen')"
      using infinity_rows_segment [OF s(6)] unfolding stored_rows_def by blast
    then show ?thesis
      using at(1) c(1) run s FixedInfCol len
      by (simp add: undo_step_def Let_def apply_fix_infinity_variable_def infinity_col_dual_def infinity_value_def)
  next
    case (Substitution col row p)
    let ?row = "row_coeffs p ! row"
    from Substitution assms(4,5) e have c: "t = kSubstitutedColWithDual"
      "is = saved_row_indices st row ?row (row_flags p ! row) @ [orig_col st col]"
      "vs = saved_row_values ?row (lhs_values p ! row) (rhs_values p ! row) @ [0]" by simp_all
    then have s: "segment_at ?ind ?vals ?k (saved_row_indices st row ?row (row_flags p ! row))
        (saved_row_values ?row (lhs_values p ! row) (rhs_values p ! row))"
      "segment_at ?ind ?vals (?k + (3 + length ?row)) [orig_col st col] [0]"
      using seg by (simp_all add: segment_at_append)
    note r = stored_row_segment [OF s(1)]
    from s(2) have "?ind ! (?k + 3 + length ?row) = orig_col st col" by (simp add: segment_at_def add.assoc)
    with r at(1) c(1) run Substitution show ?thesis
      by (simp add: undo_step_def Let_def apply_substituted_column_def solve_in_row_def)
  next
    case (SubstitutionEquality col lhs rhs)
    with assms(4) e have c: "t = kSubstitutedCol" "is = orig_col st col # map (\<lambda>(c, v). orig_col st c) lhs"
      "vs = rhs # map snd lhs" by simp_all
    with seg have s: "?ind ! ?k = orig_col st col" "?vals ! ?k = rhs"
      "segment_at ?ind ?vals (Suc ?k) (map (\<lambda>(c, v). orig_col st c) lhs) (map snd lhs)"
      by (simp_all add: segment_at_Cons)
    have "map (\<lambda>j. (nat (?ind ! j), ?vals ! j)) [Suc ?k..<Suc ?k + length lhs] = orig_terms st lhs"
      using segment_at_terms [OF s(3)] by (simp only: map_upt_shift)
    with s(1,2) at(1) at(4) c run SubstitutionEquality show ?thesis
      by (simp add: undo_step_def Let_def apply_substituted_col_def solve_in_row_def del: upt_Suc)
  next
    case (ParallelCols c1 i1 li1 l1 ui1 u1 c2 i2 li2 l2 ui2 u2 sc)
    with assms(4) e have c: "t = kParallelCol"
      "is = [orig_col st c1, bound_flags i1 li1 ui1, orig_col st c2, bound_flags i2 li2 ui2, -1]"
      "vs = [l1, u1, l2, u2, sc]" by simp_all
    with seg have "?ind ! ?k = orig_col st c1" "?ind ! (?k + 1) = bound_flags i1 li1 ui1"
      "?ind ! (?k + 2) = orig_col st c2" "?ind ! (?k + 3) = bound_flags i2 li2 ui2"
      "?vals ! ?k = l1" "?vals ! (?k + 1) = u1" "?vals ! (?k + 2) = l2" "?vals ! (?k + 3) = u2"
      "?vals ! (?k + 4) = sc"
      by (simp_all add: segment_at_Cons eval_nat_numeral)
    with at(1) c(1) run ParallelCols show ?thesis
      by (simp add: undo_step_def Let_def apply_parallel_col_def split: prod.split)
  qed (use assms(4,5) in \<open>simp_all add: if_full_def\<close>)
qed

section \<open>The loop computes the composition of the lifts\<close>

lemma perform_problem [simp]: "ps_problem (perform c st) = ps_problem st"
proof (cases "\<exists>rowm colm. c = Compress rowm colm")
  case True
  then show ?thesis by (auto simp: storage_compress_def)
next
  case False
  then have "perform c st = foldl (\<lambda>s e. append_entry e s) st (log_entry st c)"
    by (simp add: perform_appends del: perform.simps split: store_call.split)
  then show ?thesis using log_entry_cases [of st c] by auto
qed

lemma perform_all_problem [simp]: "ps_problem (perform_all cs st) = ps_problem st"
  by (induction cs arbitrary: st) simp_all

lemma lift_call_no_entry:
  "log_entry st c = [] \<Longrightarrow> postsolveType st = kPrimal \<Longrightarrow> lift_call num p0 st c x = x"
  by (cases c) (auto simp: if_full_def)

lemma undo_loop_lifts:
  assumes "storage_ok st" and "postsolveType st = kPrimal" and "primal_run s"
  shows "undo_loop num (perform_all calls st) (length (ps_types (perform_all calls st))) (s, b) =
    undo_loop num (perform_all calls st) (length (ps_types st))
      (s\<lparr>primal := lift_calls num (ps_problem st) st calls (primal s)\<rparr>, b)"
  using assms(1,2)
proof (induction calls arbitrary: st)
  case Nil
  then show ?case by simp
next
  case (Cons c cs)
  let ?st = "perform c st"
  let ?fin = "perform_all cs ?st"
  let ?s = "s\<lparr>primal := lift_calls num (ps_problem st) ?st cs (primal s)\<rparr>"
  have ok: "storage_ok ?st" "entries ?st = entries st @ log_entry st c"
    using perform_entry [OF Cons.prems(1)] by simp_all
  have fin: "storage_ok ?fin" "entries ?fin = entries ?st @ log_entries ?st cs"
    using perform_all_entries [OF ok(1), of cs] by simp_all
  have finlen: "length (ps_types ?fin) = length (ps_types ?st) + length (log_entries ?st cs)"
    using arg_cong [OF fin(2), of length] by simp
  have IH: "undo_loop num ?fin (length (ps_types ?fin)) (s, b) = undo_loop num ?fin (length (ps_types ?st)) (?s, b)"
    using Cons.IH [OF ok(1)] Cons.prems(2) by simp
  consider "log_entry st c = []" | e where "log_entry st c = [e]" using log_entry_cases by blast
  then show ?case
  proof cases
    case 1
    then have "length (ps_types ?st) = length (ps_types st)" using arg_cong [OF ok(2), of length] by simp
    with IH 1 Cons.prems(2) show ?thesis by (simp add: lift_call_no_entry)
  next
    case (2 e)
    then have len: "length (ps_types ?st) = Suc (length (ps_types st))"
      using arg_cong [OF ok(2), of length] by simp
    have "length (ps_types st) < length (ps_types ?fin)" "entries ?fin ! length (ps_types st) = e"
      using finlen fin(2) ok(2) 2 len by (simp_all add: nth_append)
    from undo_step_lift [OF fin(1) this 2 Cons.prems(2), of ?s num b] assms(3) IH len show ?thesis
      by simp
  qed
qed

lemma copy_primal_run:
  assumes "sol_type red = kPrimalOnly" and "primal_run s0"
  shows "copy_from_reduced_to_original cb red st s0 =
    s0\<lparr>primal := scatter 0 (nColsOriginal st) (origcol_mapping st) (primal red)\<rparr>"
  using assms by (simp add: copy_from_reduced_to_original_def primal_run_def Let_def)

lemma undo_all_lifts:
  assumes "storage_ok st" and "ps_types st = []" and "postsolveType st = kPrimal"
    and "sol_type red = kPrimalOnly" and "primal_run s0" and "fin = perform_all calls st"
  shows "primal (fst (undo_all num cb red fin s0)) =
    lift_calls num (ps_problem st) st calls
      (scatter 0 (nColsOriginal fin) (origcol_mapping fin) (primal red))"
  using undo_loop_lifts [OF assms(1,3), of _ num calls] assms
  by (simp add: undo_all_def Let_def copy_primal_run)

end
