(* ===== verification/Pap_Lift.thy ===== *)
theory Pap_Lift
  imports Pap_Postsolve_Laws
begin

text \<open>
  The lifts are correct: a solved equality holds, a column fixed at infinity satisfies the rows that
  were removed with it, a merged column is split into values of its two columns. The last section
  composes them along a presolve run.
\<close>

section \<open>Solving an equality for a column\<close>

lemma solved_row_value:
  assumes "distinct_cols row" and "(c, a) \<in> set row" and "c < length x"
  shows "row_value row (x[c := v]) = a * v + row_value (rest_of_row c row) x"
proof -
  have "row_value (rest_of_row c row) (x[c := v]) = row_value (rest_of_row c row) x"
    by (auto simp: row_value_def rest_of_row_def intro!: arg_cong [of _ _ sum_list])
  with row_value_split [OF assms(1,2), of "x[c := v]"] assms(3) show ?thesis by simp
qed

lemma equality_terms_loop:
  "foldl (\<lambda>(coef, s) (c', v). if c' = c then (v, s) else (coef, stable_add s (x ! c' * v))) (a0, s0) row =
   (foldl (\<lambda>a (c', v). if c' = c then v else a) a0 row, s0 + row_value (rest_of_row c row) x)"
  by (induction row arbitrary: a0 s0) (auto simp: stable_add_def row_value_def rest_of_row_def)

lemma last_coeff_unique:
  assumes "distinct_cols row" and "(c, a) \<in> set row"
  shows "foldl (\<lambda>b (c', v). if c' = c then v else b) a0 row = a"
  using assms
proof (induction row arbitrary: a0)
  case Nil
  then show ?case by simp
next
  case (Cons e row)
  have other: "foldl (\<lambda>b (c', v). if c' = c then v else b) b0 row = b0" if "c \<notin> fst ` set row" for b0
    using that by (induction row) auto
  from Cons show ?case by (cases e) (auto simp: other image_iff)
qed

lemma equality_terms_eq:
  assumes "distinct_cols row" and "(c, a) \<in> set row"
  shows "equality_terms c row side x = (a, row_value (rest_of_row c row) x - side)"
  by (simp add: equality_terms_def equality_terms_loop last_coeff_unique [OF assms] stable_add_def)

lemma solve_in_row_residual:
  assumes "0 \<le> epsilon num" and "distinct_cols row" and "(c, a) \<in> set row" and "a \<noteq> 0" and "c < length x"
  shows "\<bar>row_value row (solve_in_row num c row side x) - side\<bar> \<le> epsilon num"
proof -
  let ?rest = "row_value (rest_of_row c row) x - side"
  have "row_value row (solve_in_row num c row side x) - side = a * solve_for_column num (a, ?rest) + ?rest"
    by (simp add: solve_in_row_def solved_row_value [OF assms(2,3,5)] equality_terms_eq [OF assms(2,3)])
  then show ?thesis using assms(1,4) by (simp add: solve_for_column_def isEq_def)
qed

section \<open>Columns fixed at infinity\<close>

lemma row_candidate_eq:
  assumes "distinct_cols terms" and "(c, a) \<in> set terms" and "a \<noteq> 0"
  shows "row_candidate c neg x (l, u, terms) =
    ((if (0 < a) = neg then u else l) - row_value (rest_of_row c terms) x) / a"
proof -
  have "sum_list (map (\<lambda>(c', v). - v * x ! c') (filter (\<lambda>(c', v). c' \<noteq> c) terms)) =
      - row_value (rest_of_row c terms) x"
    by (induction terms) (auto simp: row_value_def rest_of_row_def)
  moreover have "infinity_row_coeff c terms = a"
    using last_coeff_unique [OF assms(1,2)] by (simp add: infinity_row_coeff_def)
  ultimately show ?thesis
    using assms(3)
    by (auto simp: row_candidate_def calculate_row_value_for_fixed_infinity_variable_def Let_def stable_sum_eq)
qed

text \<open>The fold keeps the tightest candidate up to the tolerance of its comparisons.\<close>

lemma tighten_fold_neg:
  assumes "0 \<le> epsilon num"
  shows "foldl (\<lambda>s row. tighten num True s (f row)) s0 rows \<le> s0 \<and>
    (\<forall>row \<in> set rows. foldl (\<lambda>s row. tighten num True s (f row)) s0 rows \<le> f row + epsilon num)"
proof (induction rows arbitrary: s0)
  case (Cons row rows)
  let ?s = "tighten num True s0 (f row)"
  have "?s \<le> s0" "?s \<le> f row + epsilon num" using assms by (auto simp: tighten_def isLT_def)
  with Cons.IH [of ?s] show ?case by (auto intro: order_trans)
qed simp

lemma tighten_fold_pos:
  assumes "0 \<le> epsilon num"
  shows "s0 \<le> foldl (\<lambda>s row. tighten num False s (f row)) s0 rows \<and>
    (\<forall>row \<in> set rows. f row - epsilon num \<le> foldl (\<lambda>s row. tighten num False s (f row)) s0 rows)"
proof (induction rows arbitrary: s0)
  case (Cons row rows)
  let ?s = "tighten num False s0 (f row)"
  have "s0 \<le> ?s" "f row - epsilon num \<le> ?s" using assms by (auto simp: tighten_def isGT_def)
  with Cons.IH [of ?s] show ?case by (auto intro: order_trans)
qed simp

lemma epsFloor_le: "0 \<le> epsilon num \<Longrightarrow> epsFloor num s \<le> s + epsilon num"
  and epsCeil_ge: "0 \<le> epsilon num \<Longrightarrow> s - epsilon num \<le> epsCeil num s"
  by (simp_all add: epsFloor_def epsCeil_def rational_floor_eq rational_ceil_eq)

lemma eps_round_Ints: "epsFloor num s \<in> \<int>" "epsCeil num s \<in> \<int>"
  by (simp_all add: epsFloor_def epsCeil_def rational_floor_eq rational_ceil_eq)

lemma infinity_value_neg:
  assumes "0 \<le> epsilon num" and "v = infinity_value num integral c True bound binf rows x"
  shows "(\<forall>row \<in> set rows. v \<le> row_candidate c True x row + 2 * epsilon num)"
    and "\<not> (rows = [] \<and> binf) \<Longrightarrow> v \<le> bound + epsilon num"
    and "integral \<Longrightarrow> v \<in> \<int>"
proof -
  let ?start = "if rows = [] \<and> binf then 0 else bound"
  let ?s = "foldl (\<lambda>s row. tighten num True s (row_candidate c True x row)) ?start rows"
  have s: "?s \<le> ?start" "\<forall>row \<in> set rows. ?s \<le> row_candidate c True x row + epsilon num"
    using tighten_fold_neg [OF assms(1), of "row_candidate c True x"] by blast+
  have v: "v \<le> ?s + epsilon num"
    using assms(1,2) epsFloor_le [OF assms(1), of ?s] by (simp add: infinity_value_def Let_def)
  with s show "(\<forall>row \<in> set rows. v \<le> row_candidate c True x row + 2 * epsilon num)"
    by (force intro: order_trans)
  have start: "\<not> (rows = [] \<and> binf) \<Longrightarrow> ?start = bound" by auto
  with v s(1) show "\<not> (rows = [] \<and> binf) \<Longrightarrow> v \<le> bound + epsilon num" by linarith
  show "integral \<Longrightarrow> v \<in> \<int>"
    using assms(2) by (simp add: infinity_value_def Let_def eps_round_Ints)
qed

lemma infinity_value_pos:
  assumes "0 \<le> epsilon num" and "v = infinity_value num integral c False bound binf rows x"
  shows "(\<forall>row \<in> set rows. row_candidate c False x row - 2 * epsilon num \<le> v)"
    and "\<not> (rows = [] \<and> binf) \<Longrightarrow> bound - epsilon num \<le> v"
    and "integral \<Longrightarrow> v \<in> \<int>"
proof -
  let ?start = "if rows = [] \<and> binf then 0 else bound"
  let ?s = "foldl (\<lambda>s row. tighten num False s (row_candidate c False x row)) ?start rows"
  have s: "?start \<le> ?s" "\<forall>row \<in> set rows. row_candidate c False x row - epsilon num \<le> ?s"
    using tighten_fold_pos [OF assms(1), of _ "row_candidate c False x"] by blast+
  have v: "?s - epsilon num \<le> v"
    using assms(1,2) epsCeil_ge [OF assms(1), of ?s] by (simp add: infinity_value_def Let_def)
  with s show "(\<forall>row \<in> set rows. row_candidate c False x row - 2 * epsilon num \<le> v)"
    by (force intro: order_trans)
  have start: "\<not> (rows = [] \<and> binf) \<Longrightarrow> ?start = bound" by auto
  with v s(1) show "\<not> (rows = [] \<and> binf) \<Longrightarrow> bound - epsilon num \<le> v" by linarith
  show "integral \<Longrightarrow> v \<in> \<int>"
    using assms(2) by (simp add: infinity_value_def Let_def eps_round_Ints)
qed

text \<open>A candidate is where the row becomes tight, so a value beyond it satisfies the row.\<close>

lemma infinity_value_row:
  assumes "0 \<le> epsilon num" and "(l, u, terms) \<in> set rows" and "distinct_cols terms"
    and "(c, a) \<in> set terms" and "a \<noteq> 0" and "c < length x"
    and "v = infinity_value num integral c neg bound binf rows x"
  shows "if (0 < a) = neg then row_value terms (x[c := v]) \<le> u + 2 * \<bar>a\<bar> * epsilon num
    else l - 2 * \<bar>a\<bar> * epsilon num \<le> row_value terms (x[c := v])"
proof -
  let ?rest = "row_value (rest_of_row c terms) x"
  let ?side = "if (0 < a) = neg then u else l"
  let ?cand = "(?side - ?rest) / a"
  have val: "row_value terms (x[c := v]) = a * v + ?rest"
    using solved_row_value [OF assms(3,4,6)] .
  have tight: "a * ?cand = ?side - ?rest" using assms(5) by simp
  show ?thesis
  proof (cases neg)
    case True
    then have neg: "neg = True" by simp
    then have "v \<le> ?cand + 2 * epsilon num"
      using infinity_value_neg(1) [OF assms(1) assms(7) [unfolded neg]] assms(2)
        row_candidate_eq [OF assms(3-5), of True] by force
    then show ?thesis
      using val tight True assms(5)
        mult_left_mono [of v "?cand + 2 * epsilon num" a]
        mult_left_mono_neg [of v "?cand + 2 * epsilon num" a]
      by (cases "0 < a") (auto simp: algebra_simps abs_if)
  next
    case False
    then have neg: "neg = False" by simp
    then have "?cand - 2 * epsilon num \<le> v"
      using infinity_value_pos(1) [OF assms(1) assms(7) [unfolded neg]] assms(2)
        row_candidate_eq [OF assms(3-5), of False] by force
    then show ?thesis
      using val tight False assms(5)
        mult_left_mono [of "?cand - 2 * epsilon num" v a]
        mult_left_mono_neg [of "?cand - 2 * epsilon num" v a]
      by (cases "0 < a") (auto simp: algebra_simps abs_if)
  qed
qed

section \<open>Parallel columns\<close>

lemma mask_values: "uint kIntegral = 16" "uint kLbInf = 1" "uint kUbInf = 4"
  "IS_INTEGRAL = 16" "IS_LBINF = 1" "IS_UBINF = 4"
  by (simp_all add: IS_INTEGRAL_def IS_LBINF_def IS_UBINF_def kIntegral_def kLbInf_def kUbInf_def)

lemma has_bit_bound_flags [simp]:
  "has_bit (bound_flags i l u) IS_INTEGRAL = i" "has_bit (bound_flags i l u) IS_LBINF = l"
  "has_bit (bound_flags i l u) IS_UBINF = u"
  by (cases i; cases l; cases u; simp add: has_bit_def bound_flags_def mask_values)+

lemma split_integral_sum:
  assumes "split_integral num l1 u1 l2 u2 sc s = (v1, v2)"
  shows "sc * v1 + v2 = s"
  using assms by (auto simp: split_integral_def Let_def split: if_splits)

lemma split_continuous_sum:
  assumes "split_continuous num f1 f2 l1 u1 l2 u2 sc s = (v1, v2)" and "sc \<noteq> 0"
    and "\<not> has_bit f2 IS_INTEGRAL"
  shows "sc * v1 + v2 = s"
  using assms by (auto simp: split_continuous_def Let_def split: if_splits)

lemma split_continuous_rounded:
  assumes "split_continuous num f1 f2 l1 u1 l2 u2 sc s = (w1, w2)" and "\<not> isFeasIntegral num w2"
    and "has_bit f IS_INTEGRAL" and "\<not> has_bit f2 IS_INTEGRAL"
    and "has_bit f IS_LBINF = has_bit f2 IS_LBINF" and "has_bit f IS_UBINF = has_bit f2 IS_UBINF"
  shows "\<exists>g. split_continuous num f1 f l1 u1 l2 u2 sc s =
    (s - w1 * sc, if g < w2 then rational_ceil w2 else rational_floor w2)"
proof -
  define g where "g = (if \<not> has_bit f2 IS_LBINF then l2 else if \<not> has_bit f2 IS_UBINF then u2 else 0)"
  define c where "c = (s - g) / sc"
  define split where "split = (if \<not> has_bit f1 IS_LBINF \<and> isFeasLT num c l1 then (l1, s - sc * l1)
    else if \<not> has_bit f1 IS_UBINF \<and> isFeasGT num c u1 then (u1, s - sc * u1) else (c, g))"
  have "split = (w1, w2)"
    using assms(1,4) unfolding split_continuous_def Let_def g_def [symmetric] c_def [symmetric] split_def [symmetric]
    by (simp add: case_prod_beta)
  then show ?thesis
    using assms(2,3) unfolding split_continuous_def Let_def assms(5,6) g_def [symmetric] c_def [symmetric] split_def [symmetric]
    by (intro exI [of _ g]) simp
qed

definition col_within :: "bool \<Rightarrow> rat \<Rightarrow> bool \<Rightarrow> rat \<Rightarrow> rat \<Rightarrow> bool" where
  "col_within lbinf lb ubinf ub v \<longleftrightarrow> (lbinf \<or> lb \<le> v) \<and> (ubinf \<or> v \<le> ub)"

lemma moved_between:
  fixes sc :: rat
  assumes "(c \<le> m \<and> m \<le> w) \<or> (w \<le> m \<and> m \<le> c)"
  shows "min (s - sc * c) (s - sc * w) \<le> s - sc * m \<and> s - sc * m \<le> max (s - sc * c) (s - sc * w)"
proof -
  have "(sc * c \<le> sc * m \<and> sc * m \<le> sc * w) \<or> (sc * w \<le> sc * m \<and> sc * m \<le> sc * c)"
    using assms by (cases "0 \<le> sc") (auto simp: mult_left_mono mult_left_mono_neg)
  then show ?thesis by (auto simp: min_def max_def)
qed

lemma split_continuous_within:
  assumes "feastol num = 0" and "sc \<noteq> 0" and "\<not> has_bit f2 IS_INTEGRAL"
    and "col_within (has_bit f1 IS_LBINF) l1 (has_bit f1 IS_UBINF) u1 w1"
    and "col_within (has_bit f2 IS_LBINF) l2 (has_bit f2 IS_UBINF) u2 w2" and "sc * w1 + w2 = s"
    and "split_continuous num f1 f2 l1 u1 l2 u2 sc s = (v1, v2)"
  shows "col_within (has_bit f1 IS_LBINF) l1 (has_bit f1 IS_UBINF) u1 v1 \<and>
    col_within (has_bit f2 IS_LBINF) l2 (has_bit f2 IS_UBINF) u2 v2"
proof -
  define g where "g = (if \<not> has_bit f2 IS_LBINF then l2 else if \<not> has_bit f2 IS_UBINF then u2 else 0)"
  define c where "c = (s - g) / sc"
  have g: "col_within (has_bit f2 IS_LBINF) l2 (has_bit f2 IS_UBINF) u2 g"
    using assms(5) by (auto simp: g_def col_within_def)
  have gc: "s - sc * c = g" and w2: "s - sc * w1 = w2" using assms(2,6) by (auto simp: c_def)
  have res: "(v1, v2) = (if \<not> has_bit f1 IS_LBINF \<and> c < l1 then (l1, s - sc * l1)
      else if \<not> has_bit f1 IS_UBINF \<and> u1 < c then (u1, s - sc * u1) else (c, g))"
    using assms(1,3,7) by (auto simp: split_continuous_def Let_def tol_simps g_def c_def split: if_splits)
  have mid: "col_within (has_bit f2 IS_LBINF) l2 (has_bit f2 IS_UBINF) u2 (s - sc * m)"
    if "(c \<le> m \<and> m \<le> w1) \<or> (w1 \<le> m \<and> m \<le> c)" for m
    using moved_between [OF that, of s sc] g assms(5) unfolding gc w2
    by (auto simp: col_within_def min_def max_def split: if_splits)
  consider "\<not> has_bit f1 IS_LBINF \<and> c < l1" | "\<not> has_bit f1 IS_UBINF \<and> u1 < c" "\<not> (\<not> has_bit f1 IS_LBINF \<and> c < l1)"
    | "\<not> (\<not> has_bit f1 IS_LBINF \<and> c < l1)" "\<not> (\<not> has_bit f1 IS_UBINF \<and> u1 < c)" by blast
  then show ?thesis
  proof cases
    case 1
    with res mid [of l1] assms(4) show ?thesis by (auto simp: col_within_def)
  next
    case 2
    with res mid [of u1] assms(4) show ?thesis by (auto simp: col_within_def)
  next
    case 3
    with res g show ?thesis by (auto simp: col_within_def)
  qed
qed

subsection \<open>Both columns integral\<close>

lemma round_quotient: "k \<noteq> 0 \<Longrightarrow> num_round (of_int n / (2 * of_int k)) = of_int ((n + k) div (2 * k))"
proof -
  assume k: "k \<noteq> 0"
  then have "(of_int n / (2 * of_int k) + 1 / 2 :: rat) = of_int (n + k) / of_int (2 * k)"
    by (simp add: field_simps)
  then show ?thesis by (simp only: num_round_eq floor_divide_of_int_eq)
qed

text \<open>The two roundings: the quotient for which the remainder has the wanted sign.\<close>

lemma lower_quotient:
  assumes "(k :: int) \<noteq> 0" and "q = (1 - \<bar>k\<bar> + 2 * t + k) div (2 * k)"
  shows "0 \<le> t - k * q \<and> t - k * q < \<bar>k\<bar>"
proof -
  define n where "n = 1 - \<bar>k\<bar> + 2 * t + k"
  define r p where "r = n mod (2 * k)" and "p = k * q"
  have n: "n = 2 * p + r" unfolding r_def p_def assms(2) n_def [symmetric]
    by (metis mult.assoc mult_div_mod_eq)
  show ?thesis
  proof (cases "0 < k")
    case True
    then have "0 \<le> r" "r < 2 * k" by (simp_all add: r_def)
    with n True show ?thesis unfolding p_def [symmetric] n_def by presburger
  next
    case False
    with assms(1) have "r \<le> 0" "2 * k < r" by (simp_all add: r_def neg_mod_bound neg_mod_sign)
    with n False assms(1) show ?thesis unfolding p_def [symmetric] n_def by presburger
  qed
qed

lemma upper_quotient:
  assumes "(k :: int) \<noteq> 0" and "q = (\<bar>k\<bar> - 1 + 2 * t + k) div (2 * k)"
  shows "t - k * q \<le> 0 \<and> - \<bar>k\<bar> < t - k * q"
proof -
  define n where "n = \<bar>k\<bar> - 1 + 2 * t + k"
  define r p where "r = n mod (2 * k)" and "p = k * q"
  have n: "n = 2 * p + r" unfolding r_def p_def assms(2) n_def [symmetric]
    by (metis mult.assoc mult_div_mod_eq)
  show ?thesis
  proof (cases "0 < k")
    case True
    then have "0 \<le> r" "r < 2 * k" by (simp_all add: r_def)
    with n True show ?thesis unfolding p_def [symmetric] n_def by presburger
  next
    case False
    with assms(1) have "r \<le> 0" "2 * k < r" by (simp_all add: r_def neg_mod_bound neg_mod_sign)
    with n False assms(1) show ?thesis unfolding p_def [symmetric] n_def by presburger
  qed
qed

lemma quotient_in_range:
  fixes k :: int
  assumes "k \<noteq> 0" and "k * W - \<bar>k\<bar> < k * q" and "k * q < k * C"
    and "L \<le> W" "W \<le> U" "L \<le> C" "C \<le> U"
  shows "L \<le> q \<and> q \<le> U"
proof (cases "0 < k")
  case True
  then have "k * (W - 1) < k * q" using assms(2) by (simp add: algebra_simps)
  with True assms(3-) show ?thesis by (simp add: mult_less_cancel_left_pos)
next
  case False
  then have "k * (W + 1) < k * q" using assms(1,2) by (simp add: algebra_simps)
  with False assms(1,3-) show ?thesis by (simp add: mult_less_cancel_left_neg)
qed

lemma quotient_in_range':
  fixes k :: int
  assumes "k \<noteq> 0" and "k * q < k * W + \<bar>k\<bar>" and "k * C < k * q"
    and "L \<le> W" "W \<le> U" "L \<le> C" "C \<le> U"
  shows "L \<le> q \<and> q \<le> U"
proof (cases "0 < k")
  case True
  then have "k * q < k * (W + 1)" using assms(2) by (simp add: algebra_simps)
  with True assms(3-) show ?thesis by (simp add: mult_less_cancel_left_pos)
next
  case False
  then have "k * q < k * (W - 1)" using assms(1,2) by (simp add: algebra_simps)
  with False assms(1,3-) show ?thesis by (simp add: mult_less_cancel_left_neg)
qed

text \<open>Integers are compared exactly as long as the tolerance is absolute and below 1.\<close>

definition integers_exact :: "Num \<Rightarrow> bool" where
  "integers_exact num \<longleftrightarrow> feastol num = 0 \<or> useabsfeas num \<and> 0 \<le> feastol num \<and> feastol num < 1"

lemma feas_int:
  assumes "integers_exact num"
  shows "isFeasLT num (of_int a) (of_int b) = (a < b)" "isFeasGT num (of_int a) (of_int b) = (b < a)"
proof -
  have gap: "a < b \<longleftrightarrow> (of_int a :: rat) - of_int b \<le> - 1" for a b :: int
    by (metis diff_less_eq less_iff_diff_less_0 le_diff_eq of_int_1 of_int_add of_int_diff of_int_le_iff of_int_minus
        uminus_add_conv_diff zle_diff1_eq add.commute diff_0 minus_diff_eq zless_imp_add1_zle add1_zle_eq)
  have "isFeasLT num (of_int a) (of_int b) = (a < b) \<and> isFeasGT num (of_int a) (of_int b) = (b < a)"
  proof (cases "feastol num = 0")
    case True
    then show ?thesis by (simp add: tol_simps)
  next
    case False
    then have tol: "useabsfeas num" "0 \<le> feastol num" "feastol num < 1" using assms by (simp_all add: integers_exact_def)
    then show ?thesis using gap [of a b] gap [of b a] by (auto simp: isFeas_defs)
  qed
  then show "isFeasLT num (of_int a) (of_int b) = (a < b)" "isFeasGT num (of_int a) (of_int b) = (b < a)" by blast+
qed

lemma split_integral_int:
  fixes k L1 U1 L2 U2 W1 W2 :: int
  assumes "integers_exact num" and "k \<noteq> 0" and "\<bar>k\<bar> \<le> U2 - L2 + 1"
    and "L1 \<le> W1" "W1 \<le> U1" "L2 \<le> W2" "W2 \<le> U2"
  shows "\<exists>q. split_integral num (of_int L1) (of_int U1) (of_int L2) (of_int U2) (of_int k) (of_int (k * W1 + W2)) =
    (of_int q, of_int (k * W1 + W2 - k * q)) \<and> L1 \<le> q \<and> q \<le> U1 \<and>
    L2 \<le> k * W1 + W2 - k * q \<and> k * W1 + W2 - k * q \<le> U2"
proof -
  define S where "S = k * W1 + W2"
  define C where "C = max L1 (min U1 0)"
  have C: "L1 \<le> C" "C \<le> U1" "num_max (of_int L1) (num_min (of_int U1) 0) = (of_int C :: rat)"
    using assms(4,5) by (auto simp: C_def of_int_max of_int_min)
  consider "S - k * C < L2" | "U2 < S - k * C" | "L2 \<le> S - k * C" "S - k * C \<le> U2" by linarith
  then show ?thesis
  proof cases
    case 1
    define q where "q = (1 - \<bar>k\<bar> + 2 * (S - L2) + k) div (2 * k)"
    note r = lower_quotient [OF assms(2) q_def]
    have "L1 \<le> q \<and> q \<le> U1"
      by (rule quotient_in_range [OF assms(2) _ _ assms(4,5) C(1,2)]) (use r 1 assms(6) S_def in linarith)+
    moreover have "num_round ((1 - \<bar>num_round (of_int k)\<bar> + 2 * (of_int S - of_int L2)) / (2 * of_int k)) = of_int q"
      using round_quotient [OF assms(2), of "1 - \<bar>k\<bar> + 2 * (S - L2)"] by (simp add: q_def)
    ultimately show ?thesis
      using 1 C(3) r assms(3) unfolding S_def [symmetric]
      by (intro exI [of _ q]) (simp add: split_integral_def Let_def feas_int [OF assms(1)]
          flip: of_int_mult of_int_diff)
  next
    case 2
    define q where "q = (\<bar>k\<bar> - 1 + 2 * (S - U2) + k) div (2 * k)"
    note r = upper_quotient [OF assms(2) q_def]
    have "L1 \<le> q \<and> q \<le> U1"
      by (rule quotient_in_range' [OF assms(2) _ _ assms(4,5) C(1,2)]) (use r 2 assms(7) S_def in linarith)+
    moreover have "num_round ((\<bar>num_round (of_int k)\<bar> - 1 + 2 * (of_int S - of_int U2)) / (2 * of_int k)) = of_int q"
      using round_quotient [OF assms(2), of "\<bar>k\<bar> - 1 + 2 * (S - U2)"] by (simp add: q_def)
    moreover have "\<not> S - k * C < L2" using 2 assms(6,7) by linarith
    ultimately show ?thesis
      using 2 C(3) r assms(3) unfolding S_def [symmetric]
      by (intro exI [of _ q]) (simp add: split_integral_def Let_def feas_int [OF assms(1)]
          flip: of_int_mult of_int_diff)
  next
    case 3
    then show ?thesis
      using C unfolding S_def [symmetric]
      by (intro exI [of _ C]) (simp add: split_integral_def Let_def feas_int [OF assms(1)]
          flip: of_int_mult of_int_diff)
  qed
qed

section \<open>The undo of one stored reduction\<close>

definition primal_setting :: "postsolve_storage \<Rightarrow> solution \<Rightarrow> solution \<Rightarrow> bool" where
  "primal_setting st red s0 \<longleftrightarrow> storage_ok st \<and> mapping_ok st \<and> ps_types st = [] \<and> postsolveType st = kPrimal \<and>
     sol_type red = kPrimalOnly \<and> primal_run s0"

definition written :: "postsolve_storage \<Rightarrow> solution \<Rightarrow> rat list" where
  "written st red = scatter 0 (nColsOriginal st) (origcol_mapping st) (primal red)"

definition restored :: "Num \<Rightarrow> store_call list \<Rightarrow> postsolve_storage \<Rightarrow> solution \<Rightarrow> solution \<Rightarrow> rat list" where
  "restored num calls st red s0 = primal (fst (undo_all num False red (perform_all calls st) s0))"

lemma length_scatter [simp]: "length (scatter d n m xs) = n"
proof -
  have "length (foldl (\<lambda>ys k. ys[m ! k := xs ! k]) ys ks) = length ys" for ys and ks :: "nat list"
    by (induction ks arbitrary: ys) simp_all
  then show ?thesis by (simp add: scatter_def)
qed

lemma length_written [simp]: "length (written st red) = nColsOriginal st"
  by (simp add: written_def)

lemma perform_mapping: "c \<noteq> Compress rowm colm \<Longrightarrow>
   (\<And>rowm colm. c \<noteq> Compress rowm colm) \<Longrightarrow>
   origcol_mapping (perform c st) = origcol_mapping st \<and> nColsOriginal (perform c st) = nColsOriginal st"
  using log_entry_cases [of st c]
  by (auto simp: perform_appends simp del: perform.simps split: store_call.split)

lemma restored_single:
  assumes "primal_setting st red s0" and "\<And>rowm colm. c \<noteq> Compress rowm colm"
  shows "restored num [c] st red s0 = lift_call num (ps_problem st) st c (written st red)"
  using undo_all_lifts [of st red s0 "perform_all [c] st" "[c]" num False] assms
    perform_mapping [OF assms(2,2), of st]
  by (simp add: restored_def primal_setting_def written_def)

lemma orig_less: "mapping_ok st \<Longrightarrow> c < length (origcol_mapping st) \<Longrightarrow> origcol_mapping st ! c < nColsOriginal st"
  by (simp add: mapping_ok_def)

lemma orig_inj:
  assumes "mapping_ok st" and "c < length (origcol_mapping st)" and "d < length (origcol_mapping st)"
  shows "origcol_mapping st ! c = origcol_mapping st ! d \<longleftrightarrow> c = d"
proof -
  have "distinct (origcol_mapping st)"
    using assms(1) strict_sorted_iff by (auto simp: mapping_ok_def)
  with assms(2,3) show ?thesis by (simp add: nth_eq_iff_index_eq)
qed

lemma orig_terms_ok:
  assumes "mapping_ok st" and "distinct_cols row" and "\<forall>(c, v) \<in> set row. c < length (origcol_mapping st)"
  shows "distinct_cols (orig_terms st row)"
  using assms(2,3)
proof (induction row)
  case (Cons e row)
  then show ?case
    using orig_inj [OF assms(1)] by (force simp: orig_terms_def)
qed (simp add: orig_terms_def)

lemma in_orig_terms: "(c, a) \<in> set row \<Longrightarrow> (origcol_mapping st ! c, a) \<in> set (orig_terms st row)"
  by (force simp: orig_terms_def)

text \<open>
  Undoing a stored substitution solves the stored equality for the substituted column: whatever
  the values of the other columns are, the equality holds afterwards up to the tolerance with which
  the residual is compared to zero, exactly for the exact arithmetic, and only that column changes.
\<close>

lemma undo_substitution_solves_equality:
  assumes "primal_setting st red s0" and "0 \<le> epsilon num"
    and "(c = Substitution col r p \<and> eq = row_coeffs p ! r \<and> side = lhs_values p ! r) \<or>
         c = SubstitutionEquality col eq side"
    and "distinct_cols eq" and "(col, a) \<in> set eq" and "a \<noteq> 0"
    and "\<forall>(d, v) \<in> set eq. d < length (origcol_mapping st)"
  shows "\<bar>row_value (orig_terms st eq) (restored num [c] st red s0) - side\<bar> \<le> epsilon num \<and>
    (\<forall>j. j \<noteq> origcol_mapping st ! col \<longrightarrow> restored num [c] st red s0 ! j = written st red ! j)"
proof -
  have map: "mapping_ok st" using assms(1) by (simp add: primal_setting_def)
  have less: "origcol_mapping st ! col < nColsOriginal st" using orig_less [OF map] assms(5,7) by auto
  have "restored num [c] st red s0 =
      solve_in_row num (origcol_mapping st ! col) (orig_terms st eq) side (written st red)"
    using restored_single [OF assms(1)] assms(3) by auto
  with solve_in_row_residual [OF assms(2) orig_terms_ok [OF map assms(4,7)] in_orig_terms [OF assms(5)] assms(6)] less
  show ?thesis by (simp add: solve_in_row_def)
qed

definition ex_reduced :: solution where "ex_reduced = new_solution kPrimalOnly [3, 4]"

lemma ex_setting: "primal_setting (new_storage_sized 1 n p) ex_reduced (new_solution kPrimalOnly [])"
  by (simp add: primal_setting_def storage_ok_def mapping_ok_def new_storage_sized_def ex_reduced_def
      new_solution_def primal_run_def sorted_wrt_upt)

text \<open>
  C16. Undoing a column that was fixed at infinity gives it a value that satisfies every row which was
  removed with it, within twice the tolerance of the comparisons scaled by the coefficient, provided the
  row has no finite side in the direction the column moves (the left hand side is infinite where the
  activity falls with the column, the right hand side where it grows). The value respects the stored
  bound up to the tolerance and is integral if the column is.
\<close>

theorem undo_infinite_column_satisfies_rows:
  assumes "primal_setting st red s0" and "0 \<le> epsilon num"
    and "(r, b) \<in> set (col_coeffs p ! col)" and "distinct_cols (row_coeffs p ! r)"
    and "(col, a) \<in> set (row_coeffs p ! r)" and "a \<noteq> 0" and "col < length (origcol_mapping st)"
    and "\<forall>(d, v) \<in> set (row_coeffs p ! r). d < length (origcol_mapping st)"
    and "flags_test (row_flags p ! r) [if (0 < a) = (val < 0) then kLhsInf else kRhsInf]"
    and "x = restored num [FixedInfCol col val bnd binf p] st red s0"
  shows "(flags_test (row_flags p ! r) [kLhsInf] \<or>
       lhs_values p ! r - 2 * \<bar>a\<bar> * epsilon num \<le> row_value (orig_terms st (row_coeffs p ! r)) x) \<and>
    (flags_test (row_flags p ! r) [kRhsInf] \<or>
       row_value (orig_terms st (row_coeffs p ! r)) x \<le> rhs_values p ! r + 2 * \<bar>a\<bar> * epsilon num) \<and>
    (if val < 0 then x ! (origcol_mapping st ! col) \<le> bnd + epsilon num
     else bnd - epsilon num \<le> x ! (origcol_mapping st ! col)) \<and>
    (flags_test (prob_cflags (ps_problem st) ! (origcol_mapping st ! col)) [kIntegral] \<longrightarrow>
       x ! (origcol_mapping st ! col) \<in> \<int>)"
proof -
  let ?c = "origcol_mapping st ! col"
  let ?int = "flags_test (prob_cflags (ps_problem st) ! ?c) [kIntegral]"
  let ?rows = "stored_rows st p col"
  let ?row = "(lhs_values p ! r, rhs_values p ! r, orig_terms st (row_coeffs p ! r))"
  define v where "v = infinity_value num ?int ?c (val < 0) bnd binf ?rows (written st red)"
  have map: "mapping_ok st" using assms(1) by (simp add: primal_setting_def)
  have c: "?c < length (written st red)" using orig_less [OF map assms(7)] by simp
  have x: "x = (written st red)[?c := v]"
    using restored_single [OF assms(1)] assms(10) by (simp add: v_def Let_def)
  have row: "?row \<in> set ?rows" using assms(3) by (force simp: stored_rows_def)
  then have ne: "\<not> (?rows = [] \<and> binf)" by auto
  have bnd: "(if val < 0 then v \<le> bnd + epsilon num else bnd - epsilon num \<le> v) \<and> (?int \<longrightarrow> v \<in> \<int>)"
  proof (cases "val < 0")
    case True
    then show ?thesis
      using infinity_value_neg(2,3) [OF assms(2), of v ?int ?c bnd binf ?rows] ne by (simp add: v_def)
  next
    case False
    then show ?thesis
      using infinity_value_pos(2,3) [OF assms(2), of v ?int ?c bnd binf ?rows] ne by (simp add: v_def)
  qed
  have xc: "x ! ?c = v" using x c by simp
  show ?thesis
    using infinity_value_row [OF assms(2) row orig_terms_ok [OF map assms(4,8)] in_orig_terms [OF assms(5)]
        assms(6) c v_def, folded x] bnd assms(9) unfolding xc by (simp split: if_splits)
qed

theorem undo_infinite_column_satisfies_rows_witness:
  "5 \<le> row_value (orig_terms (new_storage_sized 1 2 ex_problem) (row_coeffs ex_problem ! 0))
     (restored exact_num [FixedInfCol 1 1 0 False ex_problem] (new_storage_sized 1 2 ex_problem) ex_reduced
       (new_solution kPrimalOnly []))"
proof -
  have facts: "epsilon exact_num = 0" "row_coeffs ex_problem ! 0 = [(0, 1), (1, 2)]"
    "col_coeffs ex_problem ! 1 = [(0, 2)]" "lhs_values ex_problem ! 0 = 5"
    "origcol_mapping (new_storage_sized 1 2 ex_problem) = [0, 1]"
    "flags_test (row_flags ex_problem ! 0) [kRhsInf]" "\<not> flags_test (row_flags ex_problem ! 0) [kLhsInf]"
    by (simp_all add: ex_problem_def new_storage_sized_def exact_num_def numeral_2_eq_2 flags_test_def flag_defs)
  from undo_infinite_column_satisfies_rows [OF ex_setting, of exact_num 0 2 ex_problem 1 2 2 ex_problem 1
      "restored exact_num [FixedInfCol 1 1 0 False ex_problem] (new_storage_sized 1 2 ex_problem) ex_reduced
         (new_solution kPrimalOnly [])" 0 False]
  show ?thesis by (simp add: facts del: One_nat_def)
qed

lemma undo_parallel_single:
  assumes "primal_setting st red s0" and "c1 < length (origcol_mapping st)" and "c2 < length (origcol_mapping st)"
    and "c1 \<noteq> c2" and "x = restored num [ParallelCols c1 i1 li1 l1 ui1 u1 c2 i2 li2 l2 ui2 u2 sc] st red s0"
  shows "(x ! (origcol_mapping st ! c1), x ! (origcol_mapping st ! c2)) =
    parallel_col_values num (bound_flags i1 li1 ui1) (bound_flags i2 li2 ui2) l1 u1 l2 u2 sc
      (written st red ! (origcol_mapping st ! c2))"
proof -
  have map: "mapping_ok st" using assms(1) by (simp add: primal_setting_def)
  have "origcol_mapping st ! c1 < nColsOriginal st" "origcol_mapping st ! c2 < nColsOriginal st"
    "origcol_mapping st ! c1 \<noteq> origcol_mapping st ! c2"
    using orig_less [OF map] orig_inj [OF map] assms(2-4) by auto
  with restored_single [OF assms(1)] assms(5) show ?thesis
    by (simp split: prod.split)
qed

text \<open>
  Undoing a merge of two parallel continuous columns splits every value the merged column can
  take: if it is \<open>s w1 + w2\<close> for some values \<open>w1\<close> and \<open>w2\<close> within the bounds of the two columns, the
  two restored values lie within their bounds and add up to it again.
\<close>

lemma undo_parallel_continuous:
  assumes "primal_setting st red s0" and "feastol num = 0" and "sc \<noteq> 0"
    and "c1 < length (origcol_mapping st)" and "c2 < length (origcol_mapping st)" and "c1 \<noteq> c2"
    and "col_within li1 l1 ui1 u1 w1" and "col_within li2 l2 ui2 u2 w2"
    and "written st red ! (origcol_mapping st ! c2) = sc * w1 + w2"
    and "x = restored num [ParallelCols c1 False li1 l1 ui1 u1 c2 False li2 l2 ui2 u2 sc] st red s0"
  shows "sc * x ! (origcol_mapping st ! c1) + x ! (origcol_mapping st ! c2) = sc * w1 + w2 \<and>
    col_within li1 l1 ui1 u1 (x ! (origcol_mapping st ! c1)) \<and>
    col_within li2 l2 ui2 u2 (x ! (origcol_mapping st ! c2))"
proof -
  have split: "split_continuous num (bound_flags False li1 ui1) (bound_flags False li2 ui2) l1 u1 l2 u2 sc
      (sc * w1 + w2) = (x ! (origcol_mapping st ! c1), x ! (origcol_mapping st ! c2))"
    using undo_parallel_single [OF assms(1,4-6,10)] assms(9) by (simp add: parallel_col_values_def)
  show ?thesis
    using split_continuous_sum [OF split assms(3)]
      split_continuous_within [OF assms(2,3) _ _ _ refl split] assms(7,8) by simp
qed

text \<open>
  C17. Undoing a merge of two integral columns with finite bounds: if the scale is integral and small
  enough for the second column to bridge the gaps (\<open>\<bar>s\<bar> \<le> u2 - l2 + 1\<close>), every integral value of the
  merged column is split into two integral values within the bounds, with an absolute feasibility
  tolerance below 1 (the default) or with exact arithmetic.
\<close>

theorem undo_parallel_integral:
  fixes k L1 U1 L2 U2 W1 W2 :: int
  assumes "primal_setting st red s0" and "integers_exact num" and "k \<noteq> 0" and "\<bar>k\<bar> \<le> U2 - L2 + 1"
    and "c1 < length (origcol_mapping st)" and "c2 < length (origcol_mapping st)" and "c1 \<noteq> c2"
    and "L1 \<le> W1" and "W1 \<le> U1" and "L2 \<le> W2" and "W2 \<le> U2"
    and "written st red ! (origcol_mapping st ! c2) = of_int (k * W1 + W2)"
    and "x = restored num [ParallelCols c1 True False (of_int L1) False (of_int U1)
             c2 True False (of_int L2) False (of_int U2) (of_int k)] st red s0"
  shows "\<exists>v1 v2. x ! (origcol_mapping st ! c1) = of_int v1 \<and> x ! (origcol_mapping st ! c2) = of_int v2 \<and>
    k * v1 + v2 = k * W1 + W2 \<and> L1 \<le> v1 \<and> v1 \<le> U1 \<and> L2 \<le> v2 \<and> v2 \<le> U2"
proof -
  have "(x ! (origcol_mapping st ! c1), x ! (origcol_mapping st ! c2)) =
      split_integral num (of_int L1) (of_int U1) (of_int L2) (of_int U2) (of_int k) (of_int (k * W1 + W2))"
    using undo_parallel_single [OF assms(1,5-7,13)] assms(12) by (simp add: parallel_col_values_def)
  with split_integral_int [OF assms(2-4,8-11)] obtain q where
    "x ! (origcol_mapping st ! c1) = of_int q" "x ! (origcol_mapping st ! c2) = of_int (k * W1 + W2 - k * q)"
    "L1 \<le> q" "q \<le> U1" "L2 \<le> k * W1 + W2 - k * q" "k * W1 + W2 - k * q \<le> U2" by auto
  then show ?thesis by (intro exI [of _ q] exI [of _ "k * W1 + W2 - k * q"]) simp
qed

theorem undo_parallel_integral_witness:
  "\<exists>v1 v2 :: int. (-3) * v1 + v2 = 4 \<and> -2 \<le> v1 \<and> v1 \<le> 5 \<and> 0 \<le> v2 \<and> v2 \<le> 2"
proof -
  have "written (new_storage_sized 1 2 ex_problem) ex_reduced ! 1 = 4"
    by (simp add: written_def new_storage_sized_def ex_reduced_def new_solution_def scatter_def upt_rec numeral_2_eq_2)
  then show ?thesis
    using undo_parallel_integral [OF ex_setting, of default_num "-3" 2 0 0 2 ex_problem 1 "-2" "-1" 5 1]
    by (simp add: integers_exact_def default_num_def new_storage_sized_def upt_rec numeral_2_eq_2) blast
qed

text \<open>
  C38. A continuous column merged into an integral one is split wrongly whenever the second column has to
  be rounded: the value recomputed for the first column multiplies by the scale instead of dividing, so
  that the first column receives the unrounded value \<open>w2\<close> of the second one instead of a value near
  \<open>w1\<close>. The two restored values miss the value of the merged column whenever the scaled distance of
  \<open>w1\<close> and \<open>w2\<close> is at least 1.
\<close>

theorem parallel_mixed_breaks_sum:
  assumes "primal_setting st red s0" and "sc \<noteq> 0"
    and "c1 < length (origcol_mapping st)" and "c2 < length (origcol_mapping st)" and "c1 \<noteq> c2"
    and "split_continuous num (bound_flags False li1 ui1) (bound_flags False li2 ui2) l1 u1 l2 u2 sc y = (w1, w2)"
    and "y = written st red ! (origcol_mapping st ! c2)" and "\<not> isFeasIntegral num w2"
    and "x = restored num [ParallelCols c1 False li1 l1 ui1 u1 c2 True li2 l2 ui2 u2 sc] st red s0"
  shows "sc * w1 + w2 = y \<and> x ! (origcol_mapping st ! c1) = w2 \<and>
    x ! (origcol_mapping st ! c2) \<in> {of_int \<lfloor>w2\<rfloor>, of_int \<lceil>w2\<rceil>} \<and>
    (1 \<le> \<bar>sc * (w1 - w2)\<bar> \<longrightarrow> sc * x ! (origcol_mapping st ! c1) + x ! (origcol_mapping st ! c2) \<noteq> y)"
proof -
  let ?x1 = "x ! (origcol_mapping st ! c1)" and ?x2 = "x ! (origcol_mapping st ! c2)"
  have sum: "sc * w1 + w2 = y" using split_continuous_sum [OF assms(6,2)] by simp
  then have w2: "y - w1 * sc = w2" by (simp add: algebra_simps)
  have "(?x1, ?x2) = split_continuous num (bound_flags False li1 ui1) (bound_flags True li2 ui2) l1 u1 l2 u2 sc y"
    using undo_parallel_single [OF assms(1,3-5,9)] assms(7) by (simp add: parallel_col_values_def)
  moreover obtain g where "split_continuous num (bound_flags False li1 ui1) (bound_flags True li2 ui2) l1 u1 l2 u2 sc y =
      (w2, if g < w2 then rational_ceil w2 else rational_floor w2)"
    using split_continuous_rounded [OF assms(6,8), of "bound_flags True li2 ui2"] w2 by auto
  ultimately have x: "?x1 = w2" "?x2 \<in> {of_int \<lfloor>w2\<rfloor>, of_int \<lceil>w2\<rceil>}"
    by (auto simp: rational_floor_eq rational_ceil_eq split: if_splits)
  then have "\<bar>?x2 - w2\<bar> < 1" using floor_correct [of w2] ceiling_correct [of w2] by auto
  moreover have "sc * w2 + ?x2 - y = (?x2 - w2) - sc * (w1 - w2)" using sum by (simp add: algebra_simps)
  ultimately have "1 \<le> \<bar>sc * (w1 - w2)\<bar> \<longrightarrow> sc * w2 + ?x2 \<noteq> y" by linarith
  then show ?thesis using x sum by blast
qed

definition ex_mixed :: "rat list" where
  "ex_mixed = restored exact_num [ParallelCols 0 False False 0 False 1 1 True False 0 False 10 3]
     (new_storage_sized 1 2 ex_problem) (new_solution kPrimalOnly [0, 9 / 2]) (new_solution kPrimalOnly [])"

theorem parallel_mixed_breaks_sum_witness: "ex_mixed ! 0 = 3 / 2 \<and> 3 * ex_mixed ! 0 + ex_mixed ! 1 \<noteq> 9 / 2"
proof -
  let ?st = "new_storage_sized 1 2 ex_problem" and ?red = "new_solution kPrimalOnly [0, 9 / 2]"
  have "primal_setting ?st ?red (new_solution kPrimalOnly [])"
    by (simp add: primal_setting_def storage_ok_def mapping_ok_def new_storage_sized_def
        new_solution_def primal_run_def sorted_wrt_upt)
  moreover have "origcol_mapping ?st = [0, 1]" by (simp add: new_storage_sized_def numeral_2_eq_2)
  moreover have "written ?st ?red = [0, 9 / 2]"
    by (simp add: written_def new_storage_sized_def new_solution_def scatter_def upt_rec numeral_2_eq_2)
  moreover have "split_continuous exact_num (bound_flags False False False) (bound_flags False False False) 0 1 0 10 3 (9 / 2) =
      (1, 3 / 2)"
    by (simp add: split_continuous_def Let_def tol_simps exact_num_def)
  moreover have "\<not> isFeasIntegral exact_num (3 / 2)" by code_simp
  ultimately show ?thesis
    using parallel_mixed_breaks_sum [where st = ?st and red = ?red and ?s0.0 = "new_solution kPrimalOnly []" and num = exact_num
        and sc = 3 and ?c1.0 = 0 and ?c2.0 = 1 and ?li1.0 = False and ?l1.0 = 0 and ?ui1.0 = False and ?u1.0 = 1
        and ?li2.0 = False and ?l2.0 = 0 and ?ui2.0 = False and ?u2.0 = 10 and y = "9 / 2" and ?w1.0 = 1 and ?w2.0 = "3 / 2"
        and x = ex_mixed, OF _ _ _ _ _ _ _ _ ex_mixed_def]
    by simp
qed

section \<open>A whole run\<close>

text \<open>
  What the reductions make of a row. A form is a list of terms in original columns and a constant; each
  stored reduction turns the form of a row before it into a form after it: a fixed column moves into
  the constant, the equality of a substitution eliminates its column, the first of two merged columns
  drops out. None of this refers to the undo.
\<close>

type_synonym form = "sparse_vec \<times> rat"

definition form_value :: "form \<Rightarrow> rat list \<Rightarrow> rat" where
  "form_value f x = row_value (fst f) x + snd f"

definition term_coeff :: "nat \<Rightarrow> sparse_vec \<Rightarrow> rat" where
  "term_coeff c row = sum_list (map snd (filter (\<lambda>e. fst e = c) row))"

definition eliminate :: "nat \<Rightarrow> sparse_vec \<Rightarrow> rat \<Rightarrow> form \<Rightarrow> form" where
  "eliminate c eq side f =
     (let q = term_coeff c (fst f) / term_coeff c eq
      in (rest_of_row c (fst f) @ map (\<lambda>(d, v). (d, - q * v)) (rest_of_row c eq), snd f + q * side))"

fun reduced_form :: "postsolve_storage \<Rightarrow> store_call \<Rightarrow> form \<Rightarrow> form" where
  "reduced_form st (FixedCol col val cv cost) f =
     (let c = origcol_mapping st ! col in (rest_of_row c (fst f), snd f + term_coeff c (fst f) * val))"
| "reduced_form st (Substitution col r p) f =
     eliminate (origcol_mapping st ! col) (orig_terms st (row_coeffs p ! r)) (lhs_values p ! r) f"
| "reduced_form st (SubstitutionEquality col eq side) f =
     eliminate (origcol_mapping st ! col) (orig_terms st eq) side f"
| "reduced_form st (ParallelCols c1 i1 li1 l1 ui1 u1 c2 i2 li2 l2 ui2 u2 sc) f =
     (rest_of_row (origcol_mapping st ! c1) (fst f), snd f)"
| "reduced_form st c f = f"

text \<open>
  When a reduction applies to a row: the column of a substitution occurs in the equality; merged columns
  are parallel in the row, and a column is never merged into an integral one unless it is integral; a
  column that is fixed at infinity does not occur in the rows that stay.
\<close>

definition solves_for :: "postsolve_storage \<Rightarrow> nat \<Rightarrow> sparse_vec \<Rightarrow> bool" where
  "solves_for st c eq \<longleftrightarrow> c < nColsOriginal st \<and> distinct_cols eq \<and> term_coeff c eq \<noteq> 0"

fun row_reducible :: "postsolve_storage \<Rightarrow> store_call \<Rightarrow> form \<Rightarrow> bool" where
  "row_reducible st (FixedCol col val cv cost) f \<longleftrightarrow> origcol_mapping st ! col < nColsOriginal st"
| "row_reducible st (FixedInfCol col val b binf p) f \<longleftrightarrow> origcol_mapping st ! col < nColsOriginal st \<and>
     term_coeff (origcol_mapping st ! col) (fst f) = 0"
| "row_reducible st (Substitution col r p) f \<longleftrightarrow>
     solves_for st (origcol_mapping st ! col) (orig_terms st (row_coeffs p ! r))"
| "row_reducible st (SubstitutionEquality col eq side) f \<longleftrightarrow>
     solves_for st (origcol_mapping st ! col) (orig_terms st eq)"
| "row_reducible st (ParallelCols c1 i1 li1 l1 ui1 u1 c2 i2 li2 l2 ui2 u2 sc) f \<longleftrightarrow>
     (let o1 = origcol_mapping st ! c1; o2 = origcol_mapping st ! c2
      in o1 < nColsOriginal st \<and> o2 < nColsOriginal st \<and> o1 \<noteq> o2 \<and> sc \<noteq> 0 \<and> (i1 \<or> \<not> i2) \<and>
        term_coeff o1 (fst f) = sc * term_coeff o2 (fst f))"
| "row_reducible st c f \<longleftrightarrow> True"

text \<open>A solved equality may be missed by the tolerance, which its multiple carries into the row.\<close>

fun form_error :: "Num \<Rightarrow> postsolve_storage \<Rightarrow> store_call \<Rightarrow> form \<Rightarrow> rat" where
  "form_error num st (Substitution col r p) f =
     (let c = origcol_mapping st ! col
      in \<bar>term_coeff c (fst f) / term_coeff c (orig_terms st (row_coeffs p ! r))\<bar> * epsilon num)"
| "form_error num st (SubstitutionEquality col eq side) f =
     (let c = origcol_mapping st ! col in \<bar>term_coeff c (fst f) / term_coeff c (orig_terms st eq)\<bar> * epsilon num)"
| "form_error num st c f = 0"

fun reduced_forms :: "postsolve_storage \<Rightarrow> store_call list \<Rightarrow> form \<Rightarrow> form" where
  "reduced_forms st [] f = f"
| "reduced_forms st (c # cs) f = reduced_forms (perform c st) cs (reduced_form st c f)"

fun all_reducible :: "postsolve_storage \<Rightarrow> store_call list \<Rightarrow> form \<Rightarrow> bool" where
  "all_reducible st [] f = True"
| "all_reducible st (c # cs) f \<longleftrightarrow> row_reducible st c f \<and> all_reducible (perform c st) cs (reduced_form st c f)"

fun forms_error :: "Num \<Rightarrow> postsolve_storage \<Rightarrow> store_call list \<Rightarrow> form \<Rightarrow> rat" where
  "forms_error num st [] f = 0"
| "forms_error num st (c # cs) f = form_error num st c f + forms_error num (perform c st) cs (reduced_form st c f)"

lemma row_value_term:
  assumes "c < length x"
  shows "row_value row (x[c := v]) = term_coeff c row * v + row_value (rest_of_row c row) x"
  using assms by (induction row) (auto simp: row_value_def term_coeff_def rest_of_row_def algebra_simps)

lemma row_value_at: "row_value row x = term_coeff c row * x ! c + row_value (rest_of_row c row) x"
  by (induction row) (auto simp: row_value_def term_coeff_def rest_of_row_def algebra_simps)

lemma row_value_scaled: "row_value (map (\<lambda>(d, v). (d, q * v)) row) x = q * row_value row x"
  by (induction row) (auto simp: row_value_def algebra_simps)

lemma row_value_appended: "row_value (r1 @ r2) x = row_value r1 x + row_value r2 x"
  by (simp add: row_value_def)

lemma term_coeff_member: "term_coeff c row \<noteq> 0 \<Longrightarrow> distinct_cols row \<Longrightarrow> (c, term_coeff c row) \<in> set row"
proof (induction row)
  case (Cons e row)
  have "filter (\<lambda>e. fst e = c) row = []" if "c \<notin> fst ` set row"
    using that by (induction row) auto
  then have other: "filter (\<lambda>e. fst e = c) row = []" if "fst e = c" using Cons.prems(2) that by auto
  show ?case
    using Cons other by (cases e) (auto simp: term_coeff_def)
qed (simp add: term_coeff_def)

lemma eliminated_value:
  assumes "solves_for st c eq" and "0 \<le> epsilon num" and "length x = nColsOriginal st"
  shows "\<bar>form_value f (solve_in_row num c eq side x) - form_value (eliminate c eq side f) x\<bar> \<le>
    \<bar>term_coeff c (fst f) / term_coeff c eq\<bar> * epsilon num"
proof -
  let ?A = "term_coeff c eq" and ?B = "term_coeff c (fst f)" and ?v = "solve_for_column num (equality_terms c eq side x)"
  have a: "?A \<noteq> 0" "c < length x" "distinct_cols eq" using assms(1,3) by (simp_all add: solves_for_def)
  have res: "\<bar>?A * ?v + row_value (rest_of_row c eq) x - side\<bar> \<le> epsilon num"
    using solve_in_row_residual [OF assms(2) a(3) term_coeff_member [OF a(1,3)] a(1,2), of side]
    by (simp add: solve_in_row_def row_value_term [OF a(2)])
  let ?R = "row_value (rest_of_row c eq) x"
  have old: "form_value f (solve_in_row num c eq side x) = ?B * ?v + row_value (rest_of_row c (fst f)) x + snd f"
    by (simp add: form_value_def solve_in_row_def row_value_term [OF a(2)])
  have new: "form_value (eliminate c eq side f) x =
      row_value (rest_of_row c (fst f)) x + - (?B / ?A) * ?R + (snd f + ?B / ?A * side)"
    unfolding form_value_def eliminate_def Let_def fst_conv snd_conv row_value_appended row_value_scaled ..
  have "form_value f (solve_in_row num c eq side x) - form_value (eliminate c eq side f) x =
      ?B / ?A * (?A * ?v + ?R - side)"
    unfolding old new using a(1) by (simp add: field_simps)
  then show ?thesis using mult_left_mono [OF res, of "\<bar>?B / ?A\<bar>"] by (simp add: abs_mult)
qed

lemma rest_of_row_other: "c \<noteq> d \<Longrightarrow> term_coeff c (rest_of_row d row) = term_coeff c row"
  "rest_of_row c (rest_of_row d row) = rest_of_row d (rest_of_row c row)"
  by (induction row) (auto simp: term_coeff_def rest_of_row_def)

lemma merged_value:
  assumes "o1 < length x" and "o2 < length x" and "o1 \<noteq> o2" and "term_coeff o1 (fst f) = sc * term_coeff o2 (fst f)"
    and "sc * v1 + v2 = x ! o2"
  shows "form_value f (x[o1 := v1, o2 := v2]) = form_value (rest_of_row o1 (fst f), snd f) x"
proof -
  have "row_value (fst f) (x[o1 := v1, o2 := v2]) =
      term_coeff o2 (fst f) * v2 + row_value (rest_of_row o2 (fst f)) (x[o1 := v1])"
    using assms(2) by (simp add: row_value_term)
  moreover have "row_value (rest_of_row o2 (fst f)) (x[o1 := v1]) =
      term_coeff o1 (rest_of_row o2 (fst f)) * v1 + row_value (rest_of_row o1 (rest_of_row o2 (fst f))) x"
    by (rule row_value_term [OF assms(1)])
  moreover note row_value_at [of "rest_of_row o1 (fst f)" x o2] rest_of_row_other(2) [of o1 o2 "fst f"]
    rest_of_row_other(1) [OF assms(3), of "fst f"] rest_of_row_other(1) [OF assms(3) [symmetric], of "fst f"]
  ultimately have "row_value (fst f) (x[o1 := v1, o2 := v2]) - row_value (rest_of_row o1 (fst f)) x =
      term_coeff o2 (fst f) * (sc * v1 + v2 - x ! o2)"
    using assms(4) by (simp add: algebra_simps)
  then show ?thesis using assms(5) by (simp add: form_value_def)
qed

lemma lift_call_form:
  assumes "row_reducible st c f" and "0 \<le> epsilon num" and "length x = nColsOriginal st"
  shows "\<bar>form_value f (lift_call num p0 st c x) - form_value (reduced_form st c f) x\<bar> \<le> form_error num st c f"
proof (cases c)
  case (ParallelCols c1 i1 li1 l1 ui1 u1 c2 i2 li2 l2 ui2 u2 sc)
  let ?o1 = "origcol_mapping st ! c1" and ?o2 = "origcol_mapping st ! c2"
  obtain v1 v2 where v: "parallel_col_values num (bound_flags i1 li1 ui1) (bound_flags i2 li2 ui2) l1 u1 l2 u2 sc (x ! ?o2) = (v1, v2)"
    by fastforce
  have red: "?o1 < length x" "?o2 < length x" "?o1 \<noteq> ?o2" "sc \<noteq> 0" "i1 \<or> \<not> i2"
    "term_coeff ?o1 (fst f) = sc * term_coeff ?o2 (fst f)"
    using assms(1,3) by (simp_all add: ParallelCols Let_def)
  have "sc * v1 + v2 = x ! ?o2"
    using v red(4,5) split_integral_sum split_continuous_sum by (simp add: parallel_col_values_def split: if_splits)
  from merged_value [OF red(1-3,6) this] show ?thesis by (simp add: ParallelCols v)
next
  case (FixedInfCol col val b binf p)
  have c: "origcol_mapping st ! col < length x" using assms(1,3) by (simp add: FixedInfCol)
  have "form_value f (x[origcol_mapping st ! col := v]) = form_value f x" for v
    using row_value_term [OF c, of "fst f" v] row_value_at [of "fst f" x "origcol_mapping st ! col"] assms(1)
    by (simp add: FixedInfCol form_value_def)
  then show ?thesis by (simp add: FixedInfCol Let_def)
qed (use assms eliminated_value in \<open>simp_all add: form_value_def row_value_term Let_def\<close>)

lemma length_lift_call [simp]: "length (lift_call num p0 st c x) = length x"
  by (cases c) (simp_all add: solve_in_row_def Let_def split: prod.split)

lemma length_lift_calls [simp]: "length (lift_calls num p0 st cs x) = length x"
  by (induction cs arbitrary: st) simp_all

lemma perform_nColsOriginal [simp]: "nColsOriginal (perform c st) = nColsOriginal st"
proof (cases "\<exists>rowm colm. c = Compress rowm colm")
  case True
  then show ?thesis by (auto simp: storage_compress_def)
next
  case False
  then show ?thesis using perform_mapping [where c = c and st = st] by blast
qed

lemma perform_all_nColsOriginal [simp]: "nColsOriginal (perform_all cs st) = nColsOriginal st"
  by (induction cs arbitrary: st) simp_all

lemma lift_calls_form:
  assumes "all_reducible st calls f" and "0 \<le> epsilon num" and "length x = nColsOriginal st"
  shows "\<bar>form_value f (lift_calls num p0 st calls x) - form_value (reduced_forms st calls f) x\<bar> \<le> forms_error num st calls f"
  using assms(1,3)
proof (induction calls arbitrary: st f)
  case (Cons c cs)
  have "\<bar>form_value (reduced_form st c f) (lift_calls num p0 (perform c st) cs x) -
      form_value (reduced_forms (perform c st) cs (reduced_form st c f)) x\<bar> \<le> forms_error num (perform c st) cs (reduced_form st c f)"
    using Cons by simp
  moreover have "\<bar>form_value f (lift_call num p0 st c (lift_calls num p0 (perform c st) cs x)) -
      form_value (reduced_form st c f) (lift_calls num p0 (perform c st) cs x)\<bar> \<le> form_error num st c f"
    using lift_call_form [OF _ assms(2), of st c f] Cons.prems by simp
  ultimately show ?case by simp
qed simp


definition ex_run :: "store_call list" where
  "ex_run = [SubstitutionEquality 1 [(0, 2), (1, 1)] 5, FixedCol 0 2 [] []]"


text \<open>
  Undoing a fixed column restores exactly the value it was fixed to and no other primal value.
\<close>

lemma undo_fixed_column_restores_value:
  assumes "primal_setting st red s0" and "col < length (origcol_mapping st)"
  shows "restored num [FixedCol col val colvec cost] st red s0 =
    (written st red)[origcol_mapping st ! col := val] \<and>
    restored num [FixedCol col val colvec cost] st red s0 ! (origcol_mapping st ! col) = val"
  using restored_single [OF assms(1), of "FixedCol col val colvec cost" num] assms
    orig_less [of st col] by (simp add: primal_setting_def)

text \<open>
  C2. Refinement: undoing the encoded log of a presolve run is the composition, in reverse order, of
  the lifts of the stored reductions, applied to the reduced solution written at its original
  indices. The segments, their borders and the index encodings drop out of the result.
\<close>

theorem undo_refines_lifts:
  assumes "storage_ok st" and "ps_types st = []" and "postsolveType st = kPrimal"
    and "sol_type red = kPrimalOnly" and "primal_run s0" and "fin = perform_all calls st"
  shows "primal (fst (undo_all num cb red fin s0)) =
    lift_calls num (ps_problem st) st calls
      (scatter 0 (nColsOriginal fin) (origcol_mapping fin) (primal red))"
  using undo_all_lifts [OF assms] .

theorem undo_refines_lifts_witness:
  "primal (fst (undo_all exact_num False ex_reduced (perform_all ex_run (new_storage_sized 1 2 ex_problem))
     (new_solution kPrimalOnly []))) =
   lift_calls exact_num ex_problem (new_storage_sized 1 2 ex_problem) ex_run [3, 4]"
proof -
  have s: "storage_ok (new_storage_sized 1 2 ex_problem)" "primal_run (new_solution kPrimalOnly [])"
    "ps_types (new_storage_sized 1 2 ex_problem) = []" "postsolveType (new_storage_sized 1 2 ex_problem) = kPrimal"
    "ps_problem (new_storage_sized 1 2 ex_problem) = ex_problem" "sol_type ex_reduced = kPrimalOnly"
    using ex_setting [of 2 ex_problem] by (simp_all add: primal_setting_def new_storage_sized_def)
  have w: "written (perform_all ex_run (new_storage_sized 1 2 ex_problem)) ex_reduced = [3, 4]"
    by (simp add: written_def ex_run_def new_storage_sized_def storeSubstitution_equality_def push_type_def
        push_back_def finishStorage_def storeFixedCol_def Let_def ex_reduced_def new_solution_def
        scatter_def upt_rec numeral_2_eq_2)
  show ?thesis
    using undo_refines_lifts [OF s(1,3,4,6,2) refl, of exact_num False ex_run] w s(5)
    by (simp add: written_def)
qed

end
