(* ===== verification/Pap_Validation.thy ===== *)
theory Pap_Validation
  imports Pap_Postsolve
begin

text \<open>
  \<open>PrimalDualSolValidation\<close> (\<open>misc/PrimalDualSolValidation.hpp\<close>): the checks that postsolve runs on
  the solution it has restored. As in the code a check answers true when it FAILS. The messages are
  not modelled. The last section closes \<open>Postsolve::undo\<close> with the status it returns.
\<close>

datatype PostsolveStatus = kOk | kFailed

section \<open>Primal checks\<close>

definition checkLength :: "solution \<Rightarrow> problem \<Rightarrow> bool" where
  "checkLength s p =
     (let primal_check = length (primal s) \<noteq> getNCols p
      in if sol_type s = kPrimalDual
         then primal_check \<or> length (reducedCosts s) \<noteq> getNCols p \<or> length (dual s) \<noteq> getNRows p
         else primal_check)"

definition col_bound_violated :: "Num \<Rightarrow> rat list \<Rightarrow> problem \<Rightarrow> nat \<Rightarrow> bool" where
  "col_bound_violated num x p col \<longleftrightarrow>
     \<not> flags_test (prob_cflags p ! col) [kInactive] \<and>
     ((\<not> flags_test (prob_cflags p ! col) [kLbInf] \<and> isFeasLT num (x ! col) (prob_lbs p ! col)) \<or>
      (\<not> flags_test (prob_cflags p ! col) [kUbInf] \<and> isFeasGT num (x ! col) (prob_ubs p ! col)))"

definition checkPrimalBounds :: "Num \<Rightarrow> rat list \<Rightarrow> problem \<Rightarrow> bool" where
  "checkPrimalBounds num x p = list_ex (col_bound_violated num x p) [0..<getNCols p]"

text \<open>The value of a row over the columns that do not carry the flag \<open>fl\<close>.\<close>

definition active_row_value :: "flag \<Rightarrow> problem \<Rightarrow> rat list \<Rightarrow> nat \<Rightarrow> rat" where
  "active_row_value fl p x row =
     foldl (\<lambda>v (c, a). if flags_test (prob_cflags p ! c) [fl] then v else v + a * x ! c) 0 (row_coeffs p ! row)"

fun checkPrimalRows :: "Num \<Rightarrow> problem \<Rightarrow> nat list \<Rightarrow> solution \<Rightarrow> bool \<times> solution" where
  "checkPrimalRows num p [] s = (False, s)"
| "checkPrimalRows num p (row # rows) s =
     (if flags_test (row_flags p ! row) [kRedundantRow] then checkPrimalRows num p rows s
      else let rowValue = active_row_value kInactive p (primal s) row
           in if \<not> flags_test (row_flags p ! row) [kLhsInf] \<and> isFeasLT num rowValue (lhs_values p ! row)
              then (True, s)
              else if \<not> flags_test (row_flags p ! row) [kRhsInf] \<and> isFeasGT num rowValue (rhs_values p ! row)
              then (True, s)
              else checkPrimalRows num p rows
                (if sol_type s = kPrimalDual
                 then s\<lparr>slack := (slack s)[row := if isFeasZero num rowValue then 0 else rowValue]\<rparr>
                 else s))"

definition checkPrimalConstraintAndUpdateSlack :: "Num \<Rightarrow> solution \<Rightarrow> problem \<Rightarrow> bool \<times> solution" where
  "checkPrimalConstraintAndUpdateSlack num s p =
     checkPrimalRows num p [0..<getNRows p]
       (if sol_type s = kPrimalDual then s\<lparr>slack := replicate (getNRows p) 0\<rparr> else s)"

definition checkPrimalFeasibilityAndUpdateSlack :: "Num \<Rightarrow> solution \<Rightarrow> problem \<Rightarrow> bool \<times> solution" where
  "checkPrimalFeasibilityAndUpdateSlack num s p =
     (let primalBounds = checkPrimalBounds num (primal s) p
      in case checkPrimalConstraintAndUpdateSlack num s p of
           (primalConstraint, s') \<Rightarrow> (primalBounds \<or> primalConstraint, s'))"

section \<open>Dual checks\<close>

definition col_dual_value :: "problem \<Rightarrow> rat list \<Rightarrow> nat \<Rightarrow> rat" where
  "col_dual_value p y col = stable_sum 0 (map (\<lambda>(r, a). y ! r * a) (col_coeffs p ! col))"

definition checkDualFeasibility :: "Num \<Rightarrow> rat list \<Rightarrow> rat list \<Rightarrow> problem \<Rightarrow> bool" where
  "checkDualFeasibility num y z p =
     list_ex (\<lambda>col. \<not> flags_test (prob_cflags p ! col) [kInactive] \<and>
        \<not> isFeasEq num (col_dual_value p y col + z ! col) (obj_coeffs p ! col)) [0..<getNCols p]"

text \<open>The tests of one row, branch by branch as the source has them.\<close>

definition row_slackness_violated :: "Num \<Rightarrow> problem \<Rightarrow> rat list \<Rightarrow> rat list \<Rightarrow> nat \<Rightarrow> bool" where
  "row_slackness_violated num p x y row =
     (if flags_test (row_flags p ! row) [kRedundantRow] then False
      else let rowValue = active_row_value kFixed p x row;
               lhs = lhs_values p ! row; rhs = rhs_values p ! row;
               lhsInf = flags_test (row_flags p ! row) [kLhsInf];
               rhsInf = flags_test (row_flags p ! row) [kRhsInf]
           in if \<not> lhsInf \<and> \<not> rhsInf
              then isFeasGT num lhs rowValue \<and> isFeasLT num rhs rowValue \<and> \<not> isFeasZero num (y ! row)
              else if \<not> lhsInf
              then isFeasGT num lhs rowValue \<and> \<not> isFeasZero num (y ! row)
              else if \<not> lhsInf \<and> isFeasGT num rowValue lhs
              then isFeasLT num rhs rowValue \<and> \<not> isFeasZero num (y ! row)
              else False)"

definition col_slackness_violated :: "Num \<Rightarrow> problem \<Rightarrow> rat list \<Rightarrow> rat list \<Rightarrow> nat \<Rightarrow> bool" where
  "col_slackness_violated num p x z col =
     (if flags_test (prob_cflags p ! col) [kInactive] then False
      else let isLbInf = flags_test (prob_cflags p ! col) [kLbInf];
               isUbInf = flags_test (prob_cflags p ! col) [kUbInf];
               ub = prob_ubs p ! col; lb = prob_lbs p ! col; sol = x ! col
           in if isFeasEq num ub lb \<and> \<not> isLbInf \<and> \<not> isUbInf then False
              else if \<not> isLbInf \<and> \<not> isUbInf
              then isFeasGT num sol lb \<and> isFeasLT num sol ub \<and> \<not> isFeasZero num (z ! col)
              else if \<not> isLbInf then isFeasGT num sol lb \<and> \<not> isFeasZero num (z ! col)
              else if \<not> isUbInf then isFeasLT num sol ub \<and> \<not> isFeasZero num (z ! col)
              else False)"

definition checkComplementarySlackness :: "Num \<Rightarrow> rat list \<Rightarrow> rat list \<Rightarrow> rat list \<Rightarrow> problem \<Rightarrow> bool" where
  "checkComplementarySlackness num x y z p \<longleftrightarrow>
     list_ex (row_slackness_violated num p x y) [0..<getNRows p] \<or>
     list_ex (col_slackness_violated num p x z) [0..<getNCols p]"

section \<open>The basis\<close>

text \<open>
  One status against its bounds: \<open>None\<close> when the test fails, else whether the index counts as basic.
  \<open>d\<close> is the reduced cost or dual value, \<open>v\<close> the primal value or slack.
\<close>

definition basis_status_ok :: "Num \<Rightarrow> VarBasisStatus \<Rightarrow> bool \<Rightarrow> bool \<Rightarrow> rat \<Rightarrow> rat \<Rightarrow> rat \<Rightarrow> rat \<Rightarrow> nat option" where
  "basis_status_ok num b low_inf up_inf low up v d =
     (case b of
        BASIC \<Rightarrow> if \<not> isFeasZero num d then None else Some 1
      | FIXED \<Rightarrow> if up_inf \<or> low_inf \<or> \<not> isFeasEq num low up \<or> \<not> isFeasEq num v up then None else Some 0
      | ON_LOWER \<Rightarrow> if low_inf \<or> \<not> isFeasEq num v low then None else Some 0
      | ON_UPPER \<Rightarrow> if up_inf \<or> \<not> isFeasEq num v up then None else Some 0
      | ZERO \<Rightarrow> if \<not> low_inf \<or> \<not> up_inf \<or> \<not> isFeasZero num v then None else Some 0
      | UNDEFINED \<Rightarrow> None)"

fun basis_count :: "(nat \<Rightarrow> bool) \<Rightarrow> (nat \<Rightarrow> nat option) \<Rightarrow> nat list \<Rightarrow> nat \<Rightarrow> nat option" where
  "basis_count skip status [] n = Some n"
| "basis_count skip status (i # is) n =
     (if skip i then basis_count skip status is n
      else case status i of None \<Rightarrow> None | Some k \<Rightarrow> basis_count skip status is (n + k))"

definition col_basis_status :: "Num \<Rightarrow> solution \<Rightarrow> problem \<Rightarrow> nat \<Rightarrow> nat option" where
  "col_basis_status num s p c =
     basis_status_ok num (varBasisStatus s ! c) (flags_test (prob_cflags p ! c) [kLbInf])
       (flags_test (prob_cflags p ! c) [kUbInf]) (prob_lbs p ! c) (prob_ubs p ! c) (primal s ! c) (reducedCosts s ! c)"

definition row_basis_status :: "Num \<Rightarrow> solution \<Rightarrow> problem \<Rightarrow> nat \<Rightarrow> nat option" where
  "row_basis_status num s p r =
     basis_status_ok num (rowBasisStatus s ! r) (flags_test (row_flags p ! r) [kLhsInf])
       (flags_test (row_flags p ! r) [kRhsInf]) (lhs_values p ! r) (rhs_values p ! r) (slack s ! r) (dual s ! r)"

definition checkBasis :: "Num \<Rightarrow> solution \<Rightarrow> problem \<Rightarrow> bool" where
  "checkBasis num s p =
     (if \<not> basisAvailabe s then False
      else case basis_count (\<lambda>c. flags_test (prob_cflags p ! c) [kInactive]) (col_basis_status num s p)
                  [0..<getNCols p] 0 of
        None \<Rightarrow> True
      | Some n \<Rightarrow>
          (case basis_count (\<lambda>r. flags_test (row_flags p ! r) [kRedundantRow]) (row_basis_status num s p)
                  [0..<getNRows p] n of
             None \<Rightarrow> True
           | Some n' \<Rightarrow>
               n' \<noteq> length (filter (\<lambda>r. \<not> flags_test (row_flags p ! r) [kRedundantRow]) [0..<getNRows p])))"

section \<open>The duality gap and the verdict\<close>

definition dual_objective :: "problem \<Rightarrow> rat list \<Rightarrow> rat list \<Rightarrow> rat" where
  "dual_objective p y z =
     stable_sum 0
       (map (\<lambda>i. y ! i * (if y ! i < 0 then rhs_values p ! i else lhs_values p ! i)) [0..<getNRows p] @
        map (\<lambda>i. z ! i * (if z ! i < 0 then prob_ubs p ! i else prob_lbs p ! i)) [0..<getNCols p])"

definition getDualityGap :: "rat list \<Rightarrow> rat list \<Rightarrow> rat list \<Rightarrow> problem \<Rightarrow> rat" where
  "getDualityGap x y z p =
     stable_sum 0 (map (\<lambda>i. x ! i * obj_coeffs p ! i) [0..<getNCols p]) - dual_objective p y z"

definition checkObjectiveFunction :: "Num \<Rightarrow> rat list \<Rightarrow> rat list \<Rightarrow> rat list \<Rightarrow> problem \<Rightarrow> bool" where
  "checkObjectiveFunction num x y z p = (\<not> isFeasZero num (getDualityGap x y z p))"

text \<open>The outcome of \<open>checkObjectiveFunction\<close> is only reported in a message.\<close>

definition verifySolutionAndUpdateSlack :: "Num \<Rightarrow> solution \<Rightarrow> problem \<Rightarrow> PostsolveStatus \<times> solution" where
  "verifySolutionAndUpdateSlack num s p =
     (if checkLength s p then (kFailed, s)
      else case checkPrimalFeasibilityAndUpdateSlack num s p of
        (failure, s1) \<Rightarrow>
          if failure then (kFailed, s1)
          else if sol_type s1 = kPrimalDual
          then let f1 = checkDualFeasibility num (dual s1) (reducedCosts s1) p;
                   f2 = checkComplementarySlackness num (primal s1) (dual s1) (reducedCosts s1) p;
                   f3 = checkBasis num s1 p
               in (if f1 \<or> f2 \<or> f3 then kFailed else kOk, s1)
          else (kOk, s1))"

text \<open>\<open>Postsolve::undo\<close>: the restored solution is validated against the original problem.\<close>

definition undo ::
  "Num \<Rightarrow> bool \<Rightarrow> solution \<Rightarrow> postsolve_storage \<Rightarrow> solution \<Rightarrow> PostsolveStatus \<times> solution" where
  "undo num calc_basis red st s0 =
     (case undo_all num calc_basis red st s0 of
        (s, b) \<Rightarrow> verifySolutionAndUpdateSlack num s (ps_problem st))"

section \<open>What an accepted solution satisfies\<close>

lemma checkPrimalRows_sel: "primal (snd (checkPrimalRows num p rows s)) = primal s"
  "dual (snd (checkPrimalRows num p rows s)) = dual s"
  "reducedCosts (snd (checkPrimalRows num p rows s)) = reducedCosts s"
  "sol_type (snd (checkPrimalRows num p rows s)) = sol_type s"
  "length (slack (snd (checkPrimalRows num p rows s))) = length (slack s)"
  by (induction rows arbitrary: s) (simp_all add: Let_def)

lemma checkPrimalRows_accepts:
  assumes "\<not> fst (checkPrimalRows num p rows s)" and "row \<in> set rows"
    and "\<not> flags_test (row_flags p ! row) [kRedundantRow]"
  shows "(\<not> flags_test (row_flags p ! row) [kLhsInf] \<longrightarrow>
      \<not> isFeasLT num (active_row_value kInactive p (primal s) row) (lhs_values p ! row)) \<and>
    (\<not> flags_test (row_flags p ! row) [kRhsInf] \<longrightarrow>
      \<not> isFeasGT num (active_row_value kInactive p (primal s) row) (rhs_values p ! row))"
  using assms
proof (induction rows arbitrary: s)
  case (Cons r rows)
  let ?v = "active_row_value kInactive p (primal s) r"
  let ?s = "if \<not> flags_test (row_flags p ! r) [kRedundantRow] \<and> sol_type s = kPrimalDual
    then s\<lparr>slack := (slack s)[r := if isFeasZero num ?v then 0 else ?v]\<rparr> else s"
  have next_row: "\<not> fst (checkPrimalRows num p rows ?s)"
    using Cons.prems(1) by (simp add: Let_def split: if_splits)
  show ?case
  proof (cases "r = row")
    case True
    with Cons.prems(1,3) show ?thesis by (auto simp: Let_def split: if_splits)
  next
    case False
    with Cons.prems(2) have "row \<in> set rows" by simp
    with Cons.IH [OF next_row _ Cons.prems(3)] show ?thesis by (simp split: if_splits)
  qed
qed simp

text \<open>Without columns that carry the flag the value is the value of the row.\<close>

lemma active_row_value_eq:
  assumes "\<forall>(c, a) \<in> set (row_coeffs p ! row). \<not> flags_test (prob_cflags p ! c) [fl]"
  shows "active_row_value fl p x row = row_value (row_coeffs p ! row) x"
proof -
  have "foldl (\<lambda>v (c, a). if flags_test (prob_cflags p ! c) [fl] then v else v + a * x ! c) v0 es =
      v0 + row_value es x" if "\<forall>(c, a) \<in> set es. \<not> flags_test (prob_cflags p ! c) [fl]" for v0 es
    using that by (induction es arbitrary: v0) (auto simp: row_value_def)
  from this [OF assms, of 0] show ?thesis by (simp add: active_row_value_def)
qed

lemma feas_cmp_bounds:
  assumes "num_ok num" and "useabsfeas num"
  shows "\<not> isFeasLT num a b \<Longrightarrow> b - feastol num \<le> a" "\<not> isFeasGT num a b \<Longrightarrow> a \<le> b + feastol num"
  using assms by (auto simp: isFeas_defs num_ok_def)

lemma verify_sel:
  "primal (snd (verifySolutionAndUpdateSlack num s p)) = primal s"
  "dual (snd (verifySolutionAndUpdateSlack num s p)) = dual s"
  "reducedCosts (snd (verifySolutionAndUpdateSlack num s p)) = reducedCosts s"
  "sol_type (snd (verifySolutionAndUpdateSlack num s p)) = sol_type s"
  by (simp_all add: verifySolutionAndUpdateSlack_def checkPrimalFeasibilityAndUpdateSlack_def
      checkPrimalConstraintAndUpdateSlack_def checkPrimalRows_sel Let_def split: prod.split)
    (auto simp: checkPrimalRows_sel dest!: arg_cong [of "checkPrimalRows num p _ _" _ snd])

lemma verify_ok_checks:
  assumes "fst (verifySolutionAndUpdateSlack num s p) = kOk"
  shows "\<not> checkLength s p" and "\<not> checkPrimalBounds num (primal s) p"
    and "\<exists>s'. primal s' = primal s \<and> \<not> fst (checkPrimalRows num p [0..<getNRows p] s')"
    and "sol_type s = kPrimalDual \<Longrightarrow> \<not> checkDualFeasibility num (dual s) (reducedCosts s) p \<and>
      \<not> checkComplementarySlackness num (primal s) (dual s) (reducedCosts s) p"
proof -
  let ?s0 = "if sol_type s = kPrimalDual then s\<lparr>slack := replicate (getNRows p) 0\<rparr> else s"
  obtain f s1 where r: "checkPrimalRows num p [0..<getNRows p] ?s0 = (f, s1)" by fastforce
  have sel: "primal s1 = primal s" "dual s1 = dual s" "reducedCosts s1 = reducedCosts s" "sol_type s1 = sol_type s"
    using checkPrimalRows_sel [of num p "[0..<getNRows p]" ?s0] r by (simp_all split: if_splits)
  show "\<not> checkLength s p" using assms by (auto simp: verifySolutionAndUpdateSlack_def)
  then have ok: "\<not> checkPrimalBounds num (primal s) p \<and> \<not> f \<and>
      (sol_type s = kPrimalDual \<longrightarrow> \<not> checkDualFeasibility num (dual s) (reducedCosts s) p \<and>
        \<not> checkComplementarySlackness num (primal s) (dual s) (reducedCosts s) p)"
    using assms r sel
    by (auto simp: verifySolutionAndUpdateSlack_def checkPrimalFeasibilityAndUpdateSlack_def
        checkPrimalConstraintAndUpdateSlack_def Let_def split: if_splits)
  then show "\<not> checkPrimalBounds num (primal s) p"
    "sol_type s = kPrimalDual \<Longrightarrow> \<not> checkDualFeasibility num (dual s) (reducedCosts s) p \<and>
      \<not> checkComplementarySlackness num (primal s) (dual s) (reducedCosts s) p" by blast+
  have "primal ?s0 = primal s" by simp
  with ok r show "\<exists>s'. primal s' = primal s \<and> \<not> fst (checkPrimalRows num p [0..<getNRows p] s')"
    by (intro exI [of _ ?s0]) simp
qed

definition no_inactive :: "problem \<Rightarrow> bool" where
  "no_inactive p \<longleftrightarrow> (\<forall>c<getNCols p. \<not> flags_test (prob_cflags p ! c) [kInactive])"

lemma problem_row_cols:
  assumes "problem_ok p" and "r < getNRows p" and "(c, a) \<in> set (row_coeffs p ! r)"
  shows "c < getNCols p"
  using assms nth_mem [of r "row_coeffs p"] by (fastforce simp: problem_ok_def matrix_ok_def getNRows_def)

lemma verified_bounds:
  assumes "num_ok num" and "useabsfeas num" and "no_inactive p" and "\<not> checkPrimalBounds num x p"
    and "c < getNCols p"
  shows "(flags_test (prob_cflags p ! c) [kLbInf] \<or> prob_lbs p ! c - feastol num \<le> x ! c) \<and>
    (flags_test (prob_cflags p ! c) [kUbInf] \<or> x ! c \<le> prob_ubs p ! c + feastol num)"
  using assms(3-5) feas_cmp_bounds [OF assms(1,2)]
  by (fastforce simp: checkPrimalBounds_def col_bound_violated_def no_inactive_def list_ex_iff)

lemma verified_row:
  assumes "num_ok num" and "useabsfeas num" and "problem_ok p" and "no_inactive p"
    and "\<not> fst (checkPrimalRows num p [0..<getNRows p] s)"
    and "r < getNRows p" and "\<not> flags_test (row_flags p ! r) [kRedundantRow]"
  shows "satisfies_row (row_flags p ! r) (lhs_values p ! r - feastol num) (rhs_values p ! r + feastol num)
    (row_value (row_coeffs p ! r) (primal s))"
proof -
  have "active_row_value kInactive p (primal s) r = row_value (row_coeffs p ! r) (primal s)"
    using assms(4) problem_row_cols [OF assms(3,6)]
    by (intro active_row_value_eq) (auto simp: no_inactive_def)
  with checkPrimalRows_accepts [OF assms(5) _ assms(7)] assms(6) feas_cmp_bounds [OF assms(1,2)]
  show ?thesis by (auto simp: satisfies_row_def)
qed

lemma verified_dual:
  assumes "num_ok num" and "useabsfeas num" and "no_inactive p" and "\<not> checkDualFeasibility num y z p"
    and "c < getNCols p"
  shows "\<bar>col_dual_value p y c + z ! c - obj_coeffs p ! c\<bar> \<le> feastol num"
  using assms by (auto simp: checkDualFeasibility_def no_inactive_def list_ex_iff isFeas_defs abs_le_iff)

text \<open>
  C3. When \<open>undo\<close> reports \<open>kOk\<close> the restored solution has the right length and satisfies all bounds
  and all rows of the original problem up to the feasibility tolerance; a primal-dual solution moreover
  satisfies the dual equations up to that tolerance. (Integrality is not among the checks.)
\<close>

theorem undo_ok_feasible:
  assumes "num_ok num" and "useabsfeas num" and "problem_ok (ps_problem st)" and "no_inactive (ps_problem st)"
    and "undo num cb red st s0 = (kOk, s)"
  shows "length (primal s) = getNCols (ps_problem st) \<and>
    (\<forall>c<getNCols (ps_problem st).
      (flags_test (prob_cflags (ps_problem st) ! c) [kLbInf] \<or> prob_lbs (ps_problem st) ! c - feastol num \<le> primal s ! c) \<and>
      (flags_test (prob_cflags (ps_problem st) ! c) [kUbInf] \<or> primal s ! c \<le> prob_ubs (ps_problem st) ! c + feastol num)) \<and>
    (\<forall>r<getNRows (ps_problem st). \<not> flags_test (row_flags (ps_problem st) ! r) [kRedundantRow] \<longrightarrow>
      satisfies_row (row_flags (ps_problem st) ! r) (lhs_values (ps_problem st) ! r - feastol num)
        (rhs_values (ps_problem st) ! r + feastol num) (row_value (row_coeffs (ps_problem st) ! r) (primal s))) \<and>
    (sol_type s = kPrimalDual \<longrightarrow> (\<forall>c<getNCols (ps_problem st).
      \<bar>col_dual_value (ps_problem st) (dual s) c + reducedCosts s ! c - obj_coeffs (ps_problem st) ! c\<bar> \<le> feastol num))"
proof -
  obtain s1 b where u: "undo_all num cb red st s0 = (s1, b)" by fastforce
  with assms(5) have v: "verifySolutionAndUpdateSlack num s1 (ps_problem st) = (kOk, s)" by (simp add: undo_def)
  then have ok: "fst (verifySolutionAndUpdateSlack num s1 (ps_problem st)) = kOk" by simp
  have p: "primal s = primal s1" "dual s = dual s1" "reducedCosts s = reducedCosts s1" "sol_type s = sol_type s1"
    using verify_sel [of num s1 "ps_problem st"] v by simp_all
  obtain s' where s': "primal s' = primal s1"
    "\<not> fst (checkPrimalRows num (ps_problem st) [0..<getNRows (ps_problem st)] s')"
    using verify_ok_checks(3) [OF ok] by blast
  show ?thesis
    using verify_ok_checks(1,2) [OF ok] verified_bounds [OF assms(1,2,4)] p
      verified_row [OF assms(1-4) s'(2)] s'(1) verified_dual [OF assms(1,2,4)] verify_ok_checks(4) [OF ok]
    by (auto simp: checkLength_def Let_def split: if_splits)
qed

lemma ex_problem_ok: "problem_ok ex_problem" "no_inactive ex_problem"
  by (auto simp: problem_ok_def matrix_ok_def ex_problem_def getNCols_def getNRows_def col_of_matrix_def
      all_tracked_def tracks_def part_defs flags_test_def flag_defs less_Suc_eq no_inactive_def kInactive_def)

theorem undo_ok_feasible_witness:
  "fst (undo default_num False (new_solution kPrimalOnly [1, 2]) (new_storage ex_problem) (new_solution kPrimalOnly [])) = kOk \<and>
   5 - 1 / 10 ^ 6 \<le> row_value [(0, 1), (1, 2)] [1, 2]"
proof -
  let ?st = "new_storage ex_problem"
  have run: "undo default_num False (new_solution kPrimalOnly [1, 2]) ?st (new_solution kPrimalOnly []) =
      (kOk, new_solution kPrimalOnly [1, 2])" by code_simp
  have st: "ps_problem ?st = ex_problem" by (simp add: new_storage_def)
  have "num_ok default_num" "useabsfeas default_num" by code_simp+
  from undo_ok_feasible [OF this, of ?st False "new_solution kPrimalOnly [1, 2]" "new_solution kPrimalOnly []",
      OF _ _ run] ex_problem_ok
  have "satisfies_row kRhsInf (5 - 1 / 10 ^ 6) (1 / 10 ^ 6) (row_value [(0, 1), (1, 2)] [1, 2])"
    unfolding st by (simp add: ex_problem_def getNRows_def new_solution_def default_num_def flags_test_def flag_defs)
  with run show ?thesis by (simp add: satisfies_row_def flags_test_def flag_defs)
qed

section \<open>Complementary slackness of the rows is never tested\<close>

text \<open>
  C39. The row part of \<open>checkComplementarySlackness\<close> cannot fail on a solution that has passed the
  primal checks: it asks for an activity that lies below the left and above the right hand side, or
  below the only side. Whatever the dual values are, rows with slack on both sides included, they are
  accepted.
\<close>

theorem row_slackness_never_fails:
  assumes "num_ok num" and "problem_ok p" and "no_inactive p"
    and "\<And>r. r < getNRows p \<Longrightarrow> \<not> flags_test (row_flags p ! r) [kLhsInf] \<Longrightarrow>
      \<not> flags_test (row_flags p ! r) [kRhsInf] \<Longrightarrow> lhs_values p ! r \<le> rhs_values p ! r"
    and "\<not> fst (checkPrimalConstraintAndUpdateSlack num s p)"
  shows "\<not> list_ex (row_slackness_violated num p (primal s) y) [0..<getNRows p]"
proof -
  have "\<not> row_slackness_violated num p (primal s) y r" if r: "r < getNRows p" for r
  proof (cases "flags_test (row_flags p ! r) [kRedundantRow]")
    case True
    then show ?thesis by (simp add: row_slackness_violated_def)
  next
    case False
    let ?s = "if sol_type s = kPrimalDual then s\<lparr>slack := replicate (getNRows p) 0\<rparr> else s"
    have val: "active_row_value fl p (primal s) r = row_value (row_coeffs p ! r) (primal s)"
      if "fl = kInactive \<or> fl = kFixed" for fl
      using that assms(3) problem_row_cols [OF assms(2) r]
      by (intro active_row_value_eq) (force simp: no_inactive_def flag_simps)
    have "\<not> fst (checkPrimalRows num p [0..<getNRows p] ?s)"
      using assms(5) by (simp add: checkPrimalConstraintAndUpdateSlack_def)
    from checkPrimalRows_accepts [OF this _ False] r
    have "\<not> flags_test (row_flags p ! r) [kLhsInf] \<longrightarrow>
        \<not> isFeasLT num (row_value (row_coeffs p ! r) (primal s)) (lhs_values p ! r)"
      by (simp add: val split: if_splits)
    moreover have "\<not> (isFeasGT num (lhs_values p ! r) v \<and> isFeasLT num (rhs_values p ! r) v)"
      if "lhs_values p ! r \<le> rhs_values p ! r" for v
      using feas.gt_greater [OF assms(1)] feas.lt_less [OF assms(1)] that by fastforce
    ultimately show ?thesis
      using assms(4) [OF r] by (auto simp: row_slackness_violated_def val Let_def feas.gt_iff)
  qed
  then show ?thesis by (auto simp: list_ex_iff)
qed

section \<open>Weak duality\<close>

lemma sparse_sum:
  assumes "distinct_cols es" and "\<forall>(k, v) \<in> set es. k < n"
  shows "sum_list (map (\<lambda>(k, v). v * g k) es) = (\<Sum>k<n. row_coeff es k * g k)"
  using assms
proof (induction es)
  case Nil
  then show ?case by (simp add: row_coeff_def)
next
  case (Cons e es)
  obtain k v where e: "e = (k, v)" by fastforce
  have absent: "row_coeff es k = 0"
    using Cons.prems(1) by (force simp: row_coeff_def e dest: map_of_SomeD split: option.split)
  have "row_coeff (e # es) j = (if j = k then v else row_coeff es j)" for j
    by (simp add: row_coeff_def e)
  then have "(\<Sum>j<n. row_coeff (e # es) j * g j) = (\<Sum>j<n. row_coeff es j * g j + (if j = k then v * g k else 0))"
    using absent by (intro sum.cong) auto
  also have "\<dots> = (\<Sum>j<n. row_coeff es j * g j) + v * g k"
    using Cons.prems(2) by (simp add: sum.distrib e)
  finally show ?case using Cons by (simp add: e)
qed

lemma row_coeff_transpose:
  assumes "matrix_ok n rows cols" and "c < n" and "r < length rows"
  shows "row_coeff (cols ! c) r = row_coeff (rows ! r) c"
proof -
  have col: "col_of_matrix rows c (cols ! c)" and row: "distinct_cols (rows ! r)"
    using assms nth_mem [of r rows] by (auto simp: matrix_ok_def)
  have "(c, v) \<in> set (rows ! r) \<longleftrightarrow> (r, v) \<in> set (cols ! c)" for v
    using col assms(3) by (auto simp: col_of_matrix_def)
  then have "map_of (rows ! r) c = Some v \<longleftrightarrow> map_of (cols ! c) r = Some v" for v
    using col row by (simp add: col_of_matrix_def)
  then have "map_of (rows ! r) c = map_of (cols ! c) r" by (metis option.exhaust)
  then show ?thesis by (simp add: row_coeff_def)
qed

text \<open>Summing the dual values over the columns or over the rows is the same.\<close>

lemma dual_sum_swap:
  assumes "problem_ok p"
  shows "(\<Sum>c<getNCols p. col_dual_value p y c * x ! c) = (\<Sum>r<getNRows p. y ! r * row_value (row_coeffs p ! r) x)"
proof -
  have mat: "matrix_ok (getNCols p) (row_coeffs p) (col_coeffs p)" using assms by (simp add: problem_ok_def)
  have col: "col_dual_value p y c = (\<Sum>r<getNRows p. row_coeff (row_coeffs p ! r) c * y ! r)" if "c < getNCols p" for c
  proof -
    have "col_of_matrix (row_coeffs p) c (col_coeffs p ! c)" using mat that by (simp add: matrix_ok_def)
    then have "sum_list (map (\<lambda>(r, v). v * y ! r) (col_coeffs p ! c)) = (\<Sum>r<getNRows p. row_coeff (col_coeffs p ! c) r * y ! r)"
      by (intro sparse_sum) (auto simp: col_of_matrix_def getNRows_def)
    also have "\<dots> = (\<Sum>r<getNRows p. row_coeff (row_coeffs p ! r) c * y ! r)"
      using row_coeff_transpose [OF mat that] by (simp add: getNRows_def)
    finally show ?thesis by (simp add: col_dual_value_def stable_sum_eq mult.commute)
  qed
  have row: "row_value (row_coeffs p ! r) x = (\<Sum>c<getNCols p. row_coeff (row_coeffs p ! r) c * x ! c)"
    if "r < getNRows p" for r
    unfolding row_value_def using mat that nth_mem [of r "row_coeffs p"]
    by (intro sparse_sum) (auto simp: matrix_ok_def getNRows_def)
  have "(\<Sum>c<getNCols p. col_dual_value p y c * x ! c) =
      (\<Sum>c<getNCols p. \<Sum>r<getNRows p. row_coeff (row_coeffs p ! r) c * y ! r * x ! c)"
    by (intro sum.cong) (simp_all add: col sum_distrib_right)
  also have "\<dots> = (\<Sum>r<getNRows p. \<Sum>c<getNCols p. row_coeff (row_coeffs p ! r) c * y ! r * x ! c)"
    by (rule sum.swap)
  also have "\<dots> = (\<Sum>r<getNRows p. y ! r * row_value (row_coeffs p ! r) x)"
    by (intro sum.cong) (simp_all add: row sum_distrib_left ac_simps)
  finally show ?thesis .
qed

lemma dual_objective_sums:
  "dual_objective p y z =
     (\<Sum>r<getNRows p. y ! r * (if y ! r < 0 then rhs_values p ! r else lhs_values p ! r)) +
     (\<Sum>c<getNCols p. z ! c * (if z ! c < 0 then prob_ubs p ! c else prob_lbs p ! c))"
  by (simp add: dual_objective_def stable_sum_eq interv_sum_list_conv_sum_set_nat atLeast0LessThan)

text \<open>The multipliers only use sides and bounds that exist.\<close>

definition finite_sides :: "problem \<Rightarrow> rat list \<Rightarrow> rat list \<Rightarrow> bool" where
  "finite_sides p y z \<longleftrightarrow>
     (\<forall>r<getNRows p. (y ! r < 0 \<longrightarrow> \<not> flags_test (row_flags p ! r) [kRhsInf]) \<and>
                      (y ! r > 0 \<longrightarrow> \<not> flags_test (row_flags p ! r) [kLhsInf])) \<and>
     (\<forall>c<getNCols p. (z ! c < 0 \<longrightarrow> \<not> flags_test (prob_cflags p ! c) [kUbInf]) \<and>
                      (z ! c > 0 \<longrightarrow> \<not> flags_test (prob_cflags p ! c) [kLbInf]))"

lemma weighted_side:
  fixes w v :: rat
  assumes "w < 0 \<Longrightarrow> v \<le> up" and "w > 0 \<Longrightarrow> low \<le> v"
  shows "w * (if w < 0 then up else low) \<le> w * v"
  using assms by (cases w "0 :: rat" rule: linorder_cases) (auto intro: mult_left_mono mult_left_mono_neg)

lemma weak_duality:
  assumes "problem_ok p" and "finite_sides p y z"
    and "\<And>c. c < getNCols p \<Longrightarrow> col_dual_value p y c + z ! c = obj_coeffs p ! c"
    and "rows_satisfied p x" and "in_domains (prob_domains p) x"
  shows "dual_objective p y z \<le> (\<Sum>c<getNCols p. x ! c * obj_coeffs p ! c)"
proof -
  have len: "length (prob_cflags p) = getNCols p" using assms(1) by (simp add: problem_ok_def)
  have rows: "y ! r * (if y ! r < 0 then rhs_values p ! r else lhs_values p ! r) \<le> y ! r * row_value (row_coeffs p ! r) x"
    if "r < getNRows p" for r
    using assms(2,4) that by (intro weighted_side) (auto simp: finite_sides_def rows_satisfied_def satisfies_row_def)
  have cols: "z ! c * (if z ! c < 0 then prob_ubs p ! c else prob_lbs p ! c) \<le> z ! c * x ! c" if "c < getNCols p" for c
    using assms(2,5) that len by (intro weighted_side) (auto simp: finite_sides_def in_domains_def in_col_domain_def)
  have "dual_objective p y z \<le> (\<Sum>r<getNRows p. y ! r * row_value (row_coeffs p ! r) x) + (\<Sum>c<getNCols p. z ! c * x ! c)"
    unfolding dual_objective_sums using rows cols by (intro add_mono sum_mono) auto
  also have "\<dots> = (\<Sum>c<getNCols p. (col_dual_value p y c + z ! c) * x ! c)"
    by (simp add: dual_sum_swap [OF assms(1), symmetric] sum.distrib distrib_right)
  also have "\<dots> = (\<Sum>c<getNCols p. x ! c * obj_coeffs p ! c)"
    using assms(3) by (intro sum.cong) simp_all
  finally show ?thesis .
qed

text \<open>
  C15. Postsolve certifies optimality in exact arithmetic: if \<open>undo\<close> returns \<open>kOk\<close> for a primal-dual
  solution, the duality gap it computes is zero and the multipliers use only finite sides and bounds,
  then no point satisfying the rows and bounds of the original problem has a smaller objective value.
\<close>

theorem zero_gap_certifies_optimality:
  assumes "problem_ok (ps_problem st)" and "no_inactive (ps_problem st)" and "feastol num = 0"
    and "undo num cb red st s0 = (kOk, s)" and "sol_type s = kPrimalDual"
    and "\<not> checkObjectiveFunction num (primal s) (dual s) (reducedCosts s) (ps_problem st)"
    and "finite_sides (ps_problem st) (dual s) (reducedCosts s)"
    and "rows_satisfied (ps_problem st) x" and "in_domains (prob_domains (ps_problem st)) x"
  shows "computeSolObjective (ps_problem st) (primal s) \<le> computeSolObjective (ps_problem st) x"
proof -
  let ?p = "ps_problem st"
  obtain s1 b where u: "undo_all num cb red st s0 = (s1, b)" by fastforce
  with assms(4) have v: "verifySolutionAndUpdateSlack num s1 ?p = (kOk, s)" by (simp add: undo_def)
  then have sel: "dual s = dual s1" "reducedCosts s = reducedCosts s1" "sol_type s = sol_type s1"
    using verify_sel [of num s1 ?p] by simp_all
  have "\<not> checkDualFeasibility num (dual s) (reducedCosts s) ?p"
    using verify_ok_checks(4) [of num s1 ?p] v sel assms(5) by simp
  then have "col_dual_value ?p (dual s) c + reducedCosts s ! c = obj_coeffs ?p ! c" if "c < getNCols ?p" for c
    using that assms(2,3) by (auto simp: checkDualFeasibility_def no_inactive_def list_ex_iff tol_simps)
  from weak_duality [OF assms(1,7) this assms(8,9)]
  have "dual_objective ?p (dual s) (reducedCosts s) \<le> (\<Sum>c<getNCols ?p. x ! c * obj_coeffs ?p ! c)" .
  moreover have "(\<Sum>c<getNCols ?p. primal s ! c * obj_coeffs ?p ! c) = dual_objective ?p (dual s) (reducedCosts s)"
    using assms(3,6) by (simp add: checkObjectiveFunction_def isFeasZero_def getDualityGap_def stable_sum_eq
        interv_sum_list_conv_sum_set_nat atLeast0LessThan)
  ultimately show ?thesis
    by (simp add: computeSolObjective_def stable_sum_eq interv_sum_list_conv_sum_set_nat atLeast0LessThan)
qed

definition ex_optimal :: solution where
  "ex_optimal = \<lparr>sol_type = kPrimalDual, primal = [0, 5 / 2], dual = [1 / 2], reducedCosts = [1 / 2, 0],
     slack = [5], basisAvailabe = False, varBasisStatus = [], rowBasisStatus = []\<rparr>"

theorem zero_gap_certifies_optimality_witness:
  "fst (undo exact_num False ex_optimal (new_storage ex_problem) (new_solution kPrimalOnly [])) = kOk \<and>
   computeSolObjective ex_problem [0, 5 / 2] \<le> computeSolObjective ex_problem [1, 2]"
proof -
  let ?st = "new_storage ex_problem"
  have run: "undo exact_num False ex_optimal ?st (new_solution kPrimalOnly []) = (kOk, ex_optimal)"
    by code_simp
  have st: "ps_problem ?st = ex_problem" by (simp add: new_storage_def)
  have facts: "feastol exact_num = 0" "sol_type ex_optimal = kPrimalDual"
    "\<not> checkObjectiveFunction exact_num (primal ex_optimal) (dual ex_optimal) (reducedCosts ex_optimal) ex_problem"
    by code_simp+
  have sides: "finite_sides ex_problem (dual ex_optimal) (reducedCosts ex_optimal)"
    by (simp add: finite_sides_def ex_problem_def ex_optimal_def getNRows_def getNCols_def less_Suc_eq
        numeral_2_eq_2 flags_test_def flag_defs)
  have feas: "rows_satisfied ex_problem [1, 2]" "in_domains (prob_domains ex_problem) [1, 2]"
    by (simp_all add: rows_satisfied_def in_domains_def ex_problem_def getNRows_def satisfies_row_def
        row_value_def in_col_domain_def less_Suc_eq numeral_2_eq_2 flags_test_def flag_defs)
  have "computeSolObjective ex_problem (primal ex_optimal) \<le> computeSolObjective ex_problem [1, 2]"
    using zero_gap_certifies_optimality [of ?st exact_num False ex_optimal "new_solution kPrimalOnly []" ex_optimal
        "[1, 2]", unfolded st, OF ex_problem_ok facts(1) run facts(2,3) sides feas] .
  with run show ?thesis by (simp add: ex_optimal_def)
qed

text \<open>A dual value on a row that is tight on neither side is accepted.\<close>

theorem row_slackness_never_fails_witness:
  "\<not> list_ex (row_slackness_violated default_num ex_problem [10, 10] [7]) [0..<1]"
proof -
  have "num_ok default_num" by simp
  moreover have "\<not> fst (checkPrimalConstraintAndUpdateSlack default_num (new_solution kPrimalOnly [10, 10]) ex_problem)"
    by code_simp
  ultimately show ?thesis
    using row_slackness_never_fails [of default_num ex_problem "new_solution kPrimalOnly [10, 10]" "[7]"] ex_problem_ok
    by (simp add: new_solution_def ex_problem_def getNRows_def flags_test_def flag_defs)
qed

end
