(* ===== verification/Pap_DualPostsolve.thy ===== *)
theory Pap_DualPostsolve
  imports Pap_Lift Pap_Validation
begin

text \<open>
  The dual side of postsolve. The reduced costs \<open>z\<close> and dual values \<open>y\<close> of a solution are consistent
  when \<open>A\<^sup>T y + z = c\<close> (\<open>stationary\<close>, column by column \<open>dual_equation\<close>). The lemmas show which
  steps establish the equation of the restored column and that undoing a bound change, which moves
  reduced cost into the dual value of the row that implied the bound, keeps all equations.
\<close>

section \<open>Stationarity\<close>

definition stationary :: "sparse_vec list \<Rightarrow> rat list \<Rightarrow> rat list \<Rightarrow> rat list \<Rightarrow> bool" where
  "stationary rows c y z \<longleftrightarrow>
     (\<forall>j<length c. (\<Sum>r<length rows. row_coeff (rows ! r) j * y ! r) + z ! j = c ! j)"

definition dual_equation :: "sparse_vec \<Rightarrow> rat \<Rightarrow> nat \<Rightarrow> solution \<Rightarrow> bool" where
  "dual_equation col c j s \<longleftrightarrow> sum_list (map (\<lambda>(r, a). a * dual s ! r) col) + reducedCosts s ! j = c"

lemma stationary_shift:
  assumes "stationary rows c y z" and "k < length rows" and "length y = length rows"
    and "\<And>j. j < length c \<Longrightarrow> z' ! j = z ! j - d * row_coeff (rows ! k) j"
  shows "stationary rows c (y[k := y ! k + d]) z'"
proof -
  have "(\<Sum>r<length rows. row_coeff (rows ! r) j * y[k := y ! k + d] ! r) =
      (\<Sum>r<length rows. row_coeff (rows ! r) j * y ! r + (if r = k then d * row_coeff (rows ! k) j else 0))" for j
    using assms(2,3) by (intro sum.cong) (auto simp: algebra_simps)
  then have "(\<Sum>r<length rows. row_coeff (rows ! r) j * y[k := y ! k + d] ! r) =
      (\<Sum>r<length rows. row_coeff (rows ! r) j * y ! r) + d * row_coeff (rows ! k) j" for j
    using assms(2) by (simp add: sum.distrib)
  with assms(1,4) show ?thesis by (simp add: stationary_def)
qed

section \<open>Undoing a bound change\<close>

lemma shift_redcost_sel [simp]:
  "dual (fst (shift_redcost num b col inc sn e)) = dual (fst sn)"
  "length (reducedCosts (fst (shift_redcost num b col inc sn e))) = length (reducedCosts (fst sn))"
  by (cases sn; cases e; simp add: shift_redcost_def Let_def)+

lemma shift_redcost_nth:
  "c < length (reducedCosts (fst sn)) \<Longrightarrow>
   reducedCosts (fst (shift_redcost num b col inc sn (c, v))) ! j =
     reducedCosts (fst sn) ! j - (if j = c \<and> c \<noteq> col then inc * v else 0)"
  by (cases sn) (simp add: shift_redcost_def Let_def)

lemma shift_redcost_fold:
  assumes "distinct_cols row" and "\<forall>(c, v) \<in> set row. c < length (reducedCosts (fst sn))"
  shows "dual (fst (foldl (shift_redcost num b col inc) sn row)) = dual (fst sn) \<and>
    length (reducedCosts (fst (foldl (shift_redcost num b col inc) sn row))) = length (reducedCosts (fst sn)) \<and>
    (\<forall>j. j \<noteq> col \<longrightarrow> reducedCosts (fst (foldl (shift_redcost num b col inc) sn row)) ! j =
      reducedCosts (fst sn) ! j - inc * row_coeff row j)"
  using assms
proof (induction row arbitrary: sn)
  case Nil
  then show ?case by (simp add: row_coeff_def)
next
  case (Cons e row)
  obtain c v where e: "e = (c, v)" by fastforce
  let ?sn = "shift_redcost num b col inc sn (c, v)"
  have absent: "row_coeff row c = 0"
    using Cons.prems(1) by (force simp: row_coeff_def e dest: map_of_SomeD split: option.split)
  have "row_coeff (e # row) j = (if j = c then v else row_coeff row j)" for j
    by (simp add: row_coeff_def e)
  moreover have "c < length (reducedCosts (fst sn))" using Cons.prems(2) e by simp
  ultimately show ?case
    using Cons.IH [of ?sn] Cons.prems shift_redcost_nth [of c sn] absent by (auto simp: e)
qed

definition saved_entries :: "saved_row \<Rightarrow> sparse_vec" where
  "saved_entries r = zip (sr_col_coefficients r) (sr_row_values r)"

lemma getCoeffOfCol_eq:
  assumes "length (sr_col_coefficients r) = sr_length r" and "length (sr_row_values r) = sr_length r"
  shows "getCoeffOfCol r col = row_coeff (saved_entries r) col"
proof -
  have "(case filter (\<lambda>j. cs ! j = col) [0..<length cs] of [] \<Rightarrow> 0 | j # _ \<Rightarrow> vs ! j) = row_coeff (zip cs vs) col"
    if "length cs = length vs" for cs :: "nat list" and vs
    using that
  proof (induction cs vs rule: list_induct2)
    case (Cons c cs v vs)
    have "filter (\<lambda>j. (c # cs) ! j = col) [0..<length (c # cs)] =
        (if c = col then [0] else []) @ map Suc (filter (\<lambda>j. cs ! j = col) [0..<length cs])"
      by (simp add: upt_conv_Cons map_Suc_upt [symmetric] filter_map o_def del: upt_Suc)
    with Cons.IH show ?case
      by (auto simp: row_coeff_def split: list.splits)
  qed (simp add: row_coeff_def)
  from this [of "sr_col_coefficients r" "sr_row_values r"] assms show ?thesis
    by (simp add: getCoeffOfCol_def saved_entries_def)
qed

lemma shift_duals_stationary:
  assumes "stationary rows c (dual s) (reducedCosts s)" and "sr_row r < length rows"
    and "saved_entries r = rows ! sr_row r" and "distinct_cols (saved_entries r)"
    and "\<forall>(j, v) \<in> set (saved_entries r). j < length c"
    and "length (sr_col_coefficients r) = sr_length r" and "length (sr_row_values r) = sr_length r"
    and "length (dual s) = length rows" and "length (reducedCosts s) = length c" and "col < length c"
    and "row_coeff (saved_entries r) col \<noteq> 0"
  shows "stationary rows c (dual (shift_duals num b r col s)) (reducedCosts (shift_duals num b r col s))"
proof -
  define inc where "inc = reducedCosts s ! col / getCoeffOfCol r col"
  define s1 where "s1 = set_dual (sr_row r) (dual s ! sr_row r + inc) s"
  define leaves where "leaves = (basisAvailabe s1 \<and> rowBasisStatus s1 ! sr_row r = BASIC \<and> \<not> isZero num (dual s1 ! sr_row r))"
  define s2 where "s2 = (if leaves then set_row_basis (sr_row r) (getVBS r) s1 else s1)"
  define sn where "sn = foldl (shift_redcost num b col inc) (s2, if leaves then 1 else 0) (saved_entries r)"
  have s2: "dual s2 = (dual s)[sr_row r := dual s ! sr_row r + inc]" "reducedCosts s2 = reducedCosts s"
    by (simp_all add: s2_def s1_def)
  have shift: "dual (shift_duals num b r col s) = dual (fst sn)"
    "reducedCosts (shift_duals num b r col s) = (reducedCosts (fst sn))[col := 0]"
    unfolding shift_duals_def Let_def case_prod_beta sn_def s2_def leaves_def s1_def inc_def saved_entries_def
    by simp_all
  have fold: "dual (fst sn) = dual s2" "length (reducedCosts (fst sn)) = length (reducedCosts s2)"
    "\<And>j. j \<noteq> col \<Longrightarrow> reducedCosts (fst sn) ! j = reducedCosts s2 ! j - inc * row_coeff (saved_entries r) j"
    using shift_redcost_fold [OF assms(4), of "(s2, if leaves then 1 else 0)" num b col inc] assms(5,9) s2(2)
    by (auto simp: sn_def)
  have "reducedCosts (shift_duals num b r col s) ! j = reducedCosts s ! j - inc * row_coeff (rows ! sr_row r) j"
    if "j < length c" for j
    using fold(2,3) that s2(2) assms(3,9-11) getCoeffOfCol_eq [OF assms(6,7)]
    by (cases "j = col") (auto simp: shift inc_def)
  from stationary_shift [OF assms(1,2,8) this] show ?thesis
    by (simp add: shift fold(1) s2(1))
qed

lemma new_saved_row_lengths [simp]:
  "length (sr_col_coefficients (new_saved_row i t st ind vals x)) = sr_length (new_saved_row i t st ind vals x)"
  "length (sr_row_values (new_saved_row i t st ind vals x)) = sr_length (new_saved_row i t st ind vals x)"
  by (simp_all add: new_saved_row_def Let_def)

lemma relax_var_basis_sel [simp]:
  "dual (relax_var_basis num t st ind vals i low col b s) = dual s"
  "reducedCosts (relax_var_basis num t st ind vals i low col b s) = reducedCosts s"
  by (auto simp: relax_var_basis_def remove_row_from_basis_def Let_def split: VarBasisStatus.split)

text \<open>
  Undoing a bound change that a row had implied keeps the dual equations: when the reduced cost of
  the column has the wrong sign for the relaxed bound it is moved into the dual value of the saved
  row, the reduced costs of all columns of the row are corrected, and \<open>A\<^sup>T y + z = c\<close> holds for every
  column as before.
\<close>

lemma var_bound_change_keeps_stationarity:
  assumes "stationary rows c (dual s) (reducedCosts s)"
    and "r = new_saved_row i types start indices vals (primal s)" and "sr_row r < length rows"
    and "saved_entries r = rows ! sr_row r" and "distinct_cols (saved_entries r)"
    and "\<forall>(j, v) \<in> set (saved_entries r). j < length c"
    and "length (dual s) = length rows" and "length (reducedCosts s) = length c"
    and "nat (indices ! (first + 1)) < length c"
    and "row_coeff (saved_entries r) (nat (indices ! (first + 1))) \<noteq> 0"
    and "apply_var_bound_change num types start indices vals i first (s, b) = (s', b')"
  shows "stationary rows c (dual s') (reducedCosts s')"
proof -
  let ?col = "nat (indices ! (first + 1))"
  have st: "stationary rows c (dual (shift_duals num b1 r ?col s)) (reducedCosts (shift_duals num b1 r ?col s))" for b1
    using shift_duals_stationary [OF assms(1,3-6) _ _ assms(7-10)] assms(2) by simp
  show ?thesis
    using assms(1,11) st unfolding assms(2) by (auto simp: apply_var_bound_change_def Let_def split: if_splits)
qed

section \<open>Restoring a column\<close>

definition orig_rows :: "postsolve_storage \<Rightarrow> sparse_vec \<Rightarrow> sparse_vec" where
  "orig_rows st col = map (\<lambda>(r, a). (origrow_mapping st ! r, a)) col"

lemma segment_at_rows:
  assumes "segment_at ind vals k (map (\<lambda>(r, v). orig_row st r) col) (map snd col)"
  shows "map (\<lambda>j. (nat (ind ! (k + j)), vals ! (k + j))) [0..<length col] = orig_rows st col"
  using segment_at_pairs [OF assms] by (simp add: orig_rows_def case_prod_beta)

lemma neg_sums:
  "(\<Sum>(r, v)\<leftarrow>es. - (v * f r)) = - (\<Sum>(r, v)\<leftarrow>es. v * f r)"
  "(\<Sum>(r, v)\<leftarrow>es. - (f r * v)) = - (\<Sum>(r, v)\<leftarrow>es. v * f r)" for es :: "('a \<times> rat) list"
  by (induction es) (auto simp: algebra_simps)

text \<open>
  Undoing a fixed column in a primal-dual solution gives it the reduced cost that satisfies its
  dual equation with the stored column and objective coefficient; no dual value changes.
\<close>

lemma fixed_column_dual_equation:
  assumes "storage_ok st'" and "i < length (ps_types st')"
    and "log_entry st (FixedCol col val colvec cost) = [entries st' ! i]" and "postsolveType st = kFull"
    and "sol_type s = kPrimalDual" and "origcol_mapping st ! col < length (reducedCosts s)"
    and "undo_step num st' i (s, b) = ((s', b'), k)"
  shows "dual_equation (orig_rows st colvec) (cost ! col) (origcol_mapping st ! col) s' \<and> dual s' = dual s"
proof -
  let ?k = "ps_start st' ! i" and ?ind = "ps_indices st'" and ?vals = "ps_values st'"
  have e: "entries st' ! i = (kFixedCol, orig_col st col # int (length colvec) # map (\<lambda>(r, v). orig_row st r) colvec,
      val # cost ! col # map snd colvec)" using assms(3,4) by simp
  note at = entry_at [OF assms(1,2) e]
  then have "segment_at ?ind ?vals ?k (orig_col st col # int (length colvec) # map (\<lambda>(r, v). orig_row st r) colvec)
      (val # cost ! col # map snd colvec)" by (simp add: segment_at_def)
  then have seg: "?ind ! ?k = orig_col st col" "?ind ! (?k + 1) = int (length colvec)" "?vals ! (?k + 1) = cost ! col"
    "segment_at ?ind ?vals (?k + 2) (map (\<lambda>(r, v). orig_row st r) colvec) (map snd colvec)"
    by (simp_all add: segment_at_Cons)
  have "map (\<lambda>j. - (?vals ! (?k + 2 + j)) * y ! nat (?ind ! (?k + 2 + j))) [0..<length colvec] =
      map (\<lambda>(r, a). - (a * y ! r)) (orig_rows st colvec)" for y
    unfolding segment_at_rows [OF seg(4), symmetric] by simp
  then have rc: "fixed_col_redcost ?ind ?vals ?k y = cost ! col - sum_list (map (\<lambda>(r, a). a * y ! r) (orig_rows st colvec))" for y
    using seg(2,3) by (simp add: fixed_col_redcost_def stable_sum_eq neg_sums)
  have "s' = apply_fix_var ?ind ?vals ?k s"
    using assms(7) at(1) by (simp add: undo_step_def Let_def)
  then show ?thesis
    using assms(5,6) seg(1) rc by (simp add: apply_fix_var_def Let_def dual_equation_def)
qed

lemma subst_fold:
  "foldl (\<lambda>(coef, sm) (r', v). if r' = r then (v, sm) else (coef, stable_add sm (- (y ! r') * v))) (a0, s0) es =
   (foldl (\<lambda>b (r', v). if r' = r then v else b) a0 es, s0 - row_value (rest_of_row r es) y)"
  by (induction es arbitrary: a0 s0) (auto simp: stable_add_def row_value_def rest_of_row_def)

lemma subst_off_bounds_equation:
  assumes "distinct_cols es" and "(row, a) \<in> set es" and "a \<noteq> 0" and "row < length (dual s)"
    and "col < length (reducedCosts s)"
  shows "dual_equation es obj col (subst_off_bounds row col obj es s)"
proof -
  let ?y = "(dual s)[row := (obj - row_value (rest_of_row row es) (dual s)) / a]"
  have "dual (subst_off_bounds row col obj es s) = ?y" "reducedCosts (subst_off_bounds row col obj es s) ! col = 0"
    using assms(5) last_coeff_unique [OF assms(1,2), of 0]
    by (simp_all add: subst_off_bounds_def Let_def subst_fold stable_add_def)
  moreover have "row_value es ?y = obj"
    using solved_row_value [OF assms(1,2,4)] assms(3) by simp
  ultimately show ?thesis by (simp add: dual_equation_def row_value_def)
qed

lemma subst_on_bounds_equation:
  assumes "col < length (reducedCosts s)"
  shows "dual_equation es obj col (subst_on_bounds num row col a obj lo up li ui es s)"
  using assms by (auto simp: subst_on_bounds_def dual_equation_def Let_def stable_sum_eq stable_add_def neg_sums)

lemma orig_row_inj:
  assumes "mapping_ok st" and "r < length (origrow_mapping st)" and "q < length (origrow_mapping st)"
  shows "origrow_mapping st ! r = origrow_mapping st ! q \<longleftrightarrow> r = q"
proof -
  have "distinct (origrow_mapping st)"
    using assms(1) strict_sorted_iff by (auto simp: mapping_ok_def)
  with assms(2,3) show ?thesis by (simp add: nth_eq_iff_index_eq)
qed

lemma orig_rows_ok:
  assumes "mapping_ok st" and "distinct_cols col" and "\<forall>(r, v) \<in> set col. r < length (origrow_mapping st)"
  shows "distinct_cols (orig_rows st col)"
  using assms(2,3)
proof (induction col)
  case (Cons e col)
  then show ?case
    using orig_row_inj [OF assms(1)] by (force simp: orig_rows_def)
qed (simp add: orig_rows_def)

text \<open>
  C19. Undoing a substitution in a primal-dual solution re-establishes the dual equation of the
  substituted column in both cases: on a bound by computing its reduced cost, between the bounds by
  giving it reduced cost zero and solving the equation for the dual value of the equality row.
\<close>

theorem substitution_dual_equation:
  assumes "storage_ok st'" and "i < length (ps_types st')" and "mapping_ok st"
    and "log_entry st (Substitution col row p) = [entries st' ! i]" and "postsolveType st = kFull"
    and "sol_type s = kPrimalDual" and "origcol_mapping st ! col < length (reducedCosts s)"
    and "distinct_cols (col_coeffs p ! col)" and "(row, a) \<in> set (col_coeffs p ! col)" and "a \<noteq> 0"
    and "\<forall>(r, v) \<in> set (col_coeffs p ! col). r < length (origrow_mapping st)"
    and "origrow_mapping st ! row < length (dual s)"
    and "undo_step num st' i (s, b) = ((s', b'), k)"
  shows "dual_equation (orig_rows st (col_coeffs p ! col)) (obj_coeffs p ! col) (origcol_mapping st ! col) s'"
proof -
  let ?k = "ps_start st' ! i" and ?ind = "ps_indices st'" and ?vals = "ps_values st'"
  let ?row = "row_coeffs p ! row" and ?col = "col_coeffs p ! col"
  let ?oc = "origcol_mapping st ! col" and ?or = "origrow_mapping st ! row"
  define q where "q = ?k + (3 + length ?row)"
  have e: "entries st' ! i = (kSubstitutedColWithDual,
      saved_row_indices st row ?row (row_flags p ! row) @ saved_col_indices st col p,
      saved_row_values ?row (lhs_values p ! row) (rhs_values p ! row) @ saved_col_values col p)"
    using assms(4,5) by simp
  note at = entry_at [OF assms(1,2) e]
  have "segment_at ?ind ?vals ?k (saved_row_indices st row ?row (row_flags p ! row) @ saved_col_indices st col p)
      (saved_row_values ?row (lhs_values p ! row) (rhs_values p ! row) @ saved_col_values col p)"
    using at by (simp add: segment_at_def)
  then have s: "segment_at ?ind ?vals ?k (saved_row_indices st row ?row (row_flags p ! row))
      (saved_row_values ?row (lhs_values p ! row) (rhs_values p ! row))"
    "segment_at ?ind ?vals q (saved_col_indices st col p) (saved_col_values col p)"
    by (simp_all add: segment_at_append q_def)
  note r = stored_row_segment [OF s(1)]
  have c: "nat (?ind ! q) = ?oc" "?vals ! (q + 1) = obj_coeffs p ! col"
    "segment_at ?ind ?vals (q + 4) (map (\<lambda>(r, v). orig_row st r) ?col) (map snd ?col)"
    using s(2) by (simp_all add: saved_col_indices_def saved_col_values_def segment_at_Cons eval_nat_numeral)
  have last: "ps_start st' ! Suc i = q + 4 + length ?col"
    using at(4) by (simp add: saved_col_indices_def q_def)
  have ents: "subst_col_entries ?ind ?vals q (ps_start st' ! Suc i) = orig_rows st ?col"
    unfolding subst_col_entries_def last map_upt_shift using segment_at_rows [OF c(3)] by simp
  have k: "?k + 3 + length (orig_terms st ?row) = q" by (simp add: q_def)
  define terms where "terms = equality_terms ?oc (orig_terms st ?row) (?vals ! (?k + 1)) (primal s)"
  define s1 where "s1 = set_primal ?oc (solve_for_column num terms) s"
  have s1: "dual s1 = dual s" "reducedCosts s1 = reducedCosts s" by (simp_all add: s1_def)
  have "subst_dual num ?ind ?vals q (ps_start st' ! Suc i) ?or ?oc (fst terms) (s1, b) = (s', b')"
    using assms(13) at(1) assms(6) unfolding undo_step_def s1_def terms_def
    by (simp add: Let_def apply_substituted_column_def r(1) r(4) k c(1) del: length_orig_terms)
  moreover have "(?or, a) \<in> set (orig_rows st ?col)" using assms(9) by (force simp: orig_rows_def)
  then have "dual_equation (orig_rows st ?col) (obj_coeffs p ! col) ?oc
      (subst_off_bounds ?or ?oc (obj_coeffs p ! col) (orig_rows st ?col) s1)"
    using subst_off_bounds_equation [OF orig_rows_ok [OF assms(3,8,11)]] assms(7,10,12) s1 by simp
  moreover have "dual_equation (orig_rows st ?col) (obj_coeffs p ! col) ?oc
      (subst_on_bounds num ?or ?oc a' (obj_coeffs p ! col) lo up li ui (orig_rows st ?col) s1)" for a' lo up li ui
    using subst_on_bounds_equation assms(7) s1 by simp
  ultimately show ?thesis
    using c(2) by (auto simp: subst_dual_def Let_def ents split: if_splits)
qed

definition full_storage :: postsolve_storage where
  "full_storage = (new_storage_sized 1 2 ex_problem)\<lparr>postsolveType := kFull\<rparr>"

definition ex_dual :: solution where
  "ex_dual = \<lparr>sol_type = kPrimalDual, primal = [0, 0], dual = [3], reducedCosts = [1 / 2, 9], slack = [5],
    basisAvailabe = False, varBasisStatus = [], rowBasisStatus = []\<rparr>"

lemma full_storage_facts: "storage_ok full_storage" "entries full_storage = []" "mapping_ok full_storage"
  "postsolveType full_storage = kFull" "origcol_mapping full_storage = [0, 1]" "origrow_mapping full_storage = [0]"
  by (simp_all add: full_storage_def new_storage_sized_def storage_ok_def entries_def mapping_ok_def
      sorted_wrt_upt numeral_2_eq_2)

lemma full_storage_entry:
  assumes "log_entry full_storage c = [e]"
  shows "storage_ok (perform c full_storage) \<and> 0 < length (ps_types (perform c full_storage)) \<and>
    log_entry full_storage c = [entries (perform c full_storage) ! 0]"
  using perform_entry [OF full_storage_facts(1), of c] assms full_storage_facts(2)
    length_entries [of "perform c full_storage"] by (auto simp del: length_entries)

theorem substitution_dual_equation_witness:
  "dual_equation [(0, 2)] 1 1 (fst (fst (undo_step exact_num (perform (Substitution 1 0 ex_problem) full_storage) 0
     (ex_dual, new_bound_storage exact_num 2 1 True))))"
proof -
  let ?c = "Substitution 1 0 ex_problem"
  obtain s' b' k where run: "undo_step exact_num (perform ?c full_storage) 0
      (ex_dual, new_bound_storage exact_num 2 1 True) = ((s', b'), k)" by (metis surj_pair)
  have "\<exists>e. log_entry full_storage ?c = [e]" by simp
  with full_storage_entry have e: "storage_ok (perform ?c full_storage)" "0 < length (ps_types (perform ?c full_storage))"
    "log_entry full_storage ?c = [entries (perform ?c full_storage) ! 0]" by blast+
  have p: "col_coeffs ex_problem ! 1 = [(0, 2)]" "obj_coeffs ex_problem ! 1 = 1"
    by (simp_all add: ex_problem_def)
  show ?thesis
    using substitution_dual_equation [OF e(1,2) full_storage_facts(3) e(3) full_storage_facts(4) _ _ _ _ _ _ _ run, of 2] run
    by (simp add: ex_dual_def full_storage_facts orig_rows_def p del: One_nat_def)
qed

section \<open>Copying the reduced solution\<close>

lemma scatter_nth:
  assumes "distinct m" and "length xs = length m" and "\<forall>c \<in> set m. c < n" and "k < length m"
  shows "scatter d n m xs ! (m ! k) = xs ! k"
proof -
  have "foldl (\<lambda>ys k. ys[m ! k := xs ! k]) ys [0..<j] ! (m ! k) = (if k < j then xs ! k else ys ! (m ! k)) \<and>
      length (foldl (\<lambda>ys k. ys[m ! k := xs ! k]) ys [0..<j]) = length ys"
    if "j \<le> length m" "length ys = n" for j ys
    using that
  proof (induction j)
    case (Suc j)
    then show ?case
      using assms(1,3,4) by (auto simp: nth_list_update nth_eq_iff_index_eq less_Suc_eq)
  qed simp
  from this [of "length m" "replicate n d"] assms(2,4) show ?thesis by (simp add: scatter_def)
qed

text \<open>
  The reduced solution is copied to the original indices: every entry of its primal vector, and of
  its dual vectors for a primal-dual solution, stands at the original index of its column or row.
\<close>

lemma copy_places_entries:
  assumes "mapping_ok st" and "length (primal red) = length (origcol_mapping st)"
    and "k < length (origcol_mapping st)" and "s = copy_from_reduced_to_original cb red st s0"
  shows "primal s ! (origcol_mapping st ! k) = primal red ! k \<and> length (primal s) = nColsOriginal st \<and>
    (sol_type red = kPrimalDual \<and> length (reducedCosts red) = length (origcol_mapping st) \<longrightarrow>
       reducedCosts s ! (origcol_mapping st ! k) = reducedCosts red ! k) \<and>
    (\<forall>r<length (origrow_mapping st). sol_type red = kPrimalDual \<and> length (dual red) = length (origrow_mapping st) \<longrightarrow>
       dual s ! (origrow_mapping st ! r) = dual red ! r)"
proof -
  have "distinct (origcol_mapping st)" "distinct (origrow_mapping st)"
    using assms(1) strict_sorted_iff by (auto simp: mapping_ok_def)
  with assms show ?thesis
    by (auto simp: copy_from_reduced_to_original_def Let_def mapping_ok_def scatter_nth)
qed

section \<open>Basis status of rows of a column fixed at infinity\<close>

text \<open>
  Several rows can end non-basic for one column: when the candidate of a later row exceeds that of
  an earlier one, the earlier row keeps its status although it is not tight any more, so that two rows
  (here \<open>x \<ge> 1\<close> and \<open>x \<ge> 2\<close>) leave the basis while only one column enters it.
\<close>

lemma infinity_rows_leaves_two_nonbasic:
  "infinity_rows exact_num [0, 0, 1, 0, 1, 0, 1, 0] [1, 1, 0, 1, 1, 2, 0, 1] 0 True False [0] 2
     (0, [BASIC, BASIC], 0, []) = (2, [ON_LOWER, ON_LOWER], 8, [(0, 1), (1, 1)])"
  by code_simp

end
