(* ===== verification/Pap_Reductions.thy ===== *)
theory Pap_Reductions
  imports Pap_Problem
begin

text \<open>
  \<open>src/papilo/core/Reductions.hpp\<close>: the reductions a presolver proposes, grouped into transactions,
  and the loop shared by the presolvers of \<open>src/papilo/presolvers\<close> that emit them row by row. The
  reader of the structure is \<open>Presolve::applyReductions\<close> in \<open>core/Presolve.hpp\<close>.
\<close>

section \<open>The data\<close>

datatype PresolveStatus = kUnchanged | kReduced | kUnbndOrInfeas | kUnbounded | kInfeasibleStatus

text \<open>The operation codes: negative numbers in place of the row or of the column index.\<close>

definition COL_NONE :: int where "COL_NONE = -1"
definition LOWER_BOUND :: int where "LOWER_BOUND = -3"
definition UPPER_BOUND :: int where "UPPER_BOUND = -4"
definition FIXED :: int where "FIXED = -5"
definition COL_LOCKED :: int where "COL_LOCKED = -6"
definition SUBSTITUTE :: int where "SUBSTITUTE = -8"
definition BOUNDS_LOCKED :: int where "BOUNDS_LOCKED = -9"
definition REPLACE :: int where "REPLACE = -10"
definition SUBSTITUTE_OBJ :: int where "SUBSTITUTE_OBJ = -11"
definition PARALLEL :: int where "PARALLEL = -12"
definition IMPL_INT :: int where "IMPL_INT = -13"
definition FIXED_INFINITY :: int where "FIXED_INFINITY = -14"
definition CERTIFICATE_DOMINANCE :: int where "CERTIFICATE_DOMINANCE = -15"
definition CERTIFICATE_PROBING_LOWER :: int where "CERTIFICATE_PROBING_LOWER = -16"
definition CERTIFICATE_PROBING_UPPER :: int where "CERTIFICATE_PROBING_UPPER = -17"

definition ROW_NONE :: int where "ROW_NONE = -1"
definition RHS :: int where "RHS = -2"
definition LHS :: int where "LHS = -3"
definition REDUNDANT :: int where "REDUNDANT = -4"
definition ROW_LOCKED :: int where "ROW_LOCKED = -5"
definition RHS_INF :: int where "RHS_INF = -7"
definition LHS_INF :: int where "LHS_INF = -8"
definition SPARSIFY :: int where "SPARSIFY = -9"
definition RHS_LESS_RESTRICTIVE :: int where "RHS_LESS_RESTRICTIVE = -10"
definition LHS_LESS_RESTRICTIVE :: int where "LHS_LESS_RESTRICTIVE = -11"
definition REASON_FOR_LESS_RESTRICTIVE_BOUND_CHANGE :: int where
  "REASON_FOR_LESS_RESTRICTIVE_BOUND_CHANGE = -12"
definition SAVE_ROW :: int where "SAVE_ROW = -13"
definition CERTIFICATE_RHS_GCD :: int where "CERTIFICATE_RHS_GCD = -14"
definition IMPLIED_BOUNDS :: int where "IMPLIED_BOUNDS = -15"
definition PARALLEL_ROW :: int where "PARALLEL_ROW = -16"

lemmas col_codes = COL_NONE_def LOWER_BOUND_def UPPER_BOUND_def FIXED_def COL_LOCKED_def
  SUBSTITUTE_def BOUNDS_LOCKED_def REPLACE_def SUBSTITUTE_OBJ_def PARALLEL_def IMPL_INT_def
  FIXED_INFINITY_def CERTIFICATE_DOMINANCE_def CERTIFICATE_PROBING_LOWER_def
  CERTIFICATE_PROBING_UPPER_def

lemmas row_codes = ROW_NONE_def RHS_def LHS_def REDUNDANT_def ROW_LOCKED_def RHS_INF_def LHS_INF_def
  SPARSIFY_def RHS_LESS_RESTRICTIVE_def LHS_LESS_RESTRICTIVE_def
  REASON_FOR_LESS_RESTRICTIVE_BOUND_CHANGE_def SAVE_ROW_def CERTIFICATE_RHS_GCD_def
  IMPLIED_BOUNDS_def PARALLEL_ROW_def

record Reduction =
  red_newval :: rat
  red_row :: int
  red_col :: int

record Transaction =
  trans_start :: nat
  trans_end :: "nat option"
  trans_nlocks :: nat
  trans_naddcoeffs :: nat

record Reductions =
  reds :: "Reduction list"
  transactions :: "Transaction list"

definition no_reductions :: Reductions where
  "no_reductions = \<lparr>reds = [], transactions = []\<rparr>"

text \<open>A transaction is open while its \<open>end\<close> is \<open>-1\<close>, here \<open>None\<close>.\<close>

section \<open>Operations\<close>

definition add_reduction :: "int \<Rightarrow> int \<Rightarrow> rat \<Rightarrow> Reductions \<Rightarrow> Reductions" where
  "add_reduction row col v R =
     R\<lparr>reds := reds R @ [\<lparr>red_newval = v, red_row = row, red_col = col\<rparr>]\<rparr>"

definition startTransaction :: "Reductions \<Rightarrow> Reductions" where
  "startTransaction R = R\<lparr>transactions := transactions R @
     [\<lparr>trans_start = length (reds R), trans_end = None, trans_nlocks = 0, trans_naddcoeffs = 0\<rparr>]\<rparr>"

definition endTransaction :: "Reductions \<Rightarrow> Reductions" where
  "endTransaction R = R\<lparr>transactions := butlast (transactions R) @
     [(last (transactions R))\<lparr>trans_end := Some (length (reds R))\<rparr>]\<rparr>"

definition TransactionGuard :: "(Reductions \<Rightarrow> Reductions) \<Rightarrow> Reductions \<Rightarrow> Reductions" where
  "TransactionGuard body R = endTransaction (body (startTransaction R))"

definition count_lock :: "Reductions \<Rightarrow> Reductions" where
  "count_lock R = R\<lparr>transactions := butlast (transactions R) @
     [(last (transactions R))\<lparr>trans_nlocks := Suc (trans_nlocks (last (transactions R)))\<rparr>]\<rparr>"

definition changeMatrixEntry :: "nat \<Rightarrow> nat \<Rightarrow> rat \<Rightarrow> Reductions \<Rightarrow> Reductions" where
  "changeMatrixEntry row col v = add_reduction (int row) (int col) v"

definition changeRowLHS :: "nat \<Rightarrow> rat \<Rightarrow> Reductions \<Rightarrow> Reductions" where
  "changeRowLHS row v = add_reduction (int row) LHS v"

definition change_row_lhs_parallel :: "nat \<Rightarrow> rat \<Rightarrow> Reductions \<Rightarrow> Reductions" where
  "change_row_lhs_parallel row v = add_reduction (int row) LHS_LESS_RESTRICTIVE v"

definition changeRowRHS :: "nat \<Rightarrow> rat \<Rightarrow> Reductions \<Rightarrow> Reductions" where
  "changeRowRHS row v = add_reduction (int row) RHS v"

definition change_row_rhs_parallel :: "nat \<Rightarrow> rat \<Rightarrow> Reductions \<Rightarrow> Reductions" where
  "change_row_rhs_parallel row v = add_reduction (int row) RHS_LESS_RESTRICTIVE v"

definition bound_change_caused_by_row :: "nat \<Rightarrow> nat \<Rightarrow> Reductions \<Rightarrow> Reductions" where
  "bound_change_caused_by_row remaining_row deleted_row =
     add_reduction (int deleted_row) REASON_FOR_LESS_RESTRICTIVE_BOUND_CHANGE (of_nat remaining_row)"

definition submit_gcd :: "nat \<Rightarrow> rat \<Rightarrow> Reductions \<Rightarrow> Reductions" where
  "submit_gcd row g = add_reduction (int row) CERTIFICATE_RHS_GCD g"

definition changeRowLHSInf :: "nat \<Rightarrow> Reductions \<Rightarrow> Reductions" where
  "changeRowLHSInf row = add_reduction (int row) LHS_INF 0"

definition changeRowRHSInf :: "nat \<Rightarrow> Reductions \<Rightarrow> Reductions" where
  "changeRowRHSInf row = add_reduction (int row) RHS_INF 0"

definition markRowRedundant :: "nat \<Rightarrow> Reductions \<Rightarrow> Reductions" where
  "markRowRedundant row = add_reduction (int row) REDUNDANT 0"

definition lockRow :: "nat \<Rightarrow> Reductions \<Rightarrow> Reductions" where
  "lockRow row R = count_lock (add_reduction (int row) ROW_LOCKED 0 R)"

definition parallel_remaining_row :: "nat \<Rightarrow> Reductions \<Rightarrow> Reductions" where
  "parallel_remaining_row row = add_reduction (int row) PARALLEL_ROW 0"

text \<open>The optional \<open>forcing_row\<close> defaults to \<open>-1\<close>.\<close>

definition save_forcing_row :: "int \<Rightarrow> Reductions \<Rightarrow> Reductions" where
  "save_forcing_row forcing_row R =
     (if forcing_row > -1 then add_reduction forcing_row SAVE_ROW 0 R else R)"

definition changeColLB :: "nat \<Rightarrow> rat \<Rightarrow> int \<Rightarrow> Reductions \<Rightarrow> Reductions" where
  "changeColLB col v forcing_row R =
     add_reduction LOWER_BOUND (int col) v (save_forcing_row forcing_row R)"

definition changeColUB :: "nat \<Rightarrow> rat \<Rightarrow> int \<Rightarrow> Reductions \<Rightarrow> Reductions" where
  "changeColUB col v forcing_row R =
     add_reduction UPPER_BOUND (int col) v (save_forcing_row forcing_row R)"

definition reductions_fixCol :: "nat \<Rightarrow> rat \<Rightarrow> int \<Rightarrow> Reductions \<Rightarrow> Reductions" where
  "reductions_fixCol col v forcing_row R =
     add_reduction FIXED (int col) v (save_forcing_row forcing_row R)"

definition fixColPositiveInfinity :: "nat \<Rightarrow> nat list \<Rightarrow> Reductions \<Rightarrow> Reductions" where
  "fixColPositiveInfinity col rowIndices R =
     add_reduction FIXED_INFINITY (int col) 1 (fold markRowRedundant rowIndices R)"

definition fixColNegativeInfinity :: "nat \<Rightarrow> nat list \<Rightarrow> Reductions \<Rightarrow> Reductions" where
  "fixColNegativeInfinity col rowIndices R =
     add_reduction FIXED_INFINITY (int col) (-1) (fold markRowRedundant rowIndices R)"

definition lockCol :: "nat \<Rightarrow> Reductions \<Rightarrow> Reductions" where
  "lockCol col R = count_lock (add_reduction COL_LOCKED (int col) 0 R)"

definition lockColBounds :: "nat \<Rightarrow> Reductions \<Rightarrow> Reductions" where
  "lockColBounds col R = count_lock (add_reduction BOUNDS_LOCKED (int col) 0 R)"

definition aggregateFreeCol :: "nat \<Rightarrow> nat \<Rightarrow> Reductions \<Rightarrow> Reductions" where
  "aggregateFreeCol col equalityRow = add_reduction SUBSTITUTE (int col) (of_nat equalityRow)"

definition substituteColInObjective :: "nat \<Rightarrow> nat \<Rightarrow> Reductions \<Rightarrow> Reductions" where
  "substituteColInObjective col equalityRow =
     add_reduction SUBSTITUTE_OBJ (int col) (of_nat equalityRow)"

definition replaceCol :: "nat \<Rightarrow> nat \<Rightarrow> rat \<Rightarrow> rat \<Rightarrow> Reductions \<Rightarrow> Reductions" where
  "replaceCol col1 col2 factor offset R =
     endTransaction (add_reduction COL_NONE (int col2) offset
       (add_reduction REPLACE (int col1) factor (startTransaction R)))"

definition mark_parallel_cols :: "nat \<Rightarrow> nat \<Rightarrow> Reductions \<Rightarrow> Reductions" where
  "mark_parallel_cols col1 col2 = add_reduction PARALLEL (int col1) (of_nat col2)"

definition impliedInteger :: "nat \<Rightarrow> Reductions \<Rightarrow> Reductions" where
  "impliedInteger col = add_reduction IMPL_INT (int col) 0"

definition sparsify :: "nat \<Rightarrow> (nat \<times> rat) list \<Rightarrow> Reductions \<Rightarrow> Reductions" where
  "sparsify eq sparsifiedrows R =
     fold (\<lambda>(r, v). add_reduction (int r) ROW_NONE v) sparsifiedrows
       (add_reduction (int eq) SPARSIFY (of_nat (length sparsifiedrows)) R)"

definition dominance :: "nat \<Rightarrow> nat \<Rightarrow> Reductions \<Rightarrow> Reductions" where
  "dominance dominating_column dominated_column R =
     count_lock (add_reduction CERTIFICATE_DOMINANCE (int dominating_column)
       (of_nat dominated_column) R)"

definition impliedBounds :: "bool \<Rightarrow> nat \<Rightarrow> Reductions \<Rightarrow> Reductions" where
  "impliedBounds lower_bound row =
     add_reduction (int row) IMPLIED_BOUNDS (if lower_bound then 1 else 0)"

definition reason_probing_upper_bound_change :: "nat \<Rightarrow> nat \<Rightarrow> Reductions \<Rightarrow> Reductions" where
  "reason_probing_upper_bound_change causing_col col =
     add_reduction CERTIFICATE_PROBING_UPPER (int causing_col) (of_nat col)"

definition reason_probing_lower_bound_change :: "nat \<Rightarrow> nat \<Rightarrow> Reductions \<Rightarrow> Reductions" where
  "reason_probing_lower_bound_change causing_col col =
     add_reduction CERTIFICATE_PROBING_LOWER (int col) (of_nat causing_col)"

section \<open>The units of application\<close>

text \<open>
  \<open>applyReductions\<close> hands over each transaction as a whole and every reduction outside of a
  transaction on its own: these are the units, in the order in which they are applied.
\<close>

definition singletons :: "Reduction list \<Rightarrow> Reduction list list" where
  "singletons xs = map (\<lambda>r. [r]) xs"

definition sub_range :: "nat \<Rightarrow> nat \<Rightarrow> 'a list \<Rightarrow> 'a list" where
  "sub_range i j xs = take (j - i) (drop i xs)"

fun units_from :: "nat \<Rightarrow> Transaction list \<Rightarrow> Reduction list \<Rightarrow> Reduction list list" where
  "units_from k [] rs = singletons (drop k rs)"
| "units_from k (t # ts) rs =
     singletons (sub_range k (trans_start t) rs) @
     sub_range (trans_start t) (the (trans_end t)) rs #
     units_from (the (trans_end t)) ts rs"

definition units :: "Reductions \<Rightarrow> Reduction list list" where
  "units R = units_from 0 (transactions R) (reds R)"

text \<open>
  The class invariant: all transactions are closed, not empty, disjoint and in order, and the locks
  counted for a transaction are its first reductions.
\<close>

definition is_lock :: "Reduction \<Rightarrow> bool" where
  "is_lock r \<longleftrightarrow> 0 \<le> red_row r \<and> red_col r = ROW_LOCKED \<or>
     0 \<le> red_col r \<and> (red_row r = COL_LOCKED \<or> red_row r = BOUNDS_LOCKED \<or>
       red_row r = CERTIFICATE_DOMINANCE)"

fun chained :: "nat \<Rightarrow> Transaction list \<Rightarrow> Reduction list \<Rightarrow> bool" where
  "chained k [] rs \<longleftrightarrow> k \<le> length rs"
| "chained k (t # ts) rs \<longleftrightarrow>
     (case trans_end t of None \<Rightarrow> False
      | Some e \<Rightarrow> k \<le> trans_start t \<and> trans_start t < e \<and> e \<le> length rs \<and>
          trans_start t + trans_nlocks t \<le> e \<and>
          list_all is_lock (sub_range (trans_start t) (trans_start t + trans_nlocks t) rs) \<and>
          chained e ts rs)"

definition reds_ok :: "Reductions \<Rightarrow> bool" where
  "reds_ok R \<longleftrightarrow> chained 0 (transactions R) (reds R)"

lemma reds_ok_no_reductions [simp]: "reds_ok no_reductions" "units no_reductions = []"
  by (simp_all add: reds_ok_def units_def no_reductions_def singletons_def)

subsection \<open>Emissions\<close>

text \<open>What a presolver appends in one go: a reduction of its own, or a transaction with its locks.\<close>

datatype emission = Bare Reduction | Trans nat "Reduction list"

fun unit_of :: "emission \<Rightarrow> Reduction list" where
  "unit_of (Bare r) = [r]"
| "unit_of (Trans nl rs) = rs"

fun emission_ok :: "emission \<Rightarrow> bool" where
  "emission_ok (Bare r) \<longleftrightarrow> True"
| "emission_ok (Trans nl rs) \<longleftrightarrow> rs \<noteq> [] \<and> nl \<le> length rs \<and> list_all is_lock (take nl rs)"

fun emit :: "emission \<Rightarrow> Reductions \<Rightarrow> Reductions" where
  "emit (Bare r) R = R\<lparr>reds := reds R @ [r]\<rparr>"
| "emit (Trans nl rs) R = R\<lparr>reds := reds R @ rs, transactions := transactions R @
     [\<lparr>trans_start = length (reds R), trans_end = Some (length (reds R) + length rs),
       trans_nlocks = nl, trans_naddcoeffs = 0\<rparr>]\<rparr>"

definition emit_all :: "emission list \<Rightarrow> Reductions \<Rightarrow> Reductions" where
  "emit_all es R = fold emit es R"

lemma emit_all_simps [simp]: "emit_all [] R = R" "emit_all (e # es) R = emit_all es (emit e R)"
  by (simp_all add: emit_all_def)

lemma emit_all_append [simp]: "emit_all (es @ fs) R = emit_all fs (emit_all es R)"
  by (simp add: emit_all_def)

lemma sub_range_append: "j \<le> length xs \<Longrightarrow> sub_range i j (xs @ ys) = sub_range i j xs"
  by (simp add: sub_range_def)

lemma sub_range_end: "sub_range (length xs) (length xs + n) (xs @ ys) = take n ys"
  by (simp add: sub_range_def)

lemma singletons_append [simp]: "singletons (xs @ ys) = singletons xs @ singletons ys"
  and singletons_simps [simp]: "singletons [] = []" "singletons [r] = [[r]]"
  by (simp_all add: singletons_def)

lemma chained_le: "chained k ts rs \<Longrightarrow> k \<le> length rs"
  by (induction ts arbitrary: k) (auto split: option.splits)

lemma chained_bare: "chained k ts rs \<Longrightarrow> chained k ts (rs @ ss)"
proof (induction ts arbitrary: k)
  case (Cons t ts)
  then show ?case by (auto simp: sub_range_append split: option.splits)
qed simp

lemma units_from_bare:
  "chained k ts rs \<Longrightarrow> units_from k ts (rs @ [r]) = units_from k ts rs @ [[r]]"
proof (induction ts arbitrary: k)
  case (Cons t ts)
  then show ?case by (auto simp: sub_range_append split: option.splits)
qed (simp add: singletons_def)

lemma chained_trans:
  "chained k ts rs \<Longrightarrow> emission_ok (Trans nl ss) \<Longrightarrow>
   chained k (ts @ [\<lparr>trans_start = length rs, trans_end = Some (length rs + length ss),
       trans_nlocks = nl, trans_naddcoeffs = 0\<rparr>]) (rs @ ss)"
proof (induction ts arbitrary: k)
  case (Cons t ts)
  then show ?case by (auto simp: sub_range_append split: option.splits)
qed (simp add: sub_range_end)

lemma units_from_trans:
  "chained k ts rs \<Longrightarrow>
   units_from k (ts @ [\<lparr>trans_start = length rs, trans_end = Some (length rs + length ss),
       trans_nlocks = nl, trans_naddcoeffs = 0\<rparr>]) (rs @ ss) = units_from k ts rs @ [ss]"
proof (induction ts arbitrary: k)
  case (Cons t ts)
  then show ?case by (auto simp: sub_range_append split: option.splits)
next
  case Nil
  then show ?case by (simp add: sub_range_end, simp add: sub_range_def)
qed

lemma emit_laws:
  assumes "reds_ok R" and "emission_ok e"
  shows "reds_ok (emit e R)" and "units (emit e R) = units R @ [unit_of e]"
  using assms by (cases e; simp add: reds_ok_def units_def chained_bare units_from_bare
      chained_trans units_from_trans del: chained.simps units_from.simps emission_ok.simps)+

lemma emit_all_laws:
  assumes "reds_ok R" and "list_all emission_ok es"
  shows "reds_ok (emit_all es R) \<and> units (emit_all es R) = units R @ map unit_of es"
  using assms by (induction es arbitrary: R) (simp_all add: emit_laws)

subsection \<open>The operations as emissions\<close>

text \<open>
  \<open>appends\<close> says that an operation appends reductions and counts locks in the open transaction and
  does nothing else; a guarded sequence of such operations emits one transaction.
\<close>

definition append_reds :: "nat \<Rightarrow> Reduction list \<Rightarrow> Reductions \<Rightarrow> Reductions" where
  "append_reds nl rs R = (if nl = 0 then R\<lparr>reds := reds R @ rs\<rparr>
     else R\<lparr>reds := reds R @ rs, transactions := butlast (transactions R) @
       [(last (transactions R))\<lparr>trans_nlocks := trans_nlocks (last (transactions R)) + nl\<rparr>]\<rparr>)"

definition mk_red :: "int \<Rightarrow> int \<Rightarrow> rat \<Rightarrow> Reduction" where
  "mk_red row col v = \<lparr>red_newval = v, red_row = row, red_col = col\<rparr>"

lemma mk_red_sel [simp]: "red_newval (mk_red r c v) = v" "red_row (mk_red r c v) = r"
  "red_col (mk_red r c v) = c"
  by (simp_all add: mk_red_def)

lemma mk_red_eta: "mk_red (red_row r) (red_col r) (red_newval r) = r"
  by (simp add: mk_red_def)

named_theorems appends \<open>the operations as appended reductions\<close>

lemma add_reduction_appends [appends]: "add_reduction r c v = append_reds 0 [mk_red r c v]"
  by (rule ext) (simp add: add_reduction_def append_reds_def mk_red_def)

lemma append_reds_append_reds [simp]:
  "append_reds n rs (append_reds m ss R) = append_reds (m + n) (ss @ rs) R"
  by (simp add: append_reds_def)

lemma append_reds_0 [simp]: "append_reds 0 [] R = R"
  by (simp add: append_reds_def)

lemma count_lock_appends [simp]: "count_lock (append_reds m ss R) = append_reds (Suc m) ss R"
  by (simp add: append_reds_def count_lock_def)

lemmas adders = changeMatrixEntry_def changeRowLHS_def change_row_lhs_parallel_def changeRowRHS_def
  change_row_rhs_parallel_def bound_change_caused_by_row_def submit_gcd_def changeRowLHSInf_def
  changeRowRHSInf_def markRowRedundant_def parallel_remaining_row_def aggregateFreeCol_def
  substituteColInObjective_def mark_parallel_cols_def impliedInteger_def impliedBounds_def
  reason_probing_upper_bound_change_def reason_probing_lower_bound_change_def lockRow_def
  lockCol_def lockColBounds_def dominance_def

lemma guard_emits:
  "endTransaction (append_reds nl rs (startTransaction R)) = emit (Trans nl rs) R"
  by (simp add: endTransaction_def append_reds_def startTransaction_def)

lemma bare_emits: "append_reds 0 [r] R = emit (Bare r) R"
  by (simp add: append_reds_def)

lemma replaceCol_emits:
  "replaceCol col1 col2 factor offset R =
   emit (Trans 0 [mk_red REPLACE (int col1) factor, mk_red COL_NONE (int col2) offset]) R"
  by (simp add: replaceCol_def add_reduction_appends guard_emits del: emit.simps)

lemma fold_appends:
  "(\<And>x R. f x R = append_reds 0 (g x) R) \<Longrightarrow> fold f xs R = append_reds 0 (concat (map g xs)) R"
  by (induction xs arbitrary: R) simp_all

lemma length_reds_emit [simp]: "length (reds (emit e R)) = length (reds R) + length (unit_of e)"
  by (cases e) simp_all

section \<open>The loop of a presolver\<close>

text \<open>
  The presolvers that treat one row (or column) after the other share the shape of their
  \<open>execute\<close>: sequentially, the loop stops at \<open>max_reduction_seq\<close> reductions or at the first proof
  of infeasibility; in parallel, every step fills a buffer of its own and the transactions of the
  buffers are copied over in the order of the steps.
\<close>

fun sequential_loop ::
  "nat \<Rightarrow> ('i \<Rightarrow> Reductions \<Rightarrow> PresolveStatus \<times> Reductions) \<Rightarrow> 'i list \<Rightarrow> PresolveStatus \<Rightarrow> Reductions \<Rightarrow>
   PresolveStatus \<times> Reductions" where
  "sequential_loop max_seq step [] result R = (result, R)"
| "sequential_loop max_seq step (i # is) result R =
     (if length (reds R) \<ge> max_seq then (result, R)
      else case step i R of (s, R') \<Rightarrow>
        if s = kInfeasibleStatus then (kInfeasibleStatus, R')
        else sequential_loop max_seq step is (if s = kReduced then kReduced else result) R')"

definition copy_transaction :: "Reductions \<Rightarrow> Transaction \<Rightarrow> Reductions \<Rightarrow> Reductions" where
  "copy_transaction stored t = TransactionGuard
     (fold (\<lambda>c. let r = reds stored ! c in add_reduction (red_row r) (red_col r) (red_newval r))
       [trans_start t..<the (trans_end t)])"

definition copy_stored :: "Reductions \<Rightarrow> Reductions \<Rightarrow> Reductions" where
  "copy_stored stored R =
     (if reds stored = [] then R else fold (copy_transaction stored) (transactions stored) R)"

definition parallel_run ::
  "('i \<Rightarrow> Reductions \<Rightarrow> PresolveStatus \<times> Reductions) \<Rightarrow> 'i list \<Rightarrow> Reductions \<Rightarrow>
   PresolveStatus \<times> Reductions" where
  "parallel_run step is R =
     (let stored = map (\<lambda>i. step i no_reductions) is
      in if kInfeasibleStatus \<in> set (map fst stored) then (kInfeasibleStatus, R)
         else if kReduced \<notin> set (map fst stored) then (kUnchanged, R)
         else (kReduced, fold copy_stored (map snd stored) R))"

lemma sub_range_nth: "e \<le> length xs \<Longrightarrow> map ((!) xs) [s..<e] = sub_range s e xs"
  by (auto simp: sub_range_def list_eq_iff_nth_eq)

lemma copy_transaction_emits:
  assumes "e \<le> length (reds S)" and "trans_end t = Some e"
  shows "copy_transaction S t R = emit (Trans 0 (sub_range (trans_start t) e (reds S))) R"
proof -
  have "fold (\<lambda>c. let r = reds S ! c in add_reduction (red_row r) (red_col r) (red_newval r))
      [trans_start t..<e] R' =
    append_reds 0 (concat (map (\<lambda>c. [reds S ! c]) [trans_start t..<e])) R'" for R'
    by (rule fold_appends) (simp add: Let_def add_reduction_appends mk_red_eta)
  moreover have "concat (map (\<lambda>c. [reds S ! c]) [trans_start t..<e]) = sub_range (trans_start t) e (reds S)"
    by (subst sub_range_nth [OF assms(1), symmetric]) (induct rule: rev_induct [of _ "[trans_start t..<e]"], auto)
  ultimately show ?thesis
    using assms(2) by (simp add: copy_transaction_def TransactionGuard_def guard_emits del: emit.simps)
qed

fun is_trans :: "emission \<Rightarrow> bool" where
  "is_trans (Bare r) \<longleftrightarrow> False"
| "is_trans (Trans nl rs) \<longleftrightarrow> True"

lemma transactions_in_range:
  "chained k ts rs \<Longrightarrow> t \<in> set ts \<Longrightarrow> \<exists>e. trans_end t = Some e \<and> e \<le> length rs"
  by (induction ts arbitrary: k) (auto split: option.splits)

lemma fold_cong_set: "(\<And>x. x \<in> set xs \<Longrightarrow> f x = g x) \<Longrightarrow> fold f xs = fold g xs"
  by (induction xs) auto

lemma copy_transactions_emits:
  assumes "list_all is_trans es" and "list_all emission_ok es"
  shows "fold (copy_transaction (emit_all es no_reductions)) (transactions (emit_all es no_reductions)) R =
    emit_all (map (\<lambda>e. Trans 0 (unit_of e)) es) R"
  using assms
proof (induction es rule: rev_induct)
  case (snoc e es)
  let ?S = "emit_all es no_reductions"
  obtain nl rs where e: "e = Trans nl rs" using snoc.prems(1) by (cases e) auto
  have cl: "reds_ok ?S" using emit_all_laws [of no_reductions es] snoc.prems(2) by simp
  have "copy_transaction (emit e ?S) t = copy_transaction ?S t" if "t \<in> set (transactions ?S)" for t
  proof
    fix R
    from transactions_in_range [OF cl [unfolded reds_ok_def] that]
    obtain k where k: "trans_end t = Some k" "k \<le> length (reds ?S)" by blast
    moreover have "reds (emit e ?S) = reds ?S @ rs" by (simp add: e)
    ultimately show "copy_transaction (emit e ?S) t R = copy_transaction ?S t R"
      using copy_transaction_emits [of k "emit e ?S" t R] copy_transaction_emits [of k ?S t R]
      by (simp add: sub_range_append del: emit.simps)
  qed
  then have "fold (copy_transaction (emit e ?S)) (transactions ?S) = fold (copy_transaction ?S) (transactions ?S)"
    by (rule fold_cong_set)
  moreover have "copy_transaction (emit e ?S) \<lparr>trans_start = length (reds ?S),
      trans_end = Some (length (reds ?S) + length rs), trans_nlocks = nl, trans_naddcoeffs = 0\<rparr> R' =
    emit (Trans 0 (unit_of e)) R'" for R'
    by (subst copy_transaction_emits [where e = "length (reds ?S) + length rs"])
      (simp_all add: e sub_range_end)
  ultimately show ?case using snoc by (simp add: e)
qed (simp add: no_reductions_def)

lemma emit_all_reds: "length (reds (emit_all es R)) = length (reds R) + sum_list (map (length \<circ> unit_of) es)"
  by (induction es arbitrary: R) simp_all

lemma copy_stored_emits:
  assumes "list_all is_trans es" and "list_all emission_ok es"
  shows "copy_stored (emit_all es no_reductions) R = emit_all (map (\<lambda>e. Trans 0 (unit_of e)) es) R"
proof (cases es)
  case Nil
  then show ?thesis by (simp add: copy_stored_def no_reductions_def)
next
  case (Cons e es')
  then have "unit_of e \<noteq> []" using assms(1,2) by (cases e) auto
  then have "length (reds (emit_all es no_reductions)) > 0"
    unfolding emit_all_reds using Cons by simp
  then show ?thesis using copy_transactions_emits [OF assms] by (simp add: copy_stored_def)
qed

text \<open>
  The contract of a step: it appends what \<open>emits\<close> says, whatever was collected before, and appends
  only when it reports a reduction.
\<close>

locale step_presolver =
  fixes step :: "'i \<Rightarrow> Reductions \<Rightarrow> PresolveStatus \<times> Reductions"
    and emits :: "'i \<Rightarrow> PresolveStatus \<times> emission list"
  assumes step_emits: "step i R = (fst (emits i), emit_all (snd (emits i)) R)"
    and emits_ok: "list_all emission_ok (snd (emits i))"
    and emits_reduced: "fst (emits i) \<noteq> kReduced \<Longrightarrow> snd (emits i) = []"
begin

definition emitted :: "'i \<Rightarrow> Reduction list list" where
  "emitted i = map unit_of (snd (emits i))"

lemma step_laws:
  assumes "reds_ok R" and "step i R = (s, R')"
  shows "reds_ok R' \<and> units R' = units R @ emitted i \<and> s = fst (emits i)"
  using assms emit_all_laws [OF assms(1) emits_ok [of i]] by (auto simp: step_emits emitted_def)

lemma sequential_laws:
  assumes "reds_ok R" and "sequential_loop m step is result R = (s, R')"
  shows "reds_ok R' \<and> (\<exists>n\<le>length is. units R' = units R @ concat (map emitted (take n is)))"
  using assms
proof (induction "is" arbitrary: result R)
  case (Cons i js)
  obtain s1 R1 where s1: "step i R = (s1, R1)" by fastforce
  note laws = step_laws [OF Cons.prems(1) s1]
  consider "m \<le> length (reds R)" | "m > length (reds R)" "s1 = kInfeasibleStatus"
    | "m > length (reds R)" "s1 \<noteq> kInfeasibleStatus" by linarith
  then show ?case
  proof cases
    case 1
    then show ?thesis using Cons.prems by (intro conjI exI [of _ 0]) auto
  next
    case 2
    then show ?thesis using Cons.prems s1 laws by (intro conjI exI [of _ 1]) auto
  next
    case 3
    then have "sequential_loop m step js (if s1 = kReduced then kReduced else result) R1 = (s, R')"
      using Cons.prems(2) s1 by simp
    from Cons.IH [OF _ this] laws obtain n where "reds_ok R'" "n \<le> length js"
      "units R' = units R1 @ concat (map emitted (take n js))" by blast
    with laws show ?thesis by (intro conjI exI [of _ "Suc n"]) auto
  qed
qed (simp add: exI [of _ 0])

lemma sequential_infeasible:
  assumes "sequential_loop m step is result R = (kInfeasibleStatus, R')" and "result \<noteq> kInfeasibleStatus"
  shows "\<exists>i\<in>set is. fst (emits i) = kInfeasibleStatus"
  using assms
proof (induction "is" arbitrary: result R)
  case (Cons i js)
  show ?case
  proof (cases "fst (emits i) = kInfeasibleStatus")
    case False
    then have "sequential_loop m step js (if fst (emits i) = kReduced then kReduced else result)
        (emit_all (snd (emits i)) R) = (kInfeasibleStatus, R')"
      using Cons.prems step_emits [of i R] by (auto split: if_splits)
    from Cons.IH [OF this] Cons.prems(2) show ?thesis by auto
  qed simp
qed simp

lemma run_infeasible:
  assumes "(if sequential then sequential_loop m step is kUnchanged R else parallel_run step is R) =
    (kInfeasibleStatus, R')"
  shows "\<exists>i\<in>set is. fst (emits i) = kInfeasibleStatus"
proof (cases sequential)
  case True
  with assms sequential_infeasible show ?thesis by fastforce
next
  case False
  with assms have "kInfeasibleStatus \<in> set (map (\<lambda>i. fst (emits i)) is)"
    by (simp add: parallel_run_def Let_def step_emits o_def image_image split: if_splits)
  then show ?thesis by force
qed

lemma sequential_complete:
  assumes "\<forall>i\<in>set is. fst (emits i) \<noteq> kInfeasibleStatus" and "reds_ok R"
    and "length (reds R) + sum_list (map (length \<circ> concat \<circ> emitted) is) < m"
  shows "units (snd (sequential_loop m step is result R)) = units R @ concat (map emitted is)"
  using assms
proof (induction "is" arbitrary: result R)
  case (Cons i js)
  let ?R = "emit_all (snd (emits i)) R"
  have l: "length (reds ?R) = length (reds R) + length (concat (emitted i))"
    by (simp add: emit_all_reds emitted_def length_concat o_def)
  have "units (snd (sequential_loop m step js r ?R)) = units ?R @ concat (map emitted js)" for r
    using Cons.prems l step_laws [OF Cons.prems(2) step_emits] by (intro Cons.IH) auto
  with Cons.prems step_laws [OF Cons.prems(2) step_emits] step_emits [of i R] show ?case
    by simp
qed simp

end

locale transaction_presolver = step_presolver +
  assumes emits_trans: "list_all is_trans (snd (emits i))"
begin

lemma copied_ok: "list_all emission_ok (map (\<lambda>e. Trans 0 (unit_of e)) (snd (emits i)))"
  using emits_ok [of i] emits_trans [of i]
  by (auto simp: list_all_iff) (metis emission_ok.simps(2) is_trans.elims(2) unit_of.simps(2))+

lemma copied_units:
  assumes "reds_ok R"
  shows "reds_ok (fold copy_stored (map snd (map (\<lambda>i. step i no_reductions) is)) R) \<and>
    units (fold copy_stored (map snd (map (\<lambda>i. step i no_reductions) is)) R) =
      units R @ concat (map emitted is)"
  using assms
proof (induction "is" arbitrary: R)
  case (Cons i js)
  have "copy_stored (snd (step i no_reductions)) R = emit_all (map (\<lambda>e. Trans 0 (unit_of e)) (snd (emits i))) R"
    by (simp add: step_emits copy_stored_emits emits_trans emits_ok)
  with emit_all_laws [OF Cons.prems copied_ok [of i]]
  have "reds_ok (copy_stored (snd (step i no_reductions)) R)"
    "units (copy_stored (snd (step i no_reductions)) R) = units R @ emitted i"
    by (simp_all add: emitted_def o_def)
  with Cons.IH show ?case by simp
qed simp

lemma parallel_laws:
  assumes "reds_ok R" and "parallel_run step is R = (s, R')"
  shows "reds_ok R' \<and> (\<exists>n\<le>length is. units R' = units R @ concat (map emitted (take n is)))"
  using assms copied_units [OF assms(1), of "is"]
  by (auto simp: parallel_run_def Let_def split: if_splits intro: exI [of _ 0] exI [of _ "length is"])

lemma run_laws:
  assumes "reds_ok R"
    and "(if sequential then sequential_loop m step is result R else parallel_run step is R) = (s, R')"
  shows "reds_ok R' \<and> (\<exists>ts. units R' = units R @ ts \<and> (\<forall>rs\<in>set ts. \<exists>i\<in>set is. rs \<in> set (emitted i)))"
proof -
  have "reds_ok R' \<and> (\<exists>n\<le>length is. units R' = units R @ concat (map emitted (take n is)))"
  proof (cases sequential)
    case True
    with assms(2) show ?thesis by (intro sequential_laws [OF assms(1)]) simp
  next
    case False
    with assms(2) show ?thesis by (intro parallel_laws [OF assms(1)]) simp
  qed
  then show ?thesis by (fastforce dest: in_set_takeD)
qed

lemma parallel_as_sequential:
  assumes "\<forall>i\<in>set is. fst (emits i) \<noteq> kInfeasibleStatus" and "reds_ok R"
    and "length (reds R) + sum_list (map (length \<circ> concat \<circ> emitted) is) < m"
  shows "units (snd (parallel_run step is R)) = units (snd (sequential_loop m step is result R))"
proof (cases "\<exists>i\<in>set is. fst (emits i) = kReduced")
  case True
  then have "snd (parallel_run step is R) = fold copy_stored (map snd (map (\<lambda>i. step i no_reductions) is)) R"
    using assms(1) by (auto simp: parallel_run_def Let_def step_emits o_def image_iff)
  then show ?thesis
    by (simp only: copied_units [OF assms(2)] sequential_complete [OF assms])
next
  case False
  then have "emitted i = []" if "i \<in> set is" for i
    using that emits_reduced [of i] by (auto simp: emitted_def)
  moreover from False have "snd (parallel_run step is R) = R"
    using assms(1) by (auto simp: parallel_run_def Let_def step_emits o_def image_iff)
  ultimately show ?thesis
    unfolding sequential_complete [OF assms] by (simp add: map_idI concat_eq_Nil_conv)
qed

end

end
