(* ===== verification/Pap_RowPresolvers.thy ===== *)
theory Pap_RowPresolvers
  imports Pap_Reductions
begin

text \<open>
  Presolvers that look at one row at a time: \<open>presolvers/CoefficientStrengthening.hpp\<close> and
  \<open>presolvers/SimpleProbing.hpp\<close> of \<open>src/papilo\<close>. Both read the problem and its activities and emit
  transactions only, so their loops are instances of \<open>transaction_presolver\<close>.
\<close>

section \<open>What a transaction does to a row\<close>

text \<open>
  The row, its sides and its entries after the matrix and side changes of a transaction were
  applied: the last change of an entry counts.
\<close>

definition entry_changes :: "nat \<Rightarrow> Reduction list \<Rightarrow> (nat \<times> rat) list" where
  "entry_changes i rs = map (\<lambda>r. (nat (red_col r), red_newval r))
     (filter (\<lambda>r. red_row r = int i \<and> 0 \<le> red_col r) rs)"

definition changed_row :: "nat \<Rightarrow> Reduction list \<Rightarrow> sparse_vec \<Rightarrow> sparse_vec" where
  "changed_row i rs row =
     map (\<lambda>(c, v). (c, case map_of (rev (entry_changes i rs)) c of None \<Rightarrow> v | Some w \<Rightarrow> w)) row"

definition changed_side :: "int \<Rightarrow> nat \<Rightarrow> Reduction list \<Rightarrow> rat \<Rightarrow> rat" where
  "changed_side side i rs old =
     foldl (\<lambda>v r. if red_row r = int i \<and> red_col r = side then red_newval r else v) old rs"

section \<open>Coefficient strengthening\<close>

text \<open>The row as \<open>a x \<le> b\<close>: its maximal activity, its side and the scale; \<open>None\<close> is the early return.\<close>

definition normalized_side :: "problem \<Rightarrow> nat \<Rightarrow> (rat \<times> rat \<times> rat) option" where
  "normalized_side p i =
     (if \<not> flags_test (row_flags p ! i) [kLhsInf] then
        (if ninfmin (row_activities p ! i) = 0
         then Some (- act_min (row_activities p ! i), - (lhs_values p ! i), -1) else None)
      else
        (if ninfmax (row_activities p ! i) = 0
         then Some (act_max (row_activities p ! i), rhs_values p ! i, 1) else None))"

definition round_coefficient :: "Num \<Rightarrow> rat \<Rightarrow> rat" where
  "round_coefficient num d =
     (if isZero num d then 0
      else if isFeasEq num d (rational_ceil d) then rational_ceil d else d)"

definition strengthens :: "Num \<Rightarrow> flags list \<Rightarrow> rat \<Rightarrow> nat \<times> rat \<Rightarrow> bool" where
  "strengthens num cflags newabscoef e = (case e of (c, v) \<Rightarrow>
     \<not> (\<not> flags_test (cflags ! c) [kIntegral, kImplInt] \<or> flags_test (cflags ! c) [kFixed]) \<and>
     \<not> isFeasGE num newabscoef \<bar>v\<bar>)"

definition integer_coefficients :: "Num \<Rightarrow> flags list \<Rightarrow> rat \<Rightarrow> rat \<Rightarrow> sparse_vec \<Rightarrow> (rat \<times> nat) list" where
  "integer_coefficients num cflags newabscoef scale row =
     map (\<lambda>(c, v). (v * scale, c)) (filter (strengthens num cflags newabscoef) row)"

definition adjust_side :: "variable_domains \<Rightarrow> rat \<Rightarrow> rat \<times> (rat \<times> nat) list \<Rightarrow> rat \<times> nat \<Rightarrow>
  rat \<times> (rat \<times> nat) list" where
  "adjust_side domains newabscoef st intCoef =
     (case st of (rhs, new) \<Rightarrow> case intCoef of (a, c) \<Rightarrow>
       if a < 0 then (rhs - (newabscoef + a) * lower_bounds domains ! c, new @ [(- newabscoef, c)])
       else (rhs + (newabscoef - a) * upper_bounds domains ! c, new @ [(newabscoef, c)]))"

definition perform_coefficient_tightening ::
  "Num \<Rightarrow> problem \<Rightarrow> nat \<Rightarrow> Reductions \<Rightarrow> PresolveStatus \<times> Reductions" where
  "perform_coefficient_tightening num p i R =
     (let row = row_coeffs p ! i; rowFlag = row_flags p ! i; domains = prob_domains p
      in if (\<not> flags_test rowFlag [kLhsInf] \<and> \<not> flags_test rowFlag [kRhsInf]) \<or> length row \<le> 1
         then (kUnchanged, R)
         else case normalized_side p i of None \<Rightarrow> (kUnchanged, R)
         | Some (maxact, rhs, scale) \<Rightarrow>
           let newabscoef = round_coefficient num (maxact - rhs);
               coefs = integer_coefficients num (col_flags domains) newabscoef scale row
           in if coefs = [] then (kUnchanged, R)
              else case foldl (adjust_side domains newabscoef) (rhs, []) coefs of (newrhs, new) \<Rightarrow>
                (kReduced, TransactionGuard (\<lambda>R.
                   let R1 = lockRow i R in
                   if scale = -1 then
                     let R2 = fold (\<lambda>(a, c). changeMatrixEntry i c (- a)) new R1
                     in if lhs_values p ! i \<noteq> - newrhs then changeRowLHS i (- newrhs) R2 else R2
                   else
                     let R2 = fold (\<lambda>(a, c). changeMatrixEntry i c a) new R1
                     in if rhs_values p ! i \<noteq> newrhs then changeRowRHS i newrhs R2 else R2) R))"

definition coefficient_strengthening_execute ::
  "bool \<Rightarrow> nat \<Rightarrow> Num \<Rightarrow> problem \<Rightarrow> nat list \<Rightarrow> Reductions \<Rightarrow> PresolveStatus \<times> Reductions" where
  "coefficient_strengthening_execute sequential max_seq num p changedActivities R =
     (if sequential
      then sequential_loop max_seq (perform_coefficient_tightening num p) changedActivities kUnchanged R
      else parallel_run (perform_coefficient_tightening num p) changedActivities R)"

subsection \<open>What it emits\<close>

definition tightening_reds :: "problem \<Rightarrow> nat \<Rightarrow> rat \<Rightarrow> rat \<Rightarrow> (rat \<times> nat) list \<Rightarrow> Reduction list" where
  "tightening_reds p i scale newrhs new =
     mk_red (int i) ROW_LOCKED 0 # map (\<lambda>(a, c). mk_red (int i) (int c) (scale * a)) new @
     (if scale = -1 then (if lhs_values p ! i \<noteq> - newrhs then [mk_red (int i) LHS (- newrhs)] else [])
      else (if rhs_values p ! i \<noteq> newrhs then [mk_red (int i) RHS newrhs] else []))"

definition tightening_emits :: "Num \<Rightarrow> problem \<Rightarrow> nat \<Rightarrow> PresolveStatus \<times> emission list" where
  "tightening_emits num p i =
     (let row = row_coeffs p ! i; rowFlag = row_flags p ! i; domains = prob_domains p
      in if (\<not> flags_test rowFlag [kLhsInf] \<and> \<not> flags_test rowFlag [kRhsInf]) \<or> length row \<le> 1
         then (kUnchanged, [])
         else case normalized_side p i of None \<Rightarrow> (kUnchanged, [])
         | Some (maxact, rhs, scale) \<Rightarrow>
           let newabscoef = round_coefficient num (maxact - rhs);
               coefs = integer_coefficients num (col_flags domains) newabscoef scale row
           in if coefs = [] then (kUnchanged, [])
              else case foldl (adjust_side domains newabscoef) (rhs, []) coefs of (newrhs, new) \<Rightarrow>
                (kReduced, [Trans 1 (tightening_reds p i scale newrhs new)]))"

lemma normalized_scale: "normalized_side p i = Some (m, b, scale) \<Longrightarrow> scale = 1 \<or> scale = -1"
  by (auto simp: normalized_side_def split: if_splits)

lemma fold_entries:
  "fold (\<lambda>(a, c). changeMatrixEntry i c (f a)) new R =
   append_reds 0 (map (\<lambda>(a, c). mk_red (int i) (int c) (f a)) new) R"
proof -
  have "fold (\<lambda>(a, c). changeMatrixEntry i c (f a)) new R =
    append_reds 0 (concat (map (\<lambda>e. [case e of (a, c) \<Rightarrow> mk_red (int i) (int c) (f a)]) new)) R"
    by (rule fold_appends) (auto simp: changeMatrixEntry_def add_reduction_appends)
  then show ?thesis by (simp add: concat_map_singleton)
qed

lemma tightening_step_emits:
  "perform_coefficient_tightening num p i R =
   (fst (tightening_emits num p i), emit_all (snd (tightening_emits num p i)) R)"
proof -
  have "TransactionGuard (\<lambda>R.
      let R1 = lockRow i R in
      if scale = -1 then
        let R2 = fold (\<lambda>(a, c). changeMatrixEntry i c (- a)) new R1
        in if lhs_values p ! i \<noteq> - newrhs then changeRowLHS i (- newrhs) R2 else R2
      else
        let R2 = fold (\<lambda>(a, c). changeMatrixEntry i c a) new R1
        in if rhs_values p ! i \<noteq> newrhs then changeRowRHS i newrhs R2 else R2) R =
    emit (Trans 1 (tightening_reds p i scale newrhs new)) R"
    if "scale = 1 \<or> scale = -1" for scale newrhs :: rat and new R
    using that fold_entries [of i "\<lambda>a. - a"] fold_entries [of i "\<lambda>a. a"]
    by (auto simp: TransactionGuard_def Let_def lockRow_def changeRowLHS_def changeRowRHS_def
        add_reduction_appends guard_emits tightening_reds_def simp del: emit.simps)
  from this [OF normalized_scale] show ?thesis
    by (auto simp: perform_coefficient_tightening_def tightening_emits_def Let_def
        simp del: emit.simps split: option.split prod.split)
qed

interpretation tightening: transaction_presolver "perform_coefficient_tightening num p" "tightening_emits num p"
  for num p
proof
  fix i R
  show "perform_coefficient_tightening num p i R =
      (fst (tightening_emits num p i), emit_all (snd (tightening_emits num p i)) R)"
    by (rule tightening_step_emits)
qed (auto simp: tightening_emits_def Let_def tightening_reds_def is_lock_def row_codes
    split: option.splits prod.splits if_splits)

subsection \<open>The strengthened row has the same solutions\<close>

text \<open>The new coefficient of a chosen entry and what it adds to the side, on the row as \<open>a x \<le> b\<close>.\<close>

definition strengthened :: "rat \<Rightarrow> rat \<Rightarrow> rat" where
  "strengthened d a = (if a < 0 then - d else d)"

definition side_shift :: "variable_domains \<Rightarrow> rat \<Rightarrow> nat \<times> rat \<Rightarrow> rat" where
  "side_shift domains d e = (case e of (c, a) \<Rightarrow>
     if a < 0 then - (d + a) * lower_bounds domains ! c else (d - a) * upper_bounds domains ! c)"

text \<open>How far an entry is from the bound at which the activity is maximal.\<close>

definition bound_distance :: "variable_domains \<Rightarrow> rat list \<Rightarrow> nat \<times> rat \<Rightarrow> rat" where
  "bound_distance domains x e = (case e of (c, a) \<Rightarrow>
     if a < 0 then x ! c - lower_bounds domains ! c else upper_bounds domains ! c - x ! c)"

lemma bound_distance_nonneg:
  "max_inf domains (c, a) = 0 \<Longrightarrow> in_col_domain domains c (x ! c) \<Longrightarrow> 0 \<le> bound_distance domains x (c, a)"
  using in_col_domain_lb [of domains c "x ! c"] in_col_domain_ub [of domains c "x ! c"]
  by (auto simp: bound_distance_def max_inf_def split: if_splits)

lemma max_part_distance:
  "max_inf domains (c, a) = 0 \<Longrightarrow>
   max_part domains (c, a) = a * x ! c + \<bar>a\<bar> * bound_distance domains x (c, a)"
  by (auto simp: bound_distance_def max_inf_def max_part_def algebra_simps split: if_splits)

lemma strengthened_value:
  "strengthened d a * x ! c - side_shift domains d (c, a) =
   a * x ! c + (\<bar>a\<bar> - d) * bound_distance domains x (c, a)"
  by (auto simp: strengthened_def side_shift_def bound_distance_def algebra_simps)

lemma strengthened_sum:
  "row_value (map (\<lambda>(c, a). (c, if P (c, a) then strengthened d a else a)) S) x -
     sum_list (map (side_shift domains d) (filter P S)) =
   row_value S x + sum_list (map (\<lambda>(c, a). (\<bar>a\<bar> - d) * bound_distance domains x (c, a)) (filter P S))"
proof (induction S)
  case (Cons e S)
  obtain c a where e: "e = (c, a)" by fastforce
  show ?case
    using Cons strengthened_value [of d a x c domains] by (simp add: e row_value_def algebra_simps)
qed (simp add: row_value_def)

lemma max_part_sum:
  assumes "\<forall>e\<in>set S. max_inf domains e = 0"
  shows "sum_list (map (max_part domains) S) =
    row_value S x + sum_list (map (\<lambda>(c, a). \<bar>a\<bar> * bound_distance domains x (c, a)) S)"
  using assms
proof (induction S)
  case (Cons e S)
  obtain c a where e: "e = (c, a)" by fastforce
  with Cons max_part_distance [of domains c a x] show ?case
    by (simp add: row_value_def)
qed (simp add: row_value_def)

lemma sum_list_filter_le:
  fixes f :: "'a \<Rightarrow> rat"
  assumes "\<forall>e\<in>set S. 0 \<le> f e"
  shows "sum_list (map f (filter P S)) \<le> sum_list (map f S)"
  using assms by (induction S) auto

lemma sum_list_nonneg_zero:
  fixes f :: "'a \<Rightarrow> rat"
  assumes "\<forall>e\<in>set S. 0 \<le> f e" and "sum_list (map f S) = 0" and "e \<in> set S"
  shows "f e = 0"
  using assms
proof (induction S)
  case (Cons a S)
  have "0 \<le> sum_list (map f S)" using Cons.prems(1) by (intro sum_list_nonneg) auto
  with Cons show ?case by (auto simp: add_nonneg_eq_0_iff)
qed simp

lemma sum_list_Ints: "\<forall>e\<in>set S. f e \<in> \<int> \<Longrightarrow> sum_list (map f S) \<in> (\<int> :: rat set)"
  by (induction S) auto

lemma Ints_pos_ge_1: "(t::rat) \<in> \<int> \<Longrightarrow> 0 < t \<Longrightarrow> 1 \<le> t"
  by (auto elim!: Ints_cases)

lemma tightening_equivalent:
  assumes "\<forall>(c, a)\<in>set S. max_inf domains (c, a) = 0 \<and> in_col_domain domains c (x ! c)"
    and "\<forall>(c, a)\<in>set (filter P S). d < \<bar>a\<bar> \<and> bound_distance domains x (c, a) \<in> \<int>"
    and "0 \<le> d" and "sum_list (map (max_part domains) S) = d + b"
  shows "row_value (map (\<lambda>(c, a). (c, if P (c, a) then strengthened d a else a)) S) x
      \<le> b + sum_list (map (side_shift domains d) (filter P S)) \<longleftrightarrow> row_value S x \<le> b"
proof -
  let ?t = "bound_distance domains x" and ?F = "filter P S"
  let ?E = "sum_list (map (\<lambda>(c, a). (\<bar>a\<bar> - d) * ?t (c, a)) ?F)"
  let ?T = "sum_list (map ?t ?F)"
  have t: "0 \<le> ?t e" if "e \<in> set S" for e
    using assms(1) that bound_distance_nonneg by (cases e) fastforce
  have fin: "\<forall>e\<in>set S. max_inf domains e = 0" using assms(1) by auto
  have E: "0 \<le> ?E" using assms(2) t by (intro sum_list_nonneg) fastforce
  have new: "row_value (map (\<lambda>(c, a). (c, if P (c, a) then strengthened d a else a)) S) x -
      sum_list (map (side_shift domains d) ?F) = row_value S x + ?E"
    by (rule strengthened_sum)
  have split: "?E + d * ?T = sum_list (map (\<lambda>(c, a). \<bar>a\<bar> * ?t (c, a)) ?F)"
    by (induction S) (auto simp: algebra_simps)
  also have "\<dots> \<le> sum_list (map (\<lambda>(c, a). \<bar>a\<bar> * ?t (c, a)) S)"
    using t by (intro sum_list_filter_le) auto
  also have "\<dots> = d + b - row_value S x"
    using max_part_sum [OF fin, of x] assms(4) by simp
  finally have bound: "?E + d * ?T \<le> d + b - row_value S x" .
  have T: "?T = 0 \<or> 1 \<le> ?T"
  proof -
    have "?T \<in> \<int>" using assms(2) by (intro sum_list_Ints) auto
    moreover have "0 \<le> ?T" using t by (intro sum_list_nonneg) auto
    ultimately show ?thesis using Ints_pos_ge_1 [of ?T] by linarith
  qed
  show ?thesis
  proof (cases "?T = 0")
    case True
    then have "?t e = 0" if "e \<in> set ?F" for e
      using sum_list_nonneg_zero [of ?F ?t e] t that by auto
    then have "map (\<lambda>(c, a). (\<bar>a\<bar> - d) * ?t (c, a)) ?F = map (\<lambda>_. 0) ?F" by auto
    then have "?E = 0" by (simp only: sum_list_0)
    with new show ?thesis by linarith
  next
    case False
    then have "d \<le> d * ?T" using T assms(3) mult_left_mono [of 1 ?T d] by auto
    with bound new E show ?thesis by linarith
  qed
qed

lemma adjust_sides:
  "foldl (adjust_side domains d) (rhs, acc) coefs =
   (rhs + sum_list (map (\<lambda>(a, c). side_shift domains d (c, a)) coefs),
    acc @ map (\<lambda>(a, c). (strengthened d a, c)) coefs)"
proof (induction coefs arbitrary: rhs acc)
  case (Cons e coefs)
  obtain a c where "e = (a, c)" by fastforce
  then have "adjust_side domains d (rhs, acc) e =
      (rhs + side_shift domains d (c, a), acc @ [(strengthened d a, c)])"
    by (simp add: adjust_side_def side_shift_def strengthened_def algebra_simps)
  with Cons \<open>e = (a, c)\<close> show ?case by (simp add: add.assoc)
qed simp

lemma map_of_chosen:
  assumes "distinct_cols row" and "(c, v) \<in> set row"
  shows "map_of (rev (map (\<lambda>(c, v). (c, g (c, v))) (filter P row))) c =
    (if P (c, v) then Some (g (c, v)) else None)"
proof -
  let ?L = "map (\<lambda>(c, v). (c, g (c, v))) (filter P row)"
  have keys: "map fst ?L = map fst (filter P row)" by (simp add: o_def case_prod_unfold)
  then have dist: "distinct (map fst (rev ?L))"
    using distinct_map_filter [OF assms(1), of P] by (simp only: rev_map [symmetric] distinct_rev)
  show ?thesis
  proof (cases "P (c, v)")
    case True
    then have "(c, g (c, v)) \<in> set (rev ?L)" using assms(2) by force
    with map_of_is_SomeI [OF dist] True show ?thesis by simp
  next
    case False
    then have "c \<notin> fst ` set (filter P row)"
      using eq_key_imp_eq_value [OF assms(1,2)] by auto
    then have "c \<notin> set (map fst ?L)" unfolding keys by simp
    then have "map_of (rev ?L) c = None" unfolding map_of_eq_None_iff set_rev set_map .
    with False show ?thesis by simp
  qed
qed

lemma tightening_entry_changes:
  "entry_changes i (tightening_reds p i scale newrhs new) = map (\<lambda>(a, c). (c, scale * a)) new"
  by (auto simp: entry_changes_def tightening_reds_def row_codes filter_map comp_def case_prod_unfold)

lemma foldl_no_side:
  "\<forall>r\<in>set rs. red_col r \<noteq> side \<Longrightarrow> changed_side side i rs old = old"
  unfolding changed_side_def by (induction rs arbitrary: old) auto

lemma changed_side_append:
  "changed_side side i (rs @ ss) old = changed_side side i ss (changed_side side i rs old)"
  by (simp add: changed_side_def)

lemma tightening_sides:
  "changed_side LHS i (tightening_reds p i scale newrhs new) (lhs_values p ! i) =
     (if scale = -1 then - newrhs else lhs_values p ! i)"
  "changed_side RHS i (tightening_reds p i scale newrhs new) (rhs_values p ! i) =
     (if scale = -1 then rhs_values p ! i else newrhs)"
proof -
  let ?es = "mk_red (int i) ROW_LOCKED 0 # map (\<lambda>(a, c). mk_red (int i) (int c) (scale * a)) new"
  have "changed_side LHS i ?es v = v" "changed_side RHS i ?es v = v" for v
    by (rule foldl_no_side, force simp: row_codes)+
  then show
    "changed_side LHS i (tightening_reds p i scale newrhs new) (lhs_values p ! i) =
       (if scale = -1 then - newrhs else lhs_values p ! i)"
    "changed_side RHS i (tightening_reds p i scale newrhs new) (rhs_values p ! i) =
       (if scale = -1 then rhs_values p ! i else newrhs)"
    unfolding tightening_reds_def append_Cons [symmetric] changed_side_append
    by (auto simp: changed_side_def row_codes)
qed

lemma round_coefficient_exact: "epsilon num = 0 \<Longrightarrow> feastol num = 0 \<Longrightarrow> round_coefficient num d = d"
  by (auto simp: round_coefficient_def tol_simps)

lemma scaled_row_value: "row_value (map (\<lambda>(c, v). (c, k * v)) row) x = k * row_value row x"
  by (induction row) (auto simp: row_value_def algebra_simps)

lemma scaled_max_parts:
  assumes "\<forall>(c, v)\<in>set row. v \<noteq> 0"
  shows "sum_list (map (max_part domains) (map (\<lambda>(c, v). (c, - v)) row)) =
      - sum_list (map (min_part domains) row)"
    and "sum_list (map (max_inf domains) (map (\<lambda>(c, v). (c, - v)) row)) =
      sum_list (map (min_inf domains) row)"
  using assms by (induction row) (auto simp: part_defs)

text \<open>The bounds of the integral columns are integers, as trivial presolve and every bound change leave them.\<close>

definition integral_bounds :: "variable_domains \<Rightarrow> bool" where
  "integral_bounds domains \<longleftrightarrow> (\<forall>c<length (col_flags domains).
     flags_test (col_flags domains ! c) [kIntegral, kImplInt] \<longrightarrow>
       (lb_useless domains c \<or> lower_bounds domains ! c \<in> \<int>) \<and>
       (ub_useless domains c \<or> upper_bounds domains ! c \<in> \<int>))"

lemma bound_distance_integral:
  assumes "integral_bounds domains" and "integral_point domains x" and "c < length (col_flags domains)"
    and "flags_test (col_flags domains ! c) [kIntegral, kImplInt]" and "max_inf domains (c, a) = 0"
  shows "bound_distance domains x (c, a) \<in> \<int>"
  using assms by (auto simp: integral_bounds_def integral_point_def bound_distance_def max_inf_def split: if_splits)

lemma strengthens_abs: "strengthens num cflags d (c, v) = strengthens num cflags d (c, \<bar>v\<bar>)"
  by (simp add: strengthens_def)

lemma changed_row_tightening:
  assumes "distinct_cols row"
    and "new = map (\<lambda>(a, c). (strengthened d a, c)) (integer_coefficients num cflags d scale row)"
  shows "changed_row i (tightening_reds p i scale newrhs new) row =
    map (\<lambda>(c, v). (c, if strengthens num cflags d (c, v) then scale * strengthened d (v * scale) else v)) row"
proof -
  let ?P = "strengthens num cflags d"
  have es: "entry_changes i (tightening_reds p i scale newrhs new) =
      map (\<lambda>(c, v). (c, (\<lambda>(c, v). scale * strengthened d (v * scale)) (c, v))) (filter ?P row)"
    by (simp add: tightening_entry_changes assms(2) integer_coefficients_def o_def case_prod_unfold)
  show ?thesis
    unfolding changed_row_def es
  proof (rule map_cong [OF refl])
    fix e
    assume "e \<in> set row"
    moreover obtain c v where "e = (c, v)" by fastforce
    ultimately have e: "e = (c, v)" "(c, v) \<in> set row" by simp_all
    from map_of_chosen [OF assms(1) e(2), of "\<lambda>(c, v). scale * strengthened d (v * scale)" ?P]
    show "(case e of (c, v) \<Rightarrow>
        (c, case map_of (rev (map (\<lambda>(c, v). (c, (\<lambda>(c, v). scale * strengthened d (v * scale)) (c, v)))
          (filter ?P row))) c of None \<Rightarrow> v | Some w \<Rightarrow> w)) =
        (case e of (c, v) \<Rightarrow> (c, if ?P (c, v) then scale * strengthened d (v * scale) else v))"
      by (simp add: e(1))
  qed
qed

lemma tightening_scaled:
  assumes "\<forall>(c, v)\<in>set row. v \<noteq> 0 \<and> c < length (col_flags domains)" and "distinct_cols row"
    and "in_domains domains x" and "integral_point domains x" and "integral_bounds domains"
    and "feastol num = 0" and "scale = 1 \<or> scale = -1"
    and "sum_list (map (max_inf domains) (map (\<lambda>(c, v). (c, scale * v)) row)) = 0"
    and "sum_list (map (max_part domains) (map (\<lambda>(c, v). (c, scale * v)) row)) = d + b" and "0 \<le> d"
    and "coefs = integer_coefficients num (col_flags domains) d scale row"
    and "foldl (adjust_side domains d) (b, []) coefs = (newrhs, new)"
  shows "scale * row_value (changed_row i (tightening_reds p i scale newrhs new) row) x \<le> newrhs \<longleftrightarrow>
    scale * row_value row x \<le> b"
proof -
  let ?S = "map (\<lambda>(c, v). (c, scale * v)) row" and ?P = "strengthens num (col_flags domains) d"
  have absP: "?P (c, scale * v) = ?P (c, v)" for c v
    using assms(7) by (auto simp: strengthens_def)
  have absP': "?P (c, v * scale) = ?P (c, v)" for c v
    using absP [of c v] by (simp add: mult.commute)
  have sq: "scale * (scale * z) = z" "scale * (z * scale) = z" for z using assms(7) by auto
  have new: "newrhs = b + sum_list (map (\<lambda>(a, c). side_shift domains d (c, a)) coefs)"
    "new = map (\<lambda>(a, c). (strengthened d a, c)) coefs"
    using assms(12) by (simp_all add: adjust_sides)
  have filt: "filter ?P ?S = map (\<lambda>(c, v). (c, scale * v)) (filter ?P row)"
    by (simp add: filter_map o_def case_prod_unfold absP)
  have shift: "sum_list (map (\<lambda>(a, c). side_shift domains d (c, a)) coefs) =
      sum_list (map (side_shift domains d) (filter ?P ?S))"
    unfolding filt assms(11) integer_coefficients_def by (simp add: o_def case_prod_unfold mult.commute)
  have "changed_row i (tightening_reds p i scale newrhs new) row =
      map (\<lambda>(c, a). (c, scale * a)) (map (\<lambda>(c, a). (c, if ?P (c, a) then strengthened d a else a)) ?S)"
    unfolding changed_row_tightening [OF assms(2) new(2) [unfolded assms(11)]]
    by (auto simp: absP absP' sq mult.commute [of _ scale])
  then have val: "scale * row_value (changed_row i (tightening_reds p i scale newrhs new) row) x =
      row_value (map (\<lambda>(c, a). (c, if ?P (c, a) then strengthened d a else a)) ?S) x"
    by (simp only: scaled_row_value sq)
  have dom: "\<forall>(c, a)\<in>set ?S. max_inf domains (c, a) = 0 \<and> in_col_domain domains c (x ! c)"
    using no_max_inf [OF assms(8)] assms(1,3) by (fastforce simp: in_domains_def)
  have "\<forall>(c, a)\<in>set (filter ?P ?S). d < \<bar>a\<bar> \<and> bound_distance domains x (c, a) \<in> \<int>"
    using dom assms(1) bound_distance_integral [OF assms(5,4)]
    by (fastforce simp: strengthens_def tol_simps(3) [OF assms(6)] exact_feas [OF assms(6)])
  from tightening_equivalent [OF dom this assms(10,9)]
  show ?thesis unfolding val unfolding new(1) shift scaled_row_value .
qed

lemma tightening_sum_parts:
  assumes "\<forall>(c, v)\<in>set row. v \<noteq> 0" and "tracks domains row act" and "scale = 1 \<or> scale = -1"
  shows "sum_list (map (max_inf domains) (map (\<lambda>(c, v). (c, scale * v)) row)) =
      (if scale = -1 then ninfmin act else ninfmax act)"
    and "sum_list (map (max_part domains) (map (\<lambda>(c, v). (c, scale * v)) row)) =
      (if scale = -1 then - act_min act else act_max act)"
  using assms(2,3) scaled_max_parts [OF assms(1), of domains] by (auto simp: tracks_def)

lemma tightening_emitted_cases:
  assumes "rs \<in> set (tightening.emitted num p i)"
  obtains maxact rhs scale coefs newrhs new where
    "flags_test (row_flags p ! i) [kLhsInf] \<or> flags_test (row_flags p ! i) [kRhsInf]"
    "normalized_side p i = Some (maxact, rhs, scale)"
    "coefs = integer_coefficients num (prob_cflags p) (round_coefficient num (maxact - rhs)) scale (row_coeffs p ! i)"
    "foldl (adjust_side (prob_domains p) (round_coefficient num (maxact - rhs))) (rhs, []) coefs = (newrhs, new)"
    "rs = tightening_reds p i scale newrhs new"
  using assms
  by (auto simp: tightening.emitted_def tightening_emits_def Let_def split: if_splits option.splits prod.splits)

abbreviation row_holds :: "problem \<Rightarrow> nat \<Rightarrow> rat list \<Rightarrow> bool" where
  "row_holds p i x \<equiv> satisfies_row (row_flags p ! i) (lhs_values p ! i) (rhs_values p ! i)
     (row_value (row_coeffs p ! i) x)"

definition changed_row_holds :: "problem \<Rightarrow> nat \<Rightarrow> Reduction list \<Rightarrow> rat list \<Rightarrow> bool" where
  "changed_row_holds p i rs x \<longleftrightarrow> satisfies_row (row_flags p ! i)
     (changed_side LHS i rs (lhs_values p ! i)) (changed_side RHS i rs (rhs_values p ! i))
     (row_value (changed_row i rs (row_coeffs p ! i)) x)"

definition row_undecided :: "Num \<Rightarrow> problem \<Rightarrow> nat \<Rightarrow> bool" where
  "row_undecided num p i \<longleftrightarrow> checkStatus num (row_flags p ! i) (lhs_values p ! i) (rhs_values p ! i)
     (row_activities p ! i) = kUnknown"

lemma problem_row:
  assumes "problem_ok p" and "i < getNRows p"
  shows "\<forall>(c, v)\<in>set (row_coeffs p ! i). v \<noteq> 0 \<and> c < length (prob_cflags p)"
    and "distinct_cols (row_coeffs p ! i)"
    and "tracks (prob_domains p) (row_coeffs p ! i) (row_activities p ! i)"
proof -
  have "row_coeffs p ! i \<in> set (row_coeffs p)" using assms(2) by (simp add: getNRows_def)
  with assms(1) show "\<forall>(c, v)\<in>set (row_coeffs p ! i). v \<noteq> 0 \<and> c < length (prob_cflags p)"
    "distinct_cols (row_coeffs p ! i)"
    unfolding problem_ok_def matrix_ok_def by auto
  show "tracks (prob_domains p) (row_coeffs p ! i) (row_activities p ! i)"
    using assms by (simp add: problem_ok_def all_tracked_def getNRows_def)
qed

lemma tightening_keeps_row:
  assumes ok: "problem_ok p" "i < getNRows p" and exact: "epsilon num = 0" "feastol num = 0"
    and "row_undecided num p i" and rs: "rs \<in> set (tightening.emitted num p i)"
    and x: "in_domains (prob_domains p) x" "integral_point (prob_domains p) x" "integral_bounds (prob_domains p)"
  shows "changed_row_holds p i rs x \<longleftrightarrow> row_holds p i x"
proof -
  let ?D = "prob_domains p" and ?act = "row_activities p ! i"
  note row = problem_row [OF ok]
  from rs obtain maxact rhs scale coefs newrhs new where em:
    "flags_test (row_flags p ! i) [kLhsInf] \<or> flags_test (row_flags p ! i) [kRhsInf]"
    "normalized_side p i = Some (maxact, rhs, scale)"
    "coefs = integer_coefficients num (prob_cflags p) (maxact - rhs) scale (row_coeffs p ! i)"
    "foldl (adjust_side ?D (maxact - rhs)) (rhs, []) coefs = (newrhs, new)"
    "rs = tightening_reds p i scale newrhs new"
    by (rule tightening_emitted_cases) (simp only: round_coefficient_exact [OF exact])
  have nz: "\<forall>(c, v)\<in>set (row_coeffs p ! i). v \<noteq> 0" using row(1) by auto
  note scale = normalized_scale [OF em(2)]
  note parts = tightening_sum_parts [OF nz row(3) scale]
  have side: "scale = -1 \<and> \<not> flags_test (row_flags p ! i) [kLhsInf] \<and> rhs = - (lhs_values p ! i) \<and>
        maxact = - act_min ?act \<and> ninfmin ?act = 0 \<or>
      scale = 1 \<and> flags_test (row_flags p ! i) [kLhsInf] \<and> rhs = rhs_values p ! i \<and>
        maxact = act_max ?act \<and> ninfmax ?act = 0"
    using em(2) unfolding normalized_side_def by (simp split: if_splits)
  then have inf: "sum_list (map (max_inf ?D) (map (\<lambda>(c, v). (c, scale * v)) (row_coeffs p ! i))) = 0"
    and part: "sum_list (map (max_part ?D) (map (\<lambda>(c, v). (c, scale * v)) (row_coeffs p ! i))) =
      (maxact - rhs) + rhs"
    unfolding parts by auto
  have open_side: "0 \<le> maxact - rhs \<and> (scale = 1 \<longrightarrow> \<not> flags_test (row_flags p ! i) [kRhsInf])"
    using side assms(5) em(1)
    by (auto simp: row_undecided_def checkStatus_def Let_def exact_feas [OF exact(2)] split: if_splits)
  from tightening_scaled [OF row(1,2) x exact(2) scale inf part _ em(3,4), of i]
  have eq: "scale * row_value (changed_row i rs (row_coeffs p ! i)) x \<le> newrhs \<longleftrightarrow>
      scale * row_value (row_coeffs p ! i) x \<le> rhs"
    using open_side by (simp add: em(5))
  show ?thesis
    using eq side em(1) open_side
    unfolding changed_row_holds_def em(5) tightening_sides
    by (auto simp: satisfies_row_def)
qed

lemma tightening_touches_row:
  "rs \<in> set (tightening.emitted num p i) \<Longrightarrow> r \<in> set rs \<Longrightarrow> red_row r = int i"
  by (erule tightening_emitted_cases) (auto simp: tightening_reds_def split: if_splits)

text \<open>
  C28. In exact arithmetic (\<open>epsilon\<close> and \<open>feastol\<close> zero), when the integral columns have integral
  bounds and the activities of the given rows do not decide them already, whatever coefficient
  strengthening emits, sequentially or in parallel, is one transaction for one row of the list, and an
  integral point of the box satisfies the row with the changed coefficients and side iff it satisfies
  the old row.
\<close>

theorem coefficient_strengthening_sound:
  assumes "problem_ok p" and "epsilon num = 0" and "feastol num = 0"
    and "\<forall>i\<in>set rows. i < getNRows p \<and> row_undecided num p i"
    and "in_domains (prob_domains p) x" and "integral_point (prob_domains p) x"
    and "integral_bounds (prob_domains p)"
    and "coefficient_strengthening_execute sequential max_seq num p rows no_reductions = (s, R')"
    and "rs \<in> set (units R')"
  shows "\<exists>i\<in>set rows. (\<forall>r\<in>set rs. red_row r = int i) \<and> (changed_row_holds p i rs x \<longleftrightarrow> row_holds p i x)"
proof -
  from tightening.run_laws [OF _ assms(8) [unfolded coefficient_strengthening_execute_def]] assms(9)
  obtain i where "i \<in> set rows" "rs \<in> set (tightening.emitted num p i)" by auto
  with tightening_keeps_row [OF assms(1) _ assms(2,3) _ _ assms(5-7)] tightening_touches_row assms(4)
  show ?thesis by blast
qed

text \<open>The row \<open>10 x + y \<le> 12\<close> with \<open>x\<close> binary and \<open>y\<close> in \<open>[0, 5]\<close> becomes \<open>3 x + y \<le> 5\<close>.\<close>

definition ex_strengthen :: problem where
  "ex_strengthen = \<lparr>obj_coeffs = [1, 1], obj_offset = 0, row_coeffs = [[(0, 10), (1, 1)]],
     col_coeffs = [[(0, 10)], [(0, 1)]], lhs_values = [0], rhs_values = [12], row_flags = [kLhsInf],
     rowsize = [2], colsize = [1, 1],
     prob_domains = \<lparr>lower_bounds = [0, 0], upper_bounds = [1, 5], col_flags = [kIntegral, 0]\<rparr>,
     row_activities = [\<lparr>act_min = 0, act_max = 15, ninfmin = 0, ninfmax = 0, lastchange = -1\<rparr>],
     col_locks = []\<rparr>"

theorem coefficient_strengthening_sound_witness:
  "units (snd (coefficient_strengthening_execute False 100 exact_num ex_strengthen [0] no_reductions)) =
     [[mk_red 0 ROW_LOCKED 0, mk_red 0 0 3, mk_red 0 RHS 5]] \<and>
   changed_row_holds ex_strengthen 0 [mk_red 0 ROW_LOCKED 0, mk_red 0 0 3, mk_red 0 RHS 5] [1, 2]"
proof -
  let ?run = "coefficient_strengthening_execute False 100 exact_num ex_strengthen [0] no_reductions"
  let ?rs = "[mk_red 0 ROW_LOCKED 0, mk_red 0 0 3, mk_red 0 RHS 5]"
  have ok: "problem_ok ex_strengthen"
    by (auto simp: problem_ok_def matrix_ok_def ex_strengthen_def getNCols_def getNRows_def col_of_matrix_def
        all_tracked_def tracks_def part_defs flags_test_def flag_defs less_Suc_eq)
  have dom: "in_domains (prob_domains ex_strengthen) [1, 2]"
    "integral_point (prob_domains ex_strengthen) [1, 2]" "integral_bounds (prob_domains ex_strengthen)"
    by (auto simp: in_domains_def integral_point_def integral_bounds_def in_col_domain_def ex_strengthen_def
        flags_test_def flag_defs less_Suc_eq)
  have rows: "\<forall>i\<in>set [0]. i < getNRows ex_strengthen \<and> row_undecided exact_num ex_strengthen i"
    by code_simp
  have un: "units (snd ?run) = [?rs]" by code_simp
  have "row_holds ex_strengthen 0 [1, 2]" by code_simp
  with coefficient_strengthening_sound [OF ok _ _ rows dom prod.collapse [symmetric], of ?rs False 100] un
  show ?thesis by (simp add: exact_num_def)
qed

section \<open>Simple probing\<close>

definition calculateReductionsForSimpleProbing ::
  "Num \<Rightarrow> variable_domains \<Rightarrow> sparse_vec \<Rightarrow> nat \<Rightarrow> rat \<Rightarrow> Reductions \<Rightarrow> Reductions" where
  "calculateReductionsForSimpleProbing num domains row bincol binary_coeff R =
     fold (\<lambda>(col, v) R.
       if col = bincol \<or> isFeasEq num (lower_bounds domains ! col) (upper_bounds domains ! col) then R
       else if (v > 0 \<and> binary_coeff > 0) \<or> (v < 0 \<and> binary_coeff < 0) then
         replaceCol col bincol (lower_bounds domains ! col - upper_bounds domains ! col)
           (upper_bounds domains ! col) R
       else
         replaceCol col bincol (upper_bounds domains ! col - lower_bounds domains ! col)
           (lower_bounds domains ! col) R) row R"

definition probes_simply :: "Num \<Rightarrow> problem \<Rightarrow> nat \<Rightarrow> bool" where
  "probes_simply num p i \<longleftrightarrow>
     \<not> (\<not> flags_test (row_flags p ! i) [kEquation] \<or> rowsize p ! i \<le> 2 \<or>
        ninfmin (row_activities p ! i) \<noteq> 0 \<or> ninfmax (row_activities p ! i) \<noteq> 0 \<or>
        \<not> isEq num (act_min (row_activities p ! i) + act_max (row_activities p ! i))
            (2 * rhs_values p ! i))"

definition probing_binary :: "Num \<Rightarrow> variable_domains \<Rightarrow> rat \<Rightarrow> nat \<times> rat \<Rightarrow> bool" where
  "probing_binary num domains bincoef e = (case e of (col, v) \<Rightarrow>
     \<not> (\<not> flags_test (col_flags domains ! col) [kIntegral] \<or> lower_bounds domains ! col \<noteq> 0 \<or>
        upper_bounds domains ! col \<noteq> 1 \<or> \<not> isEq num \<bar>v\<bar> bincoef))"

definition perform_simple_probing_step ::
  "Num \<Rightarrow> problem \<Rightarrow> nat \<Rightarrow> Reductions \<Rightarrow> PresolveStatus \<times> Reductions" where
  "perform_simple_probing_step num p i R =
     (if \<not> probes_simply num p i then (kUnchanged, R)
      else let row = row_coeffs p ! i; domains = prob_domains p;
               bincoef = act_max (row_activities p ! i) - rhs_values p ! i
        in foldl (\<lambda>(status, R) (col, v).
             if \<not> probing_binary num domains bincoef (col, v) then (status, R)
             else (kReduced, calculateReductionsForSimpleProbing num domains row col v R))
             (kUnchanged, R) row)"

definition simple_probing_execute ::
  "bool \<Rightarrow> nat \<Rightarrow> Num \<Rightarrow> problem \<Rightarrow> Reductions \<Rightarrow> PresolveStatus \<times> Reductions" where
  "simple_probing_execute sequential max_seq num p R =
     (if sequential
      then sequential_loop max_seq (perform_simple_probing_step num p) [0..<getNRows p] kUnchanged R
      else parallel_run (perform_simple_probing_step num p) [0..<getNRows p] R)"

subsection \<open>What it emits\<close>

definition replacement :: "variable_domains \<Rightarrow> nat \<Rightarrow> rat \<Rightarrow> nat \<times> rat \<Rightarrow> Reduction list" where
  "replacement domains bincol a e = (case e of (col, v) \<Rightarrow>
     let l = lower_bounds domains ! col; u = upper_bounds domains ! col;
         same = (v > 0 \<and> a > 0) \<or> (v < 0 \<and> a < 0)
     in [mk_red REPLACE (int col) (if same then l - u else u - l),
         mk_red COL_NONE (int bincol) (if same then u else l)])"

definition replacements :: "Num \<Rightarrow> variable_domains \<Rightarrow> sparse_vec \<Rightarrow> nat \<times> rat \<Rightarrow> Reduction list list" where
  "replacements num domains row bin = (case bin of (bincol, a) \<Rightarrow>
     map (replacement domains bincol a) (filter (\<lambda>(col, v). \<not> (col = bincol \<or>
       isFeasEq num (lower_bounds domains ! col) (upper_bounds domains ! col))) row))"

definition simple_probing_emits :: "Num \<Rightarrow> problem \<Rightarrow> nat \<Rightarrow> PresolveStatus \<times> emission list" where
  "simple_probing_emits num p i =
     (if \<not> probes_simply num p i then (kUnchanged, [])
      else let row = row_coeffs p ! i; domains = prob_domains p;
               bincoef = act_max (row_activities p ! i) - rhs_values p ! i;
               bins = filter (probing_binary num domains bincoef) row
        in (if bins = [] then kUnchanged else kReduced,
            map (Trans 0) (concat (map (replacements num domains row) bins))))"

lemma calculateReductions_emits:
  "calculateReductionsForSimpleProbing num domains row bincol a R =
   emit_all (map (Trans 0) (replacements num domains row (bincol, a))) R"
proof -
  have "fold (\<lambda>(col, v) R.
      if col = bincol \<or> isFeasEq num (lower_bounds domains ! col) (upper_bounds domains ! col) then R
      else if (v > 0 \<and> a > 0) \<or> (v < 0 \<and> a < 0) then
        replaceCol col bincol (lower_bounds domains ! col - upper_bounds domains ! col)
          (upper_bounds domains ! col) R
      else
        replaceCol col bincol (upper_bounds domains ! col - lower_bounds domains ! col)
          (lower_bounds domains ! col) R) es R =
    emit_all (map (Trans 0) (map (replacement domains bincol a) (filter (\<lambda>(col, v). \<not> (col = bincol \<or>
       isFeasEq num (lower_bounds domains ! col) (upper_bounds domains ! col))) es))) R" for es
    by (induction es arbitrary: R)
      (auto simp: replaceCol_emits replacement_def Let_def simp del: emit.simps)
  then show ?thesis by (simp add: calculateReductionsForSimpleProbing_def replacements_def)
qed

lemma simple_probing_step_emits:
  "perform_simple_probing_step num p i R =
   (fst (simple_probing_emits num p i), emit_all (snd (simple_probing_emits num p i)) R)"
proof -
  let ?row = "row_coeffs p ! i" and ?D = "prob_domains p"
  have "foldl (\<lambda>(status, R) (col, v).
      if \<not> probing_binary num ?D b (col, v) then (status, R)
      else (kReduced, calculateReductionsForSimpleProbing num ?D ?row col v R)) (st, R) es =
    (if filter (probing_binary num ?D b) es = [] then st else kReduced,
     emit_all (map (Trans 0) (concat (map (replacements num ?D ?row) (filter (probing_binary num ?D b) es)))) R)"
    for es st b
  proof (induction es arbitrary: st R)
    case (Cons e es)
    then show ?case by (cases e) (simp add: calculateReductions_emits)
  qed simp
  then show ?thesis
    by (simp add: perform_simple_probing_step_def simple_probing_emits_def Let_def)
qed

interpretation simple_probing: transaction_presolver "perform_simple_probing_step num p" "simple_probing_emits num p"
  for num p
proof
  fix i R
  show "perform_simple_probing_step num p i R =
      (fst (simple_probing_emits num p i), emit_all (snd (simple_probing_emits num p i)) R)"
    by (rule simple_probing_step_emits)
qed (auto simp: simple_probing_emits_def Let_def replacements_def replacement_def list_all_iff
    filter_empty_conv split: if_splits)

subsection \<open>The replacements hold\<close>

definition replace_holds :: "Reduction list \<Rightarrow> rat list \<Rightarrow> bool" where
  "replace_holds rs x \<longleftrightarrow> (case rs of
     [a, b] \<Rightarrow> red_row a = REPLACE \<and> red_row b = COL_NONE \<and>
       x ! nat (red_col a) = red_newval a * x ! nat (red_col b) + red_newval b
   | _ \<Rightarrow> False)"

lemma sum_list_eq_pointwise:
  fixes f g :: "'a \<Rightarrow> rat"
  assumes "\<forall>e\<in>set S. f e \<le> g e" and "sum_list (map f S) = sum_list (map g S)" and "e \<in> set S"
  shows "f e = g e"
  using sum_list_nonneg_zero [of S "\<lambda>e. g e - f e" e] assms by (simp add: sum_list_subtractf)

lemma rest_at_minimum:
  assumes "row_in_domain domains row x" and "sum_list (map (min_inf domains) row) = 0"
    and "row_value row x = sum_list (map (min_part domains) row)" and "(c, v) \<in> set row" and "v \<noteq> 0"
  shows "x ! c = (if v < 0 then upper_bounds domains ! c else lower_bounds domains ! c)"
proof -
  have le: "\<forall>e\<in>set row. min_part domains e \<le> (\<lambda>(c, v). v * x ! c) e"
    using assms(1) no_min_inf [OF assms(2)] min_part_le by (fastforce simp: row_in_domain_def list_all_iff)
  from sum_list_eq_pointwise [OF le assms(3) [unfolded row_value_def, symmetric] assms(4)]
  have "min_part domains (c, v) = v * x ! c" by simp
  with assms(5) no_min_inf [OF assms(2,4)] show ?thesis by (simp add: part_defs split: if_splits)
qed

lemma rest_at_maximum:
  assumes "row_in_domain domains row x" and "sum_list (map (max_inf domains) row) = 0"
    and "row_value row x = sum_list (map (max_part domains) row)" and "(c, v) \<in> set row" and "v \<noteq> 0"
  shows "x ! c = (if v < 0 then lower_bounds domains ! c else upper_bounds domains ! c)"
proof -
  have le: "\<forall>e\<in>set row. (\<lambda>(c, v). v * x ! c) e \<le> max_part domains e"
    using assms(1) no_max_inf [OF assms(2)] max_part_ge by (fastforce simp: row_in_domain_def list_all_iff)
  from sum_list_eq_pointwise [OF le assms(3) [unfolded row_value_def] assms(4)]
  have "v * x ! c = max_part domains (c, v)" by simp
  with assms(5) no_max_inf [OF assms(2,4)] show ?thesis by (simp add: part_defs split: if_splits)
qed

lemma binary_integer:
  "(v::rat) \<in> \<int> \<Longrightarrow> 0 \<le> v \<Longrightarrow> v \<le> 1 \<Longrightarrow> v = 0 \<or> v = 1"
  using Ints_pos_ge_1 [of v] by (cases "v = 0") auto

text \<open>With the binary at one end the rest of the row is at its minimum, at the other end at its maximum.\<close>

lemma probed_rest:
  assumes row: "tracks domains row act" "distinct_cols row" "row_in_domain domains row x"
    and fin: "ninfmin act = 0" "ninfmax act = 0" and sides: "act_min act + act_max act = 2 * rhs"
    and bin: "(b, a) \<in> set row" "a \<noteq> 0" "\<bar>a\<bar> = act_max act - rhs"
    and dom: "lower_bounds domains ! b = 0" "upper_bounds domains ! b = 1" "x ! b \<in> \<int>"
    and "row_value row x = rhs"
  shows "x ! b = (if 0 < a then 1 else 0) \<and>
      row_value (rest_of_row b row) x = sum_list (map (min_part domains) (rest_of_row b row)) \<or>
    x ! b = (if 0 < a then 0 else 1) \<and>
      row_value (rest_of_row b row) x = sum_list (map (max_part domains) (rest_of_row b row))"
proof -
  have inf: "min_inf domains (b, a) = 0" "max_inf domains (b, a) = 0"
    using no_min_inf [of domains row] no_max_inf [of domains row] row(1) fin bin(1)
    by (simp_all add: tracks_def)
  have "in_col_domain domains b (x ! b)" using row(3) bin(1) by (auto simp: row_in_domain_def list_all_iff)
  then have "0 \<le> x ! b" "x ! b \<le> 1"
    using in_col_domain_lb [of domains b "x ! b"] in_col_domain_ub [of domains b "x ! b"] inf dom(1,2)
    by (auto simp: part_defs split: if_splits)
  with binary_integer [OF dom(3)] have x: "x ! b = 0 \<or> x ! b = 1" by simp
  have parts: "min_part domains (b, a) = min 0 a" "max_part domains (b, a) = max 0 a"
    using inf dom(1,2) by (auto simp: part_defs split: if_splits)
  show ?thesis
    using x row_value_split [OF row(2) bin(1), of x] tracks_split(1,2) [OF row(1,2) bin(1)]
      assms(13) sides bin(2,3) unfolding parts by (auto simp: min_def max_def abs_if split: if_splits)
qed

lemma replacement_holds:
  assumes row: "tracks domains row act" "distinct_cols row" "row_in_domain domains row x"
    and fin: "ninfmin act = 0" "ninfmax act = 0" and sides: "act_min act + act_max act = 2 * rhs"
    and bin: "(b, a) \<in> set row" "a \<noteq> 0" "\<bar>a\<bar> = act_max act - rhs"
    and dom: "lower_bounds domains ! b = 0" "upper_bounds domains ! b = 1" "x ! b \<in> \<int>"
    and "row_value row x = rhs" and e: "(c, v) \<in> set row" "c \<noteq> b" "v \<noteq> 0"
  shows "replace_holds (replacement domains b a (c, v)) x"
proof -
  let ?rest = "rest_of_row b row"
  have rest: "(c, v) \<in> set ?rest" using e by (simp add: rest_of_row_def)
  have "sum_list (map (min_inf domains) ?rest) = 0" "sum_list (map (max_inf domains) ?rest) = 0"
    using tracks_split(3,4) [OF row(1,2) bin(1)] fin inf_counts_nonneg [of domains ?rest]
    by (auto simp: part_defs split: if_splits)
  note ends = rest_at_minimum [OF rest_in_domain [OF row(3), of b] this(1) _ rest e(3)]
    rest_at_maximum [OF rest_in_domain [OF row(3), of b] this(2) _ rest e(3)]
  from probed_rest [OF assms(1-13)] show ?thesis
    using ends bin(2) e(3) by (auto simp: replace_holds_def replacement_def Let_def split: if_splits)
qed

definition equations_ok :: "problem \<Rightarrow> bool" where
  "equations_ok p \<longleftrightarrow> (\<forall>i<getNRows p. flags_test (row_flags p ! i) [kEquation] \<longrightarrow>
     \<not> flags_test (row_flags p ! i) [kLhsInf, kRhsInf] \<and> lhs_values p ! i = rhs_values p ! i)"

lemma feasible_row:
  assumes "problem_ok p" and "feasible p x" and "i < getNRows p"
  shows "row_in_domain (prob_domains p) (row_coeffs p ! i) x" and "row_holds p i x"
  using problem_row(1) [OF assms(1,3)] assms(2,3)
  by (force simp: row_in_domain_def list_all_iff feasible_def in_domains_def rows_satisfied_def)+

lemma equation_value:
  assumes "equations_ok p" and "i < getNRows p" and "flags_test (row_flags p ! i) [kEquation]"
    and "row_holds p i x"
  shows "row_value (row_coeffs p ! i) x = rhs_values p ! i"
  using assms by (auto simp: equations_ok_def satisfies_row_def flag_simps)

lemma simple_probing_emitted_holds:
  assumes ok: "problem_ok p" "equations_ok p" "epsilon num = 0" and x: "feasible p x" and i: "i < getNRows p"
    and rs: "rs \<in> set (simple_probing.emitted num p i)"
  shows "replace_holds rs x"
proof -
  let ?row = "row_coeffs p ! i" and ?D = "prob_domains p" and ?act = "row_activities p ! i"
  note row = problem_row [OF ok(1) i] and feas = feasible_row [OF ok(1) x i]
  from rs have pr: "probes_simply num p i"
    by (auto simp: simple_probing.emitted_def simple_probing_emits_def split: if_splits)
  from rs obtain bin where bin: "bin \<in> set ?row"
    "probing_binary num ?D (act_max ?act - rhs_values p ! i) bin" "rs \<in> set (replacements num ?D ?row bin)"
    by (auto simp: simple_probing.emitted_def simple_probing_emits_def Let_def o_def split: if_splits)
  obtain b a where ba: "bin = (b, a)" by fastforce
  obtain c v where e: "(c, v) \<in> set ?row" "c \<noteq> b" "rs = replacement ?D b a (c, v)"
    using bin(3) by (auto simp: replacements_def ba)
  have act: "ninfmin ?act = 0" "ninfmax ?act = 0" "act_min ?act + act_max ?act = 2 * rhs_values p ! i"
    using pr by (simp_all add: probes_simply_def exact_eps [OF ok(3)])
  have b: "\<bar>a\<bar> = act_max ?act - rhs_values p ! i" "lower_bounds ?D ! b = 0" "upper_bounds ?D ! b = 1"
    "flags_test (col_flags ?D ! b) [kIntegral]"
    using bin(2) by (simp_all add: probing_binary_def ba exact_eps [OF ok(3)])
  have nz: "a \<noteq> 0" "v \<noteq> 0" "b < length (col_flags ?D)" using row(1) bin(1) e(1) by (auto simp: ba)
  have "x ! b \<in> \<int>"
    using x b(4) nz(3) by (auto simp: feasible_def integral_point_def flag_simps)
  moreover have "row_value ?row x = rhs_values p ! i"
    using equation_value [OF ok(2) i _ feas(2)] pr by (simp add: probes_simply_def)
  ultimately show ?thesis
    unfolding e(3) using bin(1) ba
    by (intro replacement_holds [OF row(3,2) feas(1) act _ nz(1) b(1-3) _ _ e(1,2) nz(2)]) simp_all
qed

text \<open>
  C29. With exact comparisons (\<open>epsilon\<close> zero), on a problem whose activities are those of its rows and
  whose equations have equal sides, every substitution \<open>x1 = factor x2 + offset\<close> that simple probing
  emits from an equality whose side is the middle of its activity holds at every feasible point.  (With
  a positive \<open>epsilon\<close> the code also accepts a side next to the middle.)
\<close>

theorem simple_probing_sound:
  assumes "problem_ok p" and "equations_ok p" and "epsilon num = 0" and "feasible p x"
    and "simple_probing_execute sequential max_seq num p no_reductions = (s, R')"
    and "rs \<in> set (units R')"
  shows "replace_holds rs x"
proof -
  from simple_probing.run_laws [OF _ assms(5) [unfolded simple_probing_execute_def]] assms(6)
  obtain i where "i \<in> set [0..<getNRows p]" "rs \<in> set (simple_probing.emitted num p i)"
    by auto
  with simple_probing_emitted_holds [OF assms(1-4)] show ?thesis by simp
qed

text \<open>The equality \<open>2 x + y + z = 2\<close> with binary \<open>x\<close> and \<open>y, z\<close> in \<open>[0, 1]\<close>.\<close>

definition ex_probing :: problem where
  "ex_probing = \<lparr>obj_coeffs = [1, 1, 0], obj_offset = 0, row_coeffs = [[(0, 2), (1, 1), (2, 1)]],
     col_coeffs = [[(0, 2)], [(0, 1)], [(0, 1)]], lhs_values = [2], rhs_values = [2], row_flags = [kEquation],
     rowsize = [3], colsize = [1, 1, 1],
     prob_domains = \<lparr>lower_bounds = [0, 0, 0], upper_bounds = [1, 1, 1], col_flags = [kIntegral, 0, 0]\<rparr>,
     row_activities = [\<lparr>act_min = 0, act_max = 4, ninfmin = 0, ninfmax = 0, lastchange = -1\<rparr>],
     col_locks = []\<rparr>"

theorem simple_probing_sound_witness:
  "units (snd (simple_probing_execute True 100 exact_num ex_probing no_reductions)) =
     [[mk_red REPLACE 1 (-1), mk_red COL_NONE 0 1], [mk_red REPLACE 2 (-1), mk_red COL_NONE 0 1]] \<and>
   replace_holds [mk_red REPLACE 1 (-1), mk_red COL_NONE 0 1] [1, 0, 0]"
proof -
  have ok: "problem_ok ex_probing"
    by (auto simp: problem_ok_def matrix_ok_def ex_probing_def getNCols_def getNRows_def col_of_matrix_def
        all_tracked_def tracks_def part_defs flags_test_def flag_defs less_Suc_eq)
  have eq: "equations_ok ex_probing"
    by (auto simp: equations_ok_def ex_probing_def getNRows_def flags_test_def flag_defs less_Suc_eq)
  have x: "feasible ex_probing [1, 0, 0]"
    by (auto simp: feasible_def rows_satisfied_def in_domains_def integral_point_def in_col_domain_def
        ex_probing_def getNCols_def getNRows_def satisfies_row_def row_value_def flags_test_def flag_defs
        less_Suc_eq)
  have un: "units (snd (simple_probing_execute True 100 exact_num ex_probing no_reductions)) =
     [[mk_red REPLACE 1 (-1), mk_red COL_NONE 0 1], [mk_red REPLACE 2 (-1), mk_red COL_NONE 0 1]]"
    by code_simp
  with simple_probing_sound [OF ok eq _ x prod.collapse [symmetric], of exact_num _ True 100]
  show ?thesis by (simp add: exact_num_def)
qed

end
