(* ===== verification/Pap_Euclid.thy ===== *)
theory Pap_Euclid
  imports Pap_Num
begin

text \<open>
  \<open>src/papilo/misc/extended_euclidean.hpp\<close>, instantiated as the program does with \<open>int64_t\<close>: signed
  overflow is an error of the model, so that the absence of overflow is part of what is proved.
\<close>

datatype euclid_error = DomainError | Overflow

definition int64_max :: int where "int64_max = 9223372036854775807"

definition int64 :: "int \<Rightarrow> euclid_error + int" where
  "int64 z = (if - int64_max - 1 \<le> z \<and> z \<le> int64_max then Inr z else Inl Overflow)"

definition bind_int64 :: "int \<Rightarrow> (int \<Rightarrow> euclid_error + 'a) \<Rightarrow> euclid_error + 'a" where
  "bind_int64 z k = (case int64 z of Inl e \<Rightarrow> Inl e | Inr w \<Rightarrow> k w)"

lemma bind_int64_cong [fundef_cong]:
  "z = z' \<Longrightarrow> (\<And>w. int64 z' = Inr w \<Longrightarrow> k w = k' w) \<Longrightarrow> bind_int64 z k = bind_int64 z' k'"
  by (auto simp: bind_int64_def split: sum.split)

lemma int64_Inr [simp]: "int64 z = Inr w \<longleftrightarrow> w = z \<and> - int64_max - 1 \<le> z \<and> z \<le> int64_max"
  by (auto simp: int64_def)

lemma bind_int64_ok [simp]: "\<bar>z\<bar> \<le> int64_max \<Longrightarrow> bind_int64 z k = k z"
  by (simp add: bind_int64_def int64_def abs_le_iff)

lemma sdiv_remainder: "0 < v \<Longrightarrow> u - u sdiv v * v < (v::int)"
proof (cases "0 \<le> u")
  case True
  assume "0 < v"
  with True show ?thesis
    using pos_mod_bound [of v u] by (simp add: sdiv_nonneg minus_div_mult_eq_mod)
next
  case False
  assume v: "0 < v"
  with False have "u - u sdiv v * v = - ((- u) - (- u) div v * v)" by (simp add: sdiv_neg)
  also have "\<dots> = - ((- u) mod v)" by (simp only: minus_div_mult_eq_mod)
  finally show ?thesis using v pos_mod_sign [of v "- u"] by linarith
qed

text \<open>The loop \<open>while( v0 > 0 )\<close> on the six variables; every product and difference is checked.\<close>

function euclid_loop :: "int \<Rightarrow> int \<Rightarrow> int \<Rightarrow> int \<Rightarrow> int \<Rightarrow> int \<Rightarrow> euclid_error + (int \<times> int \<times> int)" where
  "euclid_loop u0 u1 u2 v0 v1 v2 =
     (if v0 > 0 then
        bind_int64 (u0 sdiv v0 * v0) (\<lambda>p0. bind_int64 (u0 - p0) (\<lambda>w0.
        bind_int64 (u0 sdiv v0 * v1) (\<lambda>p1. bind_int64 (u1 - p1) (\<lambda>w1.
        bind_int64 (u0 sdiv v0 * v2) (\<lambda>p2. bind_int64 (u2 - p2) (\<lambda>w2.
          euclid_loop v0 v1 v2 w0 w1 w2))))))
      else Inr (u0, u1, u2))"
  by pat_completeness auto

termination
  by (relation "measure (\<lambda>(u0, u1, u2, v0, v1, v2). nat v0)") (auto simp: sdiv_remainder)

declare euclid_loop.simps [simp del]

definition extended_euclidean :: "int \<Rightarrow> int \<Rightarrow> euclid_error + (int \<times> int \<times> int)" where
  "extended_euclidean m n =
     (if m < 1 \<or> n < 1 then Inl DomainError
      else let swapped = m < n; (m', n') = (if swapped then (n, m) else (m, n))
        in case euclid_loop m' 1 0 n' 0 1 of
             Inl e \<Rightarrow> Inl e
           | Inr (u0, u1, u2) \<Rightarrow> Inr (if \<not> swapped then (u0, u1, u2) else (u0, u2, u1)))"

section \<open>The loop computes the divisor and its cofactors without overflow\<close>

text \<open>
  The cofactors alternate in sign (\<open>s\<close>), both rows are combinations of the arguments, and the
  determinant of the two rows recovers the arguments, which bounds every cofactor by them.
\<close>

definition euclid_inv :: "int \<Rightarrow> int \<Rightarrow> int \<Rightarrow> int \<Rightarrow> int \<Rightarrow> int \<Rightarrow> int \<Rightarrow> int \<Rightarrow> int \<Rightarrow> bool" where
  "euclid_inv m n s u0 u1 u2 v0 v1 v2 \<longleftrightarrow>
     (s = 1 \<or> s = -1) \<and> 0 < u0 \<and> u0 \<le> m \<and> 0 \<le> v0 \<and> v0 \<le> m \<and>
     0 \<le> s * u1 \<and> s * u2 \<le> 0 \<and> s * v1 \<le> 0 \<and> 0 \<le> s * v2 \<and>
     u1 * m + u2 * n = u0 \<and> v1 * m + v2 * n = v0 \<and>
     s * (u0 * v2 - v0 * u2) = m \<and> s * (v0 * u1 - u0 * v1) = n \<and>
     gcd u0 v0 = gcd m n"

lemma euclid_inv_bounds:
  assumes "euclid_inv m n s u0 u1 u2 v0 v1 v2"
  shows "\<bar>v1\<bar> \<le> n" "\<bar>v2\<bar> \<le> m"
proof -
  have s: "s = 1 \<or> s = -1" and u0: "1 \<le> u0" and v0: "0 \<le> v0"
    and sg: "0 \<le> s * u1" "s * u2 \<le> 0" "s * v1 \<le> 0" "0 \<le> s * v2"
    and det: "s * (u0 * v2 - v0 * u2) = m" "s * (v0 * u1 - u0 * v1) = n"
    using assms by (auto simp: euclid_inv_def)
  have "s * v2 \<le> u0 * (s * v2)" using mult_right_mono [OF u0 sg(4)] by simp
  moreover have "0 \<le> v0 * - (s * u2)" using v0 sg(2) by (intro mult_nonneg_nonneg) auto
  ultimately have "s * v2 \<le> m" using det(1) by (simp add: algebra_simps)
  with sg(4) s show "\<bar>v2\<bar> \<le> m" by auto
  have "- (s * v1) \<le> u0 * - (s * v1)" using mult_right_mono [OF u0, of "- (s * v1)"] sg(3) by simp
  moreover have "0 \<le> v0 * (s * u1)" using v0 sg(1) by simp
  ultimately have "- (s * v1) \<le> n" using det(2) by (simp add: algebra_simps)
  with sg(3) s show "\<bar>v1\<bar> \<le> n" by auto
qed

lemma euclid_inv_step:
  assumes inv: "euclid_inv m n s u0 u1 u2 v0 v1 v2" and "0 < v0"
  defines "q \<equiv> u0 sdiv v0"
  shows "euclid_inv m n (- s) v0 v1 v2 (u0 - q * v0) (u1 - q * v1) (u2 - q * v2)"
    and "0 \<le> q" and "0 \<le> q * v0" and "q * v0 \<le> u0"
proof -
  have u0: "0 < u0" and q: "q = u0 div v0"
    using inv assms(2) by (auto simp: q_def euclid_inv_def sdiv_nonneg)
  have r: "u0 - q * v0 = u0 mod v0" unfolding q by (rule minus_div_mult_eq_mod)
  show q0: "0 \<le> q" unfolding q using u0 assms(2) by (simp add: pos_imp_zdiv_nonneg_iff)
  show "0 \<le> q * v0" using q0 assms(2) by simp
  show "q * v0 \<le> u0" using r pos_mod_sign [OF assms(2), of u0] by linarith
  have w: "0 \<le> u0 - q * v0" "u0 - q * v0 < v0"
    unfolding r using assms(2) by simp_all
  have sg: "s * v1 \<le> 0" "0 \<le> s * v2" "0 \<le> s * u1" "s * u2 \<le> 0" using inv by (auto simp: euclid_inv_def)
  have p: "q * (s * v1) \<le> 0" "0 \<le> q * (s * v2)" using q0 sg by (simp_all add: mult_nonneg_nonpos)
  have "gcd v0 (u0 - q * v0) = gcd m n"
    using inv unfolding r euclid_inv_def by (simp add: gcd_red_int [symmetric] gcd.commute)
  moreover have "- s * (v0 * (u2 - q * v2) - (u0 - q * v0) * v2) = s * (u0 * v2 - v0 * u2)"
    "- s * ((u0 - q * v0) * v1 - v0 * (u1 - q * v1)) = s * (v0 * u1 - u0 * v1)"
    "(u1 - q * v1) * m + (u2 - q * v2) * n = (u1 * m + u2 * n) - q * (v1 * m + v2 * n)"
    by (simp_all add: algebra_simps)
  moreover have "- s * (u1 - q * v1) \<le> 0" "0 \<le> - s * (u2 - q * v2)"
    using p sg by (simp_all add: algebra_simps)
  ultimately show "euclid_inv m n (- s) v0 v1 v2 (u0 - q * v0) (u1 - q * v1) (u2 - q * v2)"
    using inv assms(2) w sg unfolding euclid_inv_def by auto
qed

lemma euclid_products:
  assumes inv: "euclid_inv m n s u0 u1 u2 v0 v1 v2" and "0 < v0"
  shows "\<bar>u0 sdiv v0 * v1\<bar> \<le> n" "\<bar>u0 sdiv v0 * v2\<bar> \<le> m"
proof -
  let ?q = "u0 sdiv v0"
  note step = euclid_inv_step [OF assms]
  note b = euclid_inv_bounds [OF step(1)]
  have s: "s = 1 \<or> s = -1" and sg: "s * v1 \<le> 0" "0 \<le> s * v2" "0 \<le> s * u1" "s * u2 \<le> 0"
    using inv by (auto simp: euclid_inv_def)
  have p: "s * (?q * v1) \<le> 0" "0 \<le> s * (?q * v2)"
    using mult_nonneg_nonpos [OF step(2) sg(1)] mult_nonneg_nonneg [OF step(2) sg(2)]
    by (simp_all add: ac_simps)
  from s p(1) sg(3) b(1) show "\<bar>?q * v1\<bar> \<le> n" by auto
  from s p(2) sg(4) b(2) show "\<bar>?q * v2\<bar> \<le> m" by auto
qed

lemma euclid_loop_correct:
  assumes "euclid_inv m n s u0 u1 u2 v0 v1 v2" and "m \<le> int64_max" and "n \<le> m"
  shows "\<exists>x y. euclid_loop u0 u1 u2 v0 v1 v2 = Inr (gcd m n, x, y) \<and> x * m + y * n = gcd m n"
  using assms
proof (induction u0 u1 u2 v0 v1 v2 arbitrary: s rule: euclid_loop.induct)
  case (1 u0 u1 u2 v0 v1 v2)
  show ?case
  proof (cases "0 < v0")
    case True
    let ?q = "u0 sdiv v0"
    note step = euclid_inv_step [OF "1.prems"(1) True] and prod = euclid_products [OF "1.prems"(1) True]
    have r: "\<bar>?q * v0\<bar> \<le> int64_max" "\<bar>u0 - ?q * v0\<bar> \<le> int64_max" "\<bar>?q * v1\<bar> \<le> int64_max"
      "\<bar>u1 - ?q * v1\<bar> \<le> int64_max" "\<bar>?q * v2\<bar> \<le> int64_max" "\<bar>u2 - ?q * v2\<bar> \<le> int64_max"
      using step prod euclid_inv_bounds [OF step(1)] "1.prems" by (auto simp: euclid_inv_def)
    have "\<exists>x y. euclid_loop v0 v1 v2 (u0 - ?q * v0) (u1 - ?q * v1) (u2 - ?q * v2) = Inr (gcd m n, x, y) \<and>
        x * m + y * n = gcd m n"
      using r step(1) "1.prems"(2,3) True by (intro "1.IH" [of "?q * v0" _ "?q * v1" _ "?q * v2"]) (auto simp: abs_le_iff)
    with r True show ?thesis by (subst euclid_loop.simps) simp
  next
    case False
    then have "v0 = 0" "0 < u0" "gcd u0 v0 = gcd m n" "u1 * m + u2 * n = u0"
      using "1.prems"(1) by (auto simp: euclid_inv_def)
    then show ?thesis by (subst euclid_loop.simps) auto
  qed
qed

lemma euclid_inv_start:
  "1 \<le> n \<Longrightarrow> n \<le> m \<Longrightarrow> euclid_inv m n 1 m 1 0 n 0 1"
  by (auto simp: euclid_inv_def)

lemma extended_euclidean_correct:
  assumes "1 \<le> m" and "1 \<le> n" and "m \<le> int64_max" and "n \<le> int64_max"
  shows "\<exists>x y. extended_euclidean m n = Inr (gcd m n, x, y) \<and> x * m + y * n = gcd m n"
proof (cases "m < n")
  case True
  then obtain x y where "euclid_loop n 1 0 m 0 1 = Inr (gcd n m, x, y)" "x * n + y * m = gcd n m"
    using euclid_loop_correct [OF euclid_inv_start [OF assms(1), of n] assms(4)] by auto
  with True assms show ?thesis by (auto simp: extended_euclidean_def gcd.commute add.commute)
next
  case False
  then obtain x y where "euclid_loop m 1 0 n 0 1 = Inr (gcd m n, x, y)" "x * m + y * n = gcd m n"
    using euclid_loop_correct [OF euclid_inv_start [OF assms(2), of m] assms(3)] by auto
  with False assms show ?thesis by (auto simp: extended_euclidean_def)
qed

text \<open>
  C32. On positive arguments within \<open>int64_t\<close> the extended Euclidean algorithm terminates without a
  signed overflow in any of its products and differences and returns the greatest common divisor
  with cofactors that combine the arguments to it; on other arguments it raises its domain error.
\<close>

theorem extended_euclidean_total:
  assumes "m \<le> int64_max" and "n \<le> int64_max"
  shows "(if m < 1 \<or> n < 1 then extended_euclidean m n = Inl DomainError
    else \<exists>x y. extended_euclidean m n = Inr (gcd m n, x, y) \<and> x * m + y * n = gcd m n)"
  using extended_euclidean_correct [OF _ _ assms] by (simp add: extended_euclidean_def)

theorem extended_euclidean_total_witness:
  "extended_euclidean 12 42 = Inr (6, -3, 1) \<and> (-3) * 12 + 1 * 42 = gcd 12 (42::int)"
proof -
  have "extended_euclidean 12 42 = Inr (6, -3, 1)" by code_simp
  moreover have "\<exists>x y. extended_euclidean 12 42 = Inr (gcd 12 42, x, y) \<and> x * 12 + y * 42 = gcd 12 42"
    using extended_euclidean_total [of 12 42] by (simp add: int64_max_def)
  ultimately show ?thesis by auto
qed

end
