(* ===== verification/Pap_SimpleSubstitution.thy ===== *)
theory Pap_SimpleSubstitution
  imports Pap_RowPresolvers Pap_Euclid
begin

text \<open>
  \<open>src/papilo/presolvers/SimpleSubstitution.hpp\<close>: equalities with two columns, from which one
  column is substituted or infeasibility is derived; with the guard of
  \<open>core/PresolveMethod.hpp\<close> and the tie breaking of \<open>core/ProblemUpdate.hpp\<close>.
\<close>

section \<open>The guards\<close>

text \<open>The least and greatest absolute value of a vector; \<open>-1\<close> is the initial minimum.\<close>

definition min_max_abs :: "sparse_vec \<Rightarrow> rat \<times> rat" where
  "min_max_abs vec = foldl (\<lambda>(mn, mx) (_, v).
     (if mn = -1 \<or> \<bar>mn\<bar> > \<bar>v\<bar> then \<bar>v\<bar> else mn, if \<bar>mx\<bar> < \<bar>v\<bar> then \<bar>v\<bar> else mx)) (-1, 0) vec"

definition check_if_substitution_generates_huge_or_small_coefficients ::
  "Num \<Rightarrow> problem \<Rightarrow> nat \<Rightarrow> nat \<Rightarrow> bool" where
  "check_if_substitution_generates_huge_or_small_coefficients num p equalityrow col =
     (let colvec = col_coeffs p ! col; rowvec = row_coeffs p ! equalityrow;
          coeff = foldl (\<lambda>co (r, v). if r = equalityrow then v else co) 0 colvec;
          (min_col, max_col) = min_max_abs colvec;
          (min_row, max_row) = min_max_abs (filter (\<lambda>(c, _). c \<noteq> col) rowvec)
      in if isHugeVal num coeff then False
         else \<not> (isHugeVal num max_col \<or> isHugeVal num max_row \<or>
           isHugeVal num (max_col / coeff * max_row) \<or> isZero num (min_col / coeff * min_row)))"

definition check_sparsification_condition_on_substitution :: "problem \<Rightarrow> nat list \<Rightarrow> nat \<Rightarrow> nat \<Rightarrow> bool" where
  "check_sparsification_condition_on_substitution p random_col_perm col1 col2 =
     (if colsize p ! col1 < colsize p ! col2 then True
      else if colsize p ! col2 < colsize p ! col1 then False
      else if obj_coeffs p ! col1 = 0 \<and> obj_coeffs p ! col2 \<noteq> 0 then True
      else if obj_coeffs p ! col1 \<noteq> 0 \<and> obj_coeffs p ! col2 = 0 then False
      else random_col_perm ! col1 < random_col_perm ! col2)"

section \<open>The bounds of the aggregated column\<close>

text \<open>
  \<open>subst\<close> and \<open>stay\<close> are positions (0 or 1) in the row; the code reads the bound vectors of the
  problem at these positions.
\<close>

definition isConstraintsFeasibleWithGivenBounds ::
  "Num \<Rightarrow> rat list \<Rightarrow> rat list \<Rightarrow> rat list \<Rightarrow> rat \<Rightarrow> nat \<Rightarrow> nat \<Rightarrow> int \<times> int \<times> int \<Rightarrow> bool" where
  "isConstraintsFeasibleWithGivenBounds num lbs ubs vals rhs subst stay res =
     (case res of (g, rx, ry) \<Rightarrow>
       let s = of_int rx * (if vals ! stay < 0 then - rhs else rhs);
           t = of_int ry * (if vals ! subst < 0 then - rhs else rhs);
           ub_y = (t - lbs ! subst) / vals ! stay;
           lb_y = (t - ubs ! subst) / vals ! stay;
           (ub_sol_y, lb_sol_y) = (if vals ! stay < 0 then (lb_y, ub_y) else (ub_y, lb_y));
           ub_x = (ubs ! stay - s) / vals ! subst;
           lb_x = (lbs ! stay - s) / vals ! subst;
           (ub_sol_x, lb_sol_x) = (if vals ! subst < 0 then (lb_x, ub_x) else (ub_x, lb_x))
       in isFeasLE num (epsCeil num (num_max lb_sol_x lb_sol_y)) (epsFloor num (num_min ub_sol_x ub_sol_y)))"

section \<open>One row\<close>

text \<open>
  \<open>static_cast<int64_t>\<close> of the rounded coefficients; the call is guarded against larger values
  and neither raises nor overflows (\<open>euclid_of_coefficients\<close> below), so that the value on an error is
  never used.
\<close>

definition euclid_result :: "rat \<Rightarrow> rat \<Rightarrow> int \<times> int \<times> int" where
  "euclid_result a b = (case extended_euclidean (trunc_int \<bar>a\<bar>) (trunc_int \<bar>b\<bar>) of
     Inr r \<Rightarrow> r | Inl e \<Rightarrow> (0, 0, 0))"

text \<open>The three results of the choice of the column to substitute.\<close>

datatype choice = Return PresolveStatus | Substitute nat

definition choose_integral :: "Num \<Rightarrow> problem \<Rightarrow> nat list \<Rightarrow> nat \<Rightarrow> choice" where
  "choose_integral num p random_col_perm i =
     (let inds = map fst (row_coeffs p ! i); vals = map snd (row_coeffs p ! i); rhs = rhs_values p ! i;
          subst = (if \<bar>vals ! 0\<bar> < \<bar>vals ! 1\<bar> \<or> (\<bar>vals ! 0\<bar> = \<bar>vals ! 1\<bar> \<and>
              check_sparsification_condition_on_substitution p random_col_perm (inds ! 0) (inds ! 1))
            then 0 else 1);
          stay = 1 - subst
      in if \<not> isIntegral num (vals ! stay / vals ! subst) then
           (if \<not> isIntegral num (vals ! stay) \<or> \<not> isIntegral num (vals ! subst) then Return kUnchanged
            else let nvals = map num_round vals
              in if max \<bar>nvals ! 0\<bar> \<bar>nvals ! 1\<bar> > of_int int64_max then Return kUnchanged
                 else case euclid_result (nvals ! stay) (nvals ! subst) of (g, rx, ry) \<Rightarrow>
                   let nrhs = num_round (rhs / of_int g)
                   in if \<not> isFeasEq num rhs (nrhs * of_int g) then Return kInfeasibleStatus
                      else if \<not> isConstraintsFeasibleWithGivenBounds num (prob_lbs p) (prob_ubs p)
                          (map (\<lambda>v. v / of_int g) nvals) nrhs subst stay (1, rx, ry)
                      then Return kInfeasibleStatus else Return kUnchanged)
         else if \<not> isFeasEq num rhs (num_round (rhs / vals ! subst) * vals ! subst)
         then Return kInfeasibleStatus
         else Substitute subst)"

definition choose_continuous :: "Num \<Rightarrow> rat \<Rightarrow> problem \<Rightarrow> nat list \<Rightarrow> nat \<Rightarrow> choice" where
  "choose_continuous num markowitz_tolerance p random_col_perm i =
     (let inds = map fst (row_coeffs p ! i); vals = map snd (row_coeffs p ! i);
          absval0 = \<bar>vals ! 0\<bar>; absval1 = \<bar>vals ! 1\<bar>;
          integral0 = isIntegral num (absval0 / absval1);
          integral1 = isIntegral num (absval1 / absval0)
      in Substitute
        (if integral1 \<and> \<not> integral0 then 1
         else if integral0 \<and> \<not> integral1 then 0
         else if absval0 * markowitz_tolerance > absval1 then 0
         else if absval1 * markowitz_tolerance > absval0 then 1
         else if check_sparsification_condition_on_substitution p random_col_perm (inds ! 0) (inds ! 1)
         then 0 else 1))"

definition choose_substitution :: "Num \<Rightarrow> rat \<Rightarrow> problem \<Rightarrow> nat list \<Rightarrow> nat \<Rightarrow> choice" where
  "choose_substitution num markowitz_tolerance p random_col_perm i =
     (let inds = map fst (row_coeffs p ! i);
          int0 = flags_test (prob_cflags p ! (inds ! 0)) [kIntegral];
          int1 = flags_test (prob_cflags p ! (inds ! 1)) [kIntegral]
      in if int0 \<noteq> int1 then Substitute (if int0 then 1 else 0)
         else if int0 then choose_integral num p random_col_perm i
         else choose_continuous num markowitz_tolerance p random_col_perm i)"

text \<open>The bounds that the bounds of the substituted column impose on the other one.\<close>

definition transfer_lower :: "Num \<Rightarrow> problem \<Rightarrow> rat \<Rightarrow> nat \<times> rat \<Rightarrow> nat \<times> rat \<Rightarrow> Reductions \<Rightarrow> Reductions" where
  "transfer_lower num p rhs sub sta R = (case (sub, sta) of ((subst, vsub), (stay, vstay)) \<Rightarrow>
     let domains = prob_domains p; s = vsub * vstay;
         staybound = (rhs - vsub * lower_bounds domains ! subst) / vstay
     in if flags_test (col_flags domains ! subst) [kLbInf] then R
        else let R1 = (if s < 0 \<and> (flags_test (col_flags domains ! stay) [kLbInf] \<or>
                  isGT num staybound (lower_bounds domains ! stay)) then changeColLB stay staybound (-1) R else R)
          in if s > 0 \<and> (flags_test (col_flags domains ! stay) [kUbInf] \<or>
                isLT num staybound (upper_bounds domains ! stay)) then changeColUB stay staybound (-1) R1 else R1)"

definition transfer_upper :: "problem \<Rightarrow> rat \<Rightarrow> nat \<times> rat \<Rightarrow> nat \<times> rat \<Rightarrow> Reductions \<Rightarrow> Reductions" where
  "transfer_upper p rhs sub sta R = (case (sub, sta) of ((subst, vsub), (stay, vstay)) \<Rightarrow>
     let domains = prob_domains p; s = vsub * vstay;
         staybound = (rhs - vsub * upper_bounds domains ! subst) / vstay
     in if flags_test (col_flags domains ! subst) [kUbInf] then R
        else let R1 = (if s > 0 \<and> (flags_test (col_flags domains ! stay) [kLbInf] \<or>
                  staybound > lower_bounds domains ! stay) then changeColLB stay staybound (-1) R else R)
          in if s < 0 \<and> (flags_test (col_flags domains ! stay) [kUbInf] \<or>
                staybound < upper_bounds domains ! stay) then changeColUB stay staybound (-1) R1 else R1)"

definition perform_simple_substitution_step ::
  "Num \<Rightarrow> rat \<Rightarrow> problem \<Rightarrow> nat list \<Rightarrow> nat list \<Rightarrow> nat \<Rightarrow> Reductions \<Rightarrow> PresolveStatus \<times> Reductions" where
  "perform_simple_substitution_step num markowitz_tolerance p random_col_perm rowperm k R =
     (let i = rowperm ! k; rflags = row_flags p ! i
      in if flags_test rflags [kRedundantRow] \<or> \<not> flags_test rflags [kEquation] \<or> rowsize p ! i \<noteq> 2
         then (kUnchanged, R)
         else case choose_substitution num markowitz_tolerance p random_col_perm i of
           Return status \<Rightarrow> (status, R)
         | Substitute subst \<Rightarrow>
             let sub = row_coeffs p ! i ! subst; sta = row_coeffs p ! i ! (1 - subst); rhs = rhs_values p ! i
             in if \<not> check_if_substitution_generates_huge_or_small_coefficients num p i (fst sub)
                then (kUnchanged, R)
                else (kReduced, TransactionGuard (\<lambda>R.
                  aggregateFreeCol (fst sub) i (transfer_upper p rhs sub sta (transfer_lower num p rhs sub sta
                    (lockColBounds (fst sub) (lockRow i R))))) R))"

definition simple_substitution_execute ::
  "bool \<Rightarrow> nat \<Rightarrow> Num \<Rightarrow> rat \<Rightarrow> problem \<Rightarrow> nat list \<Rightarrow> nat list \<Rightarrow> Reductions \<Rightarrow> PresolveStatus \<times> Reductions"
where
  "simple_substitution_execute sequential max_seq num markowitz_tolerance p random_col_perm rowperm R =
     (if sequential
      then sequential_loop max_seq (perform_simple_substitution_step num markowitz_tolerance p random_col_perm rowperm)
        [0..<getNRows p] kUnchanged R
      else parallel_run (perform_simple_substitution_step num markowitz_tolerance p random_col_perm rowperm)
        [0..<getNRows p] R)"

section \<open>What it emits\<close>

definition lower_transfers :: "Num \<Rightarrow> problem \<Rightarrow> rat \<Rightarrow> nat \<times> rat \<Rightarrow> nat \<times> rat \<Rightarrow> Reduction list" where
  "lower_transfers num p rhs sub sta = (case (sub, sta) of ((subst, vsub), (stay, vstay)) \<Rightarrow>
     let domains = prob_domains p; s = vsub * vstay;
         staybound = (rhs - vsub * lower_bounds domains ! subst) / vstay
     in if flags_test (col_flags domains ! subst) [kLbInf] then []
        else (if s < 0 \<and> (flags_test (col_flags domains ! stay) [kLbInf] \<or>
                  isGT num staybound (lower_bounds domains ! stay))
              then [mk_red LOWER_BOUND (int stay) staybound] else []) @
          (if s > 0 \<and> (flags_test (col_flags domains ! stay) [kUbInf] \<or>
                isLT num staybound (upper_bounds domains ! stay))
           then [mk_red UPPER_BOUND (int stay) staybound] else []))"

definition upper_transfers :: "problem \<Rightarrow> rat \<Rightarrow> nat \<times> rat \<Rightarrow> nat \<times> rat \<Rightarrow> Reduction list" where
  "upper_transfers p rhs sub sta = (case (sub, sta) of ((subst, vsub), (stay, vstay)) \<Rightarrow>
     let domains = prob_domains p; s = vsub * vstay;
         staybound = (rhs - vsub * upper_bounds domains ! subst) / vstay
     in if flags_test (col_flags domains ! subst) [kUbInf] then []
        else (if s > 0 \<and> (flags_test (col_flags domains ! stay) [kLbInf] \<or>
                  staybound > lower_bounds domains ! stay)
              then [mk_red LOWER_BOUND (int stay) staybound] else []) @
          (if s < 0 \<and> (flags_test (col_flags domains ! stay) [kUbInf] \<or>
                staybound < upper_bounds domains ! stay)
           then [mk_red UPPER_BOUND (int stay) staybound] else []))"

definition substitution_reds :: "Num \<Rightarrow> problem \<Rightarrow> nat \<Rightarrow> nat \<times> rat \<Rightarrow> nat \<times> rat \<Rightarrow> Reduction list" where
  "substitution_reds num p i sub sta =
     [mk_red (int i) ROW_LOCKED 0, mk_red BOUNDS_LOCKED (int (fst sub)) 0] @
     lower_transfers num p (rhs_values p ! i) sub sta @ upper_transfers p (rhs_values p ! i) sub sta @
     [mk_red SUBSTITUTE (int (fst sub)) (of_nat i)]"

definition simple_substitution_emits ::
  "Num \<Rightarrow> rat \<Rightarrow> problem \<Rightarrow> nat list \<Rightarrow> nat list \<Rightarrow> nat \<Rightarrow> PresolveStatus \<times> emission list" where
  "simple_substitution_emits num markowitz_tolerance p random_col_perm rowperm k =
     (let i = rowperm ! k; rflags = row_flags p ! i
      in if flags_test rflags [kRedundantRow] \<or> \<not> flags_test rflags [kEquation] \<or> rowsize p ! i \<noteq> 2
         then (kUnchanged, [])
         else case choose_substitution num markowitz_tolerance p random_col_perm i of
           Return status \<Rightarrow> (status, [])
         | Substitute subst \<Rightarrow>
             if \<not> check_if_substitution_generates_huge_or_small_coefficients num p i
                  (fst (row_coeffs p ! i ! subst))
             then (kUnchanged, [])
             else (kReduced, [Trans 2 (substitution_reds num p i (row_coeffs p ! i ! subst)
                  (row_coeffs p ! i ! (1 - subst)))]))"

lemma cond_appends:
  "(if c then append_reds 0 rs R else R) = append_reds 0 (if c then rs else []) R"
  "(if c then R else append_reds 0 rs R) = append_reds 0 (if c then [] else rs) R"
  by simp_all

lemma bound_appends:
  "changeColLB col v (-1) = append_reds 0 [mk_red LOWER_BOUND (int col) v]"
  "changeColUB col v (-1) = append_reds 0 [mk_red UPPER_BOUND (int col) v]"
  by (rule ext, simp add: changeColLB_def changeColUB_def save_forcing_row_def add_reduction_appends)+

lemma transfer_appends:
  "transfer_lower num p rhs sub sta R = append_reds 0 (lower_transfers num p rhs sub sta) R"
  "transfer_upper p rhs sub sta R = append_reds 0 (upper_transfers p rhs sub sta) R"
  by (cases sub; cases sta;
      simp only: transfer_lower_def transfer_upper_def lower_transfers_def upper_transfers_def Let_def
        bound_appends cond_appends append_reds_append_reds prod.case add_0)+

lemma choose_never_reduced:
  assumes "choose_substitution num m p perm i = Return s"
  shows "s = kUnchanged \<or> s = kInfeasibleStatus"
proof -
  have "choose_integral num p perm i = Return s"
    using assms by (simp only: choose_substitution_def choose_continuous_def Let_def choice.distinct split: if_splits)
  then show ?thesis
    by (simp only: choose_integral_def Let_def choice.inject choice.distinct split: if_splits prod.splits) blast+
qed

lemma simple_substitution_step_emits:
  "perform_simple_substitution_step num m p perm rowperm k R =
   (fst (simple_substitution_emits num m p perm rowperm k),
    emit_all (snd (simple_substitution_emits num m p perm rowperm k)) R)"
proof -
  have "TransactionGuard (\<lambda>R.
      aggregateFreeCol (fst sub) i (transfer_upper p (rhs_values p ! i) sub sta
        (transfer_lower num p (rhs_values p ! i) sub sta
          (lockColBounds (fst sub) (lockRow i R))))) R =
    emit (Trans 2 (substitution_reds num p i sub sta)) R" for i sub sta
    by (simp add: TransactionGuard_def aggregateFreeCol_def lockColBounds_def lockRow_def transfer_appends
        add_reduction_appends guard_emits substitution_reds_def numeral_2_eq_2 del: emit.simps)
  then show ?thesis
    by (auto simp: perform_simple_substitution_step_def simple_substitution_emits_def Let_def
        simp del: emit.simps split: choice.split)
qed

interpretation substitution: transaction_presolver "perform_simple_substitution_step num m p perm rowperm"
    "simple_substitution_emits num m p perm rowperm" for num m p perm rowperm
proof
  fix k R
  show "perform_simple_substitution_step num m p perm rowperm k R =
      (fst (simple_substitution_emits num m p perm rowperm k),
       emit_all (snd (simple_substitution_emits num m p perm rowperm k)) R)"
    by (rule simple_substitution_step_emits)
qed (auto simp: simple_substitution_emits_def Let_def substitution_reds_def is_lock_def row_codes col_codes
    split: choice.splits if_splits dest: choose_never_reduced)

section \<open>The transferred bounds are those of the substituted column\<close>

definition bound_holds :: "rat list \<Rightarrow> Reduction \<Rightarrow> bool" where
  "bound_holds x r \<longleftrightarrow>
     (red_row r = LOWER_BOUND \<longrightarrow> red_newval r \<le> x ! nat (red_col r)) \<and>
     (red_row r = UPPER_BOUND \<longrightarrow> x ! nat (red_col r) \<le> red_newval r)"

abbreviation bounds_hold :: "rat list \<Rightarrow> Reduction list \<Rightarrow> bool" where
  "bounds_hold x rs \<equiv> list_all (bound_holds x) rs"

lemma bound_holds_simps [simp]:
  "bound_holds x (mk_red LOWER_BOUND (int c) v) \<longleftrightarrow> v \<le> x ! c"
  "bound_holds x (mk_red UPPER_BOUND (int c) v) \<longleftrightarrow> x ! c \<le> v"
  "bound_holds x (mk_red (int i) k v)"
  "bound_holds x (mk_red BOUNDS_LOCKED k v)"
  "bound_holds x (mk_red SUBSTITUTE k v)"
  by (simp_all add: bound_holds_def col_codes)

lemma bound_of_partner:
  fixes vs vt :: rat
  assumes "vs * a + vt * b = rhs" and "vt \<noteq> 0"
  shows "0 < vs * vt \<Longrightarrow> l \<le> a \<longleftrightarrow> b \<le> (rhs - vs * l) / vt"
    and "vs * vt < 0 \<Longrightarrow> l \<le> a \<longleftrightarrow> (rhs - vs * l) / vt \<le> b"
    and "0 < vs * vt \<Longrightarrow> a \<le> l \<longleftrightarrow> (rhs - vs * l) / vt \<le> b"
    and "vs * vt < 0 \<Longrightarrow> a \<le> l \<longleftrightarrow> b \<le> (rhs - vs * l) / vt"
proof -
  have d: "b - (rhs - vs * l) / vt = (l - a) * (vs / vt)"
    using assms by (simp add: field_simps)
  have q: "0 < vs / vt \<longleftrightarrow> 0 < vs * vt" "vs / vt < 0 \<longleftrightarrow> vs * vt < 0"
    by (auto simp: zero_less_divide_iff zero_less_mult_iff divide_less_0_iff mult_less_0_iff)
  have "b \<le> (rhs - vs * l) / vt \<longleftrightarrow> (l - a) * (vs / vt) \<le> 0"
    "(rhs - vs * l) / vt \<le> b \<longleftrightarrow> 0 \<le> (l - a) * (vs / vt)"
    unfolding d [symmetric] by linarith+
  moreover have "0 < k \<Longrightarrow> ((l - a) * k \<le> 0 \<longleftrightarrow> l \<le> a) \<and> (0 \<le> (l - a) * k \<longleftrightarrow> a \<le> l)"
    "k < 0 \<Longrightarrow> ((l - a) * k \<le> 0 \<longleftrightarrow> a \<le> l) \<and> (0 \<le> (l - a) * k \<longleftrightarrow> l \<le> a)" for k :: rat
    by (auto simp: mult_le_0_iff zero_le_mult_iff)
  ultimately show "0 < vs * vt \<Longrightarrow> l \<le> a \<longleftrightarrow> b \<le> (rhs - vs * l) / vt"
    "vs * vt < 0 \<Longrightarrow> l \<le> a \<longleftrightarrow> (rhs - vs * l) / vt \<le> b"
    "0 < vs * vt \<Longrightarrow> a \<le> l \<longleftrightarrow> (rhs - vs * l) / vt \<le> b"
    "vs * vt < 0 \<Longrightarrow> a \<le> l \<longleftrightarrow> b \<le> (rhs - vs * l) / vt"
    unfolding q [symmetric] by blast+
qed

lemma lower_transfers_hold:
  assumes "vs * x ! s + vt * x ! t = rhs" and "vs \<noteq> 0" "vt \<noteq> 0" and "epsilon num = 0"
    and t: "in_col_domain (prob_domains p) t (x ! t)"
  shows "bounds_hold x (lower_transfers num p rhs (s, vs) (t, vt)) \<longleftrightarrow>
    (flags_test (prob_cflags p ! s) [kLbInf] \<or> prob_lbs p ! s \<le> x ! s)"
proof -
  note b = bound_of_partner [OF assms(1,3), of "prob_lbs p ! s"]
  have "0 < vs * vt \<or> vs * vt < 0" using assms(2,3) by (simp add: linorder_neq_iff [symmetric])
  then show ?thesis
  proof
    assume "0 < vs * vt"
    with b(1) t show ?thesis
      by (auto simp: lower_transfers_def Let_def exact_eps [OF assms(4)] in_col_domain_def)
  next
    assume "vs * vt < 0"
    with b(2) t show ?thesis
      by (auto simp: lower_transfers_def Let_def exact_eps [OF assms(4)] in_col_domain_def)
  qed
qed

lemma upper_transfers_hold:
  assumes "vs * x ! s + vt * x ! t = rhs" and "vs \<noteq> 0" "vt \<noteq> 0"
    and t: "in_col_domain (prob_domains p) t (x ! t)"
  shows "bounds_hold x (upper_transfers p rhs (s, vs) (t, vt)) \<longleftrightarrow>
    (flags_test (prob_cflags p ! s) [kUbInf] \<or> x ! s \<le> prob_ubs p ! s)"
proof -
  note b = bound_of_partner [OF assms(1,3), of "prob_ubs p ! s"]
  have "0 < vs * vt \<or> vs * vt < 0" using assms(2,3) by (simp add: linorder_neq_iff [symmetric])
  then show ?thesis
  proof
    assume "0 < vs * vt"
    with b(3) t show ?thesis by (auto simp: upper_transfers_def Let_def in_col_domain_def)
  next
    assume "vs * vt < 0"
    with b(4) t show ?thesis by (auto simp: upper_transfers_def Let_def in_col_domain_def)
  qed
qed

lemma substitution_bounds:
  assumes "vs * x ! s + vt * x ! t = rhs_values p ! i" and "vs \<noteq> 0" "vt \<noteq> 0" and "epsilon num = 0"
    and "in_col_domain (prob_domains p) t (x ! t)"
  shows "bounds_hold x (substitution_reds num p i (s, vs) (t, vt)) \<longleftrightarrow> in_col_domain (prob_domains p) s (x ! s)"
  using lower_transfers_hold [OF assms] upper_transfers_hold [OF assms(1-3,5)]
  by (simp add: substitution_reds_def in_col_domain_def)

section \<open>Integrality\<close>

lemma exact_integral:
  assumes "epsilon num = 0"
  shows "isIntegral num a \<longleftrightarrow> a \<in> \<int>"
proof
  show "isIntegral num a \<Longrightarrow> a \<in> \<int>"
    by (simp add: isIntegral_def exact_eps [OF assms] num_round_eq) (metis Ints_of_int)
  show "a \<in> \<int> \<Longrightarrow> isIntegral num a"
    by (auto simp: isIntegral_def exact_eps [OF assms] elim!: Ints_cases)
qed

lemma rounded_quotient:
  assumes "v \<noteq> 0"
  shows "rhs = num_round (rhs / v) * v \<longleftrightarrow> rhs / v \<in> \<int>"
proof
  assume "rhs = num_round (rhs / v) * v"
  then have "rhs / v = num_round (rhs / v)" using assms by (simp add: field_simps)
  then show "rhs / v \<in> \<int>" by (metis Ints_of_int num_round_eq)
next
  assume "rhs / v \<in> \<int>"
  then obtain k where k: "rhs / v = of_int k" by (elim Ints_cases)
  then have "num_round (rhs / v) = of_int k" by simp
  with k assms show "rhs = num_round (rhs / v) * v" by (simp add: field_simps)
qed

lemma partner_integral:
  assumes "vs * a + vt * b = (rhs::rat)" and "vs \<noteq> 0" and "vt / vs \<in> \<int>" and "b \<in> \<int>"
  shows "a \<in> \<int> \<longleftrightarrow> rhs / vs \<in> \<int>"
proof -
  have "rhs / vs = a + vt / vs * b" using assms(1,2) by (simp add: field_simps)
  moreover have "vt / vs * b \<in> \<int>" by (rule Ints_mult [OF assms(3,4)])
  ultimately show ?thesis by (metis Ints_add Ints_diff add_diff_cancel_right')
qed

section \<open>The emitted substitution is valid\<close>

lemma choose_integral_substitute:
  assumes "choose_integral num p perm i = Substitute j" and "epsilon num = 0" and "feastol num = 0"
  defines "vals \<equiv> map snd (row_coeffs p ! i)"
  assumes "vals ! j \<noteq> 0"
  shows "j < 2 \<and> vals ! (1 - j) / vals ! j \<in> \<int> \<and> rhs_values p ! i / vals ! j \<in> \<int>"
proof -
  have "j < 2 \<and> isIntegral num (vals ! (1 - j) / vals ! j) \<and>
      isFeasEq num (rhs_values p ! i) (num_round (rhs_values p ! i / vals ! j) * vals ! j)"
    using assms(1) unfolding vals_def
    by (simp only: choose_integral_def Let_def choice.inject choice.distinct split: if_splits prod.splits)
      (auto simp only: less_2_cases_iff)
  then show ?thesis
    by (simp only: exact_integral [OF assms(2)] exact_feas [OF assms(3)] rounded_quotient [OF assms(5)])
qed

lemma choose_substitute:
  assumes "choose_substitution num m p perm i = Substitute j" and "epsilon num = 0" and "feastol num = 0"
    and "snd (row_coeffs p ! i ! j) \<noteq> 0" and "length (row_coeffs p ! i) = 2"
  shows "j < 2 \<and> (flags_test (prob_cflags p ! fst (row_coeffs p ! i ! j)) [kIntegral] \<longrightarrow>
    flags_test (prob_cflags p ! fst (row_coeffs p ! i ! (1 - j))) [kIntegral] \<and>
    snd (row_coeffs p ! i ! (1 - j)) / snd (row_coeffs p ! i ! j) \<in> \<int> \<and>
    rhs_values p ! i / snd (row_coeffs p ! i ! j) \<in> \<int>)"
proof (cases "choose_integral num p perm i = Substitute j \<and>
    flags_test (prob_cflags p ! fst (row_coeffs p ! i ! 0)) [kIntegral] \<and>
    flags_test (prob_cflags p ! fst (row_coeffs p ! i ! 1)) [kIntegral]")
  case True
  have "j = 0 \<or> j = 1"
    using True by (simp only: choose_integral_def Let_def choice.inject choice.distinct split: if_splits prod.splits) blast+
  with True choose_integral_substitute [of num p perm i j] assms(2-5) show ?thesis by auto
next
  case False
  with assms(1,5) have "j < 2 \<and> \<not> flags_test (prob_cflags p ! fst (row_coeffs p ! i ! j)) [kIntegral]"
    unfolding choose_substitution_def choose_continuous_def Let_def
    by (simp add: nth_map split: if_splits)
  then show ?thesis by blast
qed

definition sizes_ok :: "problem \<Rightarrow> bool" where
  "sizes_ok p \<longleftrightarrow> (\<forall>i<getNRows p. rowsize p ! i = int (length (row_coeffs p ! i)))"

lemma two_entries:
  assumes "length row = 2" and "j < 2"
  shows "row_value row x = snd (row ! j) * x ! fst (row ! j) + snd (row ! (1 - j)) * x ! fst (row ! (1 - j))"
proof -
  obtain a b where "row = [a, b]" using assms(1) by (auto simp: length_Suc_conv numeral_2_eq_2)
  with assms(2) show ?thesis by (cases a; cases b) (auto simp: row_value_def less_2_cases_iff)
qed

lemma substitution_emitted_cases:
  assumes "rs \<in> set (substitution.emitted num m p perm rowperm k)"
  obtains j where "flags_test (row_flags p ! (rowperm ! k)) [kEquation]" "rowsize p ! (rowperm ! k) = 2"
    "choose_substitution num m p perm (rowperm ! k) = Substitute j"
    "rs = substitution_reds num p (rowperm ! k) (row_coeffs p ! (rowperm ! k) ! j)
       (row_coeffs p ! (rowperm ! k) ! (1 - j))"
  using assms
  by (auto simp: substitution.emitted_def simple_substitution_emits_def Let_def split: if_splits choice.splits)

lemma substitution_emitted_valid:
  assumes ok: "problem_ok p" "equations_ok p" "sizes_ok p" "epsilon num = 0" "feastol num = 0"
    and i: "rowperm ! k < getNRows p" and rs: "rs \<in> set (substitution.emitted num m p perm rowperm k)"
    and x: "row_holds p (rowperm ! k) x"
  shows "\<exists>sub stay. {sub, stay} = fst ` set (row_coeffs p ! (rowperm ! k)) \<and>
    last rs = mk_red SUBSTITUTE (int sub) (of_nat (rowperm ! k)) \<and>
    (in_col_domain (prob_domains p) stay (x ! stay) \<and> integral_ok (prob_domains p) stay (x ! stay) \<longrightarrow>
      (in_col_domain (prob_domains p) sub (x ! sub) \<and> integral_ok (prob_domains p) sub (x ! sub) \<longleftrightarrow>
       bounds_hold x rs))"
proof -
  let ?i = "rowperm ! k" and ?row = "row_coeffs p ! (rowperm ! k)"
  from rs obtain j where j: "flags_test (row_flags p ! ?i) [kEquation]" "rowsize p ! ?i = 2"
    "choose_substitution num m p perm ?i = Substitute j"
    "rs = substitution_reds num p ?i (?row ! j) (?row ! (1 - j))"
    by (rule substitution_emitted_cases)
  have len: "length ?row = 2" using j(2) ok(3) i by (auto simp: sizes_ok_def)
  note row = problem_row [OF ok(1) i]
  have nz: "snd (?row ! l) \<noteq> 0" if "l < 2" for l
    using row(1) len that nth_mem [of l ?row] by (auto simp: case_prod_unfold)
  have j2: "j < 2"
    using j(3) unfolding choose_substitution_def choose_continuous_def choose_integral_def Let_def
    by (simp only: choice.inject choice.distinct split: if_splits prod.splits)
  note sub = choose_substitute [OF j(3) ok(4,5) nz [OF j2] len]
  have other: "1 - j < 2" by simp
  obtain s vs t vt where st: "?row ! j = (s, vs)" "?row ! (1 - j) = (t, vt)" by (metis surj_pair)
  have eq: "vs * x ! s + vt * x ! t = rhs_values p ! ?i"
    using equation_value [OF ok(2) i j(1) x] two_entries [OF len j2, of x] by (simp add: st del: One_nat_def)
  have v: "vs \<noteq> 0" "vt \<noteq> 0" using nz [OF j2] nz [OF other] by (simp_all add: st del: One_nat_def)
  have "{s, t} = fst ` set ?row"
  proof -
    obtain a b where "?row = [a, b]" using len by (auto simp: length_Suc_conv numeral_2_eq_2)
    then show ?thesis using st j2 by (auto simp: less_2_cases_iff)
  qed
  moreover have "integral_ok (prob_domains p) s (x ! s)" if "integral_ok (prob_domains p) t (x ! t)"
    using sub that partner_integral [OF eq v(1)] unfolding integral_ok_def st by auto
  moreover have rs_eq: "rs = substitution_reds num p ?i (s, vs) (t, vt)"
    unfolding j(4) st ..
  moreover have "last rs = mk_red SUBSTITUTE (int s) (of_nat ?i)"
    unfolding rs_eq by (simp add: substitution_reds_def)
  moreover note substitution_bounds [OF eq v ok(4), folded rs_eq]
  ultimately show ?thesis by blast
qed

text \<open>
  C30. In exact arithmetic (\<open>epsilon\<close> and \<open>feastol\<close> zero), every transaction that simple substitution
  emits substitutes a column of an equality with two columns, and at points that satisfy the rows and
  whose staying column lies in its domain and is integral where required, the bounds it transfers to the
  staying column hold iff the substituted column is in its bounds and integral where required.
\<close>

theorem simple_substitution_sound:
  assumes "problem_ok p" and "equations_ok p" and "sizes_ok p" and "epsilon num = 0" and "feastol num = 0"
    and "\<forall>k<getNRows p. rowperm ! k < getNRows p" and "rows_satisfied p x"
    and "simple_substitution_execute sequential max_seq num m p perm rowperm no_reductions = (s, R')"
    and "rs \<in> set (units R')"
  shows "\<exists>i sub stay. i < getNRows p \<and> {sub, stay} = fst ` set (row_coeffs p ! i) \<and>
    last rs = mk_red SUBSTITUTE (int sub) (of_nat i) \<and>
    (in_col_domain (prob_domains p) stay (x ! stay) \<and> integral_ok (prob_domains p) stay (x ! stay) \<longrightarrow>
      (in_col_domain (prob_domains p) sub (x ! sub) \<and> integral_ok (prob_domains p) sub (x ! sub) \<longleftrightarrow>
       bounds_hold x rs))"
proof -
  from substitution.run_laws [OF _ assms(8) [unfolded simple_substitution_execute_def]] assms(9)
  obtain k where k: "k < getNRows p" "rs \<in> set (substitution.emitted num m p perm rowperm k)" by auto
  have i: "rowperm ! k < getNRows p" using assms(6) k(1) by blast
  then have "row_holds p (rowperm ! k) x" using assms(7) by (auto simp: rows_satisfied_def)
  from substitution_emitted_valid [OF assms(1-5) i k(2) this] i show ?thesis by fast
qed

text \<open>The equality \<open>2 x - y = 1\<close> over \<open>x\<close> in \<open>[0, 3]\<close> and \<open>y\<close> in \<open>[0, 10]\<close>, both integral.\<close>

definition ex_doubleton :: problem where
  "ex_doubleton = \<lparr>obj_coeffs = [1, 1], obj_offset = 0, row_coeffs = [[(0, 2), (1, -1)]],
     col_coeffs = [[(0, 2)], [(0, -1)]], lhs_values = [1], rhs_values = [1], row_flags = [kEquation],
     rowsize = [2], colsize = [1, 1],
     prob_domains = \<lparr>lower_bounds = [0, 0], upper_bounds = [3, 10], col_flags = [kIntegral, kIntegral]\<rparr>,
     row_activities = [\<lparr>act_min = -10, act_max = 6, ninfmin = 0, ninfmax = 0, lastchange = -1\<rparr>],
     col_locks = []\<rparr>"

lemma ex_doubleton_ok: "problem_ok ex_doubleton" "equations_ok ex_doubleton" "sizes_ok ex_doubleton"
  by (auto simp: problem_ok_def matrix_ok_def ex_doubleton_def getNCols_def getNRows_def col_of_matrix_def
      all_tracked_def tracks_def part_defs flags_test_def flag_defs less_Suc_eq equations_ok_def sizes_ok_def)

theorem simple_substitution_sound_witness:
  "units (snd (simple_substitution_execute True 100 exact_num 0 ex_doubleton [0, 1] [0] no_reductions)) =
     [[mk_red 0 ROW_LOCKED 0, mk_red BOUNDS_LOCKED 1 0, mk_red LOWER_BOUND 0 (1 / 2),
       mk_red SUBSTITUTE 1 0]] \<and>
   (\<exists>i sub stay. {sub, stay} = fst ` set (row_coeffs ex_doubleton ! i) \<and>
      mk_red SUBSTITUTE 1 0 = mk_red SUBSTITUTE (int sub) (of_nat i))"
proof -
  let ?run = "simple_substitution_execute True 100 exact_num 0 ex_doubleton [0, 1] [0] no_reductions"
  let ?rs = "[mk_red 0 ROW_LOCKED 0, mk_red BOUNDS_LOCKED 1 0, mk_red LOWER_BOUND 0 (1 / 2),
    mk_red SUBSTITUTE 1 0]"
  have un: "units (snd ?run) = [?rs]" by code_simp
  have perm: "\<forall>k<getNRows ex_doubleton. [0] ! k < getNRows ex_doubleton"
    by (simp add: getNRows_def ex_doubleton_def)
  have x: "rows_satisfied ex_doubleton [2, 3]"
    by (auto simp: rows_satisfied_def getNRows_def ex_doubleton_def satisfies_row_def row_value_def)
  show ?thesis
    using simple_substitution_sound [OF ex_doubleton_ok _ _ perm x prod.collapse [symmetric],
        of exact_num ?rs True 100 0 "[0, 1]"] un
    by (auto simp: exact_num_def)
qed

section \<open>Infeasibility\<close>

lemma euclid_of_coefficients:
  assumes "A \<noteq> 0" and "B \<noteq> 0" and "\<bar>A\<bar> \<le> int64_max" and "\<bar>B\<bar> \<le> int64_max"
  shows "\<exists>rx ry. euclid_result (of_int A) (of_int B) = (gcd A B, rx, ry) \<and> rx * \<bar>A\<bar> + ry * \<bar>B\<bar> = gcd A B"
proof -
  have "trunc_int \<bar>of_int A\<bar> = \<bar>A\<bar>" "trunc_int \<bar>of_int B\<bar> = \<bar>B\<bar>"
    by (simp_all add: of_int_abs [symmetric] del: of_int_abs)
  moreover obtain x y where "extended_euclidean \<bar>A\<bar> \<bar>B\<bar> = Inr (gcd \<bar>A\<bar> \<bar>B\<bar>, x, y)"
    "x * \<bar>A\<bar> + y * \<bar>B\<bar> = gcd \<bar>A\<bar> \<bar>B\<bar>"
    using extended_euclidean_correct [OF _ _ assms(3,4)] assms(1,2) by (metis abs_gcd_int gcd_abs1_int gcd_abs2_int zero_less_abs_iff zless_iff_Suc_zadd int_one_le_iff_zero_less)
  ultimately show ?thesis by (simp add: euclid_result_def)
qed

lemma diophantine_line:
  fixes a b x y n :: int
  assumes eq: "a * x + b * y = n" and "b \<noteq> 0" and bez: "rx * \<bar>a\<bar> + ry * \<bar>b\<bar> = 1"
  defines "s \<equiv> rx * (if a < 0 then - n else n)" and "t \<equiv> ry * (if b < 0 then - n else n)"
  shows "\<exists>z. x = s + b * z \<and> y = t - a * z"
proof -
  have "a * s + b * t = n * (rx * \<bar>a\<bar> + ry * \<bar>b\<bar>)" by (auto simp: s_def t_def algebra_simps)
  then have st: "a * (x - s) = b * (t - y)" using eq bez by (simp add: algebra_simps)
  have "coprime a b"
  proof (rule coprimeI)
    fix c assume "c dvd a" "c dvd b"
    then have "c dvd rx * \<bar>a\<bar> + ry * \<bar>b\<bar>" by simp
    then show "is_unit c" unfolding bez .
  qed
  moreover have "b dvd a * (x - s)" unfolding st by simp
  ultimately have "b dvd x - s" by (simp add: coprime_dvd_mult_right_iff coprime_commute)
  then obtain z where z: "x - s = b * z" by (elim dvdE)
  then have "b * (a * z) = b * (t - y)" using st by (simp add: ac_simps)
  with assms(2) have "a * z = t - y" by simp
  with z show ?thesis by (intro exI [of _ z]) auto
qed

lemma scaled_bounds:
  fixes b z l u s :: rat
  assumes "b \<noteq> 0" and "l \<le> s + b * z" and "s + b * z \<le> u"
  shows "(if b < 0 then (u - s) / b else (l - s) / b) \<le> z"
    and "z \<le> (if b < 0 then (l - s) / b else (u - s) / b)"
proof -
  have "b < 0 \<or> 0 < b" using assms(1) by linarith
  then show "(if b < 0 then (u - s) / b else (l - s) / b) \<le> z"
    "z \<le> (if b < 0 then (l - s) / b else (u - s) / b)"
    using assms(2,3) by (auto simp: field_simps)
qed

lemma bounds_check_accepts:
  assumes exact: "epsilon num = 0" "feastol num = 0"
    and v: "vals ! stay = of_int a" "vals ! subst = of_int b" "a \<noteq> 0" "b \<noteq> 0"
    and bez: "rx * \<bar>a\<bar> + ry * \<bar>b\<bar> = 1" and eq: "a * x + b * y = n"
    and x: "lbs ! stay \<le> of_int x" "of_int x \<le> ubs ! stay"
    and y: "lbs ! subst \<le> of_int y" "of_int y \<le> ubs ! subst"
  shows "isConstraintsFeasibleWithGivenBounds num lbs ubs vals (of_int n) subst stay (1, rx, ry)"
proof -
  define s where "s = rx * (if a < 0 then - n else n)"
  define t where "t = ry * (if b < 0 then - n else n)"
  obtain z where z: "x = s + b * z" "y = t - a * z"
    using diophantine_line [OF eq v(4) bez] unfolding s_def t_def by blast
  have st: "of_int rx * (if a < 0 then - of_int n else of_int n) = (of_int s :: rat)"
    "of_int ry * (if b < 0 then - of_int n else of_int n) = (of_int t :: rat)"
    by (simp_all add: s_def t_def)
  let ?z = "of_int z :: rat"
  have bx: "(if b < 0 then (ubs ! stay - of_int s) / of_int b else (lbs ! stay - of_int s) / of_int b) \<le> ?z"
    "?z \<le> (if b < 0 then (lbs ! stay - of_int s) / of_int b else (ubs ! stay - of_int s) / of_int b)"
    using scaled_bounds [of "of_int b" "lbs ! stay" "of_int s" ?z "ubs ! stay"] x v(4) by (auto simp: z(1))
  have by': "(if a < 0 then (of_int t - lbs ! subst) / of_int a else (of_int t - ubs ! subst) / of_int a) \<le> ?z"
    "?z \<le> (if a < 0 then (of_int t - ubs ! subst) / of_int a else (of_int t - lbs ! subst) / of_int a)"
    using scaled_bounds [of "of_int a" "of_int t - ubs ! subst" 0 ?z "of_int t - lbs ! subst"] y v(3)
    by (auto simp: z(2))
  have round: "epsCeil num lo \<le> epsFloor num hi" if "lo \<le> ?z" "?z \<le> hi" for lo hi
    using that exact(1) by (simp add: epsCeil_def epsFloor_def rational_ceil_eq rational_floor_eq)
      (metis ceiling_le_iff le_floor_iff order_trans)
  show ?thesis
    unfolding isConstraintsFeasibleWithGivenBounds_def Let_def prod.case v exact_feas [OF exact(2)]
      of_int_less_0_iff st num_max_eq num_min_eq
    using bx by' by (cases "a < 0"; cases "b < 0"; simp; intro round; simp)
qed

lemma choose_integral_infeasible_cases:
  assumes "choose_integral num p perm i = Return kInfeasibleStatus"
  defines "vals \<equiv> map snd (row_coeffs p ! i)"
  obtains subst where "subst < 2" "isIntegral num (vals ! (1 - subst) / vals ! subst)"
      "\<not> isFeasEq num (rhs_values p ! i) (num_round (rhs_values p ! i / vals ! subst) * vals ! subst)"
  | subst g rx ry where "subst < 2" "isIntegral num (vals ! (1 - subst))" "isIntegral num (vals ! subst)"
      "\<bar>map num_round vals ! 0\<bar> \<le> of_int int64_max" "\<bar>map num_round vals ! 1\<bar> \<le> of_int int64_max"
      "euclid_result (map num_round vals ! (1 - subst)) (map num_round vals ! subst) = (g, rx, ry)"
      "\<not> isFeasEq num (rhs_values p ! i) (num_round (rhs_values p ! i / of_int g) * of_int g) \<or>
       isFeasEq num (rhs_values p ! i) (num_round (rhs_values p ! i / of_int g) * of_int g) \<and>
       \<not> isConstraintsFeasibleWithGivenBounds num (prob_lbs p) (prob_ubs p)
          (map (\<lambda>v. v / of_int g) (map num_round vals)) (num_round (rhs_values p ! i / of_int g))
          subst (1 - subst) (1, rx, ry)"
proof -
  define subst :: nat where "subst = (if \<bar>vals ! 0\<bar> < \<bar>vals ! 1\<bar> \<or> (\<bar>vals ! 0\<bar> = \<bar>vals ! 1\<bar> \<and>
    check_sparsification_condition_on_substitution p perm (map fst (row_coeffs p ! i) ! 0)
      (map fst (row_coeffs p ! i) ! 1)) then 0 else 1)"
  have s2: "subst < 2" by (simp add: subst_def)
  note ch = assms(1) [unfolded choose_integral_def Let_def, folded vals_def, folded subst_def]
  show thesis
  proof (cases "isIntegral num (vals ! (1 - subst) / vals ! subst)")
    case True
    with ch have "\<not> isFeasEq num (rhs_values p ! i) (num_round (rhs_values p ! i / vals ! subst) * vals ! subst)"
      by (simp split: if_splits)
    from that(1) [OF s2 True this] show ?thesis .
  next
    case False
    obtain g rx ry where e: "euclid_result (map num_round vals ! (1 - subst)) (map num_round vals ! subst) = (g, rx, ry)"
      by (metis prod_cases3)
    from ch False e show ?thesis
      by (intro that(2) [OF s2 _ _ _ _ e]) (auto split: if_splits)
  qed
qed

lemma divided_equation:
  fixes a b x y g :: int
  assumes "euclid_result (of_int a) (of_int b) = (g, rx, ry)" and "a \<noteq> 0" "b \<noteq> 0"
    and "\<bar>a\<bar> \<le> int64_max" "\<bar>b\<bar> \<le> int64_max"
  obtains a' b' where "0 < g" "a = g * a'" "b = g * b'" "a' \<noteq> 0" "b' \<noteq> 0" "rx * \<bar>a'\<bar> + ry * \<bar>b'\<bar> = 1"
proof -
  have g: "g = gcd a b" "rx * \<bar>a\<bar> + ry * \<bar>b\<bar> = g"
    using euclid_of_coefficients [OF assms(2-5)] assms(1) by auto
  then have pos: "0 < g" using assms(2) by simp
  obtain a' b' where ab: "a = g * a'" "b = g * b'" using g(1) by (metis dvdE gcd_dvd1 gcd_dvd2)
  have "g * (rx * \<bar>a'\<bar> + ry * \<bar>b'\<bar>) = g * 1"
    using g(2) pos unfolding ab by (simp add: abs_mult algebra_simps)
  with pos have "rx * \<bar>a'\<bar> + ry * \<bar>b'\<bar> = 1" by simp
  with that pos ab assms(2,3) show thesis by auto
qed

lemma aggregated_check_accepts:
  assumes exact: "epsilon num = 0" "feastol num = 0"
    and e: "euclid_result (of_int a) (of_int b) = (g, rx, ry)" and nz: "a \<noteq> 0" "b \<noteq> 0"
    and big: "\<bar>a\<bar> \<le> int64_max" "\<bar>b\<bar> \<le> int64_max" and rhs: "rhs = of_int (a * x + b * y)"
    and v: "nvals ! stay = of_int a" "nvals ! subst = of_int b" "stay < length nvals" "subst < length nvals"
    and x: "lbs ! stay \<le> of_int x" "of_int x \<le> ubs ! stay"
    and y: "lbs ! subst \<le> of_int y" "of_int y \<le> ubs ! subst"
  shows "isFeasEq num rhs (num_round (rhs / of_int g) * of_int g) \<and>
    isConstraintsFeasibleWithGivenBounds num lbs ubs (map (\<lambda>v. v / of_int g) nvals)
      (num_round (rhs / of_int g)) subst stay (1, rx, ry)"
proof -
  from e obtain a' b' where d: "0 < g" "a = g * a'" "b = g * b'" "a' \<noteq> 0" "b' \<noteq> 0"
    "rx * \<bar>a'\<bar> + ry * \<bar>b'\<bar> = 1" by (rule divided_equation [OF _ nz big])
  let ?n = "a' * x + b' * y"
  have q: "rhs / of_int g = of_int ?n" using d(1) by (simp add: rhs d(2,3) field_simps)
  have "rhs = of_int ?n * of_int g" unfolding rhs d(2,3) by (simp add: algebra_simps)
  moreover have "isConstraintsFeasibleWithGivenBounds num lbs ubs (map (\<lambda>v. v / of_int g) nvals)
      (of_int ?n) subst stay (1, rx, ry)"
    using d v by (intro bounds_check_accepts [OF exact _ _ d(4,5,6) refl x y]) simp_all
  ultimately show ?thesis unfolding q num_round_of_int exact_feas [OF exact(2)] by blast
qed

lemma quotient_check_accepts:
  assumes "epsilon num = 0" "feastol num = 0" and "vs * a + vt * b = rhs" and "vs \<noteq> 0"
    and "isIntegral num (vt / vs)" and "a \<in> \<int>" "b \<in> \<int>"
  shows "isFeasEq num rhs (num_round (rhs / vs) * vs)"
  using partner_integral [OF assms(3,4) _ assms(7)] assms(5,6)
  by (simp add: exact_integral [OF assms(1)] exact_feas [OF assms(2)] rounded_quotient [OF assms(4)])

lemma choose_integral_infeasible:
  assumes inf: "choose_integral num p perm i = Return kInfeasibleStatus"
    and exact: "epsilon num = 0" "feastol num = 0"
    and row: "row_coeffs p ! i = [(c0, v0), (c1, v1)]" "v0 \<noteq> 0" "v1 \<noteq> 0"
    and int: "x ! c0 \<in> \<int>" "x ! c1 \<in> \<int>" and eq: "v0 * x ! c0 + v1 * x ! c1 = rhs_values p ! i"
    and bnd: "prob_lbs p ! 0 \<le> x ! c0" "x ! c0 \<le> prob_ubs p ! 0"
      "prob_lbs p ! 1 \<le> x ! c1" "x ! c1 \<le> prob_ubs p ! 1"
  shows False
  using inf
proof (cases rule: choose_integral_infeasible_cases)
  case (1 subst)
  have eq': "v1 * x ! c1 + v0 * x ! c0 = rhs_values p ! i" using eq by simp
  from 1(1) have "subst = 0 \<or> subst = 1" by auto
  with 1(2,3) quotient_check_accepts [OF exact eq row(2) _ int] quotient_check_accepts [OF exact eq' row(3) _ int(2,1)]
  show False by (auto simp: row(1))
next
  case (2 subst g rx ry)
  then have s: "subst = 0 \<or> subst = 1" by auto
  with 2(2,3) have "v0 \<in> \<int>" "v1 \<in> \<int>" by (auto simp: row(1) exact_integral [OF exact(1)])
  then obtain a0 a1 where a: "v0 = of_int a0" "v1 = of_int a1" by (elim Ints_cases)
  obtain y0 y1 where y: "x ! c0 = of_int y0" "x ! c1 = of_int y1" using int by (elim Ints_cases)
  have big: "\<bar>a0\<bar> \<le> int64_max" "\<bar>a1\<bar> \<le> int64_max"
    using 2(4,5) by (simp_all add: row(1) a of_int_abs [symmetric] del: of_int_abs)
  have nz: "a0 \<noteq> 0" "a1 \<noteq> 0" using row(2,3) by (simp_all add: a)
  let ?nv = "map num_round (map snd (row_coeffs p ! i))"
  have nv: "?nv ! 0 = of_int a0" "?nv ! 1 = of_int a1" "0 < length ?nv" "1 < length ?nv"
    by (simp_all add: row(1) a)
  have rhs: "rhs_values p ! i = of_int (a0 * y0 + a1 * y1)" "rhs_values p ! i = of_int (a1 * y1 + a0 * y0)"
    using eq by (simp_all add: a y)
  note b = bnd [unfolded y]
  from s show False
  proof
    assume s: "subst = 0"
    then have "euclid_result (of_int a1) (of_int a0) = (g, rx, ry)" using 2(6) nv by simp
    from aggregated_check_accepts [OF exact this nz(2,1) big(2,1) rhs(2) nv(2,1,4,3) b(3,4,1,2)] 2(7)
    show False by (simp add: s)
  next
    assume s: "subst = 1"
    then have "euclid_result (of_int a0) (of_int a1) = (g, rx, ry)" using 2(6) nv by simp
    from aggregated_check_accepts [OF exact this nz big rhs(1) nv b] 2(7)
    show False by (simp add: s)
  qed
qed

text \<open>
  The check of the bounds reads the entries of the bound vectors at the positions 0 and 1 and does not
  look at the infinity flags: it means the bounds of the columns of the row only if these agree.
\<close>

definition bounds_at_positions :: "problem \<Rightarrow> bool" where
  "bounds_at_positions p \<longleftrightarrow> (\<forall>i<getNRows p. length (row_coeffs p ! i) = 2 \<longrightarrow>
     (\<forall>j<2. let c = fst (row_coeffs p ! i ! j) in
        \<not> flags_test (prob_cflags p ! c) [kLbInf] \<and> \<not> flags_test (prob_cflags p ! c) [kUbInf] \<and>
        prob_lbs p ! c = prob_lbs p ! j \<and> prob_ubs p ! c = prob_ubs p ! j))"

lemma substitution_step_infeasible:
  assumes ok: "problem_ok p" "equations_ok p" "sizes_ok p" and exact: "epsilon num = 0" "feastol num = 0"
    and "bounds_at_positions p" and i: "rowperm ! k < getNRows p" and x: "feasible p x"
    and "fst (simple_substitution_emits num m p perm rowperm k) = kInfeasibleStatus"
  shows False
proof -
  let ?i = "rowperm ! k" and ?D = "prob_domains p"
  have st: "flags_test (row_flags p ! ?i) [kEquation]" "rowsize p ! ?i = 2"
    "choose_substitution num m p perm ?i = Return kInfeasibleStatus"
    using assms(9) by (auto simp: simple_substitution_emits_def Let_def split: if_splits choice.splits)
  have len: "length (row_coeffs p ! ?i) = 2" using st(2) ok(3) i by (auto simp: sizes_ok_def)
  then obtain c0 v0 c1 v1 where row: "row_coeffs p ! ?i = [(c0, v0), (c1, v1)]"
    by (auto simp: length_Suc_conv numeral_2_eq_2)
  have r: "v0 \<noteq> 0" "v1 \<noteq> 0" "c0 < length (prob_cflags p)" "c1 < length (prob_cflags p)"
    using problem_row(1) [OF ok(1) i] by (simp_all add: row)
  have ch: "choose_integral num p perm ?i = Return kInfeasibleStatus"
    "flags_test (prob_cflags p ! c0) [kIntegral]" "flags_test (prob_cflags p ! c1) [kIntegral]"
    using st(3) by (auto simp: choose_substitution_def choose_continuous_def Let_def row split: if_splits)
  have int: "x ! c0 \<in> \<int>" "x ! c1 \<in> \<int>"
    using x ch(2,3) r(3,4) by (auto simp: feasible_def integral_point_def flag_simps)
  have eq: "v0 * x ! c0 + v1 * x ! c1 = rhs_values p ! ?i"
    using equation_value [OF ok(2) i st(1) feasible_row(2) [OF ok(1) x i]] by (simp add: row row_value_def)
  have dom: "in_col_domain ?D c0 (x ! c0)" "in_col_domain ?D c1 (x ! c1)"
    using x r(3,4) by (auto simp: feasible_def in_domains_def)
  have pos: "\<not> flags_test (prob_cflags p ! c0) [kLbInf] \<and> \<not> flags_test (prob_cflags p ! c0) [kUbInf] \<and>
      prob_lbs p ! c0 = prob_lbs p ! 0 \<and> prob_ubs p ! c0 = prob_ubs p ! 0"
    "\<not> flags_test (prob_cflags p ! c1) [kLbInf] \<and> \<not> flags_test (prob_cflags p ! c1) [kUbInf] \<and>
      prob_lbs p ! c1 = prob_lbs p ! 1 \<and> prob_ubs p ! c1 = prob_ubs p ! 1"
    using assms(6) [unfolded bounds_at_positions_def Let_def, rule_format, OF i len, of 0]
      assms(6) [unfolded bounds_at_positions_def Let_def, rule_format, OF i len, of 1]
    by (simp_all add: row)
  with dom have "prob_lbs p ! 0 \<le> x ! c0" "x ! c0 \<le> prob_ubs p ! 0"
    "prob_lbs p ! 1 \<le> x ! c1" "x ! c1 \<le> prob_ubs p ! 1"
    by (auto simp: in_col_domain_def)
  from choose_integral_infeasible [OF ch(1) exact row r(1,2) int eq this] show False .
qed

text \<open>
  C31. In exact arithmetic (\<open>epsilon\<close> and \<open>feastol\<close> zero, so that its tests of divisibility are exact),
  when simple substitution reports infeasibility (the divisor of the coefficients does not divide the
  side, or no integer point of the line lies in the bounds) there is no feasible point, provided the
  bounds it reads by position are finite and are those of the two columns of the row.
\<close>

theorem simple_substitution_infeasible_sound:
  assumes "problem_ok p" and "equations_ok p" and "sizes_ok p" and "epsilon num = 0" and "feastol num = 0"
    and "bounds_at_positions p" and "\<forall>k<getNRows p. rowperm ! k < getNRows p"
    and "simple_substitution_execute sequential max_seq num m p perm rowperm R = (kInfeasibleStatus, R')"
  shows "\<not> feasible p x"
proof
  assume x: "feasible p x"
  from substitution.run_infeasible [OF assms(8) [unfolded simple_substitution_execute_def]]
  obtain k where "k < getNRows p" "fst (simple_substitution_emits num m p perm rowperm k) = kInfeasibleStatus"
    by auto
  with substitution_step_infeasible [OF assms(1-6) _ x] assms(7) show False by blast
qed

text \<open>The equality \<open>4 x + 6 y = 7\<close>, and \<open>2 x + 3 y = 1\<close> over nonnegative integers up to 5.\<close>

definition ex_two :: "nat \<Rightarrow> rat \<Rightarrow> rat \<Rightarrow> rat \<Rightarrow> problem" where
  "ex_two shift a b side = \<lparr>obj_coeffs = replicate (shift + 2) 0, obj_offset = 0,
     row_coeffs = [[(shift, a), (Suc shift, b)]],
     col_coeffs = replicate shift [] @ [[(0, a)], [(0, b)]], lhs_values = [side], rhs_values = [side],
     row_flags = [kEquation], rowsize = [2], colsize = replicate shift 0 @ [1, 1],
     prob_domains = \<lparr>lower_bounds = replicate (shift + 2) 0, upper_bounds = replicate shift 0 @ [5, 5],
       col_flags = replicate (shift + 2) kIntegral\<rparr>,
     row_activities = [\<lparr>act_min = 0, act_max = 5 * a + 5 * b, ninfmin = 0, ninfmax = 0, lastchange = -1\<rparr>],
     col_locks = []\<rparr>"

theorem simple_substitution_infeasible_sound_witness:
  "fst (simple_substitution_execute True 100 exact_num 0 (ex_two 0 2 3 1) [0, 1] [0] no_reductions) =
     kInfeasibleStatus \<and> \<not> feasible (ex_two 0 2 3 1) [1, 0]"
proof -
  let ?p = "ex_two 0 2 3 1"
  let ?run = "simple_substitution_execute True 100 exact_num 0 ?p [0, 1] [0] no_reductions"
  have ok: "problem_ok ?p" "equations_ok ?p" "sizes_ok ?p" "bounds_at_positions ?p"
    "\<forall>k<getNRows ?p. [0] ! k < getNRows ?p"
    by (auto simp: problem_ok_def matrix_ok_def ex_two_def getNCols_def getNRows_def col_of_matrix_def
        all_tracked_def tracks_def part_defs flags_test_def flag_defs less_Suc_eq equations_ok_def sizes_ok_def
        bounds_at_positions_def less_2_cases_iff)
  have st: "fst ?run = kInfeasibleStatus" by code_simp
  then have "?run = (kInfeasibleStatus, snd ?run)" by (simp add: prod_eq_iff)
  from simple_substitution_infeasible_sound [OF ok(1-3) _ _ ok(4,5) this, of "[1, 0]"] st
  show ?thesis by (simp add: exact_num_def)
qed

text \<open>The problem with the bounds of two columns replaced by the values of a point, activities recomputed.\<close>

definition with_col_bounds :: "nat \<Rightarrow> nat \<Rightarrow> rat list \<Rightarrow> problem \<Rightarrow> problem" where
  "with_col_bounds c0 c1 x p = recomputeAllActivities
     (p\<lparr>prob_domains := (prob_domains p)\<lparr>lower_bounds := (prob_lbs p)[c0 := x ! c0, c1 := x ! c1],
        upper_bounds := (prob_ubs p)[c0 := x ! c0, c1 := x ! c1]\<rparr>\<rparr>)"

lemma with_col_bounds_fields [simp]:
  "row_coeffs (with_col_bounds c0 c1 x p) = row_coeffs p" "col_coeffs (with_col_bounds c0 c1 x p) = col_coeffs p"
  "lhs_values (with_col_bounds c0 c1 x p) = lhs_values p" "rhs_values (with_col_bounds c0 c1 x p) = rhs_values p"
  "row_flags (with_col_bounds c0 c1 x p) = row_flags p" "rowsize (with_col_bounds c0 c1 x p) = rowsize p"
  "colsize (with_col_bounds c0 c1 x p) = colsize p" "obj_coeffs (with_col_bounds c0 c1 x p) = obj_coeffs p"
  "prob_cflags (with_col_bounds c0 c1 x p) = prob_cflags p"
  "prob_lbs (with_col_bounds c0 c1 x p) = (prob_lbs p)[c0 := x ! c0, c1 := x ! c1]"
  "prob_ubs (with_col_bounds c0 c1 x p) = (prob_ubs p)[c0 := x ! c0, c1 := x ! c1]"
  by (simp_all add: with_col_bounds_def recomputeAllActivities_def)

lemma bounds_check_positions:
  assumes "subst < 2" and "2 \<le> c0" and "2 \<le> c1"
  shows "isConstraintsFeasibleWithGivenBounds num (lbs[c0 := a, c1 := b]) (ubs[c0 := a', c1 := b']) vals rhs subst (1 - subst) res =
    isConstraintsFeasibleWithGivenBounds num lbs ubs vals rhs subst (1 - subst) res"
  using assms by (simp add: isConstraintsFeasibleWithGivenBounds_def)

lemma choice_ignores_col_bounds:
  assumes "2 \<le> c0" and "2 \<le> c1"
  shows "choose_substitution num m (with_col_bounds c0 c1 x p) perm i = choose_substitution num m p perm i"
proof -
  have sparse: "check_sparsification_condition_on_substitution (with_col_bounds c0 c1 x p) =
      check_sparsification_condition_on_substitution p"
    by (intro ext) (simp add: check_sparsification_condition_on_substitution_def)
  have "choose_integral num (with_col_bounds c0 c1 x p) perm i = choose_integral num p perm i"
    unfolding choose_integral_def Let_def with_col_bounds_fields sparse
    by (subst bounds_check_positions [OF _ assms]) simp_all
  then show ?thesis
    unfolding choose_substitution_def choose_continuous_def Let_def with_col_bounds_fields sparse by simp
qed

text \<open>
  C36. The bounds check of simple substitution indexes the bound vectors of the problem with the position
  in the row instead of the column, so that the bounds of the columns of the row do not enter: when a row
  over two columns from index 2 on is found infeasible, it is found infeasible whatever the bounds of its
  columns are, and for every integral point \<open>x\<close> that satisfies all rows and the bounds of the other
  columns there are bounds of the two columns for which \<open>x\<close> is feasible and the verdict is wrong.
\<close>

theorem simple_substitution_reads_wrong_bounds:
  assumes "row_coeffs p ! (rowperm ! k) = [(c0, v0), (c1, v1)]" and "2 \<le> c0" and "2 \<le> c1" and "c0 \<noteq> c1"
    and "fst (perform_simple_substitution_step num m p perm rowperm k R) = kInfeasibleStatus"
    and "problem_ok p" and "length x = getNCols p" and "rows_satisfied p x" and "integral_point (prob_domains p) x"
    and "\<forall>c<getNCols p. c \<noteq> c0 \<and> c \<noteq> c1 \<longrightarrow> in_col_domain (prob_domains p) c (x ! c)"
  shows "fst (perform_simple_substitution_step num m (with_col_bounds c0 c1 x p) perm rowperm k R) = kInfeasibleStatus \<and>
    feasible (with_col_bounds c0 c1 x p) x"
proof
  let ?q = "with_col_bounds c0 c1 x p"
  have "choose_substitution num m p perm (rowperm ! k) = Return kInfeasibleStatus"
    "\<not> flags_test (row_flags p ! (rowperm ! k)) [kRedundantRow]" "flags_test (row_flags p ! (rowperm ! k)) [kEquation]"
    "rowsize p ! (rowperm ! k) = 2"
    using assms(5) by (auto simp: perform_simple_substitution_step_def Let_def split: if_splits choice.splits)
  then show "fst (perform_simple_substitution_step num m ?q perm rowperm k R) = kInfeasibleStatus"
    by (simp add: perform_simple_substitution_step_def Let_def choice_ignores_col_bounds [OF assms(2,3)])
  have n: "getNCols ?q = getNCols p" "getNRows ?q = getNRows p"
    by (simp_all add: getNCols_def getNRows_def)
  have len: "length (prob_lbs p) = getNCols p" "length (prob_ubs p) = getNCols p" "length (prob_cflags p) = getNCols p"
    using assms(6) by (simp_all add: problem_ok_def)
  have "in_col_domain (prob_domains ?q) c (x ! c)" if "c < getNCols p" for c
  proof -
    have l: "prob_lbs ?q ! c = (if c = c0 \<or> c = c1 then x ! c else prob_lbs p ! c)"
      "prob_ubs ?q ! c = (if c = c0 \<or> c = c1 then x ! c else prob_ubs p ! c)"
      using that len assms(4) by (auto simp: nth_list_update)
    show ?thesis using assms(10) that unfolding in_col_domain_def l with_col_bounds_fields(9) by auto
  qed
  then show "feasible ?q x"
    using assms(7-9) len(3) by (simp add: feasible_def n rows_satisfied_def in_domains_def integral_point_def)
qed

theorem simple_substitution_reads_wrong_bounds_witness:
  "fst (perform_simple_substitution_step exact_num 0 (with_col_bounds 2 3 [0, 0, 2, 1] (ex_two 2 2 3 7))
     [0, 1, 2, 3] [0] 0 no_reductions) = kInfeasibleStatus \<and>
   feasible (with_col_bounds 2 3 [0, 0, 2, 1] (ex_two 2 2 3 7)) [0, 0, 2, 1]"
proof (rule simple_substitution_reads_wrong_bounds)
  show "row_coeffs (ex_two 2 2 3 7) ! ([0] ! 0) = [(2, 2), (3, 3)]" by (simp add: ex_two_def)
  show "fst (perform_simple_substitution_step exact_num 0 (ex_two 2 2 3 7) [0, 1, 2, 3] [0] 0 no_reductions) = kInfeasibleStatus"
    by code_simp
  show "problem_ok (ex_two 2 2 3 7)"
    by (auto simp: problem_ok_def matrix_ok_def ex_two_def getNCols_def getNRows_def col_of_matrix_def
        all_tracked_def tracks_def part_defs flags_test_def flag_defs less_Suc_eq numeral_2_eq_2)
qed (auto simp: ex_two_def getNCols_def getNRows_def rows_satisfied_def integral_point_def in_col_domain_def
    satisfies_row_def row_value_def flags_test_def flag_defs less_Suc_eq numeral_2_eq_2 numeral_3_eq_3)

end
