(* ===== verification/Pap_Matrix.thy ===== *)
theory Pap_Matrix
  imports Pap_Problem
begin

text \<open>
  The constraint matrix of \<open>src/papilo/core/ConstraintMatrix.hpp\<close> on its rows and columns: the two
  routines of \<open>core/SparseStorage.hpp\<close> that change one row, the application of the collected
  coefficient changes (\<open>core/MatrixBuffer.hpp\<close> as the list of its entries), the deletion of rows and
  columns, and the sides. A row and a column are the entries between \<open>start\<close> and \<open>end\<close> of their
  range.
\<close>

section \<open>Changing one row\<close>

text \<open>
  The callback of both routines hears of the column, the old and the new coefficient; it may look at
  the row as it is stored at that moment.
\<close>

type_synonym 's changed_callback = "nat \<Rightarrow> rat \<Rightarrow> rat \<Rightarrow> sparse_vec \<Rightarrow> 's \<Rightarrow> 's"

subsection \<open>In place\<close>

text \<open>
  \<open>changeRowInplace\<close> works on the entries of the row by index: \<open>i\<close> is the position it reads and \<open>j\<close>
  the number of entries it has dropped so far. \<open>None\<close> is a read beyond the end of the row, which
  happens for a change of a column that is not in the row.
\<close>

function inplace_seek :: "nat \<Rightarrow> nat \<Rightarrow> sparse_vec \<Rightarrow> nat \<Rightarrow> (sparse_vec \<times> nat) option" where
  "inplace_seek col j seg i =
     (if i \<ge> length seg then None
      else if fst (seg ! i) = col then Some (seg, i)
      else inplace_seek col j (if j \<noteq> 0 then seg[i - j := seg ! i] else seg) (i + 1))"
  by pat_completeness auto
termination by (relation "measure (\<lambda>(col, j, seg, i). length seg - i)") auto

declare inplace_seek.simps [simp del]

fun inplace_loop ::
  "'s changed_callback \<Rightarrow> (nat \<times> rat) list \<Rightarrow> sparse_vec \<Rightarrow> nat \<Rightarrow> nat \<Rightarrow> 's \<Rightarrow>
   (sparse_vec \<times> nat \<times> nat \<times> 's) option" where
  "inplace_loop cb [] seg i j s = Some (seg, i, j, s)"
| "inplace_loop cb ((col, newval) # changes) seg i j s =
     (case inplace_seek col j seg i of None \<Rightarrow> None
      | Some (seg1, i1) \<Rightarrow>
          let s1 = cb col (snd (seg1 ! i1)) newval seg1 s
          in if newval = 0 then inplace_loop cb changes seg1 (i1 + 1) (j + 1) s1
             else if j \<noteq> 0 then inplace_loop cb changes (seg1[i1 - j := (fst (seg1 ! i1), newval)]) (i1 + 1) j s1
             else inplace_loop cb changes (seg1[i1 := (fst (seg1 ! i1), newval)]) (i1 + 1) j s1)"

definition inplace_rest :: "sparse_vec \<Rightarrow> nat \<Rightarrow> nat \<Rightarrow> sparse_vec" where
  "inplace_rest seg i j =
     (if j \<noteq> 0 then take (length seg - j) (foldl (\<lambda>sg k. sg[k - j := sg ! k]) seg [i..<length seg]) else seg)"

definition changeRowInplace ::
  "'s changed_callback \<Rightarrow> (nat \<times> rat) list \<Rightarrow> sparse_vec \<Rightarrow> 's \<Rightarrow> (sparse_vec \<times> 's) option" where
  "changeRowInplace cb changes seg s =
     (case inplace_loop cb changes seg 0 0 s of None \<Rightarrow> None
      | Some (seg', i, j, s') \<Rightarrow> Some (inplace_rest seg' i j, s'))"

subsection \<open>Merging\<close>

text \<open>
  \<open>changeRow\<close> merges the row with sorted changes through buffers, so that the callback still sees
  the old row; \<open>mergeVals\<close> combines the coefficients of a column both have.
\<close>

fun merge_loop ::
  "'s changed_callback \<Rightarrow> (rat \<Rightarrow> rat \<Rightarrow> rat) \<Rightarrow> sparse_vec \<Rightarrow> sparse_vec \<Rightarrow> sparse_vec \<Rightarrow> 's \<Rightarrow>
   sparse_vec \<times> 's" where
  "merge_loop cb mergeVals stored row [] s = (row, s)"
| "merge_loop cb mergeVals stored [] ((col, v) # it) s =
     (case merge_loop cb mergeVals stored [] it (cb col 0 v stored s) of
        (out, s') \<Rightarrow> ((col, v) # out, s'))"
| "merge_loop cb mergeVals stored ((c, a) # row) ((col, v) # it) s =
     (if c = col then
        let newval = mergeVals a v
        in case merge_loop cb mergeVals stored row it (cb col a newval stored s) of
             (out, s') \<Rightarrow> (if newval \<noteq> 0 then (col, newval) # out else out, s')
      else if c < col then
        (case merge_loop cb mergeVals stored row ((col, v) # it) s of (out, s') \<Rightarrow> ((c, a) # out, s'))
      else
        (case merge_loop cb mergeVals stored ((c, a) # row) it (cb col 0 v stored s) of
           (out, s') \<Rightarrow> ((col, v) # out, s')))"

definition changeRow ::
  "'s changed_callback \<Rightarrow> (rat \<Rightarrow> rat \<Rightarrow> rat) \<Rightarrow> sparse_vec \<Rightarrow> sparse_vec \<Rightarrow> 's \<Rightarrow> sparse_vec \<times> 's" where
  "changeRow cb mergeVals it row s = merge_loop cb mergeVals row row it s"

subsection \<open>What they compute\<close>

definition sorted_cols :: "sparse_vec \<Rightarrow> bool" where
  "sorted_cols row \<longleftrightarrow> sorted_wrt (<) (map fst row)"

lemma sorted_cols_simps [simp]:
  "sorted_cols []"
  "sorted_cols ((c, v) # row) \<longleftrightarrow> (\<forall>e\<in>set row. c < fst e) \<and> sorted_cols row"
  by (auto simp: sorted_cols_def)

lemma sorted_cols_distinct: "sorted_cols row \<Longrightarrow> distinct_cols row"
  by (induction row) (auto simp: sorted_cols_def)

lemma sorted_cols_filter: "sorted_cols row \<Longrightarrow> sorted_cols (filter P row)"
  by (induction row) auto

text \<open>The reference: set the listed coefficients and drop those that became zero.\<close>

definition with_changes :: "(nat \<times> rat) list \<Rightarrow> sparse_vec \<Rightarrow> sparse_vec" where
  "with_changes changes row =
     filter (\<lambda>e. snd e \<noteq> 0 \<or> fst e \<notin> fst ` set changes)
       (map (\<lambda>(c, v). (c, case map_of changes c of None \<Rightarrow> v | Some w \<Rightarrow> w)) row)"

lemma with_changes_Nil [simp]: "with_changes [] row = row"
  by (induction row) (auto simp: with_changes_def)

lemma with_changes_cols: "fst ` set (with_changes changes row) \<subseteq> fst ` set row"
  by (force simp: with_changes_def)

lemma with_changes_append:
  "with_changes changes (pre @ post) = with_changes changes pre @ with_changes changes post"
  by (simp add: with_changes_def)

lemma with_changes_absent:
  "\<forall>e\<in>set row. fst e \<notin> fst ` set changes \<Longrightarrow> with_changes changes row = row"
proof (induction row)
  case (Cons e row)
  then have "map_of changes (fst e) = None" by (simp add: map_of_eq_None_iff)
  with Cons show ?case by (cases e) (simp add: with_changes_def)
qed (simp add: with_changes_def)

lemma with_changes_Cons:
  assumes "sorted_cols (pre @ (col, v) # post)" and "sorted_cols ((col, w) # changes)"
  shows "with_changes ((col, w) # changes) (pre @ (col, v) # post) =
    pre @ (if w = 0 then [] else [(col, w)]) @ with_changes changes post"
proof -
  have pre: "\<forall>e\<in>set pre. fst e < col" and post: "\<forall>e\<in>set post. col < fst e"
    using assms(1) by (auto simp: sorted_cols_def sorted_wrt_append)
  have "with_changes ((col, w) # changes) pre = pre"
    using pre assms(2) by (intro with_changes_absent) fastforce
  moreover have "with_changes ((col, w) # changes) post = with_changes changes post"
    unfolding with_changes_def using post
    by (intro arg_cong2 [where f = filter] ext map_cong filter_cong refl) (auto split: option.splits)
  moreover have "with_changes ((col, w) # changes) [(col, v)] = (if w = 0 then [] else [(col, w)])"
    by (simp add: with_changes_def)
  moreover have "pre @ (col, v) # post = pre @ [(col, v)] @ post" by simp
  ultimately show ?thesis by (simp only: with_changes_append)
qed

text \<open>The memory of a row in the loop: the entries written, stale entries, the entries not read yet.\<close>

lemma put_step:
  "\<exists>junk'. length junk' = length junk \<and>
     (front @ junk @ e # rest)[length front := e'] = (front @ [e']) @ junk' @ rest"
proof (cases junk)
  case Nil
  then show ?thesis by simp
next
  case (Cons b bs)
  then show ?thesis by (intro exI [of _ "bs @ [e]"]) simp
qed

lemma seek_finds:
  assumes "col \<notin> fst ` set pre"
  shows "\<exists>junk'. length junk' = length junk \<and>
    inplace_seek col (length junk) (front @ junk @ pre @ (col, v) # post) (length front + length junk) =
      Some ((front @ pre) @ junk' @ (col, v) # post, length front + length pre + length junk)"
  using assms
proof (induction pre arbitrary: front junk)
  case Nil
  show ?case
    by (subst inplace_seek.simps) (simp add: nth_append)
next
  case (Cons e pre)
  let ?seg = "front @ junk @ (e # pre) @ (col, v) # post"
  let ?i = "length front + length junk"
  have here: "?seg ! ?i = e" "?i < length ?seg" "fst e \<noteq> col"
    using Cons.prems by (auto simp: nth_append)
  obtain junk1 where junk1: "length junk1 = length junk"
    "?seg[length front := e] = (front @ [e]) @ junk1 @ pre @ (col, v) # post"
    using put_step [of junk front e "pre @ (col, v) # post" e] by auto
  have put: "(if length junk \<noteq> 0 then ?seg[?i - length junk := ?seg ! ?i] else ?seg) =
      (front @ [e]) @ junk1 @ pre @ (col, v) # post"
    using junk1 here by (cases junk) auto
  have step: "inplace_seek col (length junk) ?seg ?i =
    inplace_seek col (length junk1) ((front @ [e]) @ junk1 @ pre @ (col, v) # post)
      (length (front @ [e]) + length junk1)"
    by (subst inplace_seek.simps) (use here put junk1 in simp)
  show ?case
    using Cons.IH [of junk1 "front @ [e]"] Cons.prems junk1(1) unfolding step by simp
qed

lemma inplace_rest_drops:
  "inplace_rest (front @ junk @ rest) (length front + length junk) (length junk) = front @ rest"
proof -
  have "\<exists>junk'. length junk' = length junk \<and>
      foldl (\<lambda>sg k. sg[k - length junk := sg ! k]) (front @ junk @ rest)
        [length front + length junk..<length (front @ junk @ rest)] = front @ rest @ junk'"
    if "length junk \<noteq> 0"
    using that
  proof (induction rest arbitrary: front junk)
    case Nil
    then show ?case by simp
  next
    case (Cons e rest)
    obtain junk1 where junk1: "length junk1 = length junk"
      "(front @ junk @ e # rest)[length front := e] = (front @ [e]) @ junk1 @ rest"
      using put_step [of junk front e rest e] by auto
    have "[length front + length junk..<length (front @ junk @ e # rest)] =
      (length front + length junk) # [length (front @ [e]) + length junk1..<length ((front @ [e]) @ junk1 @ rest)]"
      using junk1(1) by (subst upt_conv_Cons) auto
    with Cons.IH [of junk1 "front @ [e]"] junk1 Cons.prems show ?case
      by (simp add: nth_append)
  qed
  then show ?thesis by (cases "length junk = 0") (auto simp: inplace_rest_def)
qed

text \<open>
  The loop on a sorted row computes the reference and keeps every relation \<open>I\<close> between the row and
  the client's state that each single change keeps.
\<close>

lemma inplace_loop_computes:
  assumes "sorted_cols (front @ rest)" and "sorted_cols changes"
    and "fst ` set changes \<subseteq> fst ` set rest" and "I (front @ rest) s"
    and "\<And>col v w pre post stored s. I (pre @ (col, v) # post) s \<Longrightarrow>
      sorted_cols (pre @ (col, v) # post) \<Longrightarrow> (col, w) \<in> set changes \<Longrightarrow> (col, v) \<in> set rest \<Longrightarrow>
      I (pre @ (if w = 0 then [] else [(col, w)]) @ post) (cb col v w stored s)"
  shows "\<exists>front' junk' rest' s'.
    inplace_loop cb changes (front @ junk @ rest) (length front + length junk) (length junk) s =
      Some (front' @ junk' @ rest', length front' + length junk', length junk', s') \<and>
    front' @ rest' = front @ with_changes changes rest \<and> I (front' @ rest') s'"
  using assms
proof (induction changes arbitrary: front junk rest s)
  case Nil
  then show ?case by auto
next
  case (Cons ch changes)
  obtain col w where ch: "ch = (col, w)" by fastforce
  from Cons.prems(3) ch obtain v pre post where rest: "rest = pre @ (col, v) # post"
    by (force dest: split_list)
  have sorted_rest: "sorted_cols rest" and sorted_post: "sorted_cols post"
    using Cons.prems(1) rest by (auto simp: sorted_cols_def sorted_wrt_append)
  have pre: "col \<notin> fst ` set pre"
    using sorted_rest rest by (force simp: sorted_cols_def sorted_wrt_append)
  obtain junk1 where junk1: "length junk1 = length junk"
    and seek: "inplace_seek col (length junk) (front @ junk @ rest) (length front + length junk) =
      Some ((front @ pre) @ junk1 @ (col, v) # post, length front + length pre + length junk)"
    using seek_finds [OF pre, of junk front v post] unfolding rest by blast
  let ?seg = "(front @ pre) @ junk1 @ (col, v) # post"
  let ?i = "length front + length pre + length junk"
  let ?s = "cb col v w ?seg s"
  have here: "?seg ! ?i = (col, v)" using junk1 by (simp add: nth_append)
  obtain junk2 where junk2: "length junk2 = length junk1"
    "?seg[length (front @ pre) := (col, w)] = (front @ pre @ [(col, w)]) @ junk2 @ post"
    using put_step [of junk1 "front @ pre" "(col, v)" post "(col, w)"] by auto
  let ?front = "if w = 0 then front @ pre else front @ pre @ [(col, w)]"
  let ?junk = "if w = 0 then junk1 @ [(col, v)] else junk2"
  have step: "inplace_loop cb (ch # changes) (front @ junk @ rest) (length front + length junk) (length junk) s =
    inplace_loop cb changes (?front @ ?junk @ post) (length ?front + length ?junk) (length ?junk) ?s"
    unfolding ch inplace_loop.simps seek option.case prod.case Let_def
    using junk1 junk2 here by (cases "junk = []") auto
  have I1: "I (?front @ post) ?s"
    using Cons.prems(5) [of "front @ pre" col v post s w ?seg] Cons.prems(1,4) ch rest by auto
  have changes: "\<forall>e\<in>set changes. col < fst e" "sorted_cols changes"
    using Cons.prems(2) ch by auto
  have sub: "fst ` set changes \<subseteq> fst ` set post"
  proof
    fix c assume c: "c \<in> fst ` set changes"
    then have "col < c" using changes(1) by auto
    moreover have "\<forall>e\<in>set pre. fst e < col"
      using sorted_rest rest by (auto simp: sorted_cols_def sorted_wrt_append)
    ultimately show "c \<in> fst ` set post" using c Cons.prems(3) rest ch by force
  qed
  have sorted1: "sorted_cols (?front @ post)"
    using Cons.prems(1) rest by (auto simp: sorted_cols_def sorted_wrt_append ball_Un)
  have "\<exists>front' junk' rest' s'.
      inplace_loop cb changes (?front @ ?junk @ post) (length ?front + length ?junk) (length ?junk) ?s =
        Some (front' @ junk' @ rest', length front' + length junk', length junk', s') \<and>
      front' @ rest' = ?front @ with_changes changes post \<and> I (front' @ rest') s'"
    using Cons.prems(5) rest by (intro Cons.IH [OF sorted1 changes(2) sub I1]) auto
  moreover have "?front @ with_changes changes post = front @ with_changes (ch # changes) rest"
    using with_changes_Cons [of pre col v post w changes] sorted_rest Cons.prems(2) ch rest by simp
  ultimately show ?case unfolding step by simp
qed

lemma changeRowInplace_computes:
  assumes "sorted_cols row" and "sorted_cols changes" and "fst ` set changes \<subseteq> fst ` set row"
    and "I row s"
    and "\<And>col v w pre post stored s. I (pre @ (col, v) # post) s \<Longrightarrow>
      sorted_cols (pre @ (col, v) # post) \<Longrightarrow> (col, w) \<in> set changes \<Longrightarrow> (col, v) \<in> set row \<Longrightarrow>
      I (pre @ (if w = 0 then [] else [(col, w)]) @ post) (cb col v w stored s)"
  shows "\<exists>s'. changeRowInplace cb changes row s = Some (with_changes changes row, s') \<and>
    I (with_changes changes row) s'"
proof -
  from inplace_loop_computes [where I = I and front = "[]" and junk = "[]" and rest = row
      and changes = changes and cb = cb and s = s, OF _ assms(2,3)] assms
  obtain front junk rest s' where loop: "inplace_loop cb changes row 0 0 s =
      Some (front @ junk @ rest, length front + length junk, length junk, s')"
    and res: "front @ rest = with_changes changes row" "I (front @ rest) s'"
    by auto
  show ?thesis
    using res by (auto simp: changeRowInplace_def loop inplace_rest_drops)
qed

subsection \<open>The merge\<close>

definition coeff_of :: "sparse_vec \<Rightarrow> nat \<Rightarrow> rat" where
  "coeff_of row c = (case map_of row c of None \<Rightarrow> 0 | Some v \<Rightarrow> v)"

text \<open>The entries of the merged row, without the callback.\<close>

fun merge_entries :: "(rat \<Rightarrow> rat \<Rightarrow> rat) \<Rightarrow> sparse_vec \<Rightarrow> sparse_vec \<Rightarrow> sparse_vec" where
  "merge_entries mergeVals row [] = row"
| "merge_entries mergeVals [] ((col, v) # it) = (col, v) # merge_entries mergeVals [] it"
| "merge_entries mergeVals ((c, a) # row) ((col, v) # it) =
     (if c = col then (if mergeVals a v \<noteq> 0 then [(c, mergeVals a v)] else []) @ merge_entries mergeVals row it
      else if c < col then (c, a) # merge_entries mergeVals row ((col, v) # it)
      else (col, v) # merge_entries mergeVals ((c, a) # row) it)"

lemma fst_merge_loop: "fst (merge_loop cb mv st row it s) = merge_entries mv row it"
  by (induction cb mv st row it s rule: merge_loop.induct) (auto simp: Let_def split: prod.split)

lemma merge_entries_cols:
  "e \<in> set (merge_entries mv row it) \<Longrightarrow> fst e \<in> fst ` set row \<union> fst ` set it"
  by (induction mv row it rule: merge_entries.induct) (auto split: if_splits)

lemma merge_entries_sorted:
  assumes "sorted_cols row" and "sorted_cols it"
  shows "sorted_cols (merge_entries mv row it)"
  using assms
proof (induction mv row it rule: merge_entries.induct)
  case (2 mv col v it)
  have "\<forall>e\<in>set (merge_entries mv [] it). col < fst e"
    using merge_entries_cols [of _ mv "[]" it] 2 by fastforce
  with 2 show ?case by simp
next
  case (3 mv c a row col v it)
  consider "c = col" | "c < col" | "col < c" by linarith
  then show ?case
  proof cases
    case 1
    have "\<forall>e\<in>set (merge_entries mv row it). c < fst e"
      using merge_entries_cols [of _ mv row it] 3 1 by fastforce
    with 3 1 show ?thesis by simp
  next
    case 2
    have "\<forall>e\<in>set (merge_entries mv row ((col, v) # it)). c < fst e"
      using merge_entries_cols [of _ mv row "(col, v) # it"] 3 2 by fastforce
    with 3 2 show ?thesis by simp
  next
    case c: 3
    have "\<forall>e\<in>set (merge_entries mv ((c, a) # row) it). col < fst e"
      using merge_entries_cols [of _ mv "(c, a) # row" it] 3 c by fastforce
    with 3 c show ?thesis by simp
  qed
qed simp

text \<open>The merged coefficient of a column: combined where both have it, copied otherwise.\<close>

definition merged_coeff :: "(rat \<Rightarrow> rat \<Rightarrow> rat) \<Rightarrow> rat option \<Rightarrow> rat option \<Rightarrow> rat option" where
  "merged_coeff mergeVals a b = (case a of None \<Rightarrow> b
     | Some x \<Rightarrow> (case b of None \<Rightarrow> Some x
        | Some y \<Rightarrow> (if mergeVals x y \<noteq> 0 then Some (mergeVals x y) else None)))"

lemma map_of_sorted_less: "sorted_cols row \<Longrightarrow> \<forall>e\<in>set row. c < fst e \<Longrightarrow> c' \<le> c \<Longrightarrow> map_of row c' = None"
  by (force simp: map_of_eq_None_iff)

lemma merge_entries_map_of:
  assumes "sorted_cols row" and "sorted_cols it"
  shows "map_of (merge_entries mv row it) c = merged_coeff mv (map_of row c) (map_of it c)"
  using assms
proof (induction mv row it rule: merge_entries.induct)
  case (1 mv row)
  then show ?case by (simp add: merged_coeff_def split: option.split)
next
  case (2 mv col v it)
  then show ?case by (simp add: merged_coeff_def)
next
  case (3 mv c1 a row col v it)
  have row: "map_of row c' = None" if "c' \<le> c1" for c'
    using 3(4) that by (auto intro: map_of_sorted_less)
  have it: "map_of it c' = None" if "c' \<le> col" for c'
    using 3(5) that by (auto intro: map_of_sorted_less)
  consider "c1 = col" | "c1 < col" | "col < c1" by linarith
  then show ?case
  proof cases
    case 1
    have "map_of (merge_entries mv row it) c = merged_coeff mv (map_of row c) (map_of it c)"
      using 3 1 by simp
    then show ?thesis using 1 row [of c] it [of c] by (auto simp: merged_coeff_def)
  next
    case 2
    have "map_of (merge_entries mv row ((col, v) # it)) c = merged_coeff mv (map_of row c) (map_of ((col, v) # it) c)"
      using 3 2 by simp
    then show ?thesis using 2 it [of c] by (auto simp: merged_coeff_def)
  next
    case c: 3
    have "map_of (merge_entries mv ((c1, a) # row) it) c = merged_coeff mv (map_of ((c1, a) # row) c) (map_of it c)"
      using 3 c by simp
    then show ?thesis using c row [of c] by (auto simp: merged_coeff_def)
  qed
qed

text \<open>As for the loop in place: the merge keeps a relation that each single change keeps.\<close>

lemma merge_loop_keeps:
  assumes "sorted_cols (front @ row)" and "sorted_cols (front @ it)" and "I (front @ row) s"
    and change: "\<And>col a v pre post s. I (pre @ (col, a) # post) s \<Longrightarrow>
      sorted_cols (pre @ (col, a) # post) \<Longrightarrow> (col, v) \<in> set it \<Longrightarrow> (col, a) \<in> set row \<Longrightarrow>
      I (pre @ (if mv a v = 0 then [] else [(col, mv a v)]) @ post) (cb col a (mv a v) stored s)"
    and insert: "\<And>col v pre post s. I (pre @ post) s \<Longrightarrow>
      sorted_cols (pre @ (col, v) # post) \<Longrightarrow> (col, v) \<in> set it \<Longrightarrow>
      I (pre @ (col, v) # post) (cb col 0 v stored s)"
  shows "I (front @ merge_entries mv row it) (snd (merge_loop cb mv stored row it s))"
  using assms
proof (induction cb mv stored row it s arbitrary: front rule: merge_loop.induct)
  case (1 cb mv stored row s)
  then show ?case by simp
next
  case (2 cb mv stored col v it s)
  have "I (front @ [(col, v)] @ []) (cb col 0 v stored s)"
    using 2(6) [of front "[]" s col v] 2(2-4) by (simp add: sorted_cols_def sorted_wrt_append)
  then have "I ((front @ [(col, v)]) @ merge_entries mv [] it)
      (snd (merge_loop cb mv stored [] it (cb col 0 v stored s)))"
    using 2(2-3,5-6) by (intro 2(1)) (auto simp: sorted_cols_def sorted_wrt_append)
  then show ?case by (simp add: case_prod_unfold)
next
  case (3 cb mv stored c a row col v it s)
  consider "c = col" | "c < col" | "col < c" by linarith
  then show ?case
  proof cases
    case 1
    let ?new = "if mv a v = 0 then [] else [(col, mv a v)]"
    have "I (front @ ?new @ row) (cb col a (mv a v) stored s)"
      using 3(7) [of front col a row s v] 3(4,6) 1 by simp
    then have "I ((front @ ?new) @ merge_entries mv row it)
        (snd (merge_loop cb mv stored row it (cb col a (mv a v) stored s)))"
      using 3(4,5,7,8) 1 by (intro 3(1)) (auto simp: sorted_cols_def sorted_wrt_append)
    with 1 show ?thesis by (auto simp: Let_def split: prod.split)
  next
    case 2
    have "I ((front @ [(c, a)]) @ merge_entries mv row ((col, v) # it))
        (snd (merge_loop cb mv stored row ((col, v) # it) s))"
      using 3(4-8) 2 by (intro 3(2)) (auto simp: sorted_cols_def sorted_wrt_append)
    with 2 show ?thesis by (auto split: prod.split)
  next
    case c: 3
    have "I (front @ (col, v) # (c, a) # row) (cb col 0 v stored s)"
      using 3(8) [of front "(c, a) # row" s col v] 3(4-6) c
      by (simp add: sorted_cols_def sorted_wrt_append, meson less_trans)
    then have "I ((front @ [(col, v)]) @ merge_entries mv ((c, a) # row) it)
        (snd (merge_loop cb mv stored ((c, a) # row) it (cb col 0 v stored s)))"
      using 3(4,5,7,8) c by (intro 3(3)) (auto simp: sorted_cols_def sorted_wrt_append)
    with c show ?thesis by (auto split: prod.split)
  qed
qed

lemma row_value_Cons [simp]: "row_value ((c, v) # row) x = v * x ! c + row_value row x"
  by (simp add: row_value_def)

lemma row_value_Nil [simp]: "row_value [] x = 0"
  by (simp add: row_value_def)

lemma row_value_append [simp]: "row_value (xs @ ys) x = row_value xs x + row_value ys x"
  by (simp add: row_value_def)

lemma merge_entries_value:
  "(\<And>a b. mv a b = a + b) \<Longrightarrow> row_value (merge_entries mv row it) x = row_value row x + row_value it x"
proof (induction mv row it rule: merge_entries.induct)
  case (3 mv c a row col v it)
  have "a * x ! c + v * x ! c = 0" if "a + v = 0"
    using that by (simp flip: distrib_right)
  with 3 show ?case by (auto simp: distrib_right)
qed simp_all

section \<open>The collected coefficient changes\<close>

text \<open>
  The buffer is traversed in row-major order for the row storage and in column-major order for the
  column storage; the changes of one row are handed to \<open>changeRowInplace\<close> together. In the row pass
  the client's callback may change the activities; a row that becomes empty has its activity reset.
\<close>

type_synonym matrix_buffer = "(nat \<times> nat \<times> rat) list"

function group_by_first :: "(nat \<times> 'a) list \<Rightarrow> (nat \<times> 'a list) list" where
  "group_by_first [] = []"
| "group_by_first ((k, e) # es) =
     (k, e # map snd (takeWhile (\<lambda>x. fst x = k) es)) # group_by_first (dropWhile (\<lambda>x. fst x = k) es)"
  by pat_completeness auto
termination by (relation "measure length") (auto simp: length_dropWhile_le less_Suc_eq_le)

definition row_major :: "matrix_buffer \<Rightarrow> (nat \<times> nat \<times> rat) list" where
  "row_major buffer = sort_key (\<lambda>(r, c, v). (r, c)) buffer"

definition col_major :: "matrix_buffer \<Rightarrow> (nat \<times> nat \<times> rat) list" where
  "col_major buffer = map (\<lambda>(r, c, v). (c, r, v)) (sort_key (\<lambda>(r, c, v). (c, r)) buffer)"

fun fold_option :: "('a \<Rightarrow> 's \<Rightarrow> 's option) \<Rightarrow> 'a list \<Rightarrow> 's \<Rightarrow> 's option" where
  "fold_option f [] s = Some s"
| "fold_option f (x # xs) s = (case f x s of None \<Rightarrow> None | Some s' \<Rightarrow> fold_option f xs s')"

definition reset_min_max :: "RowActivity \<Rightarrow> RowActivity" where
  "reset_min_max act = act\<lparr>act_min := 0, act_max := 0\<rparr>"

fun change_row_step ::
  "(nat \<Rightarrow> (RowActivity list \<times> 's) changed_callback) \<Rightarrow> nat \<times> (nat \<times> rat) list \<Rightarrow>
   problem \<times> nat list \<times> 's \<Rightarrow> (problem \<times> nat list \<times> 's) option" where
  "change_row_step coeffChanged (row, changes) (p, singletonRows, s) =
     (case changeRowInplace (coeffChanged row) changes (row_coeffs p ! row) (row_activities p, s) of
        None \<Rightarrow> None
      | Some (newrow, acts, s') \<Rightarrow>
          let newsize = int (length newrow);
              p1 = p\<lparr>row_coeffs := (row_coeffs p)[row := newrow], row_activities := acts\<rparr>
          in if newsize \<noteq> rowsize p ! row
             then Some (p1\<lparr>row_activities := (if newsize = 0 then acts[row := reset_min_max (acts ! row)] else acts),
                    rowsize := (rowsize p)[row := newsize]\<rparr>,
                  if newsize = 1 then singletonRows @ [row] else singletonRows, s')
             else Some (p1, singletonRows, s'))"

fun change_col_step ::
  "nat \<times> (nat \<times> rat) list \<Rightarrow> problem \<times> nat list \<times> nat list \<Rightarrow> (problem \<times> nat list \<times> nat list) option" where
  "change_col_step (col, changes) (p, singletonCols, emptyCols) =
     (case changeRowInplace (\<lambda>_ _ _ _ u. u) changes (col_coeffs p ! col) () of
        None \<Rightarrow> None
      | Some (newcol, _) \<Rightarrow>
          let newsize = int (length newcol); p1 = p\<lparr>col_coeffs := (col_coeffs p)[col := newcol]\<rparr>
          in if newsize \<noteq> colsize p ! col
             then Some (p1\<lparr>colsize := (colsize p)[col := newsize]\<rparr>,
                  if newsize = 1 then singletonCols @ [col] else singletonCols,
                  if newsize = 0 then emptyCols @ [col] else emptyCols)
             else Some (p1, singletonCols, emptyCols))"

definition changeCoefficients ::
  "matrix_buffer \<Rightarrow> (nat \<Rightarrow> (RowActivity list \<times> 's) changed_callback) \<Rightarrow>
   problem \<times> nat list \<times> nat list \<times> nat list \<times> 's \<Rightarrow>
   (problem \<times> nat list \<times> nat list \<times> nat list \<times> 's) option" where
  "changeCoefficients buffer coeffChanged st =
     (case st of (p, singletonRows, singletonCols, emptyCols, s) \<Rightarrow>
        if buffer = [] then Some st
        else (case fold_option (change_row_step coeffChanged) (group_by_first (row_major buffer)) (p, singletonRows, s) of
          None \<Rightarrow> None
        | Some (p1, singletonRows1, s1) \<Rightarrow>
            (case fold_option change_col_step (group_by_first (col_major buffer)) (p1, singletonCols, emptyCols) of
              None \<Rightarrow> None
            | Some (p2, singletonCols1, emptyCols1) \<Rightarrow> Some (p2, singletonRows1, singletonCols1, emptyCols1, s1))))"

subsection \<open>The groups\<close>

lemma takeWhile_key_sorted:
  "sorted (map fst ((k, e) # es)) \<Longrightarrow> takeWhile (\<lambda>x. fst x = k) es = filter (\<lambda>x. fst x = k) es \<and>
   dropWhile (\<lambda>x. fst x = k) es = filter (\<lambda>x. fst x \<noteq> (k::nat)) es"
proof (induction es)
  case (Cons x es)
  show ?case
  proof (cases "fst x = k")
    case True
    with Cons show ?thesis by simp
  next
    case False
    with Cons.prems have "\<forall>y\<in>set es. fst y \<noteq> k" by auto
    with False show ?thesis by (auto simp: filter_empty_conv filter_id_conv)
  qed
qed simp

lemma group_by_first_groups:
  assumes "sorted (map fst es)"
  shows "sorted_wrt (<) (map fst (group_by_first es)) \<and> fst ` set (group_by_first es) = fst ` set es \<and>
    (\<forall>(k, ch) \<in> set (group_by_first es). ch = map snd (filter (\<lambda>x. fst x = k) es))"
  using assms
proof (induction es rule: group_by_first.induct)
  case (2 k e es)
  let ?rest = "filter (\<lambda>x. fst x \<noteq> k) es"
  have tw: "takeWhile (\<lambda>x. fst x = k) es = filter (\<lambda>x. fst x = k) es"
    and dw: "dropWhile (\<lambda>x. fst x = k) es = ?rest"
    using takeWhile_key_sorted [OF 2(2)] by auto
  have rest: "sorted (map fst ?rest)" using 2(2) by (simp add: sorted_filter)
  note IH = 2(1) [unfolded dw, OF rest]
  have less: "k < k'" if "k' \<in> fst ` set ?rest" for k'
    using that 2(2) by (auto simp: order_le_less)
  have others: "ch = map snd (filter (\<lambda>x. fst x = k') ((k, e) # es))"
    if in_rest: "(k', ch) \<in> set (group_by_first ?rest)" for k' ch
  proof -
    have "k' \<in> fst ` set (group_by_first ?rest)" using in_rest by force
    then have "k' \<in> fst ` set ?rest" using IH by blast
    then have "k' \<noteq> k" by auto
    then have "filter (\<lambda>x. fst x = k') ?rest = filter (\<lambda>x. fst x = k') ((k, e) # es)"
      by (simp, intro filter_cong refl) auto
    moreover have "ch = map snd (filter (\<lambda>x. fst x = k') ?rest)" using in_rest IH by blast
    ultimately show ?thesis by simp
  qed
  have groups: "group_by_first ((k, e) # es) = (k, e # map snd (filter (\<lambda>x. fst x = k) es)) # group_by_first ?rest"
    by (simp add: tw dw)
  have "sorted_wrt (<) (map fst (group_by_first ((k, e) # es)))"
    using IH less unfolding groups by simp
  moreover have "fst ` set (group_by_first ((k, e) # es)) = fst ` set ((k, e) # es)"
  proof -
    have "fst ` set (group_by_first ((k, e) # es)) = insert k (fst ` set ?rest)"
      using IH unfolding groups by simp
    also have "\<dots> = insert k (fst ` set es)" by (auto simp: image_def) force
    finally show ?thesis by simp
  qed
  moreover have "\<forall>(k', ch) \<in> set (group_by_first ((k, e) # es)). ch = map snd (filter (\<lambda>x. fst x = k') ((k, e) # es))"
  proof (intro ballI, clarify)
    fix k' ch assume "(k', ch) \<in> set (group_by_first ((k, e) # es))"
    then consider "k' = k" "ch = e # map snd (filter (\<lambda>x. fst x = k) es)"
      | "(k', ch) \<in> set (group_by_first ?rest)" unfolding groups by auto
    then show "ch = map snd (filter (\<lambda>x. fst x = k') ((k, e) # es))"
      using others by cases simp_all
  qed
  ultimately show ?case by blast
qed simp

definition buffer_lookup :: "matrix_buffer \<Rightarrow> nat \<Rightarrow> nat \<Rightarrow> rat option" where
  "buffer_lookup buffer r c = map_of (map (\<lambda>(r, c, v). ((r, c), v)) buffer) (r, c)"

definition buffer_ok :: "problem \<Rightarrow> matrix_buffer \<Rightarrow> bool" where
  "buffer_ok p buffer \<longleftrightarrow> distinct (map (\<lambda>(r, c, v). (r, c)) buffer) \<and>
     (\<forall>(r, c, v) \<in> set buffer. r < getNRows p \<and> c \<in> fst ` set (row_coeffs p ! r))"

definition row_changes :: "matrix_buffer \<Rightarrow> nat \<Rightarrow> (nat \<times> rat) list" where
  "row_changes buffer r = map snd (filter (\<lambda>e. fst e = r) (row_major buffer))"

definition col_changes :: "matrix_buffer \<Rightarrow> nat \<Rightarrow> (nat \<times> rat) list" where
  "col_changes buffer c = map snd (filter (\<lambda>e. fst e = c) (col_major buffer))"

lemma major_sorted:
  "sorted (map fst (row_major buffer))" "sorted (map fst (col_major buffer))"
proof -
  have fst_mono: "sorted (map f xs) \<Longrightarrow> sorted (map (\<lambda>x. fst (f x)) xs)" for f :: "'z \<Rightarrow> nat \<times> nat" and xs
    by (induction xs) (auto simp: less_eq_prod_def)
  show "sorted (map fst (row_major buffer))" "sorted (map fst (col_major buffer))"
    using fst_mono [OF sorted_sort_key [of "\<lambda>(r, c, v). (r, c)" buffer]]
      fst_mono [OF sorted_sort_key [of "\<lambda>(r, c, v). (c, r)" buffer]]
    by (simp_all add: row_major_def col_major_def case_prod_unfold o_def)
qed

lemma entries_of_key_sorted:
  assumes "sorted (map (\<lambda>(a, b, v). (a, b)) es)" and "distinct (map (\<lambda>(a, b, v). (a::nat, b::nat)) es)"
  shows "sorted_cols (map snd (filter (\<lambda>e. fst e = k) es))"
proof -
  have "sorted_wrt (<) (map (\<lambda>(a, b, v). (a, b)) es)"
    using assms by (simp only: strict_sorted_iff)
  then have "sorted_wrt (\<lambda>x y. (fst x, fst (snd x)) < (fst y, fst (snd y))) es"
    by (simp add: sorted_wrt_map case_prod_unfold)
  then have "sorted_wrt (\<lambda>x y. (fst x, fst (snd x)) < (fst y, fst (snd y))) (filter (\<lambda>e. fst e = k) es)"
    by (rule sorted_wrt_filter)
  then have "sorted_wrt (\<lambda>x y. fst (snd x) < fst (snd y)) (filter (\<lambda>e. fst e = k) es)"
    by (rule sorted_wrt_mono_rel [rotated]) (auto simp: less_prod_def)
  then show ?thesis by (simp add: sorted_cols_def sorted_wrt_map)
qed

lemma entries_of_key_map_of:
  "map_of (map snd (filter (\<lambda>e. fst e = k) es)) c = map_of (map (\<lambda>(a, b, v). ((a, b), v)) es) (k, c)"
  by (induction es) auto

lemma map_of_perm:
  assumes "set xs = set ys" and "distinct (map fst xs)" and "distinct (map fst ys)"
  shows "map_of xs k = map_of ys k"
  using map_of_inject_set [OF assms(2,3)] assms(1) by simp

lemma row_changes_facts:
  assumes "distinct (map (\<lambda>(r, c, v). (r, c)) buffer)"
  shows "sorted_cols (row_changes buffer r)" "map_of (row_changes buffer r) c = buffer_lookup buffer r c"
proof -
  let ?L = "row_major buffer"
  have keys: "map fst (map (\<lambda>(a, b, v). ((a, b), v)) es) = map (\<lambda>(a, b, v). (a, b)) es" for es :: "(nat \<times> nat \<times> rat) list"
    by (simp add: case_prod_unfold)
  have "mset ?L = mset buffer" by (simp add: row_major_def)
  then have dist: "distinct (map (\<lambda>(r, c, v). (r, c)) ?L)" and set: "set ?L = set buffer"
    using assms by (metis distinct_map mset_eq_imp_distinct_iff mset_eq_setD)+
  show "sorted_cols (row_changes buffer r)"
    using entries_of_key_sorted [OF _ dist] sorted_sort_key [of "\<lambda>(r, c, v). (r, c)" buffer]
    by (simp add: row_changes_def row_major_def)
  show "map_of (row_changes buffer r) c = buffer_lookup buffer r c"
    unfolding row_changes_def entries_of_key_map_of buffer_lookup_def
    by (rule map_of_perm) (use set assms dist in \<open>simp_all only: keys set_map\<close>)
qed

lemma map_sort_key: "map g (sort_key (\<lambda>x. f (g x)) xs) = sort_key f (map g xs)"
proof (induction xs)
  case (Cons x xs)
  have "map g (insort_key (\<lambda>x. f (g x)) x ys) = insort_key f (g x) (map g ys)" for ys
    by (induction ys) auto
  with Cons show ?case by simp
qed simp

lemma col_changes_facts:
  assumes "distinct (map (\<lambda>(r, c, v). (r, c)) buffer)"
  shows "sorted_cols (col_changes buffer c)" "map_of (col_changes buffer c) r = buffer_lookup buffer r c"
proof -
  let ?B = "map (\<lambda>(r, c, v). (c, r, v)) buffer"
  have "col_major buffer = row_major ?B"
    using map_sort_key [of "\<lambda>(r, c, v). (c, r, v)" "\<lambda>(r, c, v). (r, c)" buffer]
    by (simp add: col_major_def row_major_def case_prod_unfold)
  then have same: "col_changes buffer c = row_changes ?B c"
    by (simp add: col_changes_def row_changes_def)
  have "distinct (map (\<lambda>(c, r). (r, c)) (map (\<lambda>(r, c, v). (r, c)) buffer))"
    using assms by (subst distinct_map) (auto simp: inj_on_def)
  then have dist: "distinct (map (\<lambda>(r, c, v). (r, c)) ?B)"
    by (simp add: case_prod_unfold o_def)
  have swap: "buffer_lookup ?B c r = buffer_lookup buffer r c"
    by (induction buffer) (auto simp: buffer_lookup_def)
  show "sorted_cols (col_changes buffer c)" "map_of (col_changes buffer c) r = buffer_lookup buffer r c"
    using row_changes_facts(1) [OF dist, of c] row_changes_facts(2) [OF dist, of c r]
    unfolding same swap by auto
qed

lemma with_changes_member:
  "(c, v) \<in> set (with_changes changes row) \<longleftrightarrow>
    (case map_of changes c of None \<Rightarrow> (c, v) \<in> set row | Some w \<Rightarrow> v = w \<and> w \<noteq> 0 \<and> c \<in> fst ` set row)"
proof -
  have mem: "(c, v) \<in> set (with_changes changes row) \<longleftrightarrow>
    (\<exists>v0. (c, v0) \<in> set row \<and> v = (case map_of changes c of None \<Rightarrow> v0 | Some w \<Rightarrow> w)) \<and>
    (v \<noteq> 0 \<or> c \<notin> fst ` set changes)"
    unfolding with_changes_def set_filter set_map by force
  show ?thesis
  proof (cases "map_of changes c")
    case None
    then have "c \<notin> fst ` set changes" by (simp add: map_of_eq_None_iff)
    with None mem show ?thesis by simp
  next
    case (Some w)
    then have "c \<in> fst ` set changes" by (metis map_of_eq_None_iff option.distinct(1))
    with Some mem show ?thesis by force
  qed
qed

subsection \<open>The passes\<close>

text \<open>The rows and their sizes after the groups of changes were applied.\<close>

definition changed_lines :: "(nat \<times> (nat \<times> rat) list) list \<Rightarrow> sparse_vec list \<Rightarrow> sparse_vec list" where
  "changed_lines gs rows = map (\<lambda>r. case map_of gs r of None \<Rightarrow> rows ! r
     | Some ch \<Rightarrow> with_changes ch (rows ! r)) [0..<length rows]"

definition changed_sizes :: "(nat \<times> (nat \<times> rat) list) list \<Rightarrow> sparse_vec list \<Rightarrow> int list \<Rightarrow> int list" where
  "changed_sizes gs rows sizes = map (\<lambda>r. case map_of gs r of None \<Rightarrow> sizes ! r
     | Some ch \<Rightarrow> int (length (with_changes ch (rows ! r)))) [0..<length rows]"

lemma changed_lines_length [simp]: "length (changed_lines gs rows) = length rows"
  "length (changed_sizes gs rows sizes) = length rows"
  by (simp_all add: changed_lines_def changed_sizes_def)

lemma changed_lines_Nil [simp]: "changed_lines [] rows = rows"
  "length sizes = length rows \<Longrightarrow> changed_sizes [] rows sizes = sizes"
  by (auto intro!: nth_equalityI simp: changed_lines_def changed_sizes_def)

lemma changed_lines_Cons:
  assumes "r < length rows" and "r \<notin> fst ` set gs" and "length sizes = length rows"
  shows "changed_lines gs (rows[r := with_changes ch (rows ! r)]) = changed_lines ((r, ch) # gs) rows"
    "changed_sizes gs (rows[r := with_changes ch (rows ! r)])
      (sizes[r := int (length (with_changes ch (rows ! r)))]) = changed_sizes ((r, ch) # gs) rows sizes"
proof -
  have none: "map_of gs r = None" using assms(2) by (simp add: map_of_eq_None_iff)
  show "changed_lines gs (rows[r := with_changes ch (rows ! r)]) = changed_lines ((r, ch) # gs) rows"
    unfolding changed_lines_def
    by (rule map_cong) (use assms(1) none in \<open>auto simp: nth_list_update split: option.split\<close>)
  show "changed_sizes gs (rows[r := with_changes ch (rows ! r)])
      (sizes[r := int (length (with_changes ch (rows ! r)))]) = changed_sizes ((r, ch) # gs) rows sizes"
    unfolding changed_sizes_def
    by (rule map_cong) (use assms(1,3) none in \<open>auto simp: nth_list_update split: option.split\<close>)
qed

text \<open>Groups that fit the lines they change.\<close>

definition group_fits :: "sparse_vec list \<Rightarrow> nat \<times> (nat \<times> rat) list \<Rightarrow> bool" where
  "group_fits rows g \<longleftrightarrow> fst g < length rows \<and> sorted_cols (rows ! fst g) \<and> sorted_cols (snd g) \<and>
     fst ` set (snd g) \<subseteq> fst ` set (rows ! fst g)"

definition groups_ok :: "(nat \<times> (nat \<times> rat) list) list \<Rightarrow> sparse_vec list \<Rightarrow> bool" where
  "groups_ok gs rows \<longleftrightarrow> distinct (map fst gs) \<and> (\<forall>g\<in>set gs. group_fits rows g)"

lemma groups_ok_Cons:
  assumes "groups_ok ((r, ch) # gs) rows"
  shows "groups_ok gs (rows[r := x])" "r < length rows" "r \<notin> fst ` set gs"
    "sorted_cols (rows ! r)" "sorted_cols ch" "fst ` set ch \<subseteq> fst ` set (rows ! r)"
proof -
  have "group_fits rows (r, ch)" using assms by (simp add: groups_ok_def)
  then show "r < length rows" "sorted_cols (rows ! r)" "sorted_cols ch"
    "fst ` set ch \<subseteq> fst ` set (rows ! r)"
    unfolding group_fits_def fst_conv snd_conv by blast+
  show r: "r \<notin> fst ` set gs" using assms by (simp add: groups_ok_def)
  have "group_fits (rows[r := x]) g = group_fits rows g" if "fst g \<noteq> r" for g
    using that unfolding group_fits_def by simp
  moreover have "fst g \<noteq> r" if "g \<in> set gs" for g using r that by blast
  ultimately show "groups_ok gs (rows[r := x])" using assms by (simp add: groups_ok_def)
qed

lemma change_cols_pass:
  assumes "groups_ok gs (col_coeffs p)" and "length (colsize p) = getNCols p"
  shows "\<exists>sing empt. fold_option change_col_step gs (p, singletonCols, emptyCols) =
    Some (p\<lparr>col_coeffs := changed_lines gs (col_coeffs p),
        colsize := changed_sizes gs (col_coeffs p) (colsize p)\<rparr>, sing, empt)"
  using assms
proof (induction gs arbitrary: p singletonCols emptyCols)
  case Nil
  then show ?case by (simp add: getNCols_def)
next
  case (Cons g gs)
  obtain c ch where g: "g = (c, ch)" by fastforce
  note ok = groups_ok_Cons [OF Cons.prems(1) [unfolded g]]
  let ?new = "with_changes ch (col_coeffs p ! c)"
  let ?p = "p\<lparr>col_coeffs := (col_coeffs p)[c := ?new], colsize := (colsize p)[c := int (length ?new)]\<rparr>"
  have run: "changeRowInplace (\<lambda>_ _ _ _ u. u) ch (col_coeffs p ! c) () = Some (?new, ())"
    using changeRowInplace_computes [where I = "\<lambda>_ _. True" and cb = "\<lambda>_ _ _ _ u. u" and s = "()", OF ok(4-6)]
    by simp
  have "int (length ?new) = colsize p ! c \<Longrightarrow> (colsize p)[c := int (length ?new)] = colsize p" by simp
  then have step: "\<exists>sing empt. change_col_step (c, ch) (p, singletonCols, emptyCols) = Some (?p, sing, empt)"
    using run by (auto simp: Let_def)
  have prems: "groups_ok gs (col_coeffs ?p)" "length (colsize ?p) = getNCols ?p"
    using ok(1) Cons.prems(2) by (simp_all add: getNCols_def)
  have lens: "length (colsize p) = length (col_coeffs p)" using Cons.prems(2) by (simp add: getNCols_def)
  show ?case
    using step Cons.IH [OF prems] changed_lines_Cons [OF ok(2,3) lens, of ch]
    by (auto simp: g)
qed

text \<open>The groups of a buffer.\<close>

definition buffered_rows :: "matrix_buffer \<Rightarrow> sparse_vec list \<Rightarrow> sparse_vec list" where
  "buffered_rows buffer rows = map (\<lambda>r. with_changes (row_changes buffer r) (rows ! r)) [0..<length rows]"

lemma buffered_rows_Nil [simp]: "buffered_rows [] rows = rows"
  by (simp add: buffered_rows_def row_changes_def row_major_def map_nth)

definition buffered_cols :: "matrix_buffer \<Rightarrow> sparse_vec list \<Rightarrow> sparse_vec list" where
  "buffered_cols buffer cols = map (\<lambda>c. with_changes (col_changes buffer c) (cols ! c)) [0..<length cols]"

lemma buffered_cols_Nil [simp]: "buffered_cols [] cols = cols"
  by (simp add: buffered_cols_def col_changes_def col_major_def map_nth)

lemma groups_of_sorted:
  assumes "sorted (map fst es)"
  shows "distinct (map fst (group_by_first es))"
    "k \<notin> fst ` set (group_by_first es) \<Longrightarrow> map snd (filter (\<lambda>e. fst e = k) es) = []"
    "(k, ch) \<in> set (group_by_first es) \<Longrightarrow> ch = map snd (filter (\<lambda>e. fst e = k) es)"
proof -
  note facts = group_by_first_groups [OF assms]
  show "distinct (map fst (group_by_first es))"
    using facts strict_sorted_iff by blast
  show "map snd (filter (\<lambda>e. fst e = k) es) = []" if "k \<notin> fst ` set (group_by_first es)"
    using that facts by (auto simp: filter_empty_conv)
  show "ch = map snd (filter (\<lambda>e. fst e = k) es)" if "(k, ch) \<in> set (group_by_first es)"
    using that facts by blast
qed

lemmas row_groups = groups_of_sorted [OF major_sorted(1)]
lemmas col_groups = groups_of_sorted [OF major_sorted(2)]

lemma changed_lines_groups:
  assumes "distinct (map fst gs)"
    and "\<And>k. k \<notin> fst ` set gs \<Longrightarrow> f k = []" and "\<And>k ch. (k, ch) \<in> set gs \<Longrightarrow> ch = f k"
  shows "changed_lines gs lines = map (\<lambda>k. with_changes (f k) (lines ! k)) [0..<length lines]"
  unfolding changed_lines_def
proof (rule map_cong [OF refl])
  fix k
  show "(case map_of gs k of None \<Rightarrow> lines ! k | Some ch \<Rightarrow> with_changes ch (lines ! k)) =
      with_changes (f k) (lines ! k)"
  proof (cases "map_of gs k")
    case None
    then have "f k = []" by (simp add: assms(2) map_of_eq_None_iff)
    with None show ?thesis by simp
  next
    case (Some ch)
    then show ?thesis using assms(3) by (auto dest: map_of_SomeD)
  qed
qed

lemma major_set: "set (row_major buffer) = set buffer"
  "set (col_major buffer) = (\<lambda>(r, c, v). (c, r, v)) ` set buffer"
  by (simp_all add: row_major_def col_major_def)

lemma row_changes_member: "(c, w) \<in> set (row_changes buffer r) \<longleftrightarrow> (r, c, w) \<in> set buffer"
  by (auto simp: row_changes_def major_set image_iff)

lemma col_changes_member: "(r, w) \<in> set (col_changes buffer c) \<longleftrightarrow> (r, c, w) \<in> set buffer"
  by (force simp: col_changes_def major_set image_iff)

lemma group_keys:
  "r \<in> fst ` set (group_by_first (row_major buffer)) \<longleftrightarrow> (\<exists>c w. (r, c, w) \<in> set buffer)"
  "c \<in> fst ` set (group_by_first (col_major buffer)) \<longleftrightarrow> (\<exists>r w. (r, c, w) \<in> set buffer)"
proof -
  have "fst ` set (group_by_first (row_major buffer)) = fst ` set buffer"
    using group_by_first_groups [OF major_sorted(1), of buffer] by (simp only: major_set)
  then show "r \<in> fst ` set (group_by_first (row_major buffer)) \<longleftrightarrow> (\<exists>c w. (r, c, w) \<in> set buffer)"
    by force
  have "fst ` set (group_by_first (col_major buffer)) = (\<lambda>(r, c, v). c) ` set buffer"
    using group_by_first_groups [OF major_sorted(2), of buffer]
    by (simp only: major_set image_image) (simp add: case_prod_unfold)
  then show "c \<in> fst ` set (group_by_first (col_major buffer)) \<longleftrightarrow> (\<exists>r w. (r, c, w) \<in> set buffer)"
    by force
qed

lemma buffer_groups_ok:
  assumes "matrix_ok (getNCols p) (row_coeffs p) (col_coeffs p)"
    and "\<forall>row\<in>set (row_coeffs p). sorted_cols row" and "\<forall>col\<in>set (col_coeffs p). sorted_cols col"
    and "buffer_ok p buffer"
  shows "groups_ok (group_by_first (row_major buffer)) (row_coeffs p)"
    "groups_ok (group_by_first (col_major buffer)) (col_coeffs p)"
proof -
  have dist: "distinct (map (\<lambda>(r, c, v). (r, c)) buffer)" using assms(4) by (simp add: buffer_ok_def)
  have in_row: "r < getNRows p \<and> c \<in> fst ` set (row_coeffs p ! r)" if "(r, c, w) \<in> set buffer" for r c w
    using assms(4) that unfolding buffer_ok_def by blast
  have in_col: "c < getNCols p \<and> r \<in> fst ` set (col_coeffs p ! c)" if m: "(r, c, w) \<in> set buffer" for r c w
  proof -
    obtain v where v: "(c, v) \<in> set (row_coeffs p ! r)" "r < getNRows p" using in_row [OF m] by force
    then have "row_coeffs p ! r \<in> set (row_coeffs p)" by (simp add: getNRows_def)
    with v assms(1) have "c < getNCols p" by (auto simp: matrix_ok_def)
    moreover have "(r, v) \<in> set (col_coeffs p ! c)"
      using v calculation assms(1) by (auto simp: matrix_ok_def col_of_matrix_def getNRows_def)
    ultimately show ?thesis by force
  qed
  show "groups_ok (group_by_first (row_major buffer)) (row_coeffs p)"
    unfolding groups_ok_def
  proof (intro conjI ballI)
    fix g assume g: "g \<in> set (group_by_first (row_major buffer))"
    obtain r ch where gr: "g = (r, ch)" by fastforce
    then have ch: "ch = row_changes buffer r" using row_groups(3) g by (simp add: row_changes_def)
    have "\<exists>c w. (r, c, w) \<in> set buffer" using g gr group_keys(1) by force
    then have "r < getNRows p" using in_row by blast
    moreover have "fst ` set ch \<subseteq> fst ` set (row_coeffs p ! r)"
      using in_row row_changes_member unfolding ch by force
    ultimately show "group_fits (row_coeffs p) g"
      using assms(2) row_changes_facts(1) [OF dist] by (simp add: group_fits_def gr ch getNRows_def)
  qed (rule row_groups(1))
  show "groups_ok (group_by_first (col_major buffer)) (col_coeffs p)"
    unfolding groups_ok_def
  proof (intro conjI ballI)
    fix g assume g: "g \<in> set (group_by_first (col_major buffer))"
    obtain c ch where gc: "g = (c, ch)" by fastforce
    then have ch: "ch = col_changes buffer c" using col_groups(3) g by (simp add: col_changes_def)
    have "\<exists>r w. (r, c, w) \<in> set buffer" using g gc group_keys(2) by force
    then have "c < getNCols p" using in_col by blast
    moreover have "fst ` set ch \<subseteq> fst ` set (col_coeffs p ! c)"
      using in_col col_changes_member unfolding ch by force
    ultimately show "group_fits (col_coeffs p) g"
      using assms(3) col_changes_facts(1) [OF dist] by (simp add: group_fits_def gc ch getNCols_def)
  qed (rule col_groups(1))
qed

text \<open>The changed storages still hold one matrix.\<close>

lemma buffered_matrix_ok:
  assumes "matrix_ok (getNCols p) (row_coeffs p) (col_coeffs p)" and "buffer_ok p buffer"
  shows "matrix_ok (getNCols p) (buffered_rows buffer (row_coeffs p)) (buffered_cols buffer (col_coeffs p))"
proof -
  have dist: "distinct (map (\<lambda>(r, c, v). (r, c)) buffer)" using assms(2) by (simp add: buffer_ok_def)
  note look = row_changes_facts(2) [OF dist] col_changes_facts(2) [OF dist]
  have keeps: "distinct_cols row \<Longrightarrow> distinct_cols (with_changes ch row)" for ch row
    by (simp add: with_changes_def distinct_map_filter case_prod_unfold comp_def)
  have lenr: "length (buffered_rows buffer (row_coeffs p)) = getNRows p"
    and lenc: "length (buffered_cols buffer (col_coeffs p)) = getNCols p"
    by (simp_all add: buffered_rows_def buffered_cols_def getNRows_def getNCols_def)
  have trans: "(c, v) \<in> set (buffered_rows buffer (row_coeffs p) ! r) \<longleftrightarrow>
      (r, v) \<in> set (buffered_cols buffer (col_coeffs p) ! c)" if "c < getNCols p" "r < getNRows p" for r c v
  proof -
    have old: "(c, u) \<in> set (row_coeffs p ! r) \<longleftrightarrow> (r, u) \<in> set (col_coeffs p ! c)" for u
      using assms(1) that by (auto simp: matrix_ok_def col_of_matrix_def getNRows_def)
    then have "c \<in> fst ` set (row_coeffs p ! r) \<longleftrightarrow> r \<in> fst ` set (col_coeffs p ! c)" by force
    with old that show ?thesis
      by (simp add: buffered_rows_def buffered_cols_def getNRows_def getNCols_def with_changes_member look
          split: option.split)
  qed
  show ?thesis
    unfolding matrix_ok_def
  proof (intro conjI allI impI ballI)
    fix c assume c: "c < getNCols p"
    have "distinct_cols (col_coeffs p ! c)" using assms(1) c by (simp add: matrix_ok_def col_of_matrix_def)
    then have "distinct (map fst (buffered_cols buffer (col_coeffs p) ! c))"
      using c keeps by (simp add: buffered_cols_def getNCols_def)
    moreover have "fst e < getNRows p" if "e \<in> set (buffered_cols buffer (col_coeffs p) ! c)" for e
    proof -
      from that c have "e \<in> set (with_changes (col_changes buffer c) (col_coeffs p ! c))"
        by (simp add: buffered_cols_def getNCols_def)
      then have "fst e \<in> fst ` set (col_coeffs p ! c)" using with_changes_cols by blast
      then show ?thesis using assms(1) c
        by (fastforce simp: matrix_ok_def col_of_matrix_def getNRows_def)
    qed
    ultimately show "col_of_matrix (buffered_rows buffer (row_coeffs p)) c (buffered_cols buffer (col_coeffs p) ! c)"
      using trans c lenr by (auto simp: col_of_matrix_def)
  next
    fix row assume "row \<in> set (buffered_rows buffer (row_coeffs p))"
    then obtain r where r: "row = with_changes (row_changes buffer r) (row_coeffs p ! r)" "r < getNRows p"
      by (auto simp: buffered_rows_def getNRows_def)
    then have old: "row_coeffs p ! r \<in> set (row_coeffs p)" by (simp add: getNRows_def)
    with assms(1) keeps r show "distinct_cols row" by (auto simp: matrix_ok_def)
    fix e assume e: "e \<in> set row"
    obtain c v where ev: "e = (c, v)" by fastforce
    with e r with_changes_member [of c v] old assms(1) show "case e of (c, v) \<Rightarrow> c < getNCols p \<and> v \<noteq> 0"
      by (force simp: matrix_ok_def split: option.splits)
  qed (rule lenc)
qed

text \<open>
  The contract of a client of \<open>changeCoefficients\<close>: its callback keeps a relation between the rows and
  its state when it hears of a change it allows, and so does the reset of an empty row.
\<close>

locale coefficient_client =
  fixes coeffChanged :: "nat \<Rightarrow> (RowActivity list \<times> 's) changed_callback"
    and inv :: "sparse_vec list \<Rightarrow> RowActivity list \<times> 's \<Rightarrow> bool"
    and allowed :: "nat \<Rightarrow> rat \<Rightarrow> rat \<Rightarrow> bool"
  assumes hears: "inv rows st \<Longrightarrow> r < length rows \<Longrightarrow> rows ! r = pre @ (c, v) # post \<Longrightarrow>
      sorted_cols (rows ! r) \<Longrightarrow> allowed c v w \<Longrightarrow>
      inv (rows[r := pre @ (if w = 0 then [] else [(c, w)]) @ post]) (coeffChanged r c v w stored st)"
    and resets: "inv rows (acts, s) \<Longrightarrow> r < length rows \<Longrightarrow> rows ! r = [] \<Longrightarrow>
      inv rows (acts[r := reset_min_max (acts ! r)], s)"
begin

lemma row_step:
  assumes "inv (row_coeffs p) (row_activities p, s)" and "r < getNRows p"
    and "sorted_cols (row_coeffs p ! r)" and "sorted_cols changes"
    and "fst ` set changes \<subseteq> fst ` set (row_coeffs p ! r)"
    and "\<forall>(c, w) \<in> set changes. \<forall>v. (c, v) \<in> set (row_coeffs p ! r) \<longrightarrow> allowed c v w"
    and "length (rowsize p) = getNRows p"
  shows "\<exists>acts sing s'. change_row_step coeffChanged (r, changes) (p, singletonRows, s) =
      Some (p\<lparr>row_coeffs := (row_coeffs p)[r := with_changes changes (row_coeffs p ! r)],
          row_activities := acts,
          rowsize := (rowsize p)[r := int (length (with_changes changes (row_coeffs p ! r)))]\<rparr>, sing, s') \<and>
    inv ((row_coeffs p)[r := with_changes changes (row_coeffs p ! r)]) (acts, s')"
proof -
  let ?row = "row_coeffs p ! r" and ?rows = "row_coeffs p"
  let ?new = "with_changes changes ?row"
  have len: "r < length ?rows" using assms(2) by (simp add: getNRows_def)
  have "\<exists>st'. changeRowInplace (coeffChanged r) changes ?row (row_activities p, s) = Some (?new, st') \<and>
      inv (?rows[r := ?new]) st'"
  proof (rule changeRowInplace_computes [where I = "\<lambda>row st. inv (?rows[r := row]) st", OF assms(3-5)])
    show "inv (?rows[r := ?row]) (row_activities p, s)" using assms(1) by simp
  next
    fix c v w pre post stored st
    assume *: "inv (?rows[r := pre @ (c, v) # post]) st" "sorted_cols (pre @ (c, v) # post)"
      "(c, w) \<in> set changes" "(c, v) \<in> set ?row"
    with assms(6) have "allowed c v w" by auto
    with hears [OF *(1), of r pre c v post w stored] * len
    show "inv (?rows[r := pre @ (if w = 0 then [] else [(c, w)]) @ post]) (coeffChanged r c v w stored st)"
      by simp
  qed
  then obtain acts s' where run: "changeRowInplace (coeffChanged r) changes ?row (row_activities p, s) =
      Some (?new, acts, s')" and inv: "inv (?rows[r := ?new]) (acts, s')" by auto
  show ?thesis
  proof (cases "?new = [] \<and> int (length ?new) \<noteq> rowsize p ! r")
    case True
    then have "inv (?rows[r := ?new]) (acts[r := reset_min_max (acts ! r)], s')"
      using resets [OF inv, of r] len by simp
    with True run show ?thesis by (auto simp: Let_def)
  next
    case False
    have "int (length ?new) = rowsize p ! r \<Longrightarrow> (rowsize p)[r := int (length ?new)] = rowsize p"
      by simp
    with False run inv show ?thesis by (auto simp: Let_def)
  qed
qed

lemma rows_pass:
  assumes "groups_ok gs (row_coeffs p)" and "length (rowsize p) = getNRows p"
    and "inv (row_coeffs p) (row_activities p, s)"
    and "\<forall>(r, ch) \<in> set gs. \<forall>(c, w) \<in> set ch. \<forall>v. (c, v) \<in> set (row_coeffs p ! r) \<longrightarrow> allowed c v w"
  shows "\<exists>acts sing s'. fold_option (change_row_step coeffChanged) gs (p, singletonRows, s) =
      Some (p\<lparr>row_coeffs := changed_lines gs (row_coeffs p), row_activities := acts,
          rowsize := changed_sizes gs (row_coeffs p) (rowsize p)\<rparr>, sing, s') \<and>
    inv (changed_lines gs (row_coeffs p)) (acts, s')"
  using assms
proof (induction gs arbitrary: p singletonRows s)
  case Nil
  show ?case
    by (rule exI [of _ "row_activities p"]) (use Nil in \<open>simp add: getNRows_def\<close>)
next
  case (Cons g gs)
  obtain r ch where g: "g = (r, ch)" by fastforce
  note ok = groups_ok_Cons [OF Cons.prems(1) [unfolded g]]
  let ?new = "with_changes ch (row_coeffs p ! r)"
  have lens: "length (rowsize p) = length (row_coeffs p)" using Cons.prems(2) by (simp add: getNRows_def)
  have here: "\<forall>(c, w) \<in> set ch. \<forall>v. (c, v) \<in> set (row_coeffs p ! r) \<longrightarrow> allowed c v w"
    using Cons.prems(4) unfolding g by simp
  have r: "r < getNRows p" using ok(2) by (simp add: getNRows_def)
  from row_step [OF Cons.prems(3) r ok(4-6) here Cons.prems(2), of singletonRows]
  obtain acts sing s1 where step: "change_row_step coeffChanged (r, ch) (p, singletonRows, s) =
      Some (p\<lparr>row_coeffs := (row_coeffs p)[r := ?new], row_activities := acts,
        rowsize := (rowsize p)[r := int (length ?new)]\<rparr>, sing, s1)"
    and inv: "inv ((row_coeffs p)[r := ?new]) (acts, s1)"
    by blast
  let ?p = "p\<lparr>row_coeffs := (row_coeffs p)[r := ?new], row_activities := acts,
      rowsize := (rowsize p)[r := int (length ?new)]\<rparr>"
  have prems: "groups_ok gs (row_coeffs ?p)" "length (rowsize ?p) = getNRows ?p"
    "inv (row_coeffs ?p) (row_activities ?p, s1)"
    using ok(1) Cons.prems(2) inv by (simp_all add: getNRows_def)
  have allow: "\<forall>(r', ch) \<in> set gs. \<forall>(c, w) \<in> set ch. \<forall>v. (c, v) \<in> set (row_coeffs ?p ! r') \<longrightarrow> allowed c v w"
  proof clarify
    fix r' ch' c w v
    assume *: "(r', ch') \<in> set gs" "(c, w) \<in> set ch'" "(c, v) \<in> set (row_coeffs ?p ! r')"
    then have "r' \<noteq> r" using ok(3) by force
    then have "(c, v) \<in> set (row_coeffs p ! r')" using *(3) by simp
    moreover have "\<forall>(c, w) \<in> set ch'. \<forall>v. (c, v) \<in> set (row_coeffs p ! r') \<longrightarrow> allowed c v w"
      using bspec [OF Cons.prems(4), of "(r', ch')"] *(1) unfolding g by simp
    ultimately show "allowed c v w" using *(2) by blast
  qed
  show ?case
    using Cons.IH [OF prems allow, of sing]
    by (simp add: g step changed_lines_Cons [OF ok(2,3) lens, of ch] del: change_row_step.simps)
qed

text \<open>All changes of the buffer: both storages hold the reference, and the client's relation is kept.\<close>

lemma changeCoefficients_computes:
  assumes "matrix_ok (getNCols p) (row_coeffs p) (col_coeffs p)"
    and "\<forall>row\<in>set (row_coeffs p). sorted_cols row" and "\<forall>col\<in>set (col_coeffs p). sorted_cols col"
    and "length (rowsize p) = getNRows p" and "length (colsize p) = getNCols p"
    and "buffer_ok p buffer" and "inv (row_coeffs p) (row_activities p, s)"
    and "\<forall>(r, c, w) \<in> set buffer. \<forall>v. (c, v) \<in> set (row_coeffs p ! r) \<longrightarrow> allowed c v w"
  shows "\<exists>acts sr sc ec s'. changeCoefficients buffer coeffChanged (p, singletonRows, singletonCols, emptyCols, s) =
      Some (p\<lparr>row_coeffs := buffered_rows buffer (row_coeffs p), row_activities := acts,
          rowsize := changed_sizes (group_by_first (row_major buffer)) (row_coeffs p) (rowsize p),
          col_coeffs := buffered_cols buffer (col_coeffs p),
          colsize := changed_sizes (group_by_first (col_major buffer)) (col_coeffs p) (colsize p)\<rparr>,
        sr, sc, ec, s') \<and>
    inv (buffered_rows buffer (row_coeffs p)) (acts, s')"
proof (cases "buffer = []")
  case True
  then show ?thesis
    using assms(4,5,7) by (intro exI [of _ "row_activities p"] exI [of _ singletonRows]
        exI [of _ singletonCols] exI [of _ emptyCols] exI [of _ s])
      (simp add: changeCoefficients_def row_major_def col_major_def getNRows_def getNCols_def)
next
  case False
  let ?rg = "group_by_first (row_major buffer)" and ?cg = "group_by_first (col_major buffer)"
  have dist: "distinct (map (\<lambda>(r, c, v). (r, c)) buffer)" using assms(6) by (simp add: buffer_ok_def)
  have rok: "groups_ok ?rg (row_coeffs p)" and cok: "groups_ok ?cg (col_coeffs p)"
    using buffer_groups_ok [OF assms(1-3,6)] by auto
  have allow: "\<forall>(r, ch) \<in> set ?rg. \<forall>(c, w) \<in> set ch. \<forall>v. (c, v) \<in> set (row_coeffs p ! r) \<longrightarrow> allowed c v w"
    proof clarify
    fix r ch c w v assume *: "(r, ch) \<in> set ?rg" "(c, w) \<in> set ch" "(c, v) \<in> set (row_coeffs p ! r)"
    then have "(c, w) \<in> set (row_changes buffer r)" using row_groups(3) by (simp add: row_changes_def)
    then show "allowed c v w" using assms(8) *(3) unfolding row_changes_member by blast
  qed
  obtain acts sr s' where rows: "fold_option (change_row_step coeffChanged) ?rg (p, singletonRows, s) =
      Some (p\<lparr>row_coeffs := changed_lines ?rg (row_coeffs p), row_activities := acts,
        rowsize := changed_sizes ?rg (row_coeffs p) (rowsize p)\<rparr>, sr, s')"
      (is "_ = Some (?p, sr, s')")
    and inv: "inv (changed_lines ?rg (row_coeffs p)) (acts, s')"
    using rows_pass [OF rok assms(4,7) allow] by blast
  have "groups_ok ?cg (col_coeffs ?p)" "length (colsize ?p) = getNCols ?p"
    using cok assms(5) by (simp_all add: getNCols_def)
  moreover have same: "col_coeffs ?p = col_coeffs p" "colsize ?p = colsize p" by simp_all
  ultimately obtain sc ec where cols: "fold_option change_col_step ?cg (?p, singletonCols, emptyCols) =
    Some (?p\<lparr>col_coeffs := changed_lines ?cg (col_coeffs p),
        colsize := changed_sizes ?cg (col_coeffs p) (colsize p)\<rparr>, sc, ec)"
    using change_cols_pass [of ?cg ?p] unfolding same by blast
  have lines: "changed_lines ?rg (row_coeffs p) = buffered_rows buffer (row_coeffs p)"
    "changed_lines ?cg (col_coeffs p) = buffered_cols buffer (col_coeffs p)"
    using changed_lines_groups [OF row_groups(1), of buffer "row_changes buffer" "row_coeffs p"]
      changed_lines_groups [OF col_groups(1), of buffer "col_changes buffer" "col_coeffs p"]
    by (simp_all add: buffered_rows_def buffered_cols_def row_changes_def col_changes_def row_groups col_groups)
  show ?thesis
    using False rows cols inv unfolding changeCoefficients_def lines by auto
qed

end

section \<open>Sides\<close>

text \<open>
  \<open>modifyLeftHandSide\<close> and \<open>modifyRightHandSide\<close> with \<open>infval\<close> false and true: a value that equals
  the other side up to the tolerance is replaced by it.
\<close>

definition set_row_flag :: "nat \<Rightarrow> flag list \<Rightarrow> problem \<Rightarrow> problem" where
  "set_row_flag r fs p = p\<lparr>row_flags := (row_flags p)[r := flags_set fs (row_flags p ! r)]\<rparr>"

definition unset_row_flag :: "nat \<Rightarrow> flag list \<Rightarrow> problem \<Rightarrow> problem" where
  "unset_row_flag r fs p = p\<lparr>row_flags := (row_flags p)[r := flags_unset fs (row_flags p ! r)]\<rparr>"

definition modifyLeftHandSide :: "nat \<Rightarrow> Num \<Rightarrow> rat \<Rightarrow> problem \<Rightarrow> problem" where
  "modifyLeftHandSide r num v p =
     (let p1 = unset_row_flag r [kLhsInf] p;
          p2 = p1\<lparr>lhs_values := (lhs_values p1)[r := if isEq num v (rhs_values p1 ! r) then rhs_values p1 ! r else v]\<rparr>
      in if \<not> flags_test (row_flags p2 ! r) [kRhsInf] \<and> lhs_values p2 ! r = rhs_values p2 ! r
         then set_row_flag r [kEquation] p2 else unset_row_flag r [kEquation] p2)"

definition modifyLeftHandSide_inf :: "nat \<Rightarrow> problem \<Rightarrow> problem" where
  "modifyLeftHandSide_inf r p = set_row_flag r [kLhsInf] (unset_row_flag r [kEquation] p)"

definition modifyRightHandSide :: "nat \<Rightarrow> Num \<Rightarrow> rat \<Rightarrow> problem \<Rightarrow> problem" where
  "modifyRightHandSide r num v p =
     (let p1 = unset_row_flag r [kRhsInf] p;
          p2 = p1\<lparr>rhs_values := (rhs_values p1)[r := if isEq num v (lhs_values p1 ! r) then lhs_values p1 ! r else v]\<rparr>
      in if \<not> flags_test (row_flags p2 ! r) [kLhsInf] \<and> lhs_values p2 ! r = rhs_values p2 ! r
         then set_row_flag r [kEquation] p2 else unset_row_flag r [kEquation] p2)"

definition modifyRightHandSide_inf :: "nat \<Rightarrow> problem \<Rightarrow> problem" where
  "modifyRightHandSide_inf r p = set_row_flag r [kRhsInf] (unset_row_flag r [kEquation] p)"

section \<open>Deleting rows and columns\<close>

text \<open>
  The loop that moves the remaining entries of a line to the front: \<open>j\<close> counts the entries passed
  over; then the line is cut to its new size.
\<close>

fun move_kept :: "(nat \<Rightarrow> bool) \<Rightarrow> nat \<Rightarrow> nat \<Rightarrow> nat \<Rightarrow> sparse_vec \<Rightarrow> sparse_vec \<times> nat" where
  "move_kept deleted 0 i j seg = (seg, j)"
| "move_kept deleted (Suc n) i j seg =
     (if deleted (fst (seg ! i)) then move_kept deleted n (i + 1) (j + 1) seg
      else move_kept deleted n (i + 1) j (if j > 0 then seg[i - j := seg ! i] else seg))"

definition compact_line :: "(nat \<Rightarrow> bool) \<Rightarrow> int \<Rightarrow> sparse_vec \<Rightarrow> sparse_vec" where
  "compact_line deleted newsize seg = take (nat newsize) (fst (move_kept deleted (length seg) 0 0 seg))"

definition clear_activity :: "RowActivity \<Rightarrow> RowActivity" where
  "clear_activity act = act\<lparr>ninfmax := 0, ninfmin := 0, act_min := 0, act_max := 0\<rparr>"

text \<open>The sizes lose one for every entry in a deleted line of the other storage.\<close>

definition shrink_sizes :: "sparse_vec \<Rightarrow> int list \<Rightarrow> int list" where
  "shrink_sizes line sizes = foldl (\<lambda>s (k, v). if s ! k = -1 then s else s[k := s ! k - 1]) sizes line"

definition delete_row :: "problem \<Rightarrow> nat \<Rightarrow> problem" where
  "delete_row p row =
     p\<lparr>colsize := shrink_sizes (row_coeffs p ! row) (colsize p),
       row_coeffs := (row_coeffs p)[row := []],
       lhs_values := (lhs_values p)[row := 0], rhs_values := (rhs_values p)[row := 0],
       row_activities := (row_activities p)[row := clear_activity (row_activities p ! row)]\<rparr>"

definition delete_col :: "problem \<Rightarrow> nat \<Rightarrow> problem" where
  "delete_col p col =
     p\<lparr>rowsize := shrink_sizes (col_coeffs p ! col) (rowsize p),
       col_coeffs := (col_coeffs p)[col := []]\<rparr>"

definition shrink_col :: "problem \<times> nat list \<times> nat list \<Rightarrow> nat \<Rightarrow> problem \<times> nat list \<times> nat list" where
  "shrink_col st col = (case st of (p, singletonCols, emptyCols) \<Rightarrow>
     let newsize = colsize p ! col; line = col_coeffs p ! col
     in if newsize = -1 \<or> newsize = int (length line) then st
        else (p\<lparr>col_coeffs := (col_coeffs p)[col :=
                if newsize = 0 then []
                else if newsize \<ge> 1 then compact_line (\<lambda>r. rowsize p ! r = -1) newsize line else line]\<rparr>,
              if newsize = 1 then singletonCols @ [col] else singletonCols,
              if newsize = 0 then emptyCols @ [col] else emptyCols))"

definition shrink_row :: "problem \<times> nat list \<Rightarrow> nat \<Rightarrow> problem \<times> nat list" where
  "shrink_row st row = (case st of (p, singletonRows) \<Rightarrow>
     let newsize = rowsize p ! row; line = row_coeffs p ! row
     in if newsize = -1 \<or> newsize = int (length line) then st
        else (p\<lparr>row_activities := (if newsize = 0
                then (row_activities p)[row := reset_min_max (row_activities p ! row)] else row_activities p),
                row_coeffs := (row_coeffs p)[row := compact_line (\<lambda>c. colsize p ! c = -1) newsize line]\<rparr>,
              if newsize = 1 then singletonRows @ [row] else singletonRows))"

definition deleteRowsAndCols ::
  "nat list \<Rightarrow> nat list \<Rightarrow> problem \<times> nat list \<times> nat list \<times> nat list \<Rightarrow>
   problem \<times> nat list \<times> nat list \<times> nat list" where
  "deleteRowsAndCols deletedRows deletedCols st =
     (if deletedRows = [] \<and> deletedCols = [] then st
      else case st of (p, singletonRows, singletonCols, emptyCols) \<Rightarrow>
        let p1 = p\<lparr>rowsize := foldl (\<lambda>s r. s[r := -1]) (rowsize p) deletedRows,
                   colsize := foldl (\<lambda>s c. s[c := -1]) (colsize p) deletedCols\<rparr>;
            p2 = foldl delete_row p1 deletedRows;
            p3 = foldl delete_col p2 deletedCols
        in case foldl shrink_col (p3, singletonCols, emptyCols) [0..<getNCols p3] of
             (p4, singletonCols1, emptyCols1) \<Rightarrow>
               (case foldl shrink_row (p4, singletonRows) [0..<getNRows p4] of
                  (p5, singletonRows1) \<Rightarrow> (p5, singletonRows1, singletonCols1, emptyCols1)))"

subsection \<open>What deletion computes\<close>

lemma move_kept_computes:
  "\<exists>junk'. move_kept deleted (length rest) (length front + length junk) (length junk) (front @ junk @ rest) =
     (front @ filter (\<lambda>e. \<not> deleted (fst e)) rest @ junk', length junk')"
proof (induction rest arbitrary: front junk)
  case Nil
  then show ?case by simp
next
  case (Cons e rest)
  have here: "(front @ junk @ e # rest) ! (length front + length junk) = e" by (simp add: nth_append)
  show ?case
  proof (cases "deleted (fst e)")
    case True
    then show ?thesis using Cons.IH [of front "junk @ [e]"] here by simp
  next
    case False
    obtain junk1 where junk1: "length junk1 = length junk"
      "(front @ junk @ e # rest)[length front := e] = (front @ [e]) @ junk1 @ rest"
      using put_step [of junk front e rest e] by auto
    then have "(if length junk > 0 then (front @ junk @ e # rest)[length front + length junk - length junk := e]
        else front @ junk @ e # rest) = (front @ [e]) @ junk1 @ rest"
      by (cases junk) auto
    then have "move_kept deleted (length (e # rest)) (length front + length junk) (length junk) (front @ junk @ e # rest) =
        move_kept deleted (length rest) (length (front @ [e]) + length junk1) (length junk1) ((front @ [e]) @ junk1 @ rest)"
      using False here junk1(1) by (cases "junk = []") auto
    with Cons.IH [of "front @ [e]" junk1] False show ?thesis by simp
  qed
qed

lemma compact_line_computes:
  assumes "newsize = int (length (filter (\<lambda>e. \<not> deleted (fst e)) seg))"
  shows "compact_line deleted newsize seg = filter (\<lambda>e. \<not> deleted (fst e)) seg"
  using move_kept_computes [of deleted seg "[]" "[]"] assms by (auto simp: compact_line_def)

lemma shrink_sizes_length [simp]: "length (shrink_sizes line sizes) = length sizes"
  unfolding shrink_sizes_def by (rule foldl_invariant) (auto split: if_splits)

lemma shrink_sizes_nth:
  assumes "distinct_cols line" and "\<forall>e\<in>set line. fst e < length sizes" and "k < length sizes"
  shows "shrink_sizes line sizes ! k =
    (if k \<in> fst ` set line \<and> sizes ! k \<noteq> -1 then sizes ! k - 1 else sizes ! k)"
  using assms
proof (induction line arbitrary: sizes)
  case (Cons e line)
  let ?s = "if sizes ! fst e = -1 then sizes else sizes[fst e := sizes ! fst e - 1]"
  have "shrink_sizes (e # line) sizes = shrink_sizes line ?s"
    by (simp add: shrink_sizes_def case_prod_unfold)
  moreover have "shrink_sizes line ?s ! k = (if k \<in> fst ` set line \<and> ?s ! k \<noteq> -1 then ?s ! k - 1 else ?s ! k)"
    using Cons.prems by (intro Cons.IH) auto
  moreover have "k \<in> fst ` set line \<Longrightarrow> k \<noteq> fst e" using Cons.prems(1) by (auto simp: image_iff)
  ultimately show ?case using Cons.prems(2,3) by (cases "k = fst e") (auto simp: nth_list_update)
qed (simp add: shrink_sizes_def)

text \<open>A size vector that fits its lines: a deleted line has size \<open>-1\<close> and no entries.\<close>

definition line_sizes_ok :: "int list \<Rightarrow> sparse_vec list \<Rightarrow> bool" where
  "line_sizes_ok sizes lines \<longleftrightarrow> length sizes = length lines \<and>
     (\<forall>k<length lines. sizes ! k = int (length (lines ! k)) \<or> sizes ! k = -1 \<and> lines ! k = [])"

lemma fold_minus_one: "length (foldl (\<lambda>s r. s[r := -1]) sizes D) = length (sizes :: int list)"
  "k < length sizes \<Longrightarrow> foldl (\<lambda>s r. s[r := -1]) sizes D ! k = (if k \<in> set D then -1 else sizes ! k)"
  by (induction D arbitrary: sizes) (auto simp: nth_list_update)

text \<open>The keys of the lines in one direction and of those in the other.\<close>

definition transposed :: "sparse_vec list \<Rightarrow> sparse_vec list \<Rightarrow> bool" where
  "transposed lines others \<longleftrightarrow>
     (\<forall>line\<in>set lines. distinct_cols line \<and> (\<forall>e\<in>set line. fst e < length others)) \<and>
     (\<forall>c<length others. distinct_cols (others ! c) \<and>
        (\<forall>k<length lines. c \<in> fst ` set (lines ! k) \<longleftrightarrow> k \<in> fst ` set (others ! c)))"

lemma matrix_ok_transposed:
  assumes "matrix_ok n rows cols"
  shows "transposed rows cols" "transposed cols rows"
proof -
  have len: "length cols = n" using assms by (simp add: matrix_ok_def)
  have row: "distinct_cols (rows ! r)" "\<forall>e\<in>set (rows ! r). fst e < n" if "r < length rows" for r
  proof -
    have "rows ! r \<in> set rows" using that by simp
    then show "distinct_cols (rows ! r)" "\<forall>e\<in>set (rows ! r). fst e < n"
      using assms unfolding matrix_ok_def by (blast, metis (no_types, lifting) case_prodD prod.collapse)
  qed
  have col: "distinct_cols (cols ! c)" "\<forall>e\<in>set (cols ! c). fst e < length rows" if "c < n" for c
    using assms that unfolding matrix_ok_def col_of_matrix_def by blast+
  have keys: "c \<in> fst ` set (rows ! r) \<longleftrightarrow> r \<in> fst ` set (cols ! c)" if "c < n" "r < length rows" for c r
  proof -
    have "(c, v) \<in> set (rows ! r) \<longleftrightarrow> (r, v) \<in> set (cols ! c)" for v
      using assms that by (auto simp: matrix_ok_def col_of_matrix_def)
    then show ?thesis by force
  qed
  show "transposed rows cols" unfolding transposed_def in_set_conv_nth [of _ rows] len
    using row col(1) keys unfolding len [symmetric] all_set_conv_all_nth by simp
  show "transposed cols rows" unfolding transposed_def
    using row(1) col keys unfolding len [symmetric] all_set_conv_all_nth by simp
qed

lemma count_without:
  assumes "distinct (map fst line)"
  shows "length (filter (\<lambda>e. fst e \<notin> D) line) =
    (if k \<in> fst ` set line \<and> k \<notin> D then 1 else 0) + length (filter (\<lambda>e. fst e \<notin> insert k D) line)"
  using assms by (induction line) (auto simp: image_iff)

text \<open>The common step of \<open>delete_row\<close> and \<open>delete_col\<close>: shrink the other sizes, empty the line.\<close>

definition delete_line :: "int list \<times> sparse_vec list \<Rightarrow> nat \<Rightarrow> int list \<times> sparse_vec list" where
  "delete_line st k = (shrink_sizes (snd st ! k) (fst st), (snd st)[k := []])"

definition emptied :: "nat set \<Rightarrow> sparse_vec list \<Rightarrow> sparse_vec list" where
  "emptied D lines = map (\<lambda>k. if k \<in> D then [] else lines ! k) [0..<length lines]"

definition count_left :: "nat set \<Rightarrow> sparse_vec list \<Rightarrow> int list \<Rightarrow> int list" where
  "count_left D others sizes = map (\<lambda>c. if sizes ! c = -1 then -1
     else int (length (filter (\<lambda>e. fst e \<notin> D) (others ! c)))) [0..<length others]"

lemma delete_line_step:
  assumes "transposed lines others" and "length sizes = length others" and "k < length lines"
    and "D \<subseteq> {..<length lines}"
  shows "delete_line (count_left D others sizes, emptied D lines) k =
    (count_left (insert k D) others sizes, emptied (insert k D) lines)"
proof -
  have line: "emptied D lines ! k = (if k \<in> D then [] else lines ! k)"
    using assms(3) by (simp add: emptied_def)
  have lineok: "distinct_cols (lines ! k)" "\<forall>e\<in>set (lines ! k). fst e < length others"
    using assms(1,3) by (auto simp: transposed_def)
  have "(emptied D lines)[k := []] = emptied (insert k D) lines"
    using assms(3) by (auto intro!: nth_equalityI simp: emptied_def nth_list_update)
  moreover have "shrink_sizes (emptied D lines ! k) (count_left D others sizes) ! c =
      count_left (insert k D) others sizes ! c" if c: "c < length others" for c
  proof -
    have keys: "c \<in> fst ` set (emptied D lines ! k) \<longleftrightarrow> k \<in> fst ` set (others ! c) \<and> k \<notin> D"
      using assms(1,3) c unfolding line transposed_def by simp
    have dist: "distinct (map fst (others ! c))" using assms(1) c by (simp add: transposed_def)
    let ?z = "count_left D others sizes ! c"
    have z: "?z = (if sizes ! c = -1 then -1 else int (length (filter (\<lambda>e. fst e \<notin> D) (others ! c))))"
      using c by (simp add: count_left_def)
    have shrink: "shrink_sizes (emptied D lines ! k) (count_left D others sizes) ! c =
        (if (k \<in> fst ` set (others ! c) \<and> k \<notin> D) \<and> ?z \<noteq> -1 then ?z - 1 else ?z)"
      using lineok c unfolding keys [symmetric] line by (subst shrink_sizes_nth) (auto simp: count_left_def)
    have new: "count_left (insert k D) others sizes ! c =
        (if sizes ! c = -1 then -1 else int (length (filter (\<lambda>e. fst e \<notin> insert k D) (others ! c))))"
      using c by (simp add: count_left_def)
    show ?thesis
      unfolding shrink new z count_without [OF dist, of D k] by (simp split: if_split)
  qed
  then have "shrink_sizes (emptied D lines ! k) (count_left D others sizes) = count_left (insert k D) others sizes"
    by (intro nth_equalityI) (simp_all add: count_left_def)
  ultimately show ?thesis by (simp add: delete_line_def)
qed

lemma delete_lines:
  assumes "transposed lines others" and "length sizes = length others"
    and "set ks \<subseteq> {..<length lines}" and "D \<subseteq> {..<length lines}"
  shows "foldl delete_line (count_left D others sizes, emptied D lines) ks =
    (count_left (D \<union> set ks) others sizes, emptied (D \<union> set ks) lines)"
  using assms(3,4)
proof (induction ks arbitrary: D)
  case (Cons k ks)
  have "foldl delete_line (count_left D others sizes, emptied D lines) (k # ks) =
      foldl delete_line (count_left (insert k D) others sizes, emptied (insert k D) lines) ks"
    using delete_line_step [OF assms(1,2), of k D] Cons.prems by simp
  also have "\<dots> = (count_left (insert k D \<union> set ks) others sizes, emptied (insert k D \<union> set ks) lines)"
    using Cons.prems by (intro Cons.IH) auto
  finally show ?case by simp
qed simp

lemma delete_rows_fold:
  "colsize (foldl delete_row p D) = fst (foldl delete_line (colsize p, row_coeffs p) D)"
  "row_coeffs (foldl delete_row p D) = snd (foldl delete_line (colsize p, row_coeffs p) D)"
  "col_coeffs (foldl delete_row p D) = col_coeffs p" "rowsize (foldl delete_row p D) = rowsize p"
  by (induction D arbitrary: p) (simp_all add: delete_row_def delete_line_def)

lemma delete_cols_fold:
  "rowsize (foldl delete_col p D) = fst (foldl delete_line (rowsize p, col_coeffs p) D)"
  "col_coeffs (foldl delete_col p D) = snd (foldl delete_line (rowsize p, col_coeffs p) D)"
  "row_coeffs (foldl delete_col p D) = row_coeffs p" "colsize (foldl delete_col p D) = colsize p"
  by (induction D arbitrary: p) (simp_all add: delete_col_def delete_line_def)

lemma foldl_update_all:
  "foldl (\<lambda>ls k. ls[k := g k (ls ! k)]) lines [0..<length lines] = map (\<lambda>k. g k (lines ! k)) [0..<length lines]"
proof -
  have "foldl (\<lambda>ls k. ls[k := g k (ls ! k)]) lines [0..<n] =
      map (\<lambda>k. if k < n then g k (lines ! k) else lines ! k) [0..<length lines]" if "n \<le> length lines" for n
    using that
  proof (induction n)
    case (Suc n)
    then show ?case by (auto intro!: nth_equalityI simp: nth_list_update)
  qed (simp add: map_nth)
  from this [of "length lines"] show ?thesis by (auto intro: map_cong)
qed

definition shrunk :: "(nat \<Rightarrow> bool) \<Rightarrow> int list \<Rightarrow> nat \<Rightarrow> sparse_vec \<Rightarrow> sparse_vec" where
  "shrunk deleted sizes k line =
     (if sizes ! k = -1 \<or> sizes ! k = int (length line) then line
      else if sizes ! k = 0 then [] else if sizes ! k \<ge> 1 then compact_line deleted (sizes ! k) line else line)"

lemma compact_line_empty: "compact_line deleted 0 line = []"
  by (simp add: compact_line_def)

lemma shrink_cols_fold:
  "\<exists>sc' ec'. foldl shrink_col (p, sc, ec) ks =
     (p\<lparr>col_coeffs := foldl (\<lambda>ls k. ls[k := shrunk (\<lambda>r. rowsize p ! r = -1) (colsize p) k (ls ! k)])
        (col_coeffs p) ks\<rparr>, sc', ec')"
proof (induction ks arbitrary: p sc ec)
  case (Cons k ks)
  have "\<exists>sc' ec'. shrink_col (p, sc, ec) k =
      (p\<lparr>col_coeffs := (col_coeffs p)[k := shrunk (\<lambda>r. rowsize p ! r = -1) (colsize p) k (col_coeffs p ! k)]\<rparr>, sc', ec')"
    by (simp add: shrink_col_def shrunk_def Let_def)
  then obtain sc' ec' where step: "shrink_col (p, sc, ec) k =
      (p\<lparr>col_coeffs := (col_coeffs p)[k := shrunk (\<lambda>r. rowsize p ! r = -1) (colsize p) k (col_coeffs p ! k)]\<rparr>, sc', ec')"
    by blast
  show ?case
    using Cons.IH [of "p\<lparr>col_coeffs := (col_coeffs p)[k := shrunk (\<lambda>r. rowsize p ! r = -1) (colsize p) k (col_coeffs p ! k)]\<rparr>" sc' ec']
    by (simp add: step)
qed simp

text \<open>In the row loop the activity of a row that became empty is reset.\<close>

definition shrunk_activity :: "int list \<Rightarrow> nat \<Rightarrow> sparse_vec \<Rightarrow> RowActivity \<Rightarrow> RowActivity" where
  "shrunk_activity sizes k line act = (if sizes ! k = 0 \<and> line \<noteq> [] then reset_min_max act else act)"

lemma shrink_rows_fold:
  assumes "\<forall>k<length (row_coeffs p). -1 \<le> rowsize p ! k" and "n \<le> length (row_coeffs p)"
    and "length (row_activities p) = length (row_coeffs p)"
  shows "\<exists>sr'. foldl shrink_row (p, sr) [0..<n] =
     (p\<lparr>row_coeffs := map (\<lambda>k. if k < n then shrunk (\<lambda>c. colsize p ! c = -1) (rowsize p) k (row_coeffs p ! k)
            else row_coeffs p ! k) [0..<length (row_coeffs p)],
        row_activities := map (\<lambda>k. if k < n then shrunk_activity (rowsize p) k (row_coeffs p ! k) (row_activities p ! k)
            else row_activities p ! k) [0..<length (row_coeffs p)]\<rparr>, sr')"
  using assms(2)
proof (induction n)
  case 0
  show ?case using assms(3) map_nth [of "row_activities p"] by (simp add: map_nth)
next
  case (Suc n)
  let ?q = "\<lambda>n. p\<lparr>row_coeffs := map (\<lambda>k. if k < n then shrunk (\<lambda>c. colsize p ! c = -1) (rowsize p) k (row_coeffs p ! k)
            else row_coeffs p ! k) [0..<length (row_coeffs p)],
        row_activities := map (\<lambda>k. if k < n then shrunk_activity (rowsize p) k (row_coeffs p ! k) (row_activities p ! k)
            else row_activities p ! k) [0..<length (row_coeffs p)]\<rparr>"
  from Suc obtain sr' where IH: "foldl shrink_row (p, sr) [0..<n] = (?q n, sr')" by auto
  have n: "n < length (row_coeffs p)" using Suc.prems by simp
  have lens: "(map f [0..<length (row_coeffs p)])[n := x] = map (f(n := x)) [0..<length (row_coeffs p)]"
    for f :: "nat \<Rightarrow> 'z" and x
    by (auto intro!: nth_equalityI simp: nth_list_update)
  have upto: "(\<lambda>k. if k < Suc n then f k else g k) = (\<lambda>k. if k < n then f k else g k)(n := f n)"
    for f g :: "nat \<Rightarrow> 'z" by (auto simp: fun_eq_iff less_Suc_eq)
  have "\<exists>sr''. shrink_row (?q n, sr') n = (?q (Suc n), sr'')"
  proof (cases "rowsize p ! n = -1 \<or> rowsize p ! n = int (length (row_coeffs p ! n))")
    case True
    then have "shrunk (\<lambda>c. colsize p ! c = -1) (rowsize p) n (row_coeffs p ! n) = row_coeffs p ! n"
      "shrunk_activity (rowsize p) n (row_coeffs p ! n) (row_activities p ! n) = row_activities p ! n"
      by (auto simp: shrunk_def shrunk_activity_def)
    then have "?q (Suc n) = ?q n" unfolding upto by (simp add: fun_upd_idem)
    with True n show ?thesis by (simp add: shrink_row_def)
  next
    case False
    have "0 \<le> rowsize p ! n" using assms(1) n False by force
    then have "shrunk (\<lambda>c. colsize p ! c = -1) (rowsize p) n (row_coeffs p ! n) =
        compact_line (\<lambda>c. colsize p ! c = -1) (rowsize p ! n) (row_coeffs p ! n)"
      using False by (auto simp: shrunk_def compact_line_empty)
    moreover have "shrunk_activity (rowsize p) n (row_coeffs p ! n) (row_activities p ! n) =
        (if rowsize p ! n = 0 then reset_min_max (row_activities p ! n) else row_activities p ! n)"
      using False by (auto simp: shrunk_activity_def)
    ultimately show ?thesis using False n
      unfolding upto by (simp add: shrink_row_def Let_def lens fun_upd_idem)
  qed
  then show ?case using IH by (auto simp: upt_Suc_append)
qed

definition deleted_lines :: "nat set \<Rightarrow> nat set \<Rightarrow> sparse_vec list \<Rightarrow> sparse_vec list" where
  "deleted_lines D C lines =
     map (\<lambda>k. if k \<in> D then [] else filter (\<lambda>e. fst e \<notin> C) (lines ! k)) [0..<length lines]"

lemma shrunk_computes:
  assumes "k < length lines" and "line_sizes_ok sizes lines" and "line = emptied D lines ! k"
    and "\<And>e. e \<in> set (lines ! k) \<Longrightarrow> deleted (fst e) \<longleftrightarrow> fst e \<in> C"
    and "newsizes ! k = (if k \<in> D \<or> sizes ! k = -1 then -1
      else int (length (filter (\<lambda>e. fst e \<notin> C) (lines ! k))))"
  shows "shrunk deleted newsizes k line = deleted_lines D C lines ! k"
proof -
  have line: "line = (if k \<in> D then [] else lines ! k)" using assms(1,3) by (simp add: emptied_def)
  have goal: "deleted_lines D C lines ! k = (if k \<in> D then [] else filter (\<lambda>e. fst e \<notin> C) (lines ! k))"
    using assms(1) by (simp add: deleted_lines_def)
  have same: "filter (\<lambda>e. \<not> deleted (fst e)) (lines ! k) = filter (\<lambda>e. fst e \<notin> C) (lines ! k)"
    using assms(4) by (intro filter_cong) auto
  show ?thesis
  proof (cases "k \<in> D \<or> sizes ! k = -1")
    case True
    then have "line = [] \<and> newsizes ! k = -1"
      using assms(1,2,5) by (auto simp: line line_sizes_ok_def)
    moreover from True have "deleted_lines D C lines ! k = []"
      using assms(1,2) unfolding goal by (auto simp: line_sizes_ok_def)
    ultimately show ?thesis by (simp add: shrunk_def)
  next
    case False
    then have n: "newsizes ! k = int (length (filter (\<lambda>e. fst e \<notin> C) (lines ! k)))" and l: "line = lines ! k"
      using assms(5) line by auto
    show ?thesis
    proof (cases "newsizes ! k = int (length (lines ! k))")
      case True
      then have "length (filter (\<lambda>e. fst e \<notin> C) (lines ! k)) = length (lines ! k)" using n by simp
      then have "filter (\<lambda>e. fst e \<notin> C) (lines ! k) = lines ! k"
        by (metis filter_True length_filter_less nless_le)
      with True False goal l show ?thesis by (simp add: shrunk_def)
    next
      case False2: False
      have "shrunk deleted newsizes k line = compact_line deleted (newsizes ! k) (lines ! k)"
        using False2 n l by (cases "filter (\<lambda>e. fst e \<notin> C) (lines ! k)") (auto simp: shrunk_def compact_line_empty)
      also have "\<dots> = filter (\<lambda>e. fst e \<notin> C) (lines ! k)"
        using compact_line_computes [of "newsizes ! k" deleted "lines ! k"] n unfolding same by simp
      finally show ?thesis using False goal by simp
    qed
  qed
qed

definition mark_deleted :: "nat list \<Rightarrow> int list \<Rightarrow> int list" where
  "mark_deleted D sizes = foldl (\<lambda>s r. s[r := -1]) sizes D"

lemma mark_deleted_nth:
  "length (mark_deleted D sizes) = length sizes"
  "k < length sizes \<Longrightarrow> mark_deleted D sizes ! k = (if k \<in> set D then -1 else sizes ! k)"
  by (simp_all add: mark_deleted_def fold_minus_one)

lemma mark_deleted_count:
  "line_sizes_ok sizes lines \<Longrightarrow> count_left {} lines (mark_deleted D sizes) = mark_deleted D sizes"
  by (auto intro!: nth_equalityI simp: count_left_def mark_deleted_nth line_sizes_ok_def)

lemma mark_deleted_left:
  assumes "line_sizes_ok sizes lines" and "k < length lines"
  shows "count_left C lines (mark_deleted D sizes) ! k =
    (if k \<in> set D \<or> sizes ! k = -1 then -1 else int (length (filter (\<lambda>e. fst e \<notin> C) (lines ! k))))"
  using assms by (simp add: count_left_def mark_deleted_nth line_sizes_ok_def)

lemma left_deleted:
  assumes "transposed lines others" and "line_sizes_ok sizes others" and "k < length lines"
    and "e \<in> set (lines ! k)"
  shows "count_left C others (mark_deleted D sizes) ! fst e = -1 \<longleftrightarrow> fst e \<in> set D"
proof -
  have e: "fst e < length others"
    using assms(1,4) nth_mem [OF assms(3)] unfolding transposed_def by blast
  then have "k \<in> fst ` set (others ! fst e)" using assms(1,3,4) unfolding transposed_def by blast
  then have "others ! fst e \<noteq> []" by auto
  then have "sizes ! fst e \<noteq> -1" using assms(2) e by (auto simp: line_sizes_ok_def)
  then show ?thesis using mark_deleted_left [OF assms(2) e] by simp
qed

lemma left_sizes_ok:
  assumes "line_sizes_ok sizes lines"
  shows "line_sizes_ok (count_left C lines (mark_deleted D sizes)) (deleted_lines (set D) C lines)"
proof -
  have "count_left C lines (mark_deleted D sizes) ! k = int (length (deleted_lines (set D) C lines ! k)) \<or>
      count_left C lines (mark_deleted D sizes) ! k = -1 \<and> deleted_lines (set D) C lines ! k = []"
    if "k < length lines" for k
    using that assms mark_deleted_left [OF assms that, of C D]
    by (auto simp: deleted_lines_def line_sizes_ok_def)
  then show ?thesis by (simp add: line_sizes_ok_def count_left_def deleted_lines_def)
qed

text \<open>
  The problem after the deletion: the lines in \<open>D\<close> are empty and the entries in deleted lines of the
  other direction are gone, in both storages; the sizes fit; the activity of a deleted row is cleared,
  the finite part of the activity of a row that became empty is reset.
\<close>

definition deleted_activity :: "nat set \<Rightarrow> int list \<Rightarrow> sparse_vec list \<Rightarrow> RowActivity list \<Rightarrow> RowActivity list" where
  "deleted_activity D sizes lines acts = map (\<lambda>k. if k \<in> D then clear_activity (acts ! k)
     else shrunk_activity sizes k (lines ! k) (acts ! k)) [0..<length lines]"

lemma delete_rows_rest:
  "\<exists>lhs rhs acts. foldl delete_row p D = p\<lparr>colsize := colsize (foldl delete_row p D),
      row_coeffs := row_coeffs (foldl delete_row p D), lhs_values := lhs, rhs_values := rhs, row_activities := acts\<rparr> \<and>
    length acts = length (row_activities p) \<and> length lhs = length (lhs_values p) \<and> length rhs = length (rhs_values p) \<and>
    (\<forall>r. r \<notin> set D \<longrightarrow> lhs ! r = lhs_values p ! r \<and> rhs ! r = rhs_values p ! r \<and> acts ! r = row_activities p ! r) \<and>
    (\<forall>r\<in>set D. r < length (row_activities p) \<longrightarrow> acts ! r = clear_activity (row_activities p ! r))"
proof (induction D arbitrary: p)
  case Nil
  show ?case by (intro exI [of _ "lhs_values p"] exI [of _ "rhs_values p"] exI [of _ "row_activities p"]) simp
next
  case (Cons d D)
  have idem: "clear_activity (clear_activity a) = clear_activity a" for a by (simp add: clear_activity_def)
  from Cons.IH [of "delete_row p d"] obtain lhs rhs acts where
    IH: "foldl delete_row (delete_row p d) D = (delete_row p d)\<lparr>colsize := colsize (foldl delete_row (delete_row p d) D),
      row_coeffs := row_coeffs (foldl delete_row (delete_row p d) D), lhs_values := lhs, rhs_values := rhs, row_activities := acts\<rparr>"
    "length acts = length (row_activities (delete_row p d))" "length lhs = length (lhs_values (delete_row p d))"
    "length rhs = length (rhs_values (delete_row p d))"
    "\<forall>r. r \<notin> set D \<longrightarrow> lhs ! r = lhs_values (delete_row p d) ! r \<and> rhs ! r = rhs_values (delete_row p d) ! r \<and>
      acts ! r = row_activities (delete_row p d) ! r"
    "\<forall>r\<in>set D. r < length (row_activities (delete_row p d)) \<longrightarrow> acts ! r = clear_activity (row_activities (delete_row p d) ! r)"
    by blast
  have eq: "foldl delete_row p (d # D) = p\<lparr>colsize := colsize (foldl delete_row p (d # D)),
      row_coeffs := row_coeffs (foldl delete_row p (d # D)), lhs_values := lhs, rhs_values := rhs, row_activities := acts\<rparr>"
    by (simp, subst IH(1)) (simp add: delete_row_def)
  have rest: "\<forall>r. r \<notin> set (d # D) \<longrightarrow> lhs ! r = lhs_values p ! r \<and> rhs ! r = rhs_values p ! r \<and> acts ! r = row_activities p ! r"
    using IH(5) by (simp add: delete_row_def)
  have "\<forall>r\<in>set (d # D). r < length (row_activities p) \<longrightarrow> acts ! r = clear_activity (row_activities p ! r)"
  proof (intro ballI impI)
    fix r assume r: "r \<in> set (d # D)" "r < length (row_activities p)"
    show "acts ! r = clear_activity (row_activities p ! r)"
      using IH(5,6) idem r by (cases "r = d"; cases "r \<in> set D") (auto simp: delete_row_def)
  qed
  moreover have "length acts = length (row_activities p) \<and> length lhs = length (lhs_values p) \<and>
      length rhs = length (rhs_values p)"
    using IH(2-4) by (simp add: delete_row_def)
  ultimately show ?case using eq rest by blast
qed

lemma delete_cols_rest:
  "foldl delete_col p C = p\<lparr>rowsize := rowsize (foldl delete_col p C), col_coeffs := col_coeffs (foldl delete_col p C)\<rparr>"
proof (induction C arbitrary: p)
  case (Cons c C)
  show ?case by (simp, subst Cons.IH) (simp add: delete_col_def)
qed simp

text \<open>What a problem must satisfy for the matrix operations: both storages agree and the sizes fit.\<close>

definition storages_ok :: "problem \<Rightarrow> bool" where
  "storages_ok p \<longleftrightarrow> matrix_ok (getNCols p) (row_coeffs p) (col_coeffs p) \<and>
     line_sizes_ok (rowsize p) (row_coeffs p) \<and> line_sizes_ok (colsize p) (col_coeffs p) \<and>
     length (row_activities p) = getNRows p"

lemma deleteRowsAndCols_computes:
  assumes "storages_ok p" and "set D \<subseteq> {..<getNRows p}" and "set C \<subseteq> {..<getNCols p}"
    and "D \<noteq> [] \<or> C \<noteq> []"
  shows "\<exists>rsz csz lhs rhs acts sr sc ec. deleteRowsAndCols D C (p, singletonRows, singletonCols, emptyCols) =
      (p\<lparr>row_coeffs := deleted_lines (set D) (set C) (row_coeffs p),
         col_coeffs := deleted_lines (set C) (set D) (col_coeffs p),
         rowsize := rsz, colsize := csz, lhs_values := lhs, rhs_values := rhs, row_activities := acts\<rparr>, sr, sc, ec) \<and>
    line_sizes_ok rsz (deleted_lines (set D) (set C) (row_coeffs p)) \<and>
    line_sizes_ok csz (deleted_lines (set C) (set D) (col_coeffs p)) \<and>
    length lhs = length (lhs_values p) \<and> length rhs = length (rhs_values p) \<and> length acts = getNRows p \<and>
    (\<forall>r<getNRows p. r \<notin> set D \<longrightarrow> lhs ! r = lhs_values p ! r \<and> rhs ! r = rhs_values p ! r \<and>
       acts ! r = shrunk_activity rsz r (row_coeffs p ! r) (row_activities p ! r)) \<and>
    (\<forall>r\<in>set D. acts ! r = clear_activity (row_activities p ! r))"
proof -
  let ?rows = "row_coeffs p" and ?cols = "col_coeffs p"
  let ?mr = "mark_deleted D (rowsize p)" and ?mc = "mark_deleted C (colsize p)"
  let ?rsz = "count_left (set C) ?rows ?mr" and ?csz = "count_left (set D) ?cols ?mc"
  have mat: "matrix_ok (getNCols p) ?rows ?cols" and rs: "line_sizes_ok (rowsize p) ?rows" and cs: "line_sizes_ok (colsize p) ?cols"
    and acts: "length (row_activities p) = length ?rows"
    using assms(1) by (simp_all add: storages_ok_def getNRows_def)
  note acts_len = acts
  note tr = matrix_ok_transposed [OF mat]
  have D: "set D \<subseteq> {..<length ?rows}" and C: "set C \<subseteq> {..<length ?cols}"
    using assms(2,3) by (simp_all add: getNRows_def getNCols_def)
  have lens: "length ?mr = length ?rows" "length ?mc = length ?cols"
    using rs cs by (simp_all add: mark_deleted_nth line_sizes_ok_def)
  have none: "emptied {} ls = ls" for ls by (simp add: emptied_def map_nth)
  let ?p1 = "p\<lparr>rowsize := ?mr, colsize := ?mc\<rparr>"
  let ?p2 = "foldl delete_row ?p1 D"
  let ?p3 = "foldl delete_col ?p2 C"
  have p2: "colsize ?p2 = ?csz" "row_coeffs ?p2 = emptied (set D) ?rows"
    using delete_lines [OF tr(1) lens(2) D, of "{}"] mark_deleted_count [OF cs]
    unfolding delete_rows_fold none by simp_all
  obtain lhs rhs acts2 where rest: "?p2 = ?p1\<lparr>colsize := ?csz, row_coeffs := emptied (set D) ?rows,
      lhs_values := lhs, rhs_values := rhs, row_activities := acts2\<rparr>"
    and sides: "length acts2 = length (row_activities p)" "length lhs = length (lhs_values p)" "length rhs = length (rhs_values p)"
      "\<forall>r. r \<notin> set D \<longrightarrow> lhs ! r = lhs_values p ! r \<and> rhs ! r = rhs_values p ! r \<and> acts2 ! r = row_activities p ! r"
      "\<forall>r\<in>set D. r < length (row_activities p) \<longrightarrow> acts2 ! r = clear_activity (row_activities p ! r)"
    using delete_rows_rest [of ?p1 D] unfolding p2 by auto
  have p3a: "rowsize ?p3 = ?rsz" "col_coeffs ?p3 = emptied (set C) ?cols"
    using delete_lines [OF tr(2) lens(1) C, of "{}"] mark_deleted_count [OF rs]
    unfolding delete_cols_fold delete_rows_fold none by simp_all
  have p3: "?p3 = p\<lparr>rowsize := ?rsz, colsize := ?csz, row_coeffs := emptied (set D) ?rows,
      lhs_values := lhs, rhs_values := rhs, row_activities := acts2, col_coeffs := emptied (set C) ?cols\<rparr>"
    by (subst delete_cols_rest, unfold p3a, subst rest) simp
  let ?cols4 = "deleted_lines (set C) (set D) ?cols" and ?rows5 = "deleted_lines (set D) (set C) ?rows"
  have cols4: "map (\<lambda>k. shrunk (\<lambda>r. ?rsz ! r = -1) ?csz k (emptied (set C) ?cols ! k)) [0..<length ?cols] = ?cols4"
  proof (rule nth_equalityI)
    fix k assume "k < length (map (\<lambda>k. shrunk (\<lambda>r. ?rsz ! r = -1) ?csz k (emptied (set C) ?cols ! k)) [0..<length ?cols])"
    then have k: "k < length ?cols" by simp
    have "shrunk (\<lambda>r. ?rsz ! r = -1) ?csz k (emptied (set C) ?cols ! k) = ?cols4 ! k"
      using k cs left_deleted [OF tr(2) rs k] mark_deleted_left [OF cs k]
      by (intro shrunk_computes [OF k cs refl]) auto
    with k show "map (\<lambda>k. shrunk (\<lambda>r. ?rsz ! r = -1) ?csz k (emptied (set C) ?cols ! k)) [0..<length ?cols] ! k = ?cols4 ! k"
      by simp
  qed (simp add: deleted_lines_def)
  have rows5: "map (\<lambda>k. shrunk (\<lambda>c. ?csz ! c = -1) ?rsz k (emptied (set D) ?rows ! k)) [0..<length ?rows] = ?rows5"
  proof (rule nth_equalityI)
    fix k assume "k < length (map (\<lambda>k. shrunk (\<lambda>c. ?csz ! c = -1) ?rsz k (emptied (set D) ?rows ! k)) [0..<length ?rows])"
    then have k: "k < length ?rows" by simp
    have "shrunk (\<lambda>c. ?csz ! c = -1) ?rsz k (emptied (set D) ?rows ! k) = ?rows5 ! k"
      using k rs left_deleted [OF tr(1) cs k] mark_deleted_left [OF rs k]
      by (intro shrunk_computes [OF k rs refl]) auto
    with k show "map (\<lambda>k. shrunk (\<lambda>c. ?csz ! c = -1) ?rsz k (emptied (set D) ?rows ! k)) [0..<length ?rows] ! k = ?rows5 ! k"
      by simp
  qed (simp add: deleted_lines_def)
  let ?p4 = "?p3\<lparr>col_coeffs := ?cols4\<rparr>"
  have f3: "rowsize ?p3 = ?rsz" "colsize ?p3 = ?csz" "row_coeffs ?p3 = emptied (set D) ?rows"
    "col_coeffs ?p3 = emptied (set C) ?cols" "getNCols ?p3 = length (emptied (set C) ?cols)"
    "row_activities ?p3 = acts2"
    unfolding p3 by (simp_all add: getNCols_def)
  have len3: "length (emptied X ls) = length ls" for X ls by (simp add: emptied_def)
  obtain sc ec where c: "foldl shrink_col (?p3, singletonCols, emptyCols) [0..<getNCols ?p3] = (?p4, sc, ec)"
    using shrink_cols_fold [of ?p3 singletonCols emptyCols "[0..<getNCols ?p3]"]
    unfolding f3 foldl_update_all unfolding len3 cols4 by blast
  have f4: "rowsize ?p4 = ?rsz" "colsize ?p4 = ?csz" "row_coeffs ?p4 = emptied (set D) ?rows"
    "row_activities ?p4 = acts2" "getNRows ?p4 = length ?rows"
    by (simp_all add: f3 getNRows_def len3)
  let ?acts = "map (\<lambda>k. shrunk_activity ?rsz k (emptied (set D) ?rows ! k) (acts2 ! k)) [0..<length ?rows]"
  have upto: "map (\<lambda>k. if k < length ?rows then f k else g k) [0..<length ?rows] = map f [0..<length ?rows]"
    for f g :: "nat \<Rightarrow> 'z" by (rule map_cong) simp_all
  have pos: "\<forall>k<length (row_coeffs ?p4). -1 \<le> rowsize ?p4 ! k"
    using mark_deleted_left [OF rs, of _ "set C" D] unfolding f4 len3 by simp
  obtain sr where r: "foldl shrink_row (?p4, singletonRows) [0..<getNRows ?p4] =
      (?p4\<lparr>row_coeffs := ?rows5, row_activities := ?acts\<rparr>, sr)"
    using shrink_rows_fold [OF pos, of "length ?rows" singletonRows] sides(1) acts
    unfolding f4 len3 upto rows5 by auto
  have acts: "?acts ! k = shrunk_activity ?rsz k (?rows ! k) (row_activities p ! k)"
    if "k < length ?rows" "k \<notin> set D" for k
    using that sides(4) by (simp add: emptied_def)
  have run: "deleteRowsAndCols D C (p, singletonRows, singletonCols, emptyCols) =
      (?p4\<lparr>row_coeffs := ?rows5, row_activities := ?acts\<rparr>, sr, sc, ec)"
    using assms(4) c r unfolding deleteRowsAndCols_def Let_def mark_deleted_def by (simp, blast)
  have eq: "?p4\<lparr>row_coeffs := ?rows5, row_activities := ?acts\<rparr> =
      p\<lparr>row_coeffs := ?rows5, col_coeffs := ?cols4, rowsize := ?rsz, colsize := ?csz,
        lhs_values := lhs, rhs_values := rhs, row_activities := ?acts\<rparr>"
    unfolding p3 by simp
  have len: "length ?acts = getNRows p" by (simp add: getNRows_def)
  have kept: "\<forall>r<getNRows p. r \<notin> set D \<longrightarrow> lhs ! r = lhs_values p ! r \<and> rhs ! r = rhs_values p ! r \<and>
       ?acts ! r = shrunk_activity ?rsz r (?rows ! r) (row_activities p ! r)"
    using acts sides(4) unfolding getNRows_def by blast
  have cleared: "\<forall>r\<in>set D. ?acts ! r = clear_activity (row_activities p ! r)"
  proof
    fix r assume r: "r \<in> set D"
    then have "r < length ?rows" using D by blast
    then show "?acts ! r = clear_activity (row_activities p ! r)"
      using sides(5) r acts_len by (simp add: emptied_def shrunk_activity_def)
  qed
  show ?thesis
    using run [unfolded eq] left_sizes_ok [OF rs, of "set C" D] left_sizes_ok [OF cs, of "set D" C]
      sides(2,3) len kept cleared by blast
qed

lemma deleted_matrix_ok:
  assumes "matrix_ok (length cols) rows cols"
  shows "matrix_ok (length cols) (deleted_lines D C rows) (deleted_lines C D cols)"
proof -
  have row: "deleted_lines D C rows ! r = (if r \<in> D then [] else filter (\<lambda>e. fst e \<notin> C) (rows ! r))"
    if "r < length rows" for r using that by (simp add: deleted_lines_def)
  have col: "deleted_lines C D cols ! c = (if c \<in> C then [] else filter (\<lambda>e. fst e \<notin> D) (cols ! c))"
    if "c < length cols" for c using that by (simp add: deleted_lines_def)
  have lens: "length (deleted_lines D C rows) = length rows" "length (deleted_lines C D cols) = length cols"
    by (simp_all add: deleted_lines_def)
  have old: "distinct_cols (cols ! c)" "(c, v) \<in> set (rows ! r) \<longleftrightarrow> (r, v) \<in> set (cols ! c)"
    "e \<in> set (cols ! c) \<Longrightarrow> fst e < length rows" if "c < length cols" "r < length rows" for c r v e
    using assms that by (auto simp: matrix_ok_def col_of_matrix_def)
  show ?thesis
    unfolding matrix_ok_def
  proof (intro conjI allI impI ballI)
    fix c assume c: "c < length cols"
    have "distinct_cols (cols ! c)" "\<forall>e\<in>set (cols ! c). fst e < length rows"
      using assms c by (auto simp: matrix_ok_def col_of_matrix_def)
    then show "col_of_matrix (deleted_lines D C rows) c (deleted_lines C D cols ! c)"
      unfolding col_of_matrix_def lens using old(2) [OF c] c by (auto simp: row col distinct_map_filter)
  next
    fix row assume "row \<in> set (deleted_lines D C rows)"
    then obtain r where r: "r < length rows" "row = (if r \<in> D then [] else filter (\<lambda>e. fst e \<notin> C) (rows ! r))"
      by (auto simp: deleted_lines_def)
    then have "rows ! r \<in> set rows" by simp
    then have "distinct_cols (rows ! r) \<and> (\<forall>(c, v) \<in> set (rows ! r). c < length cols \<and> v \<noteq> 0)"
      using assms unfolding matrix_ok_def by blast
    then have *: "distinct_cols row \<and> (\<forall>(c, v) \<in> set row. c < length cols \<and> v \<noteq> 0)"
      using r(2) by (auto simp: distinct_map_filter)
    then show "distinct_cols row" by blast
    fix e assume "e \<in> set row"
    with * show "case e of (c, v) \<Rightarrow> c < length cols \<and> v \<noteq> 0" by blast
  qed (simp add: lens)
qed

section \<open>Properties\<close>

text \<open>
  C14. The in place change of a row never reads beyond the row and computes the reference: for sorted
  changes of columns the sorted row has, every listed coefficient is replaced, those that became zero
  are dropped, and the order is kept, whatever the callback does.
\<close>

theorem changeRowInplace_reference:
  assumes "sorted_cols row" and "sorted_cols changes" and "fst ` set changes \<subseteq> fst ` set row"
  shows "\<exists>s'. changeRowInplace cb changes row s = Some (with_changes changes row, s') \<and>
    sorted_cols (with_changes changes row)"
proof -
  have "sorted_cols (with_changes changes row)"
    using assms(1) unfolding with_changes_def
    by (intro sorted_cols_filter) (simp add: sorted_cols_def case_prod_unfold comp_def)
  then show ?thesis
    using changeRowInplace_computes [where I = "\<lambda>_ _. True" and cb = cb and s = s, OF assms] by simp
qed

theorem changeRowInplace_reference_witness:
  "changeRowInplace (\<lambda>c old new stored s. s @ [(c, old, new)]) [(1, 0), (4, 7)] [(0, 2), (1, 3), (2, 5), (4, 6)] [] =
     Some ([(0, 2), (2, 5), (4, 7)], [(1, 3, 0), (4, 6, 7)])"
proof -
  have "\<exists>s'. changeRowInplace (\<lambda>c old new stored s. s @ [(c, old, new)]) [(1, 0), (4, 7)]
      [(0, 2), (1, 3), (2, 5), (4, 6)] [] =
    Some (with_changes [(1, 0), (4, 7)] [(0, 2), (1, 3), (2, 5), (4, 6)], s') \<and>
    sorted_cols (with_changes [(1, 0), (4, 7)] [(0, 2), (1, 3), (2, 5), (4, 6)])"
    by (rule changeRowInplace_reference) (simp_all add: sorted_cols_def)
  moreover have "map_option snd (changeRowInplace (\<lambda>c old new stored s. s @ [(c, old, new)]) [(1, 0), (4, 7)]
      [(0, 2), (1, 3), (2, 5), (4, 6)] []) = Some [(1, 3, 0), (4, 6, 7)]" by code_simp
  moreover have "with_changes [(1, 0), (4, 7)] [(0, 2), (1, 3), (2, 5), (4, 6)] = [(0, 2), (2, 5), (4, 7 :: rat)]"
    by code_simp
  ultimately show ?thesis by auto
qed

text \<open>
  C13. Deleting rows and columns keeps the two storages one matrix with fitting sizes: the deleted
  lines are empty, all other lines keep exactly their entries outside of deleted lines, in order.
\<close>

theorem deleteRowsAndCols_keeps_storages:
  assumes "storages_ok p" and "set D \<subseteq> {..<getNRows p}" and "set C \<subseteq> {..<getNCols p}"
    and "deleteRowsAndCols D C (p, singletonRows, singletonCols, emptyCols) = (p', sr, sc, ec)"
  shows "storages_ok p' \<and> row_coeffs p' = deleted_lines (set D) (set C) (row_coeffs p) \<and>
    col_coeffs p' = deleted_lines (set C) (set D) (col_coeffs p)"
proof (cases "D = [] \<and> C = []")
  case True
  have "deleted_lines {} {} ls = ls" for ls by (simp add: deleted_lines_def map_nth)
  with True assms(1,4) show ?thesis by (simp add: deleteRowsAndCols_def)
next
  case False
  then have "D \<noteq> [] \<or> C \<noteq> []" by blast
  from deleteRowsAndCols_computes [OF assms(1-3) this, of singletonRows singletonCols emptyCols] assms(4)
  obtain rsz csz lhs rhs acts where p': "p' = p\<lparr>row_coeffs := deleted_lines (set D) (set C) (row_coeffs p),
         col_coeffs := deleted_lines (set C) (set D) (col_coeffs p),
         rowsize := rsz, colsize := csz, lhs_values := lhs, rhs_values := rhs, row_activities := acts\<rparr>"
    and sizes: "line_sizes_ok rsz (deleted_lines (set D) (set C) (row_coeffs p))"
      "line_sizes_ok csz (deleted_lines (set C) (set D) (col_coeffs p))" "length acts = getNRows p" by auto
  have len: "length (deleted_lines A B ls) = length ls" for A B ls by (simp add: deleted_lines_def)
  have "matrix_ok (getNCols p) (row_coeffs p) (col_coeffs p)" using assms(1) by (simp add: storages_ok_def)
  then have "matrix_ok (getNCols p) (deleted_lines (set D) (set C) (row_coeffs p)) (deleted_lines (set C) (set D) (col_coeffs p))"
    using deleted_matrix_ok [of "col_coeffs p" "row_coeffs p" "set D" "set C"] by (simp add: getNCols_def)
  with sizes show ?thesis by (simp add: p' storages_ok_def getNRows_def getNCols_def len)
qed

definition ex_matrix :: problem where
  "ex_matrix = \<lparr>obj_coeffs = [1, 1], obj_offset = 0, row_coeffs = [[(0, 1), (1, 2)], [(1, 3)]],
     col_coeffs = [[(0, 1)], [(0, 2), (1, 3)]], lhs_values = [0, 0], rhs_values = [4, 9], row_flags = [0, 0],
     rowsize = [2, 1], colsize = [1, 2],
     prob_domains = \<lparr>lower_bounds = [0, 0], upper_bounds = [10, 10], col_flags = [0, 0]\<rparr>,
     row_activities = [\<lparr>act_min = 0, act_max = 30, ninfmin = 0, ninfmax = 0, lastchange = -1\<rparr>,
       \<lparr>act_min = 0, act_max = 30, ninfmin = 0, ninfmax = 0, lastchange = -1\<rparr>],
     col_locks = []\<rparr>"

lemma ex_matrix_ok: "storages_ok ex_matrix"
proof -
  have "matrix_ok 2 [[(0, 1), (1, 2)], [(1, 3)]] [[(0, 1)], [(0, 2), (1, 3)]]"
    by (auto simp: matrix_ok_def col_of_matrix_def less_Suc_eq numeral_2_eq_2)
  then show ?thesis
    by (simp add: storages_ok_def ex_matrix_def getNRows_def getNCols_def line_sizes_ok_def less_Suc_eq numeral_2_eq_2)
qed

theorem deleteRowsAndCols_keeps_storages_witness:
  "storages_ok (fst (deleteRowsAndCols [1] [0] (ex_matrix, [], [], []))) \<and>
   row_coeffs (fst (deleteRowsAndCols [1] [0] (ex_matrix, [], [], []))) = [[(1, 2)], []]"
proof -
  obtain p' sr sc ec where run: "deleteRowsAndCols [1] [0] (ex_matrix, [], [], []) = (p', sr, sc, ec)"
    by (cases "deleteRowsAndCols [1] [0] (ex_matrix, [], [], [])") auto
  have "set [1] \<subseteq> {..<getNRows ex_matrix}" "set [0] \<subseteq> {..<getNCols ex_matrix}"
    by (simp_all add: ex_matrix_def getNRows_def getNCols_def)
  from deleteRowsAndCols_keeps_storages [OF ex_matrix_ok this run]
  have "storages_ok p'" "row_coeffs p' = [[(1, 2)], []]" by (simp_all add: deleted_lines_def ex_matrix_def)
  then show ?thesis unfolding run by simp
qed

end
