(* ===== verification/Pap_ProblemUpdate.thy ===== *)
theory Pap_ProblemUpdate
  imports Pap_Matrix Pap_PostsolveStorage Pap_Reductions
begin

text \<open>
  \<open>src/papilo/core/ProblemUpdate.hpp\<close>: the state that applies reductions to a problem. It holds the
  problem with its activities, the postsolve storage it reports to, the marks of rows and columns
  changed by the transactions of a round, the work lists of redundant rows, deleted columns, singletons
  and empty columns, and the collected coefficient changes.
\<close>

section \<open>State\<close>

text \<open>The counters of \<open>core/Statistics.hpp\<close> and the options of \<open>core/PresolveOptions.hpp\<close> this class uses.\<close>

record Statistics =
  ntsxapplied :: int
  ntsxconflicts :: int
  nboundchgs :: int
  nsidechgs :: int
  ncoefchgs :: int
  nrounds :: int
  ndeletedcols :: int
  ndeletedrows :: int
  consecutive_rounds_of_only_boundchanges :: int
  single_matrix_coefficient_changes :: int

record PresolveOptions =
  dualreds :: nat
  maxfillinpersubstitution :: int
  maxshiftperrow :: int
  compressfac :: rat
  minabscoeff :: rat
  verification_with_VeriPB :: bool
  maxrounds :: int
  max_consecutive_rounds_of_only_bound_changes :: int
  tlim :: "rat option"
  abortfacfast :: rat
  abortfacmedium :: rat
  abortfac :: rat
  lpabortfacfast :: rat
  lpabortfacmedium :: rat
  lpabortfac :: rat
  threads :: int
  apply_results_immediately_if_run_sequentially :: bool

text \<open>
  The numbers of integral and continuous columns are members of the problem in the code. The
  postsolve storage and the statistics are references the class keeps.
\<close>

record problem_update =
  upd_problem :: problem
  num_integral_cols :: int
  num_continuous_cols :: int
  upd_postsolve :: postsolve_storage
  upd_stats :: Statistics
  postponeSubstitutions :: bool
  dirty_row_states :: "nat list"
  dirty_col_states :: "nat list"
  deleted_cols :: "nat list"
  redundant_rows :: "nat list"
  upd_log :: activity_log
  singletonRows :: "nat list"
  singletonColumns :: "nat list"
  emptyColumns :: "nat list"
  firstNewSingletonCol :: nat
  upd_buffer :: matrix_buffer
  random_col_perm :: "int list"
  random_row_perm :: "int list"
  lastcompress_ndelcols :: int
  lastcompress_ndelrows :: int
  row_state :: "flags list"
  col_state :: "flags list"

definition kUnmodified :: flag where "kUnmodified = 0"
definition kModified :: flag where "kModified = 2"
definition kBoundsModified :: flag where "kBoundsModified = 4"

lemmas state_defs = kUnmodified_def kModified_def kBoundsModified_def

text \<open>The constructor; the two permutations come from the shuffle of a random generator.\<close>

definition new_problem_update ::
  "problem \<Rightarrow> int \<Rightarrow> int \<Rightarrow> postsolve_storage \<Rightarrow> Statistics \<Rightarrow> int list \<Rightarrow> int list \<Rightarrow> problem_update" where
  "new_problem_update p nint ncont storage stats colperm rowperm =
     \<lparr>upd_problem = p, num_integral_cols = nint, num_continuous_cols = ncont, upd_postsolve = storage,
      upd_stats = stats, postponeSubstitutions = True, dirty_row_states = [], dirty_col_states = [],
      deleted_cols = [], redundant_rows = [],
      upd_log = \<lparr>last_changed_activities = [], current_changed_activities = []\<rparr>,
      singletonRows = [], singletonColumns = [], emptyColumns = [], firstNewSingletonCol = 0,
      upd_buffer = [], random_col_perm = colperm, random_row_perm = rowperm,
      lastcompress_ndelcols = 0, lastcompress_ndelrows = 0,
      row_state = replicate (getNRows p) kUnmodified, col_state = replicate (getNCols p) kUnmodified\<rparr>"

subsection \<open>Access to the parts\<close>

definition on_problem :: "(problem \<Rightarrow> problem) \<Rightarrow> problem_update \<Rightarrow> problem_update" where
  "on_problem f u = u\<lparr>upd_problem := f (upd_problem u)\<rparr>"

definition on_domains :: "(variable_domains \<Rightarrow> variable_domains) \<Rightarrow> problem_update \<Rightarrow> problem_update" where
  "on_domains f = on_problem (\<lambda>p. p\<lparr>prob_domains := f (prob_domains p)\<rparr>)"

definition on_storage :: "(postsolve_storage \<Rightarrow> postsolve_storage) \<Rightarrow> problem_update \<Rightarrow> problem_update" where
  "on_storage f u = u\<lparr>upd_postsolve := f (upd_postsolve u)\<rparr>"

definition on_stats :: "(Statistics \<Rightarrow> Statistics) \<Rightarrow> problem_update \<Rightarrow> problem_update" where
  "on_stats f u = u\<lparr>upd_stats := f (upd_stats u)\<rparr>"

definition set_col_flag :: "nat \<Rightarrow> flag list \<Rightarrow> variable_domains \<Rightarrow> variable_domains" where
  "set_col_flag c fs d = d\<lparr>col_flags := (col_flags d)[c := flags_set fs (col_flags d ! c)]\<rparr>"

definition unset_col_flag :: "nat \<Rightarrow> flag list \<Rightarrow> variable_domains \<Rightarrow> variable_domains" where
  "unset_col_flag c fs d = d\<lparr>col_flags := (col_flags d)[c := flags_unset fs (col_flags d ! c)]\<rparr>"

definition set_bound_value :: "BoundChange \<Rightarrow> nat \<Rightarrow> rat \<Rightarrow> variable_domains \<Rightarrow> variable_domains" where
  "set_bound_value type c v d = (case type of
     kLower \<Rightarrow> d\<lparr>lower_bounds := (lower_bounds d)[c := v]\<rparr>
   | kUpper \<Rightarrow> d\<lparr>upper_bounds := (upper_bounds d)[c := v]\<rparr>)"

abbreviation upd_domains :: "problem_update \<Rightarrow> variable_domains" where
  "upd_domains u \<equiv> prob_domains (upd_problem u)"

abbreviation upd_cflag :: "problem_update \<Rightarrow> nat \<Rightarrow> flag list \<Rightarrow> bool" where
  "upd_cflag u c fs \<equiv> flags_test (col_flags (upd_domains u) ! c) fs"

abbreviation upd_rflag :: "problem_update \<Rightarrow> nat \<Rightarrow> flag list \<Rightarrow> bool" where
  "upd_rflag u r fs \<equiv> flags_test (row_flags (upd_problem u) ! r) fs"

section \<open>Marks\<close>

definition setColState :: "nat \<Rightarrow> flag list \<Rightarrow> problem_update \<Rightarrow> problem_update" where
  "setColState col fs u =
     (let u1 = (if flags_equal (col_state u ! col) [kUnmodified]
                then u\<lparr>dirty_col_states := dirty_col_states u @ [col]\<rparr> else u)
      in u1\<lparr>col_state := (col_state u1)[col := flags_set fs (col_state u1 ! col)]\<rparr>)"

definition setRowState :: "nat \<Rightarrow> flag list \<Rightarrow> problem_update \<Rightarrow> problem_update" where
  "setRowState row fs u =
     (let u1 = (if flags_equal (row_state u ! row) [kUnmodified]
                then u\<lparr>dirty_row_states := dirty_row_states u @ [row]\<rparr> else u)
      in u1\<lparr>row_state := (row_state u1)[row := flags_set fs (row_state u1 ! row)]\<rparr>)"

definition clearStates :: "problem_update \<Rightarrow> problem_update" where
  "clearStates u =
     u\<lparr>row_state := foldl (\<lambda>st row. st[row := kUnmodified]) (row_state u) (dirty_row_states u),
       dirty_row_states := [],
       col_state := foldl (\<lambda>st col. st[col := kUnmodified]) (col_state u) (dirty_col_states u),
       dirty_col_states := []\<rparr>"

definition update_markRowRedundant :: "nat \<Rightarrow> problem_update \<Rightarrow> problem_update" where
  "update_markRowRedundant row u =
     (let u1 = (if \<not> upd_rflag u row [kRedundantRow]
                then on_problem (set_row_flag row [kRedundantRow])
                  (on_stats (\<lambda>s. s\<lparr>ndeletedrows := ndeletedrows s + 1\<rparr>)
                    (u\<lparr>redundant_rows := redundant_rows u @ [row]\<rparr>))
                else u)
      in on_storage (storeRedundantRow row) u1)"

definition count_removed_col :: "nat \<Rightarrow> problem_update \<Rightarrow> problem_update" where
  "count_removed_col col u =
     (if upd_cflag u col [kIntegral] then u\<lparr>num_integral_cols := num_integral_cols u - 1\<rparr>
      else u\<lparr>num_continuous_cols := num_continuous_cols u - 1\<rparr>)"

definition markColFixed :: "nat \<Rightarrow> problem_update \<Rightarrow> problem_update" where
  "markColFixed col u =
     count_removed_col col
       (on_stats (\<lambda>s. s\<lparr>ndeletedcols := ndeletedcols s + 1\<rparr>)
         ((on_domains (set_col_flag col [kFixed]) u)\<lparr>deleted_cols := deleted_cols u @ [col]\<rparr>))"

definition getNActiveRows :: "problem_update \<Rightarrow> int" where
  "getNActiveRows u = int (getNRows (upd_problem u)) - ndeletedrows (upd_stats u) + lastcompress_ndelrows u"

definition getNActiveCols :: "problem_update \<Rightarrow> int" where
  "getNActiveCols u = int (getNCols (upd_problem u)) - ndeletedcols (upd_stats u) + lastcompress_ndelcols u"

section \<open>Bounds of columns\<close>

definition update_bound_activities :: "BoundChange \<Rightarrow> nat \<Rightarrow> rat \<Rightarrow> problem_update \<Rightarrow> problem_update" where
  "update_bound_activities type col newbound u =
     (let p = upd_problem u; d = prob_domains p
      in case update_activities_after_boundchange (col_coeffs p ! col) type (old_bound type d col) newbound
             (bound_useless type d col) (update_activity (nrounds (upd_stats u)) (row_flags p)) False
             (row_activities p, upd_log u) of
           (acts, alog) \<Rightarrow> u\<lparr>upd_problem := p\<lparr>row_activities := acts\<rparr>, upd_log := alog\<rparr>)"

definition store_bound_change :: "BoundChange \<Rightarrow> nat \<Rightarrow> rat \<Rightarrow> problem_update \<Rightarrow> problem_update" where
  "store_bound_change type col newbound u =
     on_storage (storeVarBoundChange (type = kLower) col (old_bound type (upd_domains u) col)
       (bound_is_inf type (upd_domains u) col) newbound) u"

text \<open>One side of \<open>fixCol\<close>: activities, storage, value and flag.\<close>

definition fix_side :: "BoundChange \<Rightarrow> nat \<Rightarrow> rat \<Rightarrow> problem_update \<Rightarrow> problem_update" where
  "fix_side type col val u =
     on_domains (unset_col_flag col [case type of kLower \<Rightarrow> kLbUseless | kUpper \<Rightarrow> kUbUseless])
       (on_domains (set_bound_value type col val)
         (store_bound_change type col val (update_bound_activities type col val u)))"

definition fixCol :: "Num \<Rightarrow> nat \<Rightarrow> rat \<Rightarrow> problem_update \<Rightarrow> PresolveStatus \<times> problem_update" where
  "fixCol num col val u =
     (let d = upd_domains u; lb = lower_bounds d ! col; ub = upper_bounds d ! col
      in if upd_cflag u col [kSubstituted] then (kUnchanged, u)
         else
           let lbchanged = (upd_cflag u col [kLbInf] \<or> val \<noteq> lb);
               ubchanged = (upd_cflag u col [kUbInf] \<or> val \<noteq> ub);
               u1 = (if lbchanged then on_stats (\<lambda>s. s\<lparr>nboundchgs := nboundchgs s + 1\<rparr>) u else u);
               u2 = (if ubchanged then on_stats (\<lambda>s. s\<lparr>nboundchgs := nboundchgs s + 1\<rparr>) u1 else u1)
           in if lbchanged \<or> ubchanged then
                if (\<not> upd_cflag u col [kLbInf] \<and> isFeasLT num val lb) \<or>
                   (\<not> upd_cflag u col [kUbInf] \<and> isFeasGT num val ub) \<or>
                   (upd_cflag u col [kIntegral] \<and> \<not> isFeasIntegral num val)
                then (kInfeasibleStatus, u2)
                else if upd_cflag u col [kFixed] then (kUnchanged, u2)
                else
                  let u3 = (if lbchanged then fix_side kLower col val u2 else u2);
                      u4 = (if ubchanged then fix_side kUpper col val u3 else u3)
                  in (kReduced, setColState col [kBoundsModified] (markColFixed col u4))
              else (kUnchanged, u2))"

definition fixColInfinity :: "nat \<Rightarrow> rat \<Rightarrow> problem_update \<Rightarrow> PresolveStatus \<times> problem_update" where
  "fixColInfinity col val u =
     (if upd_cflag u col [kSubstituted] \<or> upd_cflag u col [kFixed] \<or> val = 0 then (kUnchanged, u)
      else
        let u1 = setColState col [kBoundsModified] (markColFixed col u);
            u2 = (if val = -1
                  then on_storage (storeFixedInfCol col (-1) (upper_bounds (upd_domains u1) ! col)
                         (upd_cflag u1 col [kUbInf]) (upd_problem u1)) u1 else u1);
            u3 = (if val = 1
                  then on_storage (storeFixedInfCol col 1 (lower_bounds (upd_domains u2) ! col)
                         (upd_cflag u2 col [kLbInf]) (upd_problem u2)) u2 else u2)
        in (kReduced, u3))"

text \<open>
  The common end of \<open>changeLB\<close> and \<open>changeUB\<close>, from the test for a huge value on.
\<close>

definition apply_bound :: "Num \<Rightarrow> BoundChange \<Rightarrow> nat \<Rightarrow> rat \<Rightarrow> problem_update \<Rightarrow> problem_update" where
  "apply_bound num type col newbound u =
     (let was_inf = bound_is_inf type (upd_domains u) col;
          u1 = (if \<not> isHugeVal num newbound
                then on_domains (unset_col_flag col [case type of kLower \<Rightarrow> kLbUseless | kUpper \<Rightarrow> kUbUseless])
                       (update_bound_activities type col newbound u)
                else on_domains (unset_col_flag col [case type of kLower \<Rightarrow> kLbInf | kUpper \<Rightarrow> kUbInf]) u);
          u2 = on_storage (storeVarBoundChange (type = kLower) col (old_bound type (upd_domains u1) col) was_inf newbound) u1;
          u3 = on_domains (set_bound_value type col newbound) u2;
          u4 = (if \<not> upd_cflag u3 col [case type of kLower \<Rightarrow> kUbInf | kUpper \<Rightarrow> kLbInf] \<and>
                   upper_bounds (upd_domains u3) ! col = lower_bounds (upd_domains u3) ! col
                then markColFixed col u3 else u3)
      in setColState col [kBoundsModified] u4)"

definition changeLB :: "Num \<Rightarrow> nat \<Rightarrow> rat \<Rightarrow> problem_update \<Rightarrow> PresolveStatus \<times> problem_update" where
  "changeLB num col val u =
     (let lb = lower_bounds (upd_domains u) ! col; ub = upper_bounds (upd_domains u) ! col
      in if upd_cflag u col [kSubstituted] then (kUnchanged, u)
         else
           let newbound = (if upd_cflag u col [kIntegral, kImplInt] then feasCeil num val else val)
           in if upd_cflag u col [kLbInf] \<or> newbound > lb then
                let u1 = on_stats (\<lambda>s. s\<lparr>nboundchgs := nboundchgs s + 1\<rparr>) u
                in if \<not> upd_cflag u col [kUbInf] \<and> newbound > ub then
                     if isFeasGT num newbound ub then (kInfeasibleStatus, u1)
                     else if \<not> upd_cflag u col [kLbInf] \<and> lb = ub then (kUnchanged, u1)
                     else (kReduced, apply_bound num kLower col ub u1)
                   else (kReduced, apply_bound num kLower col newbound u1)
              else (kUnchanged, u))"

definition changeUB :: "Num \<Rightarrow> nat \<Rightarrow> rat \<Rightarrow> problem_update \<Rightarrow> PresolveStatus \<times> problem_update" where
  "changeUB num col val u =
     (let lb = lower_bounds (upd_domains u) ! col; ub = upper_bounds (upd_domains u) ! col
      in if upd_cflag u col [kSubstituted] then (kUnchanged, u)
         else
           let newbound = (if upd_cflag u col [kIntegral, kImplInt] then feasFloor num val else val)
           in if upd_cflag u col [kUbInf] \<or> newbound < ub then
                let u1 = on_stats (\<lambda>s. s\<lparr>nboundchgs := nboundchgs s + 1\<rparr>) u
                in if \<not> upd_cflag u col [kLbInf] \<and> newbound < lb then
                     if isFeasLT num newbound lb then (kInfeasibleStatus, u1)
                     else if \<not> upd_cflag u col [kUbInf] \<and> lb = ub then (kUnchanged, u1)
                     else (kReduced, apply_bound num kUpper col lb u1)
                   else (kReduced, apply_bound num kUpper col newbound u1)
              else (kUnchanged, u))"

subsection \<open>What the parts of the state do to each other\<close>

lemma on_parts [simp]:
  "upd_problem (on_problem f u) = f (upd_problem u)"
  "upd_problem (on_domains g u) = (upd_problem u)\<lparr>prob_domains := g (prob_domains (upd_problem u))\<rparr>"
  "upd_problem (on_storage h u) = upd_problem u" "upd_problem (on_stats k u) = upd_problem u"
  "upd_problem (setColState c fs u) = upd_problem u" "upd_problem (setRowState r fs u) = upd_problem u"
  "upd_problem (count_removed_col c u) = upd_problem u"
  "upd_problem (store_bound_change type c b u) = upd_problem u"
  by (simp_all add: on_problem_def on_domains_def on_storage_def on_stats_def setColState_def
      setRowState_def count_removed_col_def store_bound_change_def Let_def)

lemma markColFixed_problem [simp]:
  "upd_problem (markColFixed c u) =
    (upd_problem u)\<lparr>prob_domains := set_col_flag c [kFixed] (prob_domains (upd_problem u))\<rparr>"
  by (simp add: markColFixed_def on_stats_def)

text \<open>The part of the state the bound changes do not see.\<close>

definition marks :: "problem_update \<Rightarrow> flags list \<times> flags list \<times> nat list \<times> nat list \<times> nat list \<times> nat list" where
  "marks u = (row_state u, col_state u, dirty_row_states u, dirty_col_states u, deleted_cols u, redundant_rows u)"

lemma on_marks [simp]:
  "marks (on_problem f u) = marks u" "marks (on_domains g u) = marks u"
  "marks (on_storage h u) = marks u" "marks (on_stats k u) = marks u"
  "marks (count_removed_col c u) = marks u" "marks (store_bound_change type c b u) = marks u"
  "marks (update_bound_activities type c b u) = marks u" "marks (fix_side type c b u) = marks u"
  by (simp_all add: marks_def on_problem_def on_domains_def on_storage_def on_stats_def
      count_removed_col_def store_bound_change_def update_bound_activities_def fix_side_def Let_def
      split: prod.split)

section \<open>Invariant\<close>

text \<open>
  The marks: every row or column whose state is not \<open>kUnmodified\<close> is in the list \<open>clearStates\<close> goes
  through, the work lists hold inactive columns and redundant rows.
\<close>

definition dirty_ok :: "flags list \<Rightarrow> nat list \<Rightarrow> nat \<Rightarrow> bool" where
  "dirty_ok states dirty n \<longleftrightarrow> length states = n \<and>
     (\<forall>i<n. states ! i \<noteq> kUnmodified \<longrightarrow> i \<in> set dirty)"

definition marks_ok :: "problem_update \<Rightarrow> bool" where
  "marks_ok u \<longleftrightarrow>
     dirty_ok (row_state u) (dirty_row_states u) (getNRows (upd_problem u)) \<and>
     dirty_ok (col_state u) (dirty_col_states u) (getNCols (upd_problem u)) \<and>
     (\<forall>c\<in>set (deleted_cols u). c < getNCols (upd_problem u) \<and> upd_cflag u c [kInactive]) \<and>
     (\<forall>r\<in>set (redundant_rows u). r < getNRows (upd_problem u) \<and> upd_rflag u r [kRedundantRow])"

definition sorted_lines :: "problem \<Rightarrow> bool" where
  "sorted_lines p \<longleftrightarrow> (\<forall>row\<in>set (row_coeffs p). sorted_cols row) \<and> (\<forall>col\<in>set (col_coeffs p). sorted_cols col)"

definition box_ordered :: "variable_domains \<Rightarrow> nat \<Rightarrow> bool" where
  "box_ordered d c \<longleftrightarrow> bound_is_inf kLower d c \<or> bound_is_inf kUpper d c \<or> lower_bounds d ! c \<le> upper_bounds d ! c"

definition update_ok :: "problem_update \<Rightarrow> bool" where
  "update_ok u \<longleftrightarrow> problem_ok (upd_problem u) \<and> storages_ok (upd_problem u) \<and>
     sorted_lines (upd_problem u) \<and> (\<forall>c<getNCols (upd_problem u). box_ordered (upd_domains u) c) \<and> marks_ok u"

lemma set_flags_nonzero: "f \<noteq> 0 \<Longrightarrow> flags_set [f] s \<noteq> 0"
  by (auto simp: flags_set_def) (metis or_eq_0_iff)

lemma setColState_fields [simp]:
  "row_state (setColState c fs u) = row_state u" "dirty_row_states (setColState c fs u) = dirty_row_states u"
  "deleted_cols (setColState c fs u) = deleted_cols u" "redundant_rows (setColState c fs u) = redundant_rows u"
  "col_state (setColState c fs u) = (col_state u)[c := flags_set fs (col_state u ! c)]"
  "set (dirty_col_states (setColState c fs u)) =
     (if col_state u ! c = kUnmodified then insert c (set (dirty_col_states u)) else set (dirty_col_states u))"
  by (simp_all add: setColState_def Let_def flags_equal_def)

lemma setRowState_fields [simp]:
  "col_state (setRowState c fs u) = col_state u" "dirty_col_states (setRowState c fs u) = dirty_col_states u"
  "deleted_cols (setRowState c fs u) = deleted_cols u" "redundant_rows (setRowState c fs u) = redundant_rows u"
  "row_state (setRowState c fs u) = (row_state u)[c := flags_set fs (row_state u ! c)]"
  "set (dirty_row_states (setRowState c fs u)) =
     (if row_state u ! c = kUnmodified then insert c (set (dirty_row_states u)) else set (dirty_row_states u))"
  by (simp_all add: setRowState_def Let_def flags_equal_def)

lemma setColState_marks_ok:
  assumes "marks_ok u" and "c < getNCols (upd_problem u)"
  shows "marks_ok (setColState c fs u)"
  using assms by (auto simp: marks_ok_def dirty_ok_def nth_list_update)

lemma setRowState_marks_ok:
  assumes "marks_ok u" and "r < getNRows (upd_problem u)"
  shows "marks_ok (setRowState r fs u)"
  using assms by (auto simp: marks_ok_def dirty_ok_def nth_list_update)

lemma clear_all:
  assumes "dirty_ok states dirty n" and "i < n"
  shows "foldl (\<lambda>st k. st[k := kUnmodified]) states dirty ! i = kUnmodified"
proof -
  have "foldl (\<lambda>st k. st[k := kUnmodified]) states dirty ! i =
      (if i \<in> set dirty then kUnmodified else states ! i)" if "i < length states" for states
    using that by (induction dirty arbitrary: states) (auto simp: nth_list_update)
  with assms show ?thesis by (auto simp: dirty_ok_def)
qed

section \<open>Solutions\<close>

text \<open>
  The solutions of a problem in the middle of presolve: rows that are marked redundant do not count any
  more. On a problem without redundant rows these are the feasible points.
\<close>

definition active_rows_satisfied :: "problem \<Rightarrow> rat list \<Rightarrow> bool" where
  "active_rows_satisfied p x \<longleftrightarrow> (\<forall>r<getNRows p. flags_test (row_flags p ! r) [kRedundantRow] \<or>
     satisfies_row (row_flags p ! r) (lhs_values p ! r) (rhs_values p ! r) (row_value (row_coeffs p ! r) x))"

definition solves :: "problem \<Rightarrow> rat list \<Rightarrow> bool" where
  "solves p x \<longleftrightarrow> length x = getNCols p \<and> active_rows_satisfied p x \<and> in_domains (prob_domains p) x \<and>
     integral_point (prob_domains p) x"

definition in_box :: "problem \<Rightarrow> rat list \<Rightarrow> bool" where
  "in_box p x \<longleftrightarrow> length x = getNCols p \<and> in_domains (prob_domains p) x \<and> integral_point (prob_domains p) x"

lemma feasible_solves:
  "(\<forall>r<getNRows p. \<not> flags_test (row_flags p ! r) [kRedundantRow]) \<Longrightarrow> feasible p x = solves p x"
  by (auto simp: feasible_def solves_def rows_satisfied_def active_rows_satisfied_def)

section \<open>Domains after a bound change\<close>

abbreviation inf_flag :: "BoundChange \<Rightarrow> flag" where
  "inf_flag type \<equiv> (case type of kLower \<Rightarrow> kLbInf | kUpper \<Rightarrow> kUbInf)"

abbreviation useless_flag :: "BoundChange \<Rightarrow> flag" where
  "useless_flag type \<equiv> (case type of kLower \<Rightarrow> kLbUseless | kUpper \<Rightarrow> kUbUseless)"

definition respects_bound :: "BoundChange \<Rightarrow> rat \<Rightarrow> rat \<Rightarrow> bool" where
  "respects_bound type b v = (case type of kLower \<Rightarrow> b \<le> v | kUpper \<Rightarrow> v \<le> b)"

lemma with_bound_alt: "with_bound type c b d = set_bound_value type c b (unset_col_flag c [useless_flag type] d)"
  by (cases type) (simp_all add: with_bound_def with_lower_def with_upper_def set_bound_value_def unset_col_flag_def)

lemma set_bound_value_fields [simp]:
  "col_flags (set_bound_value type c b d) = col_flags d"
  "lower_bounds (set_bound_value type c b d) = (if type = kLower then (lower_bounds d)[c := b] else lower_bounds d)"
  "upper_bounds (set_bound_value type c b d) = (if type = kUpper then (upper_bounds d)[c := b] else upper_bounds d)"
  by (cases type; simp add: set_bound_value_def)+

lemma col_flag_fields [simp]:
  "lower_bounds (set_col_flag c fs d) = lower_bounds d" "upper_bounds (set_col_flag c fs d) = upper_bounds d"
  "col_flags (set_col_flag c fs d) = (col_flags d)[c := flags_set fs (col_flags d ! c)]"
  "lower_bounds (unset_col_flag c fs d) = lower_bounds d" "upper_bounds (unset_col_flag c fs d) = upper_bounds d"
  "col_flags (unset_col_flag c fs d) = (col_flags d)[c := flags_unset fs (col_flags d ! c)]"
  by (simp_all add: set_col_flag_def unset_col_flag_def)

lemma fixed_flag_tests:
  "flags_test (flags_set [kFixed] f) [kLbInf] = flags_test f [kLbInf]"
  "flags_test (flags_set [kFixed] f) [kUbInf] = flags_test f [kUbInf]"
  "flags_test (flags_set [kFixed] f) [kLbUseless] = flags_test f [kLbUseless]"
  "flags_test (flags_set [kFixed] f) [kUbUseless] = flags_test f [kUbUseless]"
  "flags_test (flags_set [kFixed] f) [kIntegral, kImplInt] = flags_test f [kIntegral, kImplInt]"
  "flags_test (flags_set [kFixed] f) [kIntegral] = flags_test f [kIntegral]"
  by (simp_all add: flags_test_set flag_defs)

lemma unset_flag_tests:
  "\<not> flags_test (flags_unset [kLbInf] f) [kLbInf]" "\<not> flags_test (flags_unset [kUbInf] f) [kUbInf]"
  "\<not> flags_test (flags_unset [kLbUseless] f) [kLbInf]" "\<not> flags_test (flags_unset [kUbUseless] f) [kUbInf]"
  "flags_test (flags_unset [kLbInf] f) [kUbInf] = flags_test f [kUbInf]"
  "flags_test (flags_unset [kUbInf] f) [kLbInf] = flags_test f [kLbInf]"
  "flags_test (flags_unset [kLbUseless] f) [kUbInf] = flags_test f [kUbInf]"
  "flags_test (flags_unset [kUbUseless] f) [kLbInf] = flags_test f [kLbInf]"
  by (simp_all add: flags_test_unset_subset flags_test_unset_disjoint flag_defs)

lemma unset_flag_integral:
  "fl = kLbInf \<or> fl = kUbInf \<or> fl = kLbUseless \<or> fl = kUbUseless \<Longrightarrow>
    flags_test (flags_unset [fl] f) [kIntegral, kImplInt] = flags_test f [kIntegral, kImplInt]"
  by (auto simp: flags_test_unset_disjoint flag_defs)

lemma fixed_flag_test_at:
  assumes "fs \<in> {[kLbInf], [kUbInf], [kLbUseless], [kUbUseless], [kIntegral, kImplInt]}"
  shows "flags_test (col_flags (set_col_flag c [kFixed] d) ! c') fs = flags_test (col_flags d ! c') fs"
proof (cases "c = c' \<and> c < length (col_flags d)")
  case True
  with assms show ?thesis by (auto simp: fixed_flag_tests)
next
  case False
  then have "(col_flags d)[c := f] ! c' = col_flags d ! c'" for f by (cases "c = c'") (simp_all add: list_update_beyond)
  then show ?thesis by simp
qed

lemma fixed_flag_parts:
  "tracks (set_col_flag c [kFixed] d) row act = tracks d row act"
  "in_col_domain (set_col_flag c [kFixed] d) c' v = in_col_domain d c' v"
  "in_domains (set_col_flag c [kFixed] d) x = in_domains d x"
  "integral_point (set_col_flag c [kFixed] d) x = integral_point d x"
  "all_tracked (set_col_flag c [kFixed] d) rows acts = all_tracked d rows acts"
proof -
  note test = fixed_flag_test_at [of _ c d]
  have "min_part (set_col_flag c [kFixed] d) e = min_part d e" "max_part (set_col_flag c [kFixed] d) e = max_part d e"
    "min_inf (set_col_flag c [kFixed] d) e = min_inf d e" "max_inf (set_col_flag c [kFixed] d) e = max_inf d e" for e
    using test by (simp_all add: part_defs split: prod.split del: col_flag_fields(3))
  then show tr: "tracks (set_col_flag c [kFixed] d) row act = tracks d row act" for row act
    by (simp add: tracks_def cong: map_cong)
  show "in_col_domain (set_col_flag c [kFixed] d) c' v = in_col_domain d c' v" for c' v
    using test by (simp add: in_col_domain_def del: col_flag_fields(3))
  then show "in_domains (set_col_flag c [kFixed] d) x = in_domains d x" by (simp add: in_domains_def)
  show "integral_point (set_col_flag c [kFixed] d) x = integral_point d x"
    using test unfolding integral_point_def by (simp del: col_flag_fields(3)) (simp add: set_col_flag_def)
  show "all_tracked (set_col_flag c [kFixed] d) rows acts = all_tracked d rows acts"
    by (simp add: all_tracked_def tr)
qed

text \<open>A new bound that is not weaker than the old one cuts the box, whatever flag is removed with it.\<close>

lemma cut_in_domains:
  assumes "col_ok d c" and "length (lower_bounds d) = length (col_flags d)" and "length (upper_bounds d) = length (col_flags d)"
    and "bound_is_inf type d c \<or> (\<forall>v. respects_bound type b v \<longrightarrow> respects_bound type (old_bound type d c) v)"
    and "fl = inf_flag type \<or> fl = useless_flag type"
  shows "in_domains (set_bound_value type c b (unset_col_flag c [fl] d)) x \<longleftrightarrow>
    in_domains d x \<and> respects_bound type b (x ! c)"
    "integral_point (set_bound_value type c b (unset_col_flag c [fl] d)) x = integral_point d x"
proof -
  let ?d = "set_bound_value type c b (unset_col_flag c [fl] d)"
  have c: "c < length (col_flags d)" "c < length (lower_bounds d)" "c < length (upper_bounds d)"
    using assms(1) by (simp_all add: col_ok_def)
  have other: "in_col_domain ?d c' v = in_col_domain d c' v" if "c' \<noteq> c" for c' v
    using that by (simp add: in_col_domain_def)
  have here: "in_col_domain ?d c v \<longleftrightarrow> in_col_domain d c v \<and> respects_bound type b v" for v
    using assms(4,5) c
    by (cases type) (auto simp: in_col_domain_def bound_is_inf_def old_bound_def respects_bound_def unset_flag_tests)
  show "in_domains ?d x \<longleftrightarrow> in_domains d x \<and> respects_bound type b (x ! c)"
    using here other c by (auto simp: in_domains_def) (metis+)
  show "integral_point ?d x = integral_point d x"
  proof -
    have "flags_test (flags_unset [fl] (col_flags d ! c)) [kIntegral, kImplInt] =
        flags_test (col_flags d ! c) [kIntegral, kImplInt]"
      using assms(5) by (intro unset_flag_integral) (cases type; auto)
    then have "flags_test (col_flags ?d ! k) [kIntegral, kImplInt] = flags_test (col_flags d ! k) [kIntegral, kImplInt]"
      if "k < length (col_flags d)" for k
      using that by (cases "k = c") simp_all
    then show ?thesis by (simp add: integral_point_def)
  qed
qed

subsection \<open>Activities\<close>

text \<open>The problem after the activities of the rows of a column were updated.\<close>

lemma update_bound_activities_problem:
  assumes "problem_ok (upd_problem u)" and "c < getNCols (upd_problem u)"
  shows "\<exists>acts. upd_problem (update_bound_activities type c b u) = (upd_problem u)\<lparr>row_activities := acts\<rparr> \<and>
    all_tracked (with_bound type c b (upd_domains u)) (row_coeffs (upd_problem u)) acts"
proof -
  let ?p = "upd_problem u"
  have "all_tracked (prob_domains ?p) (row_coeffs ?p) (row_activities ?p)"
    and "col_of_matrix (row_coeffs ?p) c (col_coeffs ?p ! c)" and "col_ok (prob_domains ?p) c"
    using assms by (auto simp: problem_ok_def matrix_ok_def col_ok_def)
  note tracked = problem_update.update_all_tracked [OF this, where s = "upd_log u" and type = type and b = b]
  show ?thesis
    by (simp add: update_bound_activities_def Let_def case_prod_unfold)
      (rule exI, rule conjI [OF refl], simp add: tracked [simplified])
qed

lemma update_bound_activities_domains [simp]: "upd_domains (update_bound_activities type c b u) = upd_domains u"
  by (simp add: update_bound_activities_def Let_def split: prod.split)

lemma in_box_parts:
  assumes "length (col_flags D) = getNCols p"
  shows "in_box (p\<lparr>row_activities := acts, prob_domains := D\<rparr>) x \<longleftrightarrow>
    length x = getNCols p \<and> in_domains D x \<and> integral_point D x"
  using assms by (simp add: in_box_def active_rows_satisfied_def getNRows_def getNCols_def)

lemma problem_ok_parts:
  assumes "problem_ok p" and "length (lower_bounds D) = getNCols p" and "length (upper_bounds D) = getNCols p"
    and "length (col_flags D) = getNCols p" and "all_tracked D (row_coeffs p) acts"
  shows "problem_ok (p\<lparr>row_activities := acts, prob_domains := D\<rparr>)"
  using assms by (simp add: problem_ok_def getNRows_def getNCols_def)

lemma old_bound_unset [simp]: "old_bound type (unset_col_flag c fs d) c' = old_bound type d c'"
  by (cases type) (simp_all add: old_bound_def)

text \<open>The problem after \<open>apply_bound\<close>.\<close>

lemma apply_bound_problem:
  assumes "problem_ok (upd_problem u)" and "c < getNCols (upd_problem u)"
  shows "\<exists>acts D fl. fl \<in> {inf_flag type, useless_flag type} \<and>
    D \<in> {set_bound_value type c b (unset_col_flag c [fl] (upd_domains u)),
          set_col_flag c [kFixed] (set_bound_value type c b (unset_col_flag c [fl] (upd_domains u)))} \<and>
    upd_problem (apply_bound num type c b u) = (upd_problem u)\<lparr>row_activities := acts, prob_domains := D\<rparr> \<and>
    (\<not> isHugeVal num b \<longrightarrow> all_tracked D (row_coeffs (upd_problem u)) acts)"
proof -
  obtain acts where acts: "upd_problem (update_bound_activities type c b u) = (upd_problem u)\<lparr>row_activities := acts\<rparr>"
    "all_tracked (with_bound type c b (upd_domains u)) (row_coeffs (upd_problem u)) acts"
    using update_bound_activities_problem [OF assms] by blast
  let ?fl = "if isHugeVal num b then inf_flag type else useless_flag type"
  let ?D = "set_bound_value type c b (unset_col_flag c [?fl] (upd_domains u))"
  let ?acts = "if isHugeVal num b then row_activities (upd_problem u) else acts"
  let ?D' = "if \<not> flags_test (col_flags ?D ! c) [case type of kLower \<Rightarrow> kUbInf | kUpper \<Rightarrow> kLbInf] \<and>
    upper_bounds ?D ! c = lower_bounds ?D ! c then set_col_flag c [kFixed] ?D else ?D"
  have eq: "upd_problem (apply_bound num type c b u) = (upd_problem u)\<lparr>row_activities := ?acts, prob_domains := ?D'\<rparr>"
    by (simp add: apply_bound_def Let_def acts(1) del: col_flag_fields set_bound_value_fields)
  have tracked: "\<not> isHugeVal num b \<longrightarrow> all_tracked ?D' (row_coeffs (upd_problem u)) ?acts"
    using acts(2) by (simp add: with_bound_alt fixed_flag_parts(5) del: col_flag_fields set_bound_value_fields)
  have dom: "?D' \<in> {?D, set_col_flag c [kFixed] ?D}" by (simp del: col_flag_fields set_bound_value_fields)
  have fl: "?fl \<in> {inf_flag type, useless_flag type}" by simp
  show ?thesis by (intro exI conjI) (rule fl, rule dom, rule eq, rule tracked)
qed

lemma apply_bound_cuts:
  assumes "problem_ok (upd_problem u)" and "c < getNCols (upd_problem u)"
    and "bound_is_inf type (upd_domains u) c \<or>
      (\<forall>v. respects_bound type b v \<longrightarrow> respects_bound type (old_bound type (upd_domains u) c) v)"
  shows "in_box (upd_problem (apply_bound num type c b u)) x \<longleftrightarrow>
      in_box (upd_problem u) x \<and> respects_bound type b (x ! c)"
    and "\<not> isHugeVal num b \<Longrightarrow> problem_ok (upd_problem (apply_bound num type c b u))"
proof -
  let ?p = "upd_problem u" let ?d = "upd_domains u"
  obtain acts D fl where fl: "fl \<in> {inf_flag type, useless_flag type}"
    and D: "D \<in> {set_bound_value type c b (unset_col_flag c [fl] ?d),
        set_col_flag c [kFixed] (set_bound_value type c b (unset_col_flag c [fl] ?d))}"
    and p: "upd_problem (apply_bound num type c b u) = ?p\<lparr>row_activities := acts, prob_domains := D\<rparr>"
    and tr: "\<not> isHugeVal num b \<longrightarrow> all_tracked D (row_coeffs ?p) acts"
    using apply_bound_problem [OF assms(1,2), of type b num] by blast
  have len: "length (col_flags ?d) = getNCols ?p" "length (lower_bounds ?d) = getNCols ?p"
    "length (upper_bounds ?d) = getNCols ?p"
    using assms(1) by (simp_all add: problem_ok_def)
  have lenD: "length (lower_bounds D) = getNCols ?p \<and> length (upper_bounds D) = getNCols ?p \<and>
      length (col_flags D) = getNCols ?p"
    using D len by auto
  have "col_ok ?d c" using len assms(2) by (simp add: col_ok_def)
  from cut_in_domains [OF this _ _ assms(3), of fl] fl D len
  have "in_domains D x \<longleftrightarrow> in_domains ?d x \<and> respects_bound type b (x ! c)" "integral_point D x = integral_point ?d x"
    by (auto simp: fixed_flag_parts)
  then show "in_box (upd_problem (apply_bound num type c b u)) x \<longleftrightarrow> in_box ?p x \<and> respects_bound type b (x ! c)"
    using lenD by (auto simp: p in_box_parts) (auto simp: in_box_def)
  show "problem_ok (upd_problem (apply_bound num type c b u))" if "\<not> isHugeVal num b"
    using tr that lenD assms(1) by (simp add: p problem_ok_parts)
qed

subsection \<open>Invariant of the bound changes\<close>

lemma storages_ok_parts [simp]:
  "length acts = length (row_activities p) \<Longrightarrow> storages_ok (p\<lparr>row_activities := acts, prob_domains := D\<rparr>) = storages_ok p"
  "sorted_lines (p\<lparr>row_activities := acts, prob_domains := D\<rparr>) = sorted_lines p"
  by (simp_all add: storages_ok_def sorted_lines_def getNRows_def getNCols_def)

section \<open>Changed bounds\<close>

text \<open>The two operations in one form.\<close>

definition change_bound :: "Num \<Rightarrow> BoundChange \<Rightarrow> nat \<Rightarrow> rat \<Rightarrow> problem_update \<Rightarrow> PresolveStatus \<times> problem_update" where
  "change_bound num type = (case type of kLower \<Rightarrow> changeLB num | kUpper \<Rightarrow> changeUB num)"

definition rounded_bound :: "Num \<Rightarrow> BoundChange \<Rightarrow> problem_update \<Rightarrow> nat \<Rightarrow> rat \<Rightarrow> rat" where
  "rounded_bound num type u c v =
     (if upd_cflag u c [kIntegral, kImplInt] then (case type of kLower \<Rightarrow> feasCeil num v | kUpper \<Rightarrow> feasFloor num v)
      else v)"

definition opposite :: "BoundChange \<Rightarrow> BoundChange" where
  "opposite type = (case type of kLower \<Rightarrow> kUpper | kUpper \<Rightarrow> kLower)"

definition tighter :: "BoundChange \<Rightarrow> rat \<Rightarrow> rat \<Rightarrow> bool" where
  "tighter type a b = (case type of kLower \<Rightarrow> b < a | kUpper \<Rightarrow> a < b)"

definition feas_tighter :: "Num \<Rightarrow> BoundChange \<Rightarrow> rat \<Rightarrow> rat \<Rightarrow> bool" where
  "feas_tighter num type a b = (case type of kLower \<Rightarrow> isFeasGT num a b | kUpper \<Rightarrow> isFeasLT num a b)"

abbreviation count_bound :: "problem_update \<Rightarrow> problem_update" where
  "count_bound \<equiv> on_stats (\<lambda>s. s\<lparr>nboundchgs := nboundchgs s + 1\<rparr>)"

lemma change_bound_form:
  "change_bound num type c v u =
    (let d = upd_domains u; nb = rounded_bound num type u c v
     in if upd_cflag u c [kSubstituted] then (kUnchanged, u)
        else if bound_is_inf type d c \<or> tighter type nb (old_bound type d c) then
          if \<not> bound_is_inf (opposite type) d c \<and> tighter type nb (old_bound (opposite type) d c) then
            if feas_tighter num type nb (old_bound (opposite type) d c) then (kInfeasibleStatus, count_bound u)
            else if \<not> bound_is_inf type d c \<and> old_bound type d c = old_bound (opposite type) d c
              then (kUnchanged, count_bound u)
            else (kReduced, apply_bound num type c (old_bound (opposite type) d c) (count_bound u))
          else (kReduced, apply_bound num type c nb (count_bound u))
        else (kUnchanged, u))"
  by (cases type) (auto simp: change_bound_def changeLB_def changeUB_def rounded_bound_def opposite_def
      tighter_def feas_tighter_def bound_is_inf_def old_bound_def Let_def)

lemma rounded_bound_holds:
  assumes "num_ok num" and "respects_bound type v w" and "upd_cflag u c [kIntegral, kImplInt] \<Longrightarrow> w \<in> \<int>"
  shows "respects_bound type (rounded_bound num type u c v) w"
proof (cases "upd_cflag u c [kIntegral, kImplInt]")
  case True
  then obtain k where k: "w = of_int k" using assms(3) by (auto simp: Ints_def)
  have "v - feastol num \<le> of_int k" if "type = kLower"
    using assms(1,2) k that by (auto simp: respects_bound_def num_ok_def)
  moreover have "of_int k \<le> v + feastol num" if "type = kUpper"
    using assms(1,2) k that by (auto simp: respects_bound_def num_ok_def)
  ultimately show ?thesis
    using True by (cases type) (auto simp: rounded_bound_def respects_bound_def feasCeil_def feasFloor_def
        rational_ceil_eq rational_floor_eq k ceiling_le_iff le_floor_iff)
next
  case False
  with assms(2) show ?thesis by (simp add: rounded_bound_def)
qed

lemma in_domains_bound:
  assumes "in_domains d x" and "c < length (col_flags d)" and "\<not> bound_is_inf type d c"
  shows "respects_bound type (old_bound type d c) (x ! c)"
  using assms by (cases type) (auto simp: in_domains_def in_col_domain_def bound_is_inf_def respects_bound_def old_bound_def)

lemma bound_holds_tighter: "respects_bound type b w \<longleftrightarrow> \<not> tighter type b w"
  by (cases type) (auto simp: respects_bound_def tighter_def)

lemma feas_tighter_less: "num_ok num \<Longrightarrow> feas_tighter num type a b \<Longrightarrow> tighter type a b"
  by (cases type) (auto simp: feas_tighter_def tighter_def feas.lt_less feas.gt_greater)

lemma relDiff_grows:
  assumes "t < relDiff a b" and "w \<le> b" and "0 \<le> t" and "t < 1"
  shows "t < relDiff a w"
proof -
  define M where "M = max (max \<bar>a\<bar> \<bar>b\<bar>) 1"
  define N where "N = max (max \<bar>a\<bar> \<bar>w\<bar>) 1"
  have M: "t * M < a - b" "\<bar>b\<bar> \<le> M" "0 < M" using assms(1) by (auto simp: relDiff_def M_def less_divide_eq)
  have "t * N < a - w"
  proof (cases "N \<le> M")
    case True
    then show ?thesis using mult_left_mono [OF True assms(3)] M(1) assms(2) by linarith
  next
    case False
    then have N: "N = - w" "M \<le> N" using assms(2) by (auto simp: M_def N_def)
    have "(1 - t) * M \<le> (1 - t) * N" by (rule mult_left_mono [OF N(2)]) (use assms(4) in simp)
    then show ?thesis using M(1,2) N(1) by (simp add: algebra_simps)
  qed
  moreover have "0 < N" by (simp add: N_def)
  ultimately show ?thesis by (simp add: relDiff_def N_def less_divide_eq)
qed

lemma relDiff_flip: "relDiff (- a) (- b) = - relDiff a b"
  by (simp add: relDiff_def minus_divide_left)

lemma feas_tighter_mono:
  assumes "feas_tighter num type a b" and "\<not> tighter type w b" and "num_ok num" and "feastol num < 1"
  shows "feas_tighter num type a w"
proof -
  note rel = relDiff_grows [of "feastol num" a b w] relDiff_grows [of "feastol num" "- a" "- b" "- w"]
  show ?thesis
    using assms rel by (cases type) (auto simp: feas_tighter_def tighter_def isFeas_defs num_ok_def relDiff_flip split: if_splits)
qed

lemma near_integral:
  assumes "useabsfeas num" and "w \<in> \<int>" and "\<bar>w - v\<bar> \<le> feastol num"
  shows "isFeasIntegral num v"
proof -
  obtain k where k: "w = of_int k" using assms(2) by (auto elim: Ints_cases)
  have r: "\<bar>v - of_int \<lfloor>v + 1 / 2\<rfloor>\<bar> \<le> 1 / 2"
    using of_int_floor_le [of "v + 1 / 2"] floor_correct [of "v + 1 / 2"] by linarith
  have "\<bar>v - of_int \<lfloor>v + 1 / 2\<rfloor>\<bar> \<le> \<bar>v - of_int k\<bar>"
  proof (cases "k = \<lfloor>v + 1 / 2\<rfloor>")
    case False
    then have "1 \<le> \<bar>k - \<lfloor>v + 1 / 2\<rfloor>\<bar>" by linarith
    then have "1 \<le> \<bar>rat_of_int k - of_int \<lfloor>v + 1 / 2\<rfloor>\<bar>" by (metis of_int_1_le_iff of_int_abs of_int_diff)
    then show ?thesis using r by linarith
  qed simp
  then show ?thesis using assms k by (simp add: isFeasIntegral_def isFeas_defs num_round_eq del: floor_add2)
qed

lemma tighter_trans: "tighter type a b \<Longrightarrow> \<not> tighter type c b \<Longrightarrow> tighter type a c"
  by (cases type) (auto simp: tighter_def)

lemma tighter_opposite: "tighter (opposite type) a b \<longleftrightarrow> tighter type b a"
  by (cases type) (auto simp: tighter_def opposite_def)

lemma tighter_linear: "\<not> tighter type a b \<Longrightarrow> \<not> tighter type b a \<Longrightarrow> a = b"
  by (cases type) (auto simp: tighter_def)

lemma tighter_asym: "tighter type a b \<Longrightarrow> \<not> tighter type b a"
  by (cases type) (auto simp: tighter_def)

lemma box_orderedD:
  "box_ordered d c \<Longrightarrow> \<not> bound_is_inf type d c \<Longrightarrow> \<not> bound_is_inf (opposite type) d c \<Longrightarrow>
    \<not> tighter type (old_bound type d c) (old_bound (opposite type) d c)"
  by (cases type) (auto simp: box_ordered_def tighter_def old_bound_def opposite_def)

lemma point_bounds:
  assumes "in_box p x" and "problem_ok p" and "c < getNCols p"
  shows "\<not> bound_is_inf type (prob_domains p) c \<Longrightarrow> \<not> tighter type (old_bound type (prob_domains p) c) (x ! c)"
    and "flags_test (prob_cflags p ! c) [kIntegral, kImplInt] \<Longrightarrow> x ! c \<in> \<int>"
proof -
  have "c < length (prob_cflags p)" using assms(2,3) by (simp add: problem_ok_def)
  then show "\<not> bound_is_inf type (prob_domains p) c \<Longrightarrow> \<not> tighter type (old_bound type (prob_domains p) c) (x ! c)"
    "flags_test (prob_cflags p ! c) [kIntegral, kImplInt] \<Longrightarrow> x ! c \<in> \<int>"
    using assms(1) in_domains_bound [of "prob_domains p" x c type]
    by (auto simp: in_box_def integral_point_def bound_holds_tighter)
qed

lemma change_bound_sound:
  assumes "problem_ok (upd_problem u)" and "c < getNCols (upd_problem u)" and "num_ok num"
    and "box_ordered (upd_domains u) c" and "change_bound num type c v u = (st, u')"
  shows "(in_box (upd_problem u) x \<and> respects_bound type v (x ! c) \<longrightarrow>
       st \<noteq> kInfeasibleStatus \<and> in_box (upd_problem u') x) \<and>
    (in_box (upd_problem u') x \<longrightarrow> in_box (upd_problem u) x \<and>
       (upd_cflag u c [kSubstituted] \<or> st = kInfeasibleStatus \<or>
        \<not> feas_tighter num type (rounded_bound num type u c v) (x ! c)))"
proof -
  let ?d = "upd_domains u" and ?p = "upd_problem u" and ?nb = "rounded_bound num type u c v"
  let ?old = "old_bound type ?d c" and ?opp = "old_bound (opposite type) ?d c"
  note form = assms(5) [unfolded change_bound_form Let_def]
  note mine = point_bounds(1) [OF _ assms(1,2), of x type]
    and opp = point_bounds(1) [OF _ assms(1,2), of x "opposite type", unfolded tighter_opposite]
    and int = point_bounds(2) [OF _ assms(1,2), of x]
  have holds: "\<not> tighter type ?nb (x ! c)" if "in_box ?p x" "respects_bound type v (x ! c)"
    using rounded_bound_holds [OF assms(3) that(2)] int that(1) by (simp add: bound_holds_tighter)
  have cut: "in_box (upd_problem (apply_bound num type c b (count_bound u))) x \<longleftrightarrow>
      in_box ?p x \<and> \<not> tighter type b (x ! c)"
    if "bound_is_inf type ?d c \<or> \<not> tighter type ?old b" for b
  proof -
    have "bound_is_inf type ?d c \<or> (\<forall>w. respects_bound type b w \<longrightarrow> respects_bound type ?old w)"
      using that tighter_trans [of type ?old _ b] by (auto simp: bound_holds_tighter)
    then show ?thesis
      using apply_bound_cuts(1) [of "count_bound u" c type b num x] assms(1,2) by (simp add: bound_holds_tighter)
  qed
  note ft = feas_tighter_less [OF assms(3), of type]
  consider (none) "upd_cflag u c [kSubstituted]"
    | (weaker) "\<not> upd_cflag u c [kSubstituted]" "\<not> bound_is_inf type ?d c" "\<not> tighter type ?nb ?old"
    | (beyond) "\<not> upd_cflag u c [kSubstituted]" "bound_is_inf type ?d c \<or> tighter type ?nb ?old"
        "\<not> bound_is_inf (opposite type) ?d c" "tighter type ?nb ?opp"
    | (cuts) "\<not> upd_cflag u c [kSubstituted]" "bound_is_inf type ?d c \<or> tighter type ?nb ?old"
        "\<not> (\<not> bound_is_inf (opposite type) ?d c \<and> tighter type ?nb ?opp)"
    by blast
  then show ?thesis
  proof cases
    case none
    then show ?thesis using form by auto
  next
    case weaker
    have "\<not> feas_tighter num type ?nb (x ! c)" if "in_box ?p x"
      using ft [of ?nb "x ! c"] mine [OF that weaker(2)] weaker(3) tighter_trans [of type ?nb "x ! c" ?old] by blast
    then show ?thesis using form weaker by auto
  next
    case beyond
    have none: "tighter type ?nb (x ! c)" "\<not> tighter type (x ! c) ?opp" if "in_box ?p x"
      using opp [OF that beyond(3)] beyond(4) tighter_trans [of type ?nb ?opp "x ! c"] by blast+
    have ord: "bound_is_inf type ?d c \<or> \<not> tighter type ?old ?opp"
      using box_orderedD [OF assms(4) _ beyond(3)] by blast
    consider (infeasible) "feas_tighter num type ?nb ?opp"
      | (fixed) "\<not> feas_tighter num type ?nb ?opp" "\<not> bound_is_inf type ?d c" "?old = ?opp"
      | (capped) "\<not> feas_tighter num type ?nb ?opp" "\<not> (\<not> bound_is_inf type ?d c \<and> ?old = ?opp)"
      by blast
    then show ?thesis
    proof cases
      case infeasible
      then show ?thesis using form beyond holds none(1) by auto
    next
      case fixed
      have "x ! c = ?opp" if "in_box ?p x"
        using mine [OF that fixed(2)] none(2) [OF that] tighter_linear fixed(3) by metis
      then show ?thesis using form beyond fixed holds none(1) by auto
    next
      case capped
      then have form': "st = kReduced" "u' = apply_bound num type c ?opp (count_bound u)" using form beyond by auto
      have "x ! c = ?opp" if "in_box (upd_problem u') x"
        using that cut [OF ord] none(2) tighter_linear unfolding form' by metis
      then show ?thesis using cut [OF ord] form' capped(1) holds none(1) by auto
    qed
  next
    case cuts
    then have form': "st = kReduced" "u' = apply_bound num type c ?nb (count_bound u)" using form by auto
    have "bound_is_inf type ?d c \<or> \<not> tighter type ?old ?nb" using cuts(2) tighter_asym by blast
    from cut [OF this] show ?thesis using form' holds ft by auto
  qed
qed

lemma change_bound_infeasible:
  assumes "problem_ok (upd_problem u)" and "c < getNCols (upd_problem u)" and "num_ok num" and "feastol num < 1"
    and "change_bound num type c v u = (kInfeasibleStatus, u')" and "in_box (upd_problem u) x"
  shows "feas_tighter num type (rounded_bound num type u c v) (x ! c)"
proof -
  have "\<not> bound_is_inf (opposite type) (upd_domains u) c"
    "feas_tighter num type (rounded_bound num type u c v) (old_bound (opposite type) (upd_domains u) c)"
    using assms(5) by (auto simp: change_bound_form Let_def split: if_splits)
  then show ?thesis
    using point_bounds(1) [OF assms(6,1,2), of "opposite type"] feas_tighter_mono [OF _ _ assms(3,4)]
    by (simp add: tighter_opposite)
qed

subsection \<open>Invariant\<close>

lemma update_ok_cong:
  assumes "upd_problem v = upd_problem u" and "marks v = marks u"
  shows "update_ok v = update_ok u"
  using assms by (simp add: update_ok_def marks_ok_def marks_def)

lemma inactive_flags:
  "flags_test (flags_unset [kLbUseless] f) [kInactive] = flags_test f [kInactive]"
  "flags_test (flags_unset [kUbUseless] f) [kInactive] = flags_test f [kInactive]"
  "flags_test (flags_set [kFixed] f) [kInactive]"
  by (simp_all add: flags_test_unset_disjoint flags_test_set flag_defs)

text \<open>A new box of a column, possibly fixed, that is put on the work list when it is inactive.\<close>

lemma marks_ok_parts:
  assumes "marks_ok u" and "getNRows (upd_problem v) = getNRows (upd_problem u)"
    and "getNCols (upd_problem v) = getNCols (upd_problem u)" and "row_flags (upd_problem v) = row_flags (upd_problem u)"
    and "\<And>k. k < getNCols (upd_problem u) \<Longrightarrow> upd_cflag u k [kInactive] \<Longrightarrow> upd_cflag v k [kInactive]"
    and "marks v = marks u \<or> marks v = marks (u\<lparr>deleted_cols := deleted_cols u @ [c]\<rparr>) \<and>
      c < getNCols (upd_problem u) \<and> upd_cflag v c [kInactive]"
  shows "marks_ok v"
  using assms by (auto simp: marks_ok_def marks_def)

lemma markColFixed_marks: "marks (markColFixed c u) = marks (u\<lparr>deleted_cols := deleted_cols u @ [c]\<rparr>)"
  by (simp add: markColFixed_def) (simp add: marks_def on_domains_def on_problem_def on_stats_def)

lemma apply_bound_marks:
  "\<exists>w. apply_bound num type c b u = setColState c [kBoundsModified] w \<and>
    (marks w = marks u \<or> marks w = marks (u\<lparr>deleted_cols := deleted_cols u @ [c]\<rparr>) \<and>
      (c < length (col_flags (upd_domains u)) \<longrightarrow> upd_cflag w c [kInactive]))"
proof -
  have shift: "marks v = marks u \<Longrightarrow> marks (v\<lparr>deleted_cols := deleted_cols v @ [c]\<rparr>) = marks (u\<lparr>deleted_cols := deleted_cols u @ [c]\<rparr>)" for v
    by (simp add: marks_def)
  show ?thesis
    unfolding apply_bound_def Let_def
    by (rule exI, rule conjI [OF refl]) (auto simp: markColFixed_marks inactive_flags intro!: shift)
qed

lemma setColState_update_ok:
  assumes "update_ok u" and "c < getNCols (upd_problem u)"
  shows "update_ok (setColState c fs u)"
  using assms setColState_marks_ok [of u c fs] by (simp add: update_ok_def)

lemma setRowState_update_ok:
  assumes "update_ok u" and "r < getNRows (upd_problem u)"
  shows "update_ok (setRowState r fs u)"
  using assms setRowState_marks_ok [of u r fs] by (simp add: update_ok_def)

text \<open>A step that gives one column a new box keeps the invariant when it keeps the activities.\<close>

definition boxed :: "nat \<Rightarrow> problem_update \<Rightarrow> problem_update \<Rightarrow> bool" where
  "boxed c u v \<longleftrightarrow> (\<exists>acts D. upd_problem v = (upd_problem u)\<lparr>row_activities := acts, prob_domains := D\<rparr> \<and>
     all_tracked D (row_coeffs (upd_problem u)) acts \<and>
     length (lower_bounds D) = getNCols (upd_problem u) \<and> length (upper_bounds D) = getNCols (upd_problem u) \<and>
     length (col_flags D) = getNCols (upd_problem u) \<and>
     (\<forall>k<getNCols (upd_problem u). (upd_cflag u k [kInactive] \<longrightarrow> flags_test (col_flags D ! k) [kInactive]) \<and>
        box_ordered D k))"

lemma boxed_update_ok:
  assumes "update_ok u" and "boxed c u v"
    and "marks v = marks u \<or> marks v = marks (u\<lparr>deleted_cols := deleted_cols u @ [c]\<rparr>) \<and>
      c < getNCols (upd_problem u) \<and> upd_cflag v c [kInactive]"
  shows "update_ok v"
proof -
  obtain acts D where v: "upd_problem v = (upd_problem u)\<lparr>row_activities := acts, prob_domains := D\<rparr>"
    and tr: "all_tracked D (row_coeffs (upd_problem u)) acts"
    and len: "length (lower_bounds D) = getNCols (upd_problem u)" "length (upper_bounds D) = getNCols (upd_problem u)"
      "length (col_flags D) = getNCols (upd_problem u)"
    and cols: "\<And>k. k < getNCols (upd_problem u) \<Longrightarrow> upd_cflag u k [kInactive] \<Longrightarrow> flags_test (col_flags D ! k) [kInactive]"
      "\<And>k. k < getNCols (upd_problem u) \<Longrightarrow> box_ordered D k"
    using assms(2) unfolding boxed_def by blast
  have u: "problem_ok (upd_problem u)" "storages_ok (upd_problem u)" "sorted_lines (upd_problem u)" "marks_ok u"
    using assms(1) by (simp_all add: update_ok_def)
  have dims: "getNRows (upd_problem v) = getNRows (upd_problem u)" "getNCols (upd_problem v) = getNCols (upd_problem u)"
    "row_flags (upd_problem v) = row_flags (upd_problem u)"
    by (simp_all add: v getNRows_def getNCols_def)
  have "length acts = length (row_activities (upd_problem u))"
    using tr u(2) by (simp add: all_tracked_def storages_ok_def getNRows_def)
  moreover have "marks_ok v"
    by (rule marks_ok_parts [OF u(4) dims _ assms(3)]) (simp add: v cols(1))
  ultimately show ?thesis
    using u problem_ok_parts [OF u(1) len tr] cols(2) by (simp add: update_ok_def v getNCols_def)
qed

lemma fixed_flag_box: "box_ordered (set_col_flag c [kFixed] d) k = box_ordered d k"
  by (simp add: box_ordered_def bound_is_inf_def fixed_flag_test_at del: col_flag_fields(3))

lemma cut_box_ordered:
  assumes "col_ok d c" and "fl \<in> {inf_flag type, useless_flag type}" and "box_ordered d k"
    and "bound_is_inf (opposite type) d c \<or> \<not> tighter type b (old_bound (opposite type) d c)"
  shows "box_ordered (set_bound_value type c b (unset_col_flag c [fl] d)) k"
proof (cases "k = c")
  case True
  have "c < length (col_flags d)" "c < length (lower_bounds d)" "c < length (upper_bounds d)"
    using assms(1) by (simp_all add: col_ok_def)
  with True assms(2,4) show ?thesis
    by (cases type) (auto simp: box_ordered_def bound_is_inf_def tighter_def opposite_def old_bound_def unset_flag_tests)
next
  case False
  with assms(3) show ?thesis by (simp add: box_ordered_def bound_is_inf_def)
qed

lemma fixed_inactive:
  "flags_test (col_flags d ! k) [kInactive] \<Longrightarrow> flags_test (col_flags (set_col_flag c [kFixed] d) ! k) [kInactive]"
  by (cases "c = k"; cases "c < length (col_flags d)") (simp_all add: inactive_flags list_update_beyond)

lemma cut_inactive:
  assumes "fl \<in> {inf_flag type, useless_flag type}" and "flags_test (col_flags d ! k) [kInactive]"
  shows "flags_test (col_flags (set_bound_value type c b (unset_col_flag c [fl] d)) ! k) [kInactive]"
proof -
  have "flags_test (flags_unset [fl] f) [kInactive] = flags_test f [kInactive]" for f
    using assms(1) by (cases type) (auto simp: flags_test_unset_disjoint flag_defs)
  then show ?thesis
    using assms(2) by (cases "c = k"; cases "c < length (col_flags d)") (simp_all add: list_update_beyond)
qed

lemma apply_bound_update_ok:
  assumes "update_ok u" and "c < getNCols (upd_problem u)" and "\<not> isHugeVal num b"
    and "bound_is_inf (opposite type) (upd_domains u) c \<or> \<not> tighter type b (old_bound (opposite type) (upd_domains u) c)"
  shows "update_ok (apply_bound num type c b u)"
proof -
  let ?d = "upd_domains u" and ?n = "getNCols (upd_problem u)"
  have pok: "problem_ok (upd_problem u)" using assms(1) by (simp add: update_ok_def)
  have len: "length (col_flags ?d) = ?n" "length (lower_bounds ?d) = ?n" "length (upper_bounds ?d) = ?n"
    using pok by (simp_all add: problem_ok_def)
  obtain w where w: "apply_bound num type c b u = setColState c [kBoundsModified] w"
    and marks: "marks w = marks u \<or> marks w = marks (u\<lparr>deleted_cols := deleted_cols u @ [c]\<rparr>) \<and>
      (c < length (col_flags ?d) \<longrightarrow> upd_cflag w c [kInactive])"
    using apply_bound_marks by blast
  obtain acts D fl where fl: "fl \<in> {inf_flag type, useless_flag type}"
    and D: "D \<in> {set_bound_value type c b (unset_col_flag c [fl] ?d),
        set_col_flag c [kFixed] (set_bound_value type c b (unset_col_flag c [fl] ?d))}"
    and p: "upd_problem w = (upd_problem u)\<lparr>row_activities := acts, prob_domains := D\<rparr>"
    and tr: "all_tracked D (row_coeffs (upd_problem u)) acts"
    using apply_bound_problem [OF pok assms(2), of type b num] assms(3) unfolding w by auto
  have inactive: "flags_test (col_flags D ! k) [kInactive]" if "flags_test (col_flags ?d ! k) [kInactive]" for k
    using D cut_inactive [OF fl that] fixed_inactive by blast
  have boxes: "\<forall>k<?n. box_ordered ?d k" using assms(1) by (simp add: update_ok_def)
  have box: "box_ordered D k" if "k < ?n" for k
  proof -
    have "col_ok ?d c" using len assms(2) by (simp add: col_ok_def)
    from cut_box_ordered [OF this fl _ assms(4)] boxes that
    have "box_ordered (set_bound_value type c b (unset_col_flag c [fl] ?d)) k" by blast
    with D show ?thesis using fixed_flag_box by blast
  qed
  have lenD: "length (lower_bounds D) = ?n" "length (upper_bounds D) = ?n" "length (col_flags D) = ?n"
    using D len by auto
  have "boxed c u w"
    unfolding boxed_def using p tr lenD inactive box by blast
  then have "update_ok w"
    using boxed_update_ok [OF assms(1), of c w] marks assms(2) len(1) by auto
  then show ?thesis unfolding w by (rule setColState_update_ok) (use assms(2) in \<open>simp add: p getNCols_def\<close>)
qed

lemma change_bound_update_ok:
  assumes "update_ok u" and "c < getNCols (upd_problem u)" and "\<not> isHugeVal num (rounded_bound num type u c v)"
    and "bound_is_inf (opposite type) (upd_domains u) c \<or> \<not> isHugeVal num (old_bound (opposite type) (upd_domains u) c)"
  shows "update_ok (snd (change_bound num type c v u))"
proof -
  let ?nb = "rounded_bound num type u c v" and ?opp = "old_bound (opposite type) (upd_domains u) c"
    and ?inf = "bound_is_inf (opposite type) (upd_domains u) c"
  have count: "update_ok (count_bound u)" using assms(1) update_ok_cong [of "count_bound u" u] by simp
  have n: "c < getNCols (upd_problem (count_bound u))" using assms(2) by simp
  have mine: "update_ok (apply_bound num type c ?nb (count_bound u))" if "?inf \<or> \<not> tighter type ?nb ?opp"
    using apply_bound_update_ok [OF count n assms(3), of type] that by simp
  have capped: "update_ok (apply_bound num type c ?opp (count_bound u))" if "\<not> ?inf"
    using apply_bound_update_ok [OF count n, of num ?opp type] assms(4) that tighter_asym [of type ?opp ?opp] by auto
  show ?thesis
    unfolding change_bound_form Let_def using assms(1) count mine capped by simp
qed

section \<open>Fixed columns\<close>

lemma with_bound_lengths:
  assumes "problem_ok p"
  shows "length (lower_bounds (with_bound type c b (prob_domains p))) = getNCols p"
    "length (upper_bounds (with_bound type c b (prob_domains p))) = getNCols p"
    "length (col_flags (with_bound type c b (prob_domains p))) = getNCols p"
  using assms by (simp_all add: with_bound_alt problem_ok_def)

lemma fix_side_problem:
  assumes "problem_ok (upd_problem u)" and "c < getNCols (upd_problem u)"
  shows "\<exists>acts. upd_problem (fix_side type c v u) =
      (upd_problem u)\<lparr>row_activities := acts, prob_domains := with_bound type c v (upd_domains u)\<rparr> \<and>
    problem_ok (upd_problem (fix_side type c v u))"
proof -
  obtain acts where acts: "upd_problem (update_bound_activities type c v u) = (upd_problem u)\<lparr>row_activities := acts\<rparr>"
    "all_tracked (with_bound type c v (upd_domains u)) (row_coeffs (upd_problem u)) acts"
    using update_bound_activities_problem [OF assms] by blast
  have eq: "unset_col_flag c [useless_flag type] (set_bound_value type c v d) = with_bound type c v d" for d
    by (cases type) (simp_all add: with_bound_alt set_bound_value_def unset_col_flag_def)
  have p: "upd_problem (fix_side type c v u) =
      (upd_problem u)\<lparr>row_activities := acts, prob_domains := with_bound type c v (upd_domains u)\<rparr>"
    by (simp add: fix_side_def acts(1) eq)
  then show ?thesis
    using problem_ok_parts [OF assms(1) with_bound_lengths [OF assms(1)] acts(2)] by auto
qed

text \<open>The column after the bounds of both sides were set, and the result of \<open>fixCol\<close>.\<close>

definition count_bounds :: "bool \<Rightarrow> bool \<Rightarrow> problem_update \<Rightarrow> problem_update" where
  "count_bounds l h u = (let u1 = (if l then count_bound u else u) in if h then count_bound u1 else u1)"

lemma count_bounds_parts [simp]: "upd_problem (count_bounds l h u) = upd_problem u" "marks (count_bounds l h u) = marks u"
  by (simp_all add: count_bounds_def)

definition fix_sides :: "bool \<Rightarrow> bool \<Rightarrow> nat \<Rightarrow> rat \<Rightarrow> problem_update \<Rightarrow> problem_update" where
  "fix_sides lbchanged ubchanged c v u =
     (let u1 = (if lbchanged then fix_side kLower c v u else u) in if ubchanged then fix_side kUpper c v u1 else u1)"

lemma fixCol_form:
  "fixCol num c v u =
    (let d = upd_domains u;
         lbchanged = (bound_is_inf kLower d c \<or> v \<noteq> lower_bounds d ! c);
         ubchanged = (bound_is_inf kUpper d c \<or> v \<noteq> upper_bounds d ! c);
         u2 = count_bounds lbchanged ubchanged u
     in if upd_cflag u c [kSubstituted] then (kUnchanged, u)
        else if \<not> lbchanged \<and> \<not> ubchanged then (kUnchanged, u2)
        else if (\<not> bound_is_inf kLower d c \<and> isFeasLT num v (lower_bounds d ! c)) \<or>
            (\<not> bound_is_inf kUpper d c \<and> isFeasGT num v (upper_bounds d ! c)) \<or>
            (upd_cflag u c [kIntegral] \<and> \<not> isFeasIntegral num v) then (kInfeasibleStatus, u2)
        else if upd_cflag u c [kFixed] then (kUnchanged, u2)
        else (kReduced, setColState c [kBoundsModified] (markColFixed c (fix_sides lbchanged ubchanged c v u2))))"
  by (auto simp: fixCol_def bound_is_inf_def fix_sides_def count_bounds_def Let_def)

definition fixed_box :: "bool \<Rightarrow> bool \<Rightarrow> nat \<Rightarrow> rat \<Rightarrow> variable_domains \<Rightarrow> variable_domains" where
  "fixed_box lbchanged ubchanged c v d =
     (let d1 = (if lbchanged then with_bound kLower c v d else d) in if ubchanged then with_bound kUpper c v d1 else d1)"

lemma fix_sides_problem:
  assumes "problem_ok (upd_problem u)" and "c < getNCols (upd_problem u)"
  shows "\<exists>acts. upd_problem (fix_sides l h c v u) =
      (upd_problem u)\<lparr>row_activities := acts, prob_domains := fixed_box l h c v (upd_domains u)\<rparr> \<and>
    problem_ok (upd_problem (fix_sides l h c v u))"
proof -
  let ?u1 = "if l then fix_side kLower c v u else u"
  obtain acts where p1: "upd_problem ?u1 = (upd_problem u)\<lparr>row_activities := acts,
      prob_domains := if l then with_bound kLower c v (upd_domains u) else upd_domains u\<rparr>" "problem_ok (upd_problem ?u1)"
  proof (cases l)
    case True
    with fix_side_problem [OF assms, of kLower v] that show ?thesis by auto
  next
    case False
    with assms(1) that [of "row_activities (upd_problem u)"] show ?thesis by simp
  qed
  have "c < getNCols (upd_problem ?u1)" unfolding p1(1) using assms(2) by (simp add: getNCols_def)
  from fix_side_problem [OF p1(2) this, of kUpper v] p1 show ?thesis
    by (cases h) (auto simp: fix_sides_def fixed_box_def)
qed

lemma fix_sides_domains [simp]: "upd_domains (fix_sides l h c v u) = fixed_box l h c v (upd_domains u)"
proof -
  have eq: "unset_col_flag c [useless_flag type] (set_bound_value type c v d) = with_bound type c v d" for d type
    by (cases type) (simp_all add: with_bound_alt set_bound_value_def unset_col_flag_def)
  have "upd_domains (fix_side type c v w) = with_bound type c v (upd_domains w)" for type w
    by (simp add: fix_side_def eq del: set_bound_value_fields col_flag_fields)
  then show ?thesis by (simp add: fix_sides_def fixed_box_def Let_def)
qed

lemma fix_sides_marks: "marks (fix_sides l h c v u) = marks u"
  by (simp add: fix_sides_def)

lemma fixed_box_fields:
  assumes "col_ok d c" and "l \<longleftrightarrow> bound_is_inf kLower d c \<or> v \<noteq> lower_bounds d ! c"
    and "h \<longleftrightarrow> bound_is_inf kUpper d c \<or> v \<noteq> upper_bounds d ! c"
  shows "in_col_domain (fixed_box l h c v d) k w = (if k = c then w = v else in_col_domain d k w)"
    and "length (col_flags (fixed_box l h c v d)) = length (col_flags d)"
    and "flags_test (col_flags (fixed_box l h c v d) ! k) [kIntegral, kImplInt] =
      flags_test (col_flags d ! k) [kIntegral, kImplInt]"
    and "flags_test (col_flags (fixed_box l h c v d) ! k) [kInactive] = flags_test (col_flags d ! k) [kInactive]"
    and "box_ordered (fixed_box l h c v d) c"
    and "k \<noteq> c \<Longrightarrow> box_ordered (fixed_box l h c v d) k = box_ordered d k"
proof -
  have c: "c < length (col_flags d)" "c < length (lower_bounds d)" "c < length (upper_bounds d)"
    using assms(1) by (simp_all add: col_ok_def)
  note unset = unset_flag_integral [of kLbUseless] unset_flag_integral [of kUbUseless] inactive_flags unset_flag_tests
  note parts = fixed_box_def with_bound_alt Let_def
  show "length (col_flags (fixed_box l h c v d)) = length (col_flags d)" by (simp add: parts)
  show "flags_test (col_flags (fixed_box l h c v d) ! k) [kIntegral, kImplInt] = flags_test (col_flags d ! k) [kIntegral, kImplInt]"
    "flags_test (col_flags (fixed_box l h c v d) ! k) [kInactive] = flags_test (col_flags d ! k) [kInactive]"
    using c by (cases "k = c"; simp add: parts unset)+
  show "in_col_domain (fixed_box l h c v d) k w = (if k = c then w = v else in_col_domain d k w)"
    using c assms(2,3) by (cases "k = c"; cases l; cases h) (auto simp: parts unset in_col_domain_def bound_is_inf_def)
  show "box_ordered (fixed_box l h c v d) c"
    using c assms(2,3) by (cases l; cases h) (auto simp: parts unset box_ordered_def bound_is_inf_def)
  show "k \<noteq> c \<Longrightarrow> box_ordered (fixed_box l h c v d) k = box_ordered d k"
    by (simp add: parts box_ordered_def bound_is_inf_def)
qed

lemma fixed_problem:
  assumes "problem_ok (upd_problem u)" and "c < getNCols (upd_problem u)"
    and "l \<longleftrightarrow> bound_is_inf kLower (upd_domains u) c \<or> v \<noteq> lower_bounds (upd_domains u) ! c"
    and "h \<longleftrightarrow> bound_is_inf kUpper (upd_domains u) c \<or> v \<noteq> upper_bounds (upd_domains u) ! c"
  shows "in_box (upd_problem (markColFixed c (fix_sides l h c v u))) x \<longleftrightarrow>
      length x = getNCols (upd_problem u) \<and> integral_point (upd_domains u) x \<and>
      x ! c = v \<and> (\<forall>k<getNCols (upd_problem u). k \<noteq> c \<longrightarrow> in_col_domain (upd_domains u) k (x ! k))"
    and "update_ok u \<Longrightarrow> update_ok (markColFixed c (fix_sides l h c v u))"
proof -
  let ?p = "upd_problem u" and ?d = "upd_domains u" and ?w = "markColFixed c (fix_sides l h c v u)"
  let ?D = "fixed_box l h c v ?d"
  have len: "length (col_flags ?d) = getNCols ?p" "length (lower_bounds ?d) = getNCols ?p"
    "length (upper_bounds ?d) = getNCols ?p" using assms(1) by (simp_all add: problem_ok_def)
  then have ok: "col_ok ?d c" using assms(2) by (simp add: col_ok_def)
  note box = fixed_box_fields [OF ok assms(3,4)]
  obtain acts where fp: "upd_problem (fix_sides l h c v u) = ?p\<lparr>row_activities := acts, prob_domains := ?D\<rparr>"
    and pok: "problem_ok (upd_problem (fix_sides l h c v u))"
    using fix_sides_problem [OF assms(1,2)] by blast
  have p: "upd_problem ?w = ?p\<lparr>row_activities := acts, prob_domains := set_col_flag c [kFixed] ?D\<rparr>"
    by (simp add: fp)
  have lenD: "length (lower_bounds ?D) = getNCols ?p" "length (upper_bounds ?D) = getNCols ?p"
    "length (col_flags ?D) = getNCols ?p" using pok by (simp_all add: fp problem_ok_def getNCols_def)
  have "in_domains ?D x \<longleftrightarrow> x ! c = v \<and> (\<forall>k<getNCols ?p. k \<noteq> c \<longrightarrow> in_col_domain ?d k (x ! k))"
    using lenD(3) assms(2) by (auto simp: in_domains_def box(1))
  moreover have "integral_point ?D x = integral_point ?d x" using lenD(3) len(1) by (simp add: integral_point_def box(3))
  ultimately show "in_box (upd_problem ?w) x \<longleftrightarrow> length x = getNCols ?p \<and> integral_point ?d x \<and>
      x ! c = v \<and> (\<forall>k<getNCols ?p. k \<noteq> c \<longrightarrow> in_col_domain ?d k (x ! k))"
    using lenD(3) unfolding p by (subst in_box_parts) (auto simp: fixed_flag_parts)
  show "update_ok ?w" if ok: "update_ok u"
  proof (rule boxed_update_ok [OF ok])
    have "box_ordered ?d k" if "k < getNCols ?p" for k using ok that by (simp add: update_ok_def)
    then have "box_ordered ?D k" if "k < getNCols ?p" for k using that box(5,6) by (cases "k = c") auto
    moreover have "all_tracked ?D (row_coeffs ?p) acts" using pok by (simp add: fp problem_ok_def)
    ultimately show "boxed c u ?w"
      unfolding boxed_def using p lenD fixed_inactive box(4)
      by (intro exI [of _ acts] exI [of _ "set_col_flag c [kFixed] ?D"]) (simp add: fixed_flag_parts fixed_flag_box fixed_inactive)
    show "marks ?w = marks u \<or> marks ?w = marks (u\<lparr>deleted_cols := deleted_cols u @ [c]\<rparr>) \<and>
        c < getNCols ?p \<and> upd_cflag ?w c [kInactive]"
      using assms(2) lenD(3) fix_sides_marks [of l h c v u]
      by (simp add: markColFixed_marks inactive_flags(3) fp) (simp add: marks_def)
  qed
qed

lemma integral_feas: "num_ok num \<Longrightarrow> v \<in> \<int> \<Longrightarrow> isFeasIntegral num v"
proof -
  assume num: "num_ok num" and "v \<in> \<int>"
  then obtain k where "v = of_int k" by (auto elim: Ints_cases)
  moreover have "\<lfloor>rat_of_int k + 1 / 2\<rfloor> = k" by (simp add: floor_eq_iff)
  ultimately show "isFeasIntegral num v" using num by (simp add: isFeasIntegral_def num_round_eq feas.eq_refl del: floor_add2)
qed

lemma integral_flag: "flags_test f [kIntegral] \<Longrightarrow> flags_test f [kIntegral, kImplInt]"
  by (simp add: flag_simps)

lemma in_box_split:
  assumes "problem_ok p" and "c < getNCols p"
  shows "in_box p x \<longleftrightarrow> length x = getNCols p \<and> integral_point (prob_domains p) x \<and>
    in_col_domain (prob_domains p) c (x ! c) \<and>
    (\<forall>k<getNCols p. k \<noteq> c \<longrightarrow> in_col_domain (prob_domains p) k (x ! k))"
proof -
  have "length (prob_cflags p) = getNCols p" using assms(1) by (simp add: problem_ok_def)
  then have "in_domains (prob_domains p) x \<longleftrightarrow> in_col_domain (prob_domains p) c (x ! c) \<and>
      (\<forall>k<getNCols p. k \<noteq> c \<longrightarrow> in_col_domain (prob_domains p) k (x ! k))"
    using assms(2) unfolding in_domains_def by metis
  then show ?thesis unfolding in_box_def by blast
qed

lemma fixCol_sound:
  assumes "problem_ok (upd_problem u)" and "c < getNCols (upd_problem u)" and "num_ok num"
    and "fixCol num c v u = (st, u')"
  shows "(in_box (upd_problem u) x \<and> x ! c = v \<longrightarrow> st \<noteq> kInfeasibleStatus \<and> in_box (upd_problem u') x) \<and>
    (st = kReduced \<and> in_box (upd_problem u') x \<longrightarrow>
       x ! c = v \<and> (in_col_domain (upd_domains u) c v \<longrightarrow> in_box (upd_problem u) x)) \<and>
    (st \<noteq> kReduced \<longrightarrow> upd_problem u' = upd_problem u)"
proof -
  let ?d = "upd_domains u" and ?p = "upd_problem u"
  define l where "l \<longleftrightarrow> bound_is_inf kLower ?d c \<or> v \<noteq> lower_bounds ?d ! c"
  define h where "h \<longleftrightarrow> bound_is_inf kUpper ?d c \<or> v \<noteq> upper_bounds ?d ! c"
  let ?u2 = "count_bounds l h u"
  have inside: "in_col_domain ?d c v" "upd_cflag u c [kIntegral] \<Longrightarrow> v \<in> \<int>" if "in_box ?p x" "x ! c = v"
    using that(2) in_box_split [OF assms(1,2), of x] that(1) point_bounds(2) [OF that(1) assms(1,2)]
      integral_flag [of "col_flags ?d ! c"] by auto
  define bad where "bad \<longleftrightarrow> (\<not> bound_is_inf kLower ?d c \<and> isFeasLT num v (lower_bounds ?d ! c)) \<or>
      (\<not> bound_is_inf kUpper ?d c \<and> isFeasGT num v (upper_bounds ?d ! c)) \<or>
      (upd_cflag u c [kIntegral] \<and> \<not> isFeasIntegral num v)"
  have good: "\<not> bad" if "in_box ?p x" "x ! c = v"
    using inside [OF that] integral_feas [OF assms(3)] feas.lt_less [OF assms(3)] feas.gt_greater [OF assms(3)]
    by (fastforce simp: in_col_domain_def bound_is_inf_def bad_def)
  have fixed: "in_box (upd_problem (markColFixed c (fix_sides l h c v ?u2))) x \<longleftrightarrow>
      length x = getNCols ?p \<and> integral_point ?d x \<and>
      x ! c = v \<and> (\<forall>k<getNCols ?p. k \<noteq> c \<longrightarrow> in_col_domain ?d k (x ! k))"
    by (subst fixed_problem(1)) (use assms(1,2) in \<open>simp_all add: l_def h_def\<close>)
  note form = assms(4) [unfolded fixCol_form Let_def, folded l_def h_def, folded bad_def]
  show ?thesis
  proof (cases "\<not> upd_cflag u c [kSubstituted] \<and> (l \<or> h) \<and> \<not> bad \<and> \<not> upd_cflag u c [kFixed]")
    case True
    then have "st = kReduced" "u' = setColState c [kBoundsModified] (markColFixed c (fix_sides l h c v ?u2))"
      using form by auto
    moreover have "in_box (upd_problem u') x \<longleftrightarrow> in_box (upd_problem (markColFixed c (fix_sides l h c v ?u2))) x"
      by (simp add: calculation(2))
    ultimately show ?thesis using in_box_split [OF assms(1,2), of x] fixed by auto
  next
    case False
    then have "upd_problem u' = ?p" "st \<noteq> kReduced" "st = kInfeasibleStatus \<longrightarrow> bad" using form by (auto split: if_splits)
    then show ?thesis using good by auto
  qed
qed

lemma fixCol_update_ok:
  assumes "update_ok u" and "c < getNCols (upd_problem u)"
  shows "update_ok (snd (fixCol num c v u))"
proof -
  let ?d = "upd_domains u"
  define l where "l \<longleftrightarrow> bound_is_inf kLower ?d c \<or> v \<noteq> lower_bounds ?d ! c"
  define h where "h \<longleftrightarrow> bound_is_inf kUpper ?d c \<or> v \<noteq> upper_bounds ?d ! c"
  let ?u2 = "count_bounds l h u"
  have count: "update_ok (count_bounds a b u)" for a b using assms(1) update_ok_cong [of "count_bounds a b u" u] by simp
  note u2 = count [of l h]
  have p: "problem_ok (upd_problem ?u2)" "c < getNCols (upd_problem ?u2)" using u2 assms(2) by (simp_all add: update_ok_def)
  have "update_ok (markColFixed c (fix_sides l h c v ?u2))"
    by (rule fixed_problem(2) [OF p _ _ u2]) (simp_all add: l_def h_def)
  moreover from this have "update_ok (setColState c [kBoundsModified] (markColFixed c (fix_sides l h c v ?u2)))"
    by (rule setColState_update_ok) (use fix_sides_problem [OF p, of l h v] p(2) in \<open>auto simp: getNCols_def\<close>)
  ultimately show ?thesis
    using assms(1) count unfolding fixCol_form Let_def l_def [symmetric] h_def [symmetric] by (cases l; cases h; simp)
qed

section \<open>Exact arithmetic\<close>

text \<open>
  With the tolerances of exact arithmetic the changes are equivalences, as long as the column has not
  been substituted and was not fixed at infinity.
\<close>

definition exact :: "Num \<Rightarrow> bool" where "exact num \<longleftrightarrow> epsilon num = 0 \<and> feastol num = 0"

lemma exact_num_ok: "exact num \<Longrightarrow> num_ok num"
  by (simp add: exact_def num_ok_def)

definition col_live :: "variable_domains \<Rightarrow> nat \<Rightarrow> bool" where
  "col_live d c \<longleftrightarrow> \<not> flags_test (col_flags d ! c) [kSubstituted] \<and>
     (flags_test (col_flags d ! c) [kFixed] \<longrightarrow> \<not> bound_is_inf kLower d c \<and> \<not> bound_is_inf kUpper d c \<and>
        lower_bounds d ! c = upper_bounds d ! c)"

lemma rounded_tighter: "feastol num = 0 \<Longrightarrow> respects_bound type (rounded_bound num type u c v) w \<Longrightarrow> respects_bound type v w"
  by (cases type) (auto simp: rounded_bound_def respects_bound_def feasCeil_def feasFloor_def rational_ceil_eq rational_floor_eq
      split: if_splits intro: order_trans [OF le_of_int_ceiling] order_trans [OF _ of_int_floor_le])

lemma change_bound_exact:
  assumes "problem_ok (upd_problem u)" and "c < getNCols (upd_problem u)" and "exact num"
    and "box_ordered (upd_domains u) c" and "change_bound num type c v u = (st, u')" and "\<not> upd_cflag u c [kSubstituted]"
  shows "st \<noteq> kInfeasibleStatus \<and> in_box (upd_problem u') x \<longleftrightarrow> in_box (upd_problem u) x \<and> respects_bound type v (x ! c)"
proof -
  have tol: "feastol num = 0" using assms(3) by (simp add: exact_def)
  then have "feas_tighter num type a b = tighter type a b" for a b
    by (cases type) (simp_all add: feas_tighter_def tighter_def tol_simps)
  then show ?thesis
    using change_bound_sound [OF assms(1,2) exact_num_ok [OF assms(3)] assms(4,5), of x] assms(6)
      rounded_tighter [OF tol, of type u c v "x ! c"] by (auto simp: bound_holds_tighter)
qed

lemma fixCol_exact:
  assumes "problem_ok (upd_problem u)" and "c < getNCols (upd_problem u)" and "exact num"
    and "fixCol num c v u = (st, u')" and "col_live (upd_domains u) c"
  shows "st \<noteq> kInfeasibleStatus \<and> in_box (upd_problem u') x \<longleftrightarrow> in_box (upd_problem u) x \<and> x ! c = v"
proof -
  let ?d = "upd_domains u"
  define l where "l \<longleftrightarrow> bound_is_inf kLower ?d c \<or> v \<noteq> lower_bounds ?d ! c"
  define h where "h \<longleftrightarrow> bound_is_inf kUpper ?d c \<or> v \<noteq> upper_bounds ?d ! c"
  define bad where "bad \<longleftrightarrow> (\<not> bound_is_inf kLower ?d c \<and> isFeasLT num v (lower_bounds ?d ! c)) \<or>
      (\<not> bound_is_inf kUpper ?d c \<and> isFeasGT num v (upper_bounds ?d ! c)) \<or>
      (upd_cflag u c [kIntegral] \<and> \<not> isFeasIntegral num v)"
  note form = assms(4) [unfolded fixCol_form Let_def, folded l_def h_def, folded bad_def]
  note all = fixCol_sound [OF assms(1,2) exact_num_ok [OF assms(3)] assms(4), of x]
  note sound = conjunct1 [OF all] conjunct1 [OF conjunct2 [OF all]] conjunct2 [OF conjunct2 [OF all]]
  have tol: "feastol num = 0" using assms(3) by (simp add: exact_def)
  have live: "\<not> upd_cflag u c [kSubstituted]" using assms(5) by (simp add: col_live_def)
  have box: "in_col_domain ?d c v" if "\<not> bad"
    using that tol by (auto simp: bad_def in_col_domain_def bound_is_inf_def tol_simps not_less)
  have mine: "in_col_domain ?d c (x ! c)" if "in_box (upd_problem u) x" using that in_box_split [OF assms(1,2)] by simp
  consider (inf) "st = kInfeasibleStatus" | (red) "st = kReduced" "\<not> bad"
    | (none) "st = kUnchanged" "\<not> l" "\<not> h" | (fixed) "st = kUnchanged" "upd_cflag u c [kFixed]" "\<not> bad"
    using form live by (auto split: if_splits)
  then show ?thesis
  proof cases
    case inf
    with sound(1) show ?thesis by blast
  next
    case red
    with sound(1,2) box [OF red(2)] show ?thesis by blast
  next
    case none
    then have "x ! c = v" if "in_box (upd_problem u) x"
      using mine [OF that] by (auto simp: l_def h_def in_col_domain_def bound_is_inf_def)
    moreover have "upd_problem u' = upd_problem u" using sound(3) none(1) by simp
    ultimately show ?thesis using sound(1) by auto
  next
    case fixed
    then have "x ! c = v" if "in_box (upd_problem u) x"
      using mine [OF that] box assms(5) by (auto simp: in_col_domain_def bound_is_inf_def col_live_def)
    moreover have "upd_problem u' = upd_problem u" using sound(3) fixed(1) by simp
    ultimately show ?thesis using sound(1) by auto
  qed
qed

section \<open>What a bound change leaves alone\<close>

text \<open>Only the activities and the domains change, and of the column only the bounds and the flags.\<close>

definition rebounded :: "problem \<Rightarrow> problem \<Rightarrow> bool" where
  "rebounded p q \<longleftrightarrow> q\<lparr>row_activities := row_activities p, prob_domains := prob_domains p\<rparr> = p"

lemma rebounded_refl [simp]: "rebounded p p"
  by (simp add: rebounded_def)

lemma rebounded_trans: "rebounded p q \<Longrightarrow> rebounded q r \<Longrightarrow> rebounded p r"
  unfolding rebounded_def by (metis problem.update_convs(10) problem.update_convs(11) problem.surjective problem.select_convs)

lemma rebounded_fields:
  assumes "rebounded p q"
  shows "row_coeffs q = row_coeffs p" "col_coeffs q = col_coeffs p" "lhs_values q = lhs_values p"
    "rhs_values q = rhs_values p" "row_flags q = row_flags p" "rowsize q = rowsize p" "colsize q = colsize p"
    "obj_coeffs q = obj_coeffs p" "obj_offset q = obj_offset p" "getNRows q = getNRows p" "getNCols q = getNCols p"
  using assms unfolding rebounded_def getNRows_def getNCols_def
  by (metis (no_types, lifting) problem.ext_inject problem.surjective problem.update_convs(10) problem.update_convs(11))+

lemma rebounded_steps [simp]:
  "rebounded p (p\<lparr>row_activities := acts\<rparr>)" "rebounded p (p\<lparr>prob_domains := D\<rparr>)"
  "rebounded p (p\<lparr>row_activities := acts, prob_domains := D\<rparr>)"
  by (simp_all add: rebounded_def)

lemma update_bound_activities_rebounded: "rebounded (upd_problem u) (upd_problem (update_bound_activities type c b u))"
  by (simp add: update_bound_activities_def Let_def split: prod.split)

lemma rebounded_domains:
  "rebounded p (upd_problem u) \<Longrightarrow> rebounded p (upd_problem (on_domains f u))"
  by (rule rebounded_trans, assumption) simp

lemma fix_side_rebounded: "rebounded (upd_problem u) (upd_problem (fix_side type c v u))"
  unfolding fix_side_def by (intro rebounded_domains) (simp add: update_bound_activities_rebounded)

lemma apply_bound_rebounded: "rebounded (upd_problem u) (upd_problem (apply_bound num type c b u))"
proof -
  have fixed: "rebounded p (upd_problem w) \<Longrightarrow> rebounded p (upd_problem (markColFixed c w))" for p w
    by (rule rebounded_trans, assumption) simp
  let ?u1 = "if \<not> isHugeVal num b then on_domains (unset_col_flag c [useless_flag type]) (update_bound_activities type c b u)
    else on_domains (unset_col_flag c [inf_flag type]) u"
  let ?u2 = "on_storage (storeVarBoundChange (type = kLower) c (old_bound type (upd_domains ?u1) c)
    (bound_is_inf type (upd_domains u) c) b) ?u1"
  let ?u3 = "on_domains (set_bound_value type c b) ?u2"
  have "rebounded (upd_problem u) (upd_problem ?u1)"
    using rebounded_domains [OF update_bound_activities_rebounded] rebounded_domains [OF rebounded_refl] by presburger
  then have "rebounded (upd_problem u) (upd_problem ?u2)" by (simp only: on_parts)
  then have 3: "rebounded (upd_problem u) (upd_problem ?u3)" by (rule rebounded_domains)
  show ?thesis
    unfolding apply_bound_def Let_def on_parts(5) if_distrib [of upd_problem]
    using 3 fixed [OF 3] by presburger
qed

lemma change_bound_rebounded: "rebounded (upd_problem u) (upd_problem (snd (change_bound num type c v u)))"
  using apply_bound_rebounded [of "count_bound u"] by (simp add: change_bound_form Let_def)

lemma fixCol_result:
  assumes "P u" and "\<And>l h. P (count_bounds l h u)"
    and "\<And>l h. l = (bound_is_inf kLower (upd_domains u) c \<or> v \<noteq> lower_bounds (upd_domains u) ! c) \<Longrightarrow>
      h = (bound_is_inf kUpper (upd_domains u) c \<or> v \<noteq> upper_bounds (upd_domains u) ! c) \<Longrightarrow>
      P (setColState c [kBoundsModified] (markColFixed c (fix_sides l h c v (count_bounds l h u))))"
  shows "P (snd (fixCol num c v u))"
proof -
  define l where "l = (bound_is_inf kLower (upd_domains u) c \<or> v \<noteq> lower_bounds (upd_domains u) ! c)"
  define h where "h = (bound_is_inf kUpper (upd_domains u) c \<or> v \<noteq> upper_bounds (upd_domains u) ! c)"
  have "P (snd (if a then (s1, u) else if b then (s2, count_bounds l h u) else if d then (s3, count_bounds l h u)
      else if e then (s4, count_bounds l h u)
      else (s5, setColState c [kBoundsModified] (markColFixed c (fix_sides l h c v (count_bounds l h u))))))"
    for a b d e and s1 s2 s3 s4 s5 :: PresolveStatus
    using assms(1,2) assms(3) [OF l_def h_def] by simp
  then show ?thesis unfolding fixCol_form Let_def l_def [symmetric] h_def [symmetric] by this
qed

lemma fixCol_rebounded: "rebounded (upd_problem u) (upd_problem (snd (fixCol num c v u)))"
proof -
  have sides: "rebounded (upd_problem w) (upd_problem (fix_sides l h c v w))" for l h w
  proof -
    let ?w1 = "if l then fix_side kLower c v w else w"
    have 1: "rebounded (upd_problem w) (upd_problem ?w1)" by (cases l) (simp_all only: if_True if_False fix_side_rebounded rebounded_refl)
    from rebounded_trans [OF 1 fix_side_rebounded [of ?w1 kUpper c v]] 1 show ?thesis
      unfolding fix_sides_def Let_def by (cases h) (simp_all only: if_True if_False)
  qed
  have "rebounded (upd_problem w) (upd_problem (setColState c [kBoundsModified] (markColFixed c (fix_sides l h c v w))))" for l h w
    by (rule rebounded_trans [OF sides [of w l h]]) simp
  from this [of "count_bounds l h u" l h for l h]
  have "rebounded (upd_problem u) (upd_problem (setColState c [kBoundsModified] (markColFixed c (fix_sides l h c v (count_bounds l h u)))))" for l h
    by (simp only: count_bounds_parts)
  then show ?thesis by (intro fixCol_result [where P = "\<lambda>w. rebounded (upd_problem u) (upd_problem w)"]) (simp_all only: rebounded_refl count_bounds_parts)
qed

lemma rebounded_solves:
  assumes "rebounded p q"
  shows "solves q x \<longleftrightarrow> active_rows_satisfied p x \<and> in_box q x"
  using rebounded_fields [OF assms] by (auto simp: solves_def in_box_def active_rows_satisfied_def)

subsection \<open>Live and tidy columns\<close>

definition tidy_col :: "Num \<Rightarrow> variable_domains \<Rightarrow> nat \<Rightarrow> bool" where
  "tidy_col num d c \<longleftrightarrow> (\<forall>type. bound_is_inf type d c \<or> \<not> isHugeVal num (old_bound type d c))"

definition same_col :: "variable_domains \<Rightarrow> variable_domains \<Rightarrow> nat \<Rightarrow> bool" where
  "same_col d d' k \<longleftrightarrow> col_flags d' ! k = col_flags d ! k \<and> lower_bounds d' ! k = lower_bounds d ! k \<and>
     upper_bounds d' ! k = upper_bounds d ! k"

lemma same_colD:
  assumes "same_col d d' k"
  shows "tidy_col num d' k = tidy_col num d k" "col_live d' k = col_live d k"
proof -
  have "bound_is_inf type d' k = bound_is_inf type d k" "old_bound type d' k = old_bound type d k" for type
    using assms by (cases type; simp add: same_col_def bound_is_inf_def old_bound_def)+
  then show "tidy_col num d' k = tidy_col num d k" "col_live d' k = col_live d k"
    using assms by (simp_all add: tidy_col_def col_live_def same_col_def)
qed

lemma domain_steps_same:
  "k \<noteq> c \<Longrightarrow> same_col d (set_col_flag c fs d) k" "k \<noteq> c \<Longrightarrow> same_col d (unset_col_flag c fs d) k"
  "k \<noteq> c \<Longrightarrow> same_col d (set_bound_value type c b d) k" "k \<noteq> c \<Longrightarrow> same_col d (with_bound type c b d) k"
  by (simp_all add: same_col_def with_bound_alt)

lemma same_col_refl [simp]: "same_col d d k"
  by (simp add: same_col_def)

lemma same_col_trans: "same_col d d' k \<Longrightarrow> same_col d' d'' k \<Longrightarrow> same_col d d'' k"
  by (simp add: same_col_def)

lemma box_types: "bound_is_inf type (set_bound_value type' c b d) k = bound_is_inf type d k"
  "bound_is_inf type (set_col_flag c [kFixed] d) k = bound_is_inf type d k"
  "old_bound type (set_col_flag c fs d) k = old_bound type d k"
  by (cases type; simp add: bound_is_inf_def old_bound_def fixed_flag_test_at del: col_flag_fields(3); simp add: set_col_flag_def)+

lemma cut_bounds:
  assumes "col_ok d c" and "fl \<in> {inf_flag type, useless_flag type}"
  shows "\<not> bound_is_inf type (unset_col_flag c [fl] d) c"
    and "bound_is_inf (opposite type) (unset_col_flag c [fl] d) c = bound_is_inf (opposite type) d c"
    and "old_bound type (set_bound_value type c b d) c = b"
    and "old_bound (opposite type) (set_bound_value type c b d) c = old_bound (opposite type) d c"
  using assms by (cases type; auto simp: bound_is_inf_def opposite_def unset_flag_tests col_ok_def old_bound_def)+

lemma both_types: "(\<forall>t. P t) \<longleftrightarrow> P type \<and> P (opposite type)"
  by (cases type) (auto simp: opposite_def intro: BoundChange.exhaust, (metis BoundChange.exhaust)+)

definition cut_box :: "Num \<Rightarrow> BoundChange \<Rightarrow> nat \<Rightarrow> rat \<Rightarrow> variable_domains \<Rightarrow> variable_domains" where
  "cut_box num type c b d =
     set_bound_value type c b (unset_col_flag c [if isHugeVal num b then inf_flag type else useless_flag type] d)"

lemma apply_bound_domains:
  "upd_domains (apply_bound num type c b u) = (let D = cut_box num type c b (upd_domains u) in
     if \<not> bound_is_inf (opposite type) D c \<and> upper_bounds D ! c = lower_bounds D ! c then set_col_flag c [kFixed] D else D)"
proof -
  have "upd_domains (if P then markColFixed c w else w) =
      (if P then set_col_flag c [kFixed] (upd_domains w) else upd_domains w)" for P w by simp
  moreover have "upd_domains (on_domains (set_bound_value type c b) (on_storage h
      (if \<not> isHugeVal num b then on_domains (unset_col_flag c [useless_flag type]) (update_bound_activities type c b u)
       else on_domains (unset_col_flag c [inf_flag type]) u))) = cut_box num type c b (upd_domains u)" for h
    by (simp add: cut_box_def del: set_bound_value_fields col_flag_fields)
  moreover have "flags_test (col_flags D ! c) [case type of kLower \<Rightarrow> kUbInf | kUpper \<Rightarrow> kLbInf] =
      bound_is_inf (opposite type) D c" for D
    by (cases type) (simp_all add: bound_is_inf_def opposite_def)
  ultimately show ?thesis
    unfolding apply_bound_def Let_def by (simp del: set_bound_value_fields col_flag_fields on_parts(2) markColFixed_problem)
qed

lemma apply_bound_cols:
  assumes "col_ok (upd_domains u) c"
  shows "k \<noteq> c \<Longrightarrow> same_col (upd_domains u) (upd_domains (apply_bound num type c b u)) k"
    and "tidy_col num (upd_domains u) c \<Longrightarrow> \<not> isHugeVal num b \<Longrightarrow>
      tidy_col num (upd_domains (apply_bound num type c b u)) c"
    and "col_live (upd_domains u) c \<Longrightarrow> \<not> upd_cflag u c [kFixed] \<Longrightarrow>
      col_live (upd_domains (apply_bound num type c b u)) c"
proof -
  let ?d = "upd_domains u" and ?D = "cut_box num type c b (upd_domains u)"
  define fl where "fl = (if isHugeVal num b then inf_flag type else useless_flag type)"
  have fl: "fl \<in> {inf_flag type, useless_flag type}" by (simp add: fl_def)
  have D: "?D = set_bound_value type c b (unset_col_flag c [fl] ?d)" by (simp add: cut_box_def fl_def)
  show "same_col ?d (upd_domains (apply_bound num type c b u)) k" if "k \<noteq> c"
  proof -
    have cut: "same_col ?d ?D k" unfolding D by (rule same_col_trans [OF domain_steps_same(2) [OF that] domain_steps_same(3) [OF that]])
    show ?thesis
      unfolding apply_bound_domains Let_def using cut same_col_trans [OF cut domain_steps_same(1) [OF that]] by presburger
  qed
  have ok: "col_ok (unset_col_flag c [fl] ?d) c" using assms by (simp add: col_ok_def)
  note cut = cut_bounds [OF assms fl] cut_bounds(3,4) [OF ok fl]
  show "tidy_col num (upd_domains (apply_bound num type c b u)) c" if "tidy_col num ?d c" "\<not> isHugeVal num b"
    using that unfolding tidy_col_def both_types [of _ type] apply_bound_domains D Let_def
    by (auto simp: box_types cut simp del: set_bound_value_fields col_flag_fields)
  have flags: "flags_test (flags_unset [fl] f) [kFixed] = flags_test f [kFixed]"
    "flags_test (flags_unset [fl] f) [kSubstituted] = flags_test f [kSubstituted]"
    "flags_test (flags_set [kFixed] f) [kSubstituted] = flags_test f [kSubstituted]" for f
    using fl by (cases type; auto simp: flags_test_unset_disjoint flags_test_set flag_defs)+
  show "col_live (upd_domains (apply_bound num type c b u)) c" if "col_live ?d c" "\<not> upd_cflag u c [kFixed]"
  proof -
    have "bound_is_inf kLower D c \<or> bound_is_inf kUpper D c \<longleftrightarrow> bound_is_inf type D c \<or> bound_is_inf (opposite type) D c" for D
      by (cases type) (auto simp: opposite_def)
    moreover have "\<not> bound_is_inf type ?D c" by (simp add: D box_types cut(1))
    moreover have "c < length (col_flags ?d)" using assms by (simp add: col_ok_def)
    ultimately show ?thesis
      using that unfolding col_live_def apply_bound_domains Let_def
      by (cases "\<not> bound_is_inf (opposite type) ?D c \<and> upper_bounds ?D ! c = lower_bounds ?D ! c")
        (auto simp: box_types flags D simp del: set_bound_value_fields(2,3))
  qed
qed

lemma change_bound_result:
  assumes "P u" and "P (count_bound u)"
    and "\<not> bound_is_inf (opposite type) (upd_domains u) c \<Longrightarrow>
      bound_is_inf type (upd_domains u) c \<or> old_bound type (upd_domains u) c \<noteq> old_bound (opposite type) (upd_domains u) c \<Longrightarrow>
      P (apply_bound num type c (old_bound (opposite type) (upd_domains u) c) (count_bound u))"
    and "bound_is_inf type (upd_domains u) c \<or> tighter type (rounded_bound num type u c v) (old_bound type (upd_domains u) c) \<Longrightarrow>
      bound_is_inf (opposite type) (upd_domains u) c \<or>
        \<not> tighter type (rounded_bound num type u c v) (old_bound (opposite type) (upd_domains u) c) \<Longrightarrow>
      P (apply_bound num type c (rounded_bound num type u c v) (count_bound u))"
  shows "P (snd (change_bound num type c v u))"
  unfolding change_bound_form Let_def using assms by simp

lemma live_fixed:
  assumes "col_live d c" and "flags_test (col_flags d ! c) [kFixed]"
  shows "\<not> bound_is_inf type d c" "old_bound type d c = old_bound (opposite type) d c"
  using assms by (cases type; simp add: col_live_def old_bound_def opposite_def)+

lemma change_bound_cols:
  assumes "col_ok (upd_domains u) c"
  shows "k \<noteq> c \<Longrightarrow> same_col (upd_domains u) (upd_domains (snd (change_bound num type c v u))) k"
    and "tidy_col num (upd_domains u) c \<Longrightarrow> \<not> isHugeVal num (rounded_bound num type u c v) \<Longrightarrow>
      tidy_col num (upd_domains (snd (change_bound num type c v u))) c"
    and "col_live (upd_domains u) c \<Longrightarrow> col_live (upd_domains (snd (change_bound num type c v u))) c"
proof -
  have dom: "upd_domains (count_bound u) = upd_domains u" by simp
  have ok: "col_ok (upd_domains (count_bound u)) c" using assms by simp
  note cols = apply_bound_cols [OF ok, unfolded dom]
  show "same_col (upd_domains u) (upd_domains (snd (change_bound num type c v u))) k" if "k \<noteq> c"
    by (rule change_bound_result [where P = "\<lambda>w. same_col (upd_domains u) (upd_domains w) k"])
      (simp_all add: cols(1) [OF that])
  show "tidy_col num (upd_domains (snd (change_bound num type c v u))) c"
    if "tidy_col num (upd_domains u) c" "\<not> isHugeVal num (rounded_bound num type u c v)"
  proof (rule change_bound_result [where P = "\<lambda>w. tidy_col num (upd_domains w) c"])
    assume "\<not> bound_is_inf (opposite type) (upd_domains u) c"
    then have "\<not> isHugeVal num (old_bound (opposite type) (upd_domains u) c)" using that(1) by (auto simp: tidy_col_def)
    then show "tidy_col num (upd_domains (apply_bound num type c (old_bound (opposite type) (upd_domains u) c) (count_bound u))) c"
      by (rule cols(2) [OF that(1)])
  qed (use that cols(2) in simp_all)
  show "col_live (upd_domains (snd (change_bound num type c v u))) c" if live: "col_live (upd_domains u) c"
  proof (rule change_bound_result [where P = "\<lambda>w. col_live (upd_domains w) c"])
    assume "\<not> bound_is_inf (opposite type) (upd_domains u) c"
      and "bound_is_inf type (upd_domains u) c \<or> old_bound type (upd_domains u) c \<noteq> old_bound (opposite type) (upd_domains u) c"
    then have "\<not> upd_cflag u c [kFixed]" using live_fixed [OF live, of type] by blast
    then show "col_live (upd_domains (apply_bound num type c (old_bound (opposite type) (upd_domains u) c) (count_bound u))) c"
      using cols(3) live by simp
  next
    assume *: "bound_is_inf type (upd_domains u) c \<or> tighter type (rounded_bound num type u c v) (old_bound type (upd_domains u) c)"
      "bound_is_inf (opposite type) (upd_domains u) c \<or>
        \<not> tighter type (rounded_bound num type u c v) (old_bound (opposite type) (upd_domains u) c)"
    then have "\<not> upd_cflag u c [kFixed]"
      using live_fixed [OF live, of type] live_fixed(1) [OF live, of "opposite type"] by auto
    then show "col_live (upd_domains (apply_bound num type c (rounded_bound num type u c v) (count_bound u))) c"
      using cols(3) live by simp
  qed (use live in simp_all)
qed

lemma fixCol_cols:
  assumes "col_ok (upd_domains u) c"
  shows "k \<noteq> c \<Longrightarrow> same_col (upd_domains u) (upd_domains (snd (fixCol num c v u))) k"
    and "tidy_col num (upd_domains u) c \<Longrightarrow> \<not> isHugeVal num v \<Longrightarrow> tidy_col num (upd_domains (snd (fixCol num c v u))) c"
    and "col_live (upd_domains u) c \<Longrightarrow> col_live (upd_domains (snd (fixCol num c v u))) c"
proof -
  let ?d = "upd_domains u"
  let ?w = "\<lambda>l h. setColState c [kBoundsModified] (markColFixed c (fix_sides l h c v (count_bounds l h u)))"
  have D: "upd_domains (?w l h) = set_col_flag c [kFixed] (fixed_box l h c v ?d)" for l h
    by (simp add: fix_sides_domains del: col_flag_fields)
  note len = assms [unfolded col_ok_def]
  show "same_col ?d (upd_domains (snd (fixCol num c v u))) k" if "k \<noteq> c"
  proof (rule fixCol_result [where P = "\<lambda>w. same_col ?d (upd_domains w) k"])
    show "same_col ?d (upd_domains (?w l h)) k" for l h
      unfolding D using that by (simp add: same_col_def fixed_box_def with_bound_alt Let_def)
  qed simp_all
  have box: "\<not> bound_is_inf type (fixed_box l h c v ?d) c" "old_bound type (fixed_box l h c v ?d) c = v"
    if "l = (bound_is_inf kLower ?d c \<or> v \<noteq> lower_bounds ?d ! c)" "h = (bound_is_inf kUpper ?d c \<or> v \<noteq> upper_bounds ?d ! c)"
    for l h type
    using that len by (cases type; cases l; cases h;
        auto simp: fixed_box_def with_bound_alt Let_def bound_is_inf_def old_bound_def unset_flag_tests)+
  show "tidy_col num (upd_domains (snd (fixCol num c v u))) c" if "tidy_col num ?d c" "\<not> isHugeVal num v"
  proof (rule fixCol_result [where P = "\<lambda>w. tidy_col num (upd_domains w) c"])
    show "tidy_col num (upd_domains (?w l h)) c" if "l = (bound_is_inf kLower ?d c \<or> v \<noteq> lower_bounds ?d ! c)"
      "h = (bound_is_inf kUpper ?d c \<or> v \<noteq> upper_bounds ?d ! c)" for l h
      unfolding D tidy_col_def box_types box(2) [OF that] using \<open>\<not> isHugeVal num v\<close> by simp
  qed (use that in simp_all)
  have sub: "flags_test (col_flags (fixed_box l h c v ?d) ! c) [kSubstituted] = upd_cflag u c [kSubstituted]" for l h
    using len by (simp add: fixed_box_def with_bound_alt Let_def flags_test_unset_disjoint flag_defs)
  have subf: "flags_test (flags_set [kFixed] f) [kSubstituted] = flags_test f [kSubstituted]" for f
    by (simp add: flags_test_set flag_defs)
  show "col_live (upd_domains (snd (fixCol num c v u))) c" if live: "col_live ?d c"
  proof (rule fixCol_result [where P = "\<lambda>w. col_live (upd_domains w) c"])
    fix l h
    assume lh: "l = (bound_is_inf kLower ?d c \<or> v \<noteq> lower_bounds ?d ! c)" "h = (bound_is_inf kUpper ?d c \<or> v \<noteq> upper_bounds ?d ! c)"
    note b = box [OF lh, of kLower] box [OF lh, of kUpper]
    have "c < length (col_flags (fixed_box l h c v ?d))" using len by (simp add: fixed_box_def with_bound_alt Let_def)
    then show "col_live (upd_domains (?w l h)) c"
      using b live sub [of l h] unfolding D col_live_def box_types by (simp add: subf old_bound_def)
  qed (use live in simp_all)
qed

lemma fixCol_verdict:
  assumes "problem_ok (upd_problem u)" and "c < getNCols (upd_problem u)" and "num_ok num"
    and "fixCol num c v u = (st, u')"
  shows "st = kInfeasibleStatus \<and> in_box (upd_problem u) x \<Longrightarrow>
      x ! c \<noteq> v \<and> (useabsfeas num \<longrightarrow> feastol num < \<bar>x ! c - v\<bar>)"
    and "st \<noteq> kInfeasibleStatus \<and> \<not> upd_cflag u c [kSubstituted] \<Longrightarrow>
      \<forall>type. bound_is_inf type (upd_domains u) c \<or> \<not> feas_tighter num (opposite type) v (old_bound type (upd_domains u) c)"
proof -
  let ?d = "upd_domains u"
  have refl: "\<not> isFeasLT num v v" "\<not> isFeasGT num v v"
    using feas.lt_less [OF assms(3), of v v] feas.gt_greater [OF assms(3), of v v] by auto
  show "\<forall>type. bound_is_inf type ?d c \<or> \<not> feas_tighter num (opposite type) v (old_bound type ?d c)"
    if "st \<noteq> kInfeasibleStatus \<and> \<not> upd_cflag u c [kSubstituted]"
    using assms(4) that refl unfolding both_types [of _ kLower]
    by (auto simp: fixCol_form Let_def feas_tighter_def opposite_def old_bound_def split: if_splits)
  assume st: "st = kInfeasibleStatus \<and> in_box (upd_problem u) x"
  then have box: "in_box (upd_problem u) x" ..
  have dom: "in_col_domain ?d c (x ! c)" using in_box_split [OF assms(1,2), of x] box by simp
  have bad: "(\<not> bound_is_inf kLower ?d c \<and> isFeasLT num v (lower_bounds ?d ! c)) \<or>
      (\<not> bound_is_inf kUpper ?d c \<and> isFeasGT num v (upper_bounds ?d ! c)) \<or>
      (upd_cflag u c [kIntegral] \<and> \<not> isFeasIntegral num v)"
    using assms(4) st by (auto simp: fixCol_form Let_def split: if_splits)
  have "feastol num < \<bar>x ! c - v\<bar>" if abs: "useabsfeas num"
  proof (rule ccontr)
    assume "\<not> feastol num < \<bar>x ! c - v\<bar>"
    then have near: "\<bar>x ! c - v\<bar> \<le> feastol num" by simp
    have "isFeasIntegral num v" if "upd_cflag u c [kIntegral]"
      using near_integral [OF abs _ near] point_bounds(2) [OF box assms(1,2)] that integral_flag [of "col_flags ?d ! c"] by auto
    then show False
      using bad near dom abs by (auto simp: in_col_domain_def bound_is_inf_def isFeas_defs)
  qed
  moreover have "x ! c \<noteq> v" using fixCol_sound [OF assms, of x] st by blast
  ultimately show "x ! c \<noteq> v \<and> (useabsfeas num \<longrightarrow> feastol num < \<bar>x ! c - v\<bar>)" by blast
qed

section \<open>The operations on bounds\<close>

text \<open>
  C5. \<open>changeLB\<close> and \<open>changeUB\<close> cut the set of solutions by the bound they are given. Infeasibility
  is reported only when every point of the box lies beyond the (rounded) bound by more than the
  feasibility tolerance; no solution that satisfies the bound is lost; no solution is added; unless
  the column is substituted or infeasibility is reported, every remaining solution respects the rounded
  bound up to the feasibility tolerance. If the bound is not huge and no finite bound of the column is
  huge, the state invariant (matrix, activities, sizes, marks, work lists, boxes) is kept.
\<close>

theorem bound_change_cuts:
  assumes "update_ok u" and "c < getNCols (upd_problem u)" and "num_ok num" and "feastol num < 1"
    and "change_bound num type c v u = (st, u')"
  shows "(st = kInfeasibleStatus \<and> in_box (upd_problem u) x \<longrightarrow>
       \<not> respects_bound type v (x ! c) \<and> feas_tighter num type (rounded_bound num type u c v) (x ! c)) \<and>
    (solves (upd_problem u) x \<and> respects_bound type v (x ! c) \<longrightarrow>
       st \<noteq> kInfeasibleStatus \<and> solves (upd_problem u') x) \<and>
    (solves (upd_problem u') x \<longrightarrow> solves (upd_problem u) x \<and>
       (upd_cflag u c [kSubstituted] \<or> st = kInfeasibleStatus \<or>
        \<not> feas_tighter num type (rounded_bound num type u c v) (x ! c))) \<and>
    (\<not> isHugeVal num (rounded_bound num type u c v) \<and> tidy_col num (upd_domains u) c \<longrightarrow> update_ok u')"
proof -
  have ok: "problem_ok (upd_problem u)" "box_ordered (upd_domains u) c" using assms(1,2) by (simp_all add: update_ok_def)
  have u': "u' = snd (change_bound num type c v u)" using assms(5) by simp
  note reb = change_bound_rebounded [of u num type c v, folded u']
  note sound = change_bound_sound [OF ok(1) assms(2,3) ok(2) assms(5), of x]
  have "feas_tighter num type (rounded_bound num type u c v) (x ! c)"
    if "st = kInfeasibleStatus" "in_box (upd_problem u) x"
    using change_bound_infeasible [OF ok(1) assms(2-4) _ that(2)] assms(5) that(1) by blast
  then show ?thesis
    using sound change_bound_update_ok [OF assms(1,2), of num type v]
      rebounded_solves [OF rebounded_refl [of "upd_problem u"], of x] rebounded_solves [OF reb, of x]
    unfolding u' [symmetric] tidy_col_def by blast
qed

text \<open>
  C6. \<open>fixCol\<close> cuts the set of solutions to the points with the given value. Infeasibility is reported
  only when no point of the box has the value, with absolute tolerances only when none comes within the
  feasibility tolerance of it; a value that is accepted lies within the tolerance of both bounds of the
  column. No solution with the value is lost; when the column is fixed every remaining solution has the
  value, and no solution is added if the value lies in the domain of the column (a value outside of it
  by less than the feasibility tolerance moves the bounds). The state invariant is kept, also for huge
  values.
\<close>

theorem fixCol_cuts:
  assumes "update_ok u" and "c < getNCols (upd_problem u)" and "num_ok num" and "fixCol num c v u = (st, u')"
  shows "(st = kInfeasibleStatus \<and> in_box (upd_problem u) x \<longrightarrow>
       x ! c \<noteq> v \<and> (useabsfeas num \<longrightarrow> feastol num < \<bar>x ! c - v\<bar>)) \<and>
    (st \<noteq> kInfeasibleStatus \<and> \<not> upd_cflag u c [kSubstituted] \<longrightarrow>
       (\<forall>type. bound_is_inf type (upd_domains u) c \<or> \<not> feas_tighter num (opposite type) v (old_bound type (upd_domains u) c))) \<and>
    (solves (upd_problem u) x \<and> x ! c = v \<longrightarrow> st \<noteq> kInfeasibleStatus \<and> solves (upd_problem u') x) \<and>
    (st = kReduced \<and> solves (upd_problem u') x \<longrightarrow>
       x ! c = v \<and> (in_col_domain (upd_domains u) c v \<longrightarrow> solves (upd_problem u) x)) \<and>
    (st \<noteq> kReduced \<longrightarrow> upd_problem u' = upd_problem u) \<and> update_ok u'"
proof -
  have ok: "problem_ok (upd_problem u)" using assms(1) by (simp add: update_ok_def)
  have u': "u' = snd (fixCol num c v u)" using assms(4) by simp
  note reb = fixCol_rebounded [of u num c v, folded u']
  note verdict = fixCol_verdict [OF ok assms(2-4)]
  show ?thesis
    using verdict(1) [of x] verdict(2) fixCol_sound [OF ok assms(2-4), of x]
      fixCol_update_ok [OF assms(1,2), of num v, folded u']
      rebounded_solves [OF rebounded_refl [of "upd_problem u"], of x] rebounded_solves [OF reb, of x] by blast
qed

text \<open>A state to evaluate the operations on.\<close>

definition ex_state :: "problem \<Rightarrow> problem_update" where
  "ex_state p = new_problem_update p 0 (int (getNCols p)) (new_storage p)
     \<lparr>ntsxapplied = 0, ntsxconflicts = 0, nboundchgs = 0, nsidechgs = 0, ncoefchgs = 0, nrounds = 0,
      ndeletedcols = 0, ndeletedrows = 0, consecutive_rounds_of_only_boundchanges = 0,
      single_matrix_coefficient_changes = 0\<rparr> [0] [0]"

lemma ex_state_ok:
  assumes "problem_ok p" and "storages_ok p" and "sorted_lines p" and "\<forall>c<getNCols p. box_ordered (prob_domains p) c"
  shows "update_ok (ex_state p)"
  using assms by (simp add: update_ok_def ex_state_def new_problem_update_def marks_ok_def dirty_ok_def)

lemma ex_matrix_update_ok: "update_ok (ex_state ex_matrix)"
proof (rule ex_state_ok [OF _ ex_matrix_ok])
  show "problem_ok ex_matrix"
    by (auto simp: problem_ok_def matrix_ok_def ex_matrix_def getNCols_def getNRows_def col_of_matrix_def
        all_tracked_def tracks_def part_defs flags_test_def flag_defs less_Suc_eq)
  show "sorted_lines ex_matrix" by (simp add: sorted_lines_def ex_matrix_def sorted_cols_def)
  show "\<forall>c<getNCols ex_matrix. box_ordered (prob_domains ex_matrix) c"
    by (simp add: getNCols_def ex_matrix_def box_ordered_def less_Suc_eq)
qed

theorem bound_change_cuts_witness:
  "solves (upd_problem (snd (changeUB exact_num 1 2 (ex_state ex_matrix)))) [0, 2] \<and>
   update_ok (snd (changeUB exact_num 1 2 (ex_state ex_matrix)))"
proof -
  have "solves (upd_problem (ex_state ex_matrix)) [0, 2]" by code_simp
  moreover have "\<not> isHugeVal exact_num (rounded_bound exact_num kUpper (ex_state ex_matrix) 1 2)" by code_simp
  moreover have "tidy_col exact_num (upd_domains (ex_state ex_matrix)) 1"
    unfolding tidy_col_def both_types [of _ kLower] by code_simp
  moreover have n: "1 < getNCols (upd_problem (ex_state ex_matrix))" and hold: "respects_bound kUpper 2 ([0, 2] ! 1)"
    by code_simp+
  moreover have tol: "feastol exact_num < 1" by code_simp
  moreover have run: "change_bound exact_num kUpper 1 2 (ex_state ex_matrix) =
      (fst (changeUB exact_num 1 2 (ex_state ex_matrix)), snd (changeUB exact_num 1 2 (ex_state ex_matrix)))"
    by (simp add: change_bound_def)
  ultimately show ?thesis
    using bound_change_cuts [OF ex_matrix_update_ok n num_ok_exact tol run, of "[0, 2]"] by blast
qed

theorem fixCol_cuts_witness:
  "fst (fixCol exact_num 1 2 (ex_state ex_matrix)) = kReduced \<and>
   solves (upd_problem (snd (fixCol exact_num 1 2 (ex_state ex_matrix)))) [0, 2]"
proof -
  have "solves (upd_problem (ex_state ex_matrix)) [0, 2]" by code_simp
  moreover have "fst (fixCol exact_num 1 2 (ex_state ex_matrix)) = kReduced" by code_simp
  moreover have n: "1 < getNCols (upd_problem (ex_state ex_matrix))" and hold: "[0, 2] ! 1 = (2 :: rat)" by code_simp+
  ultimately show ?thesis
    using fixCol_cuts [OF ex_matrix_update_ok n num_ok_exact surjective_pairing, where x = "[0, 2]"] by blast
qed

subsection \<open>A huge bound\<close>

lemma unset_inf_useless:
  "flags_test (flags_unset [kLbInf] f) [kLbUseless] = flags_test f [kLbHuge]"
  "flags_test (flags_unset [kUbInf] f) [kUbUseless] = flags_test f [kUbHuge]"
  "flags_test (flags_unset [kLbInf] f) [kUbUseless] = flags_test f [kUbUseless]"
  "flags_test (flags_unset [kUbInf] f) [kLbUseless] = flags_test f [kLbUseless]"
proof -
  have huge: "flags_test (flags_unset [kLbInf] f) [kLbHuge] = flags_test f [kLbHuge]"
    "flags_test (flags_unset [kUbInf] f) [kUbHuge] = flags_test f [kUbHuge]"
    by (simp_all add: flags_test_unset_disjoint flag_defs)
  then show "flags_test (flags_unset [kLbInf] f) [kLbUseless] = flags_test f [kLbHuge]"
    "flags_test (flags_unset [kUbInf] f) [kUbUseless] = flags_test f [kUbHuge]"
    using unset_flag_tests by (auto simp: flags_test_useless)
  show "flags_test (flags_unset [kLbInf] f) [kUbUseless] = flags_test f [kUbUseless]"
    "flags_test (flags_unset [kUbInf] f) [kLbUseless] = flags_test f [kLbUseless]"
    by (simp_all add: flags_test_unset_disjoint flag_defs)
qed

text \<open>
  C40. A huge bound for a column that had no bound on that side breaks the activities, unless the bound
  is cut off by the other bound: \<open>changeLB\<close> (\<open>changeUB\<close>) clears the infinity flag, sets no flag
  for the huge bound, stores it as an ordinary bound and leaves the activities as they were. No row with
  an entry in the column has the activity of its domain any more: each still counts an infinite
  contribution that the domain does not have.
\<close>

theorem huge_bound_breaks_activities:
  assumes "update_ok u" and "c < getNCols (upd_problem u)" and "change_bound num type c v u = (st, u')"
    and "bound_is_inf type (upd_domains u) c"
    and "\<not> upd_cflag u c [case type of kLower \<Rightarrow> kLbHuge | kUpper \<Rightarrow> kUbHuge]" and "\<not> upd_cflag u c [kSubstituted]"
    and "isHugeVal num (rounded_bound num type u c v)"
    and "bound_is_inf (opposite type) (upd_domains u) c \<or>
      \<not> tighter type (rounded_bound num type u c v) (old_bound (opposite type) (upd_domains u) c)"
  shows "st = kReduced \<and> \<not> upd_cflag u' c [useless_flag type] \<and>
    old_bound type (upd_domains u') c = rounded_bound num type u c v \<and>
    row_activities (upd_problem u') = row_activities (upd_problem u) \<and>
    (\<forall>(r, a)\<in>set (col_coeffs (upd_problem u) ! c).
       \<not> tracks (upd_domains u') (row_coeffs (upd_problem u') ! r) (row_activities (upd_problem u') ! r))"
proof -
  let ?p = "upd_problem u" and ?d = "upd_domains u" and ?nb = "rounded_bound num type u c v"
  let ?D = "set_bound_value type c ?nb (unset_col_flag c [inf_flag type] ?d)"
  have pok: "problem_ok ?p" using assms(1) by (simp add: update_ok_def)
  have len: "c < length (col_flags ?d)" "c < length (lower_bounds ?d)" "c < length (upper_bounds ?d)"
    using pok assms(2) by (simp_all add: problem_ok_def)
  have run: "st = kReduced" "u' = apply_bound num type c ?nb (count_bound u)"
    using assms(3,4,6,8) by (auto simp: change_bound_form Let_def)
  have D: "upd_domains u' = ?D \<or> upd_domains u' = set_col_flag c [kFixed] ?D"
    using assms(7) unfolding run(2) apply_bound_domains Let_def cut_box_def by simp
  have acts: "row_activities (upd_problem u') = row_activities ?p"
    using assms(7) unfolding run(2) apply_bound_def Let_def by simp
  have coeffs: "row_coeffs (upd_problem u') = row_coeffs ?p"
    using rebounded_fields(1) [OF apply_bound_rebounded [of "count_bound u" num type c ?nb]] by (simp add: run(2))
  have clear: "\<not> upd_cflag u' c [useless_flag type]"
    using D assms(5) len by (cases type) (auto simp: unset_inf_useless fixed_flag_tests)
  have stored: "old_bound type (upd_domains u') c = ?nb"
    using D len by (cases type) (auto simp: old_bound_def)
  define D where "D = upd_domains u'"
  have other: "lb_useless D k = lb_useless ?d k" "ub_useless D k = ub_useless ?d k" if "k \<noteq> c" for k
    using that D by (auto simp: D_def)
  have mine: "of_bool (lb_useless ?d c) + of_bool (ub_useless ?d c) = of_bool (lb_useless D c) + of_bool (ub_useless D c) + (1 :: int)"
    using D assms(4,5) len unfolding D_def
    by (cases type) (auto simp: bound_is_inf_def flags_test_useless [of "col_flags ?d ! c"] unset_inf_useless fixed_flag_tests)
  have broken: "\<not> tracks D (row_coeffs ?p ! r) (row_activities ?p ! r)" if ra: "(r, a) \<in> set (col_coeffs ?p ! c)" for r a
  proof
    assume tr: "tracks D (row_coeffs ?p ! r) (row_activities ?p ! r)"
    have row: "(c, a) \<in> set (row_coeffs ?p ! r)" "r < getNRows ?p" "distinct_cols (row_coeffs ?p ! r)"
      "tracks ?d (row_coeffs ?p ! r) (row_activities ?p ! r)"
      using pok assms(2) ra col_of_matrixD [of "row_coeffs ?p" c "col_coeffs ?p ! c" r a]
      by (auto simp: problem_ok_def matrix_ok_def all_tracked_def getNRows_def)
    have rest: "min_inf D e = min_inf ?d e" "max_inf D e = max_inf ?d e" if "e \<in> set (rest_of_row c (row_coeffs ?p ! r))" for e
      using that other [of "fst e"] by (simp_all add: rest_of_row_def min_inf_def max_inf_def split_beta)
    have "min_inf ?d (c, a) + max_inf ?d (c, a) = min_inf D (c, a) + max_inf D (c, a) + 1"
      using mine by (auto simp: min_inf_def max_inf_def of_bool_def split: if_splits)
    moreover note tracks_split(3,4) [OF row(4,3,1)] tracks_split(3,4) [OF tr row(3,1)]
    ultimately show False using rest by (simp cong: map_cong)
  qed
  then show ?thesis using run(1) clear stored acts unfolding D_def coeffs acts by auto
qed

definition ex_open :: problem where
  "ex_open = ex_matrix\<lparr>prob_domains := \<lparr>lower_bounds = [0, 0], upper_bounds = [10, 10], col_flags = [0, kLbInf OR kUbInf]\<rparr>,
     row_activities := [\<lparr>act_min = 0, act_max = 10, ninfmin = 1, ninfmax = 1, lastchange = -1\<rparr>,
       \<lparr>act_min = 0, act_max = 0, ninfmin = 1, ninfmax = 1, lastchange = -1\<rparr>]\<rparr>"

theorem huge_bound_breaks_activities_witness:
  "\<not> tracks (upd_domains (snd (changeLB default_num 1 (10 ^ 9) (ex_state ex_open))))
     (row_coeffs (upd_problem (snd (changeLB default_num 1 (10 ^ 9) (ex_state ex_open)))) ! 0)
     (row_activities (upd_problem (snd (changeLB default_num 1 (10 ^ 9) (ex_state ex_open)))) ! 0)"
proof -
  have "update_ok (ex_state ex_open)"
  proof (rule ex_state_ok)
    show "problem_ok ex_open"
      by (auto simp: problem_ok_def matrix_ok_def ex_open_def ex_matrix_def getNCols_def getNRows_def col_of_matrix_def
          all_tracked_def tracks_def part_defs flags_test_def flag_defs less_Suc_eq)
    show "storages_ok ex_open"
      using ex_matrix_ok by (simp add: storages_ok_def ex_open_def getNCols_def getNRows_def ex_matrix_def)
    show "sorted_lines ex_open" by (simp add: sorted_lines_def ex_open_def ex_matrix_def sorted_cols_def)
    show "\<forall>c<getNCols ex_open. box_ordered (prob_domains ex_open) c"
      by (simp add: getNCols_def ex_open_def ex_matrix_def box_ordered_def less_Suc_eq bound_is_inf_def flags_test_def flag_defs)
  qed
  moreover have "1 < getNCols (upd_problem (ex_state ex_open))" by code_simp
  moreover have "(0, 2) \<in> set (col_coeffs (upd_problem (ex_state ex_open)) ! 1)" by code_simp
  moreover have "change_bound default_num kLower 1 (10 ^ 9) (ex_state ex_open) =
      (fst (changeLB default_num 1 (10 ^ 9) (ex_state ex_open)), snd (changeLB default_num 1 (10 ^ 9) (ex_state ex_open)))"
    by (simp add: change_bound_def)
  moreover have "bound_is_inf kLower (upd_domains (ex_state ex_open)) 1"
    "bound_is_inf (opposite kLower) (upd_domains (ex_state ex_open)) 1"
    "\<not> upd_cflag (ex_state ex_open) 1 [case kLower of kLower \<Rightarrow> kLbHuge | kUpper \<Rightarrow> kUbHuge]"
    "\<not> upd_cflag (ex_state ex_open) 1 [kSubstituted]"
    "isHugeVal default_num (rounded_bound default_num kLower (ex_state ex_open) 1 (10 ^ 9))" by code_simp+
  ultimately show ?thesis using huge_bound_breaks_activities by blast
qed

end
