(* ===== verification/Pap_Flush.thy ===== *)
theory Pap_Flush
  imports Pap_ProblemUpdate
begin

text \<open>
  \<open>src/papilo/core/ProblemUpdate.hpp\<close>, the end of a round: the collected coefficient changes are
  applied, singleton rows become bounds, rows with changed activities are checked, fixed columns are
  moved to the sides and deleted together with redundant rows, empty columns are fixed.
\<close>

section \<open>Operations\<close>

subsection \<open>Rows\<close>

text \<open>The branches for a redundant side, in \<open>checkChangedActivities\<close> and in \<open>trivialRowPresolve\<close>.\<close>

definition drop_lhs :: "nat \<Rightarrow> problem_update \<Rightarrow> problem_update" where
  "drop_lhs r u = on_problem (modifyLeftHandSide_inf r)
     (on_storage (storeRowBoundChange True r 0 True 0 (upd_rflag u r [kLhsInf])) u)"

definition drop_rhs :: "nat \<Rightarrow> problem_update \<Rightarrow> problem_update" where
  "drop_rhs r u = on_problem (modifyRightHandSide_inf r)
     (on_storage (storeRowBoundChange False r 0 True 0 (upd_rflag u r [kRhsInf])) u)"

definition row_checkStatus :: "Num \<Rightarrow> problem \<Rightarrow> nat \<Rightarrow> RowStatus" where
  "row_checkStatus num p r =
     checkStatus num (row_flags p ! r) (lhs_values p ! r) (rhs_values p ! r) (row_activities p ! r)"

fun check_changed :: "Num \<Rightarrow> nat list \<Rightarrow> PresolveStatus \<times> problem_update \<Rightarrow> PresolveStatus \<times> problem_update" where
  "check_changed num [] (st, u) = (st, u)"
| "check_changed num (r # rs) (st, u) =
     (if upd_rflag u r [kRedundantRow] then check_changed num rs (st, u)
      else (case row_checkStatus num (upd_problem u) r of
          kRedundant \<Rightarrow> check_changed num rs (kReduced, update_markRowRedundant r u)
        | kRedundantLhs \<Rightarrow> check_changed num rs (kReduced, drop_lhs r u)
        | kRedundantRhs \<Rightarrow> check_changed num rs (kReduced, drop_rhs r u)
        | kInfeasible \<Rightarrow> (kInfeasibleStatus, u)
        | kUnknown \<Rightarrow> check_changed num rs (st, u)))"

definition checkChangedActivities :: "Num \<Rightarrow> problem_update \<Rightarrow> PresolveStatus \<times> problem_update" where
  "checkChangedActivities num u = check_changed num (current_changed_activities (upd_log u)) (kUnchanged, u)"

text \<open>A row with one entry becomes a bound, the equation a fixing; the status is that of the last change.\<close>

definition side_bound :: "Num \<Rightarrow> rat \<Rightarrow> rat \<Rightarrow> rat" where
  "side_bound num side v = (if isZero num side then 0 else side / v)"

definition save_row :: "nat \<Rightarrow> problem_update \<Rightarrow> problem_update" where
  "save_row r u = (let p = upd_problem u in
     on_storage (storeSavedRow r (row_coeffs p ! r) (lhs_values p ! r) (rhs_values p ! r) (row_flags p ! r)) u)"

definition singleton_bounds ::
  "Num \<Rightarrow> nat \<Rightarrow> nat \<Rightarrow> rat \<Rightarrow> rat \<Rightarrow> rat \<Rightarrow> bool \<Rightarrow> bool \<Rightarrow> problem_update \<Rightarrow> PresolveStatus \<times> problem_update" where
  "singleton_bounds num row col v lhs rhs lhsinf rhsinf u =
     (let from_lhs = (if v < 0 then changeUB num col (side_bound num lhs v) else changeLB num col (side_bound num lhs v));
          from_rhs = (if v < 0 then changeLB num col (side_bound num rhs v) else changeUB num col (side_bound num rhs v))
      in case (if \<not> lhsinf then from_lhs (save_row row u) else (kUnchanged, u)) of
           (st1, u1) \<Rightarrow> if \<not> rhsinf \<and> st1 \<noteq> kInfeasibleStatus then from_rhs (save_row row u1) else (st1, u1))"

definition removeSingletonRow :: "Num \<Rightarrow> nat \<Rightarrow> problem_update \<Rightarrow> PresolveStatus \<times> problem_update" where
  "removeSingletonRow num row u =
     (let p = upd_problem u
      in if rowsize p ! row \<noteq> 1 \<or> upd_rflag u row [kRedundantRow] then (kUnchanged, u)
         else
           let v = snd (row_coeffs p ! row ! 0); col = fst (row_coeffs p ! row ! 0);
               lhs = lhs_values p ! row; rhs = rhs_values p ! row;
               lhsinf = upd_rflag u row [kLhsInf]; rhsinf = upd_rflag u row [kRhsInf];
               res = (if isZero num v then
                        (if (\<not> rhsinf \<and> isLT num rhs 0) \<or> (\<not> lhsinf \<and> isGT num lhs 0) then kInfeasibleStatus
                         else kUnchanged, u)
                      else if upd_rflag u row [kEquation] then fixCol num col (side_bound num rhs v) (save_row row u)
                      else singleton_bounds num row col v lhs rhs lhsinf rhsinf u)
           in (fst res, update_markRowRedundant row (snd res)))"

fun remove_singletons :: "Num \<Rightarrow> nat list \<Rightarrow> problem_update \<Rightarrow> PresolveStatus \<times> problem_update" where
  "remove_singletons num [] u = (kUnchanged, u)"
| "remove_singletons num (r # rs) u =
     (case removeSingletonRow num r u of
        (st, u1) \<Rightarrow> if st = kInfeasibleStatus then (kInfeasibleStatus, u1) else remove_singletons num rs u1)"

subsection \<open>Coefficients\<close>

definition update_coeffChanged ::
  "Num \<Rightarrow> problem \<Rightarrow> int \<Rightarrow> nat \<Rightarrow> (RowActivity list \<times> activity_log \<times> int) changed_callback" where
  "update_coeffChanged num p nr row col oldval newval rowvec st =
     (case st of (acts, alog, n) \<Rightarrow>
        case update_activity_after_coeffchange num (prob_lbs p ! col) (prob_ubs p ! col) (prob_cflags p ! col)
               oldval newval rowvec (prob_domains p)
               (\<lambda>actChange act s. update_activity nr (row_flags p) actChange row act s) (acts ! row, alog) of
          (act, alog') \<Rightarrow> (acts[row := act], alog', n + 1))"

definition flushChangedCoeffs :: "Num \<Rightarrow> problem_update \<Rightarrow> problem_update option" where
  "flushChangedCoeffs num u =
     (if upd_buffer u = [] then Some u
      else (case changeCoefficients (upd_buffer u) (update_coeffChanged num (upd_problem u) (nrounds (upd_stats u)))
              (upd_problem u, singletonRows u, singletonColumns u, emptyColumns u, upd_log u, ncoefchgs (upd_stats u)) of
          None \<Rightarrow> None
        | Some (p, sr, sc, ec, alog, n) \<Rightarrow>
            Some (on_stats (\<lambda>s. s\<lparr>ncoefchgs := n\<rparr>)
              (u\<lparr>upd_problem := p, singletonRows := sr, singletonColumns := sc, emptyColumns := ec, upd_log := alog,
                 upd_buffer := []\<rparr>))))"

subsection \<open>Fixed columns\<close>

fun move_entry :: "rat \<Rightarrow> nat \<times> rat \<Rightarrow> problem \<Rightarrow> problem" where
  "move_entry val (row, v) p =
     (if flags_test (row_flags p ! row) [kRedundantRow] then p
      else
        let constant = val * v;
            act = row_activities p ! row;
            p1 = p\<lparr>row_activities := (row_activities p)[row :=
                     act\<lparr>act_min := act_min act - constant, act_max := act_max act - constant\<rparr>]\<rparr>;
            p2 = (if \<not> flags_test (row_flags p1 ! row) [kLhsInf]
                  then p1\<lparr>lhs_values := (lhs_values p1)[row := lhs_values p1 ! row - constant]\<rparr> else p1);
            p3 = (if \<not> flags_test (row_flags p2 ! row) [kRhsInf]
                  then p2\<lparr>rhs_values := (rhs_values p2)[row := rhs_values p2 ! row - constant]\<rparr> else p2)
        in if \<not> flags_test (row_flags p3 ! row) [kLhsInf, kRhsInf, kEquation] \<and>
              lhs_values p3 ! row = rhs_values p3 ! row
           then set_row_flag row [kEquation] p3 else p3)"

definition move_to_offset :: "nat \<Rightarrow> rat \<Rightarrow> problem \<Rightarrow> problem" where
  "move_to_offset col val p =
     (if obj_coeffs p ! col \<noteq> 0
      then p\<lparr>obj_offset := obj_offset p + val * obj_coeffs p ! col, obj_coeffs := (obj_coeffs p)[col := 0]\<rparr>
      else p)"

definition remove_fixed :: "nat \<Rightarrow> problem_update \<Rightarrow> problem_update" where
  "remove_fixed col u =
     (if \<not> upd_cflag u col [kFixed] \<or> upd_cflag u col [kLbInf] \<or> upd_cflag u col [kUbInf] then u
      else
        let p = upd_problem u; val = prob_lbs p ! col; colvec = col_coeffs p ! col;
            u1 = on_storage (storeFixedCol col val colvec (obj_coeffs p)) u
        in if val = 0 then u1
           else on_problem (\<lambda>p. fold (move_entry val) colvec (move_to_offset col val p)) u1)"

definition removeFixedCols :: "problem_update \<Rightarrow> problem_update" where
  "removeFixedCols u = fold remove_fixed (deleted_cols u) u"

subsection \<open>Empty columns\<close>

definition empty_col_value :: "Num \<Rightarrow> problem \<Rightarrow> nat \<Rightarrow> rat" where
  "empty_col_value num p col =
     (if \<not> flags_test (prob_cflags p ! col) [kUbInf] \<and> isLT num (prob_ubs p ! col) 0 then prob_ubs p ! col
      else if \<not> flags_test (prob_cflags p ! col) [kLbInf] \<and> isGT num (prob_lbs p ! col) 0 then prob_lbs p ! col
      else 0)"

definition fix_empty_col :: "Num \<Rightarrow> nat \<Rightarrow> problem_update \<Rightarrow> problem_update option" where
  "fix_empty_col num col u =
     (let p = upd_problem u; cost = obj_coeffs p ! col; lbinf = upd_cflag u col [kLbInf]; ubinf = upd_cflag u col [kUbInf];
          lb = prob_lbs p ! col; ub = prob_ubs p ! col;
          finish = (\<lambda>fixval u. count_removed_col col
            (on_stats (\<lambda>s. s\<lparr>ndeletedcols := ndeletedcols s + 1\<rparr>)
              (on_domains (set_col_flag col [kFixed])
                (on_problem (move_to_offset col fixval)
                  (on_storage (storeFixedCol col fixval [] (obj_coeffs p)) u)))))
      in if isZero num cost then
           let fixval = empty_col_value num p col;
               u1 = (if lbinf \<or> \<not> isEq num lb fixval
                     then on_storage (storeVarBoundChange True col lb lbinf fixval) u else u);
               u2 = (if ubinf \<or> \<not> isEq num ub fixval
                     then on_storage (storeVarBoundChange False col ub ubinf fixval) u1 else u1)
           in Some (finish fixval u2)
         else if cost < 0 then
           (if ubinf then None else Some (finish ub (on_storage (storeVarBoundChange True col lb lbinf ub) u)))
         else
           (if lbinf then None else Some (finish lb (on_storage (storeVarBoundChange False col ub ubinf lb) u))))"

fun remove_empty :: "Num \<Rightarrow> PresolveOptions \<Rightarrow> nat list \<Rightarrow> problem_update \<Rightarrow> PresolveStatus \<times> problem_update" where
  "remove_empty num opts [] u = (kReduced, u\<lparr>emptyColumns := []\<rparr>)"
| "remove_empty num opts (col # cols) u =
     (if colsize (upd_problem u) ! col \<noteq> 0 then remove_empty num opts cols u
      else if dualreds opts = 1 \<and> isZero num (obj_coeffs (upd_problem u) ! col) then remove_empty num opts cols u
      else (case (if \<not> upd_cflag u col [kInactive] then fix_empty_col num col u else Some u) of
          None \<Rightarrow> (kUnbndOrInfeas, u)
        | Some u1 \<Rightarrow> remove_empty num opts cols
            (on_problem (\<lambda>p. p\<lparr>colsize := (colsize p)[col := -1]\<rparr>) u1)))"

definition removeEmptyColumns :: "Num \<Rightarrow> PresolveOptions \<Rightarrow> problem_update \<Rightarrow> PresolveStatus \<times> problem_update" where
  "removeEmptyColumns num opts u =
     (if dualreds opts \<noteq> 0 \<and> emptyColumns u \<noteq> [] then remove_empty num opts (emptyColumns u) u else (kUnchanged, u))"

subsection \<open>The end of a round\<close>

definition update_deleteRowsAndCols :: "problem_update \<Rightarrow> problem_update" where
  "update_deleteRowsAndCols u =
     (case deleteRowsAndCols (redundant_rows u) (deleted_cols u)
             (upd_problem u, singletonRows u, singletonColumns u, emptyColumns u) of
        (p, sr, sc, ec) \<Rightarrow>
          u\<lparr>upd_problem := p, singletonRows := sr, singletonColumns := sc, emptyColumns := ec,
            redundant_rows := [], deleted_cols := []\<rparr>)"

text \<open>
  Columns that are no singletons any more leave the list; the number of those known before the round
  shrinks with them.
\<close>

definition filter_singletons :: "problem_update \<Rightarrow> problem_update" where
  "filter_singletons u =
     (let keep = (\<lambda>c. colsize (upd_problem u) ! c = 1)
      in u\<lparr>singletonColumns := filter keep (singletonColumns u),
           firstNewSingletonCol := length (filter keep (take (firstNewSingletonCol u) (singletonColumns u)))\<rparr>)"

definition drop_redundant_activities :: "problem_update \<Rightarrow> problem_update" where
  "drop_redundant_activities u =
     (let keep = (\<lambda>r. \<not> upd_rflag u r [kRedundantRow])
      in u\<lparr>upd_log := \<lparr>last_changed_activities = filter keep (last_changed_activities (upd_log u)),
                       current_changed_activities = filter keep (current_changed_activities (upd_log u))\<rparr>\<rparr>)"

definition flush :: "Num \<Rightarrow> PresolveOptions \<Rightarrow> bool \<Rightarrow> problem_update \<Rightarrow> (PresolveStatus \<times> problem_update) option" where
  "flush num opts reset_changed_activities u =
     (case flushChangedCoeffs num u of
        None \<Rightarrow> None
      | Some u1 \<Rightarrow> Some (
          case remove_singletons num (singletonRows u1) u1 of (st2, u2) \<Rightarrow>
          if st2 = kInfeasibleStatus then (kInfeasibleStatus, u2)
          else case checkChangedActivities num (u2\<lparr>singletonRows := []\<rparr>) of (st3, u3) \<Rightarrow>
          if st3 = kInfeasibleStatus then (kInfeasibleStatus, u3)
          else
            let u4 = (if reset_changed_activities then drop_redundant_activities u3 else u3);
                u5 = update_deleteRowsAndCols (removeFixedCols u4);
                u6 = (if singletonColumns u5 \<noteq> [] then filter_singletons u5 else u5)
            in case removeEmptyColumns num opts u6 of (st7, u7) \<Rightarrow>
               (if st7 = kUnbndOrInfeas then kUnbndOrInfeas else kReduced, u7)))"

section \<open>Rows that need no check any more\<close>

text \<open>
  Solutions up to a tolerance on the sides of the rows. Dropping a side only enlarges the set; the
  side was redundant up to the feasibility tolerance, so that the solutions up to a tolerance of at
  least that much stay the same.
\<close>

definition row_within :: "rat \<Rightarrow> flags \<Rightarrow> rat \<Rightarrow> rat \<Rightarrow> rat \<Rightarrow> bool" where
  "row_within t f lhs rhs v \<longleftrightarrow> flags_test f [kRedundantRow] \<or> satisfies_row f (lhs - t) (rhs + t) v"

definition solves_within :: "rat \<Rightarrow> problem \<Rightarrow> rat list \<Rightarrow> bool" where
  "solves_within t p x \<longleftrightarrow> length x = getNCols p \<and>
     (\<forall>r<getNRows p. row_within t (row_flags p ! r) (lhs_values p ! r) (rhs_values p ! r) (row_value (row_coeffs p ! r) x)) \<and>
     in_domains (prob_domains p) x \<and> integral_point (prob_domains p) x"

lemma solves_within_0: "solves_within 0 p x = solves p x"
  by (simp add: solves_within_def solves_def active_rows_satisfied_def row_within_def)

lemma dropped_flags:
  "flags_test (flags_set [kRedundantRow] f) [kRedundantRow]"
  "flags_test (flags_set [kLhsInf] (flags_unset [kEquation] f)) [kLhsInf]"
  "flags_test (flags_set [kLhsInf] (flags_unset [kEquation] f)) [kRhsInf] = flags_test f [kRhsInf]"
  "flags_test (flags_set [kLhsInf] (flags_unset [kEquation] f)) [kRedundantRow] = flags_test f [kRedundantRow]"
  "flags_test (flags_set [kRhsInf] (flags_unset [kEquation] f)) [kRhsInf]"
  "flags_test (flags_set [kRhsInf] (flags_unset [kEquation] f)) [kLhsInf] = flags_test f [kLhsInf]"
  "flags_test (flags_set [kRhsInf] (flags_unset [kEquation] f)) [kRedundantRow] = flags_test f [kRedundantRow]"
  by (simp_all add: flags_test_set flags_test_unset_disjoint flag_defs)

definition reflag_row :: "nat \<Rightarrow> flags \<Rightarrow> problem \<Rightarrow> problem" where
  "reflag_row r f p = p\<lparr>row_flags := (row_flags p)[r := f]\<rparr>"

lemma drop_problems:
  "upd_problem (update_markRowRedundant r u) = (if upd_rflag u r [kRedundantRow] then upd_problem u
     else reflag_row r (flags_set [kRedundantRow] (row_flags (upd_problem u) ! r)) (upd_problem u))"
  "r < length (row_flags (upd_problem u)) \<Longrightarrow> upd_problem (drop_lhs r u) =
     reflag_row r (flags_set [kLhsInf] (flags_unset [kEquation] (row_flags (upd_problem u) ! r))) (upd_problem u)"
  "r < length (row_flags (upd_problem u)) \<Longrightarrow> upd_problem (drop_rhs r u) =
     reflag_row r (flags_set [kRhsInf] (flags_unset [kEquation] (row_flags (upd_problem u) ! r))) (upd_problem u)"
  by (simp_all add: update_markRowRedundant_def drop_lhs_def drop_rhs_def reflag_row_def set_row_flag_def
      unset_row_flag_def modifyLeftHandSide_inf_def modifyRightHandSide_inf_def Let_def)

lemma reflag_within:
  assumes "r < getNRows p" and "length (row_flags p) = getNRows p"
    and "\<And>v. v = row_value (row_coeffs p ! r) x \<Longrightarrow>
      row_within t f (lhs_values p ! r) (rhs_values p ! r) v = row_within t (row_flags p ! r) (lhs_values p ! r) (rhs_values p ! r) v"
  shows "solves_within t (reflag_row r f p) x = solves_within t p x"
proof -
  have "row_within t (row_flags (reflag_row r f p) ! k) (lhs_values p ! k) (rhs_values p ! k) (row_value (row_coeffs p ! k) x) =
      row_within t (row_flags p ! k) (lhs_values p ! k) (rhs_values p ! k) (row_value (row_coeffs p ! k) x)"
    if "k < getNRows p" for k
    using assms that by (cases "k = r") (simp_all add: reflag_row_def)
  then show ?thesis
    by (simp add: solves_within_def) (simp add: reflag_row_def getNRows_def getNCols_def)
qed

lemma reflag_enlarges:
  assumes "r < getNRows p" and "length (row_flags p) = getNRows p" and "solves p x"
    and "\<And>v. row_within 0 (row_flags p ! r) (lhs_values p ! r) (rhs_values p ! r) v \<Longrightarrow>
      row_within 0 f (lhs_values p ! r) (rhs_values p ! r) v"
  shows "solves (reflag_row r f p) x"
proof -
  have p: "solves_within 0 p x" using assms(3) by (simp add: solves_within_0)
  then have "row_within 0 (row_flags (reflag_row r f p) ! k) (lhs_values p ! k) (rhs_values p ! k) (row_value (row_coeffs p ! k) x)"
    if "k < getNRows p" for k
    using assms(1,2,4) that by (cases "k = r") (simp_all add: reflag_row_def solves_within_def)
  with p have "solves_within 0 (reflag_row r f p) x"
    by (simp add: solves_within_def) (simp add: reflag_row_def getNRows_def getNCols_def)
  then show ?thesis by (simp add: solves_within_0)
qed

lemma reflag_update_ok:
  assumes "update_ok u" and "r < getNRows (upd_problem u)" and "upd_problem v = reflag_row r f (upd_problem u)"
    and "upd_rflag u r [kRedundantRow] \<Longrightarrow> flags_test f [kRedundantRow]"
    and "marks v = marks u \<or> marks v = marks (u\<lparr>redundant_rows := redundant_rows u @ [r]\<rparr>) \<and> flags_test f [kRedundantRow]"
  shows "update_ok v"
proof -
  have u: "problem_ok (upd_problem u)" "storages_ok (upd_problem u)" "sorted_lines (upd_problem u)" "marks_ok u"
      "\<forall>c<getNCols (upd_problem u). box_ordered (upd_domains u) c"
    using assms(1) by (simp_all add: update_ok_def)
  have len: "length (row_flags (upd_problem u)) = getNRows (upd_problem u)" using u(1) by (simp add: problem_ok_def)
  have red: "upd_rflag v k [kRedundantRow]" if "upd_rflag u k [kRedundantRow]" for k
    using that assms(3,4) by (cases "k = r"; cases "r < length (row_flags (upd_problem u))")
      (simp_all add: reflag_row_def list_update_beyond)
  have dims: "getNRows (upd_problem v) = getNRows (upd_problem u)" "getNCols (upd_problem v) = getNCols (upd_problem u)"
    "prob_domains (upd_problem v) = prob_domains (upd_problem u)"
    by (simp_all add: assms(3) reflag_row_def getNRows_def getNCols_def)
  have "upd_rflag v r [kRedundantRow]" if "flags_test f [kRedundantRow]"
    using that assms(2) len by (simp add: assms(3) reflag_row_def)
  then have "marks_ok v"
    using u(4) assms(2,5) red by (auto simp: marks_ok_def marks_def dims)
  then show ?thesis
    using u by (simp add: update_ok_def dims) (simp add: assms(3) reflag_row_def problem_ok_def storages_ok_def
        sorted_lines_def getNRows_def getNCols_def)
qed

lemma drop_marks:
  "marks (drop_lhs r u) = marks u" "marks (drop_rhs r u) = marks u"
  "marks (update_markRowRedundant r u) = (if upd_rflag u r [kRedundantRow] then marks u
     else marks (u\<lparr>redundant_rows := redundant_rows u @ [r]\<rparr>))"
  by (simp_all add: drop_lhs_def drop_rhs_def update_markRowRedundant_def Let_def)

lemma drop_update_ok:
  assumes "update_ok u" and "r < getNRows (upd_problem u)"
  shows "update_ok (drop_lhs r u)" "update_ok (drop_rhs r u)" "update_ok (update_markRowRedundant r u)"
proof -
  have len: "r < length (row_flags (upd_problem u))" using assms by (simp add: update_ok_def problem_ok_def)
  show "update_ok (drop_lhs r u)" "update_ok (drop_rhs r u)"
    using reflag_update_ok [OF assms drop_problems(2) [OF len]] reflag_update_ok [OF assms drop_problems(3) [OF len]]
    by (simp_all add: drop_marks dropped_flags)
  show "update_ok (update_markRowRedundant r u)"
  proof (cases "upd_rflag u r [kRedundantRow]")
    case True
    then show ?thesis using assms(1) update_ok_cong [of "update_markRowRedundant r u" u] by (simp add: drop_marks drop_problems(1))
  next
    case False
    then show ?thesis
      using reflag_update_ok [OF assms, of "update_markRowRedundant r u" "flags_set [kRedundantRow] (row_flags (upd_problem u) ! r)"]
      by (simp add: drop_marks drop_problems(1) dropped_flags(1))
  qed
qed

subsection \<open>Rows with changed activities\<close>

lemma point_in_row:
  assumes "problem_ok p" and "r < getNRows p" and "in_domains (prob_domains p) x"
  shows "row_in_domain (prob_domains p) (row_coeffs p ! r) x"
    and "tracks (prob_domains p) (row_coeffs p ! r) (row_activities p ! r)"
proof -
  have "row_coeffs p ! r \<in> set (row_coeffs p)" using assms(2) by (simp add: getNRows_def)
  moreover have "\<forall>row\<in>set (row_coeffs p). \<forall>e\<in>set row. fst e < getNCols p"
    using assms(1) unfolding problem_ok_def matrix_ok_def by fastforce
  ultimately have "\<forall>e\<in>set (row_coeffs p ! r). fst e < length (prob_cflags p)"
    using assms(1) by (auto simp: problem_ok_def)
  then show "row_in_domain (prob_domains p) (row_coeffs p ! r) x"
    using assms(3) by (auto simp: row_in_domain_def list_all_iff in_domains_def)
  show "tracks (prob_domains p) (row_coeffs p ! r) (row_activities p ! r)"
    using assms(1,2) by (simp add: problem_ok_def all_tracked_def getNRows_def)
qed

lemma status_sides:
  assumes "problem_ok p" and "r < getNRows p" and "in_domains (prob_domains p) x" and "useabsfeas num"
  defines "v \<equiv> row_value (row_coeffs p ! r) x"
  shows "row_checkStatus num p r \<in> {kRedundant, kRedundantLhs} \<Longrightarrow>
      flags_test (row_flags p ! r) [kLhsInf] \<or> lhs_values p ! r - feastol num \<le> v"
    and "row_checkStatus num p r \<in> {kRedundant, kRedundantRhs} \<Longrightarrow>
      flags_test (row_flags p ! r) [kRhsInf] \<or> v \<le> rhs_values p ! r + feastol num"
proof -
  note row = point_in_row [OF assms(1-3)]
  show "row_checkStatus num p r \<in> {kRedundant, kRedundantLhs} \<Longrightarrow>
      flags_test (row_flags p ! r) [kLhsInf] \<or> lhs_values p ! r - feastol num \<le> v"
    using checkStatus_redundant_lhs [of num _ _ _ "row_activities p ! r"] activity_lower_bound [OF row(2,1)] assms(4)
    unfolding row_checkStatus_def v_def by (fastforce simp: isFeasGE_def isFeasAbsGE_def)
  show "row_checkStatus num p r \<in> {kRedundant, kRedundantRhs} \<Longrightarrow>
      flags_test (row_flags p ! r) [kRhsInf] \<or> v \<le> rhs_values p ! r + feastol num"
    using checkStatus_redundant_rhs [of num _ _ _ "row_activities p ! r"] activity_upper_bound [OF row(2,1)] assms(4)
    unfolding row_checkStatus_def v_def by (fastforce simp: isFeasLE_def isFeasAbsLE_def)
qed

lemma drop_within:
  assumes "problem_ok (upd_problem u)" and "r < getNRows (upd_problem u)" and "useabsfeas num" and "feastol num \<le> t"
    and "row_checkStatus num (upd_problem u) r = st"
    and "u' = (case st of kRedundant \<Rightarrow> update_markRowRedundant r u | kRedundantLhs \<Rightarrow> drop_lhs r u | _ \<Rightarrow> drop_rhs r u)"
    and "st \<in> {kRedundant, kRedundantLhs, kRedundantRhs}"
  shows "solves_within t (upd_problem u') x = solves_within t (upd_problem u) x"
proof (cases "in_domains (upd_domains u) x")
  case False
  have "prob_domains (upd_problem u') = upd_domains u"
    using assms(1,2,6,7) by (auto simp: drop_problems problem_ok_def reflag_row_def)
  with False show ?thesis by (simp add: solves_within_def)
next
  case True
  let ?p = "upd_problem u"
  have len: "length (row_flags ?p) = getNRows ?p" using assms(1) by (simp add: problem_ok_def)
  note sides = status_sides [OF assms(1,2) True assms(3), unfolded assms(5)]
  have within: "lhs_values ?p ! r - t \<le> v" if "lhs_values ?p ! r - feastol num \<le> v" for v using that assms(4) by simp
  have within': "v \<le> rhs_values ?p ! r + t" if "v \<le> rhs_values ?p ! r + feastol num" for v using that assms(4) by simp
  from assms(7) consider "st = kRedundant" | "st = kRedundantLhs" | "st = kRedundantRhs" by auto
  then show ?thesis
  proof cases
    case 1
    then show ?thesis
      unfolding assms(6) using reflag_within [OF assms(2) len] sides within within'
      by (auto simp: drop_problems row_within_def satisfies_row_def dropped_flags)
  next
    case 2
    then show ?thesis
      unfolding assms(6) using reflag_within [OF assms(2) len] sides within within' assms(2) len
      by (auto simp: drop_problems row_within_def satisfies_row_def dropped_flags)
  next
    case 3
    then show ?thesis
      unfolding assms(6) using reflag_within [OF assms(2) len] sides within within' assms(2) len
      by (auto simp: drop_problems row_within_def satisfies_row_def dropped_flags)
  qed
qed

lemma drop_enlarges:
  assumes "problem_ok (upd_problem u)" and "r < getNRows (upd_problem u)" and "solves (upd_problem u) x"
  shows "solves (upd_problem (update_markRowRedundant r u)) x" "solves (upd_problem (drop_lhs r u)) x"
    "solves (upd_problem (drop_rhs r u)) x"
proof -
  have len: "length (row_flags (upd_problem u)) = getNRows (upd_problem u)" using assms(1) by (simp add: problem_ok_def)
  note grows = reflag_enlarges [OF assms(2) len assms(3)]
  show "solves (upd_problem (update_markRowRedundant r u)) x"
    using assms(3) by (simp add: drop_problems(1) grows row_within_def dropped_flags)
  have "r < length (row_flags (upd_problem u))" using assms(2) len by simp
  note drops = drop_problems(2,3) [OF this]
  show "solves (upd_problem (drop_lhs r u)) x" "solves (upd_problem (drop_rhs r u)) x"
    unfolding drops by (rule grows, auto simp: row_within_def satisfies_row_def dropped_flags)+
qed

lemma drop_dims:
  assumes "r < length (row_flags (upd_problem u))"
  shows "getNRows (upd_problem (drop_lhs r u)) = getNRows (upd_problem u)"
    "getNRows (upd_problem (drop_rhs r u)) = getNRows (upd_problem u)"
    "getNRows (upd_problem (update_markRowRedundant r u)) = getNRows (upd_problem u)"
  using assms by (simp_all add: drop_problems reflag_row_def getNRows_def)

text \<open>What a row check does to the set of solutions: an invariant of the loop.\<close>

lemma check_changed_sound:
  assumes "check_changed num rs (st, u) = (st', u')" and "update_ok u" and "set rs \<subseteq> {..<getNRows (upd_problem u)}"
    and "num_ok num" and "useabsfeas num" and "feastol num \<le> t" and "st \<noteq> kInfeasibleStatus"
  shows "update_ok u' \<and> solves_within t (upd_problem u') x = solves_within t (upd_problem u) x \<and>
    (solves (upd_problem u) x \<longrightarrow> st' \<noteq> kInfeasibleStatus \<and> solves (upd_problem u') x)"
  using assms(1,2,3,7)
proof (induction rs arbitrary: st u)
  case Nil
  then show ?case by simp
next
  case (Cons r rs)
  have r: "r < getNRows (upd_problem u)" and ok: "problem_ok (upd_problem u)" using Cons.prems by (simp_all add: update_ok_def)
  have len: "r < length (row_flags (upd_problem u))" using r ok by (simp add: problem_ok_def)
  note dims = drop_dims [OF len]
  show ?case
  proof (cases "upd_rflag u r [kRedundantRow] \<or> row_checkStatus num (upd_problem u) r = kUnknown")
    case True
    then have "check_changed num rs (st, u) = (st', u')" using Cons.prems(1) by (auto split: if_splits)
    from Cons.IH [OF this] Cons.prems show ?thesis by simp
  next
    case False
    show ?thesis
    proof (cases "row_checkStatus num (upd_problem u) r = kInfeasible")
      case True
      have "\<not> solves (upd_problem u) x"
      proof
        assume "solves (upd_problem u) x"
        then have dom: "in_domains (upd_domains u) x"
          and "row_within 0 (row_flags (upd_problem u) ! r) (lhs_values (upd_problem u) ! r)
            (rhs_values (upd_problem u) ! r) (row_value (row_coeffs (upd_problem u) ! r) x)"
          using r by (simp_all add: solves_def active_rows_satisfied_def row_within_def)
        with False show False
          using checkStatus_infeasible [OF assms(4) point_in_row(2,1) [OF ok r dom]] True
          by (auto simp: row_within_def row_checkStatus_def)
      qed
      then show ?thesis using True False Cons.prems by auto
    next
      case feas: False
      define s where "s = row_checkStatus num (upd_problem u) r"
      define w where "w = (case s of kRedundant \<Rightarrow> update_markRowRedundant r u | kRedundantLhs \<Rightarrow> drop_lhs r u | _ \<Rightarrow> drop_rhs r u)"
      have s: "s \<in> {kRedundant, kRedundantLhs, kRedundantRhs}" using feas False by (cases s) (auto simp: s_def)
      then have run: "check_changed num rs (kReduced, w) = (st', u')"
        using Cons.prems(1) False by (auto simp: w_def s_def split: RowStatus.splits)
      have "update_ok w" "getNRows (upd_problem w) = getNRows (upd_problem u)"
        using s drop_update_ok [OF Cons.prems(2) r] dims by (auto simp: w_def)
      then have "update_ok u' \<and> solves_within t (upd_problem u') x = solves_within t (upd_problem w) x \<and>
          (solves (upd_problem w) x \<longrightarrow> st' \<noteq> kInfeasibleStatus \<and> solves (upd_problem u') x)"
        using Cons.IH [OF run] Cons.prems(3) by simp
      moreover have "solves (upd_problem u) x \<Longrightarrow> solves (upd_problem w) x"
        using s drop_enlarges [OF ok r] by (auto simp: w_def)
      ultimately show ?thesis
        using drop_within [OF ok r assms(5,6) s_def [symmetric] w_def s] by simp
    qed
  qed
qed

section \<open>Singleton rows\<close>

text \<open>
  In exact arithmetic a singleton row and the bounds it is replaced by are the same. Values of at least
  the huge value minus one are excluded, since they break the activities.
\<close>

definition small :: "Num \<Rightarrow> rat \<Rightarrow> bool" where "small num v \<longleftrightarrow> \<bar>v\<bar> + 1 < hugeval num"

lemma small_not_huge: "small num v \<Longrightarrow> \<not> isHugeVal num v"
  by (simp add: small_def isHugeVal_def)

lemma small_rounded:
  assumes "small num v" and "feastol num = 0"
  shows "\<not> isHugeVal num (rounded_bound num type u c v)"
proof -
  have "\<bar>rat_of_int \<lceil>v\<rceil>\<bar> < \<bar>v\<bar> + 1" "\<bar>rat_of_int \<lfloor>v\<rfloor>\<bar> < \<bar>v\<bar> + 1" by linarith+
  then show ?thesis
    using assms by (cases type) (auto simp: rounded_bound_def small_def isHugeVal_def feasCeil_def feasFloor_def
        rational_ceil_eq rational_floor_eq)
qed

definition good_state :: "Num \<Rightarrow> problem_update \<Rightarrow> bool" where
  "good_state num u \<longleftrightarrow> update_ok u \<and> (\<forall>k<getNCols (upd_problem u). tidy_col num (upd_domains u) k)"

text \<open>What a step that only changes bounds does, with \<open>B\<close> the points it keeps.\<close>

definition cuts_to :: "Num \<Rightarrow> problem_update \<Rightarrow> PresolveStatus \<Rightarrow> problem_update \<Rightarrow> (rat list \<Rightarrow> bool) \<Rightarrow> bool" where
  "cuts_to num u st u' B \<longleftrightarrow> good_state num u' \<and> rebounded (upd_problem u) (upd_problem u') \<and>
     (\<forall>k<getNCols (upd_problem u). col_live (upd_domains u) k \<longrightarrow> col_live (upd_domains u') k) \<and>
     (\<forall>x. st \<noteq> kInfeasibleStatus \<and> in_box (upd_problem u') x \<longleftrightarrow> in_box (upd_problem u) x \<and> B x)"

lemma good_state_col_ok:
  assumes "good_state num u" and "c < getNCols (upd_problem u)"
  shows "col_ok (upd_domains u) c" "problem_ok (upd_problem u)" "box_ordered (upd_domains u) c" "tidy_col num (upd_domains u) c"
  using assms by (simp_all add: good_state_def update_ok_def problem_ok_def col_ok_def)

lemma good_stateI:
  assumes "good_state num u" and "update_ok u'" and "rebounded (upd_problem u) (upd_problem u')"
    and "\<And>k. k \<noteq> c \<Longrightarrow> same_col (upd_domains u) (upd_domains u') k" and "tidy_col num (upd_domains u') c"
  shows "good_state num u'"
proof -
  have "tidy_col num (upd_domains u') k" if "k < getNCols (upd_problem u)" for k
    using assms(1,5) same_colD(1) [OF assms(4)] that by (cases "k = c") (auto simp: good_state_def)
  then show ?thesis using assms(2) rebounded_fields(11) [OF assms(3)] by (simp add: good_state_def)
qed

lemma change_bound_step:
  assumes "good_state num u" and "c < getNCols (upd_problem u)" and "exact num" and "small num v"
    and "col_live (upd_domains u) c" and "change_bound num type c v u = (st, u')"
  shows "cuts_to num u st u' (\<lambda>x. respects_bound type v (x ! c))"
proof -
  have u': "u' = snd (change_bound num type c v u)" using assms(6) by simp
  note ok = good_state_col_ok [OF assms(1,2)]
  note cols = change_bound_cols [OF ok(1), where num = num and type = type and v = v, folded u'] and reb = change_bound_rebounded [of u num type c v, folded u']
  have nb: "\<not> isHugeVal num (rounded_bound num type u c v)"
    using small_rounded [OF assms(4)] assms(3) by (simp add: exact_def)
  have "update_ok u'"
    using change_bound_update_ok [OF _ assms(2) nb] assms(1) ok(4) unfolding u' good_state_def tidy_col_def by blast
  then have "good_state num u'"
    using good_stateI [OF assms(1) _ reb cols(1) cols(2) [OF ok(4) nb]] by blast
  moreover have "col_live (upd_domains u') k" if "k < getNCols (upd_problem u)" "col_live (upd_domains u) k" for k
    using that cols(3) same_colD(2) [OF cols(1)] by (cases "k = c") auto
  moreover have "\<not> upd_cflag u c [kSubstituted]" using assms(5) by (simp add: col_live_def)
  ultimately show ?thesis
    unfolding cuts_to_def using reb change_bound_exact [OF ok(2) assms(2,3) ok(3) assms(6)] by blast
qed

lemma fixCol_step:
  assumes "good_state num u" and "c < getNCols (upd_problem u)" and "exact num" and "small num v"
    and "col_live (upd_domains u) c" and "fixCol num c v u = (st, u')"
  shows "cuts_to num u st u' (\<lambda>x. x ! c = v)"
proof -
  have u': "u' = snd (fixCol num c v u)" using assms(6) by simp
  note ok = good_state_col_ok [OF assms(1,2)]
  note cols = fixCol_cols [OF ok(1), where num = num and v = v, folded u'] and reb = fixCol_rebounded [of u num c v, folded u']
  have "update_ok u'"
    using fixCol_update_ok [OF _ assms(2)] assms(1) unfolding u' good_state_def by blast
  then have "good_state num u'"
    using good_stateI [OF assms(1) _ reb cols(1) cols(2) [OF ok(4) small_not_huge [OF assms(4)]]] by blast
  moreover have "col_live (upd_domains u') k" if "k < getNCols (upd_problem u)" "col_live (upd_domains u) k" for k
    using that cols(3) same_colD(2) [OF cols(1)] by (cases "k = c") auto
  ultimately show ?thesis
    unfolding cuts_to_def using reb fixCol_exact [OF ok(2) assms(2,3,6,5)] by blast
qed

lemma cuts_to_trans:
  assumes "cuts_to num u st1 u1 B1" and "st1 \<noteq> kInfeasibleStatus \<Longrightarrow> cuts_to num u1 st2 u2 B2"
    and "st1 = kInfeasibleStatus \<Longrightarrow> st2 = st1 \<and> u2 = u1"
  shows "cuts_to num u st2 u2 (\<lambda>x. B1 x \<and> B2 x)"
proof (cases "st1 = kInfeasibleStatus")
  case True
  with assms(1,3) show ?thesis unfolding cuts_to_def by blast
next
  case False
  note c1 = assms(1) [unfolded cuts_to_def] and c2 = assms(2) [OF False, unfolded cuts_to_def]
  have reb: "rebounded (upd_problem u) (upd_problem u1)" "rebounded (upd_problem u1) (upd_problem u2)"
    using c1 c2 by blast+
  have "in_box (upd_problem u1) x \<longleftrightarrow> in_box (upd_problem u) x \<and> B1 x" for x using c1 False by blast
  then show ?thesis
    unfolding cuts_to_def using c1 c2 rebounded_trans [OF reb] rebounded_fields(11) [OF reb(1)] by presburger
qed

lemma cuts_to_refl: "good_state num u \<Longrightarrow> st \<noteq> kInfeasibleStatus \<Longrightarrow> cuts_to num u st u (\<lambda>x. True)"
  by (simp add: cuts_to_def)

lemma cuts_to_cong: "cuts_to num u st u' B \<Longrightarrow> (\<And>x. B x = B' x) \<Longrightarrow> cuts_to num u st u' B'"
  by (simp add: cuts_to_def)

lemma save_row_parts [simp]: "upd_problem (save_row r u) = upd_problem u" "marks (save_row r u) = marks u"
  by (simp_all add: save_row_def Let_def)

lemma cuts_to_start:
  assumes "upd_problem w = upd_problem u" and "cuts_to num w st u' B"
  shows "cuts_to num u st u' B"
  using assms by (simp add: cuts_to_def)

lemma good_state_cong: "upd_problem w = upd_problem u \<Longrightarrow> marks w = marks u \<Longrightarrow> good_state num w = good_state num u"
  using update_ok_cong [of w u] by (simp add: good_state_def)

lemma good_state_save_row: "good_state num (save_row r u) = good_state num u"
  by (rule good_state_cong) simp_all

subsection \<open>A singleton row\<close>

lemma side_holds:
  fixes v :: rat
  assumes "v \<noteq> 0"
  shows "(side \<le> v * w) = (if v < 0 then respects_bound kUpper (side / v) w else respects_bound kLower (side / v) w)"
    "(v * w \<le> side) = (if v < 0 then respects_bound kLower (side / v) w else respects_bound kUpper (side / v) w)"
  using assms by (auto simp: respects_bound_def field_simps split: if_splits)

lemma side_bound_exact: "exact num \<Longrightarrow> side_bound num side v = side / v"
  by (simp add: side_bound_def exact_def tol_simps)

lemma singleton_bounds_step:
  assumes "good_state num u" and "c < getNCols (upd_problem u)" and "exact num" and "col_live (upd_domains u) c"
    and "v \<noteq> 0" and "\<not> lhsinf \<Longrightarrow> small num (lhs / v)" and "\<not> rhsinf \<Longrightarrow> small num (rhs / v)"
    and "singleton_bounds num row c v lhs rhs lhsinf rhsinf u = (st, u')"
  shows "cuts_to num u st u' (\<lambda>x. (lhsinf \<or> lhs \<le> v * x ! c) \<and> (rhsinf \<or> v * x ! c \<le> rhs))"
proof -
  let ?t1 = "if v < 0 then kUpper else kLower" and ?t2 = "if v < 0 then kLower else kUpper"
  define r1 where "r1 = (if \<not> lhsinf then change_bound num ?t1 c (lhs / v) (save_row row u) else (kUnchanged, u))"
  define r2 where "r2 = (if \<not> rhsinf \<and> fst r1 \<noteq> kInfeasibleStatus
    then change_bound num ?t2 c (rhs / v) (save_row row (snd r1)) else r1)"
  have types: "(if v < 0 then changeUB num c b else changeLB num c b) = change_bound num ?t1 c b"
    "(if v < 0 then changeLB num c b else changeUB num c b) = change_bound num ?t2 c b" for b
    by (simp_all add: change_bound_def)
  have "r2 = singleton_bounds num row c v lhs rhs lhsinf rhsinf u"
    unfolding singleton_bounds_def Let_def side_bound_exact [OF assms(3)] types r1_def [symmetric]
    by (simp add: r2_def split_beta)
  then have run: "(st, u') = r2" using assms(8) by simp
  have 1: "cuts_to num u (fst r1) (snd r1) (\<lambda>x. lhsinf \<or> lhs \<le> v * x ! c)"
  proof (cases lhsinf)
    case True
    then show ?thesis using cuts_to_refl [OF assms(1)] by (simp add: r1_def)
  next
    case False
    have "cuts_to num (save_row row u) (fst r1) (snd r1) (\<lambda>x. respects_bound ?t1 (lhs / v) (x ! c))"
      using False assms(1-4,6) by (intro change_bound_step) (simp_all add: good_state_save_row r1_def)
    from cuts_to_start [OF save_row_parts(1) this] show ?thesis
      by (rule cuts_to_cong) (simp add: False side_holds(1) [OF assms(5)])
  qed
  have 2: "cuts_to num (snd r1) (fst r2) (snd r2) (\<lambda>x. rhsinf \<or> v * x ! c \<le> rhs)" if st1: "fst r1 \<noteq> kInfeasibleStatus"
  proof -
    have good: "good_state num (snd r1)" "c < getNCols (upd_problem (snd r1))" "col_live (upd_domains (snd r1)) c"
      using 1 assms(2,4) unfolding cuts_to_def by (blast, metis rebounded_fields(11), blast)
    show ?thesis
    proof (cases rhsinf)
      case True
      then show ?thesis using cuts_to_refl [OF good(1) st1] by (simp add: r2_def)
    next
      case False
      have "cuts_to num (save_row row (snd r1)) (fst r2) (snd r2) (\<lambda>x. respects_bound ?t2 (rhs / v) (x ! c))"
        using False st1 good assms(3,7) by (intro change_bound_step) (simp_all add: good_state_save_row r2_def)
      from cuts_to_start [OF save_row_parts(1) this] show ?thesis
        by (rule cuts_to_cong) (simp add: False side_holds(2) [OF assms(5)])
    qed
  qed
  have "cuts_to num u (fst r2) (snd r2) (\<lambda>x. (lhsinf \<or> lhs \<le> v * x ! c) \<and> (rhsinf \<or> v * x ! c \<le> rhs))"
    by (rule cuts_to_trans [OF 1 2]) (simp_all add: r2_def)
  then show ?thesis by (simp only: run [symmetric] fst_conv snd_conv)
qed

lemma singleton_row:
  assumes "update_ok u" and "r < getNRows (upd_problem u)" and "rowsize (upd_problem u) ! r = 1"
  obtains c v where "row_coeffs (upd_problem u) ! r = [(c, v)]" "c < getNCols (upd_problem u)" "v \<noteq> 0"
proof -
  let ?p = "upd_problem u"
  have "length (row_coeffs ?p ! r) = 1"
    using assms by (auto simp: update_ok_def storages_ok_def line_sizes_ok_def getNRows_def)
  then obtain c v where row: "row_coeffs ?p ! r = [(c, v)]" by (auto simp: length_Suc_conv)
  moreover have "row_coeffs ?p ! r \<in> set (row_coeffs ?p)" using assms(2) by (simp add: getNRows_def)
  then have "[(c, v)] \<in> set (row_coeffs ?p)" by (simp only: row)
  then have "c < getNCols ?p \<and> v \<noteq> 0"
    using assms(1) unfolding update_ok_def problem_ok_def matrix_ok_def by force
  ultimately show ?thesis using that by blast
qed

definition equation_sides_ok :: "problem \<Rightarrow> bool" where
  "equation_sides_ok p \<longleftrightarrow> (\<forall>r<getNRows p. flags_test (row_flags p ! r) [kEquation] \<longrightarrow>
     \<not> flags_test (row_flags p ! r) [kLhsInf] \<and> \<not> flags_test (row_flags p ! r) [kRhsInf] \<and>
     lhs_values p ! r = rhs_values p ! r)"

text \<open>The values a singleton row would give to its column.\<close>

definition small_row :: "Num \<Rightarrow> problem \<Rightarrow> nat \<Rightarrow> bool" where
  "small_row num p r \<longleftrightarrow> (\<forall>(c, v)\<in>set (row_coeffs p ! r).
     (flags_test (row_flags p ! r) [kLhsInf] \<or> small num (lhs_values p ! r / v)) \<and>
     (flags_test (row_flags p ! r) [kRhsInf] \<or> small num (rhs_values p ! r / v)))"

text \<open>The change before the row is marked redundant.\<close>

definition singleton_change :: "Num \<Rightarrow> nat \<Rightarrow> problem_update \<Rightarrow> PresolveStatus \<times> problem_update" where
  "singleton_change num row u =
     (let p = upd_problem u; v = snd (row_coeffs p ! row ! 0); col = fst (row_coeffs p ! row ! 0);
          lhs = lhs_values p ! row; rhs = rhs_values p ! row;
          lhsinf = upd_rflag u row [kLhsInf]; rhsinf = upd_rflag u row [kRhsInf]
      in if isZero num v then
           (if (\<not> rhsinf \<and> isLT num rhs 0) \<or> (\<not> lhsinf \<and> isGT num lhs 0) then kInfeasibleStatus else kUnchanged, u)
         else if upd_rflag u row [kEquation] then fixCol num col (side_bound num rhs v) (save_row row u)
         else singleton_bounds num row col v lhs rhs lhsinf rhsinf u)"

lemma removeSingletonRow_form:
  "removeSingletonRow num row u =
     (if rowsize (upd_problem u) ! row \<noteq> 1 \<or> upd_rflag u row [kRedundantRow] then (kUnchanged, u)
      else (fst (singleton_change num row u), update_markRowRedundant row (snd (singleton_change num row u))))"
  by (simp add: removeSingletonRow_def singleton_change_def Let_def)

lemma singleton_change_step:
  assumes "good_state num u" and "r < getNRows (upd_problem u)" and "rowsize (upd_problem u) ! r = 1" and "exact num"
    and "equation_sides_ok (upd_problem u)" and "small_row num (upd_problem u) r"
    and "\<forall>(c, v)\<in>set (row_coeffs (upd_problem u) ! r). col_live (upd_domains u) c"
  shows "cuts_to num u (fst (singleton_change num r u)) (snd (singleton_change num r u))
    (\<lambda>x. satisfies_row (row_flags (upd_problem u) ! r) (lhs_values (upd_problem u) ! r) (rhs_values (upd_problem u) ! r)
      (row_value (row_coeffs (upd_problem u) ! r) x))"
proof -
  let ?p = "upd_problem u"
  obtain c v where row: "row_coeffs ?p ! r = [(c, v)]" and c: "c < getNCols ?p" and v: "v \<noteq> 0"
    using singleton_row [OF _ assms(2,3)] assms(1) unfolding good_state_def by metis
  have live: "col_live (upd_domains u) c" using assms(7) row by simp
  have small: "\<not> upd_rflag u r [kLhsInf] \<Longrightarrow> small num (lhs_values ?p ! r / v)"
    "\<not> upd_rflag u r [kRhsInf] \<Longrightarrow> small num (rhs_values ?p ! r / v)"
    using assms(6) row by (simp_all add: small_row_def)
  have zero: "\<not> isZero num v" using assms(4) v by (simp add: exact_def tol_simps)
  show ?thesis
  proof (cases "upd_rflag u r [kEquation]")
    case True
    then have eq: "\<not> upd_rflag u r [kLhsInf]" "\<not> upd_rflag u r [kRhsInf]" "lhs_values ?p ! r = rhs_values ?p ! r"
      using assms(2,5) by (simp_all add: equation_sides_ok_def)
    have run: "singleton_change num r u = fixCol num c (rhs_values ?p ! r / v) (save_row r u)"
      using True zero row by (simp add: singleton_change_def Let_def side_bound_exact [OF assms(4)])
    have "cuts_to num (save_row r u) (fst (singleton_change num r u)) (snd (singleton_change num r u))
        (\<lambda>x. x ! c = rhs_values ?p ! r / v)"
      using assms(1,4) c live small(2) eq(2) by (intro fixCol_step) (simp_all add: good_state_save_row run)
    moreover have "(w = rhs_values ?p ! r / v) = (v * w = rhs_values ?p ! r)" for w using v by (auto simp: field_simps)
    moreover have "satisfies_row (row_flags ?p ! r) (lhs_values ?p ! r) (rhs_values ?p ! r) (row_value (row_coeffs ?p ! r) x) \<longleftrightarrow>
        v * x ! c = rhs_values ?p ! r" for x
      using eq by (auto simp: row row_value_def satisfies_row_def)
    ultimately show ?thesis
      by (intro cuts_to_start [of "save_row r u" u, OF save_row_parts(1)]) (simp add: cuts_to_def)
  next
    case False
    have run: "singleton_change num r u = singleton_bounds num r c v (lhs_values ?p ! r) (rhs_values ?p ! r)
        (upd_rflag u r [kLhsInf]) (upd_rflag u r [kRhsInf]) u"
      using False zero row by (simp add: singleton_change_def Let_def)
    have "cuts_to num u (fst (singleton_change num r u)) (snd (singleton_change num r u))
        (\<lambda>x. (upd_rflag u r [kLhsInf] \<or> lhs_values ?p ! r \<le> v * x ! c) \<and> (upd_rflag u r [kRhsInf] \<or> v * x ! c \<le> rhs_values ?p ! r))"
      by (rule singleton_bounds_step [OF assms(1) c assms(4) live v small]) (simp_all add: run)
    then show ?thesis by (rule cuts_to_cong) (simp add: row row_value_def satisfies_row_def)
  qed
qed

text \<open>What the removal of singleton rows leaves of a problem: rows only become redundant.\<close>

definition rows_kept :: "problem \<Rightarrow> problem \<Rightarrow> bool" where
  "rows_kept p q \<longleftrightarrow> row_coeffs q = row_coeffs p \<and> col_coeffs q = col_coeffs p \<and> lhs_values q = lhs_values p \<and>
     rhs_values q = rhs_values p \<and> rowsize q = rowsize p \<and> colsize q = colsize p \<and> obj_coeffs q = obj_coeffs p \<and>
     obj_offset q = obj_offset p \<and> length (row_flags q) = length (row_flags p) \<and>
     (\<forall>r. row_flags q ! r = row_flags p ! r \<or> row_flags q ! r = flags_set [kRedundantRow] (row_flags p ! r))"

lemma redundant_flags:
  "flags_test (flags_set [kRedundantRow] f) [kLhsInf] = flags_test f [kLhsInf]"
  "flags_test (flags_set [kRedundantRow] f) [kRhsInf] = flags_test f [kRhsInf]"
  "flags_test (flags_set [kRedundantRow] f) [kEquation] = flags_test f [kEquation]"
  "flags_set [kRedundantRow] (flags_set [kRedundantRow] f) = flags_set [kRedundantRow] f"
  by (simp_all add: flags_test_set flag_defs) (simp add: flags_set_def)

lemma rows_kept_refl [simp]: "rows_kept p p"
  by (simp add: rows_kept_def)

lemma rows_kept_trans: "rows_kept p q \<Longrightarrow> rows_kept q s \<Longrightarrow> rows_kept p s"
  unfolding rows_kept_def by (metis redundant_flags(4))

lemma rebounded_rows_kept: "rebounded p q \<Longrightarrow> rows_kept p q"
  by (simp add: rows_kept_def rebounded_fields)

lemma reflag_rows_kept: "rows_kept p (reflag_row r (flags_set [kRedundantRow] (row_flags p ! r)) p)"
proof -
  have "(row_flags p)[r := f] ! k = row_flags p ! k \<or> k = r \<and> (row_flags p)[r := f] ! k = f" for f k
    by (cases "r < length (row_flags p)") (auto simp: nth_list_update list_update_beyond)
  then show ?thesis by (auto simp: rows_kept_def reflag_row_def)
qed

lemma rows_kept_tests:
  assumes "rows_kept p q"
  shows "getNRows q = getNRows p" "getNCols q = getNCols p" "equation_sides_ok p \<Longrightarrow> equation_sides_ok q"
    "small_row num p r \<Longrightarrow> small_row num q r"
proof -
  show dims: "getNRows q = getNRows p" "getNCols q = getNCols p"
    using assms by (simp_all add: rows_kept_def getNRows_def getNCols_def)
  have flags: "flags_test (row_flags q ! r) [fl] = flags_test (row_flags p ! r) [fl]" if "fl \<in> {kLhsInf, kRhsInf, kEquation}" for r fl
  proof -
    have "row_flags q ! r = row_flags p ! r \<or> row_flags q ! r = flags_set [kRedundantRow] (row_flags p ! r)"
      using assms by (simp add: rows_kept_def)
    then show ?thesis using that redundant_flags(1-3) [of "row_flags p ! r"] by auto
  qed
  show "equation_sides_ok p \<Longrightarrow> equation_sides_ok q"
    using assms dims by (simp add: equation_sides_ok_def flags rows_kept_def)
  show "small_row num p r \<Longrightarrow> small_row num q r"
    using assms by (simp add: small_row_def flags rows_kept_def)
qed

text \<open>A row counts as long as it is not redundant; the others are not touched by its removal.\<close>

lemma solves_without:
  assumes "r < getNRows p" and "length (row_flags p) = getNRows p" and "\<not> flags_test (row_flags p ! r) [kRedundantRow]"
    and "rebounded p q"
  shows "solves (reflag_row r (flags_set [kRedundantRow] (row_flags q ! r)) q) x \<and>
      satisfies_row (row_flags p ! r) (lhs_values p ! r) (rhs_values p ! r) (row_value (row_coeffs p ! r) x) \<longleftrightarrow>
    active_rows_satisfied p x \<and> in_box q x"
proof -
  let ?q = "reflag_row r (flags_set [kRedundantRow] (row_flags q ! r)) q"
  note same = rebounded_fields [OF assms(4)]
  have "active_rows_satisfied ?q x \<longleftrightarrow> (\<forall>k<getNRows p. k \<noteq> r \<longrightarrow> flags_test (row_flags p ! k) [kRedundantRow] \<or>
      satisfies_row (row_flags p ! k) (lhs_values p ! k) (rhs_values p ! k) (row_value (row_coeffs p ! k) x))"
    using assms(1,2) same by (auto simp: active_rows_satisfied_def reflag_row_def getNRows_def nth_list_update dropped_flags)
  moreover have "active_rows_satisfied p x \<longleftrightarrow>
      satisfies_row (row_flags p ! r) (lhs_values p ! r) (rhs_values p ! r) (row_value (row_coeffs p ! r) x) \<and>
      (\<forall>k<getNRows p. k \<noteq> r \<longrightarrow> flags_test (row_flags p ! k) [kRedundantRow] \<or>
      satisfies_row (row_flags p ! k) (lhs_values p ! k) (rhs_values p ! k) (row_value (row_coeffs p ! k) x))"
    using assms(1,3) unfolding active_rows_satisfied_def by metis
  moreover have "solves ?q x \<longleftrightarrow> active_rows_satisfied ?q x \<and> in_box q x"
    by (auto simp: solves_def in_box_def reflag_row_def getNCols_def)
  ultimately show ?thesis by blast
qed

definition singletons_ok :: "Num \<Rightarrow> problem_update \<Rightarrow> bool" where
  "singletons_ok num u \<longleftrightarrow> equation_sides_ok (upd_problem u) \<and> (\<forall>r<getNRows (upd_problem u).
     \<not> upd_rflag u r [kRedundantRow] \<and> rowsize (upd_problem u) ! r = 1 \<longrightarrow>
       small_row num (upd_problem u) r \<and> (\<forall>(c, v)\<in>set (row_coeffs (upd_problem u) ! r). col_live (upd_domains u) c))"

text \<open>An equivalent step: the state stays good, rows only become redundant, the solutions are the same.\<close>

definition same_solutions :: "Num \<Rightarrow> problem_update \<Rightarrow> PresolveStatus \<Rightarrow> problem_update \<Rightarrow> bool" where
  "same_solutions num u st u' \<longleftrightarrow> good_state num u' \<and> rows_kept (upd_problem u) (upd_problem u') \<and>
     (\<forall>k<getNCols (upd_problem u). col_live (upd_domains u) k \<longrightarrow> col_live (upd_domains u') k) \<and>
     (\<forall>x. st \<noteq> kInfeasibleStatus \<and> solves (upd_problem u') x \<longleftrightarrow> solves (upd_problem u) x)"

lemma same_solutions_refl: "good_state num u \<Longrightarrow> st \<noteq> kInfeasibleStatus \<Longrightarrow> same_solutions num u st u"
  by (simp add: same_solutions_def)

lemma same_solutions_trans:
  assumes "same_solutions num u st1 u1" and "st1 \<noteq> kInfeasibleStatus" and "same_solutions num u1 st2 u2"
  shows "same_solutions num u st2 u2"
proof -
  have kept: "rows_kept (upd_problem u) (upd_problem u1)" "rows_kept (upd_problem u1) (upd_problem u2)"
    using assms(1,3) by (simp_all add: same_solutions_def)
  then show ?thesis
    using assms rows_kept_trans [OF kept] rows_kept_tests(2) [OF kept(1)] unfolding same_solutions_def by simp
qed

lemma same_solutions_keeps:
  assumes "same_solutions num u st u'" and "singletons_ok num u" and "good_state num u"
  shows "singletons_ok num u'"
proof -
  have kept: "rows_kept (upd_problem u) (upd_problem u')" using assms(1) by (simp add: same_solutions_def)
  note dims = rows_kept_tests [OF kept]
  have cols: "c < getNCols (upd_problem u)" if "(c, v) \<in> set (row_coeffs (upd_problem u) ! r)" "r < getNRows (upd_problem u)" for c v r
  proof -
    have "row_coeffs (upd_problem u) ! r \<in> set (row_coeffs (upd_problem u))" using that(2) by (simp add: getNRows_def)
    with that(1) assms(3) show ?thesis by (auto simp: good_state_def update_ok_def problem_ok_def matrix_ok_def)
  qed
  have red: "upd_rflag u r [kRedundantRow] \<Longrightarrow> upd_rflag u' r [kRedundantRow]" for r
  proof -
    assume "upd_rflag u r [kRedundantRow]"
    moreover have "row_flags (upd_problem u') ! r = row_flags (upd_problem u) ! r \<or>
        row_flags (upd_problem u') ! r = flags_set [kRedundantRow] (row_flags (upd_problem u) ! r)"
      using kept by (simp add: rows_kept_def)
    ultimately show "upd_rflag u' r [kRedundantRow]" by (auto simp: dropped_flags)
  qed
  show ?thesis
    unfolding singletons_ok_def
  proof (intro conjI allI impI)
    show "equation_sides_ok (upd_problem u')" using assms(2) dims(3) by (simp add: singletons_ok_def)
    fix r assume r: "r < getNRows (upd_problem u')" "\<not> upd_rflag u' r [kRedundantRow] \<and> rowsize (upd_problem u') ! r = 1"
    then have "small_row num (upd_problem u) r \<and> (\<forall>(c, v)\<in>set (row_coeffs (upd_problem u) ! r). col_live (upd_domains u) c)"
      using assms(2) red dims(1) kept by (auto simp: singletons_ok_def rows_kept_def)
    moreover have "row_coeffs (upd_problem u') = row_coeffs (upd_problem u)" using kept by (simp add: rows_kept_def)
    ultimately show "small_row num (upd_problem u') r"
      "\<forall>(c, v)\<in>set (row_coeffs (upd_problem u') ! r). col_live (upd_domains u') c"
      using dims(1,4) cols r(1) assms(1) by (auto simp: same_solutions_def)
  qed
qed

lemma removeSingletonRow_step:
  assumes "good_state num u" and "r < getNRows (upd_problem u)" and "exact num" and "singletons_ok num u"
    and "removeSingletonRow num r u = (st, u')"
  shows "same_solutions num u st u'"
proof (cases "rowsize (upd_problem u) ! r \<noteq> 1 \<or> upd_rflag u r [kRedundantRow]")
  case True
  then show ?thesis using assms(1,5) same_solutions_refl by (auto simp: removeSingletonRow_form)
next
  case False
  let ?p = "upd_problem u"
  define w where "w = snd (singleton_change num r u)"
  have st: "st = fst (singleton_change num r u)" and u': "u' = update_markRowRedundant r w"
    using assms(5) False by (simp_all add: removeSingletonRow_form w_def)
  have "cuts_to num u st w (\<lambda>x. satisfies_row (row_flags ?p ! r) (lhs_values ?p ! r) (rhs_values ?p ! r) (row_value (row_coeffs ?p ! r) x))"
    unfolding st w_def using assms(2,4) False by (intro singleton_change_step [OF assms(1,2) _ assms(3)]) (auto simp: singletons_ok_def)
  then have good: "good_state num w" and reb: "rebounded ?p (upd_problem w)"
    and live: "\<forall>k<getNCols ?p. col_live (upd_domains u) k \<longrightarrow> col_live (upd_domains w) k"
    and box: "\<And>x. st \<noteq> kInfeasibleStatus \<and> in_box (upd_problem w) x \<longleftrightarrow> in_box ?p x \<and>
      satisfies_row (row_flags ?p ! r) (lhs_values ?p ! r) (rhs_values ?p ! r) (row_value (row_coeffs ?p ! r) x)"
    by (simp_all add: cuts_to_def)
  note same = rebounded_fields [OF reb]
  have len: "length (row_flags ?p) = getNRows ?p" using assms(1) by (simp add: good_state_def update_ok_def problem_ok_def)
  have p': "upd_problem u' = reflag_row r (flags_set [kRedundantRow] (row_flags (upd_problem w) ! r)) (upd_problem w)"
    using False same by (simp add: u' drop_problems(1))
  have r: "r < getNRows (upd_problem w)" using assms(2) same by simp
  have dom: "prob_domains (upd_problem u') = upd_domains w" by (simp add: p' reflag_row_def)
  have "update_ok u'" unfolding u' by (rule drop_update_ok(3) [OF _ r]) (use good in \<open>simp add: good_state_def\<close>)
  moreover have "getNCols (upd_problem u') = getNCols (upd_problem w)" by (simp add: p' reflag_row_def getNCols_def)
  ultimately have "good_state num u'" using good by (simp add: good_state_def dom)
  moreover have "rows_kept ?p (upd_problem u')"
    unfolding p' by (rule rows_kept_trans [OF rebounded_rows_kept [OF reb] reflag_rows_kept])
  moreover have "st \<noteq> kInfeasibleStatus \<and> solves (upd_problem u') x \<longleftrightarrow> solves ?p x" for x
  proof -
    note without = solves_without [OF assms(2) len _ reb, of x]
    have start: "solves ?p x \<longleftrightarrow> active_rows_satisfied ?p x \<and> in_box ?p x" by (rule rebounded_solves) simp
    have row: "active_rows_satisfied ?p x \<Longrightarrow> satisfies_row (row_flags ?p ! r) (lhs_values ?p ! r) (rhs_values ?p ! r) (row_value (row_coeffs ?p ! r) x)"
      using False assms(2) by (auto simp: active_rows_satisfied_def)
    have in_w: "solves (upd_problem u') x \<Longrightarrow> in_box (upd_problem w) x"
      by (auto simp: p' solves_def in_box_def reflag_row_def getNCols_def)
    show ?thesis unfolding start using without False row in_w box [of x] unfolding p' [symmetric] by blast
  qed
  ultimately show ?thesis using live by (simp add: same_solutions_def dom)
qed

lemma remove_singletons_sound:
  assumes "good_state num u" and "set rs \<subseteq> {..<getNRows (upd_problem u)}" and "exact num" and "singletons_ok num u"
    and "remove_singletons num rs u = (st, u')"
  shows "same_solutions num u st u'"
  using assms(1,2,4,5)
proof (induction rs arbitrary: u)
  case Nil
  then show ?case by (simp add: same_solutions_refl)
next
  case (Cons r rs)
  obtain st1 u1 where one: "removeSingletonRow num r u = (st1, u1)" by fastforce
  have step: "same_solutions num u st1 u1"
    using removeSingletonRow_step [OF Cons.prems(1) _ assms(3) Cons.prems(3) one] Cons.prems(2) by simp
  show ?case
  proof (cases "st1 = kInfeasibleStatus")
    case True
    with step one Cons.prems(4) show ?thesis by simp
  next
    case False
    then have run: "remove_singletons num rs u1 = (st, u')" using one Cons.prems(4) by simp
    have "good_state num u1" "getNRows (upd_problem u1) = getNRows (upd_problem u)"
      using step rows_kept_tests(1) by (auto simp: same_solutions_def)
    then have "same_solutions num u1 st u'"
      using Cons.IH [OF _ _ _ run] Cons.prems(2) same_solutions_keeps [OF step Cons.prems(3,1)] by simp
    then show ?thesis by (rule same_solutions_trans [OF step False])
  qed
qed

section \<open>Coefficient changes\<close>

context coeff_listener
begin

lemma change_tracks:
  assumes "tracks domains row act" and "coeff_in_row c oldv row" and "coeff_in_row c newv row'"
    and "same_but c row row'" and "\<not> (isHugeVal num (newv - oldv) \<and> 0 < oldv * newv)"
  shows "tracks domains row' (fst (update_activity_after_coeffchange num (lower_bounds domains ! c)
    (upper_bounds domains ! c) (col_flags domains ! c) oldv newv current domains listener (act, s)))"
proof (cases "oldv * newv \<le> 0")
  case True
  with sign_flipped_tracks [OF assms(1-4)] show ?thesis by (simp add: update_activity_after_coeffchange_def)
next
  case False
  with same_sign_tracks [OF assms(1-4), of num] assms(5) show ?thesis by (simp add: update_activity_after_coeffchange_def)
qed

end

interpretation update_coeff: coeff_listener "\<lambda>actChange act s. update_activity nr rf actChange row act s"
proof unfold_locales
  fix actChange s and act :: RowActivity
  have "act = act\<lparr>lastchange := lastchange act\<rparr>" by simp
  then have "\<exists>r. act = act\<lparr>lastchange := r\<rparr>" by (rule exI)
  then show "\<exists>r. fst (update_activity nr rf actChange row act s) = act\<lparr>lastchange := r\<rparr>"
    by (auto simp: update_activity_def Let_def)
qed

text \<open>
  The callback of \<open>flushChangedCoeffs\<close> keeps the activities, as long as a coefficient that keeps its
  sign does not change by a huge value (then it recomputes over the row before the change).
\<close>

definition rows_tracked :: "problem \<Rightarrow> sparse_vec list \<Rightarrow> RowActivity list \<times> activity_log \<times> int \<Rightarrow> bool" where
  "rows_tracked p rows st \<longleftrightarrow> all_tracked (prob_domains p) rows (fst st) \<and>
     (\<forall>row\<in>set rows. \<forall>e\<in>set row. snd e \<noteq> 0)"

definition change_allowed :: "Num \<Rightarrow> nat \<Rightarrow> rat \<Rightarrow> rat \<Rightarrow> bool" where
  "change_allowed num c v w \<longleftrightarrow> \<not> (isHugeVal num (w - v) \<and> 0 < v * w)"

interpretation flushed: coefficient_client "update_coeffChanged num p nr" "rows_tracked p" "change_allowed num"
proof unfold_locales
  fix rows and st :: "RowActivity list \<times> activity_log \<times> int" and r pre c v post w stored
  assume inv: "rows_tracked p rows st" and r: "r < length rows" and row: "rows ! r = pre @ (c, v) # post"
    and sorted: "sorted_cols (rows ! r)" and allowed: "change_allowed num c v w"
  let ?new = "pre @ (if w = 0 then [] else [(c, w)]) @ post"
  obtain acts alog n where st: "st = (acts, alog, n)" by (cases st) auto
  have dist: "distinct_cols (rows ! r)" and tr: "tracks (prob_domains p) (rows ! r) (acts ! r)" and len: "length acts = length rows"
    using inv r by (simp_all add: rows_tracked_def st all_tracked_def)
  have "(c, v) \<in> set (rows ! r)" by (simp add: row)
  then have v: "v \<noteq> 0" using inv r by (fastforce simp: rows_tracked_def dest: nth_mem)
  have keys: "c \<notin> fst ` set pre" "c \<notin> fst ` set post" "distinct (map fst (pre @ post))" using dist by (auto simp: row)
  have new: "distinct_cols ?new" using keys by (cases "w = 0") auto
  have "coeff_in_row c v (rows ! r)" using dist v by (simp add: coeff_in_row_def row)
  moreover have "coeff_in_row c w ?new" using keys new by (auto simp: coeff_in_row_def)
  moreover have "rest_of_row c (rows ! r) = rest_of_row c ?new" by (auto simp: rest_of_row_def row)
  then have "same_but c (rows ! r) ?new" by (simp add: same_but_def)
  ultimately have tracks: "tracks (prob_domains p) ?new (fst (update_activity_after_coeffchange num (prob_lbs p ! c) (prob_ubs p ! c)
      (prob_cflags p ! c) v w stored (prob_domains p) (\<lambda>ac act s. update_activity nr (row_flags p) ac r act s) (acts ! r, alog)))"
    using update_coeff.change_tracks [OF tr] allowed by (simp add: change_allowed_def)
  have "all_tracked (prob_domains p) (rows[r := X]) (acts[r := act])"
    if "tracks (prob_domains p) X act" "distinct_cols X" for X act
    using that inv r len by (auto simp: rows_tracked_def st all_tracked_def nth_list_update)
  note keep = this [OF tracks new]
  have "\<forall>row\<in>set (rows[r := ?new]). \<forall>e\<in>set row. snd e \<noteq> 0"
  proof
    fix row' assume "row' \<in> set (rows[r := ?new])"
    then have "row' = ?new \<or> row' \<in> set rows" using set_update_subset_insert by fast
    moreover have "\<forall>e\<in>set (rows ! r). snd e \<noteq> 0" using inv nth_mem [OF r] unfolding rows_tracked_def by blast
    ultimately show "\<forall>e\<in>set row'. snd e \<noteq> 0" using inv by (auto simp: rows_tracked_def row split: if_splits)
  qed
  then show "rows_tracked p (rows[r := ?new]) (update_coeffChanged num p nr r c v w stored st)"
    using keep by (simp add: rows_tracked_def update_coeffChanged_def st split_beta)
next
  fix rows acts r and s :: "activity_log \<times> int"
  assume inv: "rows_tracked p rows (acts, s)" and r: "r < length rows" "rows ! r = []"
  then have "tracks (prob_domains p) [] (acts ! r)" by (auto simp: rows_tracked_def all_tracked_def)
  then have "tracks (prob_domains p) [] (reset_min_max (acts ! r))" by (simp add: tracks_def reset_min_max_def)
  with inv r show "rows_tracked p rows (acts[r := reset_min_max (acts ! r)], s)"
    by (auto simp: rows_tracked_def all_tracked_def nth_list_update)
qed

lemma with_changes_sorted: "sorted_cols row \<Longrightarrow> sorted_cols (with_changes ch row)"
  unfolding with_changes_def by (rule sorted_cols_filter) (auto simp: sorted_cols_def case_prod_unfold comp_def)

lemma changed_sizes_ok:
  assumes "line_sizes_ok sizes lines"
  shows "line_sizes_ok (changed_sizes gs lines sizes) (changed_lines gs lines)"
  using assms by (auto simp: line_sizes_ok_def changed_lines_def changed_sizes_def split: option.splits)

lemma changed_lines_buffered:
  "changed_lines (group_by_first (row_major buffer)) rows = buffered_rows buffer rows"
  "changed_lines (group_by_first (col_major buffer)) cols = buffered_cols buffer cols"
  using changed_lines_groups [OF row_groups(1), of buffer "row_changes buffer" rows]
    changed_lines_groups [OF col_groups(1), of buffer "col_changes buffer" cols]
  by (simp_all add: buffered_rows_def buffered_cols_def row_changes_def col_changes_def row_groups col_groups)

lemma buffered_sorted:
  assumes "sorted_lines p"
  shows "\<forall>row\<in>set (buffered_rows buffer (row_coeffs p)). sorted_cols row"
    "\<forall>col\<in>set (buffered_cols buffer (col_coeffs p)). sorted_cols col"
  using assms by (auto simp: sorted_lines_def buffered_rows_def buffered_cols_def intro!: with_changes_sorted)

text \<open>The state after the buffer was flushed.\<close>

definition flushed_problem :: "problem_update \<Rightarrow> RowActivity list \<Rightarrow> problem" where
  "flushed_problem u acts = (upd_problem u)\<lparr>
     row_coeffs := buffered_rows (upd_buffer u) (row_coeffs (upd_problem u)), row_activities := acts,
     rowsize := changed_sizes (group_by_first (row_major (upd_buffer u))) (row_coeffs (upd_problem u)) (rowsize (upd_problem u)),
     col_coeffs := buffered_cols (upd_buffer u) (col_coeffs (upd_problem u)),
     colsize := changed_sizes (group_by_first (col_major (upd_buffer u))) (col_coeffs (upd_problem u)) (colsize (upd_problem u))\<rparr>"

lemma flushChangedCoeffs_computes:
  assumes "update_ok u" and "upd_buffer u \<noteq> []" and "buffer_ok (upd_problem u) (upd_buffer u)"
    and "\<forall>(r, c, w)\<in>set (upd_buffer u). \<forall>v. (c, v) \<in> set (row_coeffs (upd_problem u) ! r) \<longrightarrow> change_allowed num c v w"
  shows "\<exists>u' acts. flushChangedCoeffs num u = Some u' \<and> upd_buffer u' = [] \<and> marks u' = marks u \<and>
    upd_problem u' = flushed_problem u acts \<and>
    all_tracked (upd_domains u) (buffered_rows (upd_buffer u) (row_coeffs (upd_problem u))) acts"
proof -
  let ?p = "upd_problem u"
  have mat: "matrix_ok (getNCols ?p) (row_coeffs ?p) (col_coeffs ?p)" and tr: "all_tracked (upd_domains u) (row_coeffs ?p) (row_activities ?p)"
    and sorted: "\<forall>row\<in>set (row_coeffs ?p). sorted_cols row" "\<forall>col\<in>set (col_coeffs ?p). sorted_cols col"
    and sizes: "length (rowsize ?p) = getNRows ?p" "length (colsize ?p) = getNCols ?p"
    using assms(1) by (simp_all add: update_ok_def problem_ok_def storages_ok_def line_sizes_ok_def sorted_lines_def getNRows_def getNCols_def)
  have "\<forall>row\<in>set (row_coeffs ?p). \<forall>e\<in>set row. snd e \<noteq> 0" using mat by (fastforce simp: matrix_ok_def)
  with tr have "rows_tracked ?p (row_coeffs ?p) (row_activities ?p, upd_log u, ncoefchgs (upd_stats u))"
    by (simp add: rows_tracked_def)
  from flushed.changeCoefficients_computes [OF mat sorted sizes assms(3) this assms(4), of "nrounds (upd_stats u)" "singletonRows u" "singletonColumns u" "emptyColumns u"]
  obtain acts sr sc ec s' where
    "changeCoefficients (upd_buffer u) (update_coeffChanged num ?p (nrounds (upd_stats u)))
        (?p, singletonRows u, singletonColumns u, emptyColumns u, upd_log u, ncoefchgs (upd_stats u)) =
      Some (flushed_problem u acts, sr, sc, ec, s')"
    and "rows_tracked ?p (buffered_rows (upd_buffer u) (row_coeffs ?p)) (acts, s')"
    unfolding flushed_problem_def by blast
  then show ?thesis
    using assms(2) by (cases s') (auto simp: flushChangedCoeffs_def rows_tracked_def marks_def on_stats_def)
qed

lemma flushed_update_ok:
  assumes "update_ok u" and "buffer_ok (upd_problem u) (upd_buffer u)" and "upd_problem u' = flushed_problem u acts"
    and "marks u' = marks u" and "all_tracked (upd_domains u) (buffered_rows (upd_buffer u) (row_coeffs (upd_problem u))) acts"
  shows "update_ok u'"
proof -
  let ?p = "upd_problem u"
  have dims: "getNRows (upd_problem u') = getNRows ?p" "getNCols (upd_problem u') = getNCols ?p"
    by (simp_all add: assms(3) flushed_problem_def getNRows_def getNCols_def buffered_rows_def buffered_cols_def)
  let ?R = "buffered_rows (upd_buffer u) (row_coeffs ?p)" and ?C = "buffered_cols (upd_buffer u) (col_coeffs ?p)"
  have same: "prob_domains (upd_problem u') = prob_domains ?p" "lhs_values (upd_problem u') = lhs_values ?p"
    "rhs_values (upd_problem u') = rhs_values ?p" "row_flags (upd_problem u') = row_flags ?p"
    "obj_coeffs (upd_problem u') = obj_coeffs ?p"
    by (simp_all add: assms(3) flushed_problem_def)
  have new: "row_coeffs (upd_problem u') = ?R" "col_coeffs (upd_problem u') = ?C" "row_activities (upd_problem u') = acts"
    "rowsize (upd_problem u') = changed_sizes (group_by_first (row_major (upd_buffer u))) (row_coeffs ?p) (rowsize ?p)"
    "colsize (upd_problem u') = changed_sizes (group_by_first (col_major (upd_buffer u))) (col_coeffs ?p) (colsize ?p)"
    by (simp_all add: assms(3) flushed_problem_def)
  have ok: "problem_ok ?p" "storages_ok ?p" "sorted_lines ?p" "\<forall>c<getNCols ?p. box_ordered (prob_domains ?p) c" "marks_ok u"
    using assms(1) by (simp_all add: update_ok_def)
  have mat: "matrix_ok (getNCols ?p) ?R ?C" using buffered_matrix_ok [OF _ assms(2)] ok(1) by (simp add: problem_ok_def)
  have acts: "length acts = getNRows ?p" using assms(5) by (simp add: all_tracked_def buffered_rows_def getNRows_def)
  have "problem_ok (upd_problem u')"
    using ok(1) mat assms(5) unfolding problem_ok_def new same dims by blast
  moreover have "storages_ok (upd_problem u')"
    using ok(2) mat acts changed_sizes_ok [of "rowsize ?p" "row_coeffs ?p" "group_by_first (row_major (upd_buffer u))"]
      changed_sizes_ok [of "colsize ?p" "col_coeffs ?p" "group_by_first (col_major (upd_buffer u))"]
    unfolding storages_ok_def new dims changed_lines_buffered by blast
  moreover have "sorted_lines (upd_problem u')"
    using buffered_sorted [OF ok(3), of "upd_buffer u"] unfolding sorted_lines_def new by blast
  moreover have "marks_ok u'"
    using ok(5) assms(4) unfolding marks_ok_def marks_def dims same prod.inject by (elim conjE) (simp only: simp_thms)
  ultimately show ?thesis using ok(4) unfolding update_ok_def dims same by blast
qed

end
