(* ===== verification/Pap_Flush_Laws.thy ===== *)
theory Pap_Flush_Laws
  imports Pap_Flush
begin

text \<open>
  The second half of the end of a round: fixed columns are moved into the sides and the objective
  offset, rows and columns are deleted, empty columns are fixed; and the whole of \<open>flush\<close>.
\<close>

section \<open>Moving a fixed column to the sides\<close>

text \<open>A row as the loop sees it: flags, sides and activity.\<close>

definition row_data :: "problem \<Rightarrow> nat \<Rightarrow> flags \<times> rat \<times> rat \<times> RowActivity" where
  "row_data p r = (row_flags p ! r, lhs_values p ! r, rhs_values p ! r, row_activities p ! r)"

definition shift_data :: "rat \<Rightarrow> flags \<times> rat \<times> rat \<times> RowActivity \<Rightarrow> flags \<times> rat \<times> rat \<times> RowActivity" where
  "shift_data k d = (case d of (f, l, h, a) \<Rightarrow>
     let l' = (if flags_test f [kLhsInf] then l else l - k); h' = (if flags_test f [kRhsInf] then h else h - k)
     in (if \<not> flags_test f [kLhsInf, kRhsInf, kEquation] \<and> l' = h' then flags_set [kEquation] f else f,
         l', h', a\<lparr>act_min := act_min a - k, act_max := act_max a - k\<rparr>))"

definition row_lengths :: "problem \<Rightarrow> nat \<Rightarrow> bool" where
  "row_lengths p n \<longleftrightarrow> length (row_flags p) = n \<and> length (lhs_values p) = n \<and> length (rhs_values p) = n \<and>
     length (row_activities p) = n"

text \<open>Everything but the row data and the objective.\<close>

definition unshifted :: "problem \<Rightarrow> problem \<Rightarrow> bool" where
  "unshifted p q \<longleftrightarrow> row_coeffs q = row_coeffs p \<and> col_coeffs q = col_coeffs p \<and> rowsize q = rowsize p \<and>
     colsize q = colsize p \<and> prob_domains q = prob_domains p \<and> col_locks q = col_locks p"

lemma unshifted_trans: "unshifted p q \<Longrightarrow> unshifted q s \<Longrightarrow> unshifted p s"
  by (simp add: unshifted_def)

lemma move_entry_frame:
  "unshifted p (move_entry val e p)" "obj_coeffs (move_entry val e p) = obj_coeffs p"
  "obj_offset (move_entry val e p) = obj_offset p" "row_lengths (move_entry val e p) n = row_lengths p n"
  by (cases e; simp add: Let_def unshifted_def set_row_flag_def row_lengths_def)+

lemma flags_none: "\<not> flags_test f [a, b, c] \<longleftrightarrow> \<not> flags_test f [a] \<and> \<not> flags_test f [b] \<and> \<not> flags_test f [c]"
  by (simp add: flag_simps)

lemma move_entry_data:
  assumes "row_lengths p n" and "r < n"
  shows "row_data (move_entry val (r', v) p) r =
    (if r' = r \<and> \<not> flags_test (row_flags p ! r) [kRedundantRow] then shift_data (val * v) (row_data p r) else row_data p r)"
proof (cases "r' = r")
  case True
  have n: "r < length (row_flags p)" "r < length (lhs_values p)" "r < length (rhs_values p)" "r < length (row_activities p)"
    using assms by (simp_all add: row_lengths_def)
  show ?thesis
    using n by (simp add: True row_data_def shift_data_def Let_def set_row_flag_def)
next
  case False
  then show ?thesis by (simp add: row_data_def Let_def set_row_flag_def)
qed

text \<open>A row shifted by a constant, the flag of an equation aside.\<close>

definition shifted :: "rat \<Rightarrow> flags \<times> rat \<times> rat \<times> RowActivity \<Rightarrow> flags \<times> rat \<times> rat \<times> RowActivity \<Rightarrow> bool" where
  "shifted k d d' \<longleftrightarrow> (case (d, d') of ((f, l, h, a), (f', l', h', a')) \<Rightarrow>
     (f' = f \<or> f' = flags_set [kEquation] f \<and> \<not> flags_test f [kLhsInf] \<and> \<not> flags_test f [kRhsInf] \<and> l' = h') \<and>
     l' = (if flags_test f [kLhsInf] then l else l - k) \<and> h' = (if flags_test f [kRhsInf] then h else h - k) \<and>
     a' = a\<lparr>act_min := act_min a - k, act_max := act_max a - k\<rparr>)"

lemma equation_flag:
  "flags_test (flags_set [kEquation] f) [kLhsInf] = flags_test f [kLhsInf]"
  "flags_test (flags_set [kEquation] f) [kRhsInf] = flags_test f [kRhsInf]"
  "flags_test (flags_set [kEquation] f) [kRedundantRow] = flags_test f [kRedundantRow]"
  "flags_test (flags_set [kEquation] f) [kEquation]"
  by (simp_all add: flags_test_set flag_defs)

lemma equation_flag_twice: "flags_set [kEquation] (flags_set [kEquation] f) = flags_set [kEquation] f"
  by (simp add: flags_set_def)

lemma shifted_refl: "shifted 0 d d"
  by (cases d) (simp add: shifted_def)

lemma shift_data_shifted: "shifted k d (shift_data k d)"
  by (cases d) (simp add: shifted_def shift_data_def Let_def flags_none)

lemma shifted_trans:
  assumes "shifted k d d'" and "shifted k' d' d''"
  shows "shifted (k + k') d d''"
proof -
  obtain f l h a f' l' h' a' f'' l'' h'' a'' where d: "d = (f, l, h, a)" "d' = (f', l', h', a')" "d'' = (f'', l'', h'', a'')"
    by (cases d; cases d'; cases d'')
  have flags: "flags_test f' [kLhsInf] = flags_test f [kLhsInf]" "flags_test f' [kRhsInf] = flags_test f [kRhsInf]"
    using assms(1) by (auto simp: shifted_def d equation_flag)
  have first: "f' = f \<or> f' = flags_set [kEquation] f \<and> \<not> flags_test f [kLhsInf] \<and> \<not> flags_test f [kRhsInf] \<and> l' = h'"
    and second: "f'' = f' \<or> f'' = flags_set [kEquation] f' \<and> \<not> flags_test f' [kLhsInf] \<and> \<not> flags_test f' [kRhsInf] \<and> l'' = h''"
    and rel: "l' = (if flags_test f [kLhsInf] then l else l - k)" "h' = (if flags_test f [kRhsInf] then h else h - k)"
    and rel': "l'' = (if flags_test f' [kLhsInf] then l' else l' - k')" "h'' = (if flags_test f' [kRhsInf] then h' else h' - k')"
    and acts: "a' = a\<lparr>act_min := act_min a - k, act_max := act_max a - k\<rparr>"
      "a'' = a'\<lparr>act_min := act_min a' - k', act_max := act_max a' - k'\<rparr>"
    using assms unfolding shifted_def d prod.case by blast+
  have sides: "l'' = (if flags_test f [kLhsInf] then l else l - (k + k'))" "h'' = (if flags_test f [kRhsInf] then h else h - (k + k'))"
    "a'' = a\<lparr>act_min := act_min a - (k + k'), act_max := act_max a - (k + k')\<rparr>"
    using rel rel' acts by (simp_all add: flags)
  have "f'' = f \<or> f'' = flags_set [kEquation] f \<and> \<not> flags_test f [kLhsInf] \<and> \<not> flags_test f [kRhsInf] \<and> l'' = h''"
    using first second rel rel' flags equation_flag_twice [of f] by auto
  then show ?thesis using sides unfolding shifted_def d prod.case by blast
qed

lemma shifted_redundant:
  "shifted k d d' \<Longrightarrow> flags_test (fst d') [kRedundantRow] = flags_test (fst d) [kRedundantRow]"
  by (cases d; cases d') (auto simp: shifted_def equation_flag)

text \<open>The entries of one column, and of the columns in the work list.\<close>

lemma fold_move_frame:
  "unshifted p (fold (move_entry val) es p)" "obj_coeffs (fold (move_entry val) es p) = obj_coeffs p"
  "obj_offset (fold (move_entry val) es p) = obj_offset p" "row_lengths (fold (move_entry val) es p) n = row_lengths p n"
proof -
  have "unshifted p (fold (move_entry val) es p) \<and> obj_coeffs (fold (move_entry val) es p) = obj_coeffs p \<and>
      obj_offset (fold (move_entry val) es p) = obj_offset p \<and> row_lengths (fold (move_entry val) es p) n = row_lengths p n"
  proof (induction es arbitrary: p)
    case Nil
    then show ?case by (simp add: unshifted_def)
  next
    case (Cons e es)
    from Cons [of "move_entry val e p"] show ?case
      using move_entry_frame [where p = p and val = val and e = e] unshifted_trans by (auto simp del: move_entry.simps)
  qed
  then show "unshifted p (fold (move_entry val) es p)" "obj_coeffs (fold (move_entry val) es p) = obj_coeffs p"
    "obj_offset (fold (move_entry val) es p) = obj_offset p" "row_lengths (fold (move_entry val) es p) n = row_lengths p n"
    by auto
qed

lemma fold_move_redundant:
  assumes "row_lengths p n" and "r < n" and "flags_test (row_flags p ! r) [kRedundantRow]"
  shows "row_data (fold (move_entry val) es p) r = row_data p r"
  using assms
proof (induction es arbitrary: p)
  case (Cons e es)
  obtain r' v where e: "e = (r', v)" by fastforce
  have same: "row_data (move_entry val e p) r = row_data p r"
    using move_entry_data [OF Cons.prems(1,2)] Cons.prems(3) by (simp add: e del: move_entry.simps)
  then have "flags_test (row_flags (move_entry val e p) ! r) [kRedundantRow]" using Cons.prems(3) by (simp add: row_data_def)
  with Cons.IH [of "move_entry val e p"] Cons.prems same show ?case by (simp add: move_entry_frame del: move_entry.simps)
qed simp

lemma fold_move_shifted:
  assumes "row_lengths p n" and "r < n" and "\<not> flags_test (row_flags p ! r) [kRedundantRow]" and "distinct (map fst es)"
  shows "shifted (val * coeff_of es r) (row_data p r) (row_data (fold (move_entry val) es p) r)"
  using assms
proof (induction es arbitrary: p)
  case Nil
  then show ?case by (simp add: coeff_of_def shifted_refl)
next
  case (Cons e es)
  obtain r' v where e: "e = (r', v)" by fastforce
  let ?q = "move_entry val e p"
  define k where "k = (if r' = r then val * v else 0)"
  have step: "shifted k (row_data p r) (row_data ?q r)"
    using move_entry_data [OF Cons.prems(1,2)] Cons.prems(3) shift_data_shifted shifted_refl
    by (simp add: e k_def del: move_entry.simps)
  then have "\<not> flags_test (row_flags ?q ! r) [kRedundantRow]"
    using shifted_redundant [OF step] Cons.prems(3) by (simp add: row_data_def del: move_entry.simps)
  then have "shifted (val * coeff_of es r) (row_data ?q r) (row_data (fold (move_entry val) es ?q) r)"
    using Cons.IH [of ?q] Cons.prems by (simp add: move_entry_frame del: move_entry.simps)
  from shifted_trans [OF step this]
  have "shifted (k + val * coeff_of es r) (row_data p r) (row_data (fold (move_entry val) (e # es) p) r)"
    by (simp del: move_entry.simps)
  moreover have "k + val * coeff_of es r = val * coeff_of (e # es) r"
  proof -
    have "map_of es r' = None" using Cons.prems(4) by (simp add: e map_of_eq_None_iff)
    then show ?thesis by (cases "r' = r") (simp_all add: k_def coeff_of_def e)
  qed
  ultimately show ?case by simp
qed

section \<open>All fixed columns\<close>

definition moved :: "problem \<Rightarrow> nat \<Rightarrow> bool" where
  "moved p c \<longleftrightarrow> flags_test (prob_cflags p ! c) [kFixed] \<and> \<not> flags_test (prob_cflags p ! c) [kLbInf] \<and>
     \<not> flags_test (prob_cflags p ! c) [kUbInf]"

definition col_shift :: "problem \<Rightarrow> nat \<Rightarrow> nat \<Rightarrow> rat" where
  "col_shift p r c = (if moved p c then prob_lbs p ! c * coeff_of (col_coeffs p ! c) r else 0)"

lemma unshifted_dims: "unshifted p q \<Longrightarrow> getNCols q = getNCols p" "unshifted p q \<Longrightarrow> getNRows q = getNRows p"
  by (simp_all add: unshifted_def getNCols_def getNRows_def)

lemma unshifted_col_shift: "unshifted p q \<Longrightarrow> col_shift q r c = col_shift p r c" "unshifted p q \<Longrightarrow> moved q c = moved p c"
  by (simp_all add: unshifted_def col_shift_def moved_def)

lemma move_to_offset_frame:
  "unshifted p (move_to_offset c v p)" "row_data (move_to_offset c v p) r = row_data p r"
  "row_lengths (move_to_offset c v p) n = row_lengths p n" "length (obj_coeffs (move_to_offset c v p)) = length (obj_coeffs p)"
  "col_coeffs (move_to_offset c v p) = col_coeffs p"
  by (simp_all add: move_to_offset_def unshifted_def row_data_def row_lengths_def)

lemma move_to_offset_objective:
  assumes "c < length (obj_coeffs p)" and "length (obj_coeffs p) = getNCols p" and "x ! c = v"
  shows "computeSolObjective (move_to_offset c v p) x = computeSolObjective p x"
proof (cases "obj_coeffs p ! c = 0")
  case True
  then show ?thesis by (simp add: move_to_offset_def)
next
  case False
  then have m: "move_to_offset c v p = p\<lparr>obj_offset := obj_offset p + v * obj_coeffs p ! c, obj_coeffs := (obj_coeffs p)[c := 0]\<rparr>"
    by (simp add: move_to_offset_def)
  have "computeSolObjective (move_to_offset c v p) x = obj_value ((obj_coeffs p)[c := 0]) (obj_offset p + v * obj_coeffs p ! c) x"
    using assms(2) unfolding m by (subst computeSolObjective_eq) (simp_all add: getNCols_def)
  also have "\<dots> = obj_value (obj_coeffs p) (obj_offset p) x"
    using assms(1,3) by (simp add: obj_value_update) (simp add: obj_value_def)
  also have "\<dots> = computeSolObjective p x" using assms(2) by (simp add: computeSolObjective_eq)
  finally show ?thesis .
qed

text \<open>What one step and the whole loop do to the rows and to the objective.\<close>

definition row_moved :: "rat \<Rightarrow> problem \<Rightarrow> problem \<Rightarrow> nat \<Rightarrow> bool" where
  "row_moved k p q r \<longleftrightarrow> (if flags_test (row_flags p ! r) [kRedundantRow] then row_data q r = row_data p r
     else shifted k (row_data p r) (row_data q r))"

lemma row_moved_refl [simp]: "row_moved 0 p p r"
  by (simp add: row_moved_def shifted_refl)

lemma row_moved_redundant:
  "row_moved k p q r \<Longrightarrow> flags_test (row_flags q ! r) [kRedundantRow] = flags_test (row_flags p ! r) [kRedundantRow]"
  using shifted_redundant [of k "row_data p r" "row_data q r"] by (auto simp: row_moved_def row_data_def split: if_splits)

lemma row_moved_trans: "row_moved k p q r \<Longrightarrow> row_moved k' q s r \<Longrightarrow> row_moved (k + k') p s r"
  using row_moved_redundant [of k p q r] shifted_trans by (auto simp: row_moved_def split: if_splits)

definition moves :: "nat \<Rightarrow> problem \<Rightarrow> problem \<Rightarrow> nat list \<Rightarrow> bool" where
  "moves n p q cs \<longleftrightarrow> unshifted p q \<and> row_lengths q n \<and> length (obj_coeffs q) = length (obj_coeffs p) \<and>
     (\<forall>r<n. row_moved (sum_list (map (col_shift p r) cs)) p q r) \<and>
     (\<forall>x. length x = length (obj_coeffs p) \<and> (\<forall>c\<in>set cs. moved p c \<longrightarrow> x ! c = prob_lbs p ! c) \<longrightarrow>
       computeSolObjective q x = computeSolObjective p x)"

lemma remove_fixed_form:
  "upd_problem (remove_fixed c u) = (let p = upd_problem u; v = prob_lbs p ! c in
     if \<not> moved p c \<or> v = 0 then p else fold (move_entry v) (col_coeffs p ! c) (move_to_offset c v p))"
  by (simp add: remove_fixed_def moved_def Let_def)

lemma remove_fixed_moves:
  assumes "row_lengths (upd_problem u) n" and "distinct (map fst (col_coeffs (upd_problem u) ! c))"
    and "c < length (obj_coeffs (upd_problem u))" and "length (obj_coeffs (upd_problem u)) = getNCols (upd_problem u)"
  shows "moves n (upd_problem u) (upd_problem (remove_fixed c u)) [c]"
proof (cases "\<not> moved (upd_problem u) c \<or> prob_lbs (upd_problem u) ! c = 0")
  case True
  then have "upd_problem (remove_fixed c u) = upd_problem u" by (simp add: remove_fixed_form Let_def)
  moreover have "col_shift (upd_problem u) r c = 0" for r using True by (auto simp: col_shift_def)
  ultimately show ?thesis using assms(1) by (simp add: moves_def unshifted_def)
next
  case False
  let ?p = "upd_problem u" let ?v = "prob_lbs ?p ! c"
  let ?m = "move_to_offset c ?v ?p" let ?q = "fold (move_entry ?v) (col_coeffs ?p ! c) ?m"
  have q: "upd_problem (remove_fixed c u) = ?q" using False by (simp add: remove_fixed_form Let_def)
  have "unshifted ?p ?q" using unshifted_trans [OF move_to_offset_frame(1) fold_move_frame(1)] by blast
  moreover have "row_lengths ?q n" using assms(1) by (simp add: fold_move_frame move_to_offset_frame)
  moreover have "length (obj_coeffs ?q) = length (obj_coeffs ?p)" by (simp add: fold_move_frame move_to_offset_frame)
  moreover have "row_moved (sum_list (map (col_shift ?p r) [c])) ?p ?q r" if r: "r < n" for r
  proof -
    have data: "row_data ?m r = row_data ?p r" and len: "row_lengths ?m n" using assms(1) by (simp_all add: move_to_offset_frame)
    then have flag: "row_flags ?m ! r = row_flags ?p ! r" by (simp add: row_data_def)
    show ?thesis
      using fold_move_redundant [OF len r] fold_move_shifted [OF len r _ assms(2), of ?v] False
      unfolding flag data row_moved_def by (simp add: col_shift_def)
  qed
  moreover have "computeSolObjective ?q x = computeSolObjective ?p x"
    if "length x = length (obj_coeffs ?p)" "\<forall>d\<in>set [c]. moved ?p d \<longrightarrow> x ! d = prob_lbs ?p ! d" for x
  proof -
    have "x ! c = ?v" using that(2) False by simp
    from move_to_offset_objective [OF assms(3,4) this] show ?thesis
      using unshifted_dims [OF fold_move_frame(1)] by (simp add: computeSolObjective_def fold_move_frame)
  qed
  ultimately show ?thesis unfolding moves_def q by blast
qed

lemma moves_refl: "row_lengths p n \<Longrightarrow> moves n p p []"
  by (simp add: moves_def unshifted_def)

lemma moves_Cons:
  assumes "moves n p q [c]" and "moves n q s cs"
  shows "moves n p s (c # cs)"
proof -
  have pq: "unshifted p q" "length (obj_coeffs q) = length (obj_coeffs p)" and qs: "unshifted q s" "row_lengths s n"
    "length (obj_coeffs s) = length (obj_coeffs q)" using assms by (simp_all add: moves_def)
  have "row_moved (sum_list (map (col_shift p r) (c # cs))) p s r" if r: "r < n" for r
  proof -
    have eq: "col_shift q r = col_shift p r" by (rule ext) (rule unshifted_col_shift(1) [OF pq(1)])
    have "row_moved (col_shift p r c) p q r" "row_moved (sum_list (map (col_shift q r) cs)) q s r"
      using assms r by (simp_all add: moves_def)
    then have "row_moved (col_shift p r c) p q r" "row_moved (sum_list (map (col_shift p r) cs)) q s r" unfolding eq .
    from row_moved_trans [OF this] show ?thesis by simp
  qed
  moreover have "computeSolObjective s x = computeSolObjective p x"
    if "length x = length (obj_coeffs p)" "\<forall>d\<in>set (c # cs). moved p d \<longrightarrow> x ! d = prob_lbs p ! d" for x
  proof -
    have "prob_domains q = prob_domains p" using pq(1) by (simp add: unshifted_def)
    then have "computeSolObjective s x = computeSolObjective q x"
      using assms(2) that pq(2) unshifted_col_shift(2) [OF pq(1)] by (simp add: moves_def)
    also have "\<dots> = computeSolObjective p x" using assms(1) that by (simp add: moves_def)
    finally show ?thesis .
  qed
  ultimately show ?thesis unfolding moves_def using unshifted_trans [OF pq(1) qs(1)] pq(2) qs(2,3) by auto
qed

lemma fold_moves:
  assumes "row_lengths (upd_problem u) n" and "length (obj_coeffs (upd_problem u)) = getNCols (upd_problem u)"
    and "\<forall>c\<in>set cs. c < getNCols (upd_problem u) \<and> distinct (map fst (col_coeffs (upd_problem u) ! c))"
  shows "moves n (upd_problem u) (upd_problem (fold remove_fixed cs u)) cs"
  using assms
proof (induction cs arbitrary: u)
  case Nil
  then show ?case by (simp add: moves_refl)
next
  case (Cons c cs)
  let ?v = "remove_fixed c u"
  have step: "moves n (upd_problem u) (upd_problem ?v) [c]" using Cons.prems by (intro remove_fixed_moves) auto
  then have un: "unshifted (upd_problem u) (upd_problem ?v)" "row_lengths (upd_problem ?v) n"
    "length (obj_coeffs (upd_problem ?v)) = length (obj_coeffs (upd_problem u))" by (simp_all add: moves_def)
  have "moves n (upd_problem ?v) (upd_problem (fold remove_fixed cs ?v)) cs"
    using Cons.prems un unshifted_dims(1) [OF un(1)] by (intro Cons.IH) (simp_all add: unshifted_def)
  with moves_Cons [OF step] show ?case by simp
qed

section \<open>Deletion\<close>

text \<open>The entries of a row in a list of columns.\<close>

lemma sum_of_cols:
  fixes f :: "nat \<times> rat \<Rightarrow> 'a::comm_monoid_add"
  assumes "distinct (map fst row)" and "finite C"
  shows "sum_list (map f row) = sum_list (map f (filter (\<lambda>e. fst e \<notin> C) row)) +
    (\<Sum>c\<in>C. case map_of row c of None \<Rightarrow> 0 | Some v \<Rightarrow> f (c, v))"
  using assms(1)
proof (induction row)
  case (Cons e row)
  obtain k v where e: "e = (k, v)" by fastforce
  let ?g = "\<lambda>row c. case map_of row c of None \<Rightarrow> 0 | Some v \<Rightarrow> f (c, v)"
  have none: "map_of row k = None" using Cons.prems by (simp add: e map_of_eq_None_iff)
  have "(\<Sum>c\<in>C. ?g (e # row) c) = (if k \<in> C then f (k, v) else 0) + (\<Sum>c\<in>C. ?g row c)"
  proof (cases "k \<in> C")
    case True
    have "(\<Sum>c\<in>C. ?g (e # row) c) = f (k, v) + (\<Sum>c\<in>C - {k}. ?g row c)"
      using True assms(2) by (subst sum.remove [of C k]) (auto simp: e intro!: sum.cong)
    moreover have "(\<Sum>c\<in>C. ?g row c) = (\<Sum>c\<in>C - {k}. ?g row c)"
      using True assms(2) none by (subst sum.remove [of C k]) auto
    ultimately show ?thesis using True by simp
  next
    case False
    then show ?thesis by (auto simp: e intro!: sum.cong)
  qed
  with Cons show ?case by (simp add: e add.commute add.left_commute)
qed simp

text \<open>
  The columns that wait for their deletion: fixed to a value that is moved to the sides, or fixed to
  zero by a merge, or (columns fixed at infinity) only in redundant rows. Redundant rows are listed
  for deletion or are empty.
\<close>

definition pending_ok :: "problem \<Rightarrow> nat \<Rightarrow> bool" where
  "pending_ok p c \<longleftrightarrow>
     \<not> lb_useless (prob_domains p) c \<and> \<not> ub_useless (prob_domains p) c \<and> prob_lbs p ! c = prob_ubs p ! c \<and>
       (moved p c \<or> prob_lbs p ! c = 0) \<or>
     \<not> moved p c \<and> (\<forall>(r, v)\<in>set (col_coeffs p ! c). flags_test (row_flags p ! r) [kRedundantRow])"

definition deletion_ready :: "problem_update \<Rightarrow> bool" where
  "deletion_ready u \<longleftrightarrow> distinct (deleted_cols u) \<and> (\<forall>c\<in>set (deleted_cols u). pending_ok (upd_problem u) c) \<and>
     (\<forall>r<getNRows (upd_problem u). upd_rflag u r [kRedundantRow] \<longrightarrow>
        r \<in> set (redundant_rows u) \<or> row_coeffs (upd_problem u) ! r = [])"

lemma coeff_of_matrix:
  assumes "matrix_ok n rows cols" and "c < n" and "r < length rows"
  shows "coeff_of (cols ! c) r = coeff_of (rows ! r) c"
proof -
  have col: "distinct (map fst (cols ! c))" and mem: "(c, v) \<in> set (rows ! r) \<longleftrightarrow> (r, v) \<in> set (cols ! c)" for v
    using assms by (simp_all add: matrix_ok_def col_of_matrix_def)
  have row: "distinct (map fst (rows ! r))" using assms nth_mem by (auto simp: matrix_ok_def)
  have "map_of (cols ! c) r = Some v \<longleftrightarrow> map_of (rows ! r) c = Some v" for v
    using map_of_eq_Some_iff [OF col] map_of_eq_Some_iff [OF row] mem by simp
  then have "map_of (cols ! c) r = map_of (rows ! r) c" by (metis not_Some_eq)
  then show ?thesis by (simp add: coeff_of_def)
qed

lemma pending_values:
  assumes "problem_ok p" and "c < getNCols p" and "pending_ok p c" and "r < getNRows p"
    and "\<not> flags_test (row_flags p ! r) [kRedundantRow]"
  shows "col_shift p r c = prob_lbs p ! c * coeff_of (row_coeffs p ! r) c"
    and "map_of (row_coeffs p ! r) c = Some a \<Longrightarrow> \<not> lb_useless (prob_domains p) c \<and> \<not> ub_useless (prob_domains p) c \<and>
      prob_lbs p ! c = prob_ubs p ! c"
proof -
  have mat: "matrix_ok (getNCols p) (row_coeffs p) (col_coeffs p)" using assms(1) by (simp add: problem_ok_def)
  have r: "r < length (row_coeffs p)" using assms(4) by (simp add: getNRows_def)
  note coeff = coeff_of_matrix [OF mat assms(2) r]
  have none: "map_of (row_coeffs p ! r) c = None"
    if "\<forall>(r, v)\<in>set (col_coeffs p ! c). flags_test (row_flags p ! r) [kRedundantRow]"
  proof (rule ccontr)
    assume "map_of (row_coeffs p ! r) c \<noteq> None"
    then obtain v where "(c, v) \<in> set (row_coeffs p ! r)" using map_of_SomeD by fastforce
    then have "(r, v) \<in> set (col_coeffs p ! c)" using mat assms(2) r by (simp add: matrix_ok_def col_of_matrix_def)
    with that assms(5) show False by auto
  qed
  show "col_shift p r c = prob_lbs p ! c * coeff_of (row_coeffs p ! r) c"
    using assms(3) none coeff by (auto simp: pending_ok_def col_shift_def coeff_of_def)
  show "map_of (row_coeffs p ! r) c = Some a \<Longrightarrow> \<not> lb_useless (prob_domains p) c \<and> \<not> ub_useless (prob_domains p) c \<and>
      prob_lbs p ! c = prob_ubs p ! c"
    using assms(3) none by (auto simp: pending_ok_def)
qed

text \<open>Every sum over a row loses what the columns in the list contributed.\<close>

lemma row_sums:
  assumes "problem_ok p" and "set C \<subseteq> {..<getNCols p}" and "distinct C" and "\<forall>c\<in>set C. pending_ok p c"
    and "r < getNRows p" and "\<not> flags_test (row_flags p ! r) [kRedundantRow]"
  defines "new \<equiv> filter (\<lambda>e. fst e \<notin> set C) (row_coeffs p ! r)" and "k \<equiv> sum_list (map (col_shift p r) C)"
  shows "sum_list (map (min_part (prob_domains p)) (row_coeffs p ! r)) = sum_list (map (min_part (prob_domains p)) new) + k"
    and "sum_list (map (max_part (prob_domains p)) (row_coeffs p ! r)) = sum_list (map (max_part (prob_domains p)) new) + k"
    and "sum_list (map (min_inf (prob_domains p)) (row_coeffs p ! r)) = sum_list (map (min_inf (prob_domains p)) new)"
    and "sum_list (map (max_inf (prob_domains p)) (row_coeffs p ! r)) = sum_list (map (max_inf (prob_domains p)) new)"
    and "(\<forall>c\<in>set C. map_of (row_coeffs p ! r) c \<noteq> None \<longrightarrow> x ! c = prob_lbs p ! c) \<Longrightarrow>
      row_value (row_coeffs p ! r) x = row_value new x + k"
proof -
  have dist: "distinct (map fst (row_coeffs p ! r))"
    using assms(1,5) by (simp add: problem_ok_def all_tracked_def getNRows_def)
  note split = sum_of_cols [OF dist finite_set [of C]]
  have pend: "col_shift p r c = prob_lbs p ! c * coeff_of (row_coeffs p ! r) c"
    "map_of (row_coeffs p ! r) c = Some a \<Longrightarrow> \<not> lb_useless (prob_domains p) c \<and> \<not> ub_useless (prob_domains p) c \<and>
      prob_lbs p ! c = prob_ubs p ! c" if "c \<in> set C" for c a
    using pending_values [OF assms(1) _ _ assms(5,6), of c] assms(2,4) that by auto
  have k: "k = (\<Sum>c\<in>set C. prob_lbs p ! c * coeff_of (row_coeffs p ! r) c)"
    unfolding k_def using assms(3) pend(1) by (simp add: sum_list_distinct_conv_sum_set)
  have part: "(\<Sum>c\<in>set C. case map_of (row_coeffs p ! r) c of None \<Rightarrow> 0 | Some v \<Rightarrow> f (c, v)) = k"
    if "\<And>c a. c \<in> set C \<Longrightarrow> map_of (row_coeffs p ! r) c = Some a \<Longrightarrow> f (c, a) = a * prob_lbs p ! c" for f :: "nat \<times> rat \<Rightarrow> rat"
    unfolding k using that by (intro sum.cong) (auto simp: coeff_of_def split: option.split)
  have none: "(\<Sum>c\<in>set C. case map_of (row_coeffs p ! r) c of None \<Rightarrow> 0 | Some v \<Rightarrow> g (c, v)) = 0"
    if "\<And>c a. c \<in> set C \<Longrightarrow> map_of (row_coeffs p ! r) c = Some a \<Longrightarrow> g (c, a) = 0" for g :: "nat \<times> rat \<Rightarrow> int"
    using that by (intro sum.neutral) (auto split: option.split)
  show "sum_list (map (min_part (prob_domains p)) (row_coeffs p ! r)) = sum_list (map (min_part (prob_domains p)) new) + k"
    unfolding split [of "min_part (prob_domains p)"] new_def using pend(2) by (subst part) (auto simp: min_part_def)
  show "sum_list (map (max_part (prob_domains p)) (row_coeffs p ! r)) = sum_list (map (max_part (prob_domains p)) new) + k"
    unfolding split [of "max_part (prob_domains p)"] new_def using pend(2) by (subst part) (auto simp: max_part_def)
  show "sum_list (map (min_inf (prob_domains p)) (row_coeffs p ! r)) = sum_list (map (min_inf (prob_domains p)) new)"
    unfolding split [of "min_inf (prob_domains p)"] new_def using pend(2) by (subst none) (auto simp: min_inf_def)
  show "sum_list (map (max_inf (prob_domains p)) (row_coeffs p ! r)) = sum_list (map (max_inf (prob_domains p)) new)"
    unfolding split [of "max_inf (prob_domains p)"] new_def using pend(2) by (subst none) (auto simp: max_inf_def)
  show "row_value (row_coeffs p ! r) x = row_value new x + k"
    if "\<forall>c\<in>set C. map_of (row_coeffs p ! r) c \<noteq> None \<longrightarrow> x ! c = prob_lbs p ! c"
    unfolding row_value_def split [of "\<lambda>(c, v). v * x ! c"] new_def using that by (subst part) auto
qed


text \<open>A shifted row holds at the shifted value.\<close>

lemma shifted_holds:
  assumes "shifted k (row_data p r) (row_data q r)"
  shows "satisfies_row (row_flags q ! r) (lhs_values q ! r) (rhs_values q ! r) v =
    satisfies_row (row_flags p ! r) (lhs_values p ! r) (rhs_values p ! r) (v + k)"
  using assms by (auto simp: shifted_def row_data_def satisfies_row_def equation_flag)

lemma moved_row:
  assumes "row_moved k p q r" and "\<not> flags_test (row_flags p ! r) [kRedundantRow]"
  shows "satisfies_row (row_flags q ! r) (lhs_values q ! r) (rhs_values q ! r) v =
      satisfies_row (row_flags p ! r) (lhs_values p ! r) (rhs_values p ! r) (v + k)"
    and "row_activities q ! r = (row_activities p ! r)\<lparr>act_min := act_min (row_activities p ! r) - k,
      act_max := act_max (row_activities p ! r) - k\<rparr>"
proof -
  have s: "shifted k (row_data p r) (row_data q r)" using assms by (simp add: row_moved_def)
  then show "satisfies_row (row_flags q ! r) (lhs_values q ! r) (rhs_values q ! r) v =
      satisfies_row (row_flags p ! r) (lhs_values p ! r) (rhs_values p ! r) (v + k)"
    by (rule shifted_holds)
  show "row_activities q ! r = (row_activities p ! r)\<lparr>act_min := act_min (row_activities p ! r) - k,
      act_max := act_max (row_activities p ! r) - k\<rparr>"
    using s by (simp add: shifted_def row_data_def)
qed

lemma shrunk_tracks:
  assumes "tracks d new act" and "rsz ! r = 0 \<Longrightarrow> new = []"
  shows "tracks d new (shrunk_activity rsz r line act)"
  using assms by (auto simp: shrunk_activity_def tracks_def reset_min_max_def)

text \<open>The problem after the fixed columns were moved and the marked rows and columns were deleted.\<close>

definition deletes_to :: "nat set \<Rightarrow> nat set \<Rightarrow> problem \<Rightarrow> problem \<Rightarrow> bool" where
  "deletes_to D C q p' \<longleftrightarrow> (\<exists>rsz csz lhs rhs acts.
     p' = q\<lparr>row_coeffs := deleted_lines D C (row_coeffs q), col_coeffs := deleted_lines C D (col_coeffs q),
            rowsize := rsz, colsize := csz, lhs_values := lhs, rhs_values := rhs, row_activities := acts\<rparr> \<and>
     line_sizes_ok rsz (deleted_lines D C (row_coeffs q)) \<and> line_sizes_ok csz (deleted_lines C D (col_coeffs q)) \<and>
     length lhs = length (lhs_values q) \<and> length rhs = length (rhs_values q) \<and> length acts = getNRows q \<and>
     (\<forall>r<getNRows q. r \<notin> D \<longrightarrow> lhs ! r = lhs_values q ! r \<and> rhs ! r = rhs_values q ! r \<and>
       acts ! r = shrunk_activity rsz r (row_coeffs q ! r) (row_activities q ! r)) \<and>
     (\<forall>r\<in>D. acts ! r = clear_activity (row_activities q ! r)))"

lemma deletes_to_fields:
  assumes "deletes_to D C q p'"
  shows "row_coeffs p' = deleted_lines D C (row_coeffs q)" "col_coeffs p' = deleted_lines C D (col_coeffs q)"
    "row_flags p' = row_flags q" "prob_domains p' = prob_domains q" "obj_coeffs p' = obj_coeffs q"
    "obj_offset p' = obj_offset q" "getNRows p' = getNRows q" "getNCols p' = getNCols q"
    "length (lhs_values p') = length (lhs_values q)" "length (rhs_values p') = length (rhs_values q)"
    "line_sizes_ok (rowsize p') (row_coeffs p')" "line_sizes_ok (colsize p') (col_coeffs p')" "length (row_activities p') = getNRows q"
    "r < getNRows q \<Longrightarrow> r \<notin> D \<Longrightarrow> lhs_values p' ! r = lhs_values q ! r \<and> rhs_values p' ! r = rhs_values q ! r"
    "r < getNRows q \<Longrightarrow> r \<notin> D \<Longrightarrow> row_activities p' ! r = shrunk_activity (rowsize p') r (row_coeffs q ! r) (row_activities q ! r)"
    "r \<in> D \<Longrightarrow> row_activities p' ! r = clear_activity (row_activities q ! r)"
  using assms by (auto simp: deletes_to_def getNRows_def getNCols_def deleted_lines_def)

lemma deleted_line:
  "r < length lines \<Longrightarrow> deleted_lines D C lines ! r = (if r \<in> D then [] else filter (\<lambda>e. fst e \<notin> C) (lines ! r))"
  by (simp add: deleted_lines_def)

text \<open>A row after both steps: its activity, and the points that satisfy it.\<close>

lemma deletion_row:
  assumes "problem_ok p" and "moves (getNRows p) p q C" and "deletes_to (set D) (set C) q p'"
    and "set C \<subseteq> {..<getNCols p}" and "distinct C" and "\<forall>c\<in>set C. pending_ok p c"
    and "\<forall>r<getNRows p. flags_test (row_flags p ! r) [kRedundantRow] \<longrightarrow> r \<in> set D \<or> row_coeffs p ! r = []"
    and "\<forall>r\<in>set D. flags_test (row_flags p ! r) [kRedundantRow]" and r: "r < getNRows p"
  shows "tracks (prob_domains p') (row_coeffs p' ! r) (row_activities p' ! r)"
    and "flags_test (row_flags p' ! r) [kRedundantRow] = flags_test (row_flags p ! r) [kRedundantRow]"
    and "\<not> flags_test (row_flags p ! r) [kRedundantRow] \<Longrightarrow> in_domains (prob_domains p) x \<Longrightarrow>
      satisfies_row (row_flags p' ! r) (lhs_values p' ! r) (rhs_values p' ! r) (row_value (row_coeffs p' ! r) x) =
      satisfies_row (row_flags p ! r) (lhs_values p ! r) (rhs_values p ! r) (row_value (row_coeffs p ! r) x)"
proof -
  let ?k = "sum_list (map (col_shift p r) C)" and ?new = "filter (\<lambda>e. fst e \<notin> set C) (row_coeffs p ! r)"
  have mv: "row_moved ?k p q r" and un: "unshifted p q" using assms(2) r by (simp_all add: moves_def)
  have q: "row_coeffs q = row_coeffs p" "prob_domains q = prob_domains p" "getNRows q = getNRows p"
    using un by (simp_all add: unshifted_def getNRows_def)
  note f = deletes_to_fields [OF assms(3)]
  have rq: "r < getNRows q" and rl: "r < length (row_coeffs p)" using r unfolding q(3) by (simp_all add: getNRows_def)
  have row: "row_coeffs p' ! r = (if r \<in> set D then [] else ?new)" by (simp add: f(1) q deleted_line rl)
  show flag: "flags_test (row_flags p' ! r) [kRedundantRow] = flags_test (row_flags p ! r) [kRedundantRow]"
    using row_moved_redundant [OF mv] by (simp add: f(3))
  have tr: "tracks (prob_domains p) (row_coeffs p ! r) (row_activities p ! r)"
    using assms(1) r by (simp add: problem_ok_def all_tracked_def getNRows_def)
  have empty: "?new = []" if "rowsize p' ! r = 0" "r \<notin> set D"
    using f(11) that rl row by (auto simp: line_sizes_ok_def f(1) q deleted_lines_def)
  show "tracks (prob_domains p') (row_coeffs p' ! r) (row_activities p' ! r)"
  proof (cases "r \<in> set D")
    case True
    then show ?thesis using f(16) row by (simp add: tracks_def clear_activity_def)
  next
    case False
    have "tracks (prob_domains p) ?new (row_activities q ! r)"
    proof (cases "flags_test (row_flags p ! r) [kRedundantRow]")
      case True
      then have "row_activities q ! r = row_activities p ! r" "row_coeffs p ! r = []"
        using mv False assms(7) r by (auto simp: row_moved_def row_data_def)
      with tr show ?thesis by simp
    next
      case red: False
      show ?thesis
        using tr row_sums(1-4) [OF assms(1,4,5,6) r red] unfolding moved_row(2) [OF mv red] tracks_def by simp
    qed
    from shrunk_tracks [OF this empty [OF _ False]] show ?thesis
      using f(15) [OF rq False] False by (simp add: f(4) q row)
  qed
  show "satisfies_row (row_flags p' ! r) (lhs_values p' ! r) (rhs_values p' ! r) (row_value (row_coeffs p' ! r) x) =
      satisfies_row (row_flags p ! r) (lhs_values p ! r) (rhs_values p ! r) (row_value (row_coeffs p ! r) x)"
    if red: "\<not> flags_test (row_flags p ! r) [kRedundantRow]" and dom: "in_domains (prob_domains p) x"
  proof -
    have D: "r \<notin> set D" using red assms(8) by blast
    have "x ! c = prob_lbs p ! c" if c: "c \<in> set C" and some: "map_of (row_coeffs p ! r) c = Some a" for c a
    proof -
      have n: "c < getNCols p" using assms(4) c by auto
      then have "in_col_domain (prob_domains p) c (x ! c)"
        using dom assms(1) by (simp add: in_domains_def problem_ok_def)
      then show ?thesis
        using pending_values(2) [OF assms(1) n _ r red some] assms(6) c in_col_domain_lb in_col_domain_ub by force
    qed
    then have "row_value (row_coeffs p ! r) x = row_value ?new x + ?k"
      using row_sums(5) [OF assms(1,4,5,6) r red] by blast
    then show ?thesis
      using moved_row(1) [OF mv red] f(14) [OF rq D] D by (simp add: f(3) row)
  qed
qed


lemma moves_ok:
  assumes "storages_ok p" and "moves (getNRows p) p q C"
  shows "storages_ok q" "getNRows q = getNRows p" "getNCols q = getNCols p"
  using assms by (simp_all add: moves_def unshifted_def storages_ok_def row_lengths_def getNRows_def getNCols_def)

text \<open>The problem after both steps: well formed, with the same solutions and objective values.\<close>

lemma fixed_values:
  assumes "problem_ok p" and "set C \<subseteq> {..<getNCols p}" and "\<forall>c\<in>set C. pending_ok p c" and "in_domains (prob_domains p) x"
  shows "\<forall>c\<in>set C. moved p c \<longrightarrow> x ! c = prob_lbs p ! c"
proof (intro ballI impI)
  fix c assume c: "c \<in> set C" "moved p c"
  then have "in_col_domain (prob_domains p) c (x ! c)" using assms by (auto simp: in_domains_def problem_ok_def)
  moreover have "\<not> lb_useless (prob_domains p) c" "\<not> ub_useless (prob_domains p) c" "prob_lbs p ! c = prob_ubs p ! c"
    using assms(3) c unfolding pending_ok_def by blast+
  ultimately show "x ! c = prob_lbs p ! c" using in_col_domain_lb in_col_domain_ub by force
qed

lemma deleted_problem_ok:
  assumes "problem_ok p" and "storages_ok p" and "sorted_lines p"
    and "moves (getNRows p) p q C" and "deletes_to (set D) (set C) q p'"
    and "set C \<subseteq> {..<getNCols p}" and "distinct C" and "\<forall>c\<in>set C. pending_ok p c"
    and "\<forall>r<getNRows p. flags_test (row_flags p ! r) [kRedundantRow] \<longrightarrow> r \<in> set D \<or> row_coeffs p ! r = []"
    and "\<forall>r\<in>set D. flags_test (row_flags p ! r) [kRedundantRow]"
  shows "problem_ok p' \<and> storages_ok p' \<and> sorted_lines p'"
proof -
  note f = deletes_to_fields [OF assms(5)] and row = deletion_row [OF assms(1,4-10)]
  note q = moves_ok [OF assms(2,4)]
  have un: "row_coeffs q = row_coeffs p" "col_coeffs q = col_coeffs p" "prob_domains q = prob_domains p"
    and lens: "row_lengths q (getNRows p)" "length (obj_coeffs q) = length (obj_coeffs p)"
    using assms(4) by (simp_all add: moves_def unshifted_def)
  have "length (col_coeffs p) = getNCols p" using assms(1) by (simp add: problem_ok_def matrix_ok_def)
  then have mat: "matrix_ok (getNCols p') (row_coeffs p') (col_coeffs p')"
    using deleted_matrix_ok [of "col_coeffs p" "row_coeffs p" "set D" "set C"] assms(1)
    by (simp add: f(1,2,8) un q(3) problem_ok_def)
  have "\<forall>row\<in>set (row_coeffs p'). distinct_cols row" using mat by (simp add: matrix_ok_def)
  then have "all_tracked (prob_domains p') (row_coeffs p') (row_activities p')"
    using row(1) f(7,13) q(2) by (simp add: all_tracked_def getNRows_def)
  then have "problem_ok p'"
    using mat assms(1) lens by (simp add: problem_ok_def f q un row_lengths_def)
  moreover have "storages_ok p'" using mat f(11-13) by (simp add: storages_ok_def f(7))
  moreover have "sorted_lines p'"
    using assms(3) by (auto simp: sorted_lines_def f(1,2) un deleted_lines_def intro!: sorted_cols_filter)
  ultimately show ?thesis by blast
qed

lemma deleted_problem_solves:
  assumes "problem_ok p" and "storages_ok p"
    and "moves (getNRows p) p q C" and "deletes_to (set D) (set C) q p'"
    and "set C \<subseteq> {..<getNCols p}" and "distinct C" and "\<forall>c\<in>set C. pending_ok p c"
    and "\<forall>r<getNRows p. flags_test (row_flags p ! r) [kRedundantRow] \<longrightarrow> r \<in> set D \<or> row_coeffs p ! r = []"
    and "\<forall>r\<in>set D. flags_test (row_flags p ! r) [kRedundantRow]"
  shows "solves p' x = solves p x"
    and "solves p x \<Longrightarrow> computeSolObjective p' x = computeSolObjective p x"
proof -
  note f = deletes_to_fields [OF assms(4)] and row = deletion_row [OF assms(1,3-9)]
  note q = moves_ok [OF assms(2,3)]
  have dom: "prob_domains p' = prob_domains p" using assms(3) by (simp add: f(4) moves_def unshifted_def)
  have dims: "getNRows p' = getNRows p" "getNCols p' = getNCols p" by (simp_all add: f(7,8) q)
  have "active_rows_satisfied p' x = active_rows_satisfied p x" if "in_domains (prob_domains p) x"
    using row(2,3) that unfolding active_rows_satisfied_def dims by blast
  then show "solves p' x = solves p x" by (auto simp: solves_def dom dims)
  assume "solves p x"
  then have x: "length x = length (obj_coeffs p)" "in_domains (prob_domains p) x"
    using assms(1) by (simp_all add: solves_def problem_ok_def)
  have "computeSolObjective p' x = computeSolObjective q x" by (simp add: computeSolObjective_def f)
  also have "\<dots> = computeSolObjective p x"
    using assms(3) x(1) fixed_values [OF assms(1,5,7) x(2)] by (simp add: moves_def)
  finally show "computeSolObjective p' x = computeSolObjective p x" .
qed

lemma remove_fixed_keeps:
  "redundant_rows (remove_fixed c u) = redundant_rows u" "deleted_cols (remove_fixed c u) = deleted_cols u"
  "row_state (remove_fixed c u) = row_state u" "col_state (remove_fixed c u) = col_state u"
  "dirty_row_states (remove_fixed c u) = dirty_row_states u" "dirty_col_states (remove_fixed c u) = dirty_col_states u"
  by (simp_all add: remove_fixed_def Let_def on_problem_def on_storage_def)

lemma removeFixedCols_marks: "marks (removeFixedCols u) = marks u"
proof -
  have "marks (fold remove_fixed cs u) = marks u" for cs
    by (induction cs arbitrary: u) (simp_all add: marks_def remove_fixed_keeps)
  then show ?thesis by (simp add: removeFixedCols_def)
qed

lemma deleted_deletes_to:
  assumes "storages_ok q" and "set D \<subseteq> {..<getNRows q}" and "set C \<subseteq> {..<getNCols q}"
    and "deleteRowsAndCols D C (q, sr, sc, ec) = (p', sr', sc', ec')"
  shows "D = [] \<and> C = [] \<and> p' = q \<or> deletes_to (set D) (set C) q p'"
proof (cases "D = [] \<and> C = []")
  case True
  with assms(4) show ?thesis by (simp add: deleteRowsAndCols_def)
next
  case False
  then have "D \<noteq> [] \<or> C \<noteq> []" by blast
  from deleteRowsAndCols_computes [OF assms(1-3) this, of sr sc ec] have "deletes_to (set D) (set C) q p'"
    unfolding assms(4) deletes_to_def prod.inject by blast
  then show ?thesis ..
qed

text \<open>
  Deletion keeps the invariant, the solutions and their objective values.
\<close>

lemma deletion_sound:
  assumes "update_ok u" and "deletion_ready u" and "u' = update_deleteRowsAndCols (removeFixedCols u)"
  shows "update_ok u'" and "solves (upd_problem u') x = solves (upd_problem u) x"
    and "solves (upd_problem u) x \<Longrightarrow> computeSolObjective (upd_problem u') x = computeSolObjective (upd_problem u) x"
    and "prob_domains (upd_problem u') = prob_domains (upd_problem u)" and "getNCols (upd_problem u') = getNCols (upd_problem u)"
    and "getNRows (upd_problem u') = getNRows (upd_problem u)"
proof -
  define p where "p = upd_problem u"
  define D where "D = redundant_rows u"
  define C where "C = deleted_cols u"
  define w where "w = removeFixedCols u"
  define q where "q = upd_problem w"
  have ok: "problem_ok p" "storages_ok p" "sorted_lines p" "\<forall>c<getNCols p. box_ordered (prob_domains p) c" "marks_ok u"
    using assms(1) by (simp_all add: update_ok_def p_def)
  have C: "set C \<subseteq> {..<getNCols p}" and D: "set D \<subseteq> {..<getNRows p}" and red: "\<forall>r\<in>set D. flags_test (row_flags p ! r) [kRedundantRow]"
    using ok(5) by (auto simp: marks_ok_def p_def C_def D_def)
  have ready: "distinct C" "\<forall>c\<in>set C. pending_ok p c"
    "\<forall>r<getNRows p. flags_test (row_flags p ! r) [kRedundantRow] \<longrightarrow> r \<in> set D \<or> row_coeffs p ! r = []"
    using assms(2) by (simp_all add: deletion_ready_def p_def C_def D_def)
  have lens: "row_lengths p (getNRows p)" "length (obj_coeffs p) = getNCols p"
    using ok(1,2) by (simp_all add: problem_ok_def storages_ok_def row_lengths_def)
  have dist: "\<forall>c\<in>set C. c < getNCols p \<and> distinct (map fst (col_coeffs p ! c))"
    using ok(1) C by (auto simp: problem_ok_def matrix_ok_def col_of_matrix_def)
  have mv: "moves (getNRows p) p q C"
    unfolding q_def w_def removeFixedCols_def C_def [symmetric] p_def
    by (rule fold_moves) (use lens dist in \<open>simp_all add: p_def\<close>)
  have marks: "redundant_rows w = D" "deleted_cols w = C" "row_state w = row_state u" "col_state w = col_state u"
    "dirty_row_states w = dirty_row_states u" "dirty_col_states w = dirty_col_states u"
    using removeFixedCols_marks [of u] by (simp_all add: marks_def w_def D_def C_def)
  obtain p' sr sc ec where run: "deleteRowsAndCols D C (q, singletonRows w, singletonColumns w, emptyColumns w) = (p', sr, sc, ec)"
    by (cases "deleteRowsAndCols D C (q, singletonRows w, singletonColumns w, emptyColumns w)") auto
  have u': "u' = w\<lparr>upd_problem := p', singletonRows := sr, singletonColumns := sc, emptyColumns := ec,
      redundant_rows := [], deleted_cols := []\<rparr>"
    unfolding assms(3) w_def [symmetric] update_deleteRowsAndCols_def marks q_def [symmetric] run by simp
  note q = moves_ok [OF ok(2) mv]
  consider (none) "C = []" "p' = p" | (some) "deletes_to (set D) (set C) q p'"
    using deleted_deletes_to [OF q(1) _ _ run] D C unfolding q
    by (auto simp: q_def w_def removeFixedCols_def C_def p_def)
  then have "problem_ok p' \<and> storages_ok p' \<and> sorted_lines p' \<and> prob_domains p' = prob_domains p \<and> getNRows p' = getNRows p \<and>
      getNCols p' = getNCols p \<and> (solves p' x \<longleftrightarrow> solves p x) \<and> (solves p x \<longrightarrow> computeSolObjective p' x = computeSolObjective p x)"
  proof cases
    case none
    then show ?thesis using ok by simp
  next
    case some
    note f = deletes_to_fields [OF some]
    note facts = ok(1,2) mv some C ready red
    show ?thesis
      using deleted_problem_ok [OF ok(1-3) mv some C ready red] deleted_problem_solves [OF facts, of x] f(4,7,8) q(2,3) mv
      by (simp add: moves_def unshifted_def)
  qed
  then show "update_ok u'" and "solves (upd_problem u') x = solves (upd_problem u) x"
    and "solves (upd_problem u) x \<Longrightarrow> computeSolObjective (upd_problem u') x = computeSolObjective (upd_problem u) x"
    and "prob_domains (upd_problem u') = prob_domains (upd_problem u)" and "getNCols (upd_problem u') = getNCols (upd_problem u)"
    and "getNRows (upd_problem u') = getNRows (upd_problem u)"
    using ok(4,5) by (simp_all add: u' p_def update_ok_def marks_ok_def marks)
qed


section \<open>Empty columns\<close>

text \<open>The value an empty column is fixed to, if there is a best one, and the problem afterwards.\<close>

definition best_value :: "Num \<Rightarrow> problem \<Rightarrow> nat \<Rightarrow> rat option" where
  "best_value num p c =
     (if isZero num (obj_coeffs p ! c) then Some (empty_col_value num p c)
      else if obj_coeffs p ! c < 0 then (if flags_test (prob_cflags p ! c) [kUbInf] then None else Some (prob_ubs p ! c))
      else (if flags_test (prob_cflags p ! c) [kLbInf] then None else Some (prob_lbs p ! c)))"

definition dead_column :: "nat \<Rightarrow> problem \<Rightarrow> problem" where
  "dead_column c p = p\<lparr>colsize := (colsize p)[c := -1]\<rparr>"

definition fixed_empty :: "nat \<Rightarrow> rat \<Rightarrow> problem \<Rightarrow> problem" where
  "fixed_empty c v p = (move_to_offset c v p)\<lparr>prob_domains := set_col_flag c [kFixed] (prob_domains p)\<rparr>"

lemma move_to_offset_domains: "prob_domains (move_to_offset c v p) = prob_domains p"
  by (simp add: move_to_offset_def)

lemma fix_empty_col_result:
  "(case fix_empty_col num c u of None \<Rightarrow> best_value num (upd_problem u) c = None
    | Some u' \<Rightarrow> \<exists>v. best_value num (upd_problem u) c = Some v \<and> upd_problem u' = fixed_empty c v (upd_problem u) \<and>
        marks u' = marks u)"
  by (simp add: fix_empty_col_def best_value_def Let_def fixed_empty_def move_to_offset_domains)

text \<open>Bounds of an integral column are integral, as the code keeps them.\<close>

definition integral_box :: "problem \<Rightarrow> nat \<Rightarrow> bool" where
  "integral_box p c \<longleftrightarrow> (flags_test (prob_cflags p ! c) [kIntegral, kImplInt] \<longrightarrow>
     (flags_test (prob_cflags p ! c) [kLbInf] \<or> prob_lbs p ! c \<in> \<int>) \<and>
     (flags_test (prob_cflags p ! c) [kUbInf] \<or> prob_ubs p ! c \<in> \<int>))"

lemma best_value_best:
  assumes "best_value num p c = Some v" and "exact num" and "box_ordered (prob_domains p) c" and "integral_box p c"
  shows "in_col_domain (prob_domains p) c v"
    and "flags_test (prob_cflags p ! c) [kIntegral, kImplInt] \<Longrightarrow> v \<in> \<int>"
    and "in_col_domain (prob_domains p) c w \<Longrightarrow> obj_coeffs p ! c * v \<le> obj_coeffs p ! c * w"
proof -
  have tol: "isZero num a = (a = 0)" "isLT num a b = (a < b)" "isGT num a b = (b < a)" for a b
    using assms(2) by (auto simp: exact_def tol_simps)
  show "in_col_domain (prob_domains p) c v"
    using assms(1,3) by (auto simp: best_value_def tol empty_col_value_def in_col_domain_def box_ordered_def bound_is_inf_def
        split: if_splits)
  show "flags_test (prob_cflags p ! c) [kIntegral, kImplInt] \<Longrightarrow> v \<in> \<int>"
    using assms(1,4) by (auto simp: best_value_def tol empty_col_value_def integral_box_def split: if_splits)
  show "in_col_domain (prob_domains p) c w \<Longrightarrow> obj_coeffs p ! c * v \<le> obj_coeffs p ! c * w"
    using assms(1) by (auto simp: best_value_def tol in_col_domain_def mult_le_cancel_left split: if_splits)
qed

text \<open>A column without entries may take any value of its domain.\<close>

lemma empty_col_rows:
  assumes "matrix_ok n rows cols" and "c < n" and "cols ! c = []" and "r < length rows" and "c < length x"
  shows "row_value (rows ! r) (x[c := v]) = row_value (rows ! r) x"
proof -
  have "(c, w) \<notin> set (rows ! r)" for w
    using assms(1-4) by (auto simp: matrix_ok_def col_of_matrix_def)
  then show ?thesis
    unfolding row_value_def by (intro arg_cong [where f = sum_list] map_cong) (auto, metis nth_list_update_neq)
qed

lemma solves_replace:
  assumes "problem_ok p" and "c < getNCols p" and "col_coeffs p ! c = []" and "solves p x"
    and "in_col_domain (prob_domains p) c v" and "flags_test (prob_cflags p ! c) [kIntegral, kImplInt] \<Longrightarrow> v \<in> \<int>"
  shows "solves p (x[c := v])"
proof -
  have "matrix_ok (getNCols p) (row_coeffs p) (col_coeffs p)" "length (prob_cflags p) = getNCols p"
    using assms(1) by (simp_all add: problem_ok_def)
  moreover have "length x = getNCols p" using assms(4) by (simp add: solves_def)
  moreover from calculation have "row_value (row_coeffs p ! r) (x[c := v]) = row_value (row_coeffs p ! r) x" if "r < getNRows p" for r
    using empty_col_rows assms(2,3) that by (simp add: getNRows_def)
  ultimately show ?thesis
    using assms(2,4-6) by (auto simp: solves_def active_rows_satisfied_def in_domains_def integral_point_def nth_list_update)
qed

lemma fixed_empty_solves:
  "solves (fixed_empty c v p) x = solves p x" "solves (dead_column c p) x = solves p x"
  "computeSolObjective (dead_column c p) x = computeSolObjective p x"
  by (simp_all add: fixed_empty_def dead_column_def move_to_offset_def solves_def active_rows_satisfied_def
      getNRows_def getNCols_def fixed_flag_parts computeSolObjective_def)

lemma objective_replace:
  assumes "length (obj_coeffs p) = getNCols p" and "c < getNCols p" and "length x = getNCols p"
  shows "computeSolObjective p (x[c := v]) = computeSolObjective p x + obj_coeffs p ! c * (v - x ! c)"
proof -
  have "(\<Sum>i<getNCols p. obj_coeffs p ! i * x[c := v] ! i) =
      (\<Sum>i<getNCols p. obj_coeffs p ! i * x ! i + (if i = c then obj_coeffs p ! c * (v - x ! c) else 0))"
    using assms by (intro sum.cong) (auto simp: nth_list_update algebra_simps)
  also have "\<dots> = (\<Sum>i<getNCols p. obj_coeffs p ! i * x ! i) + obj_coeffs p ! c * (v - x ! c)"
    using assms(2) by (simp add: sum.distrib)
  finally show ?thesis using assms(1) by (simp add: computeSolObjective_eq obj_value_def)
qed

lemma fixed_empty_objective:
  assumes "length (obj_coeffs p) = getNCols p" and "c < getNCols p" and "length x = getNCols p"
  shows "computeSolObjective (fixed_empty c v p) x = computeSolObjective p (x[c := v])"
proof -
  let ?m = "move_to_offset c v p"
  have "computeSolObjective (fixed_empty c v p) x = computeSolObjective ?m x"
    by (simp add: fixed_empty_def computeSolObjective_def getNCols_def)
  also have "\<dots> = computeSolObjective ?m (x[c := v])"
  proof -
    have "length (obj_coeffs ?m) = getNCols ?m" "c < getNCols ?m" "length x = getNCols ?m" "obj_coeffs ?m ! c = 0"
      using assms by (auto simp: move_to_offset_def getNCols_def)
    from objective_replace [OF this(1-3)] this(4) show ?thesis by simp
  qed
  also have "\<dots> = computeSolObjective p (x[c := v])" using assms by (intro move_to_offset_objective) simp_all
  finally show ?thesis .
qed


subsection \<open>The loop over the empty columns\<close>

text \<open>Two problems with the same optimal value: each solution of one is met by a solution of the other.\<close>

definition improves :: "problem \<Rightarrow> problem \<Rightarrow> bool" where
  "improves p q \<longleftrightarrow> (\<forall>x. solves p x \<longrightarrow> (\<exists>y. solves q y \<and> computeSolObjective q y \<le> computeSolObjective p x))"

definition same_optimum :: "problem \<Rightarrow> problem \<Rightarrow> bool" where
  "same_optimum p q \<longleftrightarrow> improves p q \<and> improves q p"

definition unbounded_or_infeasible :: "problem \<Rightarrow> bool" where
  "unbounded_or_infeasible p \<longleftrightarrow> (\<forall>x M. solves p x \<longrightarrow> (\<exists>y. solves p y \<and> computeSolObjective p y < M))"

lemma improves_trans: "improves p q \<Longrightarrow> improves q s \<Longrightarrow> improves p s"
  unfolding improves_def by (meson order_trans)

lemma same_optimum_trans: "same_optimum p q \<Longrightarrow> same_optimum q s \<Longrightarrow> same_optimum p s"
  unfolding same_optimum_def using improves_trans by blast

lemma same_optimum_refl: "same_optimum p p"
  by (auto simp: same_optimum_def improves_def)

lemma same_optimumI:
  assumes "\<And>x. solves q x = solves p x" and "\<And>x. solves p x \<Longrightarrow> computeSolObjective q x = computeSolObjective p x"
  shows "same_optimum p q"
  using assms by (force simp: same_optimum_def improves_def)

lemma unbounded_back:
  assumes "same_optimum p q" and "unbounded_or_infeasible q"
  shows "unbounded_or_infeasible p"
  unfolding unbounded_or_infeasible_def
proof (intro allI impI)
  fix x M assume "solves p x"
  then obtain y where "solves q y" using assms(1) unfolding same_optimum_def improves_def by blast
  then obtain z where "solves q z" "computeSolObjective q z < M" using assms(2) unfolding unbounded_or_infeasible_def by blast
  then show "\<exists>y. solves p y \<and> computeSolObjective p y < M"
    using assms(1) unfolding same_optimum_def improves_def by (meson le_less_trans)
qed

lemma fixed_empty_optimum:
  assumes "problem_ok p" and "c < getNCols p" and "col_coeffs p ! c = []" and "best_value num p c = Some v"
    and "exact num" and "box_ordered (prob_domains p) c" and "integral_box p c"
  shows "same_optimum p (dead_column c (fixed_empty c v p))"
proof -
  note best = best_value_best [OF assms(4-7)]
  have len: "length (obj_coeffs p) = getNCols p" using assms(1) by (simp add: problem_ok_def)
  have obj: "computeSolObjective (fixed_empty c v p) x = computeSolObjective p (x[c := v])" if "solves p x" for x
    using fixed_empty_objective [OF len assms(2)] that by (simp add: solves_def)
  have repl: "solves p (x[c := v])" if "solves p x" for x
    using solves_replace [OF assms(1-3) that best(1)] best(2) by blast
  have "computeSolObjective p (x[c := v]) \<le> computeSolObjective p x" if x: "solves p x" for x
  proof -
    have "in_col_domain (prob_domains p) c (x ! c)"
      using x assms(1,2) by (simp add: solves_def in_domains_def problem_ok_def)
    from best(3) [OF this] have "obj_coeffs p ! c * (v - x ! c) \<le> 0" by (simp add: right_diff_distrib)
    moreover have "length x = getNCols p" using x by (simp add: solves_def)
    ultimately show ?thesis using objective_replace [OF len assms(2), of x v] by simp
  qed
  then have "improves p (dead_column c (fixed_empty c v p))"
    unfolding improves_def using obj by (metis fixed_empty_solves)
  moreover have "improves (dead_column c (fixed_empty c v p)) p"
    unfolding improves_def using obj repl by (metis fixed_empty_solves order_refl)
  ultimately show ?thesis by (simp add: same_optimum_def)
qed

text \<open>A column without a best value has values of any objective.\<close>

lemma no_best_value:
  assumes "problem_ok p" and "c < getNCols p" and "col_coeffs p ! c = []" and "best_value num p c = None" and "exact num"
  shows "unbounded_or_infeasible p"
  unfolding unbounded_or_infeasible_def
proof (intro allI impI)
  fix x M assume x: "solves p x"
  let ?d = "prob_domains p" and ?o = "obj_coeffs p ! c"
  have zero: "isZero num a = (a = 0)" for a using assms(5) by (auto simp: exact_def tol_simps)
  have cost: "?o < 0 \<and> flags_test (col_flags ?d ! c) [kUbInf] \<or> 0 < ?o \<and> flags_test (col_flags ?d ! c) [kLbInf]"
    using assms(4) by (auto simp: best_value_def zero split: if_splits)
  have n: "length x = getNCols p" "length (obj_coeffs p) = getNCols p" "in_col_domain ?d c (x ! c)"
    using x assms(1,2) by (simp_all add: solves_def in_domains_def problem_ok_def)
  define k where "k = rat_of_int (\<lfloor>\<bar>(computeSolObjective p x - M) / ?o\<bar>\<rfloor> + 1)"
  define v where "v = (if ?o < 0 then x ! c + k else x ! c - k)"
  have k: "\<bar>(computeSolObjective p x - M) / ?o\<bar> < k" "0 \<le> k" unfolding k_def by linarith+
  have "solves p (x[c := v])"
  proof (rule solves_replace [OF assms(1-3) x])
    show "in_col_domain ?d c v" using cost n(3) k(2) by (auto simp: v_def in_col_domain_def)
    have "flags_test (prob_cflags p ! c) [kIntegral, kImplInt] \<Longrightarrow> x ! c \<in> \<int>"
      using x assms(1,2) by (simp add: solves_def integral_point_def problem_ok_def)
    then show "flags_test (prob_cflags p ! c) [kIntegral, kImplInt] \<Longrightarrow> v \<in> \<int>" by (simp add: v_def k_def)
  qed
  moreover have "computeSolObjective p x - M < \<bar>?o\<bar> * k"
  proof -
    have "computeSolObjective p x - M \<le> \<bar>?o\<bar> * \<bar>(computeSolObjective p x - M) / ?o\<bar>" using cost by (auto simp: abs_divide)
    also have "\<dots> < \<bar>?o\<bar> * k" using cost k(1) by (intro mult_strict_left_mono) auto
    finally show ?thesis .
  qed
  moreover have "computeSolObjective p (x[c := v]) = computeSolObjective p x - \<bar>?o\<bar> * k"
    using objective_replace [OF n(2) assms(2) n(1), of v] cost by (auto simp: v_def)
  ultimately show "\<exists>y. solves p y \<and> computeSolObjective p y < M" by (intro exI [of _ "x[c := v]"]) simp
qed

lemma dead_column_update_ok:
  assumes "update_ok u" and "c < getNCols (upd_problem u)" and "col_coeffs (upd_problem u) ! c = []"
    and "upd_problem v = dead_column c (upd_problem u) \<or> upd_problem v = dead_column c (fixed_empty c w (upd_problem u))"
    and "marks v = marks u"
  shows "update_ok v"
proof -
  have u: "problem_ok (upd_problem u)" "storages_ok (upd_problem u)" "sorted_lines (upd_problem u)" "marks_ok u"
      "\<forall>k<getNCols (upd_problem u). box_ordered (upd_domains u) k"
    using assms(1) by (simp_all add: update_ok_def)
  have dims: "getNRows (upd_problem v) = getNRows (upd_problem u)" "getNCols (upd_problem v) = getNCols (upd_problem u)"
    "row_flags (upd_problem v) = row_flags (upd_problem u)" "row_coeffs (upd_problem v) = row_coeffs (upd_problem u)"
    "col_coeffs (upd_problem v) = col_coeffs (upd_problem u)" "rowsize (upd_problem v) = rowsize (upd_problem u)"
    "row_activities (upd_problem v) = row_activities (upd_problem u)" "lhs_values (upd_problem v) = lhs_values (upd_problem u)"
    "rhs_values (upd_problem v) = rhs_values (upd_problem u)" "colsize (upd_problem v) = (colsize (upd_problem u))[c := -1]"
    "length (obj_coeffs (upd_problem v)) = length (obj_coeffs (upd_problem u))"
    using assms(4) by (auto simp: dead_column_def fixed_empty_def move_to_offset_def getNRows_def getNCols_def)
  have D: "upd_domains v = upd_domains u \<or> upd_domains v = set_col_flag c [kFixed] (upd_domains u)"
    using assms(4) by (auto simp: dead_column_def fixed_empty_def)
  then have "problem_ok (upd_problem v)"
    using u(1) by (auto simp: problem_ok_def dims fixed_flag_parts)
  moreover have "storages_ok (upd_problem v)"
    using u(2) assms(2,3) by (auto simp: storages_ok_def dims line_sizes_ok_def nth_list_update getNCols_def)
  moreover have "sorted_lines (upd_problem v)" using u(3) by (simp add: sorted_lines_def dims)
  moreover have "\<forall>k<getNCols (upd_problem u). box_ordered (upd_domains v) k"
    using D u(5) by (auto simp: fixed_flag_box simp del: col_flag_fields)
  moreover have "marks_ok v"
    using D by (intro marks_ok_parts [OF u(4) dims(1-3)]) (auto simp: fixed_inactive assms(5) simp del: col_flag_fields)
  ultimately show ?thesis by (simp add: update_ok_def dims)
qed

text \<open>What the loop keeps: the invariant, the optimum, and the boxes with their integrality.\<close>

definition emptied_to :: "problem_update \<Rightarrow> problem_update \<Rightarrow> bool" where
  "emptied_to u v \<longleftrightarrow> update_ok v \<and> same_optimum (upd_problem u) (upd_problem v) \<and>
     getNCols (upd_problem v) = getNCols (upd_problem u) \<and>
     (\<forall>k. integral_box (upd_problem u) k \<longrightarrow> integral_box (upd_problem v) k)"

lemma emptied_to_refl: "update_ok u \<Longrightarrow> emptied_to u u"
  by (simp add: emptied_to_def same_optimum_refl)

lemma emptied_to_trans: "emptied_to u v \<Longrightarrow> emptied_to v w \<Longrightarrow> emptied_to u w"
  unfolding emptied_to_def using same_optimum_trans by metis

lemma dead_column_emptied:
  assumes "update_ok u" and "exact num" and "c < getNCols (upd_problem u)" and "colsize (upd_problem u) ! c = 0"
    and "integral_box (upd_problem u) c"
    and "(if \<not> upd_cflag u c [kInactive] then fix_empty_col num c u else Some u) = r"
  shows "case r of None \<Rightarrow> unbounded_or_infeasible (upd_problem u)
    | Some u1 \<Rightarrow> emptied_to u (on_problem (\<lambda>p. p\<lparr>colsize := (colsize p)[c := -1]\<rparr>) u1)"
proof -
  let ?p = "upd_problem u"
  have ok: "problem_ok ?p" "box_ordered (prob_domains ?p) c" using assms(1,3) by (simp_all add: update_ok_def)
  have "line_sizes_ok (colsize ?p) (col_coeffs ?p)" using assms(1) by (simp add: update_ok_def storages_ok_def)
  then have empty: "col_coeffs ?p ! c = []"
    using assms(3,4) ok(1) by (force simp: line_sizes_ok_def problem_ok_def matrix_ok_def)
  have dead: "upd_problem (on_problem (\<lambda>p. p\<lparr>colsize := (colsize p)[c := -1]\<rparr>) v) = dead_column c (upd_problem v)" for v
    by (simp add: on_problem_def dead_column_def)
  note keep = dead_column_update_ok [OF assms(1,3) empty]
  show ?thesis
  proof (cases "upd_cflag u c [kInactive]")
    case True
    let ?w = "on_problem (\<lambda>p. p\<lparr>colsize := (colsize p)[c := -1]\<rparr>) u"
    have "same_optimum ?p (upd_problem ?w)"
      unfolding dead by (rule same_optimumI) (simp_all only: fixed_empty_solves(2,3))
    moreover have "update_ok ?w" by (rule keep) (rule disjI1, simp_all only: dead on_marks)
    ultimately have "emptied_to u ?w"
      unfolding emptied_to_def by (simp add: dead_column_def getNCols_def integral_box_def)
    with True assms(6) show ?thesis by auto
  next
    case False
    show ?thesis
    proof (cases r)
      case None
      then have "best_value num ?p c = None" using fix_empty_col_result [of num u c] False assms(6) by simp
      with None show ?thesis using no_best_value [OF ok(1) assms(3) empty _ assms(2)] by simp
    next
      case (Some u1)
      then obtain v where v: "best_value num ?p c = Some v" "upd_problem u1 = fixed_empty c v ?p" "marks u1 = marks u"
        using fix_empty_col_result [of num u c] False assms(6) by auto
      let ?w = "on_problem (\<lambda>p. p\<lparr>colsize := (colsize p)[c := -1]\<rparr>) u1"
      have w: "upd_problem ?w = dead_column c (fixed_empty c v ?p)" by (simp only: dead v(2))
      have "update_ok ?w" by (rule keep, rule disjI2, rule w) (simp add: v(3))
      moreover have "same_optimum ?p (upd_problem ?w)"
        unfolding w by (rule fixed_empty_optimum [OF ok(1) assms(3) empty v(1) assms(2) ok(2) assms(5)])
      moreover have "getNCols (upd_problem ?w) = getNCols ?p" "integral_box ?p k \<longrightarrow> integral_box (upd_problem ?w) k" for k
        unfolding w using fixed_flag_test_at [of _ c "prob_domains ?p" k]
        by (simp_all add: dead_column_def fixed_empty_def move_to_offset_def getNCols_def integral_box_def del: col_flag_fields(3))
      ultimately show ?thesis using Some by (simp add: emptied_to_def)
    qed
  qed
qed

lemma remove_empty_sound:
  assumes "update_ok u" and "exact num" and "\<forall>c\<in>set cols. c < getNCols (upd_problem u) \<and> integral_box (upd_problem u) c"
    and "remove_empty num opts cols u = (st, u')"
  shows "if st = kUnbndOrInfeas then unbounded_or_infeasible (upd_problem u) else emptied_to u u'"
  using assms(1,3,4)
proof (induction cols arbitrary: u)
  case Nil
  have "update_ok (u\<lparr>emptyColumns := []\<rparr>)" using Nil.prems(1) update_ok_cong [of "u\<lparr>emptyColumns := []\<rparr>" u] by (simp add: marks_def)
  with Nil show ?case by (auto simp: emptied_to_def same_optimum_refl)
next
  case (Cons c cols)
  let ?r = "if \<not> upd_cflag u c [kInactive] then fix_empty_col num c u else Some u"
  show ?case
  proof (cases "colsize (upd_problem u) ! c \<noteq> 0 \<or> dualreds opts = 1 \<and> isZero num (obj_coeffs (upd_problem u) ! c)")
    case True
    then have "remove_empty num opts cols u = (st, u')" using Cons.prems(3) by (auto split: if_splits)
    with Cons.IH Cons.prems show ?thesis by simp
  next
    case False
    then have step: "case ?r of None \<Rightarrow> unbounded_or_infeasible (upd_problem u)
        | Some u1 \<Rightarrow> emptied_to u (on_problem (\<lambda>p. p\<lparr>colsize := (colsize p)[c := -1]\<rparr>) u1)"
      using Cons.prems(1,2) by (intro dead_column_emptied [OF _ assms(2)]) simp_all
    have skip: "(colsize (upd_problem u) ! c \<noteq> 0) = False"
      "(dualreds opts = 1 \<and> isZero num (obj_coeffs (upd_problem u) ! c)) = False" using False by blast+
    have run: "(case ?r of None \<Rightarrow> (kUnbndOrInfeas, u)
        | Some u1 \<Rightarrow> remove_empty num opts cols (on_problem (\<lambda>p. p\<lparr>colsize := (colsize p)[c := -1]\<rparr>) u1)) = (st, u')"
      using Cons.prems(3) by (simp only: remove_empty.simps skip if_False)
    show ?thesis
    proof (cases ?r)
      case None
      then have "st = kUnbndOrInfeas" using run unfolding None by simp
      with step None show ?thesis by simp
    next
      case (Some u1)
      let ?w = "on_problem (\<lambda>p. p\<lparr>colsize := (colsize p)[c := -1]\<rparr>) u1"
      have w: "emptied_to u ?w" using step Some by simp
      have "remove_empty num opts cols ?w = (st, u')" using run unfolding Some by simp
      then have "if st = kUnbndOrInfeas then unbounded_or_infeasible (upd_problem ?w) else emptied_to ?w u'"
        by (rule Cons.IH [rotated 2]) (use Cons.prems(2) w in \<open>simp_all add: emptied_to_def\<close>)
      then show ?thesis
        using w emptied_to_trans [OF w] unbounded_back by (auto simp: emptied_to_def split: if_splits)
    qed
  qed
qed


section \<open>The whole flush\<close>

lemma checkChangedActivities_exact:
  assumes "checkChangedActivities num u = (st, u')" and "update_ok u" and "exact num" and "useabsfeas num"
    and "set (current_changed_activities (upd_log u)) \<subseteq> {..<getNRows (upd_problem u)}"
  shows "update_ok u'" and "solves (upd_problem u') x = solves (upd_problem u) x"
    and "solves (upd_problem u) x \<Longrightarrow> st \<noteq> kInfeasibleStatus"
proof -
  have "update_ok u' \<and> solves_within 0 (upd_problem u') y = solves_within 0 (upd_problem u) y \<and>
      (solves (upd_problem u) y \<longrightarrow> st \<noteq> kInfeasibleStatus \<and> solves (upd_problem u') y)" for y
    using assms(1,3) check_changed_sound [OF _ assms(2,5) exact_num_ok [OF assms(3)] assms(4), of kUnchanged st u' 0 y]
    by (simp add: checkChangedActivities_def exact_def)
  then show "update_ok u'" "solves (upd_problem u') x = solves (upd_problem u) x"
    "solves (upd_problem u) x \<Longrightarrow> st \<noteq> kInfeasibleStatus" by (auto simp: solves_within_0)
qed

lemma check_changed_objective:
  "check_changed num rs (st, u) = (st', u') \<Longrightarrow>
    computeSolObjective (upd_problem u') x = computeSolObjective (upd_problem u) x"
proof (induction rs arbitrary: st u)
  case (Cons r rs)
  have keep: "computeSolObjective (upd_problem (drop_lhs r v)) x = computeSolObjective (upd_problem v) x"
    "computeSolObjective (upd_problem (drop_rhs r v)) x = computeSolObjective (upd_problem v) x"
    "computeSolObjective (upd_problem (update_markRowRedundant r v)) x = computeSolObjective (upd_problem v) x" for v
    by (simp_all add: drop_lhs_def drop_rhs_def update_markRowRedundant_def modifyLeftHandSide_inf_def
        modifyRightHandSide_inf_def unset_row_flag_def set_row_flag_def computeSolObjective_def getNCols_def Let_def)
  from Cons.prems show ?case
    by (simp split: if_splits RowStatus.splits) (auto dest: Cons.IH simp: keep)
qed simp

lemma deletion_domains:
  assumes "update_ok u" and "deletion_ready u" and "u' = update_deleteRowsAndCols (removeFixedCols u)"
  shows "same_optimum (upd_problem u) (upd_problem u')" and "integral_box (upd_problem u') c = integral_box (upd_problem u) c"
  using deletion_sound [OF assms] by (auto intro: same_optimumI simp: integral_box_def)

lemma removeEmptyColumns_sound:
  assumes "update_ok u" and "exact num" and "\<forall>c\<in>set (emptyColumns u). c < getNCols (upd_problem u) \<and> integral_box (upd_problem u) c"
    and "removeEmptyColumns num opts u = (st, u')"
  shows "st \<noteq> kInfeasibleStatus" and "if st = kUnbndOrInfeas then unbounded_or_infeasible (upd_problem u) else emptied_to u u'"
proof -
  have "st \<noteq> kInfeasibleStatus" if "remove_empty num opts cols v = (st, v')" for cols v v'
    using that by (induction cols arbitrary: v) (auto split: if_splits option.splits)
  then show "st \<noteq> kInfeasibleStatus" using assms(4) by (auto simp: removeEmptyColumns_def split: if_splits)
  show "if st = kUnbndOrInfeas then unbounded_or_infeasible (upd_problem u) else emptied_to u u'"
  proof (cases "dualreds opts \<noteq> 0 \<and> emptyColumns u \<noteq> []")
    case True
    then have "remove_empty num opts (emptyColumns u) u = (st, u')" using assms(4) by (simp add: removeEmptyColumns_def)
    from remove_empty_sound [OF assms(1-3) this] show ?thesis .
  next
    case False
    then show ?thesis using assms(1,4) emptied_to_refl by (auto simp: removeEmptyColumns_def)
  qed
qed

text \<open>
  The state before each stage is in order: the lists hold rows and columns of the problem, the
  deletions are ready, bounds of integral columns are integral.
\<close>

definition rows_ready :: "Num \<Rightarrow> problem_update \<Rightarrow> bool" where
  "rows_ready num u \<longleftrightarrow> good_state num u \<and> singletons_ok num u \<and>
     set (singletonRows u) \<subseteq> {..<getNRows (upd_problem u)}"

definition after_deletion :: "bool \<Rightarrow> problem_update \<Rightarrow> problem_update" where
  "after_deletion reset u = (let v = update_deleteRowsAndCols (removeFixedCols (if reset then drop_redundant_activities u else u))
     in if singletonColumns v \<noteq> [] then filter_singletons v else v)"

definition columns_ready :: "bool \<Rightarrow> problem_update \<Rightarrow> bool" where
  "columns_ready reset u \<longleftrightarrow> deletion_ready u \<and> (\<forall>c\<in>set (emptyColumns (after_deletion reset u)).
     c < getNCols (upd_problem u) \<and> integral_box (upd_problem u) c)"

lemma after_deletion_keeps:
  assumes "update_ok u" and "columns_ready reset u"
  shows "update_ok (after_deletion reset u)" and "same_optimum (upd_problem u) (upd_problem (after_deletion reset u))"
    and "\<forall>c\<in>set (emptyColumns (after_deletion reset u)). c < getNCols (upd_problem (after_deletion reset u)) \<and>
      integral_box (upd_problem (after_deletion reset u)) c"
proof -
  let ?d = "if reset then drop_redundant_activities u else u"
  let ?v = "update_deleteRowsAndCols (removeFixedCols ?d)"
  have d: "upd_problem ?d = upd_problem u" "marks ?d = marks u"
    by (simp_all add: drop_redundant_activities_def marks_def Let_def)
  have f: "upd_problem (after_deletion reset u) = upd_problem ?v" "marks (after_deletion reset u) = marks ?v"
    by (simp_all add: after_deletion_def Let_def filter_singletons_def marks_def)
  have ok: "update_ok ?d" using update_ok_cong [OF d] assms(1) by simp
  have "deletion_ready ?d" using assms(2) d by (simp add: columns_ready_def deletion_ready_def marks_def)
  note del = deletion_sound(1,5) [OF ok this refl] deletion_domains [OF ok this refl]
  show "update_ok (after_deletion reset u)" using update_ok_cong [OF f] del(1) by simp
  show "same_optimum (upd_problem u) (upd_problem (after_deletion reset u))" using del(3) by (simp add: f(1) d(1))
  show "\<forall>c\<in>set (emptyColumns (after_deletion reset u)). c < getNCols (upd_problem (after_deletion reset u)) \<and>
      integral_box (upd_problem (after_deletion reset u)) c"
    using assms(2) del(2,4) d(1) unfolding columns_ready_def f(1) by simp
qed

lemma flush_cases:
  assumes "flush num opts reset u = Some (st, u')" and "flushChangedCoeffs num u = Some u1"
    and "remove_singletons num (singletonRows u1) u1 = (st2, u2)"
    and "checkChangedActivities num (u2\<lparr>singletonRows := []\<rparr>) = (st3, u3)"
    and "removeEmptyColumns num opts (after_deletion reset u3) = (st7, u7)"
  shows "(st, u') = (if st2 = kInfeasibleStatus then (kInfeasibleStatus, u2)
    else if st3 = kInfeasibleStatus then (kInfeasibleStatus, u3)
    else (if st7 = kUnbndOrInfeas then kUnbndOrInfeas else kReduced, u7))"
  using assms by (simp add: flush_def after_deletion_def Let_def split: if_splits)

lemma flush_sound:
  assumes "exact num" and "useabsfeas num" and "flushChangedCoeffs num u = Some u1" and "rows_ready num u1"
    and "remove_singletons num (singletonRows u1) u1 = (st2, u2)"
    and "set (current_changed_activities (upd_log u2)) \<subseteq> {..<getNRows (upd_problem u2)}"
    and "checkChangedActivities num (u2\<lparr>singletonRows := []\<rparr>) = (st3, u3)" and "columns_ready reset u3"
    and "flush num opts reset u = Some (st, u')"
  shows "case st of kInfeasibleStatus \<Rightarrow> \<forall>x. \<not> solves (upd_problem u1) x
    | kUnbndOrInfeas \<Rightarrow> unbounded_or_infeasible (upd_problem u1)
    | _ \<Rightarrow> update_ok u' \<and> same_optimum (upd_problem u1) (upd_problem u')"
proof -
  obtain st7 u7 where last: "removeEmptyColumns num opts (after_deletion reset u3) = (st7, u7)" by fastforce
  note st = flush_cases [OF assms(9,3,5,7) last]
  have same: "same_solutions num u1 st2 u2"
    using remove_singletons_sound [OF _ _ assms(1) _ assms(5)] assms(4) by (simp add: rows_ready_def)
  have ok2: "update_ok (u2\<lparr>singletonRows := []\<rparr>)"
    using same update_ok_cong [of "u2\<lparr>singletonRows := []\<rparr>" u2] by (simp add: same_solutions_def good_state_def marks_def)
  have range: "set (current_changed_activities (upd_log (u2\<lparr>singletonRows := []\<rparr>))) \<subseteq>
      {..<getNRows (upd_problem (u2\<lparr>singletonRows := []\<rparr>))}" using assms(6) by simp
  note check = checkChangedActivities_exact [OF assms(7) ok2 assms(1,2) range]
  show ?thesis
  proof (cases "st2 = kInfeasibleStatus \<or> st3 = kInfeasibleStatus")
    case True
    then have "\<not> solves (upd_problem u1) x" for x
      using same check(3) [of x] by (auto simp: same_solutions_def)
    with True st show ?thesis by (auto split: if_splits)
  next
    case False
    have "solves (upd_problem u3) x = solves (upd_problem u1) x" for x
      using same False check(2) by (simp add: same_solutions_def)
    moreover have "computeSolObjective (upd_problem u3) x = computeSolObjective (upd_problem u1) x" for x
    proof -
      have kept: "rows_kept (upd_problem u1) (upd_problem u2)" using same by (simp add: same_solutions_def)
      from kept have "computeSolObjective (upd_problem u2) x = computeSolObjective (upd_problem u1) x"
        by (simp add: rows_kept_def computeSolObjective_def rows_kept_tests(2) [OF kept])
      then show ?thesis
        using check_changed_objective [OF assms(7) [unfolded checkChangedActivities_def], of x] by simp
    qed
    ultimately have "same_optimum (upd_problem u1) (upd_problem u3)" by (intro same_optimumI) simp_all
    note opt = same_optimum_trans [OF this after_deletion_keeps(2) [OF check(1) assms(8)]]
    have "if st7 = kUnbndOrInfeas then unbounded_or_infeasible (upd_problem (after_deletion reset u3))
        else emptied_to (after_deletion reset u3) u7"
      using removeEmptyColumns_sound(2) [OF after_deletion_keeps(1) [OF check(1) assms(8)] assms(1)
          after_deletion_keeps(3) [OF check(1) assms(8)] last] .
    then show ?thesis
      using st False unbounded_back [OF opt] same_optimum_trans [OF opt] by (auto simp: emptied_to_def split: if_splits)
  qed
qed


section \<open>The stages of a flush\<close>

text \<open>
  C9. If the entries of the buffer are distinct positions of existing coefficients (\<open>buffer_ok\<close>) and none replaces a
  coefficient by one of the same sign at a huge distance (\<open>change_allowed\<close>; the excluded case is
  \<open>coeffchange_huge_keeps_old_activity\<close>), flushing the buffered coefficient changes writes exactly the
  buffered values into both storages of the matrix, empties the buffer and keeps the invariant of the
  problem update, the activities of all rows included.
\<close>

theorem flushChangedCoeffs_applies_buffer:
  assumes "update_ok u" and "buffer_ok (upd_problem u) (upd_buffer u)"
    and "\<forall>(r, c, w)\<in>set (upd_buffer u). \<forall>v. (c, v) \<in> set (row_coeffs (upd_problem u) ! r) \<longrightarrow> change_allowed num c v w"
  shows "\<exists>u'. flushChangedCoeffs num u = Some u' \<and> update_ok u' \<and> upd_buffer u' = [] \<and>
    row_coeffs (upd_problem u') = buffered_rows (upd_buffer u) (row_coeffs (upd_problem u)) \<and>
    col_coeffs (upd_problem u') = buffered_cols (upd_buffer u) (col_coeffs (upd_problem u))"
proof (cases "upd_buffer u = []")
  case True
  then show ?thesis using assms(1) by (simp add: flushChangedCoeffs_def)
next
  case False
  obtain u' acts where run: "flushChangedCoeffs num u = Some u'" "upd_buffer u' = []" "marks u' = marks u"
      "upd_problem u' = flushed_problem u acts"
      "all_tracked (upd_domains u) (buffered_rows (upd_buffer u) (row_coeffs (upd_problem u))) acts"
    using flushChangedCoeffs_computes [OF assms(1) False assms(2,3)] by blast
  moreover have "update_ok u'" by (rule flushed_update_ok [OF assms(1,2) run(4,3,5)])
  ultimately show ?thesis by (simp add: flushed_problem_def)
qed

theorem flushChangedCoeffs_applies_buffer_witness:
  "\<exists>u'. flushChangedCoeffs exact_num ((ex_state ex_matrix)\<lparr>upd_buffer := [(0, 1, 5), (1, 1, 0)]\<rparr>) = Some u' \<and> update_ok u' \<and>
    row_coeffs (upd_problem u') = [[(0, 1), (1, 5)], []]"
proof -
  let ?u = "(ex_state ex_matrix)\<lparr>upd_buffer := [(0, 1, 5), (1, 1, 0)]\<rparr>"
  have "update_ok ?u" using ex_matrix_update_ok update_ok_cong [of ?u "ex_state ex_matrix"] by (simp add: marks_def)
  moreover have "buffer_ok (upd_problem ?u) (upd_buffer ?u)" by code_simp
  moreover have "\<forall>(r, c, w)\<in>set (upd_buffer ?u). \<forall>v. (c, v) \<in> set (row_coeffs (upd_problem ?u) ! r) \<longrightarrow> change_allowed exact_num c v w"
    by (simp add: ex_state_def new_problem_update_def ex_matrix_def change_allowed_def isHugeVal_def exact_num_def)
  moreover have "buffered_rows (upd_buffer ?u) (row_coeffs (upd_problem ?u)) = [[(0, 1), (1, 5)], []]" by code_simp
  ultimately show ?thesis using flushChangedCoeffs_applies_buffer [of ?u exact_num] by auto
qed

text \<open>
  C8. The check of the rows with changed activities keeps the invariant, reports infeasibility only
  for a problem without solution, loses no solution, and keeps the set of solutions up to every
  tolerance of at least the feasibility tolerance, although it drops sides and whole rows.
\<close>

theorem checkChangedActivities_sound:
  assumes "checkChangedActivities num u = (st, u')" and "update_ok u"
    and "set (current_changed_activities (upd_log u)) \<subseteq> {..<getNRows (upd_problem u)}"
    and "num_ok num" and "useabsfeas num" and "feastol num \<le> t"
  shows "update_ok u' \<and> solves_within t (upd_problem u') x = solves_within t (upd_problem u) x \<and>
    (solves (upd_problem u) x \<longrightarrow> st \<noteq> kInfeasibleStatus \<and> solves (upd_problem u') x)"
  using check_changed_sound [OF _ assms(2-6), of kUnchanged st u' x] assms(1)
  by (simp add: checkChangedActivities_def)

definition ex_checked :: problem_update where
  "ex_checked = (ex_state (ex_matrix\<lparr>lhs_values := [-1, 0], rhs_values := [4, 30]\<rparr>))
     \<lparr>upd_log := \<lparr>last_changed_activities = [], current_changed_activities = [0, 1]\<rparr>\<rparr>"

lemma ex_checked_ok: "update_ok ex_checked"
proof -
  let ?p = "ex_matrix\<lparr>lhs_values := [-1, 0], rhs_values := [4, 30]\<rparr>"
  have m: "upd_problem (ex_state ex_matrix) = ex_matrix" by (simp add: ex_state_def new_problem_update_def)
  have ok: "problem_ok ex_matrix" "storages_ok ex_matrix" "sorted_lines ex_matrix" "\<forall>c<getNCols ex_matrix. box_ordered (prob_domains ex_matrix) c"
    using ex_matrix_update_ok unfolding update_ok_def m by blast+
  have "length (row_coeffs ex_matrix) = 2" by (simp add: ex_matrix_def)
  then have "update_ok (ex_state ?p)"
    using ok by (intro ex_state_ok) (simp_all add: problem_ok_def storages_ok_def sorted_lines_def getNRows_def getNCols_def)
  then show ?thesis using update_ok_cong [of ex_checked "ex_state ?p"] by (simp add: ex_checked_def marks_def)
qed

theorem checkChangedActivities_sound_witness:
  "fst (checkChangedActivities exact_num ex_checked) = kReduced \<and>
   redundant_rows (snd (checkChangedActivities exact_num ex_checked)) = [1] \<and>
   update_ok (snd (checkChangedActivities exact_num ex_checked)) \<and>
   solves (upd_problem (snd (checkChangedActivities exact_num ex_checked))) [0, 2]"
proof -
  have range: "set (current_changed_activities (upd_log ex_checked)) \<subseteq> {..<getNRows (upd_problem ex_checked)}" by code_simp
  have num: "num_ok exact_num" "useabsfeas exact_num" "feastol exact_num \<le> 0" by code_simp+
  have "solves (upd_problem ex_checked) [0, 2]" by code_simp
  moreover have "fst (checkChangedActivities exact_num ex_checked) = kReduced"
    "redundant_rows (snd (checkChangedActivities exact_num ex_checked)) = [1]" by code_simp+
  ultimately show ?thesis
    using checkChangedActivities_sound [OF surjective_pairing ex_checked_ok range num, of "[0, 2]"] by blast
qed

text \<open>
  In exact arithmetic the removal of singleton rows replaces each of them by the equivalent bounds
  of its column: a point solves the new problem if and only if it solves the old one, and the answer
  is infeasible only when there is no solution.
\<close>

lemma singleton_rows_become_bounds:
  assumes "rows_ready num u" and "exact num" and "remove_singletons num (singletonRows u) u = (st, u')"
  shows "(st \<noteq> kInfeasibleStatus \<and> solves (upd_problem u') x) = solves (upd_problem u) x \<and> update_ok u'"
  using remove_singletons_sound [OF _ _ assms(2) _ assms(3)] assms(1)
  by (simp add: rows_ready_def same_solutions_def good_state_def)

definition ex_single :: problem_update where
  "ex_single = (ex_state ex_matrix)\<lparr>singletonRows := [1]\<rparr>"

lemma ex_single_ready: "rows_ready exact_num ex_single"
proof -
  have "update_ok ex_single" using ex_matrix_update_ok update_ok_cong [of ex_single "ex_state ex_matrix"]
    by (simp add: marks_def ex_single_def)
  moreover have "\<forall>k<getNCols (upd_problem ex_single). tidy_col exact_num (upd_domains ex_single) k"
    by (auto simp: tidy_col_def ex_single_def ex_state_def new_problem_update_def getNCols_def ex_matrix_def less_Suc_eq
        isHugeVal_def exact_num_def old_bound_def split: BoundChange.split)
  moreover have "singletons_ok exact_num ex_single" "set (singletonRows ex_single) \<subseteq> {..<getNRows (upd_problem ex_single)}"
    by code_simp+
  ultimately show ?thesis by (simp add: rows_ready_def good_state_def)
qed

text \<open>
  C7. Moving the fixed columns into the sides and the objective offset and deleting the marked rows and
  columns keeps the invariant and the solutions, and gives every solution the same objective value.
\<close>

theorem deletion_keeps_solutions:
  assumes "update_ok u" and "deletion_ready u" and "u' = update_deleteRowsAndCols (removeFixedCols u)"
  shows "update_ok u' \<and> solves (upd_problem u') x = solves (upd_problem u) x \<and>
    (solves (upd_problem u) x \<longrightarrow> computeSolObjective (upd_problem u') x = computeSolObjective (upd_problem u) x)"
  using deletion_sound [OF assms] by blast


text \<open>A problem whose first column is fixed to one and whose last row is redundant.\<close>

definition ex_pending :: problem_update where
  "ex_pending = (ex_state (ex_matrix\<lparr>row_flags := [0, kRedundantRow],
     prob_domains := \<lparr>lower_bounds = [1, 0], upper_bounds = [1, 10], col_flags = [kFixed, 0]\<rparr>,
     row_activities := [\<lparr>act_min = 1, act_max = 21, ninfmin = 0, ninfmax = 0, lastchange = -1\<rparr>,
       \<lparr>act_min = 0, act_max = 30, ninfmin = 0, ninfmax = 0, lastchange = -1\<rparr>]\<rparr>))
     \<lparr>deleted_cols := [0], redundant_rows := [1]\<rparr>"

lemma ex_pending_ok: "update_ok ex_pending"
proof -
  let ?p = "upd_problem ex_pending"
  have "problem_ok ?p"
    by (auto simp: ex_pending_def ex_state_def new_problem_update_def problem_ok_def matrix_ok_def ex_matrix_def
        getNCols_def getNRows_def col_of_matrix_def all_tracked_def tracks_def part_defs flags_test_def flag_defs less_Suc_eq)
  moreover have "storages_ok ?p"
    using ex_matrix_ok by (simp add: ex_pending_def ex_state_def new_problem_update_def storages_ok_def getNCols_def getNRows_def ex_matrix_def)
  moreover have "sorted_lines ?p"
    by (simp add: ex_pending_def ex_state_def new_problem_update_def sorted_lines_def ex_matrix_def sorted_cols_def)
  moreover have "\<forall>c<getNCols ?p. box_ordered (prob_domains ?p) c" by code_simp
  moreover have "marks_ok ex_pending" by code_simp
  ultimately show ?thesis by (simp add: update_ok_def)
qed

theorem deletion_keeps_solutions_witness:
  "lhs_values (upd_problem (update_deleteRowsAndCols (removeFixedCols ex_pending))) ! 0 = -1 \<and>
   rhs_values (upd_problem (update_deleteRowsAndCols (removeFixedCols ex_pending))) ! 0 = 3 \<and>
   row_coeffs (upd_problem (update_deleteRowsAndCols (removeFixedCols ex_pending))) = [[(1, 2)], []] \<and>
   solves (upd_problem (update_deleteRowsAndCols (removeFixedCols ex_pending))) [1, 1] \<and>
   computeSolObjective (upd_problem (update_deleteRowsAndCols (removeFixedCols ex_pending))) [1, 1] = 2"
proof -
  have "deletion_ready ex_pending" by code_simp
  note del = deletion_keeps_solutions [OF ex_pending_ok this refl, of "[1, 1]"]
  moreover have "solves (upd_problem ex_pending) [1, 1]" "computeSolObjective (upd_problem ex_pending) [1, 1] = 2" by code_simp+
  moreover have "lhs_values (upd_problem (update_deleteRowsAndCols (removeFixedCols ex_pending))) ! 0 = -1"
    "rhs_values (upd_problem (update_deleteRowsAndCols (removeFixedCols ex_pending))) ! 0 = 3"
    "row_coeffs (upd_problem (update_deleteRowsAndCols (removeFixedCols ex_pending))) = [[(1, 2)], []]" by code_simp+
  ultimately show ?thesis by simp
qed


definition ex_options :: PresolveOptions where
  "ex_options = \<lparr>dualreds = 2, maxfillinpersubstitution = 10, maxshiftperrow = 10, compressfac = 8 / 10,
     minabscoeff = 1 / 10000, verification_with_VeriPB = False, maxrounds = -1,
     max_consecutive_rounds_of_only_bound_changes = 500, tlim = None, abortfacfast = 8 / 10000,
     abortfacmedium = 8 / 10000, abortfac = 8 / 10000, lpabortfacfast = 1 / 100, lpabortfacmedium = 1 / 100,
     lpabortfac = 1 / 100, threads = 1, apply_results_immediately_if_run_sequentially = True\<rparr>"


end
