(* ===== verification/Pap_Compress.thy ===== *)
theory Pap_Compress
  imports Pap_Flush_Laws
begin

text \<open>
  Compression of a problem in the middle of presolve: rows and columns whose size is \<open>-1\<close> leave both
  storages and every vector by row or by column, the others are renumbered in their old order
  (\<open>core/SparseStorage.hpp\<close>, \<open>core/ConstraintMatrix.hpp\<close>, \<open>core/Problem.hpp\<close> and
  \<open>core/ProblemUpdate.hpp\<close>).
\<close>

section \<open>Operations\<close>

text \<open>The loop that numbers the remaining columns of a storage.\<close>

fun number_kept :: "nat \<Rightarrow> int list \<Rightarrow> int list" where
  "number_kept colcount [] = []"
| "number_kept colcount (s # sizes) =
     (if s \<ge> 0 then int colcount # number_kept (colcount + 1) sizes else -1 # number_kept colcount sizes)"

text \<open>
  A storage on its lines: the lines of size \<open>-1\<close> are skipped, the indices in the others renumbered. An
  assertion says that no index of a remaining entry is removed.
\<close>

definition compress_lines :: "int list \<Rightarrow> int list \<Rightarrow> sparse_vec list \<Rightarrow> int list \<times> sparse_vec list" where
  "compress_lines linesizes othersizes lines =
     (let colsmap = number_kept 0 othersizes
      in (colsmap, map (\<lambda>r. map (\<lambda>(c, v). (nat (colsmap ! c), v)) (lines ! r))
            (filter (\<lambda>r. linesizes ! r \<noteq> -1) [0..<length lines])))"

definition matrix_compress :: "problem \<Rightarrow> (int list \<times> int list) \<times> problem" where
  "matrix_compress p =
     (case compress_lines (colsize p) (rowsize p) (col_coeffs p) of (rowmap, cols) \<Rightarrow>
      case compress_lines (rowsize p) (colsize p) (row_coeffs p) of (colmap, rows) \<Rightarrow>
        ((rowmap, colmap),
         p\<lparr>row_coeffs := rows, col_coeffs := cols,
           colsize := compress_vector colmap (colsize p), rowsize := compress_vector rowmap (rowsize p),
           lhs_values := compress_vector rowmap (lhs_values p), rhs_values := compress_vector rowmap (rhs_values p),
           row_flags := compress_vector rowmap (row_flags p)\<rparr>))"

text \<open>The locks of the columns are not compressed.\<close>

definition problem_compress :: "problem \<Rightarrow> (int list \<times> int list) \<times> problem" where
  "problem_compress p =
     (case matrix_compress p of ((rowmap, colmap), q) \<Rightarrow>
        ((rowmap, colmap),
         q\<lparr>obj_coeffs := compress_vector colmap (obj_coeffs p), prob_domains := domains_compress colmap (prob_domains p),
           row_activities := (if row_activities p \<noteq> [] then compress_vector rowmap (row_activities p) else [])\<rparr>))"

definition resized :: "nat \<Rightarrow> 'a \<Rightarrow> 'a list \<Rightarrow> 'a list" where
  "resized n d xs = take n xs @ replicate (n - length xs) d"

definition compress_indices :: "int list \<Rightarrow> nat list \<Rightarrow> nat list" where
  "compress_indices mapping xs = map nat (compress_index_vector mapping (map int xs))"

definition update_compress :: "bool \<Rightarrow> problem_update \<Rightarrow> problem_update" where
  "update_compress full u =
     (let p = upd_problem u
      in if int (getNCols p) = getNActiveCols u \<and> int (getNRows p) = getNActiveRows u \<and> \<not> full then u
         else case problem_compress p of ((rowmap, colmap), q) \<Rightarrow>
           let newcols = length (singletonColumns u) - firstNewSingletonCol u;
               sc = compress_indices colmap (singletonColumns u)
           in u\<lparr>upd_problem := q,
                row_state := resized (getNRows q) kUnmodified (row_state u),
                col_state := resized (getNCols q) kUnmodified (col_state u),
                random_row_perm := compress_index_vector rowmap (random_row_perm u),
                random_col_perm := compress_index_vector colmap (random_col_perm u),
                upd_postsolve := storage_compress rowmap colmap (upd_postsolve u),
                upd_log := \<lparr>last_changed_activities = compress_indices rowmap (last_changed_activities (upd_log u)),
                            current_changed_activities = compress_indices rowmap (current_changed_activities (upd_log u))\<rparr>,
                singletonRows := compress_indices rowmap (singletonRows u),
                emptyColumns := compress_indices colmap (emptyColumns u),
                singletonColumns := sc, firstNewSingletonCol := length sc - newcols,
                lastcompress_ndelrows := ndeletedrows (upd_stats u),
                lastcompress_ndelcols := ndeletedcols (upd_stats u)\<rparr>)"

definition check_and_compress :: "PresolveOptions \<Rightarrow> problem_update \<Rightarrow> problem_update" where
  "check_and_compress opts u =
     (let ncols = getNCols (upd_problem u); nrows = getNRows (upd_problem u)
      in if compressfac opts \<noteq> 0 \<and>
            (ncols > 100 \<and> of_int (getNActiveCols u) < of_nat ncols * compressfac opts \<or>
             nrows > 100 \<and> of_int (getNActiveRows u) < of_nat nrows * compressfac opts)
         then update_compress False u else u)"

section \<open>The mapping\<close>

lemma number_kept_at:
  assumes "i < length sizes"
  shows "number_kept k sizes ! i =
    (if sizes ! i \<ge> 0 then int (k + length (filter (\<lambda>s. s \<ge> 0) (take i sizes))) else -1)"
  using assms
proof (induction sizes arbitrary: k i)
  case (Cons s sizes)
  then show ?case by (cases i) auto
qed simp

lemma length_number_kept [simp]: "length (number_kept k sizes) = length sizes"
  by (induction sizes arbitrary: k) auto

lemma number_kept_removed: "i < length sizes \<Longrightarrow> number_kept 0 sizes ! i \<noteq> -1 \<longleftrightarrow> sizes ! i \<ge> 0"
  by (simp add: number_kept_at)

lemma length_filter_take:
  "i \<le> length xs \<Longrightarrow> length (filter P (take i xs)) = length (filter (\<lambda>j. P (xs ! j)) [0..<i])"
  by (induction i) (simp_all add: take_Suc_conv_app_nth)

lemma number_kept_mapping: "compress_mapping (number_kept 0 sizes)"
proof -
  have "length (filter (\<lambda>s. s \<ge> 0) (take i sizes)) = length (kept (number_kept 0 sizes) i)" if "i < length sizes" for i
  proof -
    have "filter (\<lambda>j. number_kept 0 sizes ! j \<noteq> -1) [0..<i] = filter (\<lambda>j. sizes ! j \<ge> 0) [0..<i]"
      using that by (intro filter_cong) (simp_all add: number_kept_removed)
    then show ?thesis using that by (simp add: kept_def length_filter_take)
  qed
  then show ?thesis by (auto simp: compress_mapping_def number_kept_at)
qed

text \<open>The remaining indices and their new places.\<close>

definition remaining :: "int list \<Rightarrow> nat list" where
  "remaining sizes = filter (\<lambda>i. sizes ! i \<ge> 0) [0..<length sizes]"

definition new_place :: "int list \<Rightarrow> nat \<Rightarrow> nat" where
  "new_place sizes i = nat (number_kept 0 sizes ! i)"

lemma remaining_kept: "remaining sizes = kept (number_kept 0 sizes) (length sizes)"
  unfolding remaining_def kept_def by (rule filter_cong) (simp_all add: number_kept_removed)

lemma remaining_iff: "i \<in> set (remaining sizes) \<longleftrightarrow> i < length sizes \<and> sizes ! i \<ge> 0"
  by (auto simp: remaining_def)

lemma new_place_at:
  assumes "i \<in> set (remaining sizes)"
  shows "new_place sizes i < length (remaining sizes)" and "remaining sizes ! new_place sizes i = i"
proof -
  have i: "i < length sizes" "sizes ! i \<ge> 0" using assms by (simp_all add: remaining_iff)
  let ?m = "number_kept 0 sizes"
  have m: "i < length ?m" "?m ! i \<noteq> -1" using i by (simp_all add: number_kept_removed)
  have at: "?m ! i = int (length (kept ?m i))"
    using number_kept_mapping [of sizes] m by (auto simp: compress_mapping_def)
  have "kept ?m (length ?m) = kept ?m i @ i # kept_from ?m i" by (rule kept_append [OF m])
  then show "new_place sizes i < length (remaining sizes)" "remaining sizes ! new_place sizes i = i"
    using at by (simp_all add: remaining_kept new_place_def nth_append)
qed

lemma new_place_remaining:
  assumes "k < length (remaining sizes)"
  shows "new_place sizes (remaining sizes ! k) = k"
proof -
  have in_set: "remaining sizes ! k \<in> set (remaining sizes)" using assms by simp
  have "distinct (remaining sizes)" by (simp add: remaining_def)
  from nth_eq_iff_index_eq [OF this new_place_at(1) [OF in_set] assms] new_place_at(2) [OF in_set]
  show ?thesis by simp
qed

lemma new_place_inj: "inj_on (new_place sizes) (set (remaining sizes))"
  by (rule inj_onI) (metis new_place_at(2))

lemma compress_vector_remaining:
  assumes "length xs = length sizes"
  shows "compress_vector (number_kept 0 sizes) xs = map ((!) xs) (remaining sizes)"
  using compress_vector_kept [OF number_kept_mapping, of xs sizes] assms by (simp add: remaining_kept)

lemma compress_lines_remaining:
  assumes "length rsizes = length lines" and "\<forall>s\<in>set rsizes. s \<ge> -1"
  shows "compress_lines rsizes csizes lines =
    (number_kept 0 csizes, map (\<lambda>r. map (\<lambda>(c, v). (new_place csizes c, v)) (lines ! r)) (remaining rsizes))"
proof -
  have "rsizes ! r \<noteq> -1 \<longleftrightarrow> rsizes ! r \<ge> 0" if "r < length lines" for r
  proof -
    have "rsizes ! r \<ge> -1" using assms that by simp
    then show ?thesis by linarith
  qed
  then have "filter (\<lambda>r. rsizes ! r \<noteq> -1) [0..<length lines] = remaining rsizes"
    using assms(1) unfolding remaining_def by (intro filter_cong) simp_all
  then show ?thesis by (simp add: compress_lines_def Let_def new_place_def)
qed

section \<open>The compressed problem\<close>

definition renumber :: "int list \<Rightarrow> sparse_vec \<Rightarrow> sparse_vec" where
  "renumber sizes line = map (\<lambda>(c, v). (new_place sizes c, v)) line"

lemma renumber_mem:
  assumes "fst ` set line \<subseteq> set (remaining sizes)" and "k < length (remaining sizes)"
  shows "(k, v) \<in> set (renumber sizes line) \<longleftrightarrow> (remaining sizes ! k, v) \<in> set line"
proof
  assume "(k, v) \<in> set (renumber sizes line)"
  then obtain c where c: "(c, v) \<in> set line" "k = new_place sizes c" by (auto simp: renumber_def)
  then have "c \<in> set (remaining sizes)" using assms(1) by force
  then show "(remaining sizes ! k, v) \<in> set line" using c new_place_at(2) by simp
next
  assume "(remaining sizes ! k, v) \<in> set line"
  then show "(k, v) \<in> set (renumber sizes line)"
    using new_place_remaining [OF assms(2)] by (force simp: renumber_def)
qed

lemma renumber_keys:
  assumes "fst ` set line \<subseteq> set (remaining sizes)" and "(k, v) \<in> set (renumber sizes line)"
  shows "k < length (remaining sizes)"
  using assms new_place_at(1) by (force simp: renumber_def)

lemma renumber_distinct:
  assumes "fst ` set line \<subseteq> set (remaining sizes)"
  shows "distinct_cols (renumber sizes line) = distinct_cols line"
proof -
  have fsts: "map fst (renumber sizes line) = map (new_place sizes) (map fst line)" by (auto simp: renumber_def)
  have "inj_on (new_place sizes) (set (map fst line))"
    using inj_on_subset [OF new_place_inj] assms by simp
  then show ?thesis unfolding fsts distinct_map by simp
qed

lemma length_renumber [simp]: "length (renumber sizes line) = length line"
  by (simp add: renumber_def)

lemma kept_mono:
  assumes "i \<in> set (remaining sizes)" and "j \<in> set (remaining sizes)" and "i < j"
  shows "new_place sizes i < new_place sizes j"
proof (rule ccontr)
  assume "\<not> new_place sizes i < new_place sizes j"
  moreover have "sorted (remaining sizes)" unfolding remaining_def by (rule sorted_wrt_filter) simp
  ultimately have "remaining sizes ! new_place sizes j \<le> remaining sizes ! new_place sizes i"
    using new_place_at(1) [OF assms(1)] by (intro sorted_nth_mono) simp_all
  then show False using new_place_at(2) assms by simp
qed

lemma renumber_sorted:
  assumes "fst ` set line \<subseteq> set (remaining sizes)" and "sorted_cols line"
  shows "sorted_cols (renumber sizes line)"
  using assms
proof (induction line)
  case (Cons e line)
  obtain c v where e: "e = (c, v)" by (cases e)
  have "new_place sizes c < new_place sizes a" if "(a, b) \<in> set line" for a b
    using that Cons.prems e by (intro kept_mono) force+
  with Cons e show ?case by (auto simp: renumber_def)
qed (simp add: renumber_def)

text \<open>What is left has no entry in a removed line.\<close>

lemma matrix_keys:
  assumes "storages_ok p"
  shows "r < getNRows p \<Longrightarrow> fst ` set (row_coeffs p ! r) \<subseteq> set (remaining (colsize p))"
    and "c < getNCols p \<Longrightarrow> fst ` set (col_coeffs p ! c) \<subseteq> set (remaining (rowsize p))"
proof -
  have mat: "matrix_ok (getNCols p) (row_coeffs p) (col_coeffs p)"
    and rs: "line_sizes_ok (rowsize p) (row_coeffs p)" and cs: "line_sizes_ok (colsize p) (col_coeffs p)"
    using assms by (simp_all add: storages_ok_def)
  have both: "(c, v) \<in> set (row_coeffs p ! r) \<longleftrightarrow> (r, v) \<in> set (col_coeffs p ! c)"
    if "r < getNRows p" "c < getNCols p" for r c v
    using mat that by (auto simp: matrix_ok_def col_of_matrix_def getNRows_def)
  have size: "k < length lines \<Longrightarrow> lines ! k \<noteq> [] \<Longrightarrow> line_sizes_ok s lines \<Longrightarrow> k \<in> set (remaining s)"
    for k lines s by (auto simp: line_sizes_ok_def remaining_iff)
  show "fst ` set (row_coeffs p ! r) \<subseteq> set (remaining (colsize p))" if r: "r < getNRows p"
  proof
    fix c assume "c \<in> fst ` set (row_coeffs p ! r)"
    then obtain v where v: "(c, v) \<in> set (row_coeffs p ! r)" by auto
    have row: "row_coeffs p ! r \<in> set (row_coeffs p)" using r by (simp add: getNRows_def)
    then have "c < getNCols p" using mat v unfolding matrix_ok_def by blast
    then have "c < length (col_coeffs p)" "col_coeffs p ! c \<noteq> []" using both [OF r, of c v] v by (auto simp: getNCols_def)
    then show "c \<in> set (remaining (colsize p))" by (rule size [OF _ _ cs])
  qed
  show "fst ` set (col_coeffs p ! c) \<subseteq> set (remaining (rowsize p))" if c: "c < getNCols p"
  proof
    fix r assume "r \<in> fst ` set (col_coeffs p ! c)"
    then obtain v where v: "(r, v) \<in> set (col_coeffs p ! c)" by auto
    have "r < getNRows p" using mat c v col_of_matrixD(1) by (auto simp: matrix_ok_def getNRows_def)
    moreover from this have "row_coeffs p ! r \<noteq> []" using both [OF _ c, of r v] v by auto
    ultimately have "r < length (row_coeffs p)" "row_coeffs p ! r \<noteq> []" by (simp_all add: getNRows_def)
    then show "r \<in> set (remaining (rowsize p))" by (rule size [OF _ _ rs])
  qed
qed

lemma sizes_bounded: "line_sizes_ok s lines \<Longrightarrow> \<forall>x\<in>set s. x \<ge> -1"
  by (auto simp: line_sizes_ok_def in_set_conv_nth) (metis le_minus_one_simps(1) of_nat_0_le_iff order.refl order.trans)

definition compressed :: "problem \<Rightarrow> problem" where
  "compressed p = (let R = remaining (rowsize p); C = remaining (colsize p)
     in p\<lparr>row_coeffs := map (\<lambda>r. renumber (colsize p) (row_coeffs p ! r)) R,
          col_coeffs := map (\<lambda>c. renumber (rowsize p) (col_coeffs p ! c)) C,
          colsize := map ((!) (colsize p)) C, rowsize := map ((!) (rowsize p)) R,
          lhs_values := map ((!) (lhs_values p)) R, rhs_values := map ((!) (rhs_values p)) R,
          row_flags := map ((!) (row_flags p)) R, obj_coeffs := map ((!) (obj_coeffs p)) C,
          prob_domains := \<lparr>lower_bounds = map ((!) (prob_lbs p)) C, upper_bounds = map ((!) (prob_ubs p)) C,
            col_flags = map ((!) (prob_cflags p)) C\<rparr>,
          row_activities := map ((!) (row_activities p)) R\<rparr>)"

lemma problem_compress_eq:
  assumes "problem_ok p" and "storages_ok p"
  shows "problem_compress p = ((number_kept 0 (rowsize p), number_kept 0 (colsize p)), compressed p)"
proof -
  have len: "length (rowsize p) = getNRows p" "length (colsize p) = getNCols p"
    "length (row_coeffs p) = getNRows p" "length (col_coeffs p) = getNCols p"
    "length (lhs_values p) = getNRows p" "length (rhs_values p) = getNRows p"
    "length (row_flags p) = getNRows p" "length (obj_coeffs p) = getNCols p"
    "length (prob_lbs p) = getNCols p" "length (prob_ubs p) = getNCols p" "length (prob_cflags p) = getNCols p"
    "length (row_activities p) = getNRows p"
    using assms by (simp_all add: problem_ok_def storages_ok_def line_sizes_ok_def getNRows_def getNCols_def)
  have bounds: "\<forall>x\<in>set (rowsize p). x \<ge> -1" "\<forall>x\<in>set (colsize p). x \<ge> -1"
    using assms(2) sizes_bounded by (auto simp: storages_ok_def)
  have rows: "compress_lines (rowsize p) (colsize p) (row_coeffs p) =
      (number_kept 0 (colsize p), map (\<lambda>r. renumber (colsize p) (row_coeffs p ! r)) (remaining (rowsize p)))"
    using compress_lines_remaining [OF _ bounds(1), of "row_coeffs p" "colsize p"] len by (simp add: renumber_def)
  have cols: "compress_lines (colsize p) (rowsize p) (col_coeffs p) =
      (number_kept 0 (rowsize p), map (\<lambda>c. renumber (rowsize p) (col_coeffs p ! c)) (remaining (colsize p)))"
    using compress_lines_remaining [OF _ bounds(2), of "col_coeffs p" "rowsize p"] len by (simp add: renumber_def)
  have "row_activities p = [] \<Longrightarrow> remaining (rowsize p) = []"
    using len by (simp add: remaining_def)
  then show ?thesis
    using len by (simp add: problem_compress_def matrix_compress_def rows cols compressed_def Let_def
        compress_vector_remaining domains_compress_def)
qed

lemma compressed_dims [simp]:
  "getNRows (compressed p) = length (remaining (rowsize p))" "getNCols (compressed p) = length (remaining (colsize p))"
  by (simp_all add: compressed_def getNRows_def getNCols_def Let_def)

section \<open>What compression keeps\<close>

text \<open>The entries of a point that belong to the remaining columns, and a point put together again.\<close>

definition pick :: "int list \<Rightarrow> 'a list \<Rightarrow> 'a list" where
  "pick sizes x = map ((!) x) (remaining sizes)"

definition spread :: "int list \<Rightarrow> 'a list \<Rightarrow> 'a list \<Rightarrow> 'a list" where
  "spread sizes y z = map (\<lambda>c. if sizes ! c \<ge> 0 then y ! new_place sizes c else z ! c) [0..<length sizes]"

lemma length_pick [simp]: "length (pick sizes x) = length (remaining sizes)"
  and length_spread [simp]: "length (spread sizes y z) = length sizes"
  by (simp_all add: pick_def spread_def)

lemma pick_spread: "length y = length (remaining sizes) \<Longrightarrow> pick sizes (spread sizes y z) = y"
proof (rule nth_equalityI)
  fix k assume k: "k < length (pick sizes (spread sizes y z))"
  then have "remaining sizes ! k \<in> set (remaining sizes)" by simp
  then have "remaining sizes ! k < length sizes" "sizes ! (remaining sizes ! k) \<ge> 0" by (simp_all add: remaining_iff)
  with k show "pick sizes (spread sizes y z) ! k = y ! k"
    by (simp add: pick_def spread_def new_place_remaining)
qed simp

lemma renumber_value:
  assumes "fst ` set line \<subseteq> set (remaining sizes)"
  shows "row_value (renumber sizes line) (pick sizes x) = row_value line x"
proof -
  have "v * pick sizes x ! new_place sizes c = v * x ! c" if "(c, v) \<in> set line" for c v
  proof -
    have "c \<in> set (remaining sizes)" using that assms by force
    then show ?thesis using new_place_at by (simp add: pick_def)
  qed
  then show ?thesis
    unfolding row_value_def renumber_def map_map by (intro arg_cong [where f = sum_list] map_cong) auto
qed

text \<open>A column at its new place has the domain it had.\<close>

lemma compressed_domain:
  assumes "c \<in> set (remaining (colsize p))"
  shows "lower_bounds (prob_domains (compressed p)) ! new_place (colsize p) c = prob_lbs p ! c"
    and "upper_bounds (prob_domains (compressed p)) ! new_place (colsize p) c = prob_ubs p ! c"
    and "col_flags (prob_domains (compressed p)) ! new_place (colsize p) c = prob_cflags p ! c"
  using new_place_at [OF assms] by (simp_all add: compressed_def Let_def)

lemma compressed_tracks:
  assumes "fst ` set line \<subseteq> set (remaining (colsize p))"
  shows "tracks (prob_domains (compressed p)) (renumber (colsize p) line) act = tracks (prob_domains p) line act"
proof -
  let ?D = "prob_domains (compressed p)" and ?f = "\<lambda>(c, v). (new_place (colsize p) c, v)"
  have at: "min_part ?D (?f e) = min_part (prob_domains p) e" "max_part ?D (?f e) = max_part (prob_domains p) e"
    "min_inf ?D (?f e) = min_inf (prob_domains p) e" "max_inf ?D (?f e) = max_inf (prob_domains p) e"
    if "e \<in> set line" for e
  proof -
    have "fst e \<in> set (remaining (colsize p))" using that assms by auto
    then show "min_part ?D (?f e) = min_part (prob_domains p) e" "max_part ?D (?f e) = max_part (prob_domains p) e"
      "min_inf ?D (?f e) = min_inf (prob_domains p) e" "max_inf ?D (?f e) = max_inf (prob_domains p) e"
      by (cases e; simp add: part_defs compressed_domain)+
  qed
  have maps: "map (min_part ?D \<circ> ?f) line = map (min_part (prob_domains p)) line"
    "map (max_part ?D \<circ> ?f) line = map (max_part (prob_domains p)) line"
    "map (min_inf ?D \<circ> ?f) line = map (min_inf (prob_domains p)) line"
    "map (max_inf ?D \<circ> ?f) line = map (max_inf (prob_domains p)) line"
    using at by simp_all
  show ?thesis unfolding tracks_def renumber_def map_map maps ..
qed

lemma compressed_matrix_ok:
  assumes "storages_ok p"
  shows "matrix_ok (getNCols (compressed p)) (row_coeffs (compressed p)) (col_coeffs (compressed p))"
proof -
  let ?R = "remaining (rowsize p)" and ?C = "remaining (colsize p)"
  note keys = matrix_keys [OF assms]
  have mat: "matrix_ok (getNCols p) (row_coeffs p) (col_coeffs p)"
    and n: "length (rowsize p) = getNRows p" "length (colsize p) = getNCols p"
    using assms by (simp_all add: storages_ok_def line_sizes_ok_def getNRows_def getNCols_def)
  have R: "?R ! r < getNRows p" if "r < length ?R" for r
    using nth_mem [OF that] n by (simp add: remaining_iff)
  have C: "?C ! c < getNCols p" if "c < length ?C" for c
    using nth_mem [OF that] n by (simp add: remaining_iff)
  have rows: "row_coeffs (compressed p) = map (\<lambda>r. renumber (colsize p) (row_coeffs p ! r)) ?R"
    and cols: "col_coeffs (compressed p) = map (\<lambda>c. renumber (rowsize p) (col_coeffs p ! c)) ?C"
    by (simp_all add: compressed_def Let_def)
  have line: "distinct_cols (row_coeffs p ! r)" "\<forall>e\<in>set (row_coeffs p ! r). snd e \<noteq> 0" if "r < getNRows p" for r
  proof -
    have "row_coeffs p ! r \<in> set (row_coeffs p)" using that by (simp add: getNRows_def)
    then show "distinct_cols (row_coeffs p ! r)" "\<forall>e\<in>set (row_coeffs p ! r). snd e \<noteq> 0"
      using mat by (fastforce simp: matrix_ok_def)+
  qed
  have col: "distinct_cols (col_coeffs p ! c)"
    "(c, v) \<in> set (row_coeffs p ! r) \<longleftrightarrow> (r, v) \<in> set (col_coeffs p ! c)"
    if "c < getNCols p" "r < getNRows p" for r c v
    using that mat by (auto simp: matrix_ok_def col_of_matrix_def getNRows_def)
  have "col_of_matrix (row_coeffs (compressed p)) c (col_coeffs (compressed p) ! c)" if c: "c < length ?C" for c
  proof -
    let ?c = "?C ! c"
    have cc: "distinct_cols (col_coeffs p ! ?c)" using mat C [OF c] by (simp add: matrix_ok_def col_of_matrix_def)
    show ?thesis
      unfolding col_of_matrix_def rows cols
      using c renumber_distinct [OF keys(2) [OF C [OF c]]] cc renumber_keys [OF keys(2) [OF C [OF c]]]
      by (auto simp: renumber_mem [OF keys(1) [OF R] c] renumber_mem [OF keys(2) [OF C [OF c]]] col(2) [OF C [OF c] R])
  qed
  moreover have "distinct_cols row \<and> (\<forall>(c, v)\<in>set row. c < length ?C \<and> v \<noteq> 0)" if "row \<in> set (row_coeffs (compressed p))" for row
  proof -
    from that obtain r where r: "r \<in> set ?R" "row = renumber (colsize p) (row_coeffs p ! r)"
      unfolding rows set_map by blast
    then have "r < getNRows p" using n by (simp add: remaining_iff)
    then show ?thesis
      using line [of r] renumber_distinct [OF keys(1)] renumber_keys [OF keys(1)] by (auto simp: r(2)) (auto simp: renumber_def)
  qed
  ultimately show ?thesis by (simp add: matrix_ok_def cols)
qed

text \<open>
  A problem is ready for compression when the rows that leave are redundant and the columns that leave
  do not occur in the objective any more or have the value zero.
\<close>

definition compress_ready :: "problem \<Rightarrow> bool" where
  "compress_ready p \<longleftrightarrow>
     (\<forall>r<getNRows p. rowsize p ! r = -1 \<longrightarrow> flags_test (row_flags p ! r) [kRedundantRow]) \<and>
     (\<forall>c<getNCols p. colsize p ! c = -1 \<longrightarrow> obj_coeffs p ! c = 0 \<or>
        \<not> flags_test (prob_cflags p ! c) [kLbInf] \<and> \<not> flags_test (prob_cflags p ! c) [kUbInf] \<and>
        prob_lbs p ! c = 0 \<and> prob_ubs p ! c = 0)"

definition fits_column :: "problem \<Rightarrow> nat \<Rightarrow> rat \<Rightarrow> bool" where
  "fits_column p c v \<longleftrightarrow> in_col_domain (prob_domains p) c v \<and>
     (flags_test (prob_cflags p ! c) [kIntegral, kImplInt] \<longrightarrow> v \<in> \<int>)"

lemma in_box_columns:
  "length (prob_cflags p) = getNCols p \<Longrightarrow>
    in_box p x \<longleftrightarrow> length x = getNCols p \<and> (\<forall>c<getNCols p. fits_column p c (x ! c))"
  by (auto simp: in_box_def in_domains_def integral_point_def fits_column_def)

lemma all_remaining:
  "(\<forall>k<length (remaining sizes). P k) \<longleftrightarrow> (\<forall>i\<in>set (remaining sizes). P (new_place sizes i))"
  by (metis new_place_at(1) new_place_remaining nth_mem)

lemma compressed_row:
  assumes "r \<in> set (remaining (rowsize p))"
  shows "row_coeffs (compressed p) ! new_place (rowsize p) r = renumber (colsize p) (row_coeffs p ! r)"
    and "lhs_values (compressed p) ! new_place (rowsize p) r = lhs_values p ! r"
    and "rhs_values (compressed p) ! new_place (rowsize p) r = rhs_values p ! r"
    and "row_flags (compressed p) ! new_place (rowsize p) r = row_flags p ! r"
    and "row_activities (compressed p) ! new_place (rowsize p) r = row_activities p ! r"
    and "rowsize (compressed p) ! new_place (rowsize p) r = rowsize p ! r"
  using new_place_at [OF assms] by (simp_all add: compressed_def Let_def)

lemma compressed_problem_ok:
  assumes "problem_ok p" and "storages_ok p" and "sorted_lines p"
  shows "problem_ok (compressed p)" and "storages_ok (compressed p)" and "sorted_lines (compressed p)"
proof -
  let ?R = "remaining (rowsize p)" and ?C = "remaining (colsize p)"
  have n: "length (rowsize p) = getNRows p" "length (colsize p) = getNCols p"
    using assms(2) by (simp_all add: storages_ok_def line_sizes_ok_def getNRows_def getNCols_def)
  note mat = compressed_matrix_ok [OF assms(2)] and keys = matrix_keys [OF assms(2)]
  have "tracks (prob_domains (compressed p)) (row_coeffs (compressed p) ! k) (row_activities (compressed p) ! k)"
    "distinct_cols (row_coeffs (compressed p) ! k)" if "k < length ?R" for k
  proof -
    have r: "?R ! k \<in> set ?R" "new_place (rowsize p) (?R ! k) = k" using that new_place_remaining by simp_all
    then have "?R ! k < getNRows p" using n by (simp add: remaining_iff)
    moreover have "tracks (prob_domains p) (row_coeffs p ! (?R ! k)) (row_activities p ! (?R ! k))"
      "distinct_cols (row_coeffs p ! (?R ! k))"
      using assms(1) calculation by (auto simp: problem_ok_def all_tracked_def getNRows_def)
    ultimately show "tracks (prob_domains (compressed p)) (row_coeffs (compressed p) ! k) (row_activities (compressed p) ! k)"
      "distinct_cols (row_coeffs (compressed p) ! k)"
      using compressed_row [OF r(1)] compressed_tracks [OF keys(1)] renumber_distinct [OF keys(1)] by (simp_all add: r(2))
  qed
  moreover have lens: "length (row_coeffs (compressed p)) = length ?R" "length (col_coeffs (compressed p)) = length ?C"
    "length (row_activities (compressed p)) = length ?R"
    by (simp_all add: compressed_def Let_def)
  ultimately have "all_tracked (prob_domains (compressed p)) (row_coeffs (compressed p)) (row_activities (compressed p))"
    by (simp add: all_tracked_def)
  with mat show "problem_ok (compressed p)"
    unfolding problem_ok_def compressed_dims by (simp add: compressed_def Let_def)
  have "rowsize p ! r = int (length (row_coeffs p ! r))" if "r \<in> set ?R" for r
    using that assms(2) by (auto simp: storages_ok_def line_sizes_ok_def remaining_iff)
  moreover have "colsize p ! c = int (length (col_coeffs p ! c))" if "c \<in> set ?C" for c
    using that assms(2) by (auto simp: storages_ok_def line_sizes_ok_def remaining_iff)
  ultimately show "storages_ok (compressed p)"
    using mat lens unfolding storages_ok_def line_sizes_ok_def compressed_dims
    by (simp add: compressed_def Let_def)
  have "sorted_cols (renumber (colsize p) (row_coeffs p ! r))" if "r \<in> set ?R" for r
    using that assms(3) n by (intro renumber_sorted keys) (auto simp: sorted_lines_def remaining_iff getNRows_def)
  moreover have "sorted_cols (renumber (rowsize p) (col_coeffs p ! c))" if "c \<in> set ?C" for c
    using that assms(3) n by (intro renumber_sorted keys) (auto simp: sorted_lines_def remaining_iff getNCols_def)
  ultimately show "sorted_lines (compressed p)"
    by (auto simp: sorted_lines_def compressed_def Let_def)
qed

lemma compressed_solves:
  assumes "problem_ok p" and "storages_ok p" and "compress_ready p" and "length x = getNCols p"
  shows "solves p x \<longleftrightarrow> solves (compressed p) (pick (colsize p) x) \<and>
    (\<forall>c<getNCols p. colsize p ! c = -1 \<longrightarrow> fits_column p c (x ! c))"
proof -
  let ?R = "remaining (rowsize p)" and ?C = "remaining (colsize p)" and ?y = "pick (colsize p) x"
  have n: "length (rowsize p) = getNRows p" "length (colsize p) = getNCols p" "length (prob_cflags p) = getNCols p"
    using assms(1,2) by (simp_all add: problem_ok_def storages_ok_def line_sizes_ok_def getNRows_def getNCols_def)
  have dead_row: "r \<in> set ?R \<longleftrightarrow> rowsize p ! r \<noteq> -1" if "r < getNRows p" for r
    using assms(2) that n by (auto simp: storages_ok_def line_sizes_ok_def getNRows_def remaining_iff)
  have dead_col: "c \<in> set ?C \<longleftrightarrow> colsize p ! c \<noteq> -1" if "c < getNCols p" for c
    using assms(2) that n by (auto simp: storages_ok_def line_sizes_ok_def getNCols_def remaining_iff)
  have range: "r \<in> set ?R \<Longrightarrow> r < getNRows p" "c \<in> set ?C \<Longrightarrow> c < getNCols p" for r c
    using n by (simp_all add: remaining_iff)
  have rows: "active_rows_satisfied (compressed p) ?y \<longleftrightarrow> active_rows_satisfied p x"
  proof -
    have "row_value (renumber (colsize p) (row_coeffs p ! r)) ?y = row_value (row_coeffs p ! r) x" if "r \<in> set ?R" for r
      using that matrix_keys(1) [OF assms(2)] n by (intro renumber_value) (simp add: remaining_iff)
    then have "active_rows_satisfied (compressed p) ?y \<longleftrightarrow> (\<forall>r\<in>set ?R. flags_test (row_flags p ! r) [kRedundantRow] \<or>
        satisfies_row (row_flags p ! r) (lhs_values p ! r) (rhs_values p ! r) (row_value (row_coeffs p ! r) x))"
      unfolding active_rows_satisfied_def compressed_dims all_remaining by (simp add: compressed_row)
    also have "\<dots> \<longleftrightarrow> active_rows_satisfied p x"
      using assms(3) dead_row range(1) unfolding active_rows_satisfied_def compress_ready_def by blast
    finally show ?thesis .
  qed
  have "fits_column (compressed p) (new_place (colsize p) c) (?y ! new_place (colsize p) c) = fits_column p c (x ! c)"
    if "c \<in> set ?C" for c
    using compressed_domain [OF that] new_place_at [OF that] by (simp add: fits_column_def in_col_domain_def pick_def)
  moreover have "length (prob_cflags (compressed p)) = getNCols (compressed p)" by (simp add: compressed_def Let_def getNCols_def)
  ultimately have "in_box (compressed p) ?y \<longleftrightarrow> (\<forall>c\<in>set ?C. fits_column p c (x ! c))"
    by (simp add: in_box_columns all_remaining)
  moreover have "in_box p x \<longleftrightarrow> (\<forall>c\<in>set ?C. fits_column p c (x ! c)) \<and>
      (\<forall>c<getNCols p. colsize p ! c = -1 \<longrightarrow> fits_column p c (x ! c))"
    using assms(4) dead_col range(2) unfolding in_box_columns [OF n(3)] by blast
  ultimately show ?thesis using rows by (auto simp: solves_def in_box_def)
qed

lemma compressed_objective:
  assumes "problem_ok p" and "storages_ok p" and "compress_ready p" and "solves p x"
  shows "computeSolObjective (compressed p) (pick (colsize p) x) = computeSolObjective p x"
proof -
  let ?C = "remaining (colsize p)" and ?g = "\<lambda>c. obj_coeffs p ! c * x ! c"
  have n: "length (colsize p) = getNCols p" "length (obj_coeffs p) = getNCols p" "length (prob_cflags p) = getNCols p"
    using assms(1,2) by (simp_all add: problem_ok_def storages_ok_def line_sizes_ok_def getNCols_def)
  have zero: "?g c = 0" if c: "c < getNCols p" "c \<notin> set ?C" for c
  proof -
    have "colsize p ! c = -1"
      using assms(2) c n by (auto simp: storages_ok_def line_sizes_ok_def getNCols_def remaining_iff)
    moreover have "in_col_domain (prob_domains p) c (x ! c)"
      using assms(4) c(1) n(3) by (simp add: solves_def in_domains_def)
    ultimately show ?thesis using assms(3) c(1) by (auto simp: compress_ready_def in_col_domain_def)
  qed
  have "(\<Sum>c<getNCols p. ?g c) = sum_list (map ?g [0..<getNCols p])" by (simp add: interv_sum_list_conv_sum_set_nat atLeast0LessThan)
  also have "\<dots> = sum_list (map ?g ?C)"
    unfolding remaining_def n(1)
  proof (rule sum_list_map_filter [symmetric])
    fix c assume "c \<in> set [0..<getNCols p]" "\<not> 0 \<le> colsize p ! c"
    then show "?g c = 0" using zero by (simp add: remaining_iff)
  qed
  also have "\<dots> = (\<Sum>k<length ?C. ?g (?C ! k))"
    by (simp add: sum_list_sum_nth atLeast0LessThan)
  finally have "(\<Sum>c<getNCols p. ?g c) = (\<Sum>k<length ?C. ?g (?C ! k))" .
  moreover have "obj_coeffs (compressed p) = map ((!) (obj_coeffs p)) ?C" "obj_offset (compressed p) = obj_offset p"
    by (simp_all add: compressed_def Let_def)
  ultimately show ?thesis
    using n by (simp add: computeSolObjective_eq obj_value_def pick_def)
qed

lemma compress_indices_remaining:
  assumes "set xs \<subseteq> {..<length sizes}"
  shows "compress_indices (number_kept 0 sizes) xs = map (new_place sizes) (filter (\<lambda>i. sizes ! i \<ge> 0) xs)"
  using assms
proof (induction xs)
  case (Cons i xs)
  then show ?case
    using number_kept_removed [of i sizes]
    by (auto simp: compress_indices_def compress_index_vector_filter new_place_def)
qed (simp add: compress_indices_def compress_index_vector_filter)

lemma update_compress_form:
  assumes "problem_ok (upd_problem u)" and "storages_ok (upd_problem u)" and "update_compress full u \<noteq> u"
  shows "upd_problem (update_compress full u) = compressed (upd_problem u)"
    and "marks (update_compress full u) = (resized (length (remaining (rowsize (upd_problem u)))) kUnmodified (row_state u),
      resized (length (remaining (colsize (upd_problem u)))) kUnmodified (col_state u),
      dirty_row_states u, dirty_col_states u, deleted_cols u, redundant_rows u)"
    and "singletonRows (update_compress full u) = compress_indices (number_kept 0 (rowsize (upd_problem u))) (singletonRows u)"
    and "singletonColumns (update_compress full u) = compress_indices (number_kept 0 (colsize (upd_problem u))) (singletonColumns u)"
    and "emptyColumns (update_compress full u) = compress_indices (number_kept 0 (colsize (upd_problem u))) (emptyColumns u)"
  using assms(3) unfolding update_compress_def Let_def problem_compress_eq [OF assms(1,2)]
  by (auto simp: marks_def split: if_splits)

lemma compress_update_ok:
  assumes "update_ok u" and "dirty_row_states u = []" and "dirty_col_states u = []"
    and "deleted_cols u = []" and "redundant_rows u = []"
  shows "update_ok (update_compress full u)"
proof (cases "update_compress full u = u")
  case True
  with assms(1) show ?thesis by simp
next
  case False
  let ?p = "upd_problem u" and ?v = "update_compress full u"
  have u: "problem_ok ?p" "storages_ok ?p" "sorted_lines ?p" "marks_ok u" "\<forall>c<getNCols ?p. box_ordered (prob_domains ?p) c"
    using assms(1) by (simp_all add: update_ok_def)
  note form = update_compress_form [OF u(1,2) False] and ok = compressed_problem_ok [OF u(1-3)]
  have "length (remaining sizes) \<le> length sizes" for sizes :: "int list" by (simp add: remaining_def) (metis diff_zero length_filter_le length_upt)
  then have n: "length (remaining (rowsize ?p)) \<le> getNRows ?p" "length (remaining (colsize ?p)) \<le> getNCols ?p"
    using u(2) by (simp_all add: storages_ok_def line_sizes_ok_def getNRows_def getNCols_def) (metis, metis)
  have res: "dirty_ok (resized m kUnmodified st) [] m" if "dirty_ok st [] k" "m \<le> k" for m k st
    using that by (auto simp: dirty_ok_def resized_def)
  have "dirty_ok (row_state u) [] (getNRows ?p)" "dirty_ok (col_state u) [] (getNCols ?p)"
    using u(4) assms(2,3) by (simp_all add: marks_ok_def)
  then have "marks_ok ?v"
    using form(2) assms(2-5) res [OF _ n(1)] res [OF _ n(2)] by (simp add: marks_ok_def marks_def form(1))
  moreover have "box_ordered (prob_domains (compressed ?p)) k" if "k < length (remaining (colsize ?p))" for k
  proof -
    have c: "remaining (colsize ?p) ! k \<in> set (remaining (colsize ?p))" using that by simp
    then have "remaining (colsize ?p) ! k < getNCols ?p" using u(2) by (simp add: remaining_iff storages_ok_def line_sizes_ok_def getNCols_def)
    then have "box_ordered (prob_domains ?p) (remaining (colsize ?p) ! k)" using u(5) by blast
    then show ?thesis
      using compressed_domain [OF c] new_place_remaining [OF that] by (simp add: box_ordered_def bound_is_inf_def)
  qed
  ultimately show ?thesis using ok by (simp add: update_ok_def form(1))
qed

section \<open>Correctness of compression\<close>

text \<open>
  C11. Compressing the problem between two rounds keeps the invariant of the problem update. Its
  solutions are those of the compressed problem, extended by a value in the domain of each column that
  left, with the same objective, and the work lists name the same rows and columns as before.
\<close>

theorem compress_keeps_solutions:
  assumes "update_ok u" and "compress_ready (upd_problem u)"
    and "dirty_row_states u = []" and "dirty_col_states u = []" and "deleted_cols u = []" and "redundant_rows u = []"
    and "set (singletonRows u) \<subseteq> {..<getNRows (upd_problem u)}" and "length x = getNCols (upd_problem u)"
  shows "update_ok (update_compress full u) \<and>
    (update_compress full u = u \<or>
     (let p = upd_problem u; q = upd_problem (update_compress full u); y = pick (colsize p) x
      in (solves p x \<longleftrightarrow> solves q y \<and> (\<forall>c<getNCols p. colsize p ! c = -1 \<longrightarrow> fits_column p c (x ! c))) \<and>
         (solves p x \<longrightarrow> computeSolObjective q y = computeSolObjective p x) \<and>
         singletonRows (update_compress full u) = map (new_place (rowsize p)) (filter (\<lambda>r. rowsize p ! r \<ge> 0) (singletonRows u))))"
proof -
  let ?p = "upd_problem u"
  have ok: "problem_ok ?p" "storages_ok ?p" using assms(1) by (simp_all add: update_ok_def)
  have "set (singletonRows u) \<subseteq> {..<length (rowsize ?p)}"
    using assms(7) ok(2) by (simp add: storages_ok_def line_sizes_ok_def getNRows_def)
  note lists = compress_indices_remaining [OF this]
  show ?thesis
  proof (cases "update_compress full u = u")
    case False
    note form = update_compress_form [OF ok False]
    show ?thesis
      using compress_update_ok [OF assms(1,3-6), of full] compressed_solves [OF ok assms(2,8)]
        compressed_objective [OF ok assms(2)] form(1,3) lists
      unfolding Let_def by simp
  qed (use assms(1) in simp)
qed

definition ex_deleted :: problem_update where
  "ex_deleted = update_deleteRowsAndCols (removeFixedCols ex_pending)"

theorem compress_keeps_solutions_witness:
  "solves (upd_problem (update_compress True ex_deleted)) [1] \<and>
   computeSolObjective (upd_problem (update_compress True ex_deleted)) [1] = 2 \<and>
   row_coeffs (upd_problem (update_compress True ex_deleted)) = [[(0, 2)]]"
proof -
  have "deletion_ready ex_pending" by code_simp
  then have "update_ok ex_deleted"
    using deletion_sound [OF ex_pending_ok _ ex_deleted_def] by blast
  moreover have "compress_ready (upd_problem ex_deleted)" "solves (upd_problem ex_deleted) [1, 1]"
    "dirty_row_states ex_deleted = []" "dirty_col_states ex_deleted = []" "deleted_cols ex_deleted = []"
    "redundant_rows ex_deleted = []" "set (singletonRows ex_deleted) \<subseteq> {..<getNRows (upd_problem ex_deleted)}"
    "computeSolObjective (upd_problem ex_deleted) [1, 1] = 2" "length [1 :: rat, 1] = getNCols (upd_problem ex_deleted)"
    "pick (colsize (upd_problem ex_deleted)) [1 :: rat, 1] = [1]"
    by code_simp+
  moreover have rows: "row_coeffs (upd_problem (update_compress True ex_deleted)) = [[(0, 2)]]" by code_simp
  moreover have "row_coeffs (upd_problem ex_deleted) = [[(1, 2)], []]" by code_simp
  then have "update_compress True ex_deleted \<noteq> ex_deleted" using rows by auto
  ultimately show ?thesis
    using compress_keeps_solutions [of ex_deleted "[1, 1]" True] by (simp add: Let_def)
qed

end
