(* ===== verification/Pap_Trivial.thy ===== *)
theory Pap_Trivial
  imports Pap_Compress
begin

text \<open>
  \<open>src/papilo/core/ProblemUpdate.hpp\<close>, the trivial presolve that starts every round: bounds of integral
  columns are rounded, columns without locks in the direction of their cost are fixed, rows are checked
  against their activities, tiny coefficients are dropped, and the round is flushed.
\<close>

section \<open>Operations\<close>

text \<open>A loop whose body may return from the function.\<close>

fun until_stop :: "('a \<Rightarrow> 's \<Rightarrow> bool \<times> 's) \<Rightarrow> 'a list \<Rightarrow> 's \<Rightarrow> bool \<times> 's" where
  "until_stop step [] s = (False, s)"
| "until_stop step (x # xs) s = (case step x s of (stop, s1) \<Rightarrow> if stop then (True, s1) else until_stop step xs s1)"

subsection \<open>Columns\<close>

definition round_integral_side :: "BoundChange \<Rightarrow> nat \<Rightarrow> PresolveStatus \<times> problem_update \<Rightarrow> PresolveStatus \<times> problem_update" where
  "round_integral_side type col st =
     (case st of (status, u) \<Rightarrow>
        if \<not> bound_is_inf type (upd_domains u) col then
          let b = old_bound type (upd_domains u) col;
              rounded = (case type of kLower \<Rightarrow> rational_ceil b | kUpper \<Rightarrow> rational_floor b)
          in if rounded \<noteq> b
             then (kReduced, on_domains (set_bound_value type col rounded) (count_bound u))
             else (status, u)
        else (status, u))"

definition roundIntegralColumns :: "nat \<Rightarrow> PresolveStatus \<times> problem_update \<Rightarrow> PresolveStatus \<times> problem_update" where
  "roundIntegralColumns col st =
     (if upd_cflag (snd st) col [kIntegral] then round_integral_side kUpper col (round_integral_side kLower col st)
      else st)"

definition mark_huge_values :: "Num \<Rightarrow> nat \<Rightarrow> problem_update \<Rightarrow> problem_update" where
  "mark_huge_values num col u =
     (let u1 = (if \<not> upd_cflag u col [kLbInf] \<and> isHugeVal num (lower_bounds (upd_domains u) ! col)
                then on_domains (set_col_flag col [kLbHuge]) u else u)
      in if \<not> upd_cflag u1 col [kUbInf] \<and> isHugeVal num (upper_bounds (upd_domains u1) ! col)
         then on_domains (set_col_flag col [kUbHuge]) u1 else u1)"

text \<open>
  A value of the option outside 0, 1, 2 fails an assertion; without assertions it falls through to 0.
\<close>

definition is_dualfix_enabled :: "PresolveOptions \<Rightarrow> problem \<Rightarrow> nat \<Rightarrow> bool" where
  "is_dualfix_enabled opts p col =
     (if dualreds opts = 1 then obj_coeffs p ! col \<noteq> 0 else dualreds opts = 2)"

text \<open>One side gets the value of the other, and the column is fixed.\<close>

definition dualfix_to :: "BoundChange \<Rightarrow> nat \<Rightarrow> problem_update \<Rightarrow> problem_update" where
  "dualfix_to type col u =
     (let d = upd_domains u; val = old_bound (opposite type) d col
      in markColFixed col (count_bound
           (on_domains (unset_col_flag col [case type of kLower \<Rightarrow> kLbInf | kUpper \<Rightarrow> kUbInf])
             (on_domains (set_bound_value type col val) (store_bound_change type col val u)))))"

definition apply_dualfix :: "PresolveOptions \<Rightarrow> nat \<Rightarrow> problem_update \<Rightarrow> PresolveStatus \<times> problem_update" where
  "apply_dualfix opts col u =
     (let p = upd_problem u; cost = obj_coeffs p ! col; down = fst (col_locks p ! col); up = snd (col_locks p ! col);
          lbinf = upd_cflag u col [kLbInf]; ubinf = upd_cflag u col [kUbInf]
      in if \<not> is_dualfix_enabled opts p col then (kUnchanged, u)
         else if down = 0 \<and> cost \<ge> 0 \<and> lbinf \<and> cost \<noteq> 0 then (kUnbndOrInfeas, u)
         else if down = 0 \<and> cost \<ge> 0 \<and> \<not> lbinf then (kReduced, dualfix_to kUpper col u)
         else if up = 0 \<and> cost \<le> 0 \<and> ubinf \<and> cost \<noteq> 0 then (kUnbndOrInfeas, u)
         else if up = 0 \<and> cost \<le> 0 \<and> \<not> ubinf then (kReduced, dualfix_to kLower col u)
         else (kUnchanged, u))"

definition list_column :: "nat \<Rightarrow> problem_update \<Rightarrow> problem_update" where
  "list_column col u =
     (if colsize (upd_problem u) ! col = 0 then u\<lparr>emptyColumns := emptyColumns u @ [col]\<rparr>
      else if colsize (upd_problem u) ! col = 1 then u\<lparr>singletonColumns := singletonColumns u @ [col]\<rparr>
      else u)"

definition trivial_column :: "Num \<Rightarrow> PresolveOptions \<Rightarrow> nat \<Rightarrow> PresolveStatus \<times> problem_update \<Rightarrow> bool \<times> PresolveStatus \<times> problem_update" where
  "trivial_column num opts col st =
     (if upd_cflag (snd st) col [kInactive] then (False, st)
      else
        case roundIntegralColumns col st of (status1, u1) \<Rightarrow>
        let u2 = mark_huge_values num col u1; lb = lower_bounds (upd_domains u2) ! col; ub = upper_bounds (upd_domains u2) ! col
        in if \<not> upd_cflag u2 col [Pap_Domains.kUnbounded] \<and> lb > ub then (True, kInfeasibleStatus, u2)
           else if \<not> upd_cflag u2 col [Pap_Domains.kUnbounded] \<and> lb = ub
           then (False, kReduced, markColFixed col u2)
           else case apply_dualfix opts col u2 of (status3, u3) \<Rightarrow>
             if status3 = kUnbndOrInfeas then (True, status3, u3)
             else if status3 = kReduced then (False, status3, u3)
             else (False, status3, list_column col u3))"

definition trivialColumnPresolve :: "Num \<Rightarrow> PresolveOptions \<Rightarrow> problem_update \<Rightarrow> PresolveStatus \<times> problem_update" where
  "trivialColumnPresolve num opts u =
     snd (until_stop (trivial_column num opts) [0..<getNCols (upd_problem u)]
       (kUnchanged, u\<lparr>emptyColumns := [], singletonColumns := [], firstNewSingletonCol := 0\<rparr>))"

subsection \<open>Small coefficients\<close>

definition shift_sides :: "nat \<Rightarrow> rat \<Rightarrow> problem_update \<Rightarrow> problem_update" where
  "shift_sides row sidechange u =
     (let u1 = (if \<not> upd_rflag u row [kRhsInf]
                then on_stats (\<lambda>s. s\<lparr>nsidechgs := nsidechgs s + 1\<rparr>)
                  (on_problem (\<lambda>p. p\<lparr>rhs_values := (rhs_values p)[row := rhs_values p ! row - sidechange]\<rparr>) u)
                else u);
          u2 = (if \<not> upd_rflag u1 row [kLhsInf]
                then on_stats (\<lambda>s. s\<lparr>nsidechgs := nsidechgs s + 1\<rparr>)
                  (on_problem (\<lambda>p. p\<lparr>lhs_values := (lhs_values p)[row := lhs_values p ! row - sidechange]\<rparr>) u1)
                else u1)
      in if \<not> upd_rflag u2 row [kLhsInf, kRhsInf, kEquation] \<and>
            lhs_values (upd_problem u2) ! row = rhs_values (upd_problem u2) ! row
         then on_problem (set_row_flag row [kEquation]) u2 else u2)"

definition buffer_zero :: "nat \<Rightarrow> nat \<Rightarrow> problem_update \<Rightarrow> problem_update" where
  "buffer_zero row col u = u\<lparr>upd_buffer := upd_buffer u @ [(row, col, 0)]\<rparr>"

fun cleanup_loop :: "Num \<Rightarrow> PresolveOptions \<Rightarrow> nat \<Rightarrow> nat \<Rightarrow> sparse_vec \<Rightarrow> rat \<Rightarrow> problem_update \<Rightarrow> problem_update" where
  "cleanup_loop num opts row len [] total_mod u = u"
| "cleanup_loop num opts row len ((col, v) # es) total_mod u =
     (let lb = lower_bounds (upd_domains u) ! col; ub = upper_bounds (upd_domains u) ! col; absval = \<bar>v\<bar>
      in if upd_cflag u col [Pap_Domains.kUnbounded, kInactive] then cleanup_loop num opts row len es total_mod u
         else if absval < minabscoeff opts then cleanup_loop num opts row len es total_mod (buffer_zero row col u)
         else if absval \<le> 1 / 1000 \<and> absval * (ub - lb) * of_nat len \<le> 1 / 100 * feastol num \<and>
                 total_mod + absval * (ub - lb) \<le> 1 / 10 * feastol num
         then cleanup_loop num opts row len es (total_mod + absval * (ub - lb))
                (if lb \<noteq> 0 then shift_sides row (v * lb) (buffer_zero row col u) else buffer_zero row col u)
         else cleanup_loop num opts row len es total_mod u)"

definition cleanupSmallCoefficients :: "Num \<Rightarrow> PresolveOptions \<Rightarrow> nat \<Rightarrow> problem_update \<Rightarrow> problem_update" where
  "cleanupSmallCoefficients num opts row u =
     (let rowvec = row_coeffs (upd_problem u) ! row in cleanup_loop num opts row (length rowvec) rowvec 0 u)"

subsection \<open>Rows\<close>

definition delete_empty_row :: "nat \<Rightarrow> problem_update \<Rightarrow> problem_update" where
  "delete_empty_row row u =
     on_storage (storeRedundantRow row)
       (on_problem (\<lambda>p. (set_row_flag row [kRedundantRow] p)\<lparr>rowsize := (rowsize p)[row := -1]\<rparr>) u)"

definition mark_equation :: "nat \<Rightarrow> problem_update \<Rightarrow> problem_update" where
  "mark_equation row u =
     (if \<not> upd_rflag u row [kRhsInf, kLhsInf, kEquation] \<and>
         lhs_values (upd_problem u) ! row = rhs_values (upd_problem u) ! row
      then on_problem (set_row_flag row [kEquation]) u else u)"

text \<open>One row: the status afterwards and whether the loop stops there.\<close>

definition trivial_row :: "Num \<Rightarrow> PresolveOptions \<Rightarrow> nat \<Rightarrow> PresolveStatus \<times> problem_update \<Rightarrow> bool \<times> PresolveStatus \<times> problem_update" where
  "trivial_row num opts row st =
     (case st of (status, u) \<Rightarrow>
        let p = upd_problem u
        in if rowsize p ! row = 0 then
             (if \<not> upd_rflag u row [kLhsInf] \<and> isFeasGT num (lhs_values p ! row) 0 \<or>
                 \<not> upd_rflag u row [kRhsInf] \<and> isFeasLT num (rhs_values p ! row) 0
              then (True, kInfeasibleStatus, u)
              else (False, kReduced, delete_empty_row row u))
           else if rowsize p ! row = 1 then
             (case removeSingletonRow num row u of (status1, u1) \<Rightarrow> (status1 = kInfeasibleStatus, status1, u1))
           else (case row_checkStatus num p row of
               kRedundant \<Rightarrow> (False, status, update_markRowRedundant row u)
             | kRedundantLhs \<Rightarrow> (False, kReduced, cleanupSmallCoefficients num opts row (drop_lhs row u))
             | kRedundantRhs \<Rightarrow> (False, kReduced, cleanupSmallCoefficients num opts row (drop_rhs row u))
             | kInfeasible \<Rightarrow> (True, kInfeasibleStatus, u)
             | kUnknown \<Rightarrow> (False, status, cleanupSmallCoefficients num opts row (mark_equation row u))))"

definition trivialRowPresolve :: "Num \<Rightarrow> PresolveOptions \<Rightarrow> problem_update \<Rightarrow> (PresolveStatus \<times> problem_update) option" where
  "trivialRowPresolve num opts u =
     (case until_stop (trivial_row num opts) [0..<getNRows (upd_problem u)] (kUnchanged, u) of
        (stop, status, u1) \<Rightarrow>
          if stop then Some (status, u1)
          else (case flushChangedCoeffs num u1 of None \<Rightarrow> None | Some u2 \<Rightarrow> Some (status, u2)))"

subsection \<open>All of it\<close>

text \<open>The filter of the singleton columns counts the new ones by the length of the list before.\<close>

definition filter_singletons_again :: "problem_update \<Rightarrow> problem_update" where
  "filter_singletons_again u =
     (let newcols = length (singletonColumns u) - firstNewSingletonCol u;
          left = filter (\<lambda>c. colsize (upd_problem u) ! c = 1) (singletonColumns u)
      in u\<lparr>singletonColumns := left, firstNewSingletonCol := length left - newcols\<rparr>)"

text \<open>\<open>None\<close> is a read beyond a row when the buffered changes are applied.\<close>

definition trivialPresolve :: "Num \<Rightarrow> PresolveOptions \<Rightarrow> problem_update \<Rightarrow> (PresolveStatus \<times> problem_update) option" where
  "trivialPresolve num opts u =
     (let u1 = (if dualreds opts \<noteq> 0 then on_problem recomputeLocks u else u)
      in case trivialColumnPresolve num opts u1 of (status2, u2) \<Rightarrow>
         if status2 = kInfeasibleStatus \<or> status2 = kUnbndOrInfeas then Some (status2, u2)
         else case trivialRowPresolve num opts (on_problem recomputeAllActivities u2) of
           None \<Rightarrow> None
         | Some (status3, u3) \<Rightarrow>
             if status3 = kInfeasibleStatus \<or> status3 = kUnbndOrInfeas then Some (status3, u3)
             else
               let u4 = update_deleteRowsAndCols (removeFixedCols u3)
               in case remove_singletons num (singletonRows u4) u4 of (status5, u5) \<Rightarrow>
                  if status5 = kInfeasibleStatus then Some (status5, u5)
                  else
                    let u6 = (if singletonColumns u5 \<noteq> [] then filter_singletons_again u5 else u5)
                    in case checkChangedActivities num u6 of (status7, u7) \<Rightarrow>
                       if status7 \<in> {kUnbndOrInfeas, PresolveStatus.kUnbounded, kInfeasibleStatus} then Some (status7, u7)
                       else (case flush num opts True u7 of
                           None \<Rightarrow> None
                         | Some (_, u8) \<Rightarrow> Some (status7, check_and_compress opts (clearStates u8))))"

section \<open>Columns without locks\<close>

text \<open>
  The locks of a column count at least the rows that would break when its value decreases (down) or
  increases (up).
\<close>

definition locks_cover :: "problem \<Rightarrow> bool" where
  "locks_cover p \<longleftrightarrow> (\<forall>c<getNCols p. fst (column_locks (row_flags p) (col_coeffs p ! c) (0, 0)) \<le> fst (col_locks p ! c) \<and>
     snd (column_locks (row_flags p) (col_coeffs p ! c) (0, 0)) \<le> snd (col_locks p ! c))"

lemma column_locks_shift:
  "column_locks rflags col (a + d, b + u) = (fst (column_locks rflags col (a, b)) + d, snd (column_locks rflags col (a, b)) + u)"
proof (induction col arbitrary: a b)
  case (Cons e col)
  obtain r v where e: "e = (r, v)" by (cases e)
  obtain i j where step: "count_locks v (rflags ! r) (a', b') = (a' + i, b' + j)" for a' b'
    by (rule that [of "fst (count_locks v (rflags ! r) (0, 0))" "snd (count_locks v (rflags ! r) (0, 0))"])
      (auto simp: count_locks_def)
  have cons: "column_locks rflags (e # col) l = column_locks rflags col (count_locks v (rflags ! r) l)" for l
    by (simp add: column_locks_def e)
  have "count_locks v (rflags ! r) (a + d, b + u) = (a + i + d, b + j + u)" by (simp add: step)
  then show ?case using Cons.IH [of "a + i" "b + j"] unfolding cons step by (simp add: ac_simps)
qed (simp add: column_locks_def)

text \<open>
  Counting again on top of the old counts, which \<open>recomputeLocks\<close> does, gives locks that are large
  enough, whatever columns the old counts belonged to.
\<close>

lemma recomputeLocks_cover:
  assumes "\<forall>l\<in>set (col_locks p). 0 \<le> fst l \<and> 0 \<le> snd l"
  shows "locks_cover (recomputeLocks p)"
proof -
  have "fst (column_locks rf col (0, 0)) \<le> fst (column_locks rf col l) \<and> snd (column_locks rf col (0, 0)) \<le> snd (column_locks rf col l)"
    if "0 \<le> fst l" "0 \<le> snd l" for rf col l
    using column_locks_shift [of rf col 0 "fst l" 0 "snd l"] that by simp
  then show ?thesis
    using assms by (auto simp: locks_cover_def recomputeLocks_def getNCols_def)
qed

lemma lock_free_row:
  assumes "matrix_ok n (row_coeffs p) (col_coeffs p)" and "c < n" and "c < length x" and "r < getNRows p"
    and "fst (column_locks (row_flags p) (col_coeffs p ! c) (0, 0)) = 0 \<and> y \<le> x ! c \<or>
      snd (column_locks (row_flags p) (col_coeffs p ! c) (0, 0)) = 0 \<and> x ! c \<le> y"
    and "satisfies_row (row_flags p ! r) (lhs_values p ! r) (rhs_values p ! r) (row_value (row_coeffs p ! r) x)"
  shows "satisfies_row (row_flags p ! r) (lhs_values p ! r) (rhs_values p ! r) (row_value (row_coeffs p ! r) (x[c := y]))"
proof (cases "c \<in> fst ` set (row_coeffs p ! r)")
  case False
  with assms(6) show ?thesis by (simp add: row_value_update_absent)
next
  case True
  then obtain v where v: "(c, v) \<in> set (row_coeffs p ! r)" by auto
  have "row_coeffs p ! r \<in> set (row_coeffs p)" using assms(4) by (simp add: getNRows_def)
  then have row: "distinct_cols (row_coeffs p ! r)" "v \<noteq> 0"
    using assms(1) v unfolding matrix_ok_def by blast+
  have "(r, v) \<in> set (col_coeffs p ! c)"
    using assms(1,2,4) v by (auto simp: matrix_ok_def col_of_matrix_def getNRows_def)
  note zero = column_locks_zero [OF this row(2), of "row_flags p"]
  have val: "row_value (row_coeffs p ! r) (x[c := y]) = row_value (row_coeffs p ! r) x + v * (y - x ! c)"
    by (rule row_value_update [OF row(1) v assms(3)])
  consider "0 < v" | "v < 0" using row(2) by linarith
  then show ?thesis
  proof cases
    case 1
    with assms(5) zero have "flags_test (row_flags p ! r) [kLhsInf] \<and> v * (y - x ! c) \<le> 0 \<or>
        flags_test (row_flags p ! r) [kRhsInf] \<and> 0 \<le> v * (y - x ! c)"
      by (auto simp: mult_le_0_iff)
    with assms(6) val show ?thesis by (auto simp: satisfies_row_def)
  next
    case 2
    with assms(5) zero have "flags_test (row_flags p ! r) [kRhsInf] \<and> 0 \<le> v * (y - x ! c) \<or>
        flags_test (row_flags p ! r) [kLhsInf] \<and> v * (y - x ! c) \<le> 0"
      by (auto simp: mult_le_0_iff zero_le_mult_iff)
    with assms(6) val show ?thesis by (auto simp: satisfies_row_def)
  qed
qed

text \<open>Everything of \<open>problem_ok\<close> except the activities, which this part of presolve does not keep.\<close>

definition lines_ok :: "problem \<Rightarrow> bool" where
  "lines_ok p \<longleftrightarrow> matrix_ok (getNCols p) (row_coeffs p) (col_coeffs p) \<and>
     length (lhs_values p) = getNRows p \<and> length (rhs_values p) = getNRows p \<and>
     length (row_flags p) = getNRows p \<and> length (obj_coeffs p) = getNCols p \<and>
     length (prob_lbs p) = getNCols p \<and> length (prob_ubs p) = getNCols p \<and> length (prob_cflags p) = getNCols p"

lemma problem_ok_lines: "problem_ok p \<longleftrightarrow> lines_ok p \<and> all_tracked (prob_domains p) (row_coeffs p) (row_activities p)"
  by (auto simp: problem_ok_def lines_ok_def)

definition lock_free :: "problem \<Rightarrow> BoundChange \<Rightarrow> nat \<Rightarrow> bool" where
  "lock_free p type c \<longleftrightarrow> (case type of kUpper \<Rightarrow> fst (col_locks p ! c) = 0 | kLower \<Rightarrow> snd (col_locks p ! c) = 0)"

lemma solves_lock_free:
  assumes "lines_ok p" and "locks_cover p" and "c < getNCols p" and "solves p x" and "fits_column p c y"
    and "lock_free p type c" and "respects_bound type (x ! c) y"
  shows "solves p (x[c := y])"
proof -
  have mat: "matrix_ok (getNCols p) (row_coeffs p) (col_coeffs p)" "length (prob_cflags p) = getNCols p"
    using assms(1) by (simp_all add: lines_ok_def)
  have x: "length x = getNCols p" using assms(4) by (simp add: solves_def)
  let ?l = "column_locks (row_flags p) (col_coeffs p ! c) (0, 0)"
  have "0 \<le> fst ?l" "0 \<le> snd ?l" using column_locks_mono [of "(0, 0)" "row_flags p" "col_coeffs p ! c"] by simp_all
  then have "fst ?l = 0 \<and> y \<le> x ! c \<or> snd ?l = 0 \<and> x ! c \<le> y"
    using assms(2,3,6,7) by (cases type) (force simp: locks_cover_def lock_free_def respects_bound_def opposite_def)+
  note row = lock_free_row [OF mat(1) assms(3) _ _ this]
  have "active_rows_satisfied p (x[c := y])"
    using assms(3,4) x row by (auto simp: solves_def active_rows_satisfied_def)
  moreover have "in_box p (x[c := y])"
    using assms(3-5) x by (auto simp: in_box_columns [OF mat(2)] nth_list_update)
      (auto simp: solves_def in_domains_def integral_point_def fits_column_def mat(2))
  ultimately show ?thesis by (simp add: solves_def in_box_def)
qed

subsection \<open>Dual fixing\<close>

definition cost_towards :: "BoundChange \<Rightarrow> rat \<Rightarrow> bool" where
  "cost_towards type cost \<longleftrightarrow> (case type of kUpper \<Rightarrow> 0 \<le> cost | kLower \<Rightarrow> cost \<le> 0)"

definition fixed_domains :: "BoundChange \<Rightarrow> nat \<Rightarrow> variable_domains \<Rightarrow> variable_domains" where
  "fixed_domains type c d = set_col_flag c [kFixed]
     (set_bound_value type c (old_bound (opposite type) d c) (unset_col_flag c [inf_flag type] d))"

lemma dualfix_problem:
  "upd_problem (dualfix_to type c u) = (upd_problem u)\<lparr>prob_domains := fixed_domains type c (upd_domains u)\<rparr>"
  by (cases type) (simp_all add: dualfix_to_def Let_def fixed_domains_def set_bound_value_def unset_col_flag_def)

lemma with_domains_solves:
  "solves (p\<lparr>prob_domains := D\<rparr>) x \<longleftrightarrow>
    length x = getNCols p \<and> active_rows_satisfied p x \<and> in_domains D x \<and> integral_point D x"
  by (simp add: solves_def active_rows_satisfied_def getNRows_def getNCols_def)

lemma with_domains_objective [simp]: "computeSolObjective (p\<lparr>prob_domains := D\<rparr>) x = computeSolObjective p x"
  by (simp add: computeSolObjective_def getNCols_def)

lemma lines_col_ok: "lines_ok p \<Longrightarrow> c < getNCols p \<Longrightarrow> col_ok (prob_domains p) c"
  by (simp add: lines_ok_def col_ok_def)

lemma fixed_domains_solves:
  assumes "lines_ok p" and "c < getNCols p" and "\<not> bound_is_inf (opposite type) (prob_domains p) c"
    and "box_ordered (prob_domains p) c"
  shows "solves (p\<lparr>prob_domains := fixed_domains type c (prob_domains p)\<rparr>) x \<longleftrightarrow>
    solves p x \<and> x ! c = old_bound (opposite type) (prob_domains p) c"
proof -
  let ?d = "prob_domains p" and ?b = "old_bound (opposite type) (prob_domains p) c"
  have len: "length (lower_bounds ?d) = length (col_flags ?d)" "length (upper_bounds ?d) = length (col_flags ?d)"
    "c < length (col_flags ?d)"
    using assms(1,2) by (simp_all add: lines_ok_def)
  have weaker: "bound_is_inf type ?d c \<or> (\<forall>v. respects_bound type ?b v \<longrightarrow> respects_bound type (old_bound type ?d c) v)"
    using assms(3,4) by (cases type) (auto simp: box_ordered_def opposite_def respects_bound_def old_bound_def)
  note cut = cut_in_domains [OF lines_col_ok [OF assms(1,2)] len(1,2) weaker, of "inf_flag type" x]
  have "respects_bound type ?b (x ! c) \<longleftrightarrow> x ! c = ?b" if "in_domains ?d x"
    using in_domains_bound [OF that len(3) assms(3)] by (cases type) (auto simp: respects_bound_def opposite_def)
  then show ?thesis
    using cut by (auto simp: with_domains_solves fixed_domains_def fixed_flag_parts) (auto simp: solves_def)
qed

lemma dualfix_optimum:
  assumes "lines_ok p" and "locks_cover p" and "c < getNCols p" and "\<not> bound_is_inf (opposite type) (prob_domains p) c"
    and "box_ordered (prob_domains p) c" and "integral_box p c" and "lock_free p type c"
    and "cost_towards type (obj_coeffs p ! c)"
  shows "same_optimum p (p\<lparr>prob_domains := fixed_domains type c (prob_domains p)\<rparr>)"
proof -
  let ?d = "prob_domains p" and ?b = "old_bound (opposite type) (prob_domains p) c"
  note fixed = fixed_domains_solves [OF assms(1,3-5)]
  have fits: "fits_column p c ?b"
    using assms(4-6) by (cases type) (auto simp: fits_column_def in_col_domain_def integral_box_def box_ordered_def
        bound_is_inf_def old_bound_def opposite_def)
  have n: "length (obj_coeffs p) = getNCols p" "length (prob_cflags p) = getNCols p" using assms(1) by (simp_all add: lines_ok_def)
  have "\<exists>y. solves (p\<lparr>prob_domains := fixed_domains type c ?d\<rparr>) y \<and> computeSolObjective p y \<le> computeSolObjective p x"
    if x: "solves p x" for x
  proof -
    have l: "length x = getNCols p" and dom: "in_domains ?d x" using x by (simp_all add: solves_def)
    have "respects_bound (opposite type) ?b (x ! c)" using in_domains_bound [OF dom _ assms(4)] assms(3) n by simp
    then have dir: "respects_bound type (x ! c) ?b" by (cases type) (simp_all add: respects_bound_def opposite_def)
    have "solves p (x[c := ?b])" by (rule solves_lock_free [OF assms(1-3) x fits assms(7) dir])
    moreover have "obj_coeffs p ! c * (?b - x ! c) \<le> 0"
      using dir assms(8) by (cases type) (auto simp: respects_bound_def cost_towards_def mult_le_0_iff)
    ultimately show ?thesis
      using fixed [of "x[c := ?b]"] assms(3) l objective_replace [OF n(1) assms(3) l, of ?b]
      by (intro exI [of _ "x[c := ?b]"]) simp
  qed
  then show ?thesis using fixed by (auto simp: same_optimum_def improves_def)
qed

text \<open>Without a bound on that side the objective has no bound, if there is a solution at all.\<close>

lemma dualfix_unbounded:
  assumes "lines_ok p" and "locks_cover p" and "c < getNCols p" and "bound_is_inf (opposite type) (prob_domains p) c"
    and "lock_free p type c" and "cost_towards type (obj_coeffs p ! c)" and "obj_coeffs p ! c \<noteq> 0"
  shows "unbounded_or_infeasible p"
  unfolding unbounded_or_infeasible_def
proof (intro allI impI)
  fix x M assume x: "solves p x"
  let ?o = "obj_coeffs p ! c"
  define k where "k = rat_of_int (\<lfloor>\<bar>(computeSolObjective p x - M) / ?o\<bar>\<rfloor> + 1)"
  define v where "v = (if type = kUpper then x ! c - k else x ! c + k)"
  have k: "\<bar>(computeSolObjective p x - M) / ?o\<bar> < k" "0 \<le> k" unfolding k_def by linarith+
  have kint: "k \<in> \<int>" by (simp add: k_def)
  have n: "length x = getNCols p" "length (obj_coeffs p) = getNCols p" "length (prob_cflags p) = getNCols p"
    using x assms(1) by (simp_all add: solves_def lines_ok_def)
  have "in_box p x" using x by (simp add: solves_def in_box_def)
  then have "fits_column p c (x ! c)" using assms(3) by (simp add: in_box_columns [OF n(3)])
  then have "fits_column p c v"
    using assms(4) k(2) kint by (cases type) (auto simp: fits_column_def v_def in_col_domain_def bound_is_inf_def opposite_def)
  moreover have "respects_bound type (x ! c) v" using k(2) by (cases type) (simp_all add: v_def respects_bound_def)
  ultimately have "solves p (x[c := v])" by (intro solves_lock_free [OF assms(1-3) x _ assms(5)])
  moreover have "computeSolObjective p x - M < \<bar>?o\<bar> * k"
  proof -
    have "computeSolObjective p x - M \<le> \<bar>?o\<bar> * \<bar>(computeSolObjective p x - M) / ?o\<bar>" using assms(7) by (auto simp: abs_divide)
    also have "\<dots> < \<bar>?o\<bar> * k" using assms(7) k(1) by (intro mult_strict_left_mono) auto
    finally show ?thesis .
  qed
  moreover have "computeSolObjective p (x[c := v]) = computeSolObjective p x - \<bar>?o\<bar> * k"
    using objective_replace [OF n(2) assms(3) n(1), of v] assms(6) by (cases type) (auto simp: v_def cost_towards_def)
  ultimately show "\<exists>y. solves p y \<and> computeSolObjective p y < M" by (intro exI [of _ "x[c := v]"]) simp
qed

text \<open>The cases of \<open>apply_dualfix\<close>.\<close>

lemma apply_dualfix_cases:
  assumes "apply_dualfix opts c u = (st, u')"
  shows "(st = kUnchanged \<and> u' = u) \<or>
    (\<exists>type. lock_free (upd_problem u) type c \<and> cost_towards type (obj_coeffs (upd_problem u) ! c) \<and>
      (st = kUnbndOrInfeas \<and> bound_is_inf (opposite type) (upd_domains u) c \<and> obj_coeffs (upd_problem u) ! c \<noteq> 0 \<and> u' = u \<or>
       st = kReduced \<and> \<not> bound_is_inf (opposite type) (upd_domains u) c \<and> u' = dualfix_to type c u))"
proof -
  let ?P = "\<lambda>type. lock_free (upd_problem u) type c \<and> cost_towards type (obj_coeffs (upd_problem u) ! c) \<and>
      (st = kUnbndOrInfeas \<and> bound_is_inf (opposite type) (upd_domains u) c \<and> obj_coeffs (upd_problem u) ! c \<noteq> 0 \<and> u' = u \<or>
       st = kReduced \<and> \<not> bound_is_inf (opposite type) (upd_domains u) c \<and> u' = dualfix_to type c u)"
  have "(st = kUnchanged \<and> u' = u) \<or> ?P kUpper \<or> ?P kLower"
    using assms by (auto simp: apply_dualfix_def Let_def lock_free_def cost_towards_def opposite_def bound_is_inf_def split: if_splits)
  then show ?thesis by blast
qed

subsection \<open>One column\<close>

definition agree_but :: "nat \<Rightarrow> variable_domains \<Rightarrow> variable_domains \<Rightarrow> bool" where
  "agree_but c d D \<longleftrightarrow> length (lower_bounds D) = length (lower_bounds d) \<and> length (upper_bounds D) = length (upper_bounds d) \<and>
     length (col_flags D) = length (col_flags d) \<and>
     (\<forall>k. k \<noteq> c \<longrightarrow> lower_bounds D ! k = lower_bounds d ! k \<and> upper_bounds D ! k = upper_bounds d ! k \<and>
        col_flags D ! k = col_flags d ! k)"

lemma agree_but_trans: "agree_but c d D \<Longrightarrow> agree_but c D E \<Longrightarrow> agree_but c d E"
  by (simp add: agree_but_def)

lemma agree_but_steps:
  "agree_but c d d" "agree_but c d (set_bound_value type c b d)" "agree_but c d (set_col_flag c fs d)"
  "agree_but c d (unset_col_flag c fs d)"
  by (simp_all add: agree_but_def)

lemma agree_lines_ok:
  "lines_ok p \<Longrightarrow> agree_but c (prob_domains p) D \<Longrightarrow> lines_ok (p\<lparr>prob_domains := D\<rparr>)"
  by (simp add: lines_ok_def agree_but_def getNRows_def getNCols_def)

lemma solves_agree:
  assumes "lines_ok p" and "agree_but c (prob_domains p) D"
    and "\<And>v. fits_column (p\<lparr>prob_domains := D\<rparr>) c v = fits_column p c v"
  shows "solves (p\<lparr>prob_domains := D\<rparr>) x = solves p x"
proof -
  have n: "length (prob_cflags p) = getNCols p" "length (col_flags D) = getNCols p" "getNCols (p\<lparr>prob_domains := D\<rparr>) = getNCols p"
    using assms(1,2) by (simp_all add: lines_ok_def agree_but_def getNCols_def)
  have "fits_column (p\<lparr>prob_domains := D\<rparr>) k v = fits_column p k v" for k v
    using assms(2,3) by (cases "k = c") (auto simp: fits_column_def in_col_domain_def agree_but_def)
  then have "in_box (p\<lparr>prob_domains := D\<rparr>) x = in_box p x"
    using in_box_columns [OF n(1), of x] in_box_columns [of "p\<lparr>prob_domains := D\<rparr>" x] n by simp
  then show ?thesis by (auto simp: solves_def in_box_def active_rows_satisfied_def getNRows_def getNCols_def)
qed

text \<open>A step on one column that leaves the values it may take as they were.\<close>

definition same_column :: "nat \<Rightarrow> problem_update \<Rightarrow> problem_update \<Rightarrow> bool" where
  "same_column c u v \<longleftrightarrow> (\<exists>D. upd_problem v = (upd_problem u)\<lparr>prob_domains := D\<rparr> \<and> agree_but c (upd_domains u) D \<and>
     (\<forall>w. fits_column (upd_problem v) c w = fits_column (upd_problem u) c w) \<and>
     (flags_test (col_flags D ! c) [kIntegral, kImplInt] = upd_cflag u c [kIntegral, kImplInt]) \<and>
     (upd_cflag v c [kInactive] = upd_cflag u c [kInactive])) \<and> marks v = marks u"

lemma same_column_trans:
  assumes "same_column c u v" and "same_column c v w"
  shows "same_column c u w"
proof -
  obtain D where D: "upd_problem v = (upd_problem u)\<lparr>prob_domains := D\<rparr>" "agree_but c (upd_domains u) D"
    using assms(1) by (auto simp: same_column_def)
  obtain E where E: "upd_problem w = (upd_problem v)\<lparr>prob_domains := E\<rparr>" "agree_but c (upd_domains v) E"
    using assms(2) by (auto simp: same_column_def)
  have p: "upd_problem w = (upd_problem u)\<lparr>prob_domains := E\<rparr>" using D(1) E(1) by simp
  have v: "upd_domains v = D" "upd_domains w = E" using D(1) E(1) by simp_all
  have a: "agree_but c (upd_domains u) E" using agree_but_trans D(2) E(2) unfolding v by blast
  have "\<forall>x. fits_column (upd_problem w) c x = fits_column (upd_problem u) c x"
    "upd_cflag w c [kIntegral, kImplInt] = upd_cflag u c [kIntegral, kImplInt]"
    "upd_cflag w c [kInactive] = upd_cflag u c [kInactive]" "marks w = marks u"
    using assms unfolding same_column_def by auto
  with p a show ?thesis unfolding same_column_def v by blast
qed

lemma same_column_refl: "same_column c u u"
  unfolding same_column_def using agree_but_steps(1) by (intro conjI exI [of _ "upd_domains u"]) auto

lemma round_integral_side_same:
  assumes "lines_ok (upd_problem u)" and "c < getNCols (upd_problem u)" and "upd_cflag u c [kIntegral]"
  shows "same_column c u (snd (round_integral_side type c (st, u)))"
    and "bound_is_inf type (upd_domains (snd (round_integral_side type c (st, u)))) c \<or>
      old_bound type (upd_domains (snd (round_integral_side type c (st, u)))) c \<in> \<int>"
    and "col_flags (upd_domains (snd (round_integral_side type c (st, u)))) = col_flags (upd_domains u)"
    and "old_bound (opposite type) (upd_domains (snd (round_integral_side type c (st, u)))) c =
      old_bound (opposite type) (upd_domains u) c"
proof -
  let ?d = "upd_domains u" and ?v = "snd (round_integral_side type c (st, u))" and ?b = "old_bound type (upd_domains u) c"
  let ?r = "case type of kLower \<Rightarrow> rational_ceil ?b | kUpper \<Rightarrow> rational_floor ?b"
  let ?D = "if \<not> bound_is_inf type ?d c then set_bound_value type c ?r ?d else ?d"
  have ok: "col_ok ?d c" using lines_col_ok [OF assms(1,2)] .
  have "set_bound_value type c ?b ?d = ?d"
    by (cases type) (simp_all add: set_bound_value_def old_bound_def)
  then have v: "upd_problem ?v = (upd_problem u)\<lparr>prob_domains := ?D\<rparr>" "marks ?v = marks u"
    unfolding round_integral_side_def Let_def prod.case
    by (cases "bound_is_inf type ?d c"; cases "?r = ?b"; simp del: set_bound_value_fields)+
  have up: "rational_ceil b \<le> w \<longleftrightarrow> b \<le> w" and down: "w \<le> rational_floor b \<longleftrightarrow> w \<le> b" if w: "w \<in> \<int>" for b w
  proof -
    obtain z where "w = of_int z" using w by (auto elim: Ints_cases)
    then show "rational_ceil b \<le> w \<longleftrightarrow> b \<le> w" "w \<le> rational_floor b \<longleftrightarrow> w \<le> b"
      by (simp_all add: rational_ceil_eq rational_floor_eq ceiling_le_iff le_floor_iff)
  qed
  have "fits_column (upd_problem ?v) c w = fits_column (upd_problem u) c w" for w
  proof (cases "w \<in> \<int>")
    case False
    then show ?thesis using integral_flag [OF assms(3)] by (simp add: v(1) fits_column_def)
  next
    case True
    have "in_col_domain ?D c w = in_col_domain ?d c w"
    proof (cases type)
      case kLower
      then show ?thesis using ok up [OF True] by (simp add: in_col_domain_def col_ok_def bound_is_inf_def old_bound_def)
    next
      case kUpper
      then show ?thesis using ok down [OF True] by (simp add: in_col_domain_def col_ok_def bound_is_inf_def old_bound_def)
    qed
    then show ?thesis by (simp add: v(1) fits_column_def)
  qed
  then show "same_column c u ?v"
    unfolding same_column_def v(2) using agree_but_steps by (intro conjI exI [of _ ?D]) (simp_all add: v(1))
  show "bound_is_inf type (upd_domains ?v) c \<or> old_bound type (upd_domains ?v) c \<in> \<int>"
    using ok unfolding v(1) by (cases type) (simp_all add: old_bound_def col_ok_def rational_ceil_eq rational_floor_eq bound_is_inf_def)
  show "col_flags (upd_domains ?v) = col_flags ?d" by (simp add: v(1))
  show "old_bound (opposite type) (upd_domains ?v) c = old_bound (opposite type) ?d c"
    unfolding v(1) by (cases type) (simp_all add: old_bound_def opposite_def)
qed

lemma same_column_lines: "same_column c u v \<Longrightarrow> lines_ok (upd_problem u) \<Longrightarrow> lines_ok (upd_problem v)"
  by (auto simp: same_column_def intro: agree_lines_ok)

lemma roundIntegralColumns_same:
  assumes "lines_ok (upd_problem u)" and "c < getNCols (upd_problem u)" and "\<not> upd_cflag u c [kIntegral] \<Longrightarrow> integral_box (upd_problem u) c"
    and "roundIntegralColumns c (st, u) = (st', v)"
  shows "same_column c u v" and "integral_box (upd_problem v) c"
proof -
  have "same_column c u v \<and> integral_box (upd_problem v) c"
  proof (cases "upd_cflag u c [kIntegral]")
    case False
    with assms(3,4) show ?thesis by (simp add: roundIntegralColumns_def same_column_refl)
  next
    case True
    define w where "w = round_integral_side kLower c (st, u)"
    have v: "v = snd (round_integral_side kUpper c (fst w, snd w))"
      using assms(4) True by (simp add: roundIntegralColumns_def w_def)
    note low = round_integral_side_same [OF assms(1,2) True, of kLower st, folded w_def]
    have w: "lines_ok (upd_problem (snd w))" "c < getNCols (upd_problem (snd w))" "upd_cflag (snd w) c [kIntegral]"
      using same_column_lines [OF low(1) assms(1)] assms(2) low(1,3) True by (auto simp: same_column_def getNCols_def)
    note up = round_integral_side_same [OF w, of kUpper "fst w", folded v]
    have "bound_is_inf kLower (upd_domains v) c = bound_is_inf kLower (upd_domains (snd w)) c"
      using up(3) by (simp add: bound_is_inf_def)
    then show ?thesis
      using same_column_trans [OF low(1) up(1)] low(2) up(2,4)
      by (auto simp: integral_box_def bound_is_inf_def old_bound_def opposite_def)
  qed
  then show "same_column c u v" "integral_box (upd_problem v) c" by blast+
qed

lemma huge_flag_tests:
  assumes "fl \<in> {kLbHuge, kUbHuge}"
  shows "flags_test (flags_set [fl] f) [kLbInf] = flags_test f [kLbInf]" "flags_test (flags_set [fl] f) [kUbInf] = flags_test f [kUbInf]"
    "flags_test (flags_set [fl] f) [kIntegral, kImplInt] = flags_test f [kIntegral, kImplInt]"
    "flags_test (flags_set [fl] f) [kInactive] = flags_test f [kInactive]"
  using assms by (auto simp: flags_test_set flag_defs)

lemma set_huge_same:
  assumes "lines_ok (upd_problem u)" and "c < getNCols (upd_problem u)" and "fl \<in> {kLbHuge, kUbHuge}"
  shows "same_column c u (on_domains (set_col_flag c [fl]) u)"
    and "integral_box (upd_problem (on_domains (set_col_flag c [fl]) u)) c = integral_box (upd_problem u) c"
proof -
  have "c < length (col_flags (upd_domains u))" using assms(1,2) by (simp add: lines_ok_def)
  note at = huge_flag_tests [OF assms(3)] this
  show "same_column c u (on_domains (set_col_flag c [fl]) u)"
    unfolding same_column_def using at agree_but_steps
    by (intro conjI exI [of _ "set_col_flag c [fl] (upd_domains u)"]) (simp_all add: fits_column_def in_col_domain_def)
  show "integral_box (upd_problem (on_domains (set_col_flag c [fl]) u)) c = integral_box (upd_problem u) c"
    using at by (simp add: integral_box_def)
qed

lemma mark_huge_same:
  assumes "lines_ok (upd_problem u)" and "c < getNCols (upd_problem u)"
  shows "same_column c u (mark_huge_values num c u)"
    and "integral_box (upd_problem (mark_huge_values num c u)) c = integral_box (upd_problem u) c"
proof -
  define w where "w = (if \<not> upd_cflag u c [kLbInf] \<and> isHugeVal num (lower_bounds (upd_domains u) ! c)
    then on_domains (set_col_flag c [kLbHuge]) u else u)"
  have w: "same_column c u w" "integral_box (upd_problem w) c = integral_box (upd_problem u) c"
    using set_huge_same [OF assms, of kLbHuge] same_column_refl by (simp_all add: w_def)
  have ok: "lines_ok (upd_problem w)" "c < getNCols (upd_problem w)"
    using same_column_lines [OF w(1) assms(1)] w(1) assms(2) by (auto simp: same_column_def getNCols_def)
  define v where "v = (if \<not> upd_cflag w c [kUbInf] \<and> isHugeVal num (upper_bounds (upd_domains w) ! c)
    then on_domains (set_col_flag c [kUbHuge]) w else w)"
  have v: "same_column c w v" "integral_box (upd_problem v) c = integral_box (upd_problem w) c"
    using set_huge_same [OF ok, of kUbHuge] same_column_refl by (simp_all add: v_def)
  have "mark_huge_values num c u = v" by (simp add: mark_huge_values_def Let_def w_def v_def)
  then show "same_column c u (mark_huge_values num c u)"
    "integral_box (upd_problem (mark_huge_values num c u)) c = integral_box (upd_problem u) c"
    using same_column_trans [OF w(1) v(1)] w(2) v(2) by simp_all
qed

text \<open>What the loop body does with one column, from the state \<open>u\<close> to the state \<open>v\<close>.\<close>

definition column_done :: "nat \<Rightarrow> problem_update \<Rightarrow> problem_update \<Rightarrow> bool" where
  "column_done c u v \<longleftrightarrow> (\<exists>D. upd_problem v = (upd_problem u)\<lparr>prob_domains := D\<rparr> \<and> agree_but c (upd_domains u) D) \<and>
     (upd_cflag u c [kInactive] \<longrightarrow> upd_cflag v c [kInactive]) \<and>
     (marks v = marks u \<or> marks v = marks (u\<lparr>deleted_cols := deleted_cols u @ [c]\<rparr>) \<and> upd_cflag v c [kInactive])"

lemma same_column_done: "same_column c u v \<Longrightarrow> column_done c u v"
  by (auto simp: same_column_def column_done_def)

lemma column_done_trans:
  assumes "same_column c u v" and "column_done c v w"
  shows "column_done c u w"
proof -
  obtain D where D: "upd_problem v = (upd_problem u)\<lparr>prob_domains := D\<rparr>" "agree_but c (upd_domains u) D" "marks v = marks u"
    and flags: "upd_cflag v c [kInactive] = upd_cflag u c [kInactive]"
    using assms(1) by (auto simp: same_column_def)
  obtain E where E: "upd_problem w = (upd_problem v)\<lparr>prob_domains := E\<rparr>" "agree_but c (upd_domains v) E"
    using assms(2) by (auto simp: column_done_def)
  have p: "upd_problem w = (upd_problem u)\<lparr>prob_domains := E\<rparr>" using D(1) E(1) by simp
  have a: "agree_but c (upd_domains u) E" using agree_but_trans [OF D(2), of E] E(2) D(1) by simp
  have "marks (v\<lparr>deleted_cols := deleted_cols v @ [c]\<rparr>) = marks (u\<lparr>deleted_cols := deleted_cols u @ [c]\<rparr>)"
    using D(3) by (simp add: marks_def)
  with assms(2) D(3) flags p a show ?thesis unfolding column_done_def by (intro conjI exI [of _ E]) auto
qed

lemma agree_fixed: "agree_but c d (set_col_flag c [kFixed] d)" "agree_but c d (fixed_domains type c d)"
proof -
  show one: "agree_but c d (set_col_flag c [kFixed] d)" for d by (rule agree_but_steps(3))
  show "agree_but c d (fixed_domains type c d)"
    unfolding fixed_domains_def
    by (rule agree_but_trans [OF agree_but_trans [OF agree_but_steps(4) agree_but_steps(2)] one])
qed

lemma list_column_parts [simp]: "upd_problem (list_column c u) = upd_problem u" "marks (list_column c u) = marks u"
  by (simp_all add: list_column_def marks_def)

lemma fixed_inactive_at: "c < length (col_flags d) \<Longrightarrow> flags_test (col_flags (set_col_flag c [kFixed] d) ! c) [kInactive]"
  by (simp add: inactive_flags)

lemma shifted_marks: "marks v = marks u \<Longrightarrow> marks (v\<lparr>deleted_cols := deleted_cols v @ [c]\<rparr>) = marks (u\<lparr>deleted_cols := deleted_cols u @ [c]\<rparr>)"
  by (simp add: marks_def)

lemma column_doneI:
  assumes "upd_problem v = (upd_problem u)\<lparr>prob_domains := D\<rparr>" and "agree_but c (upd_domains u) D"
    and "flags_test (col_flags D ! c) [kInactive]" and "marks v = marks (u\<lparr>deleted_cols := deleted_cols u @ [c]\<rparr>)"
  shows "column_done c u v"
proof -
  have "upd_domains v = D" using assms(1) by simp
  with assms show ?thesis unfolding column_done_def by blast
qed

lemma markColFixed_done:
  assumes "lines_ok (upd_problem u)" and "c < getNCols (upd_problem u)"
  shows "column_done c u (markColFixed c u)" and "same_optimum (upd_problem u) (upd_problem (markColFixed c u))"
    and "box_ordered (upd_domains (markColFixed c u)) c = box_ordered (upd_domains u) c"
    and "integral_box (upd_problem (markColFixed c u)) c = integral_box (upd_problem u) c"
proof -
  have c: "c < length (col_flags (upd_domains u))" using assms by (simp add: lines_ok_def)
  show "column_done c u (markColFixed c u)"
    by (rule column_doneI [OF markColFixed_problem agree_fixed(1) fixed_inactive_at [OF c] markColFixed_marks])
  show "same_optimum (upd_problem u) (upd_problem (markColFixed c u))"
    unfolding markColFixed_problem
    by (rule same_optimumI) (simp only: with_domains_solves fixed_flag_parts, simp add: solves_def, simp)
  show "box_ordered (upd_domains (markColFixed c u)) c = box_ordered (upd_domains u) c" by (simp add: fixed_flag_box del: col_flag_fields)
  show "integral_box (upd_problem (markColFixed c u)) c = integral_box (upd_problem u) c"
    using fixed_flag_test_at [of _ c "upd_domains u" c] by (simp add: integral_box_def del: col_flag_fields(3))
qed

lemma dualfix_done:
  assumes "lines_ok (upd_problem u)" and "c < getNCols (upd_problem u)" and "integral_box (upd_problem u) c"
    and "\<not> bound_is_inf (opposite type) (upd_domains u) c"
  shows "column_done c u (dualfix_to type c u)" and "box_ordered (upd_domains (dualfix_to type c u)) c"
    and "integral_box (upd_problem (dualfix_to type c u)) c"
proof -
  let ?d = "upd_domains u"
  have c: "c < length (col_flags ?d)" and ok: "col_ok ?d c" using assms(1,2) lines_col_ok by (simp_all add: lines_ok_def)
  have marks: "marks (dualfix_to type c u) = marks (u\<lparr>deleted_cols := deleted_cols u @ [c]\<rparr>)"
    unfolding dualfix_to_def Let_def markColFixed_marks by (rule shifted_marks) simp
  have "flags_test (col_flags (fixed_domains type c ?d) ! c) [kInactive]"
    unfolding fixed_domains_def using c by (intro fixed_inactive_at) simp
  then show "column_done c u (dualfix_to type c u)"
    by (rule column_doneI [OF dualfix_problem agree_fixed(2) _ marks])
  have int: "flags_test (flags_unset [inf_flag type] f) [kIntegral, kImplInt] = flags_test f [kIntegral, kImplInt]" for f
    by (rule unset_flag_integral) (cases type; simp)
  have flag: "col_flags (fixed_domains type c ?d) ! c = flags_set [kFixed] (flags_unset [inf_flag type] (col_flags ?d ! c))"
    using c by (simp add: fixed_domains_def)
  have "bound_is_inf type (fixed_domains type c ?d) c = False"
    "bound_is_inf (opposite type) (fixed_domains type c ?d) c = bound_is_inf (opposite type) ?d c"
    unfolding bound_is_inf_def flag by (cases type; simp add: opposite_def fixed_flag_tests unset_flag_tests)+
  moreover have "old_bound type (fixed_domains type c ?d) c = old_bound (opposite type) ?d c"
    "old_bound (opposite type) (fixed_domains type c ?d) c = old_bound (opposite type) ?d c"
    using ok by (cases type; simp add: fixed_domains_def old_bound_def opposite_def col_ok_def)+
  moreover have "flags_test (col_flags (fixed_domains type c ?d) ! c) [kIntegral, kImplInt] = flags_test (col_flags ?d ! c) [kIntegral, kImplInt]"
    unfolding flag by (simp only: fixed_flag_tests int)
  ultimately have box: "bound_is_inf type (fixed_domains type c ?d) c = False"
    "bound_is_inf (opposite type) (fixed_domains type c ?d) c = bound_is_inf (opposite type) ?d c"
    "old_bound type (fixed_domains type c ?d) c = old_bound (opposite type) ?d c"
    "old_bound (opposite type) (fixed_domains type c ?d) c = old_bound (opposite type) ?d c"
    "flags_test (col_flags (fixed_domains type c ?d) ! c) [kIntegral, kImplInt] = flags_test (col_flags ?d ! c) [kIntegral, kImplInt]"
    by blast+
  show "box_ordered (upd_domains (dualfix_to type c u)) c"
    using box(3,4) by (cases type) (simp_all add: dualfix_problem box_ordered_def old_bound_def opposite_def)
  have "old_bound (opposite type) ?d c \<in> \<int>" if "flags_test (col_flags ?d ! c) [kIntegral, kImplInt]"
    using assms(3,4) that by (cases type) (auto simp: integral_box_def bound_is_inf_def old_bound_def opposite_def)
  then show "integral_box (upd_problem (dualfix_to type c u)) c"
    using box by (cases type) (auto simp: dualfix_problem integral_box_def old_bound_def opposite_def)
qed

lemma same_column_optimum:
  assumes "same_column c u v" and "lines_ok (upd_problem u)"
  shows "solves (upd_problem v) x = solves (upd_problem u) x" and "same_optimum (upd_problem u) (upd_problem v)"
    and "locks_cover (upd_problem v) = locks_cover (upd_problem u)" and "getNCols (upd_problem v) = getNCols (upd_problem u)"
    and "obj_coeffs (upd_problem v) = obj_coeffs (upd_problem u)" and "col_locks (upd_problem v) = col_locks (upd_problem u)"
proof -
  obtain D where D: "upd_problem v = (upd_problem u)\<lparr>prob_domains := D\<rparr>" "agree_but c (upd_domains u) D"
      "\<And>w. fits_column (upd_problem v) c w = fits_column (upd_problem u) c w"
    using assms(1) by (auto simp: same_column_def)
  note eq = solves_agree [OF assms(2) D(2) D(3) [unfolded D(1)]]
  show "solves (upd_problem v) x = solves (upd_problem u) x" unfolding D(1) by (rule eq)
  show "same_optimum (upd_problem u) (upd_problem v)" unfolding D(1) by (rule same_optimumI) (simp_all add: eq)
  show "locks_cover (upd_problem v) = locks_cover (upd_problem u)" "getNCols (upd_problem v) = getNCols (upd_problem u)"
    "obj_coeffs (upd_problem v) = obj_coeffs (upd_problem u)" "col_locks (upd_problem v) = col_locks (upd_problem u)"
    by (simp_all add: D(1) locks_cover_def getNCols_def)
qed

text \<open>The verdicts a loop may stop with.\<close>

definition stops_with :: "PresolveStatus \<Rightarrow> problem \<Rightarrow> bool" where
  "stops_with st p \<longleftrightarrow> st = kInfeasibleStatus \<and> (\<forall>x. \<not> solves p x) \<or> st = kUnbndOrInfeas \<and> unbounded_or_infeasible p"

lemma stops_with_back: "same_optimum p q \<Longrightarrow> stops_with st q \<Longrightarrow> stops_with st p"
  using unbounded_back unfolding stops_with_def same_optimum_def improves_def by blast

abbreviation goes_on :: "PresolveStatus \<Rightarrow> bool" where
  "goes_on st \<equiv> st = kUnchanged \<or> st = kReduced"

lemma trivial_column_step:
  assumes "lines_ok (upd_problem u)" and "dualreds opts \<noteq> 0 \<Longrightarrow> locks_cover (upd_problem u)" and "c < getNCols (upd_problem u)"
    and "\<not> upd_cflag u c [kIntegral] \<Longrightarrow> integral_box (upd_problem u) c"
    and "upd_cflag u c [kInactive] \<Longrightarrow> box_ordered (upd_domains u) c \<and> integral_box (upd_problem u) c"
    and "goes_on st" and "trivial_column num opts c (st, u) = (stop, st', v)"
  shows "column_done c u v \<and> (if stop then stops_with st' (upd_problem u)
    else same_optimum (upd_problem u) (upd_problem v) \<and> box_ordered (upd_domains v) c \<and> integral_box (upd_problem v) c \<and> goes_on st')"
proof (cases "upd_cflag u c [kInactive]")
  case True
  then show ?thesis
    using assms(5-7) same_column_done [OF same_column_refl] by (auto simp: trivial_column_def same_optimum_refl)
next
  case False
  obtain st1 u1 where one: "roundIntegralColumns c (st, u) = (st1, u1)" by fastforce
  define u2 where "u2 = mark_huge_values num c u1"
  obtain st3 u3 where three: "apply_dualfix opts c u2 = (st3, u3)" by fastforce
  note r1 = roundIntegralColumns_same [OF assms(1,3,4) one]
  have l1: "lines_ok (upd_problem u1)" "c < getNCols (upd_problem u1)"
    using same_column_lines [OF r1(1) assms(1)] same_column_optimum(4) [OF r1(1) assms(1)] assms(3) by simp_all
  note r2 = mark_huge_same [OF l1, of num, folded u2_def]
  note same = same_column_trans [OF r1(1) r2(1)]
  have int: "integral_box (upd_problem u2) c" using r1(2) r2(2) by simp
  note opt = same_column_optimum [OF same assms(1)]
  have ok: "lines_ok (upd_problem u2)" "c < getNCols (upd_problem u2)"
    using same_column_lines [OF same assms(1)] opt(4) assms(3) by simp_all
  let ?free = "flags_test (col_flags (upd_domains u2) ! c) [Pap_Domains.kUnbounded]"
  let ?lb = "lower_bounds (upd_domains u2) ! c" and ?ub = "upper_bounds (upd_domains u2) ! c"
  have unb: "?free \<longleftrightarrow> bound_is_inf kLower (upd_domains u2) c \<or> bound_is_inf kUpper (upd_domains u2) c"
    by (simp add: bound_is_inf_def flags_test_def Pap_Domains.kUnbounded_def bit.conj_disj_distrib word_or_eq_0)
  consider (empty) "\<not> ?free" "?lb > ?ub" | (fixed) "\<not> ?free" "?lb = ?ub" | (go) "?free \<or> ?lb < ?ub" by linarith
  then show ?thesis
  proof cases
    case empty
    have "\<not> solves (upd_problem u2) x" for x
    proof
      assume "solves (upd_problem u2) x"
      then have "in_col_domain (upd_domains u2) c (x ! c)" using ok by (simp add: solves_def in_domains_def lines_ok_def)
      with empty show False unfolding unb by (simp add: in_col_domain_def bound_is_inf_def)
    qed
    then have "stops_with st' (upd_problem u)" if "st' = kInfeasibleStatus" using opt(1) that by (simp add: stops_with_def)
    then show ?thesis using assms(7) False one empty same_column_done [OF same]
      by (simp add: trivial_column_def Let_def u2_def [symmetric])
  next
    case fixed
    then have run: "stop = False" "st' = kReduced" "v = markColFixed c u2"
      using assms(7) False one by (simp_all add: trivial_column_def Let_def u2_def [symmetric])
    note dn = markColFixed_done [OF ok]
    have "box_ordered (upd_domains u2) c" using fixed(2) by (simp add: box_ordered_def)
    then show ?thesis
      using column_done_trans [OF same dn(1)] same_optimum_trans [OF opt(2) dn(2)] dn(3,4) int by (simp add: run)
  next
    case go
    then have box: "box_ordered (upd_domains u2) c" unfolding unb by (auto simp: box_ordered_def)
    have run: "(stop, st', v) = (if st3 = kUnbndOrInfeas then (True, st3, u3) else if st3 = kReduced then (False, st3, u3)
        else (False, st3, list_column c u3))"
      using assms(7) False one go three by (auto simp: trivial_column_def Let_def u2_def [symmetric] split: if_splits)
    from apply_dualfix_cases [OF three] consider (keep) "st3 = kUnchanged" "u3 = u2"
      | (dual) type where "lock_free (upd_problem u2) type c" "cost_towards type (obj_coeffs (upd_problem u2) ! c)"
          "st3 = kUnbndOrInfeas \<and> bound_is_inf (opposite type) (upd_domains u2) c \<and> obj_coeffs (upd_problem u2) ! c \<noteq> 0 \<and> u3 = u2 \<or>
           st3 = kReduced \<and> \<not> bound_is_inf (opposite type) (upd_domains u2) c \<and> u3 = dualfix_to type c u2"
      by blast
    then show ?thesis
    proof cases
      case keep
      then have "v = list_column c u2" "st' = kUnchanged" "\<not> stop" using run by simp_all
      moreover have "column_done c u (list_column c u2)" using same_column_done [OF same] by (simp add: column_done_def)
      ultimately show ?thesis using opt(2) box int by simp
    next
      case dual
      have "dualreds opts \<noteq> 0"
      proof
        assume "dualreds opts = 0"
        then have "apply_dualfix opts c u2 = (kUnchanged, u2)" by (simp add: apply_dualfix_def is_dualfix_enabled_def)
        with three dual(3) show False by simp
      qed
      then have locks: "locks_cover (upd_problem u2)" using assms(2) opt(3) by simp
      from dual(3) show ?thesis
      proof
        assume inf: "st3 = kUnbndOrInfeas \<and> bound_is_inf (opposite type) (upd_domains u2) c \<and> obj_coeffs (upd_problem u2) ! c \<noteq> 0 \<and> u3 = u2"
        then have "unbounded_or_infeasible (upd_problem u2)" by (intro dualfix_unbounded [OF ok(1) locks ok(2) _ dual(1,2)]) simp_all
        then show ?thesis using inf run unbounded_back [OF opt(2)] same_column_done [OF same] by (simp add: stops_with_def)
      next
        assume red: "st3 = kReduced \<and> \<not> bound_is_inf (opposite type) (upd_domains u2) c \<and> u3 = dualfix_to type c u2"
        then have fin: "\<not> bound_is_inf (opposite type) (upd_domains u2) c" by simp
        note dn = dualfix_done [OF ok int fin]
        have "same_optimum (upd_problem u2) (upd_problem (dualfix_to type c u2))"
          unfolding dualfix_problem by (rule dualfix_optimum [OF ok(1) locks ok(2) fin box int dual(1,2)])
        then show ?thesis
          using red run column_done_trans [OF same dn(1)] same_optimum_trans [OF opt(2)] dn(2,3) by simp
      qed
    qed
  qed
qed

text \<open>All columns.\<close>

definition agree_off :: "nat set \<Rightarrow> variable_domains \<Rightarrow> variable_domains \<Rightarrow> bool" where
  "agree_off C d D \<longleftrightarrow> length (lower_bounds D) = length (lower_bounds d) \<and> length (upper_bounds D) = length (upper_bounds d) \<and>
     length (col_flags D) = length (col_flags d) \<and>
     (\<forall>k. k \<notin> C \<longrightarrow> lower_bounds D ! k = lower_bounds d ! k \<and> upper_bounds D ! k = upper_bounds d ! k \<and>
        col_flags D ! k = col_flags d ! k)"

lemma agree_off_Cons: "agree_but c d D \<Longrightarrow> agree_off (set cs) D E \<Longrightarrow> agree_off (set (c # cs)) d E"
  by (simp add: agree_but_def agree_off_def)

lemma column_marks_ok:
  assumes "column_done c u v" and "c < getNCols (upd_problem u)" and "marks_ok u"
  shows "marks_ok v"
proof -
  obtain D where D: "upd_problem v = (upd_problem u)\<lparr>prob_domains := D\<rparr>" "agree_but c (upd_domains u) D"
    using assms(1) by (auto simp: column_done_def)
  have "upd_cflag v k [kInactive]" if "upd_cflag u k [kInactive]" for k
    using that assms(1) D by (cases "k = c") (auto simp: column_done_def agree_but_def)
  then show ?thesis
    using assms by (intro marks_ok_parts [OF assms(3), of v c]) (auto simp: D(1) column_done_def getNRows_def getNCols_def)
qed

definition column_start :: "problem \<Rightarrow> nat \<Rightarrow> bool" where
  "column_start p c \<longleftrightarrow> (\<not> flags_test (prob_cflags p ! c) [kIntegral] \<longrightarrow> integral_box p c) \<and>
     (flags_test (prob_cflags p ! c) [kInactive] \<longrightarrow> box_ordered (prob_domains p) c \<and> integral_box p c)"

lemma trivial_columns_sound:
  assumes "lines_ok (upd_problem u)" and "dualreds opts \<noteq> 0 \<Longrightarrow> locks_cover (upd_problem u)" and "marks_ok u"
    and "set cols \<subseteq> {..<getNCols (upd_problem u)}" and "distinct cols" and "\<forall>c\<in>set cols. column_start (upd_problem u) c"
    and "goes_on st" and "until_stop (trivial_column num opts) cols (st, u) = (stop, st', v)"
  shows "marks_ok v \<and> (\<exists>D. upd_problem v = (upd_problem u)\<lparr>prob_domains := D\<rparr> \<and> agree_off (set cols) (upd_domains u) D) \<and>
    (if stop then stops_with st' (upd_problem u)
     else same_optimum (upd_problem u) (upd_problem v) \<and> goes_on st' \<and>
       (\<forall>c\<in>set cols. box_ordered (upd_domains v) c \<and> integral_box (upd_problem v) c))"
  using assms
proof (induction cols arbitrary: u st)
  case Nil
  have "agree_off (set []) (upd_domains u) (upd_domains u)" by (simp add: agree_off_def)
  moreover have "stop = False" "st' = st" "v = u" using Nil.prems(8) by simp_all
  moreover have "upd_problem u = (upd_problem u)\<lparr>prob_domains := upd_domains u\<rparr>" by simp
  ultimately show ?case using Nil.prems(3,7) same_optimum_refl by (intro conjI exI [of _ "upd_domains u"]) simp_all
next
  case (Cons c cols)
  obtain s1 st1 u1 where one: "trivial_column num opts c (st, u) = (s1, st1, u1)" by (cases "trivial_column num opts c (st, u)") auto
  have c: "c < getNCols (upd_problem u)" using Cons.prems(4) by simp
  have start: "column_start (upd_problem u) c" using Cons.prems(6) by simp
  have step: "column_done c u u1" "if s1 then stops_with st1 (upd_problem u) else same_optimum (upd_problem u) (upd_problem u1) \<and>
      box_ordered (upd_domains u1) c \<and> integral_box (upd_problem u1) c \<and> goes_on st1"
    using trivial_column_step [OF Cons.prems(1,2) c _ _ Cons.prems(7) one] start unfolding column_start_def by blast+
  obtain D where D: "upd_problem u1 = (upd_problem u)\<lparr>prob_domains := D\<rparr>" "agree_but c (upd_domains u) D"
    using step(1) by (auto simp: column_done_def)
  have m1: "marks_ok u1" by (rule column_marks_ok [OF step(1) c Cons.prems(3)])
  show ?case
  proof (cases s1)
    case True
    then have "stop" "st' = st1" "v = u1" using Cons.prems(8) one by simp_all
    moreover have "agree_off (set (c # cols)) (upd_domains u) D" using D(2) by (simp add: agree_but_def agree_off_def)
    moreover have "stops_with st1 (upd_problem u)" using step(2) True by simp
    ultimately show ?thesis using m1 D(1) by (metis (no_types, lifting))
  next
    case False
    then have run: "until_stop (trivial_column num opts) cols (st1, u1) = (stop, st', v)" using Cons.prems(8) one by simp
    have l1: "lines_ok (upd_problem u1)" unfolding D(1) by (rule agree_lines_ok [OF Cons.prems(1) D(2)])
    have n1: "getNCols (upd_problem u1) = getNCols (upd_problem u)" by (simp add: D(1) getNCols_def)
    have k1: "dualreds opts \<noteq> 0 \<Longrightarrow> locks_cover (upd_problem u1)" using Cons.prems(2) by (simp add: D(1) locks_cover_def getNCols_def)
    have start1: "\<forall>k\<in>set cols. column_start (upd_problem u1) k"
    proof
      fix k assume k: "k \<in> set cols"
      then have "k \<noteq> c" using Cons.prems(5) by auto
      then have at: "lower_bounds D ! k = prob_lbs (upd_problem u) ! k" "upper_bounds D ! k = prob_ubs (upd_problem u) ! k"
        "col_flags D ! k = prob_cflags (upd_problem u) ! k" using D(2) by (simp_all add: agree_but_def)
      have "column_start (upd_problem u) k" using k Cons.prems(6) by simp
      then show "column_start (upd_problem u1) k"
        by (simp add: column_start_def D(1) at integral_box_def box_ordered_def bound_is_inf_def)
    qed
    have cols: "set cols \<subseteq> {..<getNCols (upd_problem u1)}" "distinct cols" using Cons.prems(4,5) n1 by simp_all
    have g1: "goes_on st1" using step(2) False by simp
    note IH = Cons.IH [OF l1 k1 m1 cols start1 g1 run]
    then obtain E where E: "upd_problem v = (upd_problem u1)\<lparr>prob_domains := E\<rparr>" "agree_off (set cols) (upd_domains u1) E" by blast
    have p: "upd_problem v = (upd_problem u)\<lparr>prob_domains := E\<rparr>" using E(1) D(1) by simp
    have off: "agree_off (set (c # cols)) (upd_domains u) E" using agree_off_Cons [OF D(2)] E(2) by (simp add: D(1))
    have "c \<notin> set cols" using Cons.prems(5) by simp
    then have at: "lower_bounds E ! c = lower_bounds D ! c" "upper_bounds E ! c = upper_bounds D ! c" "col_flags E ! c = col_flags D ! c"
      using E(2) by (simp_all add: agree_off_def D(1))
    have box: "box_ordered (upd_domains v) c \<and> integral_box (upd_problem v) c"
      using step(2) False by (simp add: p D(1) at box_ordered_def bound_is_inf_def integral_box_def)
    from IH have mv: "marks_ok v" by blast
    have opt: "same_optimum (upd_problem u) (upd_problem u1)" using step(2) False by simp
    have "if stop then stops_with st' (upd_problem u)
      else same_optimum (upd_problem u) (upd_problem v) \<and> goes_on st' \<and>
        (\<forall>k\<in>set (c # cols). box_ordered (upd_domains v) k \<and> integral_box (upd_problem v) k)"
    proof (cases stop)
      case True
      have "stops_with st' (upd_problem u1)" using IH unfolding if_P [OF True] by blast
      then show ?thesis unfolding if_P [OF True] by (rule stops_with_back [OF opt])
    next
      case go: False
      have "same_optimum (upd_problem u1) (upd_problem v)" "goes_on st'"
        "\<forall>k\<in>set cols. box_ordered (upd_domains v) k \<and> integral_box (upd_problem v) k"
        using IH unfolding if_not_P [OF go] by blast+
      then show ?thesis unfolding if_not_P [OF go] using box same_optimum_trans [OF opt] by simp
    qed
    then show ?thesis using mv p off by (intro conjI exI [of _ E])
  qed
qed

section \<open>Correctness of the column part\<close>

definition columns_pending :: "problem_update \<Rightarrow> bool" where
  "columns_pending u \<longleftrightarrow> lines_ok (upd_problem u) \<and> sorted_lines (upd_problem u) \<and> marks_ok u \<and>
     line_sizes_ok (rowsize (upd_problem u)) (row_coeffs (upd_problem u)) \<and>
     line_sizes_ok (colsize (upd_problem u)) (col_coeffs (upd_problem u)) \<and>
     (\<forall>l\<in>set (col_locks (upd_problem u)). 0 \<le> fst l \<and> 0 \<le> snd l) \<and>
     (\<forall>c<getNCols (upd_problem u). column_start (upd_problem u) c)"

lemma recompute_tracked:
  assumes "lines_ok p"
  shows "all_tracked (prob_domains p) (row_coeffs p) (row_activities (recomputeAllActivities p))"
  using assms by (auto simp: lines_ok_def matrix_ok_def all_tracked_def recomputeAllActivities_def compute_row_activity_tracks)

lemma recomputeLocks_parts [simp]:
  "row_coeffs (recomputeLocks p) = row_coeffs p" "col_coeffs (recomputeLocks p) = col_coeffs p"
  "lhs_values (recomputeLocks p) = lhs_values p" "rhs_values (recomputeLocks p) = rhs_values p"
  "row_flags (recomputeLocks p) = row_flags p" "obj_coeffs (recomputeLocks p) = obj_coeffs p"
  "obj_offset (recomputeLocks p) = obj_offset p" "prob_domains (recomputeLocks p) = prob_domains p"
  "rowsize (recomputeLocks p) = rowsize p" "colsize (recomputeLocks p) = colsize p"
  "getNRows (recomputeLocks p) = getNRows p" "getNCols (recomputeLocks p) = getNCols p"
  by (simp_all add: recomputeLocks_def getNRows_def getNCols_def)

lemma same_problem_data:
  assumes "row_coeffs q = row_coeffs p" and "col_coeffs q = col_coeffs p" and "lhs_values q = lhs_values p"
    and "rhs_values q = rhs_values p" and "row_flags q = row_flags p" and "obj_coeffs q = obj_coeffs p"
    and "obj_offset q = obj_offset p" and "prob_domains q = prob_domains p"
  shows "lines_ok q = lines_ok p" and "sorted_lines q = sorted_lines p" and "solves q = solves p"
    and "computeSolObjective q = computeSolObjective p" and "stops_with st q = stops_with st p"
    and "same_optimum q r = same_optimum p r" and "same_optimum r q = same_optimum r p"
    and "integral_box q c = integral_box p c" and "column_start q c = column_start p c"
proof -
  have dims: "getNRows q = getNRows p" "getNCols q = getNCols p" using assms by (simp_all add: getNRows_def getNCols_def)
  show "lines_ok q = lines_ok p" "sorted_lines q = sorted_lines p" using assms dims by (simp_all add: lines_ok_def sorted_lines_def)
  show s: "solves q = solves p" by (rule ext) (simp add: solves_def active_rows_satisfied_def assms dims)
  show o: "computeSolObjective q = computeSolObjective p" by (rule ext) (simp add: computeSolObjective_def assms dims)
  show "stops_with st q = stops_with st p" by (simp add: stops_with_def unbounded_or_infeasible_def s o)
  show "same_optimum q r = same_optimum p r" "same_optimum r q = same_optimum r p" by (simp_all add: same_optimum_def improves_def s o)
  show ib: "integral_box q c = integral_box p c" by (simp add: integral_box_def assms)
  show "column_start q c = column_start p c" by (simp add: column_start_def assms ib)
qed

lemma recomputeLocks_same:
  "lines_ok (recomputeLocks p) = lines_ok p" "sorted_lines (recomputeLocks p) = sorted_lines p"
  "stops_with st (recomputeLocks p) = stops_with st p" "same_optimum (recomputeLocks p) r = same_optimum p r"
  "column_start (recomputeLocks p) c = column_start p c"
  by (rule same_problem_data; simp)+

lemma recomputed_update_ok:
  assumes "lines_ok (upd_problem v)" and "sorted_lines (upd_problem v)" and "marks_ok v"
    and "line_sizes_ok (rowsize (upd_problem v)) (row_coeffs (upd_problem v))"
    and "line_sizes_ok (colsize (upd_problem v)) (col_coeffs (upd_problem v))"
    and "\<forall>c<getNCols (upd_problem v). box_ordered (upd_domains v) c"
  shows "update_ok (on_problem recomputeAllActivities v)"
proof -
  let ?p = "upd_problem v" and ?q = "recomputeAllActivities (upd_problem v)"
  have parts: "row_coeffs ?q = row_coeffs ?p" "col_coeffs ?q = col_coeffs ?p" "rowsize ?q = rowsize ?p" "colsize ?q = colsize ?p"
    "prob_domains ?q = prob_domains ?p" "row_flags ?q = row_flags ?p" "length (row_activities ?q) = getNRows ?p"
    "getNRows ?q = getNRows ?p" "getNCols ?q = getNCols ?p"
    by (simp_all add: recomputeAllActivities_def getNRows_def getNCols_def)
  have lines: "lines_ok ?q = lines_ok ?p" "sorted_lines ?q = sorted_lines ?p"
    by (rule same_problem_data; simp add: recomputeAllActivities_def)+
  have "problem_ok ?q" using assms(1) recompute_tracked [OF assms(1)] by (simp add: problem_ok_lines lines parts)
  moreover have "storages_ok ?q" using assms(1,4,5) by (simp add: storages_ok_def parts lines_ok_def)
  moreover have "marks_ok (on_problem recomputeAllActivities v)"
    using assms(3) by (simp add: marks_ok_def parts) (simp add: on_problem_def)
  ultimately show ?thesis using assms(2,6) by (simp add: update_ok_def lines parts)
qed

lemma column_presolve_state:
  assumes "columns_pending u" and "u1 = (if dualreds opts \<noteq> 0 then on_problem recomputeLocks u else u)"
    and "trivialColumnPresolve num opts u1 = (st, v)"
  shows "stops_with st (upd_problem u) \<or> goes_on st \<and> same_optimum (upd_problem u) (upd_problem v) \<and>
    update_ok (on_problem recomputeAllActivities v) \<and> (\<forall>c<getNCols (upd_problem v). integral_box (upd_problem v) c)"
proof -
  let ?p = "upd_problem u"
  define u2 where "u2 = u1\<lparr>emptyColumns := [], singletonColumns := [], firstNewSingletonCol := 0\<rparr>"
  have p2: "upd_problem u2 = upd_problem u1" "marks u2 = marks u1" by (simp_all add: u2_def marks_def)
  have u1: "lines_ok (upd_problem u1) = lines_ok ?p" "sorted_lines (upd_problem u1) = sorted_lines ?p"
    "stops_with st (upd_problem u1) = stops_with st ?p" "same_optimum (upd_problem u1) r = same_optimum ?p r"
    "column_start (upd_problem u1) c = column_start ?p c" "getNCols (upd_problem u1) = getNCols ?p"
    "rowsize (upd_problem u1) = rowsize ?p" "colsize (upd_problem u1) = colsize ?p"
    "row_coeffs (upd_problem u1) = row_coeffs ?p" "col_coeffs (upd_problem u1) = col_coeffs ?p" for r c
    by (simp_all add: assms(2) recomputeLocks_same)
  have pend: "lines_ok (upd_problem u2)" "sorted_lines (upd_problem u2)" "line_sizes_ok (rowsize (upd_problem u2)) (row_coeffs (upd_problem u2))"
    "line_sizes_ok (colsize (upd_problem u2)) (col_coeffs (upd_problem u2))"
    "\<forall>c\<in>set [0..<getNCols (upd_problem u1)]. column_start (upd_problem u2) c"
    using assms(1) by (simp_all add: columns_pending_def p2 u1)
  have "marks_ok u" using assms(1) by (simp add: columns_pending_def)
  then have marks: "marks_ok u2"
    by (rule marks_ok_parts [where c = 0]) (simp_all add: p2(1) assms(2), simp add: p2(2) assms(2))
  have locks: "dualreds opts \<noteq> 0 \<Longrightarrow> locks_cover (upd_problem u2)"
    using assms(1) recomputeLocks_cover [of ?p] by (simp add: p2 assms(2) columns_pending_def)
  obtain stop where run: "until_stop (trivial_column num opts) [0..<getNCols (upd_problem u1)] (kUnchanged, u2) = (stop, st, v)"
    using assms(3) by (cases "until_stop (trivial_column num opts) [0..<getNCols (upd_problem u1)] (kUnchanged, u2)")
      (auto simp: trivialColumnPresolve_def u2_def)
  have range: "set [0..<getNCols (upd_problem u1)] \<subseteq> {..<getNCols (upd_problem u2)}" "distinct [0..<getNCols (upd_problem u1)]"
    by (auto simp: p2)
  have "goes_on kUnchanged" by simp
  note sound = trivial_columns_sound [OF pend(1) locks marks range pend(5) this run]
  show ?thesis
  proof (cases stop)
    case True
    then have "stops_with st (upd_problem u2)" using sound by simp
    then show ?thesis using u1(3) by (simp add: p2)
  next
    case False
    obtain D where D: "upd_problem v = (upd_problem u2)\<lparr>prob_domains := D\<rparr>"
      "agree_off (set [0..<getNCols (upd_problem u1)]) (upd_domains u2) D" using sound by blast
    have n: "getNCols (upd_problem v) = getNCols (upd_problem u1)" by (simp add: D(1) p2 getNCols_def)
    have fin: "same_optimum (upd_problem u2) (upd_problem v)" "goes_on st"
      "\<forall>c<getNCols (upd_problem v). box_ordered (upd_domains v) c" "\<forall>c<getNCols (upd_problem v). integral_box (upd_problem v) c"
      using sound False n by auto
    have "lines_ok (upd_problem v)"
      using pend(1) D(2) by (simp add: D(1) lines_ok_def agree_off_def getNRows_def getNCols_def)
    moreover have "sorted_lines (upd_problem v)" using pend(2) by (simp add: D(1) sorted_lines_def)
    ultimately have "update_ok (on_problem recomputeAllActivities v)"
      using sound fin(3) pend(3,4) by (intro recomputed_update_ok) (simp_all add: D(1))
    then show ?thesis using fin u1(4) by (simp add: p2)
  qed
qed

text \<open>
  C10. The column part of the trivial presolve, started on freshly counted locks, is right in all its
  verdicts: it reports infeasibility only for a problem without solution and "unbounded or infeasible"
  only for a problem whose solutions have no best objective. Otherwise rounding bounds and fixing
  columns keeps the optimal value, every box is ordered and integral where it must be, and with
  recomputed activities the state satisfies the invariant of the problem update.
\<close>

theorem trivialColumnPresolve_sound:
  assumes "columns_pending u" and "u1 = (if dualreds opts \<noteq> 0 then on_problem recomputeLocks u else u)"
    and "trivialColumnPresolve num opts u1 = (st, v)"
  shows "(st = kInfeasibleStatus \<longrightarrow> (\<forall>x. \<not> solves (upd_problem u) x)) \<and>
    (st = kUnbndOrInfeas \<longrightarrow> unbounded_or_infeasible (upd_problem u)) \<and> st \<noteq> PresolveStatus.kUnbounded \<and>
    (st = kUnchanged \<or> st = kReduced \<longrightarrow> same_optimum (upd_problem u) (upd_problem v) \<and>
       update_ok (on_problem recomputeAllActivities v) \<and> (\<forall>c<getNCols (upd_problem v). integral_box (upd_problem v) c))"
  using column_presolve_state [OF assms] unfolding stops_with_def by (elim disjE conjE) simp_all

text \<open>
  Two columns, the first integral with bounds that are not, the second without down locks and with a
  positive cost.
\<close>

definition ex_columns :: problem_update where
  "ex_columns = ex_state (ex_matrix\<lparr>obj_coeffs := [-1, 1], row_flags := [kLhsInf, kLhsInf],
     prob_domains := \<lparr>lower_bounds = [1 / 2, 1], upper_bounds = [7 / 2, 10], col_flags = [kIntegral, 0]\<rparr>\<rparr>)"

theorem trivialColumnPresolve_sound_witness:
  "same_optimum (upd_problem ex_columns) (upd_problem (snd (trivialColumnPresolve exact_num ex_options (on_problem recomputeLocks ex_columns)))) \<and>
   prob_domains (upd_problem (snd (trivialColumnPresolve exact_num ex_options (on_problem recomputeLocks ex_columns)))) =
     \<lparr>lower_bounds = [1, 1], upper_bounds = [3, 1], col_flags = [kIntegral, kFixed]\<rparr>"
proof -
  let ?u1 = "on_problem recomputeLocks ex_columns"
  let ?r = "trivialColumnPresolve exact_num ex_options ?u1"
  have "lines_ok (upd_problem ex_columns)" "sorted_lines (upd_problem ex_columns)"
    by (auto simp: ex_columns_def ex_state_def new_problem_update_def lines_ok_def matrix_ok_def ex_matrix_def
        getNCols_def getNRows_def col_of_matrix_def less_Suc_eq sorted_lines_def sorted_cols_def)
  moreover have "line_sizes_ok (rowsize (upd_problem ex_columns)) (row_coeffs (upd_problem ex_columns))"
    "line_sizes_ok (colsize (upd_problem ex_columns)) (col_coeffs (upd_problem ex_columns))" "marks_ok ex_columns"
    "\<forall>l\<in>set (col_locks (upd_problem ex_columns)). 0 \<le> fst l \<and> 0 \<le> snd l"
    by code_simp+
  moreover have "column_start (upd_problem ex_columns) 0" "column_start (upd_problem ex_columns) 1"
    by (simp_all add: column_start_def ex_columns_def ex_state_def new_problem_update_def ex_matrix_def integral_box_def
        flags_test_def flag_defs)
  then have "\<forall>c<getNCols (upd_problem ex_columns). column_start (upd_problem ex_columns) c"
    by (simp add: ex_columns_def ex_state_def new_problem_update_def ex_matrix_def getNCols_def less_Suc_eq)
  ultimately have pend: "columns_pending ex_columns" by (simp add: columns_pending_def)
  have u1: "?u1 = (if dualreds ex_options \<noteq> 0 then on_problem recomputeLocks ex_columns else ex_columns)" by (simp add: ex_options_def)
  have run: "?r = (fst ?r, snd ?r)" by simp
  have "fst ?r = kReduced" "prob_domains (upd_problem (snd ?r)) =
      \<lparr>lower_bounds = [1, 1], upper_bounds = [3, 1], col_flags = [kIntegral, kFixed]\<rparr>" by code_simp+
  then show ?thesis using trivialColumnPresolve_sound [OF pend u1 run] by blast
qed

section \<open>Small coefficients\<close>

text \<open>
  The columns whose entries were dropped, and what remains of the row.
\<close>

definition dropped_cols :: "problem_update \<Rightarrow> problem_update \<Rightarrow> nat list" where
  "dropped_cols u v = map (\<lambda>(r, c, w). c) (drop (length (upd_buffer u)) (upd_buffer v))"

text \<open>What dropping one entry does to the row.\<close>

definition sides_shifted :: "nat \<Rightarrow> rat \<Rightarrow> problem_update \<Rightarrow> problem_update \<Rightarrow> bool" where
  "sides_shifted r shift u v \<longleftrightarrow> upd_domains v = upd_domains u \<and>
     length (lhs_values (upd_problem v)) = length (lhs_values (upd_problem u)) \<and>
     length (rhs_values (upd_problem v)) = length (rhs_values (upd_problem u)) \<and>
     length (row_flags (upd_problem v)) = length (row_flags (upd_problem u)) \<and>
     (\<forall>fl\<in>{kLhsInf, kRhsInf}. upd_rflag v r [fl] = upd_rflag u r [fl]) \<and>
     (\<not> upd_rflag u r [kLhsInf] \<longrightarrow> lhs_values (upd_problem v) ! r = lhs_values (upd_problem u) ! r - shift) \<and>
     (\<not> upd_rflag u r [kRhsInf] \<longrightarrow> rhs_values (upd_problem v) ! r = rhs_values (upd_problem u) ! r - shift)"

lemma sides_shifted_trans: "sides_shifted r a u v \<Longrightarrow> sides_shifted r b v w \<Longrightarrow> sides_shifted r (a + b) u w"
  by (auto simp: sides_shifted_def)

lemma buffer_zero_shifted:
  "sides_shifted r 0 u (buffer_zero r c u)" "upd_buffer (buffer_zero r c u) = upd_buffer u @ [(r, c, 0)]"
  by (simp_all add: sides_shifted_def buffer_zero_def)

lemma shift_sides_shifted:
  assumes "r < length (lhs_values (upd_problem u))" and "r < length (rhs_values (upd_problem u))" and "r < length (row_flags (upd_problem u))"
  shows "sides_shifted r k u (shift_sides r k u)" and "upd_buffer (shift_sides r k u) = upd_buffer u"
  using assms by (simp_all add: sides_shifted_def shift_sides_def Let_def set_row_flag_def flags_test_set flag_defs)
    (simp_all add: on_problem_def on_stats_def)

lemma cleanup_loop_effect:
  assumes "distinct_cols es" and "in_domains (upd_domains u) x" and "\<forall>e\<in>set es. fst e < length (col_flags (upd_domains u))"
    and "total_mod \<le> feastol num / 10"
    and "r < length (lhs_values (upd_problem u))" and "r < length (rhs_values (upd_problem u))" and "r < length (row_flags (upd_problem u))"
    and "v = cleanup_loop num opts r len es total_mod u" and "0 \<le> minabscoeff opts"
  shows "\<exists>ds shift t. upd_buffer v = upd_buffer u @ map (\<lambda>c. (r, c, 0)) ds \<and> set ds \<subseteq> fst ` set es \<and>
    sides_shifted r shift u v \<and>
    row_value (filter (\<lambda>e. fst e \<in> set ds) es) x = shift + t \<and>
    \<bar>t\<bar> \<le> (feastol num / 10 - total_mod) + minabscoeff opts * (\<Sum>c\<leftarrow>ds. \<bar>x ! c\<bar>)"
  using assms
proof (induction es arbitrary: u total_mod)
  case Nil
  then have "sides_shifted r 0 u v" by (simp add: sides_shifted_def)
  then show ?case using Nil by (intro exI [of _ "[]"] exI [of _ 0]) (simp add: row_value_def)
next
  case (Cons e es)
  obtain c w where e: "e = (c, w)" by (cases e)
  let ?lb = "lower_bounds (upd_domains u) ! c" and ?ub = "upper_bounds (upd_domains u) ! c"
  let ?cost = "\<bar>w\<bar> * (?ub - ?lb)"
  have dist: "distinct_cols es" "c \<notin> fst ` set es" using Cons.prems(1) by (auto simp: e)
  have step: "\<exists>ds shift t. upd_buffer v = upd_buffer u @ map (\<lambda>c. (r, c, 0)) ds \<and> set ds \<subseteq> fst ` set (e # es) \<and>
      sides_shifted r shift u v \<and> row_value (filter (\<lambda>e. fst e \<in> set ds) (e # es)) x = shift + t \<and>
      \<bar>t\<bar> \<le> (feastol num / 10 - total_mod) + minabscoeff opts * (\<Sum>c\<leftarrow>ds. \<bar>x ! c\<bar>)"
    if run: "v = cleanup_loop num opts r len es tm u1" and tm: "tm \<le> feastol num / 10"
      and u1: "upd_buffer u1 = upd_buffer u @ map (\<lambda>c. (r, c, 0)) d1" "sides_shifted r s1 u u1" "d1 = [] \<or> d1 = [c]"
      and t1: "row_value (filter (\<lambda>e. fst e \<in> set d1) [e]) x = s1 + t1"
        "\<bar>t1\<bar> \<le> (tm - total_mod) + minabscoeff opts * (\<Sum>c\<leftarrow>d1. \<bar>x ! c\<bar>)" for tm u1 d1 s1 t1
  proof -
    have "in_domains (upd_domains u1) x" "\<forall>e\<in>set es. fst e < length (col_flags (upd_domains u1))"
      "r < length (lhs_values (upd_problem u1))" "r < length (rhs_values (upd_problem u1))" "r < length (row_flags (upd_problem u1))"
      using Cons.prems u1(2) by (simp_all add: sides_shifted_def)
    from Cons.IH [OF dist(1) this(1,2) tm this(3-5) run assms(9)] obtain ds shift t where
      IH: "upd_buffer v = upd_buffer u1 @ map (\<lambda>c. (r, c, 0)) ds" "set ds \<subseteq> fst ` set es" "sides_shifted r shift u1 v"
        "row_value (filter (\<lambda>e. fst e \<in> set ds) es) x = shift + t"
        "\<bar>t\<bar> \<le> (feastol num / 10 - tm) + minabscoeff opts * (\<Sum>c\<leftarrow>ds. \<bar>x ! c\<bar>)" by blast
    have "c \<notin> set ds" using IH(2) dist(2) by blast
    moreover have "filter (\<lambda>e. fst e \<in> set (d1 @ ds)) es = filter (\<lambda>e. fst e \<in> set ds) es"
      using u1(3) dist(2) by (intro filter_cong) (auto simp: image_iff)
    ultimately have "filter (\<lambda>e. fst e \<in> set (d1 @ ds)) (e # es) = filter (\<lambda>e. fst e \<in> set d1) [e] @ filter (\<lambda>e. fst e \<in> set ds) es"
      by (simp add: e)
    then have "row_value (filter (\<lambda>e. fst e \<in> set (d1 @ ds)) (e # es)) x = (s1 + shift) + (t1 + t)"
      using t1(1) IH(4) by (simp only: row_value_def map_append sum_list_append)
    moreover have "\<bar>t1 + t\<bar> \<le> (feastol num / 10 - total_mod) + minabscoeff opts * (\<Sum>c\<leftarrow>d1 @ ds. \<bar>x ! c\<bar>)"
      using t1(2) IH(5) abs_triangle_ineq [of t1 t] by (simp add: distrib_left)
    moreover have "set (d1 @ ds) \<subseteq> fst ` set (e # es)" using u1(3) IH(2) by (auto simp: e)
    ultimately show ?thesis
      using IH(1) u1(1) sides_shifted_trans [OF u1(2) IH(3)]
      by (intro exI [of _ "d1 @ ds"] exI [of _ "s1 + shift"] exI [of _ "t1 + t"]) simp
  qed
  have refl: "sides_shifted r 0 u u" by (simp add: sides_shifted_def)
  have none: "row_value (filter (\<lambda>e. fst e \<in> set []) [e]) x = 0 + 0" by (simp add: row_value_def)
  note keep = step [of total_mod u "[]" 0 0, OF _ Cons.prems(4) _ refl _ none]
  consider (skip) "upd_cflag u c [Pap_Domains.kUnbounded, kInactive]"
    | (tiny) "\<not> upd_cflag u c [Pap_Domains.kUnbounded, kInactive]" "\<bar>w\<bar> < minabscoeff opts"
    | (small) "\<not> upd_cflag u c [Pap_Domains.kUnbounded, kInactive]" "\<not> \<bar>w\<bar> < minabscoeff opts"
        "\<bar>w\<bar> \<le> 1 / 1000 \<and> ?cost * of_nat len \<le> 1 / 100 * feastol num \<and> total_mod + ?cost \<le> 1 / 10 * feastol num"
    | (large) "\<not> upd_cflag u c [Pap_Domains.kUnbounded, kInactive]" "\<not> \<bar>w\<bar> < minabscoeff opts"
        "\<not> (\<bar>w\<bar> \<le> 1 / 1000 \<and> ?cost * of_nat len \<le> 1 / 100 * feastol num \<and> total_mod + ?cost \<le> 1 / 10 * feastol num)"
    by blast
  then show ?case
  proof cases
    case tiny
    have "v = cleanup_loop num opts r len es total_mod (buffer_zero r c u)"
      using Cons.prems(8) tiny by (simp add: e Let_def)
    moreover have "\<bar>w * x ! c\<bar> \<le> minabscoeff opts * \<bar>x ! c\<bar>"
      using tiny(2) by (simp add: abs_mult mult_right_mono)
    ultimately show ?thesis
      using buffer_zero_shifted [where r = r and u = u and c = c] Cons.prems(4)
      by (intro step [of total_mod "buffer_zero r c u" "[c]" 0 "w * x ! c"]) (simp_all add: e row_value_def)
  next
    case small
    let ?u1 = "if ?lb \<noteq> 0 then shift_sides r (w * ?lb) (buffer_zero r c u) else buffer_zero r c u"
    have run: "v = cleanup_loop num opts r len es (total_mod + ?cost) ?u1"
      using Cons.prems(8) small unfolding e cleanup_loop.simps Let_def by (simp only: if_False if_True simp_thms)
    have r: "r < length (lhs_values (upd_problem (buffer_zero r c u)))" "r < length (rhs_values (upd_problem (buffer_zero r c u)))"
      "r < length (row_flags (upd_problem (buffer_zero r c u)))"
      using Cons.prems(5-7) by (simp_all add: buffer_zero_def)
    have u1: "sides_shifted r (w * ?lb) u ?u1" "upd_buffer ?u1 = upd_buffer u @ map (\<lambda>c. (r, c, 0)) [c]"
      using sides_shifted_trans [OF buffer_zero_shifted(1) shift_sides_shifted(1) [OF r]] shift_sides_shifted(2) [OF r]
        buffer_zero_shifted by simp_all
    have "in_col_domain (upd_domains u) c (x ! c)" using Cons.prems(2,3) by (simp add: e in_domains_def)
    moreover have "\<not> upd_cflag u c [kLbInf]" "\<not> upd_cflag u c [kUbInf]"
      using small(1) by (auto simp: flags_test_def Pap_Domains.kUnbounded_def bit.conj_disj_distrib word_or_eq_0)
    ultimately have "\<bar>x ! c - ?lb\<bar> \<le> ?ub - ?lb" by (simp add: in_col_domain_def)
    then have "\<bar>w * (x ! c - ?lb)\<bar> \<le> ?cost" by (simp add: abs_mult mult_left_mono)
    moreover have "0 \<le> minabscoeff opts * \<bar>x ! c\<bar>" using assms(9) by simp
    ultimately show ?thesis
      using small(3) u1
      by (intro step [OF run, of "[c]" "w * ?lb" "w * (x ! c - ?lb)"]) (auto simp: e row_value_def right_diff_distrib)
  next
    case skip
    have "v = cleanup_loop num opts r len es total_mod u"
      using Cons.prems(8) unfolding e cleanup_loop.simps Let_def if_P [OF skip] .
    from keep [OF this] show ?thesis by simp
  next
    case large
    have "v = cleanup_loop num opts r len es total_mod u"
      using Cons.prems(8) unfolding e cleanup_loop.simps Let_def if_not_P [OF large(1)] if_not_P [OF large(2)] if_not_P [OF large(3)] .
    from keep [OF this] show ?thesis by simp
  qed
qed

text \<open>
  C12. Dropping small coefficients of a row changes, at every point of the box, the distance of the row
  from each of its finite sides by at most a tenth of the feasibility tolerance, plus the least
  coefficient the options allow times the values in the columns whose entries were dropped.
\<close>

theorem cleanup_changes_little:
  assumes "problem_ok (upd_problem u)" and "r < getNRows (upd_problem u)" and "in_domains (upd_domains u) x"
    and "0 \<le> minabscoeff opts" and "0 \<le> feastol num" and "v = cleanupSmallCoefficients num opts r u"
  shows "\<exists>t. \<bar>t\<bar> \<le> feastol num / 10 + minabscoeff opts * (\<Sum>c\<leftarrow>dropped_cols u v. \<bar>x ! c\<bar>) \<and>
    (let row = row_coeffs (upd_problem u) ! r; row' = filter (\<lambda>e. fst e \<notin> set (dropped_cols u v)) row
     in (\<not> upd_rflag u r [kLhsInf] \<longrightarrow>
           row_value row x - lhs_values (upd_problem u) ! r = row_value row' x - lhs_values (upd_problem v) ! r + t) \<and>
        (\<not> upd_rflag u r [kRhsInf] \<longrightarrow>
           row_value row x - rhs_values (upd_problem u) ! r = row_value row' x - rhs_values (upd_problem v) ! r + t))"
proof -
  let ?p = "upd_problem u" and ?row = "row_coeffs (upd_problem u) ! r"
  have "?row \<in> set (row_coeffs ?p)" using assms(2) by (simp add: getNRows_def)
  then have "distinct_cols ?row \<and> (\<forall>(c, v)\<in>set ?row. c < getNCols ?p \<and> v \<noteq> 0)"
    using assms(1) unfolding problem_ok_def matrix_ok_def by blast
  then have row: "distinct_cols ?row" "\<forall>e\<in>set ?row. fst e < length (prob_cflags ?p)"
    using assms(1) by (auto simp: problem_ok_def)
  have len: "r < length (lhs_values ?p)" "r < length (rhs_values ?p)" "r < length (row_flags ?p)"
    using assms(1,2) by (simp_all add: problem_ok_def)
  have run: "v = cleanup_loop num opts r (length ?row) ?row 0 u" using assms(6) by (simp add: cleanupSmallCoefficients_def Let_def)
  have "0 \<le> feastol num / 10" using assms(5) by simp
  from cleanup_loop_effect [OF row(1) assms(3) row(2) this len run assms(4)] obtain ds shift t where
    d: "upd_buffer v = upd_buffer u @ map (\<lambda>c. (r, c, 0)) ds" "sides_shifted r shift u v"
      "row_value (filter (\<lambda>e. fst e \<in> set ds) ?row) x = shift + t"
      "\<bar>t\<bar> \<le> (feastol num / 10 - 0) + minabscoeff opts * (\<Sum>c\<leftarrow>ds. \<bar>x ! c\<bar>)" by blast
  have ds: "dropped_cols u v = ds" by (simp add: dropped_cols_def d(1) comp_def)
  have "row_value row x = row_value (filter (\<lambda>e. fst e \<in> set ds) row) x + row_value (filter (\<lambda>e. fst e \<notin> set ds) row) x" for row
    unfolding row_value_def by (induction row) auto
  from this [of ?row] have "row_value ?row x = row_value (filter (\<lambda>e. fst e \<in> set ds) ?row) x + row_value (filter (\<lambda>e. fst e \<notin> set ds) ?row) x" .
  then show ?thesis
    using d(2-4) unfolding ds Let_def by (intro exI [of _ t]) (auto simp: sides_shifted_def)
qed

text \<open>A row with a small coefficient at a column between one and ten.\<close>

definition ex_small :: problem_update where
  "ex_small = ex_state (ex_matrix\<lparr>row_coeffs := [[(0, 1), (1, 1 / (4 * 10 ^ 9))], []], col_coeffs := [[(0, 1)], [(0, 1 / (4 * 10 ^ 9))]],
     rowsize := [2, 0], colsize := [1, 1],
     prob_domains := \<lparr>lower_bounds = [0, 1], upper_bounds = [1, 10], col_flags = [0, 0]\<rparr>,
     row_activities := [\<lparr>act_min = 1 / (4 * 10 ^ 9), act_max = 1 + 1 / (4 * 10 ^ 8), ninfmin = 0, ninfmax = 0, lastchange = -1\<rparr>,
       \<lparr>act_min = 0, act_max = 0, ninfmin = 0, ninfmax = 0, lastchange = -1\<rparr>]\<rparr>)"

definition fine_options :: PresolveOptions where
  "fine_options = ex_options\<lparr>minabscoeff := 1 / 10 ^ 10\<rparr>"

theorem cleanup_changes_little_witness:
  "\<exists>t. \<bar>t\<bar> \<le> 1 / 10 ^ 7 + 1 / 10 ^ 9 \<and>
    row_value [(0, 1), (1, 1 / (4 * 10 ^ 9))] [1, 10] - 4 = row_value [(0, 1)] [1, 10] - (4 - 1 / (4 * 10 ^ 9)) + t"
proof -
  let ?v = "cleanupSmallCoefficients default_num fine_options 0 ex_small"
  have ok: "problem_ok (upd_problem ex_small)"
    by (auto simp: ex_small_def ex_state_def new_problem_update_def problem_ok_def matrix_ok_def ex_matrix_def
        getNCols_def getNRows_def col_of_matrix_def all_tracked_def tracks_def part_defs flags_test_def flag_defs less_Suc_eq)
  have facts: "0 < getNRows (upd_problem ex_small)" "in_domains (upd_domains ex_small) [1, 10]"
    "0 \<le> minabscoeff fine_options" "0 \<le> feastol default_num" by code_simp+
  have run: "dropped_cols ex_small ?v = [1]" "\<not> upd_rflag ex_small 0 [kRhsInf]"
    "row_coeffs (upd_problem ex_small) ! 0 = [(0, 1), (1, 1 / (4 * 10 ^ 9))]" "rhs_values (upd_problem ex_small) ! 0 = 4"
    "rhs_values (upd_problem ?v) ! 0 = 4 - 1 / (4 * 10 ^ 9)" "minabscoeff fine_options = 1 / 10 ^ 10"
    "feastol default_num = 1 / 10 ^ 6" by code_simp+
  show ?thesis
    using cleanup_changes_little [OF ok facts refl] run by (auto simp: Let_def)
qed

definition ex_tiny :: problem_update where
  "ex_tiny = ex_state (ex_matrix\<lparr>row_coeffs := [[(0, 1), (1, 9 / 10 ^ 11)], []], col_coeffs := [[(0, 1)], [(0, 9 / 10 ^ 11)]],
     rowsize := [2, 0], colsize := [1, 1], rhs_values := [0, 0],
     prob_domains := \<lparr>lower_bounds = [0, 0], upper_bounds = [1, 9 * 10 ^ 7], col_flags = [0, 0]\<rparr>,
     row_activities := [\<lparr>act_min = 0, act_max = 1 + 81 / 10 ^ 4, ninfmin = 0, ninfmax = 0, lastchange = -1\<rparr>,
       \<lparr>act_min = 0, act_max = 0, ninfmin = 0, ninfmax = 0, lastchange = -1\<rparr>]\<rparr>)"

text \<open>The sides move for the entries above the limit of the options only, and by their value at the lower bound.\<close>

definition moved_sides :: "PresolveOptions \<Rightarrow> variable_domains \<Rightarrow> nat list \<Rightarrow> sparse_vec \<Rightarrow> rat" where
  "moved_sides opts d ds es =
     (\<Sum>(c, w)\<leftarrow>filter (\<lambda>e. fst e \<in> set ds \<and> minabscoeff opts \<le> \<bar>snd e\<bar>) es. w * lower_bounds d ! c)"

lemma moved_sides_Cons:
  assumes "c \<notin> fst ` set es" and "d1 = [] \<or> d1 = [c]" and "c \<notin> set ds"
  shows "moved_sides opts d (d1 @ ds) ((c, w) # es) =
    (if d1 = [c] \<and> minabscoeff opts \<le> \<bar>w\<bar> then w * lower_bounds d ! c else 0) + moved_sides opts d ds es"
proof -
  have "filter (\<lambda>e. fst e \<in> set (d1 @ ds) \<and> minabscoeff opts \<le> \<bar>snd e\<bar>) es =
      filter (\<lambda>e. fst e \<in> set ds \<and> minabscoeff opts \<le> \<bar>snd e\<bar>) es"
    using assms(1,2) by (intro filter_cong) (auto simp: image_iff)
  then show ?thesis using assms(2,3) by (auto simp: moved_sides_def)
qed

lemma cleanup_loop_shift:
  assumes "distinct_cols es"
    and "r < length (lhs_values (upd_problem u))" and "r < length (rhs_values (upd_problem u))" and "r < length (row_flags (upd_problem u))"
    and "v = cleanup_loop num opts r len es total_mod u"
  shows "\<exists>ds. upd_buffer v = upd_buffer u @ map (\<lambda>c. (r, c, 0)) ds \<and> set ds \<subseteq> fst ` set es \<and>
    (\<forall>(c, w)\<in>set es. \<not> upd_cflag u c [Pap_Domains.kUnbounded, kInactive] \<and> \<bar>w\<bar> < minabscoeff opts \<longrightarrow> c \<in> set ds) \<and>
    sides_shifted r (moved_sides opts (upd_domains u) ds es) u v"
  using assms
proof (induction es arbitrary: u total_mod)
  case Nil
  then have "sides_shifted r 0 u v" by (simp add: sides_shifted_def)
  then show ?case using Nil by (intro exI [of _ "[]"]) (simp add: moved_sides_def)
next
  case (Cons e es)
  obtain c w where e: "e = (c, w)" by (cases e)
  let ?lb = "lower_bounds (upd_domains u) ! c"
  let ?out = "\<not> upd_cflag u c [Pap_Domains.kUnbounded, kInactive]" and ?tiny = "\<bar>w\<bar> < minabscoeff opts"
  have dist: "distinct_cols es" "c \<notin> fst ` set es" using Cons.prems(1) by (auto simp: e)
  have step: ?case
    if run: "v = cleanup_loop num opts r len es tm u1"
      and u1: "upd_buffer u1 = upd_buffer u @ map (\<lambda>c. (r, c, 0)) d1" "d1 = [] \<or> d1 = [c]" "?out \<and> ?tiny \<longrightarrow> d1 = [c]"
        "sides_shifted r (if d1 = [c] \<and> minabscoeff opts \<le> \<bar>w\<bar> then w * ?lb else 0) u u1" for tm u1 d1
  proof -
    have same: "upd_domains u1 = upd_domains u" "r < length (lhs_values (upd_problem u1))"
      "r < length (rhs_values (upd_problem u1))" "r < length (row_flags (upd_problem u1))"
      using Cons.prems(2-4) u1(4) by (simp_all add: sides_shifted_def)
    from Cons.IH [OF dist(1) same(2-4) run] obtain ds where
      IH: "upd_buffer v = upd_buffer u1 @ map (\<lambda>c. (r, c, 0)) ds" "set ds \<subseteq> fst ` set es"
        "\<forall>(c, w)\<in>set es. \<not> upd_cflag u c [Pap_Domains.kUnbounded, kInactive] \<and> \<bar>w\<bar> < minabscoeff opts \<longrightarrow> c \<in> set ds"
        "sides_shifted r (moved_sides opts (upd_domains u) ds es) u1 v"
      unfolding same(1) by blast
    have "c \<notin> set ds" using IH(2) dist(2) by blast
    from sides_shifted_trans [OF u1(4) IH(4)]
    have "sides_shifted r (moved_sides opts (upd_domains u) (d1 @ ds) (e # es)) u v"
      unfolding e moved_sides_Cons [OF dist(2) u1(2) \<open>c \<notin> set ds\<close>] .
    moreover have "set (d1 @ ds) \<subseteq> fst ` set (e # es)" using u1(2) IH(2) by (auto simp: e)
    moreover have "\<forall>(c, w)\<in>set (e # es). \<not> upd_cflag u c [Pap_Domains.kUnbounded, kInactive] \<and> \<bar>w\<bar> < minabscoeff opts \<longrightarrow> c \<in> set (d1 @ ds)"
      using u1(3) IH(3) by (auto simp: e)
    ultimately show ?thesis using IH(1) u1(1) by (intro exI [of _ "d1 @ ds"]) simp
  qed
  have refl: "sides_shifted r 0 u u" by (simp add: sides_shifted_def)
  let ?cost = "\<bar>w\<bar> * (upper_bounds (upd_domains u) ! c - ?lb)"
  let ?small = "\<bar>w\<bar> \<le> 1 / 1000 \<and> ?cost * of_nat len \<le> 1 / 100 * feastol num \<and> total_mod + ?cost \<le> 1 / 10 * feastol num"
  consider (skip) "\<not> ?out" | (tiny) "?out" "?tiny" | (small) "?out" "\<not> ?tiny" "?small" | (large) "?out" "\<not> ?tiny" "\<not> ?small"
    by blast
  then show ?case
  proof cases
    case tiny
    have "v = cleanup_loop num opts r len es total_mod (buffer_zero r c u)"
      using Cons.prems(5) tiny by (simp add: e Let_def)
    then show ?thesis
      using tiny buffer_zero_shifted [where r = r and u = u and c = c]
      by (intro step [of total_mod "buffer_zero r c u" "[c]"]) simp_all
  next
    case small
    let ?u1 = "if ?lb \<noteq> 0 then shift_sides r (w * ?lb) (buffer_zero r c u) else buffer_zero r c u"
    have run: "v = cleanup_loop num opts r len es (total_mod + ?cost) ?u1"
      using Cons.prems(5) small unfolding e cleanup_loop.simps Let_def by (simp only: if_False if_True simp_thms)
    have r: "r < length (lhs_values (upd_problem (buffer_zero r c u)))" "r < length (rhs_values (upd_problem (buffer_zero r c u)))"
      "r < length (row_flags (upd_problem (buffer_zero r c u)))"
      using Cons.prems(2-4) by (simp_all add: buffer_zero_def)
    have u1: "sides_shifted r (w * ?lb) u ?u1" "upd_buffer ?u1 = upd_buffer u @ map (\<lambda>c. (r, c, 0)) [c]"
      using sides_shifted_trans [OF buffer_zero_shifted(1) shift_sides_shifted(1) [OF r]] shift_sides_shifted(2) [OF r]
        buffer_zero_shifted by simp_all
    then show ?thesis using small(2) by (intro step [OF run u1(2)]) simp_all
  next
    case skip
    then have "upd_cflag u c [Pap_Domains.kUnbounded, kInactive]" by simp
    then have "v = cleanup_loop num opts r len es total_mod u"
      using Cons.prems(5) unfolding e cleanup_loop.simps Let_def by (simp only: if_True)
    then show ?thesis using skip refl by (intro step [of total_mod u "[]"]) simp_all
  next
    case large
    have "v = cleanup_loop num opts r len es total_mod u"
      using Cons.prems(5) unfolding e cleanup_loop.simps Let_def if_not_P [OF large(1)] if_not_P [OF large(2)] if_not_P [OF large(3)] .
    then show ?thesis using large(2) refl by (intro step [of total_mod u "[]"]) simp_all
  qed
qed

text \<open>
  C34. A coefficient below the least one the options allow is dropped whatever the size of its column
  (any bounded active one) and the sides of the row are not moved for it: the distance of the row from
  each finite side changes by exactly the whole terms of these entries, plus for the other dropped
  entries the distance of their columns from the lower bound. The first part is not bounded by the
  tolerances.
\<close>

theorem cleanup_drops_large_terms:
  assumes "problem_ok (upd_problem u)" and "r < getNRows (upd_problem u)" and "v = cleanupSmallCoefficients num opts r u"
  shows "let row = row_coeffs (upd_problem u) ! r; D = set (dropped_cols u v);
      tiny = filter (\<lambda>e. fst e \<in> D \<and> \<bar>snd e\<bar> < minabscoeff opts) row;
      other = filter (\<lambda>e. fst e \<in> D \<and> minabscoeff opts \<le> \<bar>snd e\<bar>) row; kept = filter (\<lambda>e. fst e \<notin> D) row;
      lost = row_value tiny x + (\<Sum>(c, w)\<leftarrow>other. w * (x ! c - lower_bounds (upd_domains u) ! c))
    in (\<forall>(c, w)\<in>set row. \<not> upd_cflag u c [Pap_Domains.kUnbounded, kInactive] \<and> \<bar>w\<bar> < minabscoeff opts \<longrightarrow> (c, w) \<in> set tiny) \<and>
      (\<not> upd_rflag u r [kLhsInf] \<longrightarrow>
         row_value row x - lhs_values (upd_problem u) ! r = row_value kept x - lhs_values (upd_problem v) ! r + lost) \<and>
      (\<not> upd_rflag u r [kRhsInf] \<longrightarrow>
         row_value row x - rhs_values (upd_problem u) ! r = row_value kept x - rhs_values (upd_problem v) ! r + lost)"
proof -
  let ?p = "upd_problem u" and ?row = "row_coeffs (upd_problem u) ! r" and ?d = "upd_domains u"
  have "?row \<in> set (row_coeffs ?p)" using assms(2) by (simp add: getNRows_def)
  then have row: "distinct_cols ?row" using assms(1) unfolding problem_ok_def matrix_ok_def by blast
  have len: "r < length (lhs_values ?p)" "r < length (rhs_values ?p)" "r < length (row_flags ?p)"
    using assms(1,2) by (simp_all add: problem_ok_def)
  have run: "v = cleanup_loop num opts r (length ?row) ?row 0 u" using assms(3) by (simp add: cleanupSmallCoefficients_def Let_def)
  from cleanup_loop_shift [OF row len run] obtain ds where
    d: "upd_buffer v = upd_buffer u @ map (\<lambda>c. (r, c, 0)) ds"
      "\<forall>(c, w)\<in>set ?row. \<not> upd_cflag u c [Pap_Domains.kUnbounded, kInactive] \<and> \<bar>w\<bar> < minabscoeff opts \<longrightarrow> c \<in> set ds"
      "sides_shifted r (moved_sides opts ?d ds ?row) u v" by blast
  have ds: "dropped_cols u v = ds" by (simp add: dropped_cols_def d(1) comp_def)
  have "row_value row x = moved_sides opts ?d ds row + row_value (filter (\<lambda>e. fst e \<notin> set ds) row) x +
      (row_value (filter (\<lambda>e. fst e \<in> set ds \<and> \<bar>snd e\<bar> < minabscoeff opts) row) x +
       (\<Sum>(c, w)\<leftarrow>filter (\<lambda>e. fst e \<in> set ds \<and> minabscoeff opts \<le> \<bar>snd e\<bar>) row. w * (x ! c - lower_bounds ?d ! c)))" for row
    unfolding row_value_def moved_sides_def by (induction row) (auto simp: algebra_simps)
  note split = this [of ?row]
  have "\<forall>(c, w)\<in>set ?row. \<not> upd_cflag u c [Pap_Domains.kUnbounded, kInactive] \<and> \<bar>w\<bar> < minabscoeff opts \<longrightarrow>
      (c, w) \<in> set (filter (\<lambda>e. fst e \<in> set ds \<and> \<bar>snd e\<bar> < minabscoeff opts) ?row)" using d(2) by auto
  moreover have "\<not> upd_rflag u r [kLhsInf] \<longrightarrow> lhs_values (upd_problem v) ! r = lhs_values ?p ! r - moved_sides opts ?d ds ?row"
    "\<not> upd_rflag u r [kRhsInf] \<longrightarrow> rhs_values (upd_problem v) ! r = rhs_values ?p ! r - moved_sides opts ?d ds ?row"
    using d(3) by (simp_all add: sides_shifted_def)
  ultimately show ?thesis unfolding ds Let_def using split by linarith
qed

theorem cleanup_drops_large_terms_witness:
  "row_value (row_coeffs (upd_problem ex_tiny) ! 0) [0, 9 * 10 ^ 7] - rhs_values (upd_problem ex_tiny) ! 0 =
     row_value [(0, 1)] [0, 9 * 10 ^ 7] - rhs_values (upd_problem (cleanupSmallCoefficients default_num fine_options 0 ex_tiny)) ! 0
       + 81 / 10 ^ 4 \<and> 1000 * feastol default_num < 81 / 10 ^ 4"
proof -
  let ?v = "cleanupSmallCoefficients default_num fine_options 0 ex_tiny"
  have ok: "problem_ok (upd_problem ex_tiny)"
    by (auto simp: ex_tiny_def ex_state_def new_problem_update_def problem_ok_def matrix_ok_def ex_matrix_def
        getNCols_def getNRows_def col_of_matrix_def all_tracked_def tracks_def part_defs flags_test_def flag_defs less_Suc_eq)
  have facts: "0 < getNRows (upd_problem ex_tiny)" "1000 * feastol default_num < 81 / 10 ^ 4" by code_simp+
  have run: "dropped_cols ex_tiny ?v = [1]" "\<not> upd_rflag ex_tiny 0 [kRhsInf]"
    "row_coeffs (upd_problem ex_tiny) ! 0 = [(0, 1), (1, 9 / 10 ^ 11)]" "minabscoeff fine_options = 1 / 10 ^ 10" by code_simp+
  show ?thesis
    using cleanup_drops_large_terms [OF ok facts(1) refl, of default_num fine_options "[0, 9 * 10 ^ 7]"] run facts(2)
    by (simp add: Let_def row_value_def)
qed

end
