(* ===== verification/Spec2Isabelle.thy ===== *)
theory Spec2Isabelle
  imports Pap_ParseNumber Pap_ProbingView Pap_DualPostsolve Pap_SimpleSubstitution Pap_Trivial
begin

text \<open>
  A verification development for the presolver PaPILO (\<open>src/papilo\<close>), a C++ template library over
  a number type \<open>REAL\<close>.

  \<^bold>\<open>The program.\<close>  PaPILO reads a mixed integer program \<open>min c x, lhs \<le> A x \<le> rhs, l \<le> x \<le> u\<close>
  (\<open>core/Problem.hpp\<close>), in which every column and row carries flags that say which of its values
  are infinite, integral, fixed and so on.  For every row it keeps a \<^emph>\<open>row activity\<close>
  (\<open>core/SingleRow.hpp\<close>): the least and greatest value of the row over the box of the columns,
  kept as a sum and a count of infinite contributions and updated whenever a bound or a
  coefficient changes.  The presolvers (\<open>presolvers/*.hpp\<close>) read the problem and the activities and
  propose transactions of reductions (\<open>core/Reductions.hpp\<close>); \<open>core/ProblemUpdate.hpp\<close> applies
  them and tells \<open>core/postsolve/PostsolveStorage.hpp\<close> what it does; when the reduced problem has
  been solved, \<open>core/postsolve/Postsolve.hpp\<close> replays the log backwards, turns the solution into
  one of the original problem and lets \<open>misc/PrimalDualSolValidation.hpp\<close> check it.

  \<^bold>\<open>What is modelled.\<close>
  \<^item> \<open>Pap_Prelude\<close>: the types of the model (sparse vectors, flag words), facts on lists and the
    collections of hints the other theories share.
  \<^item> \<open>Pap_Num\<close>, \<open>Pap_ParseNumber\<close>: \<open>misc/Num.hpp\<close>, the tolerant comparisons of class \<open>Num\<close>,
    rounding, and the number parser on a model of its input stream; \<open>misc/Flags.hpp\<close> as words.
  \<^item> \<open>Pap_Domains\<close>: \<open>core/VariableDomains.hpp\<close>, \<open>core/RowFlags.hpp\<close>, \<open>misc/compress_vector.hpp\<close>.
  \<^item> \<open>Pap_Activity\<close>, \<open>Pap_Activity_Laws\<close>, \<open>Pap_Propagate\<close>: \<open>core/SingleRow.hpp\<close>; the laws say that
    every incremental update leaves the activity a recomputation would give, that the status of a
    row is sound and that the bounds a row implies and propagates are valid.
  \<^item> \<open>Pap_Problem\<close>: \<open>core/Problem.hpp\<close>, \<open>core/Objective.hpp\<close>, \<open>misc/StableSum.hpp\<close>: feasibility, the
    violation check, locks, cliques, removal of implied bounds, substitution in the objective.
  \<^item> \<open>Pap_ProbingView\<close>: \<open>core/ProbingView.hpp\<close>, a state machine over copies of the bounds and the
    activities with change logs: setting a binary column, propagation to a fixpoint, storing and
    analysing implications, reset.
  \<^item> \<open>Pap_PostsolveStorage\<close>: the log as the three vectors \<open>types\<close>, \<open>indices\<close>, \<open>values\<close> with their
    start offsets, and every store operation; \<open>Pap_Solution\<close>: \<open>core/Solution.hpp\<close>,
    \<open>postsolve/BoundStorage.hpp\<close>, \<open>postsolve/SavedRow.hpp\<close>.
  \<^item> \<open>Pap_Postsolve\<close>: every step of \<open>Postsolve::undo\<close>; \<open>Pap_Postsolve_Laws\<close>, \<open>Pap_Lift\<close>: an abstract
    log of reductions with a \<^emph>\<open>lift\<close> on solutions, the refinement of the lift by the encoded log, and
    the soundness of the lifts; \<open>Pap_DualPostsolve\<close>: the dual equations across the steps.
  \<^item> \<open>Pap_Validation\<close>: \<open>misc/PrimalDualSolValidation.hpp\<close> and the verdict of \<open>undo\<close>.
  \<^item> \<open>Pap_Reductions\<close>: \<open>core/Reductions.hpp\<close>, the transactions a presolver emits, the units in which
    \<open>Presolve::applyReductions\<close> applies them, and the loop a presolver runs over its rows, alone or
    split over threads.
  \<^item> \<open>Pap_RowPresolvers\<close>: \<open>presolvers/CoefficientStrengthening.hpp\<close> and \<open>presolvers/SimpleProbing.hpp\<close>;
    \<open>Pap_SimpleSubstitution\<close>: \<open>presolvers/SimpleSubstitution.hpp\<close> on \<open>Pap_Euclid\<close>
    (\<open>misc/extended_euclidean.hpp\<close> on 64 bit integers); the theorems say that what they emit
    keeps the feasible points.
  \<^item> \<open>Pap_Matrix\<close>: \<open>core/ConstraintMatrix.hpp\<close> and the row operations of \<open>core/SparseStorage.hpp\<close>: sides,
    in place updates and merges of a row, the application of \<open>core/MatrixBuffer.hpp\<close> to both storages,
    deletion of rows and columns; each against a reference on plain rows, and the two storages stay
    one matrix.
  \<^item> \<open>Pap_ProblemUpdate\<close>, \<open>Pap_Flush\<close>, \<open>Pap_Flush_Laws\<close>: \<open>core/ProblemUpdate.hpp\<close>: the state of the class, its
    marks, \<open>fixCol\<close>, \<open>changeLB\<close>, \<open>changeUB\<close>, and the end of a round (\<open>flush\<close>) stage by stage; an
    invariant \<open>update_ok\<close> that every stage keeps, what each stage does to the set of solutions, and
    the composition: a flush keeps the optimum.
  \<^item> \<open>Pap_Compress\<close>, \<open>Pap_Trivial\<close>: what \<open>ProblemUpdate\<close> does before a round: the compression of the
    problem to its remaining rows and columns, through \<open>Problem\<close>, \<open>ConstraintMatrix\<close> and \<open>SparseStorage\<close>,
    and \<open>trivialPresolve\<close> with rounding, dual fixing by locks, small coefficients and trivial rows.

  \<^bold>\<open>How the code is rendered.\<close>  \<open>REAL\<close> is the exact rational type (\<open>papilo::Rational\<close>, one of the
  types the program is instantiated with), so \<open>+ - * /\<close> are exact and \<open>feastol\<close>, \<open>epsilon\<close> and
  \<open>hugeval\<close> are parameters of the record \<open>Num\<close>; the comparisons with tolerances are kept as written,
  also where the tolerance could be dropped.  The build is the release build: \<open>assert\<close> and blocks under
  \<open>#ifndef NDEBUG\<close> have no effect.  Division by zero is totalised by HOL (\<open>x / 0 = 0\<close>); the theorems
  assume nonzero coefficients where the code divides by them.  Containers indexed by row or column are
  lists, flags are 8 bit words, out-parameters and mutated members are returned in updated
  records, enumerations are datatypes.  Indices are natural numbers; the sizes of a problem fit into an
  \<open>int\<close>.  Logs and messages for the user are dropped.

  \<^bold>\<open>Interfaces.\<close>  The locales \<open>propagation_client\<close> (the callback of \<open>propagate_row\<close> keeps an
  invariant of its client), \<open>activity_listener\<close> and \<open>coeff_listener\<close> (who hears of an activity that
  changed), \<open>append_log\<close> (every call appends one segment), \<open>tolerance_order\<close> (what the comparisons
  with a tolerance promise), \<open>step_presolver\<close> and \<open>transaction_presolver\<close> (what one row of a presolver
  promises and what follows for its run) and \<open>coefficient_client\<close> (the callback of \<open>changeCoefficients\<close>) are interpreted on the code's own definitions in the theories that provide
  them; the properties of the probing view and of the storage rest on these interpretations.

  \<^bold>\<open>Fuel.\<close>  The only loop without a syntactic bound is \<open>ProbingView::propagateDomains\<close>, which runs with a
  number of rounds; \<open>probing_terminates\<close> shows that the total width of the box is enough on bounded
  integral columns (on continuous columns the code has no bound of its own beyond its minimal step).

  \<^bold>\<open>Not modelled.\<close>  Input and output (\<open>io\<close>), the C interfaces, the interfaces to solvers, proof logging
  (\<open>verification/VeriPb.hpp\<close>), timers, threads (the parallel branches only split the same work) and
  vendored code under \<open>external\<close>.  Floating point rounding is out of scope: where the code guards
  against it (\<open>StableSum\<close>, compensated sums) the guard is modelled and shown to be the identity in
  exact arithmetic.
\<close>

end
